(* ===== verification/Prelude.thy ===== *)
theory Prelude
  imports Main "HOL-Library.Word"
begin

text \<open>
  Shared ground of the development: the C integer types as words, the flat byte memory that
  the string and memory routines read and write, and the generic lemmas every component uses.

  Memory is a total function from addresses to bytes (the linear memory of the library's
  primary target, WebAssembly).  An address is a natural number and \<open>0\<close> is the null pointer.
  Plain \<^verbatim>\<open>char\<close> is signed, as it is for clang on wasm32 and x86: \<open>schar\<close> reads a byte as C reads
  a \<^verbatim>\<open>char\<close> in a comparison.
\<close>

unbundle bit_operations_syntax

section \<open>Types\<close>

type_synonym byte = "8 word"
type_synonym u16 = "16 word"
type_synonym u32 = "32 word"
type_synonym u64 = "64 word"
type_synonym ptr = nat
type_synonym mem = "nat \<Rightarrow> 8 word"

abbreviation (input) NULL :: ptr where
  "NULL \<equiv> 0"

text \<open>The values of \<^verbatim>\<open>errno\<close> the modelled functions set.\<close>

definition ENOMEM :: int where "ENOMEM = 12"
definition EEXIST :: int where "EEXIST = 17"
definition EINVAL :: int where "EINVAL = 22"
definition EDOM :: int where "EDOM = 33"
definition EILSEQ :: int where "EILSEQ = 84"

named_theorems mem_simps \<open>reading memory after a run of writes\<close>
named_theorems loop_unfold \<open>one-step unfoldings of the loops of the model\<close>

section \<open>Byte lists in memory\<close>

text \<open>\<open>rd m p n\<close> is the list of the \<open>n\<close> bytes at \<open>p\<close>; \<open>wr m p bs\<close> stores a list of bytes at \<open>p\<close>.\<close>

primrec rd :: "mem \<Rightarrow> ptr \<Rightarrow> nat \<Rightarrow> byte list" where
  "rd m p 0 = []"
| "rd m p (Suc n) = m p # rd m (Suc p) n"

primrec wr :: "mem \<Rightarrow> ptr \<Rightarrow> byte list \<Rightarrow> mem" where
  "wr m p [] = m"
| "wr m p (b # bs) = wr (m(p := b)) (Suc p) bs"

text \<open>\<open>cstr m p s\<close>: the memory holds the NUL-terminated string \<open>s\<close> at \<open>p\<close>.\<close>

primrec cstr :: "mem \<Rightarrow> ptr \<Rightarrow> byte list \<Rightarrow> bool" where
  "cstr m p [] \<longleftrightarrow> m p = 0"
| "cstr m p (x # xs) \<longleftrightarrow> x \<noteq> 0 \<and> m p = x \<and> cstr m (Suc p) xs"

definition schar :: "byte \<Rightarrow> int" where
  "schar b = sint b"

lemma length_rd [simp]: "length (rd m p n) = n"
  by (induction n arbitrary: p) auto

lemma nth_rd [simp]: "i < n \<Longrightarrow> rd m p n ! i = m (p + i)"
proof (induction n arbitrary: p i)
  case (Suc n)
  then show ?case by (cases i) auto
qed simp

lemma rd_eq_map: "rd m p n = map (\<lambda>i. m (p + i)) [0..<n]"
  by (rule nth_equalityI) auto

lemma rd_cong: "(\<And>i. i < n \<Longrightarrow> m (p + i) = m' (q + i)) \<Longrightarrow> rd m p n = rd m' q n"
  by (auto simp: rd_eq_map)

lemma rd_append: "rd m p (a + b) = rd m p a @ rd m (p + a) b"
  by (induction a arbitrary: p) auto

lemma rd_Suc_snoc: "rd m p (Suc n) = rd m p n @ [m (p + n)]"
  using rd_append [of m p n 1] by simp

lemma set_rd: "set (rd m p n) = m ` {p..<p + n}"
proof -
  have "{p..<p + n} = (+) p ` {0..<n}" by (simp add: add.commute)
  then show ?thesis by (simp only: rd_eq_map set_map set_upt image_image)
qed

lemma wr_outside [mem_simps]: "a < p \<or> p + length bs \<le> a \<Longrightarrow> wr m p bs a = m a"
  by (induction bs arbitrary: m p) auto

lemma wr_inside [mem_simps]: "i < length bs \<Longrightarrow> wr m p bs (p + i) = bs ! i"
proof (induction bs arbitrary: m p i)
  case (Cons b bs)
  show ?case
  proof (cases i)
    case 0
    then show ?thesis using wr_outside [of p "Suc p" bs] by simp
  next
    case (Suc j)
    then show ?thesis using Cons.IH [of j "m(p := b)" "Suc p"] Cons.prems
      by (simp del: fun_upd_apply)
  qed
qed simp

lemma wr_apply: "wr m p bs a = (if p \<le> a \<and> a < p + length bs then bs ! (a - p) else m a)"
proof (cases "p \<le> a \<and> a < p + length bs")
  case True
  then have "a - p < length bs" and "p + (a - p) = a" by auto
  then show ?thesis using True wr_inside [of "a - p" bs m p] by metis
next
  case False
  then show ?thesis by (auto intro: wr_outside)
qed

lemma wr_append: "wr m p (xs @ ys) = wr (wr m p xs) (p + length xs) ys"
  by (induction xs arbitrary: m p) auto

lemma rd_wr_same [simp]: "rd (wr m p bs) p (length bs) = bs"
  by (rule nth_equalityI) (auto simp: mem_simps)

lemma rd_wr_disjoint: "q + n \<le> p \<or> p + length bs \<le> q \<Longrightarrow> rd (wr m p bs) q n = rd m q n"
  by (rule rd_cong) (auto simp: wr_apply)

lemma concat_nth: "(\<And>i. length (F i) = r) \<Longrightarrow> k < n * r \<Longrightarrow> concat (map F [0..<n]) ! k = F (k div r) ! (k mod r)"
proof (induction n)
  case (Suc n)
  have l: "length (concat (map F [0..<n])) = n * r" using Suc.prems(1) by (simp add: length_concat comp_def sum_list_triv)
  show ?case
  proof (cases "k < n * r")
    case True
    then show ?thesis using Suc l by (simp add: nth_append)
  next
    case False
    then have "k div r = n" using Suc.prems(2) by (intro div_nat_eqI) (simp_all add: mult.commute)
    moreover from this have "k mod r = k - n * r" by (simp add: modulo_nat_def)
    ultimately have "k div r = n" "k mod r = k - n * r" by simp_all
    then show ?thesis using False l by (simp add: nth_append)
  qed
qed simp

section \<open>NUL-terminated strings\<close>

lemma cstr_iff:
  "cstr m p s \<longleftrightarrow> rd m p (length s) = s \<and> 0 \<notin> set s \<and> m (p + length s) = 0"
  by (induction s arbitrary: p) auto

lemma cstr_rd: "cstr m p s \<Longrightarrow> rd m p (length s) = s"
  by (simp add: cstr_iff)

lemma cstr_nth: "cstr m p s \<Longrightarrow> i < length s \<Longrightarrow> m (p + i) = s ! i"
  by (metis cstr_rd nth_rd)

lemma cstr_nonzero: "cstr m p s \<Longrightarrow> i < length s \<Longrightarrow> m (p + i) \<noteq> 0"
  by (metis cstr_iff cstr_nth nth_mem)

lemma cstr_end: "cstr m p s \<Longrightarrow> m (p + length s) = 0"
  by (simp add: cstr_iff)

lemma cstr_no_nul: "cstr m p s \<Longrightarrow> 0 \<notin> set s"
  by (simp add: cstr_iff)

lemma cstr_append: "cstr m p (xs @ ys) \<longleftrightarrow> rd m p (length xs) = xs \<and> 0 \<notin> set xs \<and> cstr m (p + length xs) ys"
  by (induction xs arbitrary: p) auto

lemma cstr_drop: "cstr m p s \<Longrightarrow> i \<le> length s \<Longrightarrow> cstr m (p + i) (drop i s)"
proof -
  assume a: "cstr m p s" and i: "i \<le> length s"
  have "cstr m p (take i s @ drop i s)" using a by simp
  then show ?thesis using i by (simp only: cstr_append) simp
qed

lemma cstr_unique: "cstr m p s \<Longrightarrow> cstr m p t \<Longrightarrow> s = t"
proof (induction s arbitrary: p t)
  case Nil
  then show ?case by (cases t) auto
next
  case (Cons x s)
  then show ?case by (cases t) auto
qed

lemma cstr_wr: "0 \<notin> set s \<Longrightarrow> cstr (wr m p (s @ [0])) p s"
proof -
  assume nz: "0 \<notin> set s"
  have "wr m p (s @ [0]) (p + length s) = 0"
    using wr_inside [of "length s" "s @ [0]" m p] by simp
  moreover have "rd (wr m p (s @ [0])) p (length s) = s"
    by (rule nth_equalityI) (auto simp: mem_simps nth_append)
  ultimately show ?thesis using nz by (simp add: cstr_iff)
qed

lemma cstr_cong:
  "(\<And>i. i \<le> length s \<Longrightarrow> m (p + i) = m' (p + i)) \<Longrightarrow> cstr m p s = cstr m' p s"
proof -
  assume eq: "\<And>i. i \<le> length s \<Longrightarrow> m (p + i) = m' (p + i)"
  have "rd m p (length s) = rd m' p (length s)" by (rule rd_cong) (simp add: eq)
  then show ?thesis by (simp add: cstr_iff eq)
qed

lemma cstr_wr_disjoint:
  "p + length s < q \<or> q + length bs \<le> p \<Longrightarrow> cstr (wr m q bs) p s = cstr m p s"
  by (rule cstr_cong) (auto simp: wr_apply)

section \<open>Plain \<^verbatim>\<open>char\<close> as a number\<close>

lemma schar_eq_iff [simp]: "schar a = schar b \<longleftrightarrow> a = b"
  by (auto simp: schar_def intro: signed_word_eqI)

lemma schar_0 [simp]: "schar 0 = 0"
  by (simp add: schar_def)

lemma schar_ascii: "uint b < 128 \<Longrightarrow> schar b = uint b"
  by (simp add: schar_def sint_uint signed_take_bit_eq_if_positive signed_take_bit_def
      bit_iff_odd take_bit_int_eq_self)

end
