(* ===== verification/Ctype.thy ===== *)
theory Ctype
  imports Prelude
begin

text \<open>
  The character classes and case conversions of \<^verbatim>\<open>include/ctype.h\<close>.  The C functions take an
  \<^verbatim>\<open>int\<close>; every predicate is the boolean its return value is tested for.  \<open>c | 32\<close> of
  \<^verbatim>\<open>isxdigit\<close> is the bitwise OR of the two's complement value, which is \<open>OR\<close> on \<open>int\<close>.
\<close>

unbundle bit_operations_syntax

definition isdigit :: "int \<Rightarrow> bool" where
  "isdigit c \<longleftrightarrow> c \<ge> 48 \<and> c \<le> 57"

definition iscntrl :: "int \<Rightarrow> bool" where
  "iscntrl c \<longleftrightarrow> (c \<ge> 0 \<and> c < 32) \<or> c = 127"

definition isspace :: "int \<Rightarrow> bool" where
  "isspace c \<longleftrightarrow> c = 32 \<or> c = 12 \<or> c = 10 \<or> c = 13 \<or> c = 9 \<or> c = 11"

definition isprint :: "int \<Rightarrow> bool" where
  "isprint c \<longleftrightarrow> c \<ge> 32 \<and> c < 127"

definition isgraph :: "int \<Rightarrow> bool" where
  "isgraph c \<longleftrightarrow> isprint c \<and> c \<noteq> 32"

definition isupper :: "int \<Rightarrow> bool" where
  "isupper c \<longleftrightarrow> c \<ge> 65 \<and> c \<le> 90"

definition islower :: "int \<Rightarrow> bool" where
  "islower c \<longleftrightarrow> c \<ge> 97 \<and> c \<le> 122"

definition isalpha :: "int \<Rightarrow> bool" where
  "isalpha c \<longleftrightarrow> isupper c \<or> islower c"

definition isalnum :: "int \<Rightarrow> bool" where
  "isalnum c \<longleftrightarrow> isdigit c \<or> isalpha c"

definition ispunct :: "int \<Rightarrow> bool" where
  "ispunct c \<longleftrightarrow> isgraph c \<and> \<not> isalnum c"

definition isxdigit :: "int \<Rightarrow> bool" where
  "isxdigit c \<longleftrightarrow> isdigit c \<or> ((c OR 32) \<ge> 97 \<and> (c OR 32) \<le> 102)"

definition isblank :: "int \<Rightarrow> bool" where
  "isblank c \<longleftrightarrow> c = 32 \<or> c = 9"

definition tolower :: "int \<Rightarrow> int" where
  "tolower c = (if c \<ge> 65 \<and> c \<le> 90 then c + 32 else c)"

definition toupper :: "int \<Rightarrow> int" where
  "toupper c = (if c \<ge> 97 \<and> c \<le> 122 then c - 32 else c)"

lemmas ctype_defs = isdigit_def iscntrl_def isspace_def isprint_def isgraph_def isupper_def
  islower_def isalpha_def isalnum_def ispunct_def isblank_def

lemma tolower_idem [simp]: "tolower (tolower c) = tolower c"
  by (simp add: tolower_def)

lemma toupper_tolower: "islower c \<or> isupper c \<Longrightarrow> tolower (toupper c) = tolower c"
  by (auto simp: tolower_def toupper_def ctype_defs)

lemma tolower_eq_0_iff [simp]: "tolower c = 0 \<longleftrightarrow> c = 0"
  by (simp add: tolower_def)

lemma or_32_eq: "(c::int) OR 32 = (if odd (c div 32) then c else c + 32)"
proof -
  have b: "bit (32::int) n \<longleftrightarrow> n = 5" for n
    using bit_exp_iff [of 5 n, where ?'a = int] by auto
  have "c AND 32 = of_bool (bit c 5) * 32"
    by (rule bit_eqI) (auto simp: bit_and_iff b)
  moreover have "bit c 5 \<longleftrightarrow> odd (c div 32)"
    by (simp add: bit_iff_odd)
  ultimately show ?thesis using plus_and_or [of c 32] by auto
qed

text \<open>The hexadecimal digits are exactly the three ranges the standard names.\<close>

lemma isxdigit_iff: "isxdigit c \<longleftrightarrow> isdigit c \<or> (65 \<le> c \<and> c \<le> 70) \<or> (97 \<le> c \<and> c \<le> 102)"
proof -
  have "(97 \<le> c OR 32 \<and> c OR 32 \<le> 102) \<longleftrightarrow> (65 \<le> c \<and> c \<le> 70) \<or> (97 \<le> c \<and> c \<le> 102)"
    unfolding or_32_eq by presburger
  then show ?thesis by (simp add: isxdigit_def)
qed

end
