(* ===== verification/CMem.thy ===== *)
theory CMem
  imports Prelude
begin

text \<open>
  The memory operations of \<^verbatim>\<open>include/string.h\<close> on the flat byte store: \<^verbatim>\<open>memset\<close>, \<^verbatim>\<open>memmove\<close>,
  \<^verbatim>\<open>memcmp\<close>, \<^verbatim>\<open>memchr\<close>, \<^verbatim>\<open>memcpy\<close>, \<^verbatim>\<open>memmem\<close> and \<^verbatim>\<open>memccpy\<close>, loop by loop.  Each loop is a
  recursive function of the loop counter; a routine that writes returns the new memory with
  the C return value.  The lemmas relate every routine to \<open>rd\<close> and \<open>wr\<close>.
\<close>

unbundle bit_operations_syntax

section \<open>Definitions\<close>

function memset_loop :: "mem \<Rightarrow> ptr \<Rightarrow> byte \<Rightarrow> nat \<Rightarrow> nat \<Rightarrow> mem" where
  "memset_loop m p c i n = (if i < n then memset_loop (m(p + i := c)) p c (Suc i) n else m)"
  by pat_completeness auto
termination by (relation "measure (\<lambda>(m, p, c, i, n). n - i)") auto

definition memset :: "mem \<Rightarrow> ptr \<Rightarrow> int \<Rightarrow> nat \<Rightarrow> mem \<times> ptr" where
  "memset m s c n = (if s = NULL then (m, NULL) else (memset_loop m s (word_of_int c) 0 n, s))"

function copy_up :: "mem \<Rightarrow> ptr \<Rightarrow> ptr \<Rightarrow> nat \<Rightarrow> nat \<Rightarrow> mem" where
  "copy_up m d s i n = (if i < n then copy_up (m(d + i := m (s + i))) d s (Suc i) n else m)"
  by pat_completeness auto
termination by (relation "measure (\<lambda>(m, d, s, i, n). n - i)") auto

fun copy_down :: "mem \<Rightarrow> ptr \<Rightarrow> ptr \<Rightarrow> nat \<Rightarrow> mem" where
  "copy_down m d s 0 = m"
| "copy_down m d s (Suc i) = copy_down (m(d + i := m (s + i))) d s i"

definition memmove :: "mem \<Rightarrow> ptr \<Rightarrow> ptr \<Rightarrow> nat \<Rightarrow> mem \<times> ptr" where
  "memmove m dest src n =
     (if dest = NULL \<or> src = NULL then (m, NULL)
      else if dest < src then (copy_up m dest src 0 n, dest)
      else (copy_down m dest src n, dest))"

definition memcpy :: "mem \<Rightarrow> ptr \<Rightarrow> ptr \<Rightarrow> nat \<Rightarrow> mem \<times> ptr" where
  "memcpy m dest src n =
     (if dest = NULL \<or> src = NULL then (m, NULL) else (copy_up m dest src 0 n, dest))"

function memcmp_loop :: "mem \<Rightarrow> ptr \<Rightarrow> ptr \<Rightarrow> nat \<Rightarrow> nat \<Rightarrow> int" where
  "memcmp_loop m a b i n =
     (if i < n then
        (if m (a + i) \<noteq> m (b + i) then (if m (a + i) < m (b + i) then - 1 else 1)
         else memcmp_loop m a b (Suc i) n)
      else 0)"
  by pat_completeness auto
termination by (relation "measure (\<lambda>(m, a, b, i, n). n - i)") auto

text \<open>The guard \<^verbatim>\<open>!a || !b\<close> shared by the comparison routines.\<close>

definition null_cmp :: "ptr \<Rightarrow> ptr \<Rightarrow> int" where
  "null_cmp a b = (if a = b then 0 else if a \<noteq> NULL then 1 else - 1)"

definition memcmp :: "mem \<Rightarrow> ptr \<Rightarrow> ptr \<Rightarrow> nat \<Rightarrow> int" where
  "memcmp m a b n = (if a = NULL \<or> b = NULL then null_cmp a b else memcmp_loop m a b 0 n)"

function memchr_loop :: "mem \<Rightarrow> ptr \<Rightarrow> byte \<Rightarrow> nat \<Rightarrow> nat \<Rightarrow> ptr" where
  "memchr_loop m p c i n =
     (if i < n then (if m (p + i) = c then p + i else memchr_loop m p c (Suc i) n) else NULL)"
  by pat_completeness auto
termination by (relation "measure (\<lambda>(m, p, c, i, n). n - i)") auto

definition memchr :: "mem \<Rightarrow> ptr \<Rightarrow> int \<Rightarrow> nat \<Rightarrow> ptr" where
  "memchr m s c n = (if s = NULL then NULL else memchr_loop m s (word_of_int c) 0 n)"

function memmem_loop :: "mem \<Rightarrow> ptr \<Rightarrow> ptr \<Rightarrow> nat \<Rightarrow> nat \<Rightarrow> nat \<Rightarrow> ptr" where
  "memmem_loop m h ndl nl i lim =
     (if i \<le> lim then
        (if memcmp m (h + i) ndl nl = 0 then h + i else memmem_loop m h ndl nl (Suc i) lim)
      else NULL)"
  by pat_completeness auto
termination by (relation "measure (\<lambda>(m, h, ndl, nl, i, lim). Suc lim - i)") auto

definition memmem :: "mem \<Rightarrow> ptr \<Rightarrow> nat \<Rightarrow> ptr \<Rightarrow> nat \<Rightarrow> ptr" where
  "memmem m hay hl ndl nl =
     (if hay = NULL \<or> ndl = NULL \<or> nl > hl then NULL else memmem_loop m hay ndl nl 0 (hl - nl))"

function memccpy_loop :: "mem \<Rightarrow> ptr \<Rightarrow> ptr \<Rightarrow> byte \<Rightarrow> nat \<Rightarrow> nat \<Rightarrow> mem \<times> ptr" where
  "memccpy_loop m d s c i n =
     (if i < n then
        (let m' = m(d + i := m (s + i)) in
         if m' (s + i) = c then (m', d + i + 1) else memccpy_loop m' d s c (Suc i) n)
      else (m, NULL))"
  by pat_completeness auto
termination by (relation "measure (\<lambda>(m, d, s, c, i, n). n - i)") auto

definition memccpy :: "mem \<Rightarrow> ptr \<Rightarrow> ptr \<Rightarrow> int \<Rightarrow> nat \<Rightarrow> mem \<times> ptr" where
  "memccpy m dest src c n =
     (if dest = NULL \<or> src = NULL then (m, NULL)
      else memccpy_loop m dest src (word_of_int c) 0 n)"

declare memset_loop.simps [simp del] copy_up.simps [simp del] memcmp_loop.simps [simp del]
  memchr_loop.simps [simp del] memmem_loop.simps [simp del] memccpy_loop.simps [simp del]

lemmas mem_unfold [loop_unfold] = memset_loop.simps copy_up.simps memcmp_loop.simps
  memchr_loop.simps memmem_loop.simps memccpy_loop.simps

section \<open>Fill and copy\<close>

lemma memset_loop_wr: "memset_loop m p c i n = wr m (p + i) (replicate (n - i) c)"
proof (induction m p c i n rule: memset_loop.induct)
  case (1 m p c i n)
  show ?case
  proof (cases "i < n")
    case True
    then have "replicate (n - i) c = c # replicate (n - Suc i) c"
      by (metis Suc_diff_Suc replicate_Suc)
    with 1 True show ?thesis
      by (simp add: memset_loop.simps [of m p c i n] del: fun_upd_apply)
  next
    case False
    then show ?thesis by (simp add: memset_loop.simps [of m p c i n])
  qed
qed

lemma memset_eq: "s \<noteq> NULL \<Longrightarrow> memset m s c n = (wr m s (replicate n (word_of_int c)), s)"
  by (simp add: memset_def memset_loop_wr)

text \<open>
  One step of a forward copy reads a byte that no earlier step has written, as long as the
  destination does not start inside the part of the source still to be read.
\<close>

lemma copy_up_apply:
  "d \<le> s \<or> s + n \<le> d \<Longrightarrow> i \<le> n \<Longrightarrow>
   copy_up m d s i n a = (if d + i \<le> a \<and> a < d + n then m (s + (a - d)) else m a)"
proof (induction m d s i n arbitrary: a rule: copy_up.induct)
  case (1 m d s i n)
  show ?case
  proof (cases "i < n")
    case True
    let ?m = "m(d + i := m (s + i))"
    have "copy_up ?m d s (Suc i) n a
        = (if d + Suc i \<le> a \<and> a < d + n then ?m (s + (a - d)) else ?m a)"
      using 1 True by (simp del: fun_upd_apply)
    moreover have "?m (s + (a - d)) = m (s + (a - d))" if "d + Suc i \<le> a" "a < d + n"
      using that 1 True by auto
    ultimately show ?thesis
      using True by (auto simp: copy_up.simps [of m d s i n] le_Suc_eq)
  next
    case False
    with 1 have "i = n" by simp
    then show ?thesis by (auto simp: copy_up.simps [of m d s n n])
  qed
qed

lemma copy_down_apply:
  "s \<le> d \<Longrightarrow> copy_down m d s n a = (if d \<le> a \<and> a < d + n then m (s + (a - d)) else m a)"
proof (induction m d s n arbitrary: a rule: copy_down.induct)
  case (2 m d s i)
  let ?m = "m(d + i := m (s + i))"
  have "copy_down ?m d s i a = (if d \<le> a \<and> a < d + i then ?m (s + (a - d)) else ?m a)"
    using 2 by (simp del: fun_upd_apply)
  moreover have "?m (s + (a - d)) = m (s + (a - d))" if "d \<le> a" "a < d + i"
    using that 2 by auto
  ultimately show ?case by (auto simp: less_Suc_eq)
qed auto

lemma ext_wr: "(\<And>a. f a = (if d \<le> a \<and> a < d + n then m (s + (a - d)) else m a)) \<Longrightarrow>
   f = wr m d (rd m s n)"
  by (rule ext) (auto simp: wr_apply)

lemma copy_up_wr: "d \<le> s \<or> s + n \<le> d \<Longrightarrow> copy_up m d s 0 n = wr m d (rd m s n)"
  by (rule ext_wr) (simp add: copy_up_apply)

lemma copy_down_wr: "s \<le> d \<Longrightarrow> copy_down m d s n = wr m d (rd m s n)"
  by (rule ext_wr) (simp add: copy_down_apply)

lemma memmove_eq:
  "dest \<noteq> NULL \<Longrightarrow> src \<noteq> NULL \<Longrightarrow> memmove m dest src n = (wr m dest (rd m src n), dest)"
  by (simp add: memmove_def copy_up_wr copy_down_wr)

lemma memcpy_eq:
  "dest \<noteq> NULL \<Longrightarrow> src \<noteq> NULL \<Longrightarrow> dest \<le> src \<or> src + n \<le> dest \<Longrightarrow>
   memcpy m dest src n = (wr m dest (rd m src n), dest)"
  by (simp add: memcpy_def copy_up_wr)

section \<open>Comparison and search\<close>


lemma memcmp_loop_0_iff: "memcmp_loop m a b i n = 0 \<longleftrightarrow> (\<forall>j. i \<le> j \<and> j < n \<longrightarrow> m (a + j) = m (b + j))"
proof (induction m a b i n rule: memcmp_loop.induct)
  case (1 m a b i n)
  show ?case
  proof (cases "i < n \<and> m (a + i) = m (b + i)")
    case True
    with 1 show ?thesis
      by (auto simp: memcmp_loop.simps [of m a b i n] Suc_le_eq) (metis le_neq_implies_less)
  next
    case False
    then show ?thesis by (auto simp: memcmp_loop.simps [of m a b i n])
  qed
qed

lemma memcmp_loop_0_rd: "memcmp_loop m a b 0 n = 0 \<longleftrightarrow> rd m a n = rd m b n"
  by (auto simp: memcmp_loop_0_iff list_eq_iff_nth_eq)

text \<open>The sign of \<open>memcmp\<close> is decided by the first difference, read as unsigned bytes.\<close>

lemma memcmp_loop_diff:
  "i \<le> k \<Longrightarrow> k < n \<Longrightarrow> (\<And>j. i \<le> j \<Longrightarrow> j < k \<Longrightarrow> m (a + j) = m (b + j)) \<Longrightarrow> m (a + k) \<noteq> m (b + k) \<Longrightarrow>
   memcmp_loop m a b i n = (if m (a + k) < m (b + k) then - 1 else 1)"
proof (induction m a b i n rule: memcmp_loop.induct)
  case (1 m a b i n)
  show ?case
  proof (cases "i = k")
    case True
    with 1 show ?thesis by (simp add: memcmp_loop.simps [of m a b k n])
  next
    case False
    then have "m (a + i) = m (b + i)" using 1 by simp
    with False 1 show ?thesis by (simp add: memcmp_loop.simps [of m a b i n])
  qed
qed

lemma memcmp_antisym: "memcmp_loop m b a i n = - memcmp_loop m a b i n"
proof (induction m a b i n rule: memcmp_loop.induct)
  case (1 m a b i n)
  then show ?case
    by (auto simp: memcmp_loop.simps [of m a b i n] memcmp_loop.simps [of m b a i n])
qed

lemma memchr_loop_found:
  "i \<le> k \<Longrightarrow> k < n \<Longrightarrow> (\<And>j. i \<le> j \<Longrightarrow> j < k \<Longrightarrow> m (p + j) \<noteq> c) \<Longrightarrow> m (p + k) = c \<Longrightarrow>
   memchr_loop m p c i n = p + k"
proof (induction m p c i n rule: memchr_loop.induct)
  case (1 m p c i n)
  show ?case
  proof (cases "i = k")
    case True
    with 1 show ?thesis by (simp add: memchr_loop.simps [of m p c k n])
  next
    case False
    then have "m (p + i) \<noteq> c" using 1 by simp
    with False 1 show ?thesis by (simp add: memchr_loop.simps [of m p c i n])
  qed
qed

lemma memchr_loop_absent:
  "(\<And>j. i \<le> j \<Longrightarrow> j < n \<Longrightarrow> m (p + j) \<noteq> c) \<Longrightarrow> memchr_loop m p c i n = NULL"
proof (induction m p c i n rule: memchr_loop.induct)
  case (1 m p c i n)
  then show ?case by (simp add: memchr_loop.simps [of m p c i n])
qed

text \<open>\<open>memmem\<close> finds the first place where the needle's bytes occur, and only fails when none is left.\<close>

lemma memmem_loop_sound:
  "h \<noteq> NULL \<Longrightarrow> ndl \<noteq> NULL \<Longrightarrow> memmem_loop m h ndl nl i lim = r \<Longrightarrow> r \<noteq> NULL \<Longrightarrow>
   \<exists>k. i \<le> k \<and> k \<le> lim \<and> r = h + k \<and> rd m (h + k) nl = rd m ndl nl \<and>
     (\<forall>j. i \<le> j \<and> j < k \<longrightarrow> rd m (h + j) nl \<noteq> rd m ndl nl)"
proof (induction m h ndl nl i lim rule: memmem_loop.induct)
  case (1 m h ndl nl i lim)
  have lim: "i \<le> lim" using 1(4,5) by (auto simp: memmem_loop.simps [of m h ndl nl i lim] split: if_splits)
  have hit: "memcmp m (h + i) ndl nl = 0 \<longleftrightarrow> rd m (h + i) nl = rd m ndl nl"
    using 1(2,3) by (simp add: memcmp_def memcmp_loop_0_rd)
  show ?case
  proof (cases "rd m (h + i) nl = rd m ndl nl")
    case True
    then show ?thesis
      using lim hit 1(4) by (auto simp: memmem_loop.simps [of m h ndl nl i lim] intro!: exI [of _ i])
  next
    case False
    then have "memmem_loop m h ndl nl (Suc i) lim = r"
      using lim hit 1(4) by (simp add: memmem_loop.simps [of m h ndl nl i lim])
    then obtain k where "Suc i \<le> k" "k \<le> lim" "r = h + k" "rd m (h + k) nl = rd m ndl nl"
      "\<forall>j. Suc i \<le> j \<and> j < k \<longrightarrow> rd m (h + j) nl \<noteq> rd m ndl nl"
      using 1(1) lim hit False 1(2,3,5) by blast
    with False show ?thesis by (metis Suc_leD le_antisym not_less_eq_eq)
  qed
qed

lemma memmem_loop_complete:
  "h \<noteq> NULL \<Longrightarrow> ndl \<noteq> NULL \<Longrightarrow> i \<le> k \<Longrightarrow> k \<le> lim \<Longrightarrow> rd m (h + k) nl = rd m ndl nl \<Longrightarrow>
   memmem_loop m h ndl nl i lim \<noteq> NULL"
proof (induction m h ndl nl i lim rule: memmem_loop.induct)
  case (1 m h ndl nl i lim)
  show ?case
  proof (cases "memcmp m (h + i) ndl nl = 0")
    case True
    with 1 show ?thesis by (simp add: memmem_loop.simps [of m h ndl nl i lim])
  next
    case False
    then have "i \<noteq> k" using 1 by (auto simp: memcmp_def memcmp_loop_0_rd)
    with False 1 show ?thesis by (simp add: memmem_loop.simps [of m h ndl nl i lim])
  qed
qed

section \<open>Properties\<close>

text \<open>
  C11: \<^verbatim>\<open>memmove\<close> copies as if through a temporary buffer however source and destination overlap,
  changes no byte outside the destination, and is a no-op returning NULL on a null argument.
\<close>

theorem memmove_overlap:
  "memmove m dest src n =
     (if dest = NULL \<or> src = NULL then (m, NULL)
      else (\<lambda>a. if dest \<le> a \<and> a < dest + n then m (src + (a - dest)) else m a, dest))"
  by (auto simp: memmove_eq wr_apply fun_eq_iff) (auto simp: memmove_def)

text \<open>
  \<^verbatim>\<open>memmem\<close> returns the first position of the haystack at which the needle's bytes occur, and
  NULL exactly when there is none (or an argument is null, or the needle is longer).
\<close>

theorem memmem_first:
  "memmem m hay hl ndl nl =
     (if hay \<noteq> NULL \<and> ndl \<noteq> NULL \<and> (\<exists>k. k + nl \<le> hl \<and> rd m (hay + k) nl = rd m ndl nl)
      then hay + (LEAST k. k + nl \<le> hl \<and> rd m (hay + k) nl = rd m ndl nl) else NULL)"
proof (cases "hay = NULL \<or> ndl = NULL \<or> hl < nl")
  case True
  then show ?thesis by (auto simp: memmem_def)
next
  case False
  define r where "r = memmem_loop m hay ndl nl 0 (hl - nl)"
  have r: "memmem m hay hl ndl nl = r" using False by (simp add: memmem_def r_def)
  show ?thesis
  proof (cases "r = NULL")
    case True
    then have "\<not> (\<exists>k. k + nl \<le> hl \<and> rd m (hay + k) nl = rd m ndl nl)"
      using memmem_loop_complete [of hay ndl 0 _ "hl - nl" m nl] False r_def by fastforce
    then show ?thesis using r True by simp
  next
    case nn: False
    obtain k where k: "k \<le> hl - nl" "r = hay + k" "rd m (hay + k) nl = rd m ndl nl"
      "\<forall>j<k. rd m (hay + j) nl \<noteq> rd m ndl nl"
      using memmem_loop_sound [of hay ndl m nl 0 "hl - nl" r] False nn r_def by auto
    have "(LEAST k. k + nl \<le> hl \<and> rd m (hay + k) nl = rd m ndl nl) = k"
      using k False by (intro Least_equality) (auto simp: not_less [symmetric])
    moreover have "\<exists>k. k + nl \<le> hl \<and> rd m (hay + k) nl = rd m ndl nl"
      using k(1,3) False by (intro exI [of _ k]) auto
    ultimately show ?thesis using k(2) False r by simp
  qed
qed

end
