(* ===== verification/CStr.thy ===== *)
theory CStr
  imports CMem "HOL-Library.Monad_Syntax"
begin

text \<open>
  The string operations of \<^verbatim>\<open>include/string.h\<close> on the flat byte store.  A loop that runs to a
  terminating NUL may not end, so it is a \<^theory_text>\<open>partial_function (option)\<close> and \<open>None\<close> is "does not
  return"; the lemmas show that every routine returns on memory holding strings (\<open>cstr\<close>) and
  give its result and its effect on memory as an operation on byte lists.
\<close>

unbundle bit_operations_syntax

section \<open>Length and copy\<close>

partial_function (option) strlen_loop :: "mem \<Rightarrow> ptr \<Rightarrow> nat \<Rightarrow> nat option" where
  "strlen_loop m s len = (if m (s + len) \<noteq> 0 then strlen_loop m s (Suc len) else Some len)"

definition strlen :: "mem \<Rightarrow> ptr \<Rightarrow> nat option" where
  "strlen m s = (if s = NULL then Some 0 else strlen_loop m s 0)"

function strnlen_loop :: "mem \<Rightarrow> ptr \<Rightarrow> nat \<Rightarrow> nat \<Rightarrow> nat" where
  "strnlen_loop m s n i = (if i < n \<and> m (s + i) \<noteq> 0 then strnlen_loop m s n (Suc i) else i)"
  by pat_completeness auto
termination by (relation "measure (\<lambda>(m, s, n, i). n - i)") auto

definition strnlen :: "mem \<Rightarrow> ptr \<Rightarrow> nat \<Rightarrow> nat" where
  "strnlen m s n = (if s = NULL then 0 else strnlen_loop m s n 0)"

text \<open>The loop \<^verbatim>\<open>while ((*p++ = *src++));\<close> of \<^verbatim>\<open>strcpy\<close> and \<^verbatim>\<open>strcat\<close>.\<close>

partial_function (option) strcpy_loop :: "mem \<Rightarrow> ptr \<Rightarrow> ptr \<Rightarrow> mem option" where
  "strcpy_loop m p src =
     (let m' = m(p := m src) in
      if m src \<noteq> 0 then strcpy_loop m' (Suc p) (Suc src) else Some m')"

definition strcpy :: "mem \<Rightarrow> ptr \<Rightarrow> ptr \<Rightarrow> (mem \<times> ptr) option" where
  "strcpy m dest src =
     (if dest = NULL \<or> src = NULL then Some (m, NULL)
      else do { m' \<leftarrow> strcpy_loop m dest src; Some (m', dest) })"

text \<open>The loop \<^verbatim>\<open>for (; i < n && src[i]; i++) dest[i] = src[i];\<close> shared by the bounded copies.\<close>

function copy_nz :: "mem \<Rightarrow> ptr \<Rightarrow> ptr \<Rightarrow> nat \<Rightarrow> nat \<Rightarrow> mem \<times> nat" where
  "copy_nz m d s i n =
     (if i < n \<and> m (s + i) \<noteq> 0 then copy_nz (m(d + i := m (s + i))) d s (Suc i) n else (m, i))"
  by pat_completeness auto
termination by (relation "measure (\<lambda>(m, d, s, i, n). n - i)") auto

definition strncpy :: "mem \<Rightarrow> ptr \<Rightarrow> ptr \<Rightarrow> nat \<Rightarrow> mem \<times> ptr" where
  "strncpy m dest src n =
     (if dest = NULL \<or> src = NULL then (m, NULL)
      else let (m1, i) = copy_nz m dest src 0 n in (memset_loop m1 dest 0 i n, dest))"

definition strcat :: "mem \<Rightarrow> ptr \<Rightarrow> ptr \<Rightarrow> (mem \<times> ptr) option" where
  "strcat m dest src =
     (if dest = NULL \<or> src = NULL then Some (m, NULL)
      else do { l \<leftarrow> strlen m dest; m' \<leftarrow> strcpy_loop m (dest + l) src; Some (m', dest) })"

definition strncat :: "mem \<Rightarrow> ptr \<Rightarrow> ptr \<Rightarrow> nat \<Rightarrow> (mem \<times> ptr) option" where
  "strncat m dest src n =
     (if dest = NULL \<or> src = NULL then Some (m, NULL)
      else do {
        l \<leftarrow> strlen m dest;
        let p = dest + l;
        let (m1, i) = copy_nz m p src 0 n;
        Some (m1(p + i := 0), dest) })"

definition strlcpy :: "mem \<Rightarrow> ptr \<Rightarrow> ptr \<Rightarrow> nat \<Rightarrow> (mem \<times> nat) option" where
  "strlcpy m dest src n =
     (if src = NULL then Some (m, 0)
      else do {
        len \<leftarrow> strlen m src;
        if dest \<noteq> NULL \<and> n > 0 then
          (let e = (if len \<ge> n then n - 1 else len);
               m1 = fst (memcpy m dest src e)
           in Some (m1(dest + e := 0), len))
        else Some (m, len) })"

definition strlcat :: "mem \<Rightarrow> ptr \<Rightarrow> ptr \<Rightarrow> nat \<Rightarrow> (mem \<times> nat) option" where
  "strlcat m dest src n =
     (if src = NULL then (if dest \<noteq> NULL then do { l \<leftarrow> strlen m dest; Some (m, l) } else Some (m, 0))
      else do {
        slen \<leftarrow> strlen m src;
        if dest = NULL \<or> n = 0 then Some (m, slen)
        else do {
          dlen \<leftarrow> strlen m dest;
          if dlen \<ge> n then Some (m, n + slen)
          else
            (let e = (if dlen + slen \<ge> n then n - dlen - 1 else slen);
                 m1 = fst (memcpy m (dest + dlen) src e)
             in Some (m1(dest + dlen + e := 0), dlen + slen)) } })"

partial_function (option) stpcpy_loop :: "mem \<Rightarrow> ptr \<Rightarrow> ptr \<Rightarrow> (mem \<times> ptr) option" where
  "stpcpy_loop m dest src =
     (let m' = m(dest := m src) in
      if m src \<noteq> 0 then stpcpy_loop m' (Suc dest) (Suc src) else Some (m', dest))"

definition stpcpy :: "mem \<Rightarrow> ptr \<Rightarrow> ptr \<Rightarrow> (mem \<times> ptr) option" where
  "stpcpy m dest src =
     (if dest = NULL \<or> src = NULL then Some (m, NULL) else stpcpy_loop m dest src)"

definition stpncpy :: "mem \<Rightarrow> ptr \<Rightarrow> ptr \<Rightarrow> nat \<Rightarrow> mem \<times> ptr" where
  "stpncpy m dest src n =
     (if dest = NULL \<or> src = NULL then (m, NULL)
      else let (m1, i) = copy_nz m dest src 0 n in (memset_loop m1 dest 0 i n, dest + i))"

section \<open>Comparison\<close>

partial_function (option) strcmp_loop :: "mem \<Rightarrow> ptr \<Rightarrow> ptr \<Rightarrow> int option" where
  "strcmp_loop m a b =
     (if m a \<noteq> 0 \<and> m a = m b then strcmp_loop m (Suc a) (Suc b)
      else Some (if schar (m a) < schar (m b) then - 1 else if schar (m a) > schar (m b) then 1 else 0))"

definition strcmp :: "mem \<Rightarrow> ptr \<Rightarrow> ptr \<Rightarrow> int option" where
  "strcmp m a b = (if a = NULL \<or> b = NULL then Some (null_cmp a b) else strcmp_loop m a b)"

function strncmp_loop :: "mem \<Rightarrow> ptr \<Rightarrow> ptr \<Rightarrow> nat \<Rightarrow> nat \<Rightarrow> nat" where
  "strncmp_loop m a b i n =
     (if i < n \<and> m (a + i) \<noteq> 0 \<and> m (a + i) = m (b + i) then strncmp_loop m a b (Suc i) n else i)"
  by pat_completeness auto
termination by (relation "measure (\<lambda>(m, a, b, i, n). n - i)") auto

definition strncmp :: "mem \<Rightarrow> ptr \<Rightarrow> ptr \<Rightarrow> nat \<Rightarrow> int" where
  "strncmp m a b n =
     (if a = NULL \<or> b = NULL then null_cmp a b
      else let i = strncmp_loop m a b 0 n in
        if i = n then 0 else if schar (m (a + i)) < schar (m (b + i)) then - 1 else 1)"

text \<open>\<^verbatim>\<open>strxfrm_l\<close> ignores its locale argument.\<close>

definition strxfrm_l :: "mem \<Rightarrow> ptr \<Rightarrow> ptr \<Rightarrow> nat \<Rightarrow> (mem \<times> nat) option" where
  "strxfrm_l m dest src n =
     (if src = NULL then Some (m, 0)
      else do {
        l \<leftarrow> strlen m src;
        if dest \<noteq> NULL \<and> n > 0
        then Some (fst (memcpy m dest src (if l < n then l + 1 else n)), l)
        else Some (m, l) })"

section \<open>Search and tokens\<close>

partial_function (option) strchr_loop :: "mem \<Rightarrow> ptr \<Rightarrow> byte \<Rightarrow> ptr option" where
  "strchr_loop m s c =
     (if m s = c then Some s else if m s = 0 then Some NULL else strchr_loop m (Suc s) c)"

definition strchr :: "mem \<Rightarrow> ptr \<Rightarrow> int \<Rightarrow> ptr option" where
  "strchr m s c = (if s = NULL then Some NULL else strchr_loop m s (word_of_int c))"

partial_function (option) strrchr_loop :: "mem \<Rightarrow> ptr \<Rightarrow> byte \<Rightarrow> ptr \<Rightarrow> ptr option" where
  "strrchr_loop m s c r =
     (let r' = (if m s = c then s else r) in
      if m s = 0 then Some r' else strrchr_loop m (Suc s) c r')"

definition strrchr :: "mem \<Rightarrow> ptr \<Rightarrow> int \<Rightarrow> ptr option" where
  "strrchr m s c = (if s = NULL then Some NULL else strrchr_loop m s (word_of_int c) NULL)"

partial_function (option) strstr_loop :: "mem \<Rightarrow> ptr \<Rightarrow> ptr \<Rightarrow> nat \<Rightarrow> ptr option" where
  "strstr_loop m h n nl =
     (if m h = 0 then Some NULL
      else if strncmp m h n nl = 0 then Some h else strstr_loop m (Suc h) n nl)"

definition strstr :: "mem \<Rightarrow> ptr \<Rightarrow> ptr \<Rightarrow> ptr option" where
  "strstr m h n =
     (if h = NULL \<or> n = NULL then Some NULL
      else do { nl \<leftarrow> strlen m n; if nl = 0 then Some h else strstr_loop m h n nl })"

text \<open>A \<^verbatim>\<open>char\<close> passed to \<^verbatim>\<open>strchr\<close> is promoted to \<^verbatim>\<open>int\<close> and converted back: \<open>schar\<close>.\<close>

partial_function (option) strspn_loop :: "mem \<Rightarrow> ptr \<Rightarrow> ptr \<Rightarrow> nat \<Rightarrow> nat option" where
  "strspn_loop m s accept i =
     (if m (s + i) = 0 then Some i
      else do {
        q \<leftarrow> strchr m accept (schar (m (s + i)));
        if q \<noteq> NULL then strspn_loop m s accept (Suc i) else Some i })"

definition strspn :: "mem \<Rightarrow> ptr \<Rightarrow> ptr \<Rightarrow> nat option" where
  "strspn m s accept = (if s = NULL \<or> accept = NULL then Some 0 else strspn_loop m s accept 0)"

partial_function (option) strcspn_loop :: "mem \<Rightarrow> ptr \<Rightarrow> ptr \<Rightarrow> nat \<Rightarrow> nat option" where
  "strcspn_loop m s reject i =
     (if m (s + i) = 0 then Some i
      else do {
        q \<leftarrow> strchr m reject (schar (m (s + i)));
        if q = NULL then strcspn_loop m s reject (Suc i) else Some i })"

definition strcspn :: "mem \<Rightarrow> ptr \<Rightarrow> ptr \<Rightarrow> nat option" where
  "strcspn m s reject = (if s = NULL then Some 0 else strcspn_loop m s reject 0)"

partial_function (option) strpbrk_loop :: "mem \<Rightarrow> ptr \<Rightarrow> ptr \<Rightarrow> ptr option" where
  "strpbrk_loop m s accept =
     (if m s = 0 then Some NULL
      else do {
        q \<leftarrow> strchr m accept (schar (m s));
        if q \<noteq> NULL then Some s else strpbrk_loop m (Suc s) accept })"

definition strpbrk :: "mem \<Rightarrow> ptr \<Rightarrow> ptr \<Rightarrow> ptr option" where
  "strpbrk m s accept = (if s = NULL \<or> accept = NULL then Some NULL else strpbrk_loop m s accept)"

text \<open>
  \<^verbatim>\<open>strtok_r\<close> takes the value of \<^verbatim>\<open>*save\<close> (\<open>None\<close> when the pointer \<^verbatim>\<open>save\<close> itself is null) and
  returns the memory, the new value of \<^verbatim>\<open>*save\<close> and the token.
\<close>

definition strtok_r :: "mem \<Rightarrow> ptr \<Rightarrow> ptr \<Rightarrow> ptr option \<Rightarrow> (mem \<times> ptr option \<times> ptr) option" where
  "strtok_r m s delim save =
     (case save of
        None \<Rightarrow> Some (m, None, NULL)
      | Some sv \<Rightarrow>
          if delim = NULL then Some (m, save, NULL)
          else let p0 = (if s \<noteq> NULL then s else sv) in
            if p0 = NULL then Some (m, save, NULL)
            else do {
              k \<leftarrow> strspn m p0 delim;
              let p = p0 + k;
              if m p = 0 then Some (m, Some NULL, NULL)
              else do {
                l \<leftarrow> strcspn m p delim;
                let q = p + l;
                if m q \<noteq> 0 then Some (m(q := 0), Some (Suc q), p)
                else Some (m, Some q, p) } })"

section \<open>Duplication\<close>

text \<open>
  \<^verbatim>\<open>malloc\<close> is an argument, \<open>malloc m n\<close> giving the memory after the call and the pointer; the
  last component of a result is the value stored in \<^verbatim>\<open>errno\<close>, if any.
\<close>

definition strdup :: "(mem \<Rightarrow> nat \<Rightarrow> mem \<times> ptr) \<Rightarrow> mem \<Rightarrow> ptr \<Rightarrow> (mem \<times> ptr \<times> int option) option" where
  "strdup malloc m s =
     (if s = NULL then Some (m, NULL, Some EINVAL)
      else do {
        l \<leftarrow> strlen m s;
        let n = l + 1;
        let (m1, p) = malloc m n;
        if p \<noteq> NULL then (let (m2, r) = memcpy m1 p s n in Some (m2, r, None))
        else Some (m1, NULL, None) })"

definition strndup :: "(mem \<Rightarrow> nat \<Rightarrow> mem \<times> ptr) \<Rightarrow> mem \<Rightarrow> ptr \<Rightarrow> nat \<Rightarrow> mem \<times> ptr \<times> int option" where
  "strndup malloc m s n =
     (if s = NULL then (m, NULL, Some EINVAL)
      else let len = strnlen m s n;
               (m1, p) = malloc m (len + 1)
           in if p = NULL then (m1, NULL, None)
              else let m2 = fst (memcpy m1 p s len) in (m2(p + len := 0), p, None))"

declare strnlen_loop.simps [simp del] copy_nz.simps [simp del] strncmp_loop.simps [simp del]

lemmas str_unfold [loop_unfold] = strlen_loop.simps strnlen_loop.simps strcpy_loop.simps
  copy_nz.simps stpcpy_loop.simps strcmp_loop.simps strncmp_loop.simps strchr_loop.simps
  strrchr_loop.simps strstr_loop.simps strspn_loop.simps strcspn_loop.simps strpbrk_loop.simps

section \<open>Length\<close>

lemma strlen_loop_cstr: "cstr m (p + k) s \<Longrightarrow> strlen_loop m p k = Some (k + length s)"
proof (induction s arbitrary: k)
  case Nil
  then show ?case by (simp add: strlen_loop.simps)
next
  case (Cons x s)
  then show ?case using Cons.IH [of "Suc k"] by (simp add: strlen_loop.simps)
qed

lemma strlen_cstr [simp]: "cstr m p s \<Longrightarrow> p \<noteq> NULL \<Longrightarrow> strlen m p = Some (length s)"
  using strlen_loop_cstr [of m p 0 s] by (simp add: strlen_def)

text \<open>Conversely a string is there whenever \<^verbatim>\<open>strlen\<close> returns.\<close>

lemma strlen_loop_Some:
  assumes ret: "strlen_loop m p k = Some n"
  shows "k \<le> n \<and> m (p + n) = 0 \<and> (\<forall>i. k \<le> i \<and> i < n \<longrightarrow> m (p + i) \<noteq> 0)"
proof (rule strlen_loop.raw_induct
    [where P = "\<lambda>m p k n. k \<le> n \<and> m (p + n) = 0 \<and> (\<forall>i. k \<le> i \<and> i < n \<longrightarrow> m (p + i) \<noteq> 0)", OF _ ret])
  fix f m p k n
  assume IH: "\<And>m p k n. f m p k = Some n \<Longrightarrow>
      k \<le> n \<and> m (p + n) = 0 \<and> (\<forall>i. k \<le> i \<and> i < n \<longrightarrow> m (p + i) \<noteq> 0)"
    and eq: "(if m (p + k) \<noteq> 0 then f m p (Suc k) else Some k) = Some n"
  show "k \<le> n \<and> m (p + n) = 0 \<and> (\<forall>i. k \<le> i \<and> i < n \<longrightarrow> m (p + i) \<noteq> 0)"
  proof (cases "m (p + k) = 0")
    case True
    then show ?thesis using eq by auto
  next
    case False
    then have "f m p (Suc k) = Some n" using eq by simp
    from IH [OF this] False show ?thesis by (metis Suc_leD Suc_leI le_neq_implies_less)
  qed
qed

lemma strlen_Some_cstr: "strlen m p = Some n \<Longrightarrow> p \<noteq> NULL \<Longrightarrow> cstr m p (rd m p n)"
  using strlen_loop_Some [of m p 0 n] by (auto simp: strlen_def cstr_iff set_conv_nth)

lemma strnlen_loop_cstr:
  "cstr m (p + i) s \<Longrightarrow> i \<le> n \<Longrightarrow> strnlen_loop m p n i = min n (i + length s)"
proof (induction s arbitrary: i)
  case Nil
  then show ?case by (simp add: strnlen_loop.simps)
next
  case (Cons x s)
  then show ?case
    using Cons.IH [of "Suc i"] by (cases "i < n") (auto simp: strnlen_loop.simps [of m p n])
qed

lemma strnlen_cstr: "cstr m p s \<Longrightarrow> p \<noteq> NULL \<Longrightarrow> strnlen m p n = min n (length s)"
  using strnlen_loop_cstr [of m p 0 s n] by (simp add: strnlen_def)

section \<open>Copy\<close>

text \<open>
  A forward string copy is safe when the destination ends before the source starts, or starts
  after the source's terminator: \<open>sep\<close> is that condition (the \<^verbatim>\<open>restrict\<close> of the prototypes).
\<close>

definition sep :: "ptr \<Rightarrow> nat \<Rightarrow> ptr \<Rightarrow> nat \<Rightarrow> bool" where
  "sep d k s l \<longleftrightarrow> d + k \<le> s \<or> s + l \<le> d"

lemma strcpy_loop_cstr:
  "cstr m src s \<Longrightarrow> sep p (Suc (length s)) src (Suc (length s)) \<Longrightarrow>
   strcpy_loop m p src = Some (wr m p (s @ [0]))"
proof (induction s arbitrary: m p src)
  case Nil
  then show ?case by (simp add: strcpy_loop.simps fun_upd_def)
next
  case (Cons x s)
  have "cstr (m(p := x)) (Suc src) s"
    using Cons.prems cstr_wr_disjoint [of "Suc src" s p "[x]" m] by (auto simp: sep_def)
  moreover have "sep (Suc p) (Suc (length s)) (Suc src) (Suc (length s))"
    using Cons.prems by (auto simp: sep_def)
  ultimately have "strcpy_loop (m(p := x)) (Suc p) (Suc src) = Some (wr (m(p := x)) (Suc p) (s @ [0]))"
    by (rule Cons.IH)
  then show ?case using Cons.prems by (simp add: strcpy_loop.simps [of m p src])
qed

lemma stpcpy_loop_cstr:
  "cstr m src s \<Longrightarrow> sep p (Suc (length s)) src (Suc (length s)) \<Longrightarrow>
   stpcpy_loop m p src = Some (wr m p (s @ [0]), p + length s)"
proof (induction s arbitrary: m p src)
  case Nil
  then show ?case by (simp add: stpcpy_loop.simps fun_upd_def)
next
  case (Cons x s)
  have "cstr (m(p := x)) (Suc src) s"
    using Cons.prems cstr_wr_disjoint [of "Suc src" s p "[x]" m] by (auto simp: sep_def)
  moreover have "sep (Suc p) (Suc (length s)) (Suc src) (Suc (length s))"
    using Cons.prems by (auto simp: sep_def)
  ultimately have "stpcpy_loop (m(p := x)) (Suc p) (Suc src)
      = Some (wr (m(p := x)) (Suc p) (s @ [0]), Suc p + length s)"
    by (rule Cons.IH)
  then show ?case using Cons.prems by (simp add: stpcpy_loop.simps [of m p src])
qed

lemma copy_nz_cstr:
  "cstr m (src + i) s \<Longrightarrow> i \<le> n \<Longrightarrow> sep (d + i) (n - i) (src + i) (Suc (length s)) \<Longrightarrow>
   copy_nz m d src i n = (wr m (d + i) (take (n - i) s), min n (i + length s))"
proof (induction s arbitrary: m i)
  case Nil
  then show ?case by (simp add: copy_nz.simps)
next
  case (Cons x s)
  show ?case
  proof (cases "i < n")
    case True
    let ?m = "m(d + i := x)"
    have "cstr ?m (src + Suc i) s"
      using Cons.prems True cstr_wr_disjoint [of "src + Suc i" s "d + i" "[x]" m] by (auto simp: sep_def)
    moreover have "sep (d + Suc i) (n - Suc i) (src + Suc i) (Suc (length s))"
      using Cons.prems True by (auto simp: sep_def)
    ultimately have "copy_nz ?m d src (Suc i) n = (wr ?m (d + Suc i) (take (n - Suc i) s), min n (Suc i + length s))"
      using True by (intro Cons.IH) (simp_all del: fun_upd_apply)
    moreover have "take (n - i) (x # s) = x # take (n - Suc i) s"
      using True by (metis Suc_diff_Suc take_Suc_Cons)
    ultimately show ?thesis using True Cons.prems
      by (simp add: copy_nz.simps [of m d src i n] del: fun_upd_apply)
  next
    case False
    then show ?thesis using Cons.prems by (simp add: copy_nz.simps [of m d src n n])
  qed
qed

lemma strcpy_cstr:
  "cstr m src s \<Longrightarrow> dest \<noteq> NULL \<Longrightarrow> src \<noteq> NULL \<Longrightarrow> sep dest (Suc (length s)) src (Suc (length s)) \<Longrightarrow>
   strcpy m dest src = Some (wr m dest (s @ [0]), dest)"
  by (simp add: strcpy_def strcpy_loop_cstr)

lemma strncpy_cstr:
  "cstr m src s \<Longrightarrow> dest \<noteq> NULL \<Longrightarrow> src \<noteq> NULL \<Longrightarrow> sep dest n src (Suc (length s)) \<Longrightarrow>
   strncpy m dest src n = (wr m dest (take n s @ replicate (n - length s) 0), dest)"
proof -
  assume a: "cstr m src s" "dest \<noteq> NULL" "src \<noteq> NULL" "sep dest n src (Suc (length s))"
  have "copy_nz m dest src 0 n = (wr m dest (take n s), min n (length s))"
    using copy_nz_cstr [of m src 0 s n dest] a by simp
  then show ?thesis using a
    by (simp add: strncpy_def memset_loop_wr wr_append min.commute min_def)
qed

lemma strcat_cstr:
  "cstr m dest d \<Longrightarrow> cstr m src s \<Longrightarrow> dest \<noteq> NULL \<Longrightarrow> src \<noteq> NULL \<Longrightarrow>
   sep (dest + length d) (Suc (length s)) src (Suc (length s)) \<Longrightarrow>
   strcat m dest src = Some (wr m (dest + length d) (s @ [0]), dest)"
  by (simp add: strcat_def strcpy_loop_cstr)

lemma wr_suffix: "rd m p (length xs) = xs \<Longrightarrow> wr m (p + length xs) ys = wr m p (xs @ ys)"
proof -
  assume a: "rd m p (length xs) = xs"
  have "wr m p xs = m"
  proof
    fix a show "wr m p xs a = m a"
    proof (cases "p \<le> a \<and> a < p + length xs")
      case True
      then have "rd m p (length xs) ! (a - p) = m (p + (a - p))" by (intro nth_rd) auto
      then show ?thesis using True a by (simp add: wr_apply)
    next
      case False
      then show ?thesis by (auto simp: wr_apply)
    qed
  qed
  then show ?thesis by (simp add: wr_append)
qed

lemma strcat_append:
  assumes "cstr m dest d" "cstr m src s" "dest \<noteq> NULL" "src \<noteq> NULL"
    and "sep (dest + length d) (Suc (length s)) src (Suc (length s))"
  shows "strcat m dest src = Some (wr m dest ((d @ s) @ [0]), dest)"
  using assms by (simp add: strcat_cstr wr_suffix cstr_rd)

lemma wr_snoc: "(wr m p xs)(p + length xs := b) = wr m p (xs @ [b])"
  by (simp add: wr_append)

lemma strncat_append:
  assumes "cstr m dest d" "cstr m src s" "dest \<noteq> NULL" "src \<noteq> NULL"
    and "sep (dest + length d) n src (Suc (length s))"
  shows "strncat m dest src n = Some (wr m dest ((d @ take n s) @ [0]), dest)"
proof -
  have c: "copy_nz m (dest + length d) src 0 n = (wr m (dest + length d) (take n s), min n (length s))"
    using copy_nz_cstr [of m src 0 s n "dest + length d"] assms by simp
  have "wr m (dest + length d) (take n s) = wr m dest (d @ take n s)"
    using assms(1) by (simp add: wr_suffix cstr_rd)
  then have "wr m dest ((d @ take n s) @ [0])
      = (wr m (dest + length d) (take n s))(dest + length d + min n (length s) := 0)"
    using wr_snoc [of m dest "d @ take n s" 0] by (simp add: min.commute add.assoc)
  then show ?thesis using assms c by (simp add: strncat_def Let_def)
qed

lemma strlcpy_cstr:
  assumes "cstr m src s" "dest \<noteq> NULL" "src \<noteq> NULL" "0 < n"
    and "sep dest n src (Suc (length s))"
  shows "strlcpy m dest src n = Some (wr m dest (take (n - 1) s @ [0]), length s)"
proof -
  let ?e = "if length s \<ge> n then n - 1 else length s"
  have t: "rd m src ?e = take (n - 1) s"
    using assms(1,4) by (intro nth_equalityI) (auto simp: cstr_nth split: if_splits)
  have "memcpy m dest src ?e = (wr m dest (rd m src ?e), dest)"
    using assms by (intro memcpy_eq) (auto simp: sep_def split: if_splits)
  moreover have "length (take (n - 1) s) = ?e" using assms(4) by auto
  ultimately show ?thesis
    using assms t wr_snoc [of m dest "take (n - 1) s" 0] by (simp add: strlcpy_def)
qed

lemma strlcat_cstr:
  assumes "cstr m dest d" "cstr m src s" "dest \<noteq> NULL" "src \<noteq> NULL" "length d < n"
    and "sep dest n src (Suc (length s))"
  shows "strlcat m dest src n
     = Some (wr m dest (take (n - 1) (d @ s) @ [0]), length d + length s)"
proof -
  let ?e = "if length d + length s \<ge> n then n - length d - 1 else length s"
  have t: "rd m src ?e = take (n - 1 - length d) s"
    using assms(2,5) by (intro nth_equalityI) (auto simp: cstr_nth split: if_splits)
  have "memcpy m (dest + length d) src ?e = (wr m (dest + length d) (rd m src ?e), dest + length d)"
    using assms by (intro memcpy_eq) (auto simp: sep_def split: if_splits)
  moreover have "length (take (n - 1 - length d) s) = ?e" using assms(5) by auto
  moreover have "take (n - 1) (d @ s) = d @ take (n - 1 - length d) s" using assms(5) by simp
  ultimately show ?thesis
    using assms t wr_snoc [of m "dest + length d" "take (n - 1 - length d) s" 0]
    by (simp add: strlcat_def wr_suffix cstr_rd)
qed

section \<open>Comparison\<close>

text \<open>The order \<^verbatim>\<open>strcmp\<close> decides, on byte lists: the first difference, a missing byte counting as NUL.\<close>

fun str_order :: "byte list \<Rightarrow> byte list \<Rightarrow> int" where
  "str_order (x # xs) (y # ys) =
     (if x = y then str_order xs ys else if schar x < schar y then - 1 else 1)"
| "str_order [] [] = 0"
| "str_order [] (y # ys) = (if schar y < 0 then 1 else - 1)"
| "str_order (x # xs) [] = (if schar x < 0 then - 1 else 1)"

lemma str_order_0_iff [simp]: "str_order s t = 0 \<longleftrightarrow> s = t"
  by (induction s t rule: str_order.induct) auto

lemma schar_neq_0: "x \<noteq> 0 \<Longrightarrow> schar x \<noteq> 0"
  by (metis schar_0 schar_eq_iff)

lemma strcmp_loop_cstr:
  "cstr m a s \<Longrightarrow> cstr m b t \<Longrightarrow> strcmp_loop m a b = Some (str_order s t)"
proof (induction s t arbitrary: a b rule: str_order.induct)
  case (1 x xs y ys)
  show ?case
  proof (cases "x = y")
    case True
    have "strcmp_loop m (Suc a) (Suc b) = Some (str_order xs ys)"
      using 1 True by simp
    then show ?thesis using 1 True by (simp add: strcmp_loop.simps [of m a b])
  next
    case False
    then have "schar x \<noteq> schar y" by simp
    then show ?thesis using 1 False by (auto simp: strcmp_loop.simps [of m a b])
  qed
next
  case 2
  then show ?case by (simp add: strcmp_loop.simps)
next
  case (3 y ys)
  then show ?case using schar_neq_0 [of y] by (auto simp: strcmp_loop.simps)
next
  case (4 x xs)
  then show ?case using schar_neq_0 [of x] by (auto simp: strcmp_loop.simps)
qed

lemma strcmp_cstr [simp]:
  "cstr m a s \<Longrightarrow> cstr m b t \<Longrightarrow> a \<noteq> NULL \<Longrightarrow> b \<noteq> NULL \<Longrightarrow> strcmp m a b = Some (str_order s t)"
  by (simp add: strcmp_def strcmp_loop_cstr)

lemma strncmp_loop_spec:
  "i \<le> n \<Longrightarrow> k = strncmp_loop m a b i n \<Longrightarrow>
   i \<le> k \<and> k \<le> n \<and> (\<forall>j. i \<le> j \<and> j < k \<longrightarrow> m (a + j) \<noteq> 0 \<and> m (a + j) = m (b + j)) \<and>
   (k < n \<longrightarrow> m (a + k) = 0 \<or> m (a + k) \<noteq> m (b + k))"
proof (induction m a b i n rule: strncmp_loop.induct)
  case (1 m a b i n)
  show ?case
  proof (cases "i < n \<and> m (a + i) \<noteq> 0 \<and> m (a + i) = m (b + i)")
    case True
    then have k: "k = strncmp_loop m a b (Suc i) n"
      using 1(3) strncmp_loop.simps [of m a b i n] by presburger
    from True have "Suc i \<le> n" by simp
    from 1(1) [OF True this k]
    have "Suc i \<le> k \<and> k \<le> n \<and> (\<forall>j. Suc i \<le> j \<and> j < k \<longrightarrow> m (a + j) \<noteq> 0 \<and> m (a + j) = m (b + j)) \<and>
       (k < n \<longrightarrow> m (a + k) = 0 \<or> m (a + k) \<noteq> m (b + k))" .
    moreover have "m (a + j) \<noteq> 0 \<and> m (a + j) = m (b + j)" if "i \<le> j" "j < k" for j
    proof (cases "j = i")
      case False
      then have "Suc i \<le> j" using that by simp
      then show ?thesis using calculation that by blast
    qed (use True in auto)
    ultimately show ?thesis by (metis Suc_leD)
  next
    case False
    then have "k = i" using 1(3) by (simp only: strncmp_loop.simps [of m a b i n] if_False)
    then show ?thesis using False 1(2) by auto
  qed
qed

text \<open>
  \<^verbatim>\<open>strncmp\<close> returns \<open>0\<close> exactly when the first \<open>n\<close> bytes agree and neither string ends among
  them: for equal strings shorter than \<open>n\<close> the loop stops at the terminator and the code
  answers \<open>1\<close>.
\<close>

lemma strncmp_0_mem:
  assumes "a \<noteq> NULL" "b \<noteq> NULL"
  shows "strncmp m a b n = 0 \<longleftrightarrow> (\<forall>j<n. m (a + j) \<noteq> 0 \<and> m (a + j) = m (b + j))"
proof -
  define k where "k = strncmp_loop m a b 0 n"
  have k: "k \<le> n" "\<forall>j<k. m (a + j) \<noteq> 0 \<and> m (a + j) = m (b + j)"
    "k < n \<longrightarrow> m (a + k) = 0 \<or> m (a + k) \<noteq> m (b + k)"
    using strncmp_loop_spec [of 0 n k m a b] k_def by auto
  have "strncmp m a b n = 0 \<longleftrightarrow> k = n"
    using assms by (simp add: strncmp_def k_def [symmetric])
  then show ?thesis using k by (metis le_neq_implies_less)
qed

lemma strncmp_0_cstr:
  assumes "cstr m a s" "cstr m b t" "a \<noteq> NULL" "b \<noteq> NULL"
  shows "strncmp m a b n = 0 \<longleftrightarrow> n \<le> length s \<and> take n s = take n t"
proof -
  have "(\<forall>j<n. m (a + j) \<noteq> 0 \<and> m (a + j) = m (b + j)) \<longleftrightarrow> n \<le> length s \<and> take n s = take n t"
    (is "?l \<longleftrightarrow> ?r")
  proof
    assume l: ?l
    have s: "n \<le> length s" using l cstr_end [OF assms(1)] by (meson not_le)
    moreover have "n \<le> length t" using l cstr_end [OF assms(2)] by (metis not_le)
    ultimately show ?r using l assms
      by (auto intro!: nth_equalityI simp: cstr_nth [symmetric])
  next
    assume r: ?r
    then have "length (take n t) = n" by (metis length_take min_absorb2)
    then have t: "n \<le> length t" by simp
    show ?l
    proof (intro allI impI)
      fix j assume j: "j < n"
      then have "s ! j = t ! j" using r by (metis nth_take)
      then show "m (a + j) \<noteq> 0 \<and> m (a + j) = m (b + j)"
        using j r t assms by (simp add: cstr_nth cstr_nonzero) (metis cstr_nonzero cstr_nth le_trans less_le_trans)
    qed
  qed
  then show ?thesis using strncmp_0_mem assms(3,4) by simp
qed

section \<open>Search\<close>

lemma schar_word_of_int [simp]: "word_of_int (schar b) = b"
  by (simp add: schar_def)

lemma strchr_loop_cstr:
  "cstr m p s \<Longrightarrow> strchr_loop m p c =
     Some (if c \<in> set s then p + length (takeWhile (\<lambda>x. x \<noteq> c) s)
           else if c = 0 then p + length s else NULL)"
proof (induction s arbitrary: p)
  case Nil
  then show ?case by (simp add: strchr_loop.simps)
next
  case (Cons x s)
  then have "strchr_loop m (Suc p) c =
     Some (if c \<in> set s then Suc p + length (takeWhile (\<lambda>x. x \<noteq> c) s)
           else if c = 0 then Suc p + length s else NULL)" by simp
  then show ?case using Cons.prems by (auto simp: strchr_loop.simps [of m p])
qed

lemma strchr_schar:
  assumes "cstr m p s" "p \<noteq> NULL" "b \<noteq> 0"
  shows "\<exists>q. strchr m p (schar b) = Some q \<and> (q \<noteq> NULL \<longleftrightarrow> b \<in> set s)"
  using assms strchr_loop_cstr [OF assms(1)] by (simp add: strchr_def)

lemma strrchr_loop_absent:
  "cstr m p s \<Longrightarrow> c \<noteq> 0 \<Longrightarrow> c \<notin> set s \<Longrightarrow> strrchr_loop m p c r = Some r"
proof (induction s arbitrary: p)
  case Nil
  then show ?case by (simp add: strrchr_loop.simps)
next
  case (Cons x s)
  then show ?case by (auto simp: strrchr_loop.simps [of m p])
qed

lemma strrchr_loop_last:
  "cstr m p (xs @ c # ys) \<Longrightarrow> c \<notin> set ys \<Longrightarrow> strrchr_loop m p c r = Some (p + length xs)"
proof (induction xs arbitrary: p r)
  case Nil
  then show ?case by (simp add: strrchr_loop.simps [of m p]) (rule strrchr_loop_absent, auto)
next
  case (Cons x xs)
  then show ?case by (simp add: strrchr_loop.simps [of m p])
qed

lemma strspn_loop_cstr:
  "cstr m (p + i) s \<Longrightarrow> cstr m q a \<Longrightarrow> q \<noteq> NULL \<Longrightarrow>
   strspn_loop m p q i = Some (i + length (takeWhile (\<lambda>x. x \<in> set a) s))"
proof (induction s arbitrary: i)
  case Nil
  then show ?case by (simp add: strspn_loop.simps)
next
  case (Cons x s)
  obtain r where "strchr m q (schar x) = Some r" "r \<noteq> NULL \<longleftrightarrow> x \<in> set a"
    using strchr_schar [of m q a x] Cons.prems by auto
  then show ?case using Cons.IH [of "Suc i"] Cons.prems
    by (auto simp: strspn_loop.simps [of m p q i])
qed

lemma strspn_cstr:
  "cstr m p s \<Longrightarrow> cstr m q a \<Longrightarrow> p \<noteq> NULL \<Longrightarrow> q \<noteq> NULL \<Longrightarrow>
   strspn m p q = Some (length (takeWhile (\<lambda>x. x \<in> set a) s))"
  using strspn_loop_cstr [of m p 0 s q a] by (simp add: strspn_def)

lemma strcspn_loop_cstr:
  "cstr m (p + i) s \<Longrightarrow> cstr m q a \<Longrightarrow> q \<noteq> NULL \<Longrightarrow>
   strcspn_loop m p q i = Some (i + length (takeWhile (\<lambda>x. x \<notin> set a) s))"
proof (induction s arbitrary: i)
  case Nil
  then show ?case by (simp add: strcspn_loop.simps)
next
  case (Cons x s)
  obtain r where "strchr m q (schar x) = Some r" "r \<noteq> NULL \<longleftrightarrow> x \<in> set a"
    using strchr_schar [of m q a x] Cons.prems by auto
  then show ?case using Cons.IH [of "Suc i"] Cons.prems
    by (auto simp: strcspn_loop.simps [of m p q i])
qed

lemma strcspn_cstr:
  "cstr m p s \<Longrightarrow> cstr m q a \<Longrightarrow> p \<noteq> NULL \<Longrightarrow> q \<noteq> NULL \<Longrightarrow>
   strcspn m p q = Some (length (takeWhile (\<lambda>x. x \<notin> set a) s))"
  using strcspn_loop_cstr [of m p 0 s q a] by (simp add: strcspn_def)

lemma strpbrk_loop_cstr:
  "cstr m p s \<Longrightarrow> cstr m q a \<Longrightarrow> q \<noteq> NULL \<Longrightarrow>
   strpbrk_loop m p q = Some (if set s \<inter> set a = {} then NULL
      else p + length (takeWhile (\<lambda>x. x \<notin> set a) s))"
proof (induction s arbitrary: p)
  case Nil
  then show ?case by (simp add: strpbrk_loop.simps)
next
  case (Cons x s)
  obtain r where "strchr m q (schar x) = Some r" "r \<noteq> NULL \<longleftrightarrow> x \<in> set a"
    using strchr_schar [of m q a x] Cons.prems by auto
  then show ?case using Cons.IH [of "Suc p"] Cons.prems
    by (auto simp: strpbrk_loop.simps [of m p q])
qed

text \<open>
  \<open>occ h n k\<close>: the needle \<open>n\<close> occurs in \<open>h\<close> at offset \<open>k\<close>.
\<close>

definition occ :: "byte list \<Rightarrow> byte list \<Rightarrow> nat \<Rightarrow> bool" where
  "occ h n k \<longleftrightarrow> take (length n) (drop k h) = n"

lemma strncmp_0_prefix:
  assumes "cstr m p s" "cstr m q t" "p \<noteq> NULL" "q \<noteq> NULL"
  shows "strncmp m p q (length t) = 0 \<longleftrightarrow> take (length t) s = t"
proof -
  have "take (length t) s = t \<Longrightarrow> length t \<le> length s"
    by (metis length_take min.cobounded1)
  then show ?thesis using strncmp_0_cstr [OF assms] by auto
qed

lemma strstr_loop_cstr:
  assumes "cstr m q t" "q \<noteq> NULL" "t \<noteq> []"
  shows "cstr m p s \<Longrightarrow> p \<noteq> NULL \<Longrightarrow>
    (\<forall>k\<le>length s. \<not> occ s t k) \<and> strstr_loop m p q (length t) = Some NULL \<or>
    (\<exists>k<length s. occ s t k \<and> (\<forall>j<k. \<not> occ s t j) \<and> strstr_loop m p q (length t) = Some (p + k))"
proof (induction s arbitrary: p)
  case Nil
  then show ?case using assms by (simp add: strstr_loop.simps occ_def)
next
  case (Cons x s)
  have hit: "strncmp m p q (length t) = 0 \<longleftrightarrow> occ (x # s) t 0"
    using strncmp_0_prefix [OF Cons.prems(1) assms(1)] Cons.prems assms by (simp add: occ_def)
  have shift: "occ (x # s) t (Suc k) \<longleftrightarrow> occ s t k" for k by (simp add: occ_def)
  show ?case
  proof (cases "occ (x # s) t 0")
    case True
    then show ?thesis using hit Cons.prems by (auto simp: strstr_loop.simps [of m p])
  next
    case False
    then have step: "strstr_loop m p q (length t) = strstr_loop m (Suc p) q (length t)"
      using hit Cons.prems by (simp add: strstr_loop.simps [of m p])
    have "(\<forall>k\<le>length s. \<not> occ s t k) \<and> strstr_loop m (Suc p) q (length t) = Some NULL \<or>
      (\<exists>k<length s. occ s t k \<and> (\<forall>j<k. \<not> occ s t j) \<and> strstr_loop m (Suc p) q (length t) = Some (Suc p + k))"
      by (rule Cons.IH) (use Cons.prems in auto)
    then show ?thesis
    proof (elim disjE exE conjE)
      assume a: "\<forall>k\<le>length s. \<not> occ s t k" "strstr_loop m (Suc p) q (length t) = Some NULL"
      have "\<not> occ (x # s) t k" if "k \<le> Suc (length s)" for k
        using that a(1) False shift by (cases k) auto
      then show ?thesis using a(2) step by simp
    next
      fix k assume a: "k < length s" "occ s t k" "\<forall>j<k. \<not> occ s t j"
        "strstr_loop m (Suc p) q (length t) = Some (Suc p + k)"
      have "\<not> occ (x # s) t j" if "j < Suc k" for j
        using that a(3) False shift by (cases j) auto
      then show ?thesis using a step shift by (intro disjI2 exI [of _ "Suc k"]) auto
    qed
  qed
qed

section \<open>Tokens\<close>

text \<open>The tokens of a string with respect to a set of delimiters.\<close>

definition skip_delims :: "byte set \<Rightarrow> byte list \<Rightarrow> byte list" where
  "skip_delims D s = dropWhile (\<lambda>x. x \<in> D) s"

lemma strspn_skip:
  assumes "cstr m p s" "cstr m q d" "p \<noteq> NULL" "q \<noteq> NULL"
  obtains k where "strspn m p q = Some k" "cstr m (p + k) (skip_delims (set d) s)"
proof -
  let ?k = "length (takeWhile (\<lambda>x. x \<in> set d) s)"
  have "cstr m (p + ?k) (drop ?k s)" using assms(1) by (intro cstr_drop) (simp_all add: length_takeWhile_le)
  moreover have "drop ?k s = skip_delims (set d) s" by (simp add: skip_delims_def dropWhile_eq_drop)
  ultimately show ?thesis using that strspn_cstr [OF assms] by simp
qed

text \<open>
  One call of \<^verbatim>\<open>strtok_r\<close> on a string that still has a token: the token is delimited in place
  and \<^verbatim>\<open>*save\<close> points to the string that remains.
\<close>

lemma strtok_r_unfold:
  assumes "cstr m p s" "cstr m q d" "p \<noteq> NULL" "q \<noteq> NULL" "a = p \<or> a = NULL \<and> sv = p"
    and "w = skip_delims (set d) s" "w \<noteq> []" "l = length (takeWhile (\<lambda>x. x \<notin> set d) w)"
  shows "\<exists>t. cstr m t w \<and> p \<le> t \<and> t + length w = p + length s \<and>
    strtok_r m a q (Some sv) =
      Some (if l < length w then (m(t + l := 0), Some (Suc (t + l)), t) else (m, Some (t + l), t))"
proof -
  obtain k where k: "strspn m p q = Some k" "cstr m (p + k) w"
    using strspn_skip [OF assms(1-4)] assms(6) by metis
  let ?t = "p + k"
  have hd: "m ?t \<noteq> 0" using k(2) assms(7) by (cases w) auto
  have c: "strcspn m ?t q = Some l"
    using strcspn_cstr [OF k(2) assms(2)] assms(3,4,8) by simp
  have l: "l \<le> length w" using assms(8) by (simp add: length_takeWhile_le)
  have q: "m (?t + l) \<noteq> 0 \<longleftrightarrow> l < length w"
    using l cstr_nonzero [OF k(2), of l] cstr_end [OF k(2)] by (cases "l < length w") auto
  have "cstr m p (takeWhile (\<lambda>x. x \<in> set d) s @ w)" using assms(1,6) by (simp add: skip_delims_def)
  have e: "m (?t + length w) = 0" "\<forall>i<length w. m (?t + i) \<noteq> 0"
    using cstr_end [OF k(2)] cstr_nonzero [OF k(2)] by auto
  have "k = length s - length w"
    using k(1) strspn_cstr [OF assms(1-4)] assms(6)
    by (simp add: skip_delims_def) (metis add_diff_cancel_right' length_append takeWhile_dropWhile_id)
  moreover have "length w \<le> length s" using assms(6) by (simp add: skip_delims_def length_dropWhile_le)
  ultimately have "?t + length w = p + length s" by simp
  moreover have "strtok_r m a q (Some sv) =
      Some (if l < length w then (m(?t + l := 0), Some (Suc (?t + l)), ?t) else (m, Some (?t + l), ?t))"
    using assms(3,4,5) k(1) c hd q by (auto simp: strtok_r_def Let_def)
  ultimately show ?thesis using k(2) by (intro exI [of _ ?t]) auto
qed

lemma strtok_r_token:
  assumes s: "cstr m p s" and d: "cstr m q d" and nz: "p \<noteq> NULL" "q \<noteq> NULL"
    and a: "a = p \<or> a = NULL \<and> sv = p"
    and ne: "skip_delims (set d) s \<noteq> []"
    and far: "q + length d < p \<or> p + length s < q"
    and tok: "tok = takeWhile (\<lambda>x. x \<notin> set d) (skip_delims (set d) s)"
    and rest: "rest = drop 1 (dropWhile (\<lambda>x. x \<notin> set d) (skip_delims (set d) s))"
  shows "\<exists>m' sv' t. strtok_r m a q (Some sv) = Some (m', Some sv', t) \<and>
    cstr m' t tok \<and> cstr m' sv' rest \<and> cstr m' q d \<and> p \<le> t \<and> t + length tok \<le> sv' \<and>
    sv' + length rest = p + length s \<and> (\<forall>x. x < t \<or> sv' \<le> x \<longrightarrow> m' x = m x)"
proof -
  define w where "w = skip_delims (set d) s"
  define l where "l = length tok"
  have l': "l = length (takeWhile (\<lambda>x. x \<notin> set d) w)" by (simp add: l_def tok w_def)
  obtain t where t: "cstr m t w" "p \<le> t" "t + length w = p + length s"
    "strtok_r m a q (Some sv) =
      Some (if l < length w then (m(t + l := 0), Some (Suc (t + l)), t) else (m, Some (t + l), t))"
    using strtok_r_unfold [OF s d nz a w_def] ne l' w_def by blast
  have split: "tok = take l w" "rest = drop (Suc l) w"
    by (simp_all add: tok rest l' w_def takeWhile_eq_take [symmetric] dropWhile_eq_drop)
  have ll: "l \<le> length w" by (simp add: l' length_takeWhile_le)
  show ?thesis
  proof (cases "l < length w")
    case True
    let ?m = "m(t + l := 0)"
    have "cstr m (t + Suc l) (drop (Suc l) w)" using True t(1) by (intro cstr_drop) auto
    then have "cstr ?m (Suc (t + l)) rest"
      using cstr_wr_disjoint [of "Suc (t + l)" rest "t + l" "[0]" m] by (simp add: split)
    moreover have "cstr ?m t tok"
    proof -
      have "rd ?m t l = take l w"
        using True t(1) by (intro nth_equalityI) (auto simp: cstr_nth)
      moreover have "0 \<notin> set (take l w)" using cstr_no_nul [OF t(1)] by (meson in_set_takeD)
      ultimately show ?thesis using True by (simp add: cstr_iff split min_absorb2)
    qed
    moreover have "cstr ?m q d"
      using d far t(2,3) True cstr_wr_disjoint [of q d "t + l" "[0]" m] by auto
    moreover have "strtok_r m a q (Some sv) = Some (?m, Some (Suc (t + l)), t)"
      using t(4) True by simp
    moreover have "t + length tok \<le> Suc (t + l)" "Suc (t + l) + length rest = p + length s"
      using True t(3) l_def split(2) by auto
    ultimately show ?thesis using t(2)
      by (intro exI [of _ ?m] exI [of _ "Suc (t + l)"] exI [of _ t]) simp
  next
    case False
    then have "tok = w" "rest = []" "l = length w" using split ll by auto
    moreover have "strtok_r m a q (Some sv) = Some (m, Some (t + l), t)"
      using t(4) False by simp
    ultimately show ?thesis using t(1,2,3) d cstr_end [OF t(1)]
      by (intro exI [of _ m] exI [of _ "t + l"] exI [of _ t]) simp
  qed
qed

section \<open>Properties\<close>

text \<open>
  \<^verbatim>\<open>strlcpy\<close> always leaves a terminated string in a non-empty destination, the longest prefix of
  the source that fits, writes nothing beyond it and returns the length of the source.
\<close>

theorem strlcpy_truncates:
  assumes "cstr m src s" "dest \<noteq> NULL" "src \<noteq> NULL" "0 < n" "sep dest n src (Suc (length s))"
  shows "\<exists>m'. strlcpy m dest src n = Some (m', length s) \<and> cstr m' dest (take (n - 1) s) \<and>
    (\<forall>a. a < dest \<or> dest + n \<le> a \<longrightarrow> m' a = m a)"
proof -
  have nz: "0 \<notin> set (take (n - 1) s)" using cstr_no_nul [OF assms(1)] by (meson in_set_takeD)
  have "\<forall>a. a < dest \<or> dest + n \<le> a \<longrightarrow> wr m dest (take (n - 1) s @ [0]) a = m a"
    using assms(4) by (auto simp: wr_apply)
  then show ?thesis using strlcpy_cstr [OF assms] cstr_wr [OF nz] by auto
qed

theorem strlcpy_truncates_witness:
  "\<exists>m'. strlcpy (wr (\<lambda>_. 7) 16 [104, 101, 108, 108, 111, 0]) 4 16 4 = Some (m', 5) \<and> cstr m' 4 [104, 101, 108]"
proof -
  have "cstr (wr (\<lambda>_. 7) 16 [104, 101, 108, 108, 111, 0]) 16 [104, 101, 108, 108, 111]" by simp
  from strlcpy_truncates [OF this, of 4 4] show ?thesis by (auto simp: sep_def)
qed

text \<open>
  \<^verbatim>\<open>strlcat\<close> appends as much of the source as fits, keeps the result terminated, writes nothing
  outside the destination buffer and returns the length the full concatenation would have.
\<close>

theorem strlcat_truncates:
  assumes "cstr m dest d" "cstr m src s" "dest \<noteq> NULL" "src \<noteq> NULL" "length d < n"
    and "sep dest n src (Suc (length s))"
  shows "\<exists>m'. strlcat m dest src n = Some (m', length d + length s) \<and>
    cstr m' dest (take (n - 1) (d @ s)) \<and> (\<forall>a. a < dest \<or> dest + n \<le> a \<longrightarrow> m' a = m a)"
proof -
  have "0 \<notin> set (d @ s)" using cstr_no_nul [OF assms(1)] cstr_no_nul [OF assms(2)] by simp
  then have nz: "0 \<notin> set (take (n - 1) (d @ s))" by (meson in_set_takeD)
  have "\<forall>a. a < dest \<or> dest + n \<le> a \<longrightarrow> wr m dest (take (n - 1) (d @ s) @ [0]) a = m a"
    using assms(5) by (auto simp: wr_apply)
  then show ?thesis using strlcat_cstr [OF assms] cstr_wr [OF nz] by (intro exI conjI) auto
qed

theorem strlcat_truncates_witness:
  "\<exists>m'. strlcat (wr (wr (\<lambda>_. 7) 16 [108, 111, 0]) 4 [104, 0]) 4 16 3 = Some (m', 3) \<and> cstr m' 4 [104, 108]"
proof -
  let ?m = "wr (wr (\<lambda>_. 7) 16 [108, 111, 0]) 4 [104, 0]"
  have "cstr ?m 4 [104]" "cstr ?m 16 [108, 111]" by simp_all
  from strlcat_truncates [OF this, of 3] show ?thesis by (auto simp: sep_def numeral_2_eq_2)
qed

text \<open>
  \<^verbatim>\<open>strcmp\<close> returns on any two strings, answers \<open>0\<close> exactly when they are equal, and is
  antisymmetric.
\<close>

theorem strcmp_equality:
  assumes "cstr m a s" "cstr m b t" "a \<noteq> NULL" "b \<noteq> NULL"
  shows "\<exists>r. strcmp m a b = Some r \<and> (r = 0 \<longleftrightarrow> s = t) \<and> r \<in> {- 1, 0, 1}"
proof -
  have "str_order s t \<in> {- 1, 0, 1}" by (induction s t rule: str_order.induct) auto
  then show ?thesis using strcmp_cstr [OF assms] by simp
qed

theorem strcmp_equality_witness:
  "\<exists>r. strcmp (wr (wr (\<lambda>_. 7) 16 [108, 111, 0]) 4 [108, 0]) 4 16 = Some r \<and> r \<noteq> 0"
proof -
  let ?m = "wr (wr (\<lambda>_. 7) 16 [108, 111, 0]) 4 [108, 0]"
  have "cstr ?m 4 [108]" "cstr ?m 16 [108, 111]" by simp_all
  from strcmp_equality [OF this] show ?thesis by auto
qed

text \<open>
  \<^verbatim>\<open>strncmp\<close> answers \<open>0\<close> exactly when the first \<open>n\<close> bytes agree \<^emph>\<open>and\<close> no string ends among them:
  two equal strings shorter than \<open>n\<close> compare as different, which the standard forbids.
\<close>

theorem strncmp_zero_iff:
  assumes "cstr m a s" "cstr m b t" "a \<noteq> NULL" "b \<noteq> NULL"
  shows "strncmp m a b n = 0 \<longleftrightarrow> n \<le> length s \<and> take n s = take n t"
  by (rule strncmp_0_cstr [OF assms])

theorem strncmp_zero_iff_witness:
  "strncmp (wr (wr (\<lambda>_. 7) 16 [97, 98, 0]) 4 [97, 98, 0]) 4 16 5 \<noteq> 0 \<and>
   strncmp (wr (wr (\<lambda>_. 7) 16 [97, 98, 0]) 4 [97, 98, 0]) 4 16 2 = 0"
proof -
  let ?m = "wr (wr (\<lambda>_. 7) 16 [97, 98, 0]) 4 [97, 98, 0]"
  have "cstr ?m 4 [97, 98]" "cstr ?m 16 [97, 98]" by simp_all
  from strncmp_zero_iff [OF this] show ?thesis by simp
qed

text \<open>
  \<^verbatim>\<open>strstr\<close> returns the first occurrence of the needle in the haystack and NULL when there is
  none; an empty needle is found at the start.
\<close>

theorem strstr_first:
  assumes "cstr m h s" "cstr m n t" "h \<noteq> NULL" "n \<noteq> NULL"
  shows "strstr m h n =
    Some (if \<exists>k\<le>length s. occ s t k then h + (LEAST k. occ s t k) else NULL)"
proof (cases "t = []")
  case True
  then have "occ s t 0" by (simp add: occ_def)
  then have "(LEAST k. occ s t k) = 0" "\<exists>k\<le>length s. occ s t k" by (auto intro: Least_eq_0)
  moreover have "strlen m n = Some 0" using strlen_cstr [OF assms(2,4)] True by simp
  ultimately show ?thesis using assms(3,4) True by (simp add: strstr_def)
next
  case False
  have l: "strstr m h n = strstr_loop m h n (length t)" using assms False by (simp add: strstr_def)
  from strstr_loop_cstr [OF assms(2,4) False assms(1,3)] show ?thesis
  proof (elim disjE exE conjE)
    assume "\<forall>k\<le>length s. \<not> occ s t k" "strstr_loop m h n (length t) = Some NULL"
    then show ?thesis using l by auto
  next
    fix k assume k: "k < length s" "occ s t k" "\<forall>j<k. \<not> occ s t j"
      "strstr_loop m h n (length t) = Some (h + k)"
    have "(LEAST k. occ s t k) = k"
      using k(2,3) by (intro Least_equality) (auto simp: not_less [symmetric])
    moreover have "\<exists>k\<le>length s. occ s t k" using k(1,2) by (intro exI [of _ k]) simp
    ultimately show ?thesis using k(4) l by simp
  qed
qed

theorem strstr_first_witness:
  "strstr (wr (wr (\<lambda>_. 7) 16 [98, 0]) 4 [97, 98, 98, 0]) 4 16 = Some 5"
proof -
  let ?m = "wr (wr (\<lambda>_. 7) 16 [98, 0]) 4 [97, 98, 98, 0]" and ?s = "[97, 98, 98] :: byte list" and ?t = "[98] :: byte list"
  have "cstr ?m 4 ?s" "cstr ?m 16 ?t" by simp_all
  from strstr_first [OF this]
  have "strstr ?m 4 16 = Some (if \<exists>k\<le>length ?s. occ ?s ?t k then 4 + (LEAST k. occ ?s ?t k) else NULL)" by simp
  moreover have one: "occ ?s ?t 1" "\<not> occ ?s ?t 0" by (simp_all add: occ_def)
  moreover have "(LEAST k. occ ?s ?t k) = 1"
    using one by (intro Least_equality) (auto simp: Suc_le_eq intro: gr0I)
  moreover have "\<exists>k\<le>length ?s. occ ?s ?t k" using one(1) by (intro exI [of _ 1]) simp
  ultimately show ?thesis by simp
qed

text \<open>
  One call of \<^verbatim>\<open>strtok_r\<close> skips leading delimiters, terminates the next token in place and
  leaves \<^verbatim>\<open>*save\<close> at the rest of the string, so that repeated calls enumerate the tokens; bytes
  before the token and from the saved position on are unchanged.
\<close>

theorem strtok_r_next:
  assumes "cstr m p s" "cstr m q d" "p \<noteq> NULL" "q \<noteq> NULL" "a = p \<or> a = NULL \<and> sv = p"
    and "skip_delims (set d) s \<noteq> []" "q + length d < p \<or> p + length s < q"
  shows "\<exists>m' sv' t. strtok_r m a q (Some sv) = Some (m', Some sv', t) \<and>
    cstr m' t (takeWhile (\<lambda>x. x \<notin> set d) (skip_delims (set d) s)) \<and>
    cstr m' sv' (drop 1 (dropWhile (\<lambda>x. x \<notin> set d) (skip_delims (set d) s))) \<and> cstr m' q d \<and>
    p \<le> t \<and> (\<forall>x. x < t \<or> sv' \<le> x \<longrightarrow> m' x = m x)"
  using strtok_r_token [OF assms refl refl] by blast

theorem strtok_r_next_witness:
  "\<exists>m' sv' t. strtok_r (wr (wr (\<lambda>_. 7) 16 [44, 0]) 4 [44, 97, 44, 98, 0]) 4 16 (Some 0) = Some (m', Some sv', t) \<and>
    cstr m' t [97] \<and> cstr m' sv' [98]"
proof -
  let ?m = "wr (wr (\<lambda>_. 7) 16 [44, 0]) 4 [44, 97, 44, 98, 0]"
  have "cstr ?m 4 [44, 97, 44, 98]" "cstr ?m 16 [44]" by simp_all
  from strtok_r_next [OF this, of 4 0] show ?thesis by (auto simp: skip_delims_def)
qed

end
