(* ===== verification/Stdbit.thy ===== *)
theory Stdbit
  imports Prelude
begin

text \<open>
  \<^verbatim>\<open>include/stdbit.h\<close> and \<^verbatim>\<open>include/endian.h\<close>: the bit counting primitives (trailing and leading
  zeros by de Bruijn multiplication and table lookup, population count by SWAR addition), the
  C23 functions generated by \<^verbatim>\<open>__jacl_bitgen\<close>, the bit-set macros, and the byte swaps.

  The generated functions are modelled once with the width as a parameter; the value is the
  \<^verbatim>\<open>type\<close> argument widened to 64 bits, as the macro's casts do.
\<close>

unbundle bit_operations_syntax

section \<open>Counting zeros\<close>

definition ctz32_table :: "nat list" where
  "ctz32_table =
    [0, 1, 28, 2, 29, 14, 24, 3, 30, 22, 20, 15, 25, 17, 4, 8,
     31, 27, 13, 23, 21, 19, 16, 7, 26, 12, 18, 6, 11, 5, 10, 9]"

definition ctz32 :: "u32 \<Rightarrow> nat" where
  "ctz32 x = (if x = 0 then 32
     else ctz32_table ! unat (drop_bit 27 ((x AND - x) * 0x077CB531)))"

definition ctz64_table :: "nat list" where
  "ctz64_table =
    [0, 1, 2, 53, 3, 7, 54, 27, 4, 38, 41, 8, 34, 55, 48, 28,
     62, 5, 39, 46, 44, 42, 22, 9, 24, 35, 59, 56, 49, 18, 29, 11,
     63, 52, 6, 26, 37, 40, 33, 47, 61, 45, 43, 21, 23, 58, 17, 10,
     51, 25, 36, 32, 60, 20, 57, 16, 50, 31, 19, 15, 30, 14, 13, 12]"

definition ctz64 :: "u64 \<Rightarrow> nat" where
  "ctz64 x = (if x = 0 then 64
     else ctz64_table ! unat (drop_bit 58 ((x AND - x) * 0x022fdd63cc95386d)))"

definition clz32_table :: "nat list" where
  "clz32_table =
    [31, 22, 30, 21, 18, 10, 29, 2, 20, 17, 15, 13, 9, 6, 28, 1,
     23, 19, 11, 3, 16, 14, 7, 24, 12, 4, 8, 25, 5, 26, 27, 0]"

definition smear :: "nat \<Rightarrow> 'a::len word \<Rightarrow> 'a word" where
  "smear k x = x OR drop_bit k x"

definition clz32 :: "u32 \<Rightarrow> nat" where
  "clz32 x = (if x = 0 then 32
     else clz32_table ! unat (drop_bit 27
       (smear 16 (smear 8 (smear 4 (smear 2 (smear 1 x)))) * 0x07C4ACDD)))"

definition clz64_table :: "nat list" where
  "clz64_table =
    [63, 16, 62, 7, 15, 36, 61, 3, 6, 14, 22, 26, 35, 47, 60, 2,
     9, 5, 28, 11, 13, 21, 42, 19, 25, 31, 34, 40, 46, 52, 59, 1,
     17, 8, 37, 4, 23, 27, 48, 10, 29, 12, 43, 20, 32, 41, 53, 18,
     38, 24, 49, 30, 44, 33, 54, 39, 50, 45, 55, 51, 56, 57, 58, 0]"

definition clz64 :: "u64 \<Rightarrow> nat" where
  "clz64 x = (if x = 0 then 64
     else clz64_table ! unat (drop_bit 58
       (smear 32 (smear 16 (smear 8 (smear 4 (smear 2 (smear 1 x))))) * 0x03f79d71b4cb0a89)))"

section \<open>Population count\<close>

definition pop32 :: "u32 \<Rightarrow> u32" where
  "pop32 x0 =
     (let x1 = x0 - (drop_bit 1 x0 AND 0x55555555);
          x2 = (x1 AND 0x33333333) + (drop_bit 2 x1 AND 0x33333333);
          x3 = (x2 + drop_bit 4 x2) AND 0x0F0F0F0F;
          x4 = x3 + drop_bit 8 x3;
          x5 = x4 + drop_bit 16 x4
      in x5 AND 0x3F)"

definition pop64 :: "u64 \<Rightarrow> u64" where
  "pop64 x0 =
     (let x1 = x0 - (drop_bit 1 x0 AND 0x5555555555555555);
          x2 = (x1 AND 0x3333333333333333) + (drop_bit 2 x1 AND 0x3333333333333333);
          x3 = (x2 + drop_bit 4 x2) AND 0x0F0F0F0F0F0F0F0F;
          x4 = x3 + drop_bit 8 x3;
          x5 = x4 + drop_bit 16 x4;
          x6 = x5 + drop_bit 32 x5
      in x6 AND 0x7F)"

section \<open>The C23 functions\<close>

text \<open>\<open>w\<close> is the macro's \<^verbatim>\<open>width\<close>; \<open>trunc w\<close> is the conversion to its \<^verbatim>\<open>type\<close>.\<close>

definition trunc :: "nat \<Rightarrow> u64 \<Rightarrow> u64" where
  "trunc w v = take_bit w v"

definition stdc_leading_zeros :: "nat \<Rightarrow> u64 \<Rightarrow> int" where
  "stdc_leading_zeros w v =
     (if v = 0 then int w
      else if w \<le> 32 then int (clz32 (ucast v)) - (32 - int w) else int (clz64 v))"

definition stdc_leading_ones :: "nat \<Rightarrow> u64 \<Rightarrow> int" where
  "stdc_leading_ones w v = stdc_leading_zeros w (trunc w (NOT v))"

definition stdc_trailing_zeros :: "nat \<Rightarrow> u64 \<Rightarrow> int" where
  "stdc_trailing_zeros w v =
     (if v = 0 then int w
      else if w \<le> 32 then int (ctz32 (ucast v)) else int (ctz64 v))"

definition stdc_trailing_ones :: "nat \<Rightarrow> u64 \<Rightarrow> int" where
  "stdc_trailing_ones w v = stdc_trailing_zeros w (trunc w (NOT v))"

definition stdc_count_ones :: "nat \<Rightarrow> u64 \<Rightarrow> int" where
  "stdc_count_ones w v = (if w \<le> 32 then uint (pop32 (ucast v)) else uint (pop64 v))"

definition stdc_count_zeros :: "nat \<Rightarrow> u64 \<Rightarrow> int" where
  "stdc_count_zeros w v = int w - stdc_count_ones w v"

definition stdc_bit_width :: "nat \<Rightarrow> u64 \<Rightarrow> int" where
  "stdc_bit_width w v = (if v \<noteq> 0 then int w - stdc_leading_zeros w v else 0)"

definition stdc_bit_floor :: "nat \<Rightarrow> u64 \<Rightarrow> u64" where
  "stdc_bit_floor w v =
     (if v \<noteq> 0 then trunc w (push_bit (nat (stdc_bit_width w v - 1)) 1) else 0)"

definition stdc_bit_ceil :: "nat \<Rightarrow> u64 \<Rightarrow> u64" where
  "stdc_bit_ceil w v =
     (if v = 0 then 0 else trunc w (push_bit (nat (stdc_bit_width w (trunc w (v - 1)))) 1))"

definition stdc_has_single_bit :: "nat \<Rightarrow> u64 \<Rightarrow> bool" where
  "stdc_has_single_bit w v \<longleftrightarrow> v \<noteq> 0 \<and> (v - 1) AND v = 0"

section \<open>Bit sets\<close>

definition BITON :: "byte list \<Rightarrow> nat \<Rightarrow> byte list" where
  "BITON p b = p[b div 8 := (p ! (b div 8)) OR push_bit (b mod 8) 1]"

definition BITOFF :: "byte list \<Rightarrow> nat \<Rightarrow> byte list" where
  "BITOFF p b = p[b div 8 := (p ! (b div 8)) AND NOT (push_bit (b mod 8) 1)]"

definition BITFLIP :: "byte list \<Rightarrow> nat \<Rightarrow> byte list" where
  "BITFLIP p b = p[b div 8 := (p ! (b div 8)) XOR push_bit (b mod 8) 1]"

definition BITCHECK :: "byte list \<Rightarrow> nat \<Rightarrow> bool" where
  "BITCHECK p b \<longleftrightarrow> (p ! (b div 8)) AND push_bit (b mod 8) 1 \<noteq> 0"

section \<open>Byte order\<close>

definition bswap_16 :: "u16 \<Rightarrow> u16" where
  "bswap_16 x = drop_bit 8 x OR push_bit 8 x"

definition bswap_32 :: "u32 \<Rightarrow> u32" where
  "bswap_32 x = drop_bit 24 x OR (drop_bit 8 x AND 0x0000FF00) OR
     (push_bit 8 x AND 0x00FF0000) OR push_bit 24 x"

definition bswap_64 :: "u64 \<Rightarrow> u64" where
  "bswap_64 x = drop_bit 56 x OR (drop_bit 40 x AND 0x000000000000FF00) OR
     (drop_bit 24 x AND 0x0000000000FF0000) OR
     (drop_bit 8 x AND 0x00000000FF000000) OR
     (push_bit 8 x AND 0x000000FF00000000) OR
     (push_bit 24 x AND 0x0000FF0000000000) OR
     (push_bit 40 x AND 0x00FF000000000000) OR push_bit 56 x"

definition pdp_to_le32 :: "u32 \<Rightarrow> u32" where
  "pdp_to_le32 x = drop_bit 16 (x AND 0x00FF0000) OR push_bit 16 (x AND 0x0000FF00) OR
     push_bit 8 (x AND 0x000000FF) OR drop_bit 8 (x AND 0xFF000000)"

definition pdp_to_le64 :: "u64 \<Rightarrow> u64" where
  "pdp_to_le64 x = ucast (pdp_to_le32 (ucast x)) OR
     push_bit 32 (ucast (pdp_to_le32 (ucast (drop_bit 32 x))))"

datatype order = LE | BE | PDP

definition htobe32 :: "order \<Rightarrow> u32 \<Rightarrow> u32" where
  "htobe32 ord x = (case ord of LE \<Rightarrow> bswap_32 x | BE \<Rightarrow> x | PDP \<Rightarrow> bswap_32 (pdp_to_le32 x))"

definition be32toh :: "order \<Rightarrow> u32 \<Rightarrow> u32" where
  "be32toh ord x = (case ord of LE \<Rightarrow> bswap_32 x | BE \<Rightarrow> x | PDP \<Rightarrow> pdp_to_le32 (bswap_32 x))"

definition htole32 :: "order \<Rightarrow> u32 \<Rightarrow> u32" where
  "htole32 ord x = (case ord of LE \<Rightarrow> x | BE \<Rightarrow> bswap_32 x | PDP \<Rightarrow> pdp_to_le32 x)"

definition le32toh :: "order \<Rightarrow> u32 \<Rightarrow> u32" where
  "le32toh ord x = (case ord of LE \<Rightarrow> x | BE \<Rightarrow> bswap_32 x | PDP \<Rightarrow> pdp_to_le32 x)"

definition htobe64 :: "order \<Rightarrow> u64 \<Rightarrow> u64" where
  "htobe64 ord x = (case ord of LE \<Rightarrow> bswap_64 x | BE \<Rightarrow> x | PDP \<Rightarrow> bswap_64 (pdp_to_le64 x))"

definition be64toh :: "order \<Rightarrow> u64 \<Rightarrow> u64" where
  "be64toh ord x = (case ord of LE \<Rightarrow> bswap_64 x | BE \<Rightarrow> x | PDP \<Rightarrow> pdp_to_le64 (bswap_64 x))"

definition htole64 :: "order \<Rightarrow> u64 \<Rightarrow> u64" where
  "htole64 ord x = (case ord of LE \<Rightarrow> x | BE \<Rightarrow> bswap_64 x | PDP \<Rightarrow> pdp_to_le64 x)"

definition le64toh :: "order \<Rightarrow> u64 \<Rightarrow> u64" where
  "le64toh ord x = (case ord of LE \<Rightarrow> x | BE \<Rightarrow> bswap_64 x | PDP \<Rightarrow> pdp_to_le64 x)"

definition htobe16 :: "order \<Rightarrow> u16 \<Rightarrow> u16" where
  "htobe16 ord x = (case ord of LE \<Rightarrow> bswap_16 x | BE \<Rightarrow> x | PDP \<Rightarrow> bswap_16 x)"

definition htole16 :: "order \<Rightarrow> u16 \<Rightarrow> u16" where
  "htole16 ord x = (case ord of LE \<Rightarrow> x | BE \<Rightarrow> bswap_16 x | PDP \<Rightarrow> x)"

definition be16toh :: "order \<Rightarrow> u16 \<Rightarrow> u16" where
  "be16toh ord x = (case ord of LE \<Rightarrow> bswap_16 x | BE \<Rightarrow> x | PDP \<Rightarrow> bswap_16 x)"

definition le16toh :: "order \<Rightarrow> u16 \<Rightarrow> u16" where
  "le16toh ord x = (case ord of LE \<Rightarrow> x | BE \<Rightarrow> bswap_16 x | PDP \<Rightarrow> x)"

section \<open>Lowest and highest set bit\<close>

lemma odd_minus_1: "odd y \<Longrightarrow> y - 1 = unset_bit 0 (y :: 'a::len word)"
proof -
  assume "odd y"
  then have "2 * (y div 2) + 1 = y" using mod_mult_div_eq [of y 2] by (simp add: odd_iff_mod_2_eq_one add.commute)
  then have "y - 1 = 2 * (y div 2)" by (metis add_diff_cancel_right')
  then show ?thesis by (simp only: unset_bit_0)
qed

lemma odd_and_minus: "odd y \<Longrightarrow> y AND - y = (1 :: 'a::len word)"
  by (rule bit_word_eqI)
    (auto simp: minus_eq_not_minus_1 odd_minus_1 bit_simps bit_1_iff bit_0)

lemma lowest_bit_split:
  fixes x :: "'a::len word"
  assumes "\<forall>j<k. \<not> bit x j"
  shows "x = push_bit k (drop_bit k x)"
proof (rule bit_word_eqI)
  fix n assume "n < LENGTH('a)"
  then show "bit x n = bit (push_bit k (drop_bit k x)) n"
    using assms by (cases "n < k") (auto simp: bit_push_bit_iff bit_drop_bit_eq)
qed

lemma and_minus_push:
  fixes x :: "'a::len word"
  assumes "bit x k" "\<forall>j<k. \<not> bit x j"
  shows "x AND - x = push_bit k 1"
proof -
  define y where "y = drop_bit k x"
  have x: "x = push_bit k y" using lowest_bit_split assms y_def by blast
  have "odd y" using assms(1) by (simp add: y_def bit_iff_odd_drop_bit)
  have "- x = push_bit k (- y)" unfolding x by (simp add: push_bit_eq_mult)
  then have "x AND - x = push_bit k (y AND - y)" using x by (metis push_bit_and)
  then show ?thesis using odd_and_minus [OF \<open>odd y\<close>] by simp
qed

text \<open>\<open>covers m x y\<close>: the word \<open>y\<close> has bit \<open>n\<close> set when \<open>x\<close> has one of the bits \<open>n, \<dots>, n + m - 1\<close> set.\<close>

definition covers :: "nat \<Rightarrow> 'a::len word \<Rightarrow> 'a word \<Rightarrow> bool" where
  "covers m x y \<longleftrightarrow> (\<forall>n. bit y n \<longleftrightarrow> (\<exists>i<m. bit x (n + i)))"

lemma covers_1: "covers 1 x x"
  by (simp add: covers_def)

lemma covers_smear: "covers m x y \<Longrightarrow> covers (m + m) x (smear m y)"
  unfolding covers_def smear_def
proof (intro allI)
  fix n assume a: "\<forall>n. bit y n = (\<exists>i<m. bit x (n + i))"
  have "(\<exists>i<m. bit x (n + i)) \<or> (\<exists>i<m. bit x (m + n + i)) \<longleftrightarrow> (\<exists>i<m + m. bit x (n + i))" (is "?l \<longleftrightarrow> ?r")
  proof
    assume ?r
    then obtain i where i: "i < m + m" "bit x (n + i)" by blast
    show ?l
    proof (cases "i < m")
      case True
      with i show ?thesis by blast
    next
      case False
      with i have "i - m < m" "bit x (m + n + (i - m))" by (auto simp: ac_simps)
      then show ?thesis by blast
    qed
  next
    assume ?l
    then show ?r
    proof (elim disjE exE conjE)
      fix i assume "i < m" "bit x (n + i)"
      then show ?r by (intro exI [of _ i]) auto
    next
      fix i assume "i < m" "bit x (m + n + i)"
      then show ?r by (intro exI [of _ "m + i"]) (auto simp: ac_simps)
    qed
  qed
  then show "bit (y OR drop_bit m y) n = (\<exists>i<m + m. bit x (n + i))"
    using a by (simp add: bit_or_iff bit_drop_bit_eq)
qed

lemma covers_double: "covers m x y \<Longrightarrow> k = m + m \<Longrightarrow> covers k x (smear m y)"
  using covers_smear by blast

lemma covers_mask:
  fixes x :: "'a::len word"
  assumes "covers m x y" "LENGTH('a) \<le> m" "bit x h" "\<forall>j>h. \<not> bit x j"
  shows "y = mask (Suc h)"
proof (rule bit_word_eqI)
  fix n assume n: "n < LENGTH('a)"
  have h: "h < LENGTH('a)" using assms(3) by (rule bit_imp_le_length)
  have "(\<exists>i<m. bit x (n + i)) \<longleftrightarrow> n \<le> h"
    using assms h by (metis add_le_imp_le_diff le_add_diff_inverse le_iff_add less_le_trans linorder_not_less add.commute le_less_trans diff_le_self)
  then show "bit y n = bit (mask (Suc h) :: 'a word) n"
    using assms(1) n by (auto simp: covers_def bit_mask_iff)
qed

section \<open>The tables\<close>

lemma all_less_32:
  "list_all P
    [0, 1, 2, 3, 4, 5, 6, 7, 8, 9, 10, 11, 12, 13, 14, 15,
     16, 17, 18, 19, 20, 21, 22, 23, 24, 25, 26, 27, 28, 29, 30, 31 :: nat] \<Longrightarrow>
   k < 32 \<Longrightarrow> P k"
proof -
  assume a: "list_all P
    [0, 1, 2, 3, 4, 5, 6, 7, 8, 9, 10, 11, 12, 13, 14, 15,
     16, 17, 18, 19, 20, 21, 22, 23, 24, 25, 26, 27, 28, 29, 30, 31 :: nat]"
    and k: "k < 32"
  from k have "k \<in> set
    [0, 1, 2, 3, 4, 5, 6, 7, 8, 9, 10, 11, 12, 13, 14, 15,
     16, 17, 18, 19, 20, 21, 22, 23, 24, 25, 26, 27, 28, 29, 30, 31 :: nat]" by (simp, presburger)
  with a show ?thesis by (simp only: list_all_iff)
qed

lemma all_less_64:
  "list_all P
    [0, 1, 2, 3, 4, 5, 6, 7, 8, 9, 10, 11, 12, 13, 14, 15,
     16, 17, 18, 19, 20, 21, 22, 23, 24, 25, 26, 27, 28, 29, 30, 31,
     32, 33, 34, 35, 36, 37, 38, 39, 40, 41, 42, 43, 44, 45, 46, 47,
     48, 49, 50, 51, 52, 53, 54, 55, 56, 57, 58, 59, 60, 61, 62, 63 :: nat] \<Longrightarrow>
   k < 64 \<Longrightarrow> P k"
proof -
  assume a: "list_all P
    [0, 1, 2, 3, 4, 5, 6, 7, 8, 9, 10, 11, 12, 13, 14, 15,
     16, 17, 18, 19, 20, 21, 22, 23, 24, 25, 26, 27, 28, 29, 30, 31,
     32, 33, 34, 35, 36, 37, 38, 39, 40, 41, 42, 43, 44, 45, 46, 47,
     48, 49, 50, 51, 52, 53, 54, 55, 56, 57, 58, 59, 60, 61, 62, 63 :: nat]"
    and k: "k < 64"
  from k have "k \<in> set
    [0, 1, 2, 3, 4, 5, 6, 7, 8, 9, 10, 11, 12, 13, 14, 15,
     16, 17, 18, 19, 20, 21, 22, 23, 24, 25, 26, 27, 28, 29, 30, 31,
     32, 33, 34, 35, 36, 37, 38, 39, 40, 41, 42, 43, 44, 45, 46, 47,
     48, 49, 50, 51, 52, 53, 54, 55, 56, 57, 58, 59, 60, 61, 62, 63 :: nat]" by (simp, presburger)
  with a show ?thesis by (simp only: list_all_iff)
qed


lemma ctz32_table_ok: "k < 32 \<Longrightarrow> ctz32_table ! unat (drop_bit 27 (push_bit k 1 * (0x077CB531 :: u32))) = k"
  by (rule all_less_32 [where P = "\<lambda>k. ctz32_table ! unat (drop_bit 27 (push_bit k 1 * (0x077CB531 :: u32))) = k"])
    (simp_all add: ctz32_table_def)

lemma ctz64_table_ok: "k < 64 \<Longrightarrow> ctz64_table ! unat (drop_bit 58 (push_bit k 1 * (0x022fdd63cc95386d :: u64))) = k"
  by (rule all_less_64 [where P = "\<lambda>k. ctz64_table ! unat (drop_bit 58 (push_bit k 1 * (0x022fdd63cc95386d :: u64))) = k"])
    (simp_all add: ctz64_table_def)

lemma clz32_table_ok: "k < 32 \<Longrightarrow> clz32_table ! unat (drop_bit 27 (mask (Suc k) * (0x07C4ACDD :: u32))) = 31 - k"
  by (rule all_less_32 [where P = "\<lambda>k. clz32_table ! unat (drop_bit 27 (mask (Suc k) * (0x07C4ACDD :: u32))) = 31 - k"])
    (simp_all add: clz32_table_def mask_eq_exp_minus_1)

lemma clz64_table_ok: "k < 64 \<Longrightarrow> clz64_table ! unat (drop_bit 58 (mask (Suc k) * (0x03f79d71b4cb0a89 :: u64))) = 63 - k"
  by (rule all_less_64 [where P = "\<lambda>k. clz64_table ! unat (drop_bit 58 (mask (Suc k) * (0x03f79d71b4cb0a89 :: u64))) = 63 - k"])
    (simp_all add: clz64_table_def mask_eq_exp_minus_1)

lemma lowest_bit:
  fixes x :: "'a::len word"
  assumes "x \<noteq> 0"
  obtains k where "bit x k" "\<forall>j<k. \<not> bit x j"
proof -
  obtain n where "bit x n" using assms by (metis bit_eqI bit_0_eq bot_apply bot_bool_def)
  then show ?thesis using that [of "LEAST n. bit x n"] by (metis LeastI not_less_Least)
qed

lemma highest_bit:
  fixes x :: "'a::len word"
  assumes "x \<noteq> 0"
  obtains k where "bit x k" "\<forall>j>k. \<not> bit x j"
proof -
  obtain n where "bit x n" using assms by (metis bit_eqI bit_0_eq bot_apply bot_bool_def)
  moreover have "\<forall>y. bit x y \<longrightarrow> y \<le> LENGTH('a)" using bit_imp_le_length by (metis less_imp_le)
  ultimately show ?thesis
    using that [of "GREATEST n. bit x n"] GreatestI_nat [of "bit x" n "LENGTH('a)"]
      Greatest_le_nat [of "bit x" _ "LENGTH('a)"] by (metis linorder_not_less)
qed

lemma ctz32_eq: "bit x k \<Longrightarrow> \<forall>j<k. \<not> bit x j \<Longrightarrow> ctz32 x = k"
  using bit_imp_le_length [of x k] ctz32_table_ok [of k]
  by (auto simp: ctz32_def and_minus_push)

lemma ctz64_eq: "bit x k \<Longrightarrow> \<forall>j<k. \<not> bit x j \<Longrightarrow> ctz64 x = k"
  using bit_imp_le_length [of x k] ctz64_table_ok [of k]
  by (auto simp: ctz64_def and_minus_push)

lemma covers_32: "covers 32 x (smear 16 (smear 8 (smear 4 (smear 2 (smear 1 x)))))"
  by (rule covers_double covers_1 | simp only: arith_simps numeral_One [symmetric])+

lemma clz32_eq:
  assumes "bit x k" "\<forall>j>k. \<not> bit x j"
  shows "clz32 x = 31 - k"
proof -
  have "smear 16 (smear 8 (smear 4 (smear 2 (smear 1 x)))) = mask (Suc k)"
    using covers_mask [OF covers_32 _ assms] by simp
  then show ?thesis
    using assms(1) bit_imp_le_length [OF assms(1)] clz32_table_ok [of k] by (auto simp: clz32_def)
qed

lemma clz64_eq:
  assumes "bit x k" "\<forall>j>k. \<not> bit x j"
  shows "clz64 x = 63 - k"
proof -
  have "covers 64 x (smear 32 (smear 16 (smear 8 (smear 4 (smear 2 (smear 1 x))))))"
    by (rule covers_double [OF covers_32]) simp
  then have "smear 32 (smear 16 (smear 8 (smear 4 (smear 2 (smear 1 x))))) = mask (Suc k)"
    using covers_mask [OF _ _ assms] by simp
  then show ?thesis
    using assms(1) bit_imp_le_length [OF assms(1)] clz64_table_ok [of k] by (auto simp: clz64_def)
qed

section \<open>The generated functions\<close>

lemma clz32_ucast:
  fixes v :: u64
  assumes "k < 32" "bit v k" "\<forall>j>k. \<not> bit v j"
  shows "clz32 (ucast v) = 31 - k"
  using assms by (intro clz32_eq) (auto simp: bit_ucast_iff)

lemma ctz32_ucast:
  fixes v :: u64
  assumes "k < 32" "bit v k" "\<forall>j<k. \<not> bit v j"
  shows "ctz32 (ucast v) = k"
  using assms by (intro ctz32_eq) (auto simp: bit_ucast_iff)

lemma leading_zeros_eq:
  assumes "w \<in> {8, 16, 32, 64}" "bit v k" "k < w" "\<forall>j>k. \<not> bit v j"
  shows "stdc_leading_zeros w v = int w - 1 - int k"
proof (cases "w \<le> 32")
  case True
  with assms have "clz32 (ucast v) = 31 - k" by (intro clz32_ucast) auto
  with True assms show ?thesis by (auto simp: stdc_leading_zeros_def of_nat_diff)
next
  case False
  with assms have "w = 64" "clz64 v = 63 - k" by (auto intro: clz64_eq)
  with assms show ?thesis by (auto simp: stdc_leading_zeros_def of_nat_diff)
qed

lemma trailing_zeros_eq:
  assumes "w \<in> {8, 16, 32, 64}" "bit v k" "k < w" "\<forall>j<k. \<not> bit v j"
  shows "stdc_trailing_zeros w v = int k"
  using assms ctz32_ucast [of k v] ctz64_eq [of v k] by (auto simp: stdc_trailing_zeros_def)

lemma take_bit_id_bound: "take_bit w v = v \<Longrightarrow> bit v k \<Longrightarrow> k < w"
  by (metis bit_take_bit_iff)

lemma unat_bounds_highest:
  fixes v :: "'a::len word"
  assumes "bit v k" "\<forall>j>k. \<not> bit v j"
  shows "2 ^ k \<le> unat v" "unat v < 2 * 2 ^ k"
proof -
  have "bit (unat v) k" using assms(1) by (simp add: bit_unsigned_iff)
  then show "2 ^ k \<le> unat v"
    by (metis bit_take_bit_iff less_irrefl linorder_not_less take_bit_nat_eq_self)
  have "take_bit (Suc k) v = v"
    using assms(2) by (intro bit_word_eqI) (auto simp: bit_take_bit_iff not_less_eq)
  then have "unat v = take_bit (Suc k) (unat v)" by (metis unsigned_take_bit_eq)
  then show "unat v < 2 * 2 ^ k" by (metis power_Suc take_bit_nat_less_exp)
qed

text \<open>
  For every width the header generates (8, 16, 32 and 64 bits) and every non-zero argument of
  that width, \<^verbatim>\<open>stdc_trailing_zeros\<close> is the index of the lowest set bit, and
  \<^verbatim>\<open>width - 1 - stdc_leading_zeros\<close> the index of the highest: the multiplications and
  tables of \<^verbatim>\<open>__jacl_ctz32/64\<close> and \<^verbatim>\<open>__jacl_clz32/64\<close> find the bit on every input.
\<close>

theorem stdc_zeros_locate_bits:
  assumes "w \<in> {8, 16, 32, 64}" "v \<noteq> 0" "take_bit w v = v"
  shows "\<exists>lo hi. stdc_trailing_zeros w v = int lo \<and> bit v lo \<and> (\<forall>j<lo. \<not> bit v j) \<and>
    stdc_leading_zeros w v = int w - 1 - int hi \<and> hi < w \<and> bit v hi \<and> (\<forall>j>hi. \<not> bit v j)"
proof -
  obtain lo where lo: "bit v lo" "\<forall>j<lo. \<not> bit v j" using lowest_bit [OF assms(2)] .
  obtain hi where hi: "bit v hi" "\<forall>j>hi. \<not> bit v j" using highest_bit [OF assms(2)] .
  have "lo < w" "hi < w" using take_bit_id_bound assms(3) lo(1) hi(1) by blast+
  then show ?thesis
    using leading_zeros_eq [OF assms(1) hi(1) _ hi(2)] trailing_zeros_eq [OF assms(1) lo(1) _ lo(2)] lo hi
    by blast
qed

theorem stdc_zeros_locate_bits_witness:
  "\<exists>lo hi. stdc_trailing_zeros 16 40 = int lo \<and> bit (40 :: u64) lo \<and>
    stdc_leading_zeros 16 40 = 15 - int hi \<and> bit (40 :: u64) hi"
proof -
  have "take_bit 16 40 = (40 :: u64)" by simp
  then have "\<exists>lo hi. stdc_trailing_zeros 16 40 = int lo \<and> bit (40 :: u64) lo \<and> (\<forall>j<lo. \<not> bit (40 :: u64) j) \<and>
    stdc_leading_zeros 16 40 = int 16 - 1 - int hi \<and> hi < 16 \<and> bit (40 :: u64) hi \<and> (\<forall>j>hi. \<not> bit (40 :: u64) j)"
    by (intro stdc_zeros_locate_bits) simp_all
  then show ?thesis by auto
qed

lemma bit_width_highest:
  assumes "w \<in> {8, 16, 32, 64}" "v \<noteq> 0" "take_bit w v = v"
  obtains hi where "hi < w" "stdc_bit_width w v = int hi + 1" "2 ^ hi \<le> unat v" "unat v < 2 * 2 ^ hi"
proof -
  obtain hi where hi: "bit v hi" "\<forall>j>hi. \<not> bit v j" using highest_bit [OF assms(2)] .
  moreover have "hi < w" using take_bit_id_bound assms(3) hi(1) by blast
  ultimately have "stdc_bit_width w v = int hi + 1"
    using leading_zeros_eq [OF assms(1) hi(1) _ hi(2)] assms(2) by (simp add: stdc_bit_width_def)
  then show ?thesis using that \<open>hi < w\<close> unat_bounds_highest [OF hi] by blast
qed

lemma trunc_push: "k < w \<Longrightarrow> trunc w (push_bit k 1) = push_bit k 1"
  unfolding trunc_def
  by (rule bit_word_eqI) (auto simp: bit_take_bit_iff bit_push_bit_iff bit_1_iff simp del: push_bit_of_1)

lemma take_bit_pred:
  fixes v :: u64
  assumes "take_bit w v = v" "v \<noteq> 0" "w \<le> 64"
  shows "take_bit w (v - 1) = v - 1"
proof -
  have "unat (v - 1) = unat v - 1" using assms(2) by (simp add: unat_minus_one)
  moreover have "unat v < 2 ^ w" using assms(1) by (metis unsigned_take_bit_eq take_bit_nat_less_exp)
  ultimately have "take_bit w (unat (v - 1)) = unat (v - 1)" by (simp add: take_bit_nat_eq_self)
  then show ?thesis by (simp add: unsigned_take_bit_eq word_unat_eq_iff)
qed

lemma stdc_bit_floor_eq:
  assumes "w \<in> {8, 16, 32, 64}" "v \<noteq> 0" "take_bit w v = v"
  shows "\<exists>k<w. stdc_bit_floor w v = push_bit k 1 \<and> 2 ^ k \<le> unat v \<and> unat v < 2 * 2 ^ k"
proof -
  obtain hi where "hi < w" "stdc_bit_width w v = int hi + 1" "2 ^ hi \<le> unat v" "unat v < 2 * 2 ^ hi"
    using bit_width_highest [OF assms] .
  then show ?thesis
    using assms(2) by (intro exI [of _ hi]) (simp add: stdc_bit_floor_def trunc_push del: push_bit_of_1)
qed

lemma stdc_bit_ceil_eq:
  assumes "w \<in> {8, 16, 32, 64}" "v \<noteq> 0" "take_bit w v = v" and le: "unat v \<le> 2 ^ (w - 1)"
  shows "\<exists>k<w. stdc_bit_ceil w v = push_bit k 1 \<and> unat v \<le> 2 ^ k \<and> 2 ^ k < 2 * unat v"
proof -
  have v: "unat (v - 1) = unat v - 1" "0 < unat v"
    using assms(2) by (simp_all add: unat_minus_one unat_gt_0)
  have w: "take_bit w (v - 1) = v - 1" "w \<le> 64" "0 < w" using take_bit_pred assms by auto
  show ?thesis
  proof (cases "v = 1")
    case True
    then show ?thesis using w
      by (intro exI [of _ 0]) (simp add: stdc_bit_ceil_def stdc_bit_width_def trunc_def)
  next
    case False
    then obtain hi where hi: "hi < w" "stdc_bit_width w (v - 1) = int hi + 1"
        "2 ^ hi \<le> unat (v - 1)" "unat (v - 1) < 2 * 2 ^ hi"
      using bit_width_highest [OF assms(1) _ w(1)] by auto
    have "(2::nat) ^ hi < 2 ^ (w - 1)" using hi(3) le v by linarith
    then have k: "Suc hi < w" using nat_power_less_imp_less by fastforce
    have n: "nat (1 + int hi) = Suc hi" by simp
    have "stdc_bit_ceil w v = push_bit (Suc hi) 1"
      unfolding stdc_bit_ceil_def trunc_def [of w "v - 1"] w(1) hi(2)
      using assms(2) trunc_push [OF k] n by (simp add: add.commute del: push_bit_of_1)
    moreover have "unat v \<le> 2 ^ Suc hi" "2 ^ Suc hi < 2 * unat v" using hi(3,4) v by simp_all
    ultimately show ?thesis using k by blast
  qed
qed

text \<open>
  \<^verbatim>\<open>stdc_bit_floor\<close> of a non-zero value is the largest power of two not above it, and
  \<^verbatim>\<open>stdc_bit_ceil\<close> the smallest power of two not below it when that power fits the width.
\<close>

theorem stdc_bit_floor_ceil:
  assumes "w \<in> {8, 16, 32, 64}" "v \<noteq> 0" "take_bit w v = v" "unat v \<le> 2 ^ (w - 1)"
  shows "\<exists>k<w. \<exists>l<w. stdc_bit_floor w v = push_bit k 1 \<and> 2 ^ k \<le> unat v \<and> unat v < 2 * 2 ^ k \<and>
    stdc_bit_ceil w v = push_bit l 1 \<and> unat v \<le> 2 ^ l \<and> 2 ^ l < 2 * unat v"
  using stdc_bit_floor_eq [OF assms(1-3)] stdc_bit_ceil_eq [OF assms] by blast

theorem stdc_bit_floor_ceil_witness:
  "\<exists>k l. stdc_bit_floor 8 40 = push_bit k 1 \<and> 2 ^ k \<le> (40::nat) \<and> (40::nat) < 2 * 2 ^ k \<and>
    stdc_bit_ceil 8 40 = push_bit l 1 \<and> 40 \<le> (2::nat) ^ l \<and> (2::nat) ^ l < 80"
proof -
  have t: "take_bit 8 40 = (40 :: u64)" "unat (40 :: u64) \<le> 2 ^ (8 - 1)" by simp_all
  have "\<exists>k<8. \<exists>l<8. stdc_bit_floor 8 40 = push_bit k 1 \<and> 2 ^ k \<le> unat (40 :: u64) \<and>
    unat (40 :: u64) < 2 * 2 ^ k \<and> stdc_bit_ceil 8 40 = push_bit l 1 \<and> unat (40 :: u64) \<le> 2 ^ l \<and>
    2 ^ l < 2 * unat (40 :: u64)"
    using stdc_bit_floor_ceil [OF _ _ t] by simp
  then show ?thesis by auto
qed

section \<open>Byte swaps\<close>

lemma bit_beyond: "LENGTH('a) \<le> n \<Longrightarrow> \<not> bit (x :: 'a::len word) n"
  using bit_imp_le_length not_le by blast

lemma bswap_16_invol: "bswap_16 (bswap_16 x) = x"
proof (rule bit_word_eqI)
  fix n assume "n < LENGTH(16)"
  then show "bit (bswap_16 (bswap_16 x)) n = bit x n"
    by (cases "n < 8") (simp_all add: bswap_16_def bit_simps bit_beyond)
qed

lemma bswap_32_invol: "bswap_32 (bswap_32 x) = x"
proof (rule bit_word_eqI)
  fix n assume "n < LENGTH(32)"
  then have n: "n < 32" by simp
  show "bit (bswap_32 (bswap_32 x)) n = bit x n"
    by (rule all_less_32 [OF _ n]) (simp add: bswap_32_def bit_simps bit_beyond)
qed

lemma pdp_twice: "pdp_to_le32 (pdp_to_le32 x) = bswap_32 x"
proof (rule bit_word_eqI)
  fix n assume "n < LENGTH(32)"
  then have n: "n < 32" by simp
  show "bit (pdp_to_le32 (pdp_to_le32 x)) n = bit (bswap_32 x) n"
    by (rule all_less_32 [OF _ n]) (simp add: pdp_to_le32_def bswap_32_def bit_simps bit_beyond)
qed

lemma bswap_64_invol: "bswap_64 (bswap_64 x) = x"
proof (rule bit_word_eqI)
  fix n assume "n < LENGTH(64)"
  then have n: "n < 64" by simp
  show "bit (bswap_64 (bswap_64 x)) n = bit x n"
    by (rule all_less_64 [OF _ n]) (simp add: bswap_64_def bit_simps bit_beyond)
qed

text \<open>
  Converting to big- or little-endian order and back gives the value on little- and big-endian
  hosts, at 16, 32 and 64 bits. On a PDP-endian host the 32-bit round trip does not: the two
  conversions together swap all four bytes, since \<^verbatim>\<open>__pdp_to_le32\<close> is not its own inverse.
\<close>

theorem byte_order_round_trip:
  "be16toh ord (htobe16 ord a) = a \<and> le16toh ord (htole16 ord a) = a \<and>
   be32toh ord (htobe32 ord b) = (if ord = PDP then bswap_32 b else b) \<and>
   le32toh ord (htole32 ord b) = (if ord = PDP then bswap_32 b else b) \<and>
   (ord = PDP \<or> be64toh ord (htobe64 ord c) = c \<and> le64toh ord (htole64 ord c) = c)"
  by (cases ord) (simp_all add: be16toh_def htobe16_def le16toh_def htole16_def be32toh_def htobe32_def
      le32toh_def htole32_def be64toh_def htobe64_def le64toh_def htole64_def
      bswap_16_invol bswap_32_invol bswap_64_invol pdp_twice)

section \<open>Bit sets\<close>

lemma bit_index_eq: "b div 8 = c div 8 \<Longrightarrow> (b mod 8 = c mod 8) = (b = (c :: nat))"
  by (metis div_mult_mod_eq)

lemma byte_bit_test: "k < 8 \<Longrightarrow> (y AND push_bit k 1 \<noteq> 0) = bit (y :: byte) k"
  by (simp add: and_exp_eq_0_iff_not_bit)

lemma BITCHECK_bit: "BITCHECK p b = bit (p ! (b div 8)) (b mod 8)"
  unfolding BITCHECK_def by (rule byte_bit_test) simp

text \<open>
  The bit-set macros change exactly the named bit: after \<^verbatim>\<open>BITON\<close> it is set, after
  \<^verbatim>\<open>BITOFF\<close> clear, after \<^verbatim>\<open>BITFLIP\<close> inverted, and every other bit of the array
  reads as before.
\<close>

theorem bitset_ops:
  assumes "b div 8 < length p"
  shows "BITCHECK (BITON p b) c = (c = b \<or> BITCHECK p c) \<and>
    BITCHECK (BITOFF p b) c = (c \<noteq> b \<and> BITCHECK p c) \<and>
    BITCHECK (BITFLIP p b) c = (BITCHECK p c \<noteq> (c = b))"
  using assms bit_index_eq [of c b]
  by (cases "c div 8 = b div 8")
     (auto simp: BITCHECK_bit BITON_def BITOFF_def BITFLIP_def bit_simps simp del: push_bit_of_1)

theorem bitset_ops_witness:
  "BITCHECK (BITON [0, 0] 9) 9 \<and> \<not> BITCHECK (BITON [0, 0] 9) 1 \<and> \<not> BITCHECK (BITOFF [7] 1) 1"
  using bitset_ops [of 9 "[0, 0]" 9] bitset_ops [of 9 "[0, 0]" 1] bitset_ops [of 1 "[7]" 1]
  by (simp add: BITCHECK_def)

end
