(* ===== verification/Strings.thy ===== *)
theory Strings
  imports CStr Ctype Stdbit
begin

text \<open>
  \<^verbatim>\<open>include/strings.h\<close>: case-insensitive comparison, the first and last set bit, and the BSD
  names for the memory routines.  Characters are compared as \<^verbatim>\<open>unsigned char\<close> there, so a byte
  is read by \<open>uint\<close>.  \<^verbatim>\<open>ffsl\<close> and \<^verbatim>\<open>flsl\<close> take the width of \<^verbatim>\<open>long\<close> as their first argument
  (\<open>is64\<close> stands for \<^verbatim>\<open>JACL_64BIT\<close>).
\<close>

unbundle bit_operations_syntax

section \<open>Case-insensitive comparison\<close>

definition lower :: "byte \<Rightarrow> int" where
  "lower b = tolower (uint b)"

partial_function (option) strcasecmp_loop :: "mem \<Rightarrow> ptr \<Rightarrow> ptr \<Rightarrow> int option" where
  "strcasecmp_loop m p1 p2 =
     (if m p1 \<noteq> 0 \<and> m p2 \<noteq> 0 then
        (if lower (m p1) \<noteq> lower (m p2) then Some (lower (m p1) - lower (m p2))
         else strcasecmp_loop m (Suc p1) (Suc p2))
      else Some (lower (m p1) - lower (m p2)))"

definition strcasecmp :: "mem \<Rightarrow> ptr \<Rightarrow> ptr \<Rightarrow> int option" where
  "strcasecmp m s1 s2 =
     (if s1 = NULL \<or> s2 = NULL then Some (if s1 = s2 then 0 else if s1 \<noteq> NULL then 1 else - 1)
      else strcasecmp_loop m s1 s2)"

function strncasecmp_loop :: "mem \<Rightarrow> ptr \<Rightarrow> ptr \<Rightarrow> nat \<Rightarrow> nat \<Rightarrow> int" where
  "strncasecmp_loop m p1 p2 i n =
     (if i < n \<and> m p1 \<noteq> 0 \<and> m p2 \<noteq> 0 then
        (if lower (m p1) \<noteq> lower (m p2) then lower (m p1) - lower (m p2)
         else strncasecmp_loop m (Suc p1) (Suc p2) (Suc i) n)
      else if i = n then 0 else lower (m p1) - lower (m p2))"
  by pat_completeness auto
termination by (relation "measure (\<lambda>(m, p1, p2, i, n). n - i)") auto

definition strncasecmp :: "mem \<Rightarrow> ptr \<Rightarrow> ptr \<Rightarrow> nat \<Rightarrow> int" where
  "strncasecmp m s1 s2 n =
     (if n = 0 then 0
      else if s1 = NULL \<or> s2 = NULL then (if s1 = s2 then 0 else if s1 \<noteq> NULL then 1 else - 1)
      else strncasecmp_loop m s1 s2 0 n)"

section \<open>First and last set bit\<close>

definition ffs :: "u32 \<Rightarrow> nat" where
  "ffs msk = (if msk = 0 then 0 else ctz32 msk + 1)"

definition ffsll :: "u64 \<Rightarrow> nat" where
  "ffsll msk = (if msk = 0 then 0
     else let lo = ucast msk :: u32 in
       if lo \<noteq> 0 then ctz32 lo + 1 else ctz32 (ucast (drop_bit 32 msk)) + 33)"

definition ffsl :: "bool \<Rightarrow> u64 \<Rightarrow> nat" where
  "ffsl is64 msk = (if msk = 0 then 0
     else if is64 then
       (let lo = ucast msk :: u32 in
        if lo \<noteq> 0 then ctz32 lo + 1 else ctz32 (ucast (drop_bit 32 msk)) + 33)
     else ctz32 (ucast msk) + 1)"

definition fls :: "u32 \<Rightarrow> nat" where
  "fls msk = (if msk = 0 then 0 else 32 - clz32 msk)"

definition flsll :: "u64 \<Rightarrow> nat" where
  "flsll msk = (if msk = 0 then 0
     else let hi = ucast (drop_bit 32 msk) :: u32 in
       if hi \<noteq> 0 then 64 - clz32 hi else 32 - clz32 (ucast msk))"

definition flsl :: "bool \<Rightarrow> u64 \<Rightarrow> nat" where
  "flsl is64 msk = (if msk = 0 then 0
     else if is64 then
       (let hi = ucast (drop_bit 32 msk) :: u32 in
        if hi \<noteq> 0 then 64 - clz32 hi else 32 - clz32 (ucast msk))
     else 32 - clz32 (ucast msk))"

section \<open>The BSD memory names\<close>

definition bzero :: "mem \<Rightarrow> ptr \<Rightarrow> nat \<Rightarrow> mem" where
  "bzero m s n = fst (memset m s 0 n)"

definition bcopy :: "mem \<Rightarrow> ptr \<Rightarrow> ptr \<Rightarrow> nat \<Rightarrow> mem" where
  "bcopy m src dest n = fst (memmove m dest src n)"

definition bcmp :: "mem \<Rightarrow> ptr \<Rightarrow> ptr \<Rightarrow> nat \<Rightarrow> int" where
  "bcmp m s1 s2 n = (if memcmp m s1 s2 n \<noteq> 0 then 1 else 0)"

definition index :: "mem \<Rightarrow> ptr \<Rightarrow> int \<Rightarrow> ptr option" where
  "index m s c = strchr m s c"

definition rindex :: "mem \<Rightarrow> ptr \<Rightarrow> int \<Rightarrow> ptr option" where
  "rindex m s c = strrchr m s c"

section \<open>Comparison of folded strings\<close>

lemma lower_0_iff [simp]: "lower b = 0 \<longleftrightarrow> b = 0"
  by (simp add: lower_def uint_0_iff)

lemma lower_0 [simp]: "lower 0 = 0"
  by simp

text \<open>The first difference of two lists of numbers, a missing element counting as \<open>0\<close>.\<close>

fun diff_order :: "int list \<Rightarrow> int list \<Rightarrow> int" where
  "diff_order (x # xs) (y # ys) = (if x = y then diff_order xs ys else x - y)"
| "diff_order [] [] = 0"
| "diff_order [] (y # ys) = - y"
| "diff_order (x # xs) [] = x"

lemma diff_order_0_iff: "0 \<notin> set xs \<Longrightarrow> 0 \<notin> set ys \<Longrightarrow> diff_order xs ys = 0 \<longleftrightarrow> xs = ys"
  by (induction xs ys rule: diff_order.induct) auto

lemma strcasecmp_loop_cstr:
  "cstr m a s \<Longrightarrow> cstr m b t \<Longrightarrow>
   strcasecmp_loop m a b = Some (diff_order (map lower s) (map lower t))"
proof (induction s arbitrary: a b t)
  case Nil
  then show ?case by (cases t) (simp_all add: strcasecmp_loop.simps [of m a b])
next
  case (Cons x s)
  then show ?case by (cases t) (auto simp: strcasecmp_loop.simps [of m a b])
qed

lemma strncasecmp_loop_cstr:
  "cstr m a s \<Longrightarrow> cstr m b t \<Longrightarrow> i \<le> n \<Longrightarrow>
   strncasecmp_loop m a b i n = diff_order (map lower (take (n - i) s)) (map lower (take (n - i) t))"
proof (induction s arbitrary: a b t i)
  case Nil
  then show ?case
    by (cases t; cases "i = n") (simp_all add: strncasecmp_loop.simps [of m a b] take_Cons')
next
  case (Cons x s)
  show ?case
  proof (cases t)
    case Nil
    then show ?thesis using Cons by (simp add: strncasecmp_loop.simps [of m a b] take_Cons')
  next
    case (Cons y ys)
    show ?thesis
    proof (cases "i < n \<and> lower x = lower y")
      case True
      then have n: "n - i = Suc (n - Suc i)" by (simp add: Suc_diff_Suc)
      have "strncasecmp_loop m (Suc a) (Suc b) (Suc i) n =
          diff_order (map lower (take (n - Suc i) s)) (map lower (take (n - Suc i) ys))"
        using Cons.IH [of "Suc a" "Suc b" ys "Suc i"] Cons.prems Cons True by simp
      then show ?thesis unfolding n using Cons.prems Cons True
        by (simp add: strncasecmp_loop.simps [of m a b i])
    next
      case False
      then show ?thesis using Cons.prems Cons
        by (cases "i = n") (simp_all add: strncasecmp_loop.simps [of m a b i] take_Cons')
    qed
  qed
qed

text \<open>
  \<^verbatim>\<open>strcasecmp\<close> returns on every pair of strings, and it and \<^verbatim>\<open>strncasecmp\<close> (on the first
  \<open>n\<close> characters) return \<open>0\<close> exactly when the strings agree up to the case of ASCII letters;
  strings that end before \<open>n\<close> are handled, unlike in \<^verbatim>\<open>strncmp\<close>.
\<close>

theorem strcasecmp_folds:
  assumes "cstr m a s" "cstr m b t" "a \<noteq> NULL" "b \<noteq> NULL"
  shows "\<exists>r. strcasecmp m a b = Some r \<and> (r = 0 \<longleftrightarrow> map lower s = map lower t) \<and>
    (strncasecmp m a b n = 0 \<longleftrightarrow> map lower (take n s) = map lower (take n t))"
proof -
  have nz: "0 \<notin> set (map lower s)" "0 \<notin> set (map lower t)"
    using cstr_no_nul [OF assms(1)] cstr_no_nul [OF assms(2)] by auto
  then have nzn: "0 \<notin> set (map lower (take n s))" "0 \<notin> set (map lower (take n t))"
    by (auto dest: in_set_takeD)
  show ?thesis
    using assms(3,4) strcasecmp_loop_cstr [OF assms(1,2)] strncasecmp_loop_cstr [OF assms(1,2), of 0 n]
      diff_order_0_iff [OF nz] diff_order_0_iff [OF nzn]
    by (cases "n = 0") (simp_all add: strcasecmp_def strncasecmp_def)
qed

theorem strcasecmp_folds_witness:
  "\<exists>r. strcasecmp (wr (wr (\<lambda>_. 7) 16 [97, 98, 0]) 4 [65, 66, 0]) 4 16 = Some r \<and> r = 0 \<and>
    strncasecmp (wr (wr (\<lambda>_. 7) 16 [97, 98, 0]) 4 [65, 66, 0]) 4 16 9 = 0"
proof -
  let ?m = "wr (wr (\<lambda>_. 7) 16 [97, 98, 0]) 4 [65, 66, 0]"
  have "cstr ?m 4 [65, 66]" "cstr ?m 16 [97, 98]" by simp_all
  from strcasecmp_folds [OF this, of 9] show ?thesis by (simp add: lower_def tolower_def)
qed

section \<open>The set bits found\<close>

lemma ffs_eq: "bit x k \<Longrightarrow> \<forall>j<k. \<not> bit x j \<Longrightarrow> ffs x = k + 1"
  by (auto simp: ffs_def ctz32_eq)

lemma fls_eq: "bit x k \<Longrightarrow> \<forall>j>k. \<not> bit x j \<Longrightarrow> fls x = k + 1"
  using bit_imp_le_length [of x k] by (auto simp: fls_def clz32_eq)

lemma lo_half_0_iff: "(ucast (x :: u64) :: u32) = 0 \<longleftrightarrow> (\<forall>j<32. \<not> bit x j)"
  by (auto simp: bit_eq_iff bit_ucast_iff)

lemma hi_half_0_iff: "(ucast (drop_bit 32 (x :: u64)) :: u32) = 0 \<longleftrightarrow> (\<forall>j\<ge>32. \<not> bit x j)"
  (is "?l \<longleftrightarrow> ?r")
proof
  assume l: ?l
  show ?r
  proof (intro allI impI)
    fix j :: nat assume "32 \<le> j"
    moreover have "\<not> bit (ucast (drop_bit 32 x) :: u32) (j - 32)" using l by simp
    ultimately show "\<not> bit x j"
      by (cases "j < 64") (auto simp: bit_ucast_iff bit_drop_bit_eq bit_beyond)
  qed
qed (auto simp: bit_eq_iff bit_ucast_iff bit_drop_bit_eq)

lemma ffsll_eq:
  assumes "bit x k" "\<forall>j<k. \<not> bit x j"
  shows "ffsll x = k + 1"
proof (cases "k < 32")
  case True
  with assms have "ucast x \<noteq> (0 :: u32)" by (auto simp: lo_half_0_iff)
  with True assms show ?thesis by (auto simp: ffsll_def Let_def ctz32_ucast)
next
  case False
  have "k < 64" using bit_imp_le_length [OF assms(1)] by simp
  with assms False have "ctz32 (ucast (drop_bit 32 x)) = k - 32"
    by (intro ctz32_ucast) (auto simp: bit_drop_bit_eq)
  moreover have "ucast x = (0 :: u32)" using False assms by (auto simp: lo_half_0_iff)
  ultimately show ?thesis using assms False by (auto simp: ffsll_def Let_def)
qed

lemma flsll_eq:
  assumes "bit x k" "\<forall>j>k. \<not> bit x j"
  shows "flsll x = k + 1"
proof (cases "k < 32")
  case True
  with assms have "ucast (drop_bit 32 x) = (0 :: u32)" by (auto simp: hi_half_0_iff)
  with True assms show ?thesis by (auto simp: flsll_def Let_def clz32_ucast)
next
  case False
  have "k < 64" using bit_imp_le_length [OF assms(1)] by simp
  with assms False have "clz32 (ucast (drop_bit 32 x)) = 31 - (k - 32)"
    by (intro clz32_ucast) (auto simp: bit_drop_bit_eq)
  moreover have "ucast (drop_bit 32 x) \<noteq> (0 :: u32)"
    using False assms(1) hi_half_0_iff [of x] by (meson linorder_not_less)
  ultimately show ?thesis using assms False \<open>k < 64\<close> by (auto simp: flsll_def Let_def)
qed

lemma ffsl_64: "ffsl True x = ffsll x"
  by (simp add: ffsl_def ffsll_def)

lemma flsl_64: "flsl True x = flsll x"
  by (simp add: flsl_def flsll_def)

lemma ffsll_range: "ffsll x = 0 \<longleftrightarrow> x = 0"
  using lowest_bit ffsll_eq by (metis add_is_0 ffsll_def zero_neq_one)

section \<open>The BSD names\<close>

lemma bzero_eq: "s \<noteq> NULL \<Longrightarrow> bzero m s n = wr m s (replicate n 0)"
  by (simp add: bzero_def memset_eq)

lemma bcopy_eq: "src \<noteq> NULL \<Longrightarrow> dest \<noteq> NULL \<Longrightarrow> bcopy m src dest n = wr m dest (rd m src n)"
  by (simp add: bcopy_def memmove_eq)

lemma bcmp_0_iff: "a \<noteq> NULL \<Longrightarrow> b \<noteq> NULL \<Longrightarrow> bcmp m a b n = 0 \<longleftrightarrow> rd m a n = rd m b n"
  by (simp add: bcmp_def memcmp_def memcmp_loop_0_rd)

end
