(* ===== verification/Libgen.thy ===== *)
theory Libgen
  imports CStr
begin

text \<open>
  \<^verbatim>\<open>include/libgen.h\<close>: splitting a path into its directory and its last component, in place.
  The results are pointers into the path or to one of the literals \<^verbatim>\<open>"."\<close> and \<^verbatim>\<open>"/"\<close>.  The three
  scanning loops run over offsets from the start of the path.
\<close>

datatype cref = Lit "byte list" | At ptr

fun cref_str :: "mem \<Rightarrow> cref \<Rightarrow> byte list \<Rightarrow> bool" where
  "cref_str m (Lit l) s \<longleftrightarrow> s = l"
| "cref_str m (At p) s \<longleftrightarrow> cstr m p s"

text \<open>The shape of the three loops: step an offset back while it is above \<open>lo\<close> and the byte before it satisfies \<open>P\<close>.\<close>

fun scan_back :: "(byte \<Rightarrow> bool) \<Rightarrow> mem \<Rightarrow> ptr \<Rightarrow> nat \<Rightarrow> nat \<Rightarrow> nat" where
  "scan_back P m p lo k = (if lo < k \<and> P (m (p + (k - 1))) then scan_back P m p lo (k - 1) else k)"

text \<open>\<^verbatim>\<open>while (len > 1 && p[len - 1] == '/') len--;\<close>\<close>

definition strip_slashes :: "mem \<Rightarrow> ptr \<Rightarrow> nat \<Rightarrow> nat" where
  "strip_slashes m p len = scan_back (\<lambda>c. c = 47) m p 1 len"

text \<open>\<^verbatim>\<open>while (slash > p && *(slash - 1) != '/') slash--;\<close>\<close>

definition last_slash :: "mem \<Rightarrow> ptr \<Rightarrow> nat \<Rightarrow> nat" where
  "last_slash m p slash = scan_back (\<lambda>c. c \<noteq> 47) m p 0 slash"

text \<open>\<^verbatim>\<open>while (dir_end > p && *(dir_end - 1) == '/') dir_end--;\<close>\<close>

definition back_slashes :: "mem \<Rightarrow> ptr \<Rightarrow> nat \<Rightarrow> nat" where
  "back_slashes m p dir_end = scan_back (\<lambda>c. c = 47) m p 0 dir_end"

text \<open>
  \<open>None\<close>: the \<^verbatim>\<open>strlen\<close> of the path does not return; \<open>Some None\<close>: the error result \<^verbatim>\<open>-1\<close>.
  The output pointers of the callers below are never null.
\<close>

definition splitname :: "mem \<Rightarrow> ptr \<Rightarrow> (mem \<times> cref \<times> cref) option option" where
  "splitname m path =
     (if path = NULL then Some None
      else do {
        len0 \<leftarrow> strlen m path;
        if len0 = 0 then Some (Some (m, Lit [46], Lit [46]))
        else
          let len = strip_slashes m path len0;
              m1 = m(path + len := 0)
          in if len = 1 \<and> m1 path = 47 then Some (Some (m1, Lit [47], Lit [47]))
             else
               let slash = last_slash m1 path len
               in if slash = 0 then Some (Some (m1, Lit [46], At path))
                  else
                    let dir_end = back_slashes m1 path (slash - 1)
                    in if dir_end = 0 then Some (Some (m1, Lit [47], At (path + slash)))
                       else Some (Some (m1(path + dir_end := 0), At path, At (path + slash)))
      })"

definition basename :: "mem \<Rightarrow> ptr \<Rightarrow> (mem \<times> cref) option" where
  "basename m path = do {
     r \<leftarrow> splitname m path;
     case r of None \<Rightarrow> Some (m, Lit [46]) | Some (m', dir, base) \<Rightarrow> Some (m', base)
   }"

definition dirname :: "mem \<Rightarrow> ptr \<Rightarrow> (mem \<times> cref) option" where
  "dirname m path = do {
     r \<leftarrow> splitname m path;
     case r of None \<Rightarrow> Some (m, Lit [46]) | Some (m', dir, base) \<Rightarrow> Some (m', dir)
   }"

declare scan_back.simps [simp del]

section \<open>The scanning loops\<close>

lemma scan_back_spec:
  "lo \<le> n \<Longrightarrow> lo \<le> scan_back P m p lo n \<and> scan_back P m p lo n \<le> n \<and>
   (\<forall>i. scan_back P m p lo n \<le> i \<and> i < n \<longrightarrow> P (m (p + i))) \<and>
   (scan_back P m p lo n = lo \<or> \<not> P (m (p + (scan_back P m p lo n - 1))))"
proof (induction P m p lo n rule: scan_back.induct)
  case (1 P m p lo n)
  show ?case
  proof (cases "lo < n \<and> P (m (p + (n - 1)))")
    case True
    have e: "scan_back P m p lo n = scan_back P m p lo (n - 1)"
      unfolding scan_back.simps [of P m p lo n] by (rule if_P [OF True])
    define k where "k = scan_back P m p lo (n - 1)"
    have k: "lo \<le> k" "k \<le> n - 1" "\<forall>i. k \<le> i \<and> i < n - 1 \<longrightarrow> P (m (p + i))"
        "k = lo \<or> \<not> P (m (p + (k - 1)))"
      using 1(1) [OF True] True unfolding k_def by fastforce+
    have "P (m (p + i))" if "k \<le> i" "i < n" for i
      using that k True by (cases "i = n - 1") auto
    then show ?thesis unfolding e k_def [symmetric] using k by auto
  next
    case False
    have "scan_back P m p lo n = n"
      unfolding scan_back.simps [of P m p lo n] by (rule if_not_P [OF False])
    then show ?thesis using False \<open>lo \<le> n\<close> by auto
  qed
qed

lemmas strip_slashes_spec = scan_back_spec [where P = "\<lambda>c. c = 47" and lo = 1, folded strip_slashes_def]
lemmas last_slash_spec = scan_back_spec [where P = "\<lambda>c. c \<noteq> 47" and lo = 0, folded last_slash_def]
lemmas back_slashes_spec = scan_back_spec [where P = "\<lambda>c. c = 47" and lo = 0, folded back_slashes_def]

section \<open>The split\<close>

lemma cstr_sub:
  assumes "cstr m p s" "i \<le> j" "j \<le> length s"
  shows "cstr (m(p + j := 0)) (p + i) (take (j - i) (drop i s))"
proof -
  have "rd (m(p + j := 0)) (p + i) (j - i) = take (j - i) (drop i s)"
    using assms by (intro nth_equalityI) (auto simp: cstr_nth [OF assms(1), symmetric] ac_simps)
  moreover have "0 \<notin> set (take (j - i) (drop i s))"
    using cstr_no_nul [OF assms(1)] by (meson in_set_dropD in_set_takeD)
  ultimately show ?thesis using assms by (simp add: cstr_iff)
qed

lemma replicate_segment:
  "j \<le> length s \<Longrightarrow> (\<And>k. i \<le> k \<Longrightarrow> k < j \<Longrightarrow> s ! k = c) \<Longrightarrow> take (j - i) (drop i s) = replicate (j - i) c"
  by (intro nth_equalityI) auto

lemma list_segments:
  "i \<le> j \<Longrightarrow> j \<le> k \<Longrightarrow> s = take i s @ take (j - i) (drop i s) @ take (k - j) (drop j s) @ drop k s"
  by (metis append_take_drop_id drop_drop le_add_diff_inverse2)

text \<open>
  The layout of a path: its directory part \<open>take e s\<close>, slashes up to \<open>k\<close>, the last component up to
  \<open>l\<close>, then only slashes.
\<close>

definition path_cut :: "byte list \<Rightarrow> nat \<Rightarrow> nat \<Rightarrow> nat \<Rightarrow> bool" where
  "path_cut s e k l \<longleftrightarrow> e \<le> k \<and> k < l \<and> l \<le> length s \<and>
     (\<forall>i. l \<le> i \<and> i < length s \<longrightarrow> s ! i = 47) \<and>
     (\<forall>i. k \<le> i \<and> i < l \<longrightarrow> s ! i \<noteq> 47) \<and>
     (\<forall>i. e \<le> i \<and> i < k \<longrightarrow> s ! i = 47) \<and>
     (e = 0 \<or> e < k \<and> s ! (e - 1) \<noteq> 47)"

text \<open>What the C code computes, in terms of the cut it finds.\<close>

lemma splitname_cut:
  assumes s: "cstr m p s" and p: "p \<noteq> NULL" and x: "\<exists>c \<in> set s. c \<noteq> 47"
  obtains e k l where "path_cut s e k l"
    "splitname m p = Some (Some (if e = 0 then (m(p + l := 0), Lit [if k = 0 then 46 else 47], At (p + k))
       else (m(p + l := 0, p + e := 0), At p, At (p + k))))"
proof -
  have n: "1 \<le> length s" using x by (cases s) auto
  define l where "l = strip_slashes m p (length s)"
  have l: "1 \<le> l" "l \<le> length s" "\<forall>i. l \<le> i \<and> i < length s \<longrightarrow> m (p + i) = 47"
      "l = 1 \<or> m (p + (l - 1)) \<noteq> 47"
    using strip_slashes_spec [OF n, of m p] unfolding l_def by blast+
  let ?m = "m(p + l := 0)"
  have l1: "m (p + (l - 1)) \<noteq> 47"
  proof (cases "l = 1")
    case True
    then show ?thesis using x l(3) cstr_nth [OF s]
      by (metis One_nat_def Suc_leI diff_self_eq_0 in_set_conv_nth le_eq_less_or_eq neq0_conv)
  qed (use l in simp)
  have m': "?m (p + i) = m (p + i)" if "i < l" for i using that by simp
  define k where "k = last_slash ?m p l"
  have k: "k \<le> l" "\<forall>i. k \<le> i \<and> i < l \<longrightarrow> m (p + i) \<noteq> 47" "k = 0 \<or> m (p + (k - 1)) = 47"
    using last_slash_spec [of l ?m p] l(1) unfolding k_def [symmetric] by (auto split: if_splits)
  have "k < l" using k l1 l(1) by (metis One_nat_def le_neq_implies_less not_one_le_zero)
  define e where "e = (if k = 0 then 0 else back_slashes ?m p (k - 1))"
  have e: "e \<le> k" "\<forall>i. e \<le> i \<and> i < k \<longrightarrow> m (p + i) = 47" "e = 0 \<or> e < k \<and> m (p + (e - 1)) \<noteq> 47"
  proof -
    consider "k = 0" | "0 < k" "e = back_slashes ?m p (k - 1)" using e_def by (cases k) auto
    then show "e \<le> k" "\<forall>i. e \<le> i \<and> i < k \<longrightarrow> m (p + i) = 47" "e = 0 \<or> e < k \<and> m (p + (e - 1)) \<noteq> 47"
    proof (atomize (full), cases)
      case 2
      have b: "e \<le> k - 1" "\<forall>i. e \<le> i \<and> i < k - 1 \<longrightarrow> ?m (p + i) = 47" "e = 0 \<or> ?m (p + (e - 1)) \<noteq> 47"
        using back_slashes_spec [of "k - 1" ?m p] 2 by simp_all
      have "m (p + i) = 47" if "e \<le> i" "i < k" for i
        using that b(2) k(3) \<open>k < l\<close> 2(1) by (cases "i = k - 1") auto
      moreover have "e < k" "e - 1 < l" using b(1) 2(1) \<open>k < l\<close> by linarith+
      ultimately show "e \<le> k \<and> (\<forall>i. e \<le> i \<and> i < k \<longrightarrow> m (p + i) = 47) \<and> (e = 0 \<or> e < k \<and> m (p + (e - 1)) \<noteq> 47)"
        using b(3) m' [OF \<open>e - 1 < l\<close>] less_imp_le by metis
    qed (simp add: e_def)
  qed
  have "path_cut s e k l"
    unfolding path_cut_def using e k l \<open>k < l\<close> cstr_nth [OF s] by (auto simp: less_le_trans)
  moreover have "splitname m p = Some (Some (if e = 0 then (?m, Lit [if k = 0 then 46 else 47], At (p + k))
       else (?m(p + e := 0), At p, At (p + k))))"
    using s p n l1 l(1) unfolding splitname_def
    by (auto simp: l_def [symmetric] k_def [symmetric] e_def Let_def split: if_splits)
  ultimately show ?thesis using that by blast
qed

lemma path_cut_segments:
  assumes "path_cut s e k l"
  shows "s = take e s @ replicate (k - e) 47 @ take (l - k) (drop k s) @ replicate (length s - l) 47"
    and "47 \<notin> set (take (l - k) (drop k s))" and "take (l - k) (drop k s) \<noteq> []"
    and "e = 0 \<or> last (take e s) \<noteq> 47"
proof -
  note c = assms [unfolded path_cut_def]
  have "take (k - e) (drop e s) = replicate (k - e) 47" using c by (intro replicate_segment) auto
  moreover have "drop l s = replicate (length s - l) 47"
    using replicate_segment [of "length s" s l 47] c by simp
  ultimately show "s = take e s @ replicate (k - e) 47 @ take (l - k) (drop k s) @ replicate (length s - l) 47"
    using list_segments [of e k l s] c by simp
  show "47 \<notin> set (take (l - k) (drop k s))"
    using c by (auto simp: in_set_conv_nth)
  show "take (l - k) (drop k s) \<noteq> []" using c by auto
  show "e = 0 \<or> last (take e s) \<noteq> 47"
    using c last_conv_nth [of "take e s"] by (cases s) (auto simp: min_def)
qed

text \<open>
  On a path with at least one character other than a slash, \<^verbatim>\<open>dirname\<close> and \<^verbatim>\<open>basename\<close>
  return, and cut the path as POSIX says: the base is the last component without its trailing
  slashes, the directory what comes before it without the separating slashes, \<^verbatim>\<open>"."\<close> when the path has
  no slash before the base and \<^verbatim>\<open>"/"\<close> when it has only slashes there.
\<close>

theorem splitname_parts:
  assumes s: "cstr m p s" and p: "p \<noteq> NULL" and x: "\<exists>c \<in> set s. c \<noteq> 47"
  shows "\<exists>d j b t m' dir base. s = d @ replicate j 47 @ b @ replicate t 47 \<and> b \<noteq> [] \<and> 47 \<notin> set b \<and>
    (d = [] \<or> 0 < j \<and> last d \<noteq> 47) \<and>
    basename m p = Some (m', base) \<and> cref_str m' base b \<and>
    dirname m p = Some (m', dir) \<and> cref_str m' dir (if d \<noteq> [] then d else if j = 0 then [46] else [47])"
proof -
  obtain e k l where c: "path_cut s e k l" and r:
    "splitname m p = Some (Some (if e = 0 then (m(p + l := 0), Lit [if k = 0 then 46 else 47], At (p + k))
       else (m(p + l := 0, p + e := 0), At p, At (p + k))))"
    using splitname_cut [OF assms] .
  have o: "e \<le> k" "k < l" "l \<le> length s" "e = 0 \<or> e < k" using c by (auto simp: path_cut_def)
  let ?b = "take (l - k) (drop k s)"
  have b: "cstr (m(p + l := 0)) (p + k) ?b" using cstr_sub [OF s] o by simp
  have b': "cstr (m(p + l := 0, p + e := 0)) (p + k) ?b" if "e \<noteq> 0"
    using b o that by (subst cstr_cong [of _ _ _ "m(p + l := 0)"]) auto
  have d: "cstr (m(p + l := 0, p + e := 0)) p (take e s)"
    using cstr_sub [OF s, of 0 e] o by (subst cstr_cong [of _ _ _ "m(p + e := 0)"]) auto
  show ?thesis
  proof (cases "e = 0")
    case True
    with r b path_cut_segments [OF c] show ?thesis
      by (intro exI [of _ "[]"] exI [of _ k] exI [of _ ?b] exI [of _ "length s - l"]
          exI [of _ "m(p + l := 0)"] exI [of _ "Lit [if k = 0 then 46 else 47]"] exI [of _ "At (p + k)"])
        (simp add: basename_def dirname_def)
  next
    case False
    with r b' d o path_cut_segments [OF c] show ?thesis
      by (intro exI [of _ "take e s"] exI [of _ "k - e"] exI [of _ ?b] exI [of _ "length s - l"]
          exI [of _ "m(p + l := 0, p + e := 0)"] exI [of _ "At p"] exI [of _ "At (p + k)"])
        (auto simp: basename_def dirname_def)
  qed
qed

theorem splitname_parts_witness:
  "\<exists>d j b t m' dir base. [47, 97, 47, 47, 98, 47] = d @ replicate j 47 @ b @ replicate t (47 :: byte) \<and>
    b \<noteq> [] \<and> basename (wr (\<lambda>_. 0) 8 [47, 97, 47, 47, 98, 47]) 8 = Some (m', base) \<and> cref_str m' base b"
proof -
  let ?m = "wr (\<lambda>_. 0) 8 [47, 97, 47, 47, 98, 47]"
  let ?s = "[47, 97, 47, 47, 98, 47] :: byte list"
  have "cstr ?m 8 ?s" "8 \<noteq> (0 :: nat)" "\<exists>c \<in> set ?s. c \<noteq> 47" by simp_all
  from splitname_parts [OF this] show ?thesis by blast
qed

end
