(* ===== verification/Fnmatch.thy ===== *)
theory Fnmatch
  imports CStr Ctype
begin

text \<open>
  \<^verbatim>\<open>include/fnmatch.h\<close>: shell pattern matching.  Pattern and string are byte lists without the
  terminator; a pointer into the pattern is the rest of the list, and a pointer into the string is
  an offset, since the code compares it with the start of the string and looks at the byte before
  it.  \<open>True\<close> stands for \<^verbatim>\<open>FNM_MATCH\<close>.  The engine and its star handler call each other on shorter
  patterns, which is the termination measure.
\<close>

unbundle bit_operations_syntax

definition FNM_PATHNAME :: u32 where "FNM_PATHNAME = 0x01"
definition FNM_PERIOD :: u32 where "FNM_PERIOD = 0x02"
definition FNM_NOESCAPE :: u32 where "FNM_NOESCAPE = 0x04"
definition FNM_CASEFOLD :: u32 where "FNM_CASEFOLD = 0x10"

definition at :: "byte list \<Rightarrow> nat \<Rightarrow> byte" where
  "at s i = (if i < length s then s ! i else 0)"

section \<open>Helpers of the engine\<close>

definition fnmatch_qmark :: "byte list \<Rightarrow> nat \<Rightarrow> u32 \<Rightarrow> nat \<Rightarrow> bool" where
  "fnmatch_qmark S i flags st =
     (if at S i = 0 then False
      else if flags AND FNM_PATHNAME \<noteq> 0 \<and> at S i = 47 then False
      else if flags AND FNM_PERIOD \<noteq> 0 \<and> at S i = 46 \<and> i = st then False
      else if flags AND FNM_PERIOD \<noteq> 0 \<and> at S i = 46 \<and> i > st \<and> at S (i - 1) = 47 then False
      else True)"

definition fold_char :: "u32 \<Rightarrow> byte \<Rightarrow> byte" where
  "fold_char flags c = (if flags AND FNM_CASEFOLD \<noteq> 0 then word_of_int (tolower (uint c)) else c)"

text \<open>
  The loop of \<^verbatim>\<open>__jacl_fnmatch_bracket\<close>, from the character after \<^verbatim>\<open>[\<close>, \<^verbatim>\<open>[!\<close> or \<^verbatim>\<open>[^\<close>: the rest
  of the pattern where it stops, and \<open>matched\<close>.
\<close>

fun bracket_loop :: "u32 \<Rightarrow> byte \<Rightarrow> byte list \<Rightarrow> bool \<Rightarrow> byte \<Rightarrow> bool \<Rightarrow> byte list \<times> bool" where
  "bracket_loop flags c [] first prev matched = ([], matched)"
| "bracket_loop flags c [x] first prev matched =
     (if x = 93 \<and> \<not> first then ([x], matched)
      else bracket_loop flags c [] False x (matched \<or> fold_char flags c = fold_char flags x))"
| "bracket_loop flags c (x # y # p) first prev matched =
     (if x = 93 \<and> \<not> first then (x # y # p, matched)
      else if x = 45 \<and> y \<noteq> 93 then
        bracket_loop flags c p False 0
          (matched \<or> schar (fold_char flags c) \<ge> schar (fold_char flags prev) \<and>
             schar (fold_char flags c) \<le> schar (fold_char flags y))
      else bracket_loop flags c (y # p) False x (matched \<or> fold_char flags c = fold_char flags x))"

text \<open>\<open>None\<close> is the result \<^verbatim>\<open>-1\<close>: the bracket is not closed.  The argument starts after the \<^verbatim>\<open>[\<close>.\<close>

definition fnmatch_bracket :: "byte list \<Rightarrow> byte \<Rightarrow> u32 \<Rightarrow> (byte list \<times> bool) option" where
  "fnmatch_bracket p c flags =
     (let negate = (case p of x # _ \<Rightarrow> x = 33 \<or> x = 94 | [] \<Rightarrow> False);
          p1 = (if negate then tl p else p)
      in case bracket_loop flags c p1 True 0 False of
           ([], _) \<Rightarrow> None
         | (_ # p', matched) \<Rightarrow> Some (p', matched \<noteq> negate))"

text \<open>\<open>pc # p\<close> is the pattern at the literal.\<close>

definition fnmatch_literal :: "byte \<Rightarrow> byte list \<Rightarrow> byte \<Rightarrow> u32 \<Rightarrow> byte list \<times> bool" where
  "fnmatch_literal pc p c flags =
     (let (pc', p') = (if pc = 92 \<and> flags AND FNM_NOESCAPE = 0 \<and> p \<noteq> [] then (hd p, tl p) else (pc, p))
      in (p', pc' = c \<or> flags AND FNM_CASEFOLD \<noteq> 0 \<and> tolower (uint pc') = tolower (uint c)))"

lemma bracket_loop_length: "length (fst (bracket_loop flags c p first prev matched)) \<le> length p"
  by (induction flags c p first prev matched rule: bracket_loop.induct)
    (simp_all add: le_SucI)

lemma fnmatch_bracket_length:
  assumes "fnmatch_bracket p c flags = Some (p', b)"
  shows "length p' < length p"
proof -
  define p1 where "p1 = (if (case p of x # _ \<Rightarrow> x = 33 \<or> x = 94 | [] \<Rightarrow> False) then tl p else p)"
  obtain r k where r: "bracket_loop flags c p1 True 0 False = (r, k)" by fastforce
  have "length r \<le> length p1" using bracket_loop_length [of flags c p1 True 0 False] r by simp
  moreover have "length p1 \<le> length p" by (simp add: p1_def)
  moreover have "length p' < length r"
    using assms r by (cases r) (simp_all add: fnmatch_bracket_def Let_def p1_def)
  ultimately show ?thesis by linarith
qed

lemma fnmatch_literal_length:
  assumes "(p', b) = fnmatch_literal pc p c flags"
  shows "length p' \<le> length p"
  using assms by (simp add: fnmatch_literal_def split: if_splits)

lemma length_dropWhile_star: "length (dropWhile P p) < length p \<or> length (dropWhile P p) = length p"
  by (simp add: length_dropWhile_le order.order_iff_strict [symmetric])

section \<open>The engine\<close>

text \<open>
  \<open>jacl_fnmatch flags p S st i\<close>: pattern \<open>p\<close> at offset \<open>i\<close> of a call whose \<^verbatim>\<open>string\<close> argument is at
  offset \<open>st\<close>.  \<open>fnmatch_star\<close> gets the pattern after its first \<^verbatim>\<open>*\<close>, and \<open>star_loop\<close> is its
  \<^verbatim>\<open>while (*string)\<close>.
\<close>

function jacl_fnmatch :: "u32 \<Rightarrow> byte list \<Rightarrow> byte list \<Rightarrow> nat \<Rightarrow> nat \<Rightarrow> bool"
  and fnmatch_star :: "u32 \<Rightarrow> byte list \<Rightarrow> byte list \<Rightarrow> nat \<Rightarrow> nat \<Rightarrow> bool"
  and star_loop :: "u32 \<Rightarrow> byte list \<Rightarrow> byte list \<Rightarrow> nat \<Rightarrow> nat \<Rightarrow> bool" where
  "jacl_fnmatch flags [] S st i = (at S i = 0)"
| "jacl_fnmatch flags (pc # p) S st i =
     (if pc = 63 then (if fnmatch_qmark S i flags st then jacl_fnmatch flags p S st (Suc i) else False)
      else if pc = 42 then fnmatch_star flags p S st i
      else if pc = 91 then
        (if at S i = 0 then False
         else if flags AND FNM_PATHNAME \<noteq> 0 \<and> at S i = 47 then False
         else if flags AND FNM_PERIOD \<noteq> 0 \<and> at S i = 46 \<and> (i = st \<or> at S (i - 1) = 47) then False
         else case fnmatch_bracket p (at S i) flags of
                None \<Rightarrow> False
              | Some (p', True) \<Rightarrow> jacl_fnmatch flags p' S st (Suc i)
              | Some (p', False) \<Rightarrow> False)
      else case fnmatch_literal pc p (at S i) flags of
             (p', True) \<Rightarrow> jacl_fnmatch flags p' S st (Suc i)
           | (p', False) \<Rightarrow> False)"
| "fnmatch_star flags p S orig i =
     (let p' = dropWhile (\<lambda>c. c = 42) p in
      if p' = [] then
        (if flags AND FNM_PERIOD \<noteq> 0 \<and> at S i = 46 \<and> (i = orig \<or> at S (i - 1) = 47) then False
         else if flags AND FNM_PATHNAME \<noteq> 0 then 47 \<notin> set (drop i S)
         else True)
      else star_loop flags p' S orig i)"
| "star_loop flags p S orig i =
     (if i < length S then
        (if flags AND FNM_PATHNAME \<noteq> 0 \<and> at S i = 47 then False
         else if flags AND FNM_PERIOD \<noteq> 0 \<and> at S i = 46 \<and> (i = orig \<or> at S (i - 1) = 47) then
           star_loop flags p S orig (Suc i)
         else if jacl_fnmatch flags p S i i then True
         else star_loop flags p S orig (Suc i))
      else False)"
  by pat_completeness auto
termination
  by (relation "inv_image (less_than <*lex*> less_than)
        (\<lambda>x. case x of
           Inl (flags, p, S, st, i) \<Rightarrow> (length p, 0)
         | Inr (Inl (flags, p, S, st, i)) \<Rightarrow> (length p, length S + 2)
         | Inr (Inr (flags, p, S, st, i)) \<Rightarrow> (length p, length S - i + 1))")
    (auto simp: length_dropWhile_star less_Suc_eq_le
      dest: fnmatch_bracket_length fnmatch_literal_length intro: less_imp_le)

text \<open>The public entry: a null pointer is \<open>None\<close>, the result is \<^verbatim>\<open>FNM_MATCH\<close> (0) or \<^verbatim>\<open>FNM_NOMATCH\<close> (1).\<close>

definition fnmatch :: "byte list option \<Rightarrow> byte list option \<Rightarrow> u32 \<Rightarrow> int" where
  "fnmatch pattern str flags = (case (pattern, str) of
      (Some p, Some s) \<Rightarrow> (if jacl_fnmatch flags p s 0 0 then 0 else 1)
    | _ \<Rightarrow> 1)"

declare fnmatch_star.simps [simp del] star_loop.simps [simp del]

section \<open>A reference semantics of patterns\<close>

text \<open>
  \<open>glob flags p s\<close>: the whole string \<open>s\<close> matches \<open>p\<close>, a star standing for any number of any
  characters.  Brackets and literals are read as the code reads them.
\<close>

function glob :: "u32 \<Rightarrow> byte list \<Rightarrow> byte list \<Rightarrow> bool" where
  "glob flags [] s \<longleftrightarrow> s = []"
| "glob flags (pc # p) s \<longleftrightarrow>
     (if pc = 42 then \<exists>k\<le>length s. glob flags p (drop k s)
      else s \<noteq> [] \<and>
        (if pc = 63 then glob flags p (tl s)
         else if pc = 91 then
           (case fnmatch_bracket p (hd s) flags of
              None \<Rightarrow> False | Some (p', b) \<Rightarrow> b \<and> glob flags p' (tl s))
         else case fnmatch_literal pc p (hd s) flags of (p', b) \<Rightarrow> b \<and> glob flags p' (tl s)))"
  by pat_completeness auto
termination
  by (relation "measure (\<lambda>(flags, p, s). length p)")
    (auto simp: less_Suc_eq_le dest: fnmatch_bracket_length fnmatch_literal_length intro: less_imp_le)

lemma ex_split_le: "(\<exists>k\<le>n. \<exists>j\<le>n - k. P (j + k)) \<longleftrightarrow> (\<exists>k\<le>n. P (k :: nat))"
proof
  assume "\<exists>k\<le>n. P k"
  then obtain k where "k \<le> n" "P k" by blast
  then show "\<exists>k\<le>n. \<exists>j\<le>n - k. P (j + k)" by (intro exI [of _ 0]) auto
next
  assume "\<exists>k\<le>n. \<exists>j\<le>n - k. P (j + k)"
  then obtain j k where "k \<le> n" "j \<le> n - k" "P (j + k)" by blast
  then show "\<exists>k\<le>n. P k" by (intro exI [of _ "j + k"]) simp
qed

lemma glob_stars:
  "glob flags (42 # p) s \<longleftrightarrow> (\<exists>k\<le>length s. glob flags (dropWhile (\<lambda>c. c = 42) p) (drop k s))"
proof (induction p arbitrary: s)
  case (Cons c p)
  show ?case
  proof (cases "c = 42")
    case True
    have "glob flags (42 # c # p) s \<longleftrightarrow> (\<exists>k\<le>length s. glob flags (42 # p) (drop k s))" using True by simp
    also have "\<dots> \<longleftrightarrow> (\<exists>k\<le>length s. \<exists>j\<le>length s - k. glob flags (dropWhile (\<lambda>c. c = 42) p) (drop (j + k) s))"
      using Cons.IH by (simp del: glob.simps)
    also have "\<dots> \<longleftrightarrow> (\<exists>k\<le>length s. glob flags (dropWhile (\<lambda>c. c = 42) p) (drop k s))"
      by (rule ex_split_le)
    finally show ?thesis using True by (simp del: glob.simps)
  qed simp
qed simp

lemma glob_Nil: "p \<noteq> [] \<Longrightarrow> hd p \<noteq> 42 \<Longrightarrow> \<not> glob flags p []"
  by (cases p) auto

lemma at_in [simp]: "i < length S \<Longrightarrow> at S i = S ! i"
  by (simp add: at_def)

lemma at_0_iff: "0 \<notin> set S \<Longrightarrow> at S i = 0 \<longleftrightarrow> length S \<le> i"
  by (metis at_def linorder_not_le nth_mem)

lemma tolower_byte_0: "tolower (uint (x :: byte)) = 0 \<longleftrightarrow> x = 0"
  by (simp add: uint_0_iff)

lemma tolower_0: "tolower 0 = 0"
  by simp

lemma fnmatch_literal_NUL:
  assumes "pc \<noteq> 0" "0 \<notin> set p"
  shows "\<not> snd (fnmatch_literal pc p 0 flags)"
proof -
  have "hd p \<noteq> 0" if "p \<noteq> []" using that assms(2) by (cases p) auto
  then show ?thesis using assms(1)
    by (simp add: fnmatch_literal_def tolower_0 tolower_byte_0 del: tolower_eq_0_iff)
qed

lemma set_bracket_loop: "set (fst (bracket_loop flags c p first prev matched)) \<subseteq> set p"
  by (induction flags c p first prev matched rule: bracket_loop.induct) auto

lemma set_fnmatch_bracket:
  assumes "fnmatch_bracket p c flags = Some (p', b)"
  shows "set p' \<subseteq> set p"
proof -
  define p1 where "p1 = (if (case p of x # _ \<Rightarrow> x = 33 \<or> x = 94 | [] \<Rightarrow> False) then tl p else p)"
  obtain r k where r: "bracket_loop flags c p1 True 0 False = (r, k)" by fastforce
  have "set r \<subseteq> set p1" using set_bracket_loop [of flags c p1 True 0 False] r by simp
  moreover have "set p1 \<subseteq> set p" by (cases p) (auto simp: p1_def)
  moreover have "set p' \<subseteq> set r"
    using assms r by (cases r) (auto simp: fnmatch_bracket_def Let_def p1_def)
  ultimately show ?thesis by blast
qed

lemma set_fnmatch_literal: "(p', b) = fnmatch_literal pc p c flags \<Longrightarrow> set p' \<subseteq> set p"
  by (cases p) (auto simp: fnmatch_literal_def split: if_splits)

lemma star_loop_eq:
  assumes "flags AND FNM_PATHNAME = 0" "flags AND FNM_PERIOD = 0"
  shows "star_loop flags p S orig i \<longleftrightarrow> (\<exists>k. i \<le> k \<and> k < length S \<and> jacl_fnmatch flags p S k k)"
proof (induction "length S - i" arbitrary: i)
  case 0
  then show ?case by (subst star_loop.simps) auto
next
  case (Suc n)
  have i: "i < length S" using Suc.hyps(2) by linarith
  then have "star_loop flags p S orig i \<longleftrightarrow> jacl_fnmatch flags p S i i \<or> star_loop flags p S orig (Suc i)"
    using assms by (subst star_loop.simps) (simp del: jacl_fnmatch.simps)
  also have "\<dots> \<longleftrightarrow> (\<exists>k. i \<le> k \<and> k < length S \<and> jacl_fnmatch flags p S k k)"
    using Suc.hyps(1) [of "Suc i"] Suc.hyps(2) i
    by (metis Suc_leD Suc_leI Suc_diff_Suc diff_Suc_1 le_eq_less_or_eq)
  finally show ?case .
qed

lemma fnmatch_star_eq:
  assumes flags: "flags AND FNM_PATHNAME = 0" "flags AND FNM_PERIOD = 0"
    and IH: "\<And>k st. k \<le> length S \<Longrightarrow>
      jacl_fnmatch flags (dropWhile (\<lambda>c. c = 42) p) S st k = glob flags (dropWhile (\<lambda>c. c = 42) p) (drop k S)"
    and i: "i \<le> length S"
  shows "fnmatch_star flags p S st i = glob flags (42 # p) (drop i S)"
proof (cases "dropWhile (\<lambda>c. c = 42) p = []")
  case True
  have "glob flags (42 # p) (drop i S)"
    using glob_stars [of flags p "drop i S"] True by (metis drop_all glob.simps(1) order_refl)
  then show ?thesis using flags True by (simp add: fnmatch_star.simps del: glob.simps(2))
next
  case False
  let ?p = "dropWhile (\<lambda>c. c = 42) p"
  have "hd ?p \<noteq> 42" using False hd_dropWhile [OF False] by blast
  then have ne: "\<not> glob flags ?p []" using glob_Nil False by blast
  have "fnmatch_star flags p S st i \<longleftrightarrow> (\<exists>k. i \<le> k \<and> k < length S \<and> glob flags ?p (drop k S))"
    using False flags IH by (auto simp: fnmatch_star.simps star_loop_eq less_imp_le)
  also have "\<dots> \<longleftrightarrow> (\<exists>k\<le>length (drop i S). glob flags ?p (drop k (drop i S)))" (is "?l = ?r")
  proof
    assume ?l
    then obtain k where "i \<le> k" "k < length S" "glob flags ?p (drop k S)" by blast
    then show ?r by (intro exI [of _ "k - i"]) auto
  next
    assume ?r
    then obtain k where k: "k \<le> length S - i" "glob flags ?p (drop (k + i) S)" by auto
    have "k + i < length S"
      using ne k by (metis drop_all linorder_not_le)
    then show ?l using k by (intro exI [of _ "k + i"]) simp
  qed
  finally show ?thesis using glob_stars by blast
qed

lemma jacl_fnmatch_glob:
  assumes flags: "flags AND FNM_PATHNAME = 0" "flags AND FNM_PERIOD = 0" and S: "0 \<notin> set S"
  shows "0 \<notin> set p \<Longrightarrow> i \<le> length S \<Longrightarrow> jacl_fnmatch flags p S st i = glob flags p (drop i S)"
proof (induction "length p" arbitrary: p i st rule: less_induct)
  case less
  show ?case
  proof (cases p)
    case Nil
    then show ?thesis using at_0_iff [OF S] less.prems by auto
  next
    case (Cons pc q)
    have pq: "pc \<noteq> 0" "0 \<notin> set q" using less.prems(1) Cons by auto
    consider (star) "pc = 42" | (eos) "pc \<noteq> 42" "i = length S" | (ch) "pc \<noteq> 42" "i < length S"
      using less.prems(2) by linarith
    then show ?thesis
    proof cases
      case star
      have "0 \<notin> set (dropWhile (\<lambda>c. c = 42) q)" using pq(2) set_dropWhileD by fastforce
      moreover have "length (dropWhile (\<lambda>c. c = 42) q) < length p" using Cons length_dropWhile_le [of _ q] by (simp add: le_imp_less_Suc)
      ultimately have "fnmatch_star flags q S st i = glob flags (42 # q) (drop i S)"
        using less.hyps less.prems(2) by (intro fnmatch_star_eq [OF flags]) blast+
      then show ?thesis using Cons star by (simp del: glob.simps)
    next
      case eos
      have "at S i = 0" using eos(2) by (simp add: at_def)
      moreover have "\<not> snd (fnmatch_literal pc q 0 flags)" using fnmatch_literal_NUL pq by blast
      ultimately show ?thesis using Cons eos
        by (auto simp: fnmatch_qmark_def split: prod.splits bool.splits)
    next
      case ch
      have c: "at S i = S ! i" "S ! i \<noteq> 0" "hd (drop i S) = S ! i" "tl (drop i S) = drop (Suc i) S" "drop i S \<noteq> []"
        using ch(2) S nth_mem [OF ch(2)] by (metis at_in | simp add: hd_drop_conv_nth tl_drop drop_Suc)+
      have IH: "jacl_fnmatch flags p' S st (Suc i) = glob flags p' (drop (Suc i) S)"
        if "length p' < length p" "set p' \<subseteq> set q" for p'
        using less.hyps that pq(2) ch(2) by (meson Suc_leI subsetD)
      have lit: "length p' < length p" "set p' \<subseteq> set q" if "fnmatch_literal pc q (S ! i) flags = (p', b)" for p' b
        using fnmatch_literal_length set_fnmatch_literal that Cons by (metis length_Cons less_Suc_eq_le)+
      have br: "length p' < length p" "set p' \<subseteq> set q" if "fnmatch_bracket q (S ! i) flags = Some (p', b)" for p' b
        using fnmatch_bracket_length [OF that] set_fnmatch_bracket [OF that] Cons by auto
      have q: "length q < length p" "set q \<subseteq> set q" using Cons by auto
      consider "pc = 63" | "pc = 91" | "pc \<noteq> 63" "pc \<noteq> 91" by blast
      then show ?thesis
      proof cases
        case 1
        then show ?thesis using Cons c flags IH [OF q] by (simp add: fnmatch_qmark_def del: fun_upd_apply)
      next
        case 2
        show ?thesis
        proof (cases "fnmatch_bracket q (S ! i) flags")
          case None
          then show ?thesis using Cons c 2 by simp
        next
          case (Some r)
          obtain p' b where r: "r = (p', b)" by fastforce
          show ?thesis using IH [OF br [OF Some [unfolded r]]] Some r Cons c flags 2
            by (cases b) simp_all
        qed
      next
        case 3
        obtain p' b where r: "fnmatch_literal pc q (S ! i) flags = (p', b)" by fastforce
        show ?thesis using IH [OF lit [OF r]] r Cons c ch(1) 3 by (cases b) simp_all
      qed
    qed
  qed
qed

text \<open>
  C32: without \<^verbatim>\<open>FNM_PATHNAME\<close> and \<^verbatim>\<open>FNM_PERIOD\<close> (any setting of the other flags), \<^verbatim>\<open>fnmatch\<close> answers
  \<^verbatim>\<open>FNM_MATCH\<close> exactly when the string matches the pattern in the reference semantics, in which a
  star stands for any number of characters: the star loop, which skips the empty rest and
  restarts the engine at every offset, misses no match.
\<close>

theorem fnmatch_matches_glob:
  assumes "flags AND FNM_PATHNAME = 0" "flags AND FNM_PERIOD = 0" "0 \<notin> set p" "0 \<notin> set s"
  shows "fnmatch (Some p) (Some s) flags = (if glob flags p s then 0 else 1)"
  using jacl_fnmatch_glob [OF assms(1,2,4,3), of 0 0] by (simp add: fnmatch_def)

theorem fnmatch_matches_glob_witness:
  "fnmatch (Some [97, 42, 99]) (Some [97, 98, 98, 99]) 0 = 0"
proof -
  have "fnmatch (Some [97, 42, 99]) (Some [97, 98, 98, 99]) 0 =
      (if glob 0 [97, 42, 99] [97, 98, 98, 99] then 0 else 1)"
    by (rule fnmatch_matches_glob) simp_all
  moreover have "glob 0 [97, 42, 99] [97, 98, 98, 99]"
    by (auto simp: fnmatch_literal_def intro!: exI [of _ "2::nat"])
  ultimately show ?thesis by simp
qed

lemma star_loop_slash:
  assumes "flags AND FNM_PATHNAME \<noteq> 0"
  shows "\<not> star_loop flags (47 # p) S orig i"
proof (induction "length S - i" arbitrary: i)
  case 0
  then show ?case by (subst star_loop.simps) auto
next
  case (Suc n)
  have "\<not> snd (fnmatch_literal 47 p c flags)" if "c \<noteq> 47" for c
  proof -
    have "tolower (uint c) \<noteq> 47" using that by (auto simp: tolower_def word_uint_eq_iff)
    moreover have "tolower 47 = 47" by (simp add: tolower_def)
    ultimately show ?thesis using that by (simp add: fnmatch_literal_def)
  qed
  then have "at S i \<noteq> 47 \<Longrightarrow> \<not> jacl_fnmatch flags (47 # p) S i i"
    by (auto split: prod.splits bool.splits) (metis snd_conv)
  moreover have "\<not> star_loop flags (47 # p) S orig (Suc i)"
    using Suc by (metis Suc_diff_Suc Suc_inject zero_less_Suc zero_less_diff)
  ultimately show ?case using assms
    by (subst star_loop.simps) (simp del: jacl_fnmatch.simps)
qed

text \<open>
  With \<^verbatim>\<open>FNM_PATHNAME\<close>, a star directly before a slash never matches: the star loop leaves at a
  slash before it tries the rest of the pattern there, so \<^verbatim>\<open>*/b\<close> does not match \<^verbatim>\<open>a/b\<close>.
\<close>

theorem fnmatch_pathname_star_slash:
  "flags AND FNM_PATHNAME \<noteq> 0 \<Longrightarrow> fnmatch (Some (42 # 47 # p)) (Some s) flags = 1"
  by (simp add: fnmatch_def fnmatch_star.simps star_loop_slash)

theorem fnmatch_pathname_star_slash_witness:
  "fnmatch (Some [42, 47, 98]) (Some [97, 47, 98]) FNM_PATHNAME = 1"
  by (rule fnmatch_pathname_star_slash) (simp add: FNM_PATHNAME_def)

end
