(* ===== verification/Search.thy ===== *)
theory Search
  imports CStr "HOL-Library.Multiset"
begin

text \<open>
  \<^verbatim>\<open>include/search.h\<close>: linear search, the open-addressing hash table and the binary search tree.

  Arrays of records are lists, a callback \<^verbatim>\<open>compar\<close> is a function to \<open>int\<close>.  The hash table is a
  list of \<open>cap\<close> slots, a slot with a null key being \<open>None\<close>; keys are the byte strings the key
  pointers refer to.  A tree node is a \<open>Tnode\<close> with the source's fields, the null pointer is
  \<open>Tnull\<close>; the C functions return a pointer to a node, the model the subtree at that node.

  The interface \<open>dict\<close> states what a caller of \<^verbatim>\<open>hsearch\<close> or \<^verbatim>\<open>tsearch\<close> relies on; it is
  interpreted on the hash table and, for every comparison that is a total order, on the tree.
\<close>

unbundle bit_operations_syntax

section \<open>Interfaces\<close>

text \<open>A comparison callback in the sense of \<^verbatim>\<open>bsearch\<close>, \<^verbatim>\<open>qsort\<close> and \<^verbatim>\<open>tsearch\<close>.\<close>

locale comparator =
  fixes cmp :: "'k \<Rightarrow> 'k \<Rightarrow> int"
  assumes cmp_eq: "cmp x y = 0 \<longleftrightarrow> x = y"
    and cmp_sym: "cmp x y < 0 \<longleftrightarrow> 0 < cmp y x"
    and cmp_trans: "cmp x y < 0 \<Longrightarrow> cmp y z < 0 \<Longrightarrow> cmp x z < 0"
begin

lemma cmp_refl [simp]: "cmp x x = 0"
  by (simp add: cmp_eq)

lemma cmp_irrefl: "\<not> cmp x x < 0"
  by simp

lemma cmp_gt: "0 < cmp x y \<longleftrightarrow> cmp y x < 0"
  using cmp_sym by blast

lemma cmp_asym: "cmp x y < 0 \<Longrightarrow> \<not> cmp y x < 0"
  using cmp_sym [of x y] by linarith

lemma cmp_cases:
  obtains (eq) "x = y" | (lt) "cmp x y < 0" "x \<noteq> y" | (gt) "0 < cmp x y" "cmp y x < 0" "x \<noteq> y"
  using cmp_eq [of x y] cmp_gt [of x y] by (metis linorder_neqE_linordered_idom)

lemma cmp_total: "cmp x y < 0 \<or> x = y \<or> cmp y x < 0"
  using cmp_eq [of x y] cmp_gt [of x y] by linarith

end

text \<open>
  A store of keyed values: \<open>get\<close> observes it, \<open>put\<close> stores one pair and may fail (\<open>None\<close>: no
  space left).
\<close>

locale dict =
  fixes inv :: "'s \<Rightarrow> bool"
    and get :: "'s \<Rightarrow> 'k \<Rightarrow> 'v option"
    and put :: "'k \<Rightarrow> 'v \<Rightarrow> 's \<Rightarrow> 's option"
  assumes inv_put: "inv s \<Longrightarrow> put k v s = Some s' \<Longrightarrow> inv s'"
    and get_put: "inv s \<Longrightarrow> put k v s = Some s' \<Longrightarrow> get s' = (get s)(k \<mapsto> v)"
begin

primrec puts :: "('k \<times> 'v) list \<Rightarrow> 's \<Rightarrow> 's option" where
  "puts [] s = Some s"
| "puts (kv # kvs) s = (case put (fst kv) (snd kv) s of None \<Rightarrow> None | Some s' \<Rightarrow> puts kvs s')"

lemma puts_inv: "inv s \<Longrightarrow> puts kvs s = Some s' \<Longrightarrow> inv s'"
  by (induction kvs arbitrary: s) (auto intro: inv_put split: option.splits)

lemma puts_get: "inv s \<Longrightarrow> puts kvs s = Some s' \<Longrightarrow> get s' = get s ++ map_of (rev kvs)"
proof (induction kvs arbitrary: s)
  case (Cons kv kvs)
  then obtain s1 where s1: "put (fst kv) (snd kv) s = Some s1" "puts kvs s1 = Some s'"
    by (auto split: option.splits)
  have "get s' = get s1 ++ map_of (rev kvs)"
    using Cons.IH [OF inv_put [OF Cons.prems(1) s1(1)] s1(2)] .
  also have "get s1 = (get s)(fst kv \<mapsto> snd kv)"
    using get_put [OF Cons.prems(1) s1(1)] .
  finally show ?case by (simp add: map_add_def fun_eq_iff split: option.splits)
qed simp

lemma put_get_other: "inv s \<Longrightarrow> put k v s = Some s' \<Longrightarrow> k' \<noteq> k \<Longrightarrow> get s' k' = get s k'"
  by (simp add: get_put)

end

section \<open>Linear search\<close>

function lfind_loop :: "('k \<Rightarrow> 'k \<Rightarrow> int) \<Rightarrow> 'k \<Rightarrow> 'k list \<Rightarrow> nat \<Rightarrow> nat option" where
  "lfind_loop compar key base i =
     (if i < length base then
        (if compar key (base ! i) = 0 then Some i else lfind_loop compar key base (Suc i))
      else None)"
  by pat_completeness auto
termination by (relation "measure (\<lambda>(c, k, b, i). length b - i)") auto

text \<open>\<open>None\<close> is a null \<^verbatim>\<open>base\<close>; \<^verbatim>\<open>*nmemb\<close> is the length of the list.\<close>

definition lfind :: "('k \<Rightarrow> 'k \<Rightarrow> int) \<Rightarrow> 'k \<Rightarrow> 'k list option \<Rightarrow> nat option" where
  "lfind compar key base =
     (case base of
        None \<Rightarrow> None
      | Some b \<Rightarrow> if b = [] then None else lfind_loop compar key b 0)"

definition lsearch :: "('k \<Rightarrow> 'k \<Rightarrow> int) \<Rightarrow> 'k \<Rightarrow> 'k list option \<Rightarrow> 'k list option \<times> nat option" where
  "lsearch compar key base =
     (case lfind compar key base of
        Some i \<Rightarrow> (base, Some i)
      | None \<Rightarrow>
          (case base of
             None \<Rightarrow> (None, None)
           | Some b \<Rightarrow> (Some (b @ [key]), Some (length b))))"

section \<open>Hash table\<close>

datatype action = FIND | ENTER

datatype herror = H_EINVAL | H_ESRCH | H_ENOSPC

type_synonym 'd slot = "(byte list \<times> 'd) option"

definition hcreate :: "nat \<Rightarrow> 'd slot list option \<Rightarrow> bool \<Rightarrow> 'd slot list option \<times> int" where
  "hcreate nel tbl calloc_ok =
     (case tbl of
        Some t \<Rightarrow> (tbl, 0)
      | None \<Rightarrow>
          (let cap = (if nel > 0 then nel else 64) in
           if calloc_ok then (Some (replicate cap None), 1) else (None, 0)))"

definition hdestroy :: "'d slot list option \<Rightarrow> 'd slot list option" where
  "hdestroy tbl = None"

definition hash_step :: "u64 \<Rightarrow> byte \<Rightarrow> u64" where
  "hash_step h c = (push_bit 5 h + h) + word_of_int (schar c)"

definition hash :: "byte list \<Rightarrow> u64" where
  "hash key = foldl hash_step 5381 key"

text \<open>
  The probe loop \<^verbatim>\<open>do ... while (idx != start)\<close>.  The first argument bounds the iterations: the
  loop returns to \<open>start\<close> after \<open>cap\<close> steps (\<open>hprobe_fuel\<close> below), so \<open>cap\<close> is enough.
\<close>

fun hprobe :: "nat \<Rightarrow> 'd slot list \<Rightarrow> nat \<Rightarrow> nat \<Rightarrow> byte list \<Rightarrow> 'd \<Rightarrow> action
    \<Rightarrow> 'd slot list \<times> (herror + nat)" where
  "hprobe 0 tbl idx start key data action = (tbl, Inl H_ENOSPC)"
| "hprobe (Suc fuel) tbl idx start key data action =
     (case tbl ! idx of
        None \<Rightarrow> (if action = ENTER then (tbl[idx := Some (key, data)], Inr idx)
                 else (tbl, Inl H_ESRCH))
      | Some (k, d) \<Rightarrow>
          if str_order k key = 0 then
            (if action = ENTER then (tbl[idx := Some (k, data)], Inr idx) else (tbl, Inr idx))
          else
            (let idx' = (idx + 1) mod length tbl in
             if idx' \<noteq> start then hprobe fuel tbl idx' start key data action
             else (tbl, Inl H_ENOSPC)))"

definition hsearch :: "'d slot list option \<Rightarrow> byte list option \<Rightarrow> 'd \<Rightarrow> action
    \<Rightarrow> 'd slot list option \<times> (herror + nat)" where
  "hsearch tbl key data action =
     (case tbl of
        None \<Rightarrow> (tbl, Inl H_EINVAL)
      | Some t \<Rightarrow>
         (case key of
            None \<Rightarrow> (tbl, Inl H_EINVAL)
          | Some k \<Rightarrow>
              (let start = unat (hash k) mod length t;
                   (t', r) = hprobe (length t) t start start k data action
               in (Some t', r))))"

section \<open>Binary search tree\<close>

datatype 'k tnode = Tnull | Tnode (tkey: 'k) (tleft: "'k tnode") (tright: "'k tnode")

datatype visit = preorder | postorder | endorder | leaf

text \<open>\<^verbatim>\<open>malloc\<close> in \<^verbatim>\<open>__jacl_t_new\<close> may fail: \<open>ok\<close> says whether it returns a node.\<close>

definition t_new :: "bool \<Rightarrow> 'k \<Rightarrow> 'k tnode" where
  "t_new ok k = (if ok then Tnode k Tnull Tnull else Tnull)"

fun tfind_loop :: "('k \<Rightarrow> 'k \<Rightarrow> int) \<Rightarrow> 'k \<Rightarrow> 'k tnode \<Rightarrow> 'k tnode" where
  "tfind_loop compar key Tnull = Tnull"
| "tfind_loop compar key (Tnode k l r) =
     (let c = compar key k in
      if c = 0 then Tnode k l r
      else if c < 0 then tfind_loop compar key l else tfind_loop compar key r)"

definition tfind :: "('k \<Rightarrow> 'k \<Rightarrow> int) \<Rightarrow> 'k \<Rightarrow> 'k tnode \<Rightarrow> herror + 'k tnode" where
  "tfind compar key root = (if root = Tnull then Inl H_EINVAL else Inr (tfind_loop compar key root))"

text \<open>\<^verbatim>\<open>tsearch\<close> returns the tree with the new node linked in, and the node.\<close>

fun tsearch :: "bool \<Rightarrow> ('k \<Rightarrow> 'k \<Rightarrow> int) \<Rightarrow> 'k \<Rightarrow> 'k tnode \<Rightarrow> 'k tnode \<times> 'k tnode" where
  "tsearch ok compar key Tnull = (let n = t_new ok key in (n, n))"
| "tsearch ok compar key (Tnode k l r) =
     (let c = compar key k in
      if c = 0 then (Tnode k l r, Tnode k l r)
      else if c < 0 then (let (l', n) = tsearch ok compar key l in (Tnode k l' r, n))
      else (let (r', n) = tsearch ok compar key r in (Tnode k l r', n)))"

text \<open>
  The successor of a node with two children: the loop \<^verbatim>\<open>while ((*succ_p)->left)\<close> followed by
  \<^verbatim>\<open>*succ_p = succ->right\<close> gives the successor's key and the right subtree without it.
\<close>

fun unlink_succ :: "'k \<Rightarrow> 'k tnode \<Rightarrow> 'k tnode \<Rightarrow> 'k \<times> 'k tnode" where
  "unlink_succ k Tnull r = (k, r)"
| "unlink_succ k (Tnode k' l' r') r = (let (s, t) = unlink_succ k' l' r' in (s, Tnode k t r))"

definition unlink_node :: "'k \<Rightarrow> 'k tnode \<Rightarrow> 'k tnode \<Rightarrow> 'k tnode" where
  "unlink_node k l r =
     (case (l, r) of
        (Tnode _ _ _, Tnode rk rl rr) \<Rightarrow> (let (s, r') = unlink_succ rk rl rr in Tnode s l r')
      | _ \<Rightarrow> (if l \<noteq> Tnull then l else r))"

fun tdelete_at :: "('k \<Rightarrow> 'k \<Rightarrow> int) \<Rightarrow> 'k \<Rightarrow> 'k tnode \<Rightarrow> 'k tnode option" where
  "tdelete_at compar key Tnull = None"
| "tdelete_at compar key (Tnode k l r) =
     (let c = compar key k in
      if c = 0 then Some (unlink_node k l r)
      else if c < 0 then map_option (\<lambda>l'. Tnode k l' r) (tdelete_at compar key l)
      else map_option (\<lambda>r'. Tnode k l r') (tdelete_at compar key r))"

text \<open>The result: the new \<^verbatim>\<open>*rootp\<close> and the returned pointer (or the error).\<close>

definition tdelete :: "('k \<Rightarrow> 'k \<Rightarrow> int) \<Rightarrow> 'k \<Rightarrow> 'k tnode \<Rightarrow> 'k tnode \<times> (herror + 'k tnode)" where
  "tdelete compar key root =
     (if root = Tnull then (root, Inl H_EINVAL)
      else case tdelete_at compar key root of
             None \<Rightarrow> (root, Inr Tnull)
           | Some root' \<Rightarrow> (root', Inr root'))"

text \<open>\<^verbatim>\<open>twalk\<close> as the list of the calls of the action.\<close>

fun t_walk :: "'k tnode \<Rightarrow> nat \<Rightarrow> ('k \<times> visit \<times> nat) list" where
  "t_walk Tnull d = []"
| "t_walk (Tnode k l r) d =
     [(k, preorder, d)]
     @ (if l = Tnull \<and> r = Tnull then [(k, leaf, d)] else [])
     @ (if l \<noteq> Tnull then t_walk l (d + 1) else [])
     @ (if r \<noteq> Tnull then t_walk r (d + 1) else [])
     @ [(k, postorder, d), (k, endorder, d)]"

definition twalk :: "'k tnode \<Rightarrow> ('k \<times> visit \<times> nat) list" where
  "twalk root = t_walk root 0"

declare lfind_loop.simps [simp del]

section \<open>Linear search: correctness\<close>

lemma lfind_loop_spec:
  "lfind_loop c k b i =
     (if \<exists>j. i \<le> j \<and> j < length b \<and> c k (b ! j) = 0 then Some (LEAST j. i \<le> j \<and> j < length b \<and> c k (b ! j) = 0)
      else None)"
proof (induction c k b i rule: lfind_loop.induct)
  case (1 c k b i)
  show ?case
  proof (cases "i < length b \<and> c k (b ! i) \<noteq> 0")
    case True
    have "(i \<le> j \<and> j < length b \<and> c k (b ! j) = 0) \<longleftrightarrow> (Suc i \<le> j \<and> j < length b \<and> c k (b ! j) = 0)" for j
      using True by (cases "j = i") auto
    with 1 True show ?thesis by (subst lfind_loop.simps) (simp, blast)
  next
    case False
    show ?thesis
    proof (cases "i < length b")
      case True
      with False have "(LEAST j. i \<le> j \<and> j < length b \<and> c k (b ! j) = 0) = i"
        by (intro Least_equality) auto
      with True False show ?thesis by (subst lfind_loop.simps) auto
    qed (auto simp: lfind_loop.simps)
  qed
qed

section \<open>Hash table: correctness\<close>

definition home :: "'d slot list \<Rightarrow> byte list \<Rightarrow> nat" where
  "home t k = unat (hash k) mod length t"

definition probe_at :: "'d slot list \<Rightarrow> byte list \<Rightarrow> nat \<Rightarrow> nat" where
  "probe_at t k n = (home t k + n) mod length t"

text \<open>The probe sequence of \<open>k\<close> goes past slot number \<open>n\<close> when another key is stored there.\<close>

definition passes :: "'d slot list \<Rightarrow> byte list \<Rightarrow> nat \<Rightarrow> bool" where
  "passes t k n \<longleftrightarrow> (\<exists>k' d'. t ! probe_at t k n = Some (k', d') \<and> k' \<noteq> k)"

text \<open>
  The invariant of the table: every stored key is reached by its own probe sequence, every
  earlier slot of which holds another key.
\<close>

definition hinv :: "'d slot list \<Rightarrow> bool" where
  "hinv t \<longleftrightarrow> 0 < length t \<and>
     (\<forall>j<length t. \<forall>k d. t ! j = Some (k, d) \<longrightarrow>
        (\<exists>n<length t. j = probe_at t k n \<and> (\<forall>i<n. passes t k i)))"

lemma hinvD:
  "hinv t \<Longrightarrow> j < length t \<Longrightarrow> t ! j = Some (k, d) \<Longrightarrow>
   \<exists>n<length t. j = probe_at t k n \<and> (\<forall>i<n. passes t k i)"
  by (simp add: hinv_def)

definition hstep :: "'d slot list \<Rightarrow> byte list \<Rightarrow> 'd \<Rightarrow> action \<Rightarrow> nat \<Rightarrow> 'd slot list \<times> (herror + nat)" where
  "hstep t k d a j =
     (if a = ENTER then (t[j := Some (k, d)], Inr j)
      else case t ! j of None \<Rightarrow> (t, Inl H_ESRCH) | Some _ \<Rightarrow> (t, Inr j))"

lemma probe_at_less [simp]: "0 < length t \<Longrightarrow> probe_at t k n < length t"
  by (simp add: probe_at_def)

lemma probe_at_Suc: "Suc (probe_at t k i) mod length t = probe_at t k (Suc i)"
  by (simp add: probe_at_def mod_Suc_eq)

lemma probe_at_eq_home: "0 < length t \<Longrightarrow> i < length t \<Longrightarrow> probe_at t k i = home t k \<Longrightarrow> i = 0"
proof -
  assume a: "0 < length t" "i < length t" "probe_at t k i = home t k"
  have "home t k < length t" using a by (simp add: home_def)
  then show ?thesis using a
    by (cases "home t k + i < length t") (auto simp: probe_at_def mod_if [of "home t k + i"] not_less)
qed

lemma hprobe_stops:
  assumes t: "0 < length t" and n: "n < length t" "\<not> passes t k n" "\<forall>i<n. passes t k i"
  shows "i \<le> n \<Longrightarrow> hprobe (length t - i) t (probe_at t k i) (home t k) k d a = hstep t k d a (probe_at t k n)"
proof (induction "n - i" arbitrary: i)
  case 0
  then have i: "i = n" by simp
  obtain f where f: "length t - i = Suc f" using n(1) i by (metis Suc_diff_Suc)
  show ?case using n(2) by (auto simp: f [unfolded i] i passes_def hstep_def split: option.splits)
next
  case (Suc x)
  then have i: "i < n" by simp
  then obtain k' d' where k': "t ! probe_at t k i = Some (k', d')" "k' \<noteq> k"
    using n(3) by (auto simp: passes_def)
  have f: "length t - i = Suc (length t - Suc i)" using i n(1) by simp
  have ne: "probe_at t k (Suc i) \<noteq> home t k"
    using probe_at_eq_home [OF t, of "Suc i" k] i n(1) by auto
  have "hprobe (length t - Suc i) t (probe_at t k (Suc i)) (home t k) k d a = hstep t k d a (probe_at t k n)"
    using Suc i by simp
  then show ?case using k' ne by (simp add: f probe_at_Suc Let_def)
qed

lemma hprobe_full:
  assumes t: "0 < length t" and n: "\<forall>i<length t. passes t k i"
  shows "i < length t \<Longrightarrow> hprobe (length t - i) t (probe_at t k i) (home t k) k d a = (t, Inl H_ENOSPC)"
proof (induction "length t - i" arbitrary: i)
  case (Suc x)
  then obtain k' d' where k': "t ! probe_at t k i = Some (k', d')" "k' \<noteq> k"
    using n by (auto simp: passes_def)
  have f: "length t - i = Suc (length t - Suc i)" using Suc by simp
  show ?case
  proof (cases "Suc i < length t")
    case True
    then have "probe_at t k (Suc i) \<noteq> home t k" using probe_at_eq_home [OF t, of "Suc i" k] by auto
    moreover have "hprobe (length t - Suc i) t (probe_at t k (Suc i)) (home t k) k d a = (t, Inl H_ENOSPC)"
      using Suc True by simp
    ultimately show ?thesis using k' by (simp add: f probe_at_Suc Let_def)
  next
    case False
    then have "Suc i = length t" using Suc by simp
    then have "probe_at t k (Suc i) = home t k" by (simp add: probe_at_def home_def)
    then show ?thesis using k' by (simp add: f probe_at_Suc Let_def)
  qed
qed simp

lemma first_stop:
  obtains (full) "\<forall>i<length t. passes t k i"
  | (stop) n where "n < length t" "\<not> passes t k n" "\<forall>i<n. passes t k i"
proof (cases "\<forall>i<length t. passes t k i")
  case False
  then have ex: "\<exists>i. i < length t \<and> \<not> passes t k i" by blast
  let ?n = "LEAST i. i < length t \<and> \<not> passes t k i"
  have n: "?n < length t \<and> \<not> passes t k ?n" using LeastI_ex [OF ex] .
  moreover have "passes t k i" if "i < ?n" for i
    using not_less_Least [OF that] that n by auto
  ultimately show ?thesis using stop by blast
qed (rule full)

lemma hsearch_Some:
  "hsearch (Some t) (Some k) d a =
     (let (t', r) = hprobe (length t) t (probe_at t k 0) (home t k) k d a in (Some t', r))"
  by (simp add: hsearch_def home_def probe_at_def Let_def)

lemma hsearch_stop:
  assumes "0 < length t" "n < length t" "\<not> passes t k n" "\<forall>i<n. passes t k i"
  shows "hsearch (Some t) (Some k) d a =
    (let (t', r) = hstep t k d a (probe_at t k n) in (Some t', r))"
  using hprobe_stops [OF assms, of 0] by (simp add: hsearch_Some)

lemma hsearch_full:
  "0 < length t \<Longrightarrow> \<forall>i<length t. passes t k i \<Longrightarrow> hsearch (Some t) (Some k) d a = (Some t, Inl H_ENOSPC)"
  using hprobe_full [of t k 0] by (simp add: hsearch_Some)

text \<open>What a caller observes: \<^verbatim>\<open>hsearch\<close> with \<open>FIND\<close> and \<open>ENTER\<close> as a lookup and an update.\<close>

definition hget :: "'d slot list \<Rightarrow> byte list \<Rightarrow> 'd option" where
  "hget t k =
     (case snd (hsearch (Some t) (Some k) undefined FIND) of
        Inl e \<Rightarrow> None
      | Inr j \<Rightarrow> map_option snd (t ! j))"

definition hput :: "byte list \<Rightarrow> 'd \<Rightarrow> 'd slot list \<Rightarrow> 'd slot list option" where
  "hput k d t =
     (case hsearch (Some t) (Some k) d ENTER of
        (t', Inr j) \<Rightarrow> t'
      | (t', Inl e) \<Rightarrow> None)"

lemma hinv_key_unique:
  assumes "hinv t" "i < length t" "j < length t" "t ! i = Some (k, d)" "t ! j = Some (k, d')"
  shows "i = j"
proof -
  obtain n where n: "n < length t" "i = probe_at t k n" "\<forall>l<n. passes t k l"
    using hinvD [OF assms(1,2,4)] by blast
  obtain n' where n': "n' < length t" "j = probe_at t k n'" "\<forall>l<n'. passes t k l"
    using hinvD [OF assms(1,3,5)] by blast
  have "\<not> passes t k n" "\<not> passes t k n'" using assms n n' by (auto simp: passes_def)
  then have "n = n'" using n(3) n'(3) by (metis linorder_neqE_nat)
  then show ?thesis using n n' by simp
qed

lemma hget_iff:
  assumes inv: "hinv t"
  shows "hget t k = Some d \<longleftrightarrow> (\<exists>j<length t. t ! j = Some (k, d))"
proof -
  have pos: "0 < length t" using inv by (simp add: hinv_def)
  show ?thesis
  proof (cases rule: first_stop [of t k])
    case full
    have "\<not> (\<exists>j<length t. t ! j = Some (k, d))"
    proof
      assume "\<exists>j<length t. t ! j = Some (k, d)"
      then obtain n where "n < length t" "t ! probe_at t k n = Some (k, d)"
        using hinvD [OF inv] by metis
      then show False using full by (auto simp: passes_def)
    qed
    then show ?thesis using hsearch_full [OF pos full] by (simp add: hget_def)
  next
    case (stop n)
    have "hget t k = map_option snd (t ! probe_at t k n)"
      using hsearch_stop [OF pos stop, of undefined FIND]
      by (auto simp: hget_def hstep_def split: option.splits)
    moreover have "(\<exists>j<length t. t ! j = Some (k, d)) \<longleftrightarrow> t ! probe_at t k n = Some (k, d)"
    proof
      assume "\<exists>j<length t. t ! j = Some (k, d)"
      then obtain n' where n': "n' < length t" "t ! probe_at t k n' = Some (k, d)" "\<forall>i<n'. passes t k i"
        using hinvD [OF inv] by metis
      then have "\<not> passes t k n'" by (auto simp: passes_def)
      then have "n' = n" using n'(3) stop by (metis linorder_neqE_nat)
      then show "t ! probe_at t k n = Some (k, d)" using n' by simp
    qed (use pos probe_at_less in blast)
    moreover have "t ! probe_at t k n = Some (k', d') \<Longrightarrow> k' = k" for k' d'
      using stop(2) by (auto simp: passes_def)
    ultimately show ?thesis by (cases "t ! probe_at t k n") auto
  qed
qed

lemma hput_cases:
  assumes inv: "hinv t" and put: "hput k d t = Some t'"
  obtains n where "n < length t" "\<not> passes t k n" "\<forall>i<n. passes t k i" "t' = t[probe_at t k n := Some (k, d)]"
proof (cases rule: first_stop [of t k])
  case full
  then show ?thesis using hsearch_full [OF _ full] inv put by (auto simp: hput_def hinv_def)
next
  case (stop n)
  then show ?thesis
    using hsearch_stop [OF _ stop, of d ENTER] inv put that by (auto simp: hput_def hstep_def hinv_def)
qed

lemma hput_inv:
  assumes inv: "hinv t" and put: "hput k d t = Some t'"
  shows "hinv t'"
proof -
  obtain n where n: "n < length t" "\<not> passes t k n" "\<forall>i<n. passes t k i"
    and t': "t' = t[probe_at t k n := Some (k, d)]"
    using hput_cases [OF inv put] .
  let ?j = "probe_at t k n"
  have pos: "0 < length t" using inv by (simp add: hinv_def)
  have p: "probe_at t' x i = probe_at t x i" for x i by (simp add: t' probe_at_def home_def)
  have keep: "passes t' x i" if "passes t x i" for x i
  proof (cases "probe_at t x i = ?j")
    case True
    have "t ! ?j = None \<or> (\<exists>d0. t ! ?j = Some (k, d0))" using n(2) by (cases "t ! ?j") (auto simp: passes_def)
    with True that have "k \<noteq> x" by (auto simp: passes_def)
    with True pos show ?thesis by (simp add: passes_def p) (simp add: t')
  next
    case False
    with that show ?thesis by (auto simp: passes_def p) (auto simp: t')
  qed
  have "\<exists>m<length t. j = probe_at t x m \<and> (\<forall>i<m. passes t' x i)"
    if "j < length t" "t' ! j = Some (x, y)" for j x y
  proof (cases "j = ?j")
    case True
    then have "x = k" using that pos by (simp add: t')
    then show ?thesis using True n keep by auto
  next
    case False
    then have "t ! j = Some (x, y)" using that by (simp add: t')
    then show ?thesis using inv that(1) keep by (meson hinv_def)
  qed
  then show ?thesis using pos by (auto simp: hinv_def p t' [THEN arg_cong, of length])
qed

lemma hput_get:
  assumes inv: "hinv t" and put: "hput k d t = Some t'"
  shows "hget t' = (hget t)(k \<mapsto> d)"
proof
  fix x
  obtain n where n: "n < length t" "\<not> passes t k n" "t' = t[probe_at t k n := Some (k, d)]"
    using hput_cases [OF inv put] .
  let ?j = "probe_at t k n"
  have pos: "0 < length t" using inv by (simp add: hinv_def)
  have inv': "hinv t'" by (rule hput_inv [OF inv put])
  have old: "t ! ?j = Some (k', d') \<Longrightarrow> k' = k" for k' d' using n(2) by (auto simp: passes_def)
  show "hget t' x = ((hget t)(k \<mapsto> d)) x"
  proof (cases "x = k")
    case True
    have "t' ! ?j = Some (k, d)" "?j < length t'" using pos by (auto simp: n(3))
    then show ?thesis using True hget_iff [OF inv'] by auto
  next
    case False
    have "hget t' x = Some v \<longleftrightarrow> hget t x = Some v" for v
      using hget_iff [OF inv'] hget_iff [OF inv] False old n(3) pos
      by (auto simp: nth_list_update split: if_splits) (metis old)
    then show ?thesis using False by (metis fun_upd_apply not_None_eq)
  qed
qed

interpretation htable: dict hinv hget hput
  by unfold_locales (auto intro: hput_inv hput_get)

lemma hinv_empty: "0 < cap \<Longrightarrow> hinv (replicate cap None)"
  by (simp add: hinv_def)

lemma hget_empty: "0 < cap \<Longrightarrow> hget (replicate cap None) k = None"
  using hget_iff [OF hinv_empty] by (metis length_replicate not_None_eq nth_replicate)

section \<open>Binary search tree: correctness\<close>

primrec bst :: "('k \<Rightarrow> 'k \<Rightarrow> int) \<Rightarrow> 'k tnode \<Rightarrow> bool" where
  "bst cmp Tnull \<longleftrightarrow> True"
| "bst cmp (Tnode k l r) \<longleftrightarrow> bst cmp l \<and> bst cmp r \<and>
     (\<forall>x\<in>set_tnode l. cmp x k < 0) \<and> (\<forall>x\<in>set_tnode r. cmp k x < 0)"

primrec inorder :: "'k tnode \<Rightarrow> 'k list" where
  "inorder Tnull = []"
| "inorder (Tnode k l r) = inorder l @ k # inorder r"

lemma set_inorder [simp]: "set (inorder t) = set_tnode t"
  by (induction t) auto

lemma inorder_unlink_succ:
  "unlink_succ k l r = (s, t) \<Longrightarrow> inorder (Tnode k l r) = s # inorder t"
  by (induction k l r arbitrary: s t rule: unlink_succ.induct) (auto split: prod.splits)

lemma inorder_unlink_node: "inorder (unlink_node k l r) = inorder l @ inorder r"
proof (cases l; cases r)
  fix a b c rk rl rr assume "l = Tnode a b c" and r: "r = Tnode rk rl rr"
  moreover obtain s t where "unlink_succ rk rl rr = (s, t)" by (cases "unlink_succ rk rl rr")
  ultimately show ?thesis using inorder_unlink_succ [of rk rl rr s t] by (simp add: unlink_node_def)
qed (auto simp: unlink_node_def)

text \<open>The observations and the update of the tree as a store of keys.\<close>

definition tget :: "('k \<Rightarrow> 'k \<Rightarrow> int) \<Rightarrow> 'k tnode \<Rightarrow> 'k \<Rightarrow> unit option" where
  "tget cmp t k = (if tfind_loop cmp k t = Tnull then None else Some ())"

definition tput :: "bool \<Rightarrow> ('k \<Rightarrow> 'k \<Rightarrow> int) \<Rightarrow> 'k \<Rightarrow> unit \<Rightarrow> 'k tnode \<Rightarrow> 'k tnode option" where
  "tput ok cmp k u t =
     (case tsearch ok cmp k t of (t', n) \<Rightarrow> if n = Tnull then None else Some t')"

context comparator begin

lemma bst_sorted: "bst cmp t \<longleftrightarrow> sorted_wrt (\<lambda>x y. cmp x y < 0) (inorder t)"
  by (induction t) (auto simp: sorted_wrt_append intro: cmp_trans)

lemma tfind_loop_found: "bst cmp t \<Longrightarrow> tfind_loop cmp k t \<noteq> Tnull \<longleftrightarrow> k \<in> set_tnode t"
proof (induction t)
  case (Tnode x l r)
  then show ?case
    using cmp_eq [of k x] cmp_gt [of k x] cmp_trans [of k x k] by (auto simp: Let_def cmp_eq dest: cmp_trans)
qed simp

lemma tfind_loop_key: "tfind_loop cmp k t = Tnode x l r \<Longrightarrow> x = k"
  by (induction t) (auto simp: Let_def cmp_eq split: if_splits)

lemma tsearch_node: "tsearch ok cmp k t = (t', Tnode x l r) \<Longrightarrow> x = k"
  by (induction t arbitrary: t') (auto simp: Let_def cmp_eq t_new_def split: if_splits prod.splits)

lemma tsearch_set:
  "tsearch ok cmp k t = (t', n) \<Longrightarrow> set_tnode t' = (if n = Tnull then set_tnode t else insert k (set_tnode t))"
proof (induction t arbitrary: t' n)
  case (Tnode x l r)
  then show ?case by (auto simp: Let_def cmp_eq split: if_splits prod.splits)
qed (auto simp: Let_def t_new_def split: if_splits)

lemma tsearch_bst: "bst cmp t \<Longrightarrow> tsearch ok cmp k t = (t', n) \<Longrightarrow> bst cmp t'"
proof (induction t arbitrary: t' n)
  case (Tnode x l r)
  obtain l' nl where l: "tsearch ok cmp k l = (l', nl)" by (cases "tsearch ok cmp k l")
  obtain r' nr where r: "tsearch ok cmp k r = (r', nr)" by (cases "tsearch ok cmp k r")
  have bl: "bst cmp l'" and br: "bst cmp r'" using Tnode.IH(1) [OF _ l] Tnode.IH(2) [OF _ r] Tnode.prems(1) by simp_all
  have sl: "set_tnode l' \<subseteq> insert k (set_tnode l)" and sr: "set_tnode r' \<subseteq> insert k (set_tnode r)"
    using tsearch_set [OF l] tsearch_set [OF r] by (auto split: if_splits)
  show ?case
  proof (cases k x rule: cmp_cases)
    case eq
    with Tnode.prems show ?thesis by (auto simp: Let_def)
  next
    case lt
    then have "\<forall>y\<in>set_tnode l'. cmp y x < 0" using sl Tnode.prems(1) by auto
    with lt Tnode.prems l bl show ?thesis by (auto simp: Let_def)
  next
    case gt
    then have "\<forall>y\<in>set_tnode r'. cmp x y < 0" using sr Tnode.prems(1) by auto
    with gt Tnode.prems r br show ?thesis by (auto simp: Let_def)
  qed
qed (auto simp: Let_def t_new_def split: if_splits)

lemma tdelete_at_None: "bst cmp t \<Longrightarrow> tdelete_at cmp k t = None \<longleftrightarrow> k \<notin> set_tnode t"
proof (induction t)
  case (Tnode x l r)
  show ?case
  proof (cases k x rule: cmp_cases)
    case lt
    then have "k \<notin> set_tnode r" using Tnode.prems cmp_asym by fastforce
    with lt Tnode show ?thesis by (simp add: Let_def)
  next
    case gt
    then have "k \<notin> set_tnode l" using Tnode.prems cmp_asym by fastforce
    with gt Tnode show ?thesis by (simp add: Let_def)
  qed (simp add: Let_def)
qed simp

lemma tdelete_at_inorder:
  "bst cmp t \<Longrightarrow> tdelete_at cmp k t = Some t' \<Longrightarrow> inorder t' = removeAll k (inorder t)"
proof (induction t arbitrary: t')
  case (Tnode x l r)
  show ?case
  proof (cases k x rule: cmp_cases)
    case eq
    then have "k \<notin> set_tnode l" "k \<notin> set_tnode r" using Tnode.prems cmp_irrefl by auto
    with eq Tnode.prems show ?thesis by (auto simp: Let_def inorder_unlink_node removeAll_id)
  next
    case lt
    then have "k \<notin> set_tnode r" using Tnode.prems cmp_asym by fastforce
    with lt Tnode show ?thesis by (auto simp: Let_def removeAll_id)
  next
    case gt
    then have "k \<notin> set_tnode l" using Tnode.prems cmp_asym by fastforce
    with gt Tnode show ?thesis by (auto simp: Let_def removeAll_id)
  qed
qed simp

lemma tdelete_at_bst:
  assumes "bst cmp t" "tdelete_at cmp k t = Some t'"
  shows "bst cmp t'"
  using assms tdelete_at_inorder [OF assms] by (simp add: bst_sorted removeAll_filter_not_eq sorted_wrt_filter)

lemma tget_iff: "bst cmp t \<Longrightarrow> tget cmp t x = (if x \<in> set_tnode t then Some () else None)"
  using tfind_loop_found [of t x] by (auto simp: tget_def)

lemma tput_dict: "dict (bst cmp) (tget cmp) (tput ok cmp)"
proof
  fix s k v s' assume s: "bst cmp s" "tput ok cmp k v s = Some s'"
  obtain n where n: "tsearch ok cmp k s = (s', n)" "n \<noteq> Tnull"
    using s(2) by (auto simp: tput_def split: prod.splits if_splits)
  show inv: "bst cmp s'" using tsearch_bst [OF s(1) n(1)] .
  show "tget cmp s' = (tget cmp s)(k \<mapsto> v)"
    using tfind_loop_found [OF inv] tfind_loop_found [OF s(1)] tsearch_set [OF n(1)] n(2)
    by (auto simp: tget_def fun_eq_iff)
qed

end

sublocale comparator \<subseteq> tree: dict "bst cmp" "tget cmp" "tput ok cmp" for ok
  by (rule tput_dict)

text \<open>\<^verbatim>\<open>strcmp\<close> is such a comparison: the order it computes on strings is total.\<close>

lemma str_order_sym: "str_order s t < 0 \<longleftrightarrow> 0 < str_order t s"
proof (induction s t rule: str_order.induct)
  case (1 x xs y ys)
  then show ?case using schar_eq_iff [of x y] by auto
qed auto

lemma str_order_trans: "str_order s t < 0 \<Longrightarrow> str_order t u < 0 \<Longrightarrow> str_order s u < 0"
proof (induction s t arbitrary: u rule: str_order.induct)
  case (1 x xs y ys)
  then show ?case using schar_eq_iff [of x y] by (cases u) (auto split: if_splits)
next
  case (3 y ys)
  then show ?case by (cases u) (auto split: if_splits)
next
  case (4 x xs)
  then show ?case by (cases u) (auto split: if_splits)
qed simp

interpretation str_cmp: comparator str_order
  by unfold_locales (simp, rule str_order_sym, rule str_order_trans)

text \<open>The keys for which \<^verbatim>\<open>twalk\<close> calls the action with a given visit, in order.\<close>

definition calls :: "visit \<Rightarrow> 'k tnode \<Rightarrow> 'k list" where
  "calls v t = map fst (filter (\<lambda>c. fst (snd c) = v) (twalk t))"

lemma calls_mset: "v \<noteq> leaf \<Longrightarrow> mset (calls v t) = mset (inorder t)"
proof -
  assume v: "v \<noteq> leaf"
  have "mset (map fst (filter (\<lambda>c. fst (snd c) = v) (t_walk t d))) = mset (inorder t)" for d
  proof (induction t arbitrary: d)
    case (Tnode k l r)
    then show ?case using v by (cases v) auto
  qed simp
  then show ?thesis by (simp add: calls_def twalk_def)
qed

lemma calls_post: "calls postorder t = calls endorder t"
proof -
  have "map fst (filter (\<lambda>c. fst (snd c) = postorder) (t_walk t d)) =
    map fst (filter (\<lambda>c. fst (snd c) = endorder) (t_walk t d))" for d
    by (induction t arbitrary: d) auto
  then show ?thesis by (simp add: calls_def twalk_def)
qed

section \<open>Properties\<close>

text \<open>
  The specification of the hash table: a finite map of at most \<open>cap\<close> keys.  \<open>ENTER\<close> stores the data, also over an older entry, unless the
  key is new and the map is full; \<open>FIND\<close> changes nothing.  The answer is the entry the returned pointer refers to.
\<close>

fun map_op :: "nat \<Rightarrow> (byte list \<rightharpoonup> 'd) \<Rightarrow> byte list \<times> 'd \<times> action \<Rightarrow> (byte list \<rightharpoonup> 'd) \<times> (herror + byte list \<times> 'd)" where
  "map_op cap m (k, d, ENTER) =
     (if m k \<noteq> None \<or> card (dom m) < cap then (m(k \<mapsto> d), Inr (k, d)) else (m, Inl H_ENOSPC))"
| "map_op cap m (k, d, FIND) =
     (m, case m k of Some v \<Rightarrow> Inr (k, v) | None \<Rightarrow> Inl (if card (dom m) < cap then H_ESRCH else H_ENOSPC))"

primrec map_run :: "nat \<Rightarrow> (byte list \<times> 'd \<times> action) list \<Rightarrow> (byte list \<rightharpoonup> 'd) \<Rightarrow> (herror + byte list \<times> 'd) list" where
  "map_run cap [] m = []"
| "map_run cap (op # ops) m = (case map_op cap m op of (m', a) \<Rightarrow> a # map_run cap ops m')"

text \<open>The same calls on the table, one after the other; a pointer returned is read in the table the call leaves.\<close>

definition hread :: "'d slot list option \<Rightarrow> herror + nat \<Rightarrow> herror + byte list \<times> 'd" where
  "hread tbl r = (case r of Inl e \<Rightarrow> Inl e | Inr j \<Rightarrow> Inr (the (the tbl ! j)))"

primrec hrun :: "(byte list \<times> 'd \<times> action) list \<Rightarrow> 'd slot list option \<Rightarrow> (herror + byte list \<times> 'd) list" where
  "hrun [] tbl = []"
| "hrun (op # ops) tbl =
     (case op of (k, d, a) \<Rightarrow> case hsearch tbl (Some k) d a of (tbl', r) \<Rightarrow> hread tbl' r # hrun ops tbl')"

lemma hget_card:
  assumes "hinv t"
  shows "card (dom (hget t)) = card {j. j < length t \<and> t ! j \<noteq> None}"
proof -
  let ?J = "{j. j < length t \<and> t ! j \<noteq> None}"
  have "dom (hget t) = (\<lambda>j. fst (the (t ! j))) ` ?J"
  proof (intro set_eqI iffI)
    fix k assume "k \<in> dom (hget t)"
    then obtain v where "hget t k = Some v" by blast
    then obtain j where "j < length t" "t ! j = Some (k, v)" using hget_iff [OF assms] by blast
    then show "k \<in> (\<lambda>j. fst (the (t ! j))) ` ?J" by (intro image_eqI [of _ _ j]) simp_all
  next
    fix k assume "k \<in> (\<lambda>j. fst (the (t ! j))) ` ?J"
    then obtain j v where "j < length t" "t ! j = Some (k, v)" by auto
    then have "hget t k = Some v" using hget_iff [OF assms] by blast
    then show "k \<in> dom (hget t)" by blast
  qed
  moreover have "inj_on (\<lambda>j. fst (the (t ! j))) ?J"
  proof (rule inj_onI)
    fix i j assume a: "i \<in> ?J" "j \<in> ?J" "fst (the (t ! i)) = fst (the (t ! j))"
    then obtain k d e where "t ! i = Some (k, d)" "t ! j = Some (k, e)" by auto
    then show "i = j" using a hinv_key_unique [OF assms] by blast
  qed
  ultimately show ?thesis by (simp only: card_image)
qed

lemma probe_onto:
  assumes "j < length t"
  obtains i where "i < length t" "probe_at t k i = j"
proof
  let ?h = "home t k"
  have h: "?h < length t" unfolding home_def using assms by (intro mod_less_divisor) linarith
  let ?i = "(j + (length t - ?h)) mod length t"
  show "?i < length t" using assms by (intro mod_less_divisor) linarith
  have "(?h + (j + (length t - ?h))) mod length t = j" using h assms by simp
  then show "probe_at t k ?i = j" by (simp add: probe_at_def mod_add_right_eq)
qed

lemma all_pass:
  assumes "hinv t" "\<forall>i<length t. passes t k i"
  shows "hget t k = None \<and> card (dom (hget t)) = length t"
proof -
  have p: "\<exists>k' d'. t ! j = Some (k', d') \<and> k' \<noteq> k" if "j < length t" for j
    using probe_onto [OF that, of k] assms(2) unfolding passes_def by metis
  then have "{j. j < length t \<and> t ! j \<noteq> None} = {..<length t}" by fastforce
  moreover have "hget t k \<noteq> Some v" for v using hget_iff [OF assms(1), of k v] p by fastforce
  ultimately show ?thesis using hget_card [OF assms(1)] by (metis card_lessThan not_None_eq)
qed

lemma free_slot:
  assumes "hinv t" "j < length t" "t ! j = None"
  shows "card (dom (hget t)) < length t"
proof -
  have "{i. i < length t \<and> t ! i \<noteq> None} \<subset> {..<length t}"
  proof
    show "{i. i < length t \<and> t ! i \<noteq> None} \<subseteq> {..<length t}" by blast
    have "j \<notin> {i. i < length t \<and> t ! i \<noteq> None}" "j \<in> {..<length t}" using assms(2,3) by (simp_all only: mem_Collect_eq simp_thms lessThan_iff)
    then show "{i. i < length t \<and> t ! i \<noteq> None} \<noteq> {..<length t}" by blast
  qed
  then have "card {i. i < length t \<and> t ! i \<noteq> None} < card {..<length t}" by (intro psubset_card_mono) simp_all
  then show ?thesis unfolding hget_card [OF assms(1)] by simp
qed

lemma hsearch_map_op:
  assumes inv: "hinv t"
  shows "\<exists>t' r. hsearch (Some t) (Some k) d a = (Some t', r) \<and> hinv t' \<and> length t' = length t \<and>
    map_op (length t) (hget t) (k, d, a) = (hget t', hread (Some t') r)"
proof (cases rule: first_stop [of t k])
  case full
  have pos: "0 < length t" using inv by (simp add: hinv_def)
  show ?thesis using hsearch_full [OF pos full, of d a] all_pass [OF inv full] inv by (cases a) (simp_all add: hread_def)
next
  case (stop n)
  have pos: "0 < length t" using inv by (simp add: hinv_def)
  define j where "j = probe_at t k n"
  have j: "j < length t" using pos by (simp add: j_def)
  note h = hsearch_stop [OF pos stop, folded j_def]
  have key: "t ! j = Some (k', d') \<Longrightarrow> k' = k" for k' d' using stop(2) by (auto simp: passes_def j_def)
  have get: "hget t k = map_option snd (t ! j)"
    using h [of undefined FIND] by (auto simp: hget_def hstep_def split: option.splits)
  have room: "hget t k \<noteq> None \<or> card (dom (hget t)) < length t"
    using get free_slot [OF inv j] by (cases "t ! j") auto
  show ?thesis
  proof (cases a)
    case FIND
    show ?thesis
    proof (cases "t ! j")
      case None
      then show ?thesis using h [of d FIND] FIND inv get room by (simp add: hstep_def hread_def)
    next
      case (Some e)
      then have "e = (k, snd e)" using key [of "fst e" "snd e"] by (cases e) simp
      then show ?thesis using h [of d FIND] FIND inv get Some by (simp add: hstep_def hread_def)
    qed
  next
    case ENTER
    let ?t = "t[j := Some (k, d)]"
    have s: "hsearch (Some t) (Some k) d a = (Some ?t, Inr j)" using h [of d ENTER] ENTER by (simp add: hstep_def)
    then have "hput k d t = Some ?t" using ENTER by (simp add: hput_def)
    then have "hinv ?t" "hget ?t = (hget t)(k \<mapsto> d)" using htable.inv_put [OF inv] htable.get_put [OF inv] by blast+
    then show ?thesis using s ENTER room j by (auto simp: hread_def)
  qed
qed

lemma hrun_map_run: "hinv t \<Longrightarrow> hrun ops (Some t) = map_run (length t) ops (hget t)"
proof (induction ops arbitrary: t)
  case (Cons op ops)
  obtain k d a where op: "op = (k, d, a)" by (cases op)
  obtain t' r where "hsearch (Some t) (Some k) d a = (Some t', r)" "hinv t'" "length t' = length t"
    "map_op (length t) (hget t) (k, d, a) = (hget t', hread (Some t') r)"
    using hsearch_map_op [OF Cons.prems, of k d a] by blast
  then show ?case using Cons.IH [of t'] by (simp add: op)
qed simp

text \<open>
  C5: the hash table refines a finite map of bounded size: every sequence of \<open>ENTER\<close> and \<open>FIND\<close> calls on a fresh table of \<^verbatim>\<open>hcreate\<close> gives the answers
  of the map, errors included, whatever collisions and wrap-around of the probe sequence occur.  \<open>ENTER\<close> replaces the data of a key
  that is present and fails with \<^verbatim>\<open>ENOSPC\<close> exactly for a new key in a full table; \<open>FIND\<close> returns the data entered last and changes nothing, and
  fails for a missing key with \<^verbatim>\<open>ESRCH\<close>, or \<^verbatim>\<open>ENOSPC\<close> when the table is full.
\<close>

theorem hsearch_refines_map:
  "hrun ops (fst (hcreate nel None True)) = map_run (if nel > 0 then nel else 64) ops Map.empty"
proof -
  define cap where "cap = (if nel > 0 then nel else 64)"
  have cap: "0 < cap" by (simp add: cap_def)
  have "hget (replicate cap None) = (Map.empty :: byte list \<rightharpoonup> 'a)" by (rule ext) (rule hget_empty [OF cap])
  then have "hrun ops (Some (replicate cap None)) = map_run cap ops Map.empty"
    using hrun_map_run [OF hinv_empty [OF cap], of ops] by simp
  then show ?thesis by (simp add: hcreate_def cap_def [symmetric] Let_def)
qed

theorem hsearch_refines_map_witness:
  "hrun [([97], 1, ENTER), ([98], 2, FIND), ([97], 9, FIND), ([98], 5, ENTER), ([97], 3, FIND)] (fst (hcreate 1 None True)) =
     [Inr ([97], 1), Inl H_ENOSPC, Inr ([97], 1), Inl H_ENOSPC, Inr ([97], 1 :: nat)]"
  unfolding hsearch_refines_map by (simp add: dom_def)

text \<open>
  \<open>ENTER\<close> is refused with \<^verbatim>\<open>ENOSPC\<close> only when every slot of the table is taken by another
  key, and then the table is unchanged: linear probing never misses a free slot.
\<close>

theorem hsearch_enospc:
  assumes "hinv t" "hsearch (Some t) (Some k) d ENTER = (t', Inl e)"
  shows "e = H_ENOSPC \<and> t' = Some t \<and> (\<forall>j<length t. \<exists>k' d'. t ! j = Some (k', d') \<and> k' \<noteq> k)"
proof (cases rule: first_stop [of t k])
  case full
  have pos: "0 < length t" using assms(1) by (simp add: hinv_def)
  have "\<exists>k' d'. t ! j = Some (k', d') \<and> k' \<noteq> k" if j: "j < length t" for j
  proof -
    have h: "home t k < length t" using pos by (simp add: home_def)
    obtain n where "n < length t" "probe_at t k n = j"
    proof (cases "home t k \<le> j")
      case True
      then show ?thesis using that [of "j - home t k"] j by (simp add: probe_at_def)
    next
      case False
      then show ?thesis using that [of "length t + j - home t k"] j h by (simp add: probe_at_def)
    qed
    then show ?thesis using full by (auto simp: passes_def)
  qed
  then show ?thesis using hsearch_full [OF pos full, of d ENTER] assms(2) by simp
next
  case (stop n)
  then show ?thesis
    using hsearch_stop [OF _ stop, of d ENTER] assms by (auto simp: hstep_def hinv_def)
qed

theorem hsearch_enospc_witness:
  "snd (hsearch (Some [Some ([97], 1 :: nat)]) (Some [98]) 2 ENTER) = Inl H_ENOSPC \<and>
   (\<exists>k' d'. [Some ([97], 1 :: nat)] ! 0 = Some (k', d') \<and> k' \<noteq> [98 :: byte])"
proof -
  have i: "hinv [Some ([97], 1 :: nat)]" by (simp add: hinv_def probe_at_def)
  have h: "hsearch (Some [Some ([97], 1 :: nat)]) (Some [98]) 2 ENTER = (Some [Some ([97], 1)], Inl H_ENOSPC)"
    by (simp add: hsearch_def hash_def hash_step_def schar_def Let_def)
  show ?thesis using hsearch_enospc [OF i h] h by simp
qed

text \<open>
  C34: \<^verbatim>\<open>tsearch\<close> keeps the search-tree order, adds exactly the key when its node can be
  allocated, and the key is then found by \<^verbatim>\<open>tfind\<close>; nothing else changes membership.
\<close>

theorem tsearch_inserts:
  assumes "comparator cmp" "bst cmp t" "tsearch ok cmp k t = (t', n)"
  shows "bst cmp t' \<and> (n \<noteq> Tnull \<longleftrightarrow> ok \<or> k \<in> set_tnode t) \<and>
    (\<forall>x. tget cmp t' x = (if x = k \<and> n \<noteq> Tnull then Some () else tget cmp t x))"
proof -
  have b: "bst cmp t'" by (rule comparator.tsearch_bst [OF assms])
  have "n \<noteq> Tnull \<longleftrightarrow> ok \<or> k \<in> set_tnode t"
    using assms(2,3)
  proof (induction t arbitrary: t')
    case (Tnode x l r)
    then show ?case
      by (cases rule: comparator.cmp_cases [OF assms(1), of k x])
        (auto simp: Let_def comparator.cmp_refl [OF assms(1)] split: if_splits prod.splits
          dest: comparator.cmp_asym [OF assms(1)])
  qed (auto simp: t_new_def Let_def split: if_splits)
  then show ?thesis
    using b comparator.tsearch_set [OF assms(1,3)]
    by (auto simp: comparator.tget_iff [OF assms(1) b] comparator.tget_iff [OF assms(1,2)])
qed

theorem tsearch_inserts_witness:
  "bst str_order (fst (tsearch True str_order [98] (Tnode [97] Tnull Tnull))) \<and>
   tget str_order (fst (tsearch True str_order [98] (Tnode [97] Tnull Tnull))) [98] = Some ()"
proof -
  have b: "bst str_order (Tnode [97] Tnull Tnull)" by simp
  obtain t n where t: "tsearch True str_order [98] (Tnode [97] Tnull Tnull) = (t, n)" by fastforce
  show ?thesis using tsearch_inserts [OF str_cmp.comparator_axioms b t] t by auto
qed

text \<open>
  C10: \<^verbatim>\<open>tdelete\<close> removes exactly the given key and keeps the in-order sequence of all others,
  so the tree stays a search tree, also when the node has two children.
\<close>

theorem tdelete_removes:
  assumes "comparator cmp" "bst cmp t" "tdelete cmp k t = (t', r)"
  shows "inorder t' = removeAll k (inorder t) \<and> bst cmp t' \<and> (\<forall>x. tget cmp t' x = (if x = k then None else tget cmp t x))"
proof -
  have io: "inorder t' = removeAll k (inorder t)"
  proof (cases "tdelete_at cmp k t")
    case None
    then have "k \<notin> set (inorder t)" using comparator.tdelete_at_None [OF assms(1,2)] by simp
    moreover have "t' = t" using assms(3) None by (simp add: tdelete_def split: if_splits)
    ultimately show ?thesis by (simp add: removeAll_id)
  next
    case (Some u)
    then have "t' = u" using assms(3) by (auto simp: tdelete_def split: if_splits)
    then show ?thesis using comparator.tdelete_at_inorder [OF assms(1,2) Some] by simp
  qed
  have b: "bst cmp t'"
    using assms(2) io by (simp add: comparator.bst_sorted [OF assms(1)] removeAll_filter_not_eq sorted_wrt_filter)
  have "set_tnode t' = set_tnode t - {k}" using arg_cong [OF io, of set] by simp
  then show ?thesis
    using io b by (simp add: comparator.tget_iff [OF assms(1) b] comparator.tget_iff [OF assms(1,2)])
qed

theorem tdelete_removes_witness:
  "inorder (fst (tdelete str_order [98] (Tnode [98] (Tnode [97] Tnull Tnull) (Tnode [99] Tnull Tnull)))) = [[97], [99]]"
proof -
  let ?t = "Tnode [98] (Tnode [97] Tnull Tnull) (Tnode [99] Tnull Tnull)"
  have b: "bst str_order ?t" by (simp add: schar_def)
  obtain t r where t: "tdelete str_order [98] ?t = (t, r)" by fastforce
  show ?thesis using tdelete_removes [OF str_cmp.comparator_axioms b t] t by simp
qed

text \<open>
  \<^verbatim>\<open>twalk\<close> visits every node once at its depth in each of preorder, postorder and endorder, but
  its postorder calls come after both subtrees: they are not the sorted in-order sequence that
  POSIX prescribes for \<^verbatim>\<open>postorder\<close>.
\<close>

theorem twalk_visits:
  "mset (calls preorder t) = mset (inorder t) \<and> mset (calls endorder t) = mset (inorder t) \<and>
   calls postorder t = calls endorder t \<and>
   calls postorder (Tnode (2 :: nat) (Tnode 1 Tnull Tnull) (Tnode 3 Tnull Tnull)) = [1, 3, 2]"
  using calls_mset [of preorder t] calls_mset [of endorder t] calls_post [of t]
  by (simp add: calls_def twalk_def)

end
