(* ===== verification/Sort.thy ===== *)
theory Sort
  imports Search "HOL-Library.Multiset"
begin

text \<open>
  Sorting and binary search of \<^verbatim>\<open>include/stdlib.h\<close>.  The array is the list of its elements;
  \<^verbatim>\<open>__jacl_sort_swap\<close>, which exchanges two elements byte by byte, is also modelled on the
  memory.  The comparison is a parameter of the model.  \<^verbatim>\<open>malloc\<close> of the pivot may fail:
  its successive outcomes are a list of booleans, threaded through the recursive calls (an
  exhausted list is a failure).  The recursion of \<^verbatim>\<open>__jacl_sort_again\<close> ends only for a comparison that
  finds every element equal to itself, so it takes fuel; \<open>length xs\<close> is shown to be enough.
\<close>

section \<open>Swapping bytes\<close>

fun sort_swap :: "mem \<Rightarrow> ptr \<Rightarrow> ptr \<Rightarrow> nat \<Rightarrow> mem" where
  "sort_swap m a b 0 = m"
| "sort_swap m a b (Suc n) = sort_swap (m(a := m b, b := m a)) (Suc a) (Suc b) n"

section \<open>The sort on elements\<close>

definition swap :: "'a list \<Rightarrow> nat \<Rightarrow> nat \<Rightarrow> 'a list" where
  "swap xs i j = xs[i := xs ! j, j := xs ! i]"

definition cswap :: "('a \<Rightarrow> 'a \<Rightarrow> int) \<Rightarrow> 'a list \<Rightarrow> nat \<Rightarrow> nat \<Rightarrow> 'a list" where
  "cswap cmp xs i j = (if cmp (xs ! i) (xs ! j) > 0 then swap xs i j else xs)"

definition median3 :: "('a \<Rightarrow> 'a \<Rightarrow> int) \<Rightarrow> 'a list \<Rightarrow> nat \<Rightarrow> nat \<Rightarrow> nat \<Rightarrow> 'a list" where
  "median3 cmp xs low mid high =
     (let xs1 = cswap cmp xs low mid;
          xs2 = cswap cmp xs1 mid high
      in cswap cmp xs2 low mid)"

definition bubble_pass :: "('a \<Rightarrow> 'a \<Rightarrow> int) \<Rightarrow> nat \<Rightarrow> 'a list \<Rightarrow> 'a list" where
  "bubble_pass cmp k xs = foldl (\<lambda>xs j. cswap cmp xs j (j + 1)) xs [0..<k]"

definition bubble :: "('a \<Rightarrow> 'a \<Rightarrow> int) \<Rightarrow> 'a list \<Rightarrow> 'a list" where
  "bubble cmp xs = foldl (\<lambda>ys i. bubble_pass cmp (length xs - i - 1) ys) xs [0..<length xs - 1]"

function scan_up :: "('a \<Rightarrow> 'a \<Rightarrow> int) \<Rightarrow> 'a \<Rightarrow> 'a list \<Rightarrow> nat \<Rightarrow> nat" where
  "scan_up cmp pivot xs i =
     (if i < length xs \<and> cmp (xs ! i) pivot < 0 then scan_up cmp pivot xs (i + 1) else i)"
  by pat_completeness auto
termination by (relation "measure (\<lambda>(cmp, pivot, xs, i). length xs - i)") auto

fun scan_down :: "('a \<Rightarrow> 'a \<Rightarrow> int) \<Rightarrow> 'a \<Rightarrow> 'a list \<Rightarrow> nat \<Rightarrow> nat" where
  "scan_down cmp pivot xs j =
     (if j > 0 \<and> cmp (xs ! j) pivot > 0 then scan_down cmp pivot xs (j - 1) else j)"

declare scan_up.simps [simp del] scan_down.simps [simp del]

lemma scan_up_ge: "i \<le> scan_up cmp pivot xs i"
  by (induction cmp pivot xs i rule: scan_up.induct) (subst scan_up.simps, auto)

lemma scan_down_le: "scan_down cmp pivot xs j \<le> j"
  by (induction cmp pivot xs j rule: scan_down.induct) (subst scan_down.simps, auto)

text \<open>The partition loop \<^verbatim>\<open>while (1)\<close>: the array and the final \<open>i\<close> and \<open>j\<close>.\<close>

function partition_loop :: "('a \<Rightarrow> 'a \<Rightarrow> int) \<Rightarrow> 'a \<Rightarrow> 'a list \<Rightarrow> nat \<Rightarrow> nat \<Rightarrow> 'a list \<times> nat \<times> nat" where
  "partition_loop cmp pivot xs i j =
     (let i' = scan_up cmp pivot xs i; j' = scan_down cmp pivot xs j
      in if i' \<ge> j' then (xs, i', j')
         else partition_loop cmp pivot (swap xs i' j') (i' + 1) (if j' > 0 then j' - 1 else j'))"
  by pat_completeness auto
termination
proof (relation "measure (\<lambda>(cmp, pivot, xs, i, j). j - i)", simp)
  fix cmp :: "'a \<Rightarrow> 'a \<Rightarrow> int" and pivot xs i j i' j'
  assume "i' = scan_up cmp pivot xs i" "j' = scan_down cmp pivot xs j" "\<not> j' \<le> i'"
  moreover have "i \<le> i'" "j' \<le> j" using calculation scan_up_ge scan_down_le by metis+
  ultimately show "((cmp, pivot, swap xs i' j', i' + 1, if j' > 0 then j' - 1 else j'), (cmp, pivot, xs, i, j))
      \<in> measure (\<lambda>(cmp, pivot, xs, i, j). j - i)" by auto
qed

text \<open>The next outcome of \<^verbatim>\<open>malloc\<close>.\<close>

definition malloc_ok :: "bool list \<Rightarrow> bool" where
  "malloc_ok ms \<longleftrightarrow> ms \<noteq> [] \<and> hd ms"

primrec sort_again :: "nat \<Rightarrow> ('a \<Rightarrow> 'a \<Rightarrow> int) \<Rightarrow> bool list \<Rightarrow> 'a list \<Rightarrow> ('a list \<times> bool list) option" where
  "sort_again 0 cmp ms xs = None"
| "sort_again (Suc fuel) cmp ms xs =
     (if length xs < 2 then Some (xs, ms)
      else
        let nmemb = length xs; high = nmemb - 1; mid = high div 2;
            ys = median3 cmp xs 0 mid high
        in if \<not> malloc_ok ms then Some (bubble cmp ys, tl ms)
           else
             let (zs, i, j) = partition_loop cmp (ys ! mid) ys 0 (nmemb - 1)
             in do {
               (left, ms1) \<leftarrow> if j > 0 then sort_again fuel cmp (tl ms) (take (j + 1) zs)
                             else Some (take (j + 1) zs, tl ms);
               let zs1 = left @ drop (j + 1) zs;
               (right, ms2) \<leftarrow> if i < nmemb - 1 then sort_again fuel cmp ms1 (drop (i + 1) zs1)
                              else Some (drop (i + 1) zs1, ms1);
               Some (take (i + 1) zs1 @ right, ms2)
             })"

definition qsort :: "('a \<Rightarrow> 'a \<Rightarrow> int) \<Rightarrow> bool list \<Rightarrow> 'a list \<Rightarrow> ('a list \<times> bool list) option" where
  "qsort cmp ms xs = (if length xs < 2 then Some (xs, ms) else sort_again (length xs) cmp ms xs)"

section \<open>Binary search\<close>

function bsearch_loop :: "('k \<Rightarrow> 'a \<Rightarrow> int) \<Rightarrow> 'k \<Rightarrow> 'a list \<Rightarrow> nat \<Rightarrow> nat \<Rightarrow> nat option" where
  "bsearch_loop cmp key xs low high =
     (if low < high then
        (let mid = low + (high - low) div 2; c = cmp key (xs ! mid)
         in if c = 0 then Some mid
            else if c < 0 then bsearch_loop cmp key xs low mid
            else bsearch_loop cmp key xs (mid + 1) high)
      else None)"
  by pat_completeness auto
termination by (relation "measure (\<lambda>(cmp, key, xs, low, high). high - low)") auto

definition bsearch :: "('k \<Rightarrow> 'a \<Rightarrow> int) \<Rightarrow> 'k \<Rightarrow> 'a list \<Rightarrow> nat option" where
  "bsearch cmp key xs = (if xs = [] then None else bsearch_loop cmp key xs 0 (length xs))"

declare partition_loop.simps [simp del] bsearch_loop.simps [simp del]

section \<open>Permutation and termination\<close>

lemma sort_swap_outside: "x < a \<or> a + n \<le> x \<Longrightarrow> x < b \<or> b + n \<le> x \<Longrightarrow> sort_swap m a b n x = m x"
  by (induction n arbitrary: m a b) auto

lemma sort_swap_fst:
  "a + n \<le> b \<or> b + n \<le> a \<Longrightarrow> i < n \<Longrightarrow> sort_swap m a b n (a + i) = m (b + i) \<and> sort_swap m a b n (b + i) = m (a + i)"
proof (induction n arbitrary: m a b i)
  case (Suc n)
  show ?case
  proof (cases i)
    case 0
    then show ?thesis using Suc.prems
      sort_swap_outside [of a "Suc a" n "Suc b" "m(a := m b, b := m a)"]
      sort_swap_outside [of b "Suc a" n "Suc b" "m(a := m b, b := m a)"] by auto
  next
    case (Suc k)
    let ?m = "m(a := m b, b := m a)"
    have m: "?m (Suc (b + k)) = m (Suc (b + k))" "?m (Suc (a + k)) = m (Suc (a + k))"
      using Suc.prems Suc by auto
    have "Suc a + n \<le> Suc b \<or> Suc b + n \<le> Suc a" "k < n" using Suc.prems Suc by auto
    from Suc.IH [OF this, of ?m] show ?thesis unfolding Suc sort_swap.simps add_Suc_right add_Suc m .
  qed
qed simp

lemma sort_swap_exchanges:
  assumes "a + n \<le> b \<or> b + n \<le> a"
  shows "rd (sort_swap m a b n) a n = rd m b n" "rd (sort_swap m a b n) b n = rd m a n"
  using sort_swap_fst [OF assms] by (auto intro!: rd_cong)

lemma length_swap [simp]: "length (swap xs i j) = length xs"
  by (simp add: swap_def)

lemma length_cswap [simp]: "length (cswap cmp xs i j) = length xs"
  by (simp add: cswap_def)

lemma length_median3 [simp]: "length (median3 cmp xs a b c) = length xs"
  by (simp add: median3_def Let_def)

lemma mset_swap' [simp]: "i < length xs \<Longrightarrow> j < length xs \<Longrightarrow> mset (swap xs i j) = mset xs"
  by (simp add: swap_def mset_swap)

lemma mset_cswap [simp]: "i < length xs \<Longrightarrow> j < length xs \<Longrightarrow> mset (cswap cmp xs i j) = mset xs"
  by (simp add: cswap_def)

lemma mset_median3:
  "a < length xs \<Longrightarrow> b < length xs \<Longrightarrow> c < length xs \<Longrightarrow> mset (median3 cmp xs a b c) = mset xs"
  by (simp add: median3_def Let_def)

lemma bubble_pass_Suc: "bubble_pass cmp (Suc k) xs = cswap cmp (bubble_pass cmp k xs) k (Suc k)"
  by (simp add: bubble_pass_def)

lemma bubble_pass_0 [simp]: "bubble_pass cmp 0 xs = xs"
  by (simp add: bubble_pass_def)

lemma length_bubble_pass [simp]: "length (bubble_pass cmp k xs) = length xs"
  by (induction k) (simp_all add: bubble_pass_Suc)

lemma mset_bubble_pass: "k < length xs \<Longrightarrow> mset (bubble_pass cmp k xs) = mset xs"
  by (induction k) (simp_all add: bubble_pass_Suc)

text \<open>The state of the outer loop of the bubble sort after \<open>n\<close> rounds.\<close>

definition bubble_rounds :: "('a \<Rightarrow> 'a \<Rightarrow> int) \<Rightarrow> nat \<Rightarrow> nat \<Rightarrow> 'a list \<Rightarrow> 'a list" where
  "bubble_rounds cmp l n xs = foldl (\<lambda>ys i. bubble_pass cmp (l - i - 1) ys) xs [0..<n]"

lemma bubble_rounds_Suc:
  "bubble_rounds cmp l (Suc n) xs = bubble_pass cmp (l - n - 1) (bubble_rounds cmp l n xs)"
  by (simp add: bubble_rounds_def)

lemma bubble_rounds_0 [simp]: "bubble_rounds cmp l 0 xs = xs"
  by (simp add: bubble_rounds_def)

lemma bubble_eq: "bubble cmp xs = bubble_rounds cmp (length xs) (length xs - 1) xs"
  by (simp add: bubble_def bubble_rounds_def)

lemma length_bubble_rounds [simp]: "length (bubble_rounds cmp l n xs) = length xs"
  by (induction n) (simp_all add: bubble_rounds_Suc)

lemma mset_bubble: "mset (bubble cmp xs) = mset xs"
proof -
  have "xs \<noteq> [] \<Longrightarrow> mset (bubble_rounds cmp (length xs) n xs) = mset xs" for n
    by (induction n) (simp_all add: bubble_rounds_Suc mset_bubble_pass)
  then show ?thesis by (cases "xs = []") (simp_all add: bubble_eq)
qed

lemma scan_up_le: "i \<le> k \<Longrightarrow> \<not> cmp (xs ! k) pivot < 0 \<Longrightarrow> scan_up cmp pivot xs i \<le> k"
proof (induction cmp pivot xs i rule: scan_up.induct)
  case (1 cmp pivot xs i)
  show ?case
  proof (cases "i < length xs \<and> cmp (xs ! i) pivot < 0")
    case True
    then have "i \<noteq> k" using 1(3) by blast
    then have "scan_up cmp pivot xs (i + 1) \<le> k" using 1 True by simp
    then show ?thesis using True by (simp add: scan_up.simps [of cmp pivot xs i])
  qed (use 1(2) in \<open>auto simp: scan_up.simps [of cmp pivot xs i]\<close>)
qed

lemma scan_down_ge: "k \<le> j \<Longrightarrow> \<not> cmp (xs ! k) pivot > 0 \<Longrightarrow> k \<le> scan_down cmp pivot xs j"
proof (induction cmp pivot xs j rule: scan_down.induct)
  case (1 cmp pivot xs j)
  show ?case
  proof (cases "j > 0 \<and> cmp (xs ! j) pivot > 0")
    case True
    then have "j \<noteq> k" using 1(3) by blast
    then have "k \<le> scan_down cmp pivot xs (j - 1)" using 1 True by simp
    then show ?thesis using True by (simp add: scan_down.simps [of cmp pivot xs j])
  qed (use 1(2) in \<open>auto simp: scan_down.simps [of cmp pivot xs j]\<close>)
qed

lemma partition_loop_mset:
  "i \<le> length xs \<Longrightarrow> j < length xs \<Longrightarrow> partition_loop cmp pivot xs i j = (zs, i2, j2) \<Longrightarrow>
   mset zs = mset xs \<and> length zs = length xs \<and> j2 \<le> j \<and> j2 \<le> i2"
proof (induction cmp pivot xs i j rule: partition_loop.induct)
  case (1 cmp pivot xs i j)
  let ?i = "scan_up cmp pivot xs i" and ?j = "scan_down cmp pivot xs j"
  have j: "?j \<le> j" by (rule scan_down_le)
  show ?case
  proof (cases "?j \<le> ?i")
    case True
    then show ?thesis using 1(4) j by (subst (asm) partition_loop.simps) (auto simp: Let_def)
  next
    case False
    have e: "partition_loop cmp pivot (swap xs ?i ?j) (?i + 1) (if ?j > 0 then ?j - 1 else ?j) = (zs, i2, j2)"
      using 1(4) False by (subst (asm) partition_loop.simps) (simp add: Let_def)
    have "mset zs = mset (swap xs ?i ?j) \<and> length zs = length (swap xs ?i ?j) \<and>
        j2 \<le> (if ?j > 0 then ?j - 1 else ?j) \<and> j2 \<le> i2"
      using 1(1) [OF refl refl False _ _ e] 1(3) False j by (simp split: if_splits)
    then show ?thesis using False j 1(3) by (auto split: if_splits)
  qed
qed

lemma partition_shrinks:
  assumes "2 \<le> length xs" "cmp (xs ! k) (xs ! k) = 0" "k < length xs - 1"
    and e: "partition_loop cmp (xs ! k) xs 0 (length xs - 1) = (zs, i, j)"
  shows "mset zs = mset xs" "length zs = length xs" "j \<le> i" "j < length xs - 1"
proof -
  have l: "length xs - 1 < length xs" using assms(1) by simp
  show "mset zs = mset xs" "length zs = length xs" "j \<le> i"
    using partition_loop_mset [OF _ l e] by simp_all
  let ?i = "scan_up cmp (xs ! k) xs 0" and ?j = "scan_down cmp (xs ! k) xs (length xs - 1)"
  have "?i \<le> k" using assms(2) by (intro scan_up_le) auto
  moreover have "k \<le> ?j" using assms(2,3) by (intro scan_down_ge) auto
  moreover have jl: "?j \<le> length xs - 1" by (rule scan_down_le)
  ultimately show "j < length xs - 1"
  proof (cases "?j \<le> ?i")
    case True
    then have "j = ?j" using e by (subst (asm) partition_loop.simps) (auto simp: Let_def)
    then show ?thesis using True \<open>?i \<le> k\<close> assms(3) by linarith
  next
    case False
    then have e': "partition_loop cmp (xs ! k) (swap xs ?i ?j) (?i + 1) (if ?j > 0 then ?j - 1 else ?j) = (zs, i, j)"
      using e by (subst (asm) partition_loop.simps) (simp add: Let_def)
    have l1: "(if ?j > 0 then ?j - 1 else ?j) < length (swap xs ?i ?j)" using jl l by (cases "?j > 0") auto
    have l2: "?i + 1 \<le> length (swap xs ?i ?j)" using \<open>?i \<le> k\<close> assms(3) by simp
    have "j \<le> (if ?j > 0 then ?j - 1 else ?j)" using partition_loop_mset [OF l2 l1 e'] by simp
    then show ?thesis using False jl by (simp split: if_splits)
  qed
qed

lemma sort_again_returns:
  assumes "\<And>x. cmp x x = 0"
  shows "length xs \<le> fuel \<Longrightarrow> 0 < fuel \<Longrightarrow>
    \<exists>ys ms'. sort_again fuel cmp ms xs = Some (ys, ms') \<and> mset ys = mset xs"
proof (induction fuel arbitrary: xs ms)
  case (Suc fuel)
  show ?case
  proof (cases "length xs < 2")
    case False
    define mid where "mid = (length xs - 1) div 2"
    define ys where "ys = median3 cmp xs 0 mid (length xs - 1)"
    have mid: "mid < length xs - 1" using False by (simp add: mid_def)
    have ly: "length ys = length xs" by (simp add: ys_def)
    have my: "mset ys = mset xs"
      unfolding ys_def using mid False by (intro mset_median3) auto
    show ?thesis
    proof (cases "malloc_ok ms")
      case True
      obtain zs i j where p: "partition_loop cmp (ys ! mid) ys 0 (length ys - 1) = (zs, i, j)"
        by (metis prod_cases3)
      note ps = partition_shrinks [OF _ _ _ p]
      have z: "mset zs = mset xs" "length zs = length xs" "j \<le> i" "j < length xs - 1"
        using ps mid False ly my assms by simp_all
      have fl: "j + 1 \<le> fuel" using z(4) Suc.prems(1) by linarith
      obtain left ms1 where l: "(if j > 0 then sort_again fuel cmp (tl ms) (take (j + 1) zs)
          else Some (take (j + 1) zs, tl ms)) = Some (left, ms1)" "mset left = mset (take (j + 1) zs)"
        using Suc.IH [of "take (j + 1) zs" "tl ms"] fl z(2,4) by (cases "j > 0") auto
      have ll: "length left = j + 1" using mset_eq_length [OF l(2)] z(2,4) by simp
      define zs1 where "zs1 = left @ drop (j + 1) zs"
      have mz: "mset zs1 = mset zs" "length zs1 = length xs"
        using l(2) ll z(2,4) by (simp_all add: zs1_def) (metis append_take_drop_id mset_append)
      have fr: "length xs - (i + 1) \<le> fuel" using Suc.prems(1) by linarith
      obtain right ms2 where r: "(if i < length xs - 1 then sort_again fuel cmp ms1 (drop (i + 1) zs1)
          else Some (drop (i + 1) zs1, ms1)) = Some (right, ms2)" "mset right = mset (drop (i + 1) zs1)"
        using Suc.IH [of "drop (i + 1) zs1" ms1] fl fr mz(2) by (cases "i < length xs - 1") auto
      have "mset (take (i + 1) zs1 @ right) = mset xs"
        using r(2) mz(1) z(1) by (metis append_take_drop_id mset_append)
      moreover have "sort_again (Suc fuel) cmp ms xs = Some (take (i + 1) zs1 @ right, ms2)"
        unfolding sort_again.simps Let_def mid_def [symmetric] ys_def [symmetric] p [unfolded ly] prod.case
          l(1) Option.bind.bind_lunit zs1_def [symmetric] r(1)
        using False True by simp
      ultimately show ?thesis by blast
    qed (use False my in \<open>simp add: Let_def mset_bubble mid_def ys_def\<close>)
  qed simp
qed simp

section \<open>Order\<close>

text \<open>A comparison that orders its elements up to equivalence: what \<^verbatim>\<open>qsort\<close> and \<^verbatim>\<open>bsearch\<close> require.\<close>

locale weak_order =
  fixes cmp :: "'a \<Rightarrow> 'a \<Rightarrow> int"
  assumes wo_sym: "cmp x y < 0 \<longleftrightarrow> 0 < cmp y x"
    and wo_trans: "cmp x y \<le> 0 \<Longrightarrow> cmp y z \<le> 0 \<Longrightarrow> cmp x z \<le> 0"
begin

lemma wo_refl [simp]: "cmp x x = 0"
  using wo_sym [of x x] by linarith

lemma wo_flip: "\<not> cmp x y \<le> 0 \<Longrightarrow> cmp y x \<le> 0"
  using wo_sym [of y x] by linarith

lemma bubble_pass_max:
  "k < length xs \<Longrightarrow> (\<forall>i\<le>k. cmp (bubble_pass cmp k xs ! i) (bubble_pass cmp k xs ! k) \<le> 0) \<and>
   (\<forall>i>k. i < length xs \<longrightarrow> bubble_pass cmp k xs ! i = xs ! i) \<and>
   set (take (k + 1) (bubble_pass cmp k xs)) = set (take (k + 1) xs)"
proof (induction k)
  case (Suc k)
  define p where "p = bubble_pass cmp k xs"
  have p: "\<forall>i\<le>k. cmp (p ! i) (p ! k) \<le> 0" "\<forall>i>k. i < length xs \<longrightarrow> p ! i = xs ! i"
      "set (take (k + 1) p) = set (take (k + 1) xs)" "length p = length xs"
    using Suc by (simp_all add: p_def)
  define q where "q = cswap cmp p k (Suc k)"
  have q: "bubble_pass cmp (Suc k) xs = q" by (simp add: bubble_pass_Suc p_def q_def)
  have qi: "q ! i = p ! i" if "i \<noteq> k" "i \<noteq> Suc k" for i
    using that by (simp add: q_def cswap_def swap_def)
  have mx: "cmp (q ! k) (q ! Suc k) \<le> 0 \<and> cmp (p ! k) (q ! Suc k) \<le> 0"
    using Suc.prems p(4) wo_flip [of "p ! k" "p ! Suc k"]
    by (auto simp: q_def cswap_def swap_def)
  have "cmp (q ! i) (q ! Suc k) \<le> 0" if "i \<le> Suc k" for i
  proof -
    consider "i < k" | "i = k" | "i = Suc k" using \<open>i \<le> Suc k\<close> by (atomize_elim, auto)
    then show ?thesis
    proof cases
      case 1
      then show ?thesis using qi [of i] p(1) mx wo_trans [of "p ! i" "p ! k" "q ! Suc k"] by simp
    qed (use mx in simp_all)
  qed
  moreover have "\<forall>i>Suc k. i < length xs \<longrightarrow> q ! i = xs ! i" using qi p(2) by simp
  moreover have "mset (take (Suc k + 1) q) = mset (take (Suc k + 1) p)"
  proof -
    have "take (Suc k + 1) q = cswap cmp (take (Suc k + 1) p) k (Suc k)"
      using Suc.prems p(4) by (simp add: q_def cswap_def swap_def take_update_swap nth_take)
    then show ?thesis using Suc.prems p(4) by simp
  qed
  moreover have "set (take (Suc k + 1) p) = set (take (Suc k + 1) xs)"
    using p Suc.prems take_Suc_conv_app_nth [of "Suc k" p] take_Suc_conv_app_nth [of "Suc k" xs] by simp
  ultimately show ?case unfolding q by (metis set_mset_mset)
qed simp

lemma bubble_rounds_sorted:
  assumes "n < length xs"
  shows "i < j \<Longrightarrow> length xs - n \<le> j \<Longrightarrow> j < length xs \<Longrightarrow>
    cmp (bubble_rounds cmp (length xs) n xs ! i) (bubble_rounds cmp (length xs) n xs ! j) \<le> 0"
  using assms
proof (induction n arbitrary: i j)
  case (Suc n)
  define ys where "ys = bubble_rounds cmp (length xs) n xs"
  define k where "k = length xs - n - 1"
  define zs where "zs = bubble_pass cmp k ys"
  have ly: "length ys = length xs" by (simp add: ys_def)
  have k: "k < length ys" "length xs - n = Suc k" "length xs - Suc n = k"
    using Suc.prems(4) ly by (simp_all add: k_def)
  have z: "\<forall>i\<le>k. cmp (zs ! i) (zs ! k) \<le> 0" "\<forall>i>k. i < length ys \<longrightarrow> zs ! i = ys ! i"
      "set (take (k + 1) zs) = set (take (k + 1) ys)"
    using bubble_pass_max [OF k(1)] unfolding zs_def by blast+
  have IH: "cmp (ys ! a) (ys ! b) \<le> 0" if "a < b" "k < b" "b < length xs" for a b
    using Suc.IH [of a b] that Suc.prems(4) k(2) by (simp add: ys_def)
  have "cmp (zs ! i) (zs ! j) \<le> 0"
  proof (cases "j = k")
    case True
    then show ?thesis using z(1) Suc.prems(1) by simp
  next
    case False
    then have j: "k < j" using Suc.prems(2) k(3) by simp
    show ?thesis
    proof (cases "k < i")
      case True
      then show ?thesis using z(2) IH [of i j] j Suc.prems ly by simp
    next
      case False
      then have "zs ! i \<in> set (take (k + 1) zs)"
        using k(1) by (simp add: in_set_conv_nth zs_def) (metis less_Suc_eq_le not_le nth_take)
      then have "zs ! i \<in> set (take (k + 1) ys)" using z(3) by simp
      then obtain a where "a < k + 1" "zs ! i = ys ! a" using k(1)
        by (metis in_set_conv_nth length_take min_less_iff_conj nth_take)
      then show ?thesis using IH [of a j] z(2) j Suc.prems ly by simp
    qed
  qed
  then show ?case by (simp add: bubble_rounds_Suc ys_def zs_def k_def)
qed simp

lemma bubble_sorted: "sorted_wrt (\<lambda>x y. cmp x y \<le> 0) (bubble cmp xs)"
proof (cases "xs = []")
  case False
  have "cmp (bubble cmp xs ! i) (bubble cmp xs ! j) \<le> 0" if "i < j" "j < length xs" for i j
    using bubble_rounds_sorted [of "length xs - 1" xs i j] that False by (simp add: bubble_eq)
  then show ?thesis by (simp add: sorted_wrt_iff_nth_less bubble_eq)
qed (simp add: bubble_def)

end

sublocale comparator \<subseteq> weak_order cmp
proof
  fix x y z
  show "cmp x y < 0 \<longleftrightarrow> 0 < cmp y x" by (rule cmp_sym)
  show "cmp x y \<le> 0 \<Longrightarrow> cmp y z \<le> 0 \<Longrightarrow> cmp x z \<le> 0"
    using cmp_trans [of x y z] by (auto simp: le_less cmp_eq)
qed

text \<open>Integers under subtraction, the comparison a C caller writes for \<^verbatim>\<open>int\<close> keys in range.\<close>

definition int_cmp :: "int \<Rightarrow> int \<Rightarrow> int" where
  "int_cmp x y = x - y"

interpretation int_cmp: weak_order int_cmp
  by unfold_locales (simp_all add: int_cmp_def)

section \<open>Properties of \<^verbatim>\<open>qsort\<close> and \<^verbatim>\<open>bsearch\<close>\<close>

text \<open>
  C28: for every comparison that finds each element equal to itself, and whatever the outcomes of
  \<^verbatim>\<open>malloc\<close>, \<^verbatim>\<open>qsort\<close> returns (the recursion always shrinks) and the array it leaves is a permutation of
  the input.
\<close>

theorem qsort_permutes:
  assumes "\<And>x. cmp x x = 0"
  shows "\<exists>ys ms'. qsort cmp ms xs = Some (ys, ms') \<and> mset ys = mset xs"
  using sort_again_returns [where cmp = cmp and xs = xs and fuel = "length xs" and ms = ms] assms
  by (cases "xs = []") (simp_all add: qsort_def)

theorem qsort_permutes_witness:
  "\<exists>ys ms'. qsort int_cmp [True, False] [3, 1, 2] = Some (ys, ms') \<and> mset ys = {#1, 2, 3#}"
  using qsort_permutes [of int_cmp "[True, False]" "[3, 1, 2]"] by (auto simp: int_cmp_def)

text \<open>
  When the pivot cannot be allocated, \<^verbatim>\<open>qsort\<close> falls back to an exchange sort, which
  leaves the array ordered for every comparison that is a weak order.
\<close>

theorem qsort_fallback_sorts:
  assumes "weak_order cmp" "\<not> malloc_ok ms"
  shows "\<exists>ys. qsort cmp ms xs = Some (ys, if length xs < 2 then ms else tl ms) \<and>
    sorted_wrt (\<lambda>x y. cmp x y \<le> 0) ys \<and> mset ys = mset xs"
proof (cases "length xs < 2")
  case True
  then show ?thesis by (cases xs) (auto simp: qsort_def)
next
  case False
  then obtain n where n: "length xs = Suc n" by (cases "length xs") auto
  let ?ys = "median3 cmp xs 0 ((length xs - 1) div 2) (length xs - 1)"
  have "mset ?ys = mset xs" using False by (intro mset_median3) auto
  moreover have "qsort cmp ms xs = Some (bubble cmp ?ys, tl ms)"
    using False assms(2) n by (simp add: qsort_def Let_def)
  ultimately show ?thesis
    using weak_order.bubble_sorted [OF assms(1)] False by (auto simp: mset_bubble)
qed

theorem qsort_fallback_sorts_witness:
  "\<exists>ys. qsort int_cmp [] [3, 1, 2] = Some (ys, []) \<and> sorted_wrt (\<lambda>x y. int_cmp x y \<le> 0) ys"
  using qsort_fallback_sorts [OF int_cmp.weak_order_axioms, of "[]" "[3, 1, 2]"]
  by (auto simp: malloc_ok_def)

text \<open>
  With memory for the pivot, \<^verbatim>\<open>qsort\<close> does not always sort: when the partition loop ends with
  \<open>i = j + 1\<close> the element at \<open>i\<close> belongs to neither recursive call, and this array of
  eight integers is left with 7 before 5.
\<close>

theorem qsort_leaves_unsorted:
  "\<exists>ys ms'. qsort int_cmp (replicate 8 True) [1, 2, 3, 5, 7, 4, 2, 9] = Some (ys, ms') \<and>
    \<not> sorted_wrt (\<lambda>x y. int_cmp x y \<le> 0) ys"
proof -
  have "(case qsort int_cmp (replicate 8 True) [1, 2, 3, 5, 7, 4, 2, 9] of
      None \<Rightarrow> False | Some (ys, ms') \<Rightarrow> ys = [1, 2, 2, 3, 4, 7, 5, 9])"
    by code_simp
  then show ?thesis by (auto simp: int_cmp_def split: option.splits)
qed

lemma bsearch_loop_spec:
  assumes "high \<le> length xs"
    and "\<And>i j. i < j \<Longrightarrow> j < length xs \<Longrightarrow> sgn (cmp key (xs ! j)) \<le> sgn (cmp key (xs ! i))"
    and "\<And>i. i < low \<Longrightarrow> 0 < cmp key (xs ! i)" "\<And>i. high \<le> i \<Longrightarrow> i < length xs \<Longrightarrow> cmp key (xs ! i) < 0"
  shows "case bsearch_loop cmp key xs low high of
      Some k \<Rightarrow> k < length xs \<and> cmp key (xs ! k) = 0
    | None \<Rightarrow> \<forall>k<length xs. cmp key (xs ! k) \<noteq> 0"
  using assms
proof (induction cmp key xs low high rule: bsearch_loop.induct)
  case (1 cmp key xs low high)
  define mid where "mid = low + (high - low) div 2"
  show ?case
  proof (cases "low < high")
    case True
    then have mid: "low \<le> mid" "mid < high" by (simp_all add: mid_def)
    consider "cmp key (xs ! mid) = 0" | "cmp key (xs ! mid) < 0" | "cmp key (xs ! mid) > 0" by linarith
    then show ?thesis
    proof cases
      case 1
      then show ?thesis using True mid \<open>high \<le> length xs\<close>
        by (simp add: bsearch_loop.simps [of cmp key xs low high] mid_def [symmetric])
    next
      case 2
      have "cmp key (xs ! i) < 0" if "mid \<le> i" "i < length xs" for i
        using 1(4) [of mid i] that 2 by (cases "i = mid") (auto simp: sgn_if split: if_splits)
      then have "case bsearch_loop cmp key xs low mid of
          Some k \<Rightarrow> k < length xs \<and> cmp key (xs ! k) = 0 | None \<Rightarrow> \<forall>k<length xs. cmp key (xs ! k) \<noteq> 0"
        using 1(1) [OF True mid_def refl] 2 1(3-5) mid by simp
      then show ?thesis using True 2
        by (simp add: bsearch_loop.simps [of cmp key xs low high] mid_def [symmetric])
    next
      case 3
      have "0 < cmp key (xs ! i)" if "i < mid + 1" for i
        using 1(4) [of i mid] that 3 mid 1(3) by (cases "i = mid") (auto simp: sgn_if split: if_splits)
      then have "case bsearch_loop cmp key xs (mid + 1) high of
          Some k \<Rightarrow> k < length xs \<and> cmp key (xs ! k) = 0 | None \<Rightarrow> \<forall>k<length xs. cmp key (xs ! k) \<noteq> 0"
        using 1(2) [OF True mid_def refl] 3 1(3,4,6) mid by simp
      then show ?thesis using True 3
        by (simp add: bsearch_loop.simps [of cmp key xs low high] mid_def [symmetric])
    qed
  next
    case False
    have "cmp key (xs ! k) \<noteq> 0" if "k < length xs" for k
      using 1(5) [of k] 1(6) [of k] that False by (cases "k < low") auto
    then show ?thesis using False by (simp add: bsearch_loop.simps [of cmp key xs low high])
  qed
qed

text \<open>
  On an array ordered with respect to the key, as the C standard requires, \<^verbatim>\<open>bsearch\<close> returns an
  index inside the array whose element compares equal to the key, and null exactly when there
  is no such element.
\<close>

theorem bsearch_finds:
  assumes "\<And>i j. i < j \<Longrightarrow> j < length xs \<Longrightarrow> sgn (cmp key (xs ! j)) \<le> sgn (cmp key (xs ! i))"
  shows "case bsearch cmp key xs of
      Some k \<Rightarrow> k < length xs \<and> cmp key (xs ! k) = 0
    | None \<Rightarrow> \<forall>k<length xs. cmp key (xs ! k) \<noteq> 0"
  using bsearch_loop_spec [of "length xs" xs cmp key 0] assms by (simp add: bsearch_def)

theorem bsearch_finds_witness:
  "bsearch int_cmp 7 [1, 4, 7, 9] \<noteq> None"
proof -
  have "sgn (int_cmp 7 ([1, 4, 7, 9] ! j)) \<le> sgn (int_cmp 7 ([1, 4, 7, 9] ! i))" if "i < j" "j < length [1, 4, 7, 9 :: int]" for i j
    using that by (auto simp: int_cmp_def less_Suc_eq numeral_eq_Suc)
  from bsearch_finds [of "[1, 4, 7, 9]" int_cmp 7, OF this] show ?thesis
    by (auto simp: int_cmp_def split: option.splits dest: spec [of _ 2])
qed

end
