(* ===== verification/Env.thy ===== *)
theory Env
  imports Search Ctype
begin

text \<open>
  The process-wide services of \<^verbatim>\<open>include/stdlib.h\<close>, \<^verbatim>\<open>include/unistd.h\<close> and
  \<^verbatim>\<open>include/core/stdlib.h\<close>: the environment, the exit handlers, suboption parsing and temporary
  names.  Strings are byte lists without their terminator; \<^verbatim>\<open>environ\<close> is the list of its
  strings.  The calls \<^verbatim>\<open>strncmp(a, b, n) == 0\<close> are read with the meaning \<open>CStr\<close> proves of the
  library's own \<^verbatim>\<open>strncmp\<close>: \<open>a\<close> has at least \<open>n\<close> bytes and the first \<open>n\<close> agree.  Whether \<^verbatim>\<open>malloc\<close>
  succeeds, and what \<^verbatim>\<open>open\<close> answers, are arguments.
\<close>

unbundle bit_operations_syntax

definition strncmp_eq :: "byte list \<Rightarrow> byte list \<Rightarrow> nat \<Rightarrow> bool" where
  "strncmp_eq a b n \<longleftrightarrow> n \<le> length a \<and> take n a = take n b"

section \<open>The environment\<close>

type_synonym env = "byte list list"

text \<open>\<^verbatim>\<open>strncmp(*ep, name, len) == 0 && (*ep)[len] == '='\<close>\<close>

definition entry_is :: "byte list \<Rightarrow> byte list \<Rightarrow> nat \<Rightarrow> bool" where
  "entry_is e name len \<longleftrightarrow> strncmp_eq e name len \<and> len < length e \<and> e ! len = 61"

primrec getenv :: "env \<Rightarrow> byte list \<Rightarrow> byte list option" where
  "getenv [] name = None"
| "getenv (e # env) name =
     (if entry_is e name (length name) then Some (drop (length name + 1) e) else getenv env name)"

text \<open>The replacement loop of \<^verbatim>\<open>putenv\<close>: \<open>None\<close> when no entry has the name.\<close>

fun env_replace :: "env \<Rightarrow> byte list \<Rightarrow> nat \<Rightarrow> env option" where
  "env_replace [] str namelen = None"
| "env_replace (e # env) str namelen =
     (if entry_is e str namelen then Some (str # env)
      else case env_replace env str namelen of None \<Rightarrow> None | Some env' \<Rightarrow> Some (e # env'))"

definition putenv :: "bool \<Rightarrow> env \<Rightarrow> byte list option \<Rightarrow> int + env" where
  "putenv ok env str = (case str of
      None \<Rightarrow> Inl EINVAL
    | Some s \<Rightarrow>
        if 61 \<notin> set s then Inl EINVAL
        else case env_replace env s (length (takeWhile (\<lambda>c. c \<noteq> 61) s)) of
               Some env' \<Rightarrow> Inr env'
             | None \<Rightarrow> if ok then Inr (env @ [s]) else Inl ENOMEM)"

definition name_ok :: "byte list \<Rightarrow> bool" where
  "name_ok name \<longleftrightarrow> name \<noteq> [] \<and> 61 \<notin> set name"

text \<open>\<open>ok1\<close> and \<open>ok2\<close>: the allocations of the new string and of the new \<^verbatim>\<open>environ\<close> array succeed.\<close>

definition setenv :: "bool \<Rightarrow> bool \<Rightarrow> env \<Rightarrow> byte list option \<Rightarrow> byte list option \<Rightarrow> bool \<Rightarrow> int + env" where
  "setenv ok1 ok2 env name val overwrite = (case name of
      None \<Rightarrow> Inl EINVAL
    | Some n \<Rightarrow>
        if \<not> name_ok n then Inl EINVAL
        else case val of
          None \<Rightarrow> Inl EINVAL
        | Some v \<Rightarrow>
            if \<not> overwrite \<and> getenv env n \<noteq> None then Inr env
            else if \<not> ok1 then Inl ENOMEM
            else putenv ok2 env (Some (n @ [61] @ v)))"

text \<open>\<^verbatim>\<open>do { *sp = *(sp + 1); } while (*sp++);\<close> moves every later entry one place down.\<close>

definition shift_down :: "env \<Rightarrow> nat \<Rightarrow> env" where
  "shift_down env ep = take ep env @ drop (ep + 1) env"

function unset_loop :: "env \<Rightarrow> byte list \<Rightarrow> nat \<Rightarrow> env" where
  "unset_loop env name ep =
     (if ep < length env then
        (if entry_is (env ! ep) name (length name) then unset_loop (shift_down env ep) name ep
         else unset_loop env name (ep + 1))
      else env)"
  by pat_completeness auto
termination
  by (relation "measure (\<lambda>(env, name, ep). length env - ep)") (auto simp: shift_down_def)

definition unsetenv :: "env \<Rightarrow> byte list option \<Rightarrow> int + env" where
  "unsetenv env name = (case name of
      None \<Rightarrow> Inl EINVAL
    | Some n \<Rightarrow> if \<not> name_ok n then Inl EINVAL else Inr (unset_loop env n 0))"

section \<open>Exit handlers\<close>

definition ATEXIT_MAX :: nat where "ATEXIT_MAX = 32"

record 'f slot =
  func :: "'f option"
  used :: bool

record 'f exit_state =
  exit_handlers :: "'f slot list"
  exit_count :: nat
  quick_exit_handlers :: "'f slot list"
  quick_exit_count :: nat

definition no_handlers :: "'f slot list" where
  "no_handlers = replicate ATEXIT_MAX \<lparr>func = None, used = False\<rparr>"

definition exit_init :: "'f exit_state" where
  "exit_init = \<lparr>exit_handlers = no_handlers, exit_count = 0,
     quick_exit_handlers = no_handlers, quick_exit_count = 0\<rparr>"

text \<open>The search for a free slot, shared by the two registration functions.\<close>

fun take_slot :: "'f slot list \<Rightarrow> 'f \<Rightarrow> 'f slot list option" where
  "take_slot [] f = None"
| "take_slot (s # ss) f =
     (if \<not> used s then Some (\<lparr>func = Some f, used = True\<rparr> # ss)
      else case take_slot ss f of None \<Rightarrow> None | Some ss' \<Rightarrow> Some (s # ss'))"

definition atexit :: "'f option \<Rightarrow> 'f exit_state \<Rightarrow> int \<times> 'f exit_state" where
  "atexit f st = (case f of
      None \<Rightarrow> (- 1, st)
    | Some g \<Rightarrow> (case take_slot (exit_handlers st) g of
          None \<Rightarrow> (- 1, st)
        | Some hs \<Rightarrow> (0, st\<lparr>exit_handlers := hs, exit_count := exit_count st + 1\<rparr>)))"

definition at_quick_exit :: "'f option \<Rightarrow> 'f exit_state \<Rightarrow> int \<times> 'f exit_state" where
  "at_quick_exit f st = (case f of
      None \<Rightarrow> (- 1, st)
    | Some g \<Rightarrow> (case take_slot (quick_exit_handlers st) g of
          None \<Rightarrow> (- 1, st)
        | Some hs \<Rightarrow> (0, st\<lparr>quick_exit_handlers := hs, quick_exit_count := quick_exit_count st + 1\<rparr>)))"

text \<open>The calls made, in order, from the last slot to the first.\<close>

definition run_handlers :: "'f slot list \<Rightarrow> 'f list" where
  "run_handlers hs = concat (map (\<lambda>s. if used s then (case func s of None \<Rightarrow> [] | Some f \<Rightarrow> [f]) else []) (rev hs))"

definition exit :: "'f exit_state \<Rightarrow> 'f list" where
  "exit st = run_handlers (exit_handlers st)"

definition quick_exit :: "'f exit_state \<Rightarrow> 'f list" where
  "quick_exit st = run_handlers (quick_exit_handlers st)"

section \<open>Suboptions\<close>

text \<open>
  Pointers into the option string are offsets; the byte at \<open>end\<close> is overwritten with the
  terminator during the search and restored on every path.  The result is the index (or \<open>-1\<close>),
  the value pointer and the new \<^verbatim>\<open>*optionp\<close>.
\<close>

fun subopt_search :: "byte list \<Rightarrow> byte list list \<Rightarrow> nat \<Rightarrow> (nat \<times> nat option) option" where
  "subopt_search seg [] i = None"
| "subopt_search seg (t # ts) i =
     (if strncmp_eq seg t (length t) then
        (if length t = length seg then Some (i, None)
         else if seg ! length t = 61 then Some (i, Some (length t + 1))
         else subopt_search seg ts (i + 1))
      else subopt_search seg ts (i + 1))"

definition getsubopt :: "byte list \<Rightarrow> byte list list \<Rightarrow> int \<times> nat option \<times> nat" where
  "getsubopt s tokens =
     (let seg = takeWhile (\<lambda>c. c \<noteq> 44) s;
          e = length seg;
          next = (if e < length s then e + 1 else e)
      in case subopt_search seg tokens 0 of
           Some (i, v) \<Rightarrow> (int i, v, next)
         | None \<Rightarrow> (- 1, Some 0, next))"

section \<open>Temporary names\<close>

definition suffix_char :: "u32 \<Rightarrow> byte" where
  "suffix_char seed =
     (let r = unat (drop_bit 16 seed) mod 62 in
      of_nat (if r < 10 then 48 + r else if r < 36 then 65 + (r - 10) else 97 + (r - 36)))"

primrec gen_suffix :: "nat \<Rightarrow> u32 \<Rightarrow> byte list" where
  "gen_suffix 0 seed = []"
| "gen_suffix (Suc n) seed =
     (let seed' = seed * 1103515245 + 12345 in suffix_char seed' # gen_suffix n seed')"

text \<open>
  The loop over attempts: \<open>seeds\<close> gives the seed mixed from time, process id and counter at each
  attempt, \<open>op\<close> the outcome of \<^verbatim>\<open>open\<close> (or \<^verbatim>\<open>mkdir\<close>) on a name, \<open>Inl\<close> being \<^verbatim>\<open>errno\<close>.
  The second component is the name left in the template.
\<close>

fun temp_loop :: "(nat \<Rightarrow> u32) \<Rightarrow> (byte list \<Rightarrow> int + int) \<Rightarrow> nat \<Rightarrow> nat \<Rightarrow> byte list \<Rightarrow> (int + int) \<times> byte list" where
  "temp_loop seeds op 0 k template = (Inl EEXIST, template)"
| "temp_loop seeds op (Suc n) k template =
     (let name = take (length template - 6) template @ gen_suffix 6 (seeds k) in
      case op name of
        Inr fd \<Rightarrow> (Inr fd, name)
      | Inl e \<Rightarrow> if e \<noteq> EEXIST then (Inl e, name) else temp_loop seeds op n (k + 1) name)"

definition TMP_MAX :: nat where "TMP_MAX = 238328"

definition temp_ok :: "byte list \<Rightarrow> bool" where
  "temp_ok template \<longleftrightarrow> 6 \<le> length template \<and> drop (length template - 6) template = replicate 6 88"

definition mkstemp :: "(nat \<Rightarrow> u32) \<Rightarrow> (byte list \<Rightarrow> int + int) \<Rightarrow> byte list option \<Rightarrow> (int + int) \<times> byte list option" where
  "mkstemp seeds op template = (case template of
      None \<Rightarrow> (Inl EINVAL, None)
    | Some t \<Rightarrow> if \<not> temp_ok t then (Inl EINVAL, Some t)
                else case temp_loop seeds op TMP_MAX 0 t of (r, t') \<Rightarrow> (r, Some t'))"

text \<open>\<^verbatim>\<open>mkdtemp\<close> makes a directory (\<open>op\<close> is \<^verbatim>\<open>mkdir\<close>), \<^verbatim>\<open>mkostemp\<close> passes its flags on to \<^verbatim>\<open>open\<close>.\<close>

definition mkdtemp :: "(nat \<Rightarrow> u32) \<Rightarrow> (byte list \<Rightarrow> int + int) \<Rightarrow> byte list option \<Rightarrow> (int + int) \<times> byte list option" where
  "mkdtemp seeds op template = (case template of
      None \<Rightarrow> (Inl EINVAL, None)
    | Some t \<Rightarrow> if \<not> temp_ok t then (Inl EINVAL, Some t)
                else case temp_loop seeds op TMP_MAX 0 t of (r, t') \<Rightarrow> (r, Some t'))"

definition mkostemp :: "(nat \<Rightarrow> u32) \<Rightarrow> (u32 \<Rightarrow> byte list \<Rightarrow> int + int) \<Rightarrow> byte list option \<Rightarrow> u32 \<Rightarrow> (int + int) \<times> byte list option" where
  "mkostemp seeds op template flags = (case template of
      None \<Rightarrow> (Inl EINVAL, None)
    | Some t \<Rightarrow> if \<not> temp_ok t then (Inl EINVAL, Some t)
                else case temp_loop seeds (op flags) TMP_MAX 0 t of (r, t') \<Rightarrow> (r, Some t'))"

declare unset_loop.simps [simp del]

section \<open>The environment as a map\<close>

definition ename :: "byte list \<Rightarrow> byte list" where
  "ename e = takeWhile (\<lambda>c. c \<noteq> 61) e"

lemma takeWhile_prefix:
  "61 \<notin> set n \<Longrightarrow> (length n < length e \<and> take (length n) e = n \<and> e ! length n = 61) \<longleftrightarrow> (61 \<in> set e \<and> ename e = (n :: byte list))"
proof (induction n arbitrary: e)
  case Nil
  then show ?case by (cases e) (auto simp: ename_def)
next
  case (Cons x n)
  then show ?case by (cases e) (auto simp: ename_def)
qed

lemma entry_is_name: "61 \<notin> set n \<Longrightarrow> entry_is e n (length n) \<longleftrightarrow> 61 \<in> set e \<and> ename e = n"
  using takeWhile_prefix [of n e] by (auto simp: entry_is_def strncmp_eq_def)

lemma ename_no_eq [simp]: "61 \<notin> set (ename e)"
  by (auto simp: ename_def dest: set_takeWhileD)

lemma entry_is_put: "61 \<in> set s \<Longrightarrow> entry_is e s (length (ename s)) \<longleftrightarrow> 61 \<in> set e \<and> ename e = ename s"
proof -
  have "take (length (ename s)) s = ename s" by (metis ename_def takeWhile_eq_take)
  then have "entry_is e s (length (ename s)) \<longleftrightarrow> entry_is e (ename s) (length (ename s))"
    by (simp add: entry_is_def strncmp_eq_def)
  then show ?thesis by (simp add: entry_is_name)
qed

lemma getenv_replace:
  assumes "61 \<in> set s" "61 \<notin> set n"
  shows "env_replace env s (length (ename s)) = Some env' \<Longrightarrow>
    getenv env' n = (if n = ename s then Some (drop (length (ename s) + 1) s) else getenv env n)"
proof (induction env arbitrary: env')
  case (Cons e env)
  then show ?case using assms
    by (auto simp: entry_is_put entry_is_name split: if_splits option.splits)
qed simp

lemma getenv_absent:
  "61 \<in> set s \<Longrightarrow> env_replace env s (length (ename s)) = None \<Longrightarrow> getenv env (ename s) = None"
  by (induction env) (auto simp: entry_is_put entry_is_name split: if_splits option.splits)

lemma getenv_append: "getenv (env @ env') n = (case getenv env n of None \<Rightarrow> getenv env' n | Some v \<Rightarrow> Some v)"
  by (induction env) auto

lemma getenv_putenv:
  assumes "putenv ok env (Some s) = Inr env'" "61 \<notin> set n"
  shows "getenv env' n = (if n = ename s then Some (drop (length (ename s) + 1) s) else getenv env n)"
proof -
  have s: "61 \<in> set s" using assms(1) by (auto simp: putenv_def split: if_splits)
  show ?thesis
  proof (cases "env_replace env s (length (ename s))")
    case None
    then have "env' = env @ [s]" using assms(1) s by (simp add: putenv_def ename_def split: if_splits)
    then show ?thesis
      using s assms(2) getenv_absent [OF s None]
      by (auto simp: getenv_append entry_is_name split: option.splits)
  next
    case (Some e')
    then have "env' = e'" using assms(1) s by (simp add: putenv_def ename_def)
    then show ?thesis using getenv_replace [OF s assms(2)] Some by blast
  qed
qed

lemma unset_loop_filter:
  "unset_loop env n ep = take ep env @ filter (\<lambda>e. \<not> entry_is e n (length n)) (drop ep env)"
proof (induction env n ep rule: unset_loop.induct)
  case (1 env n ep)
  show ?case
  proof (cases "ep < length env")
    case True
    then have d: "drop ep env = env ! ep # drop (ep + 1) env" by (simp add: Cons_nth_drop_Suc)
    show ?thesis
    proof (cases "entry_is (env ! ep) n (length n)")
      case m: True
      then have "unset_loop env n ep = unset_loop (shift_down env ep) n ep"
        using True by (simp add: unset_loop.simps [of env n ep])
      also have "\<dots> = take ep env @ filter (\<lambda>e. \<not> entry_is e n (length n)) (drop (ep + 1) env)"
        using 1(1) [OF True m] True by (simp add: shift_down_def min_def)
      finally show ?thesis using d m by simp
    next
      case False
      then show ?thesis using 1(2) [OF True False] True d
        by (simp add: unset_loop.simps [of env n ep] take_Suc_conv_app_nth)
    qed
  qed (simp add: unset_loop.simps [of env n ep])
qed

lemma getenv_filter:
  "61 \<notin> set k \<Longrightarrow> 61 \<notin> set n \<Longrightarrow> getenv (filter (\<lambda>e. \<not> entry_is e n (length n)) env) k = (if k = n then None else getenv env k)"
  by (induction env) (auto simp: entry_is_name)

text \<open>
  The environment is a dictionary in the sense of \<^const>\<open>dict\<close>: names are the keys, \<^verbatim>\<open>getenv\<close> reads
  and an overwriting \<^verbatim>\<open>setenv\<close> stores.
\<close>

definition env_get :: "env \<Rightarrow> byte list \<Rightarrow> byte list option" where
  "env_get env k = (if name_ok k then getenv env k else None)"

definition env_put :: "byte list \<Rightarrow> byte list \<Rightarrow> env \<Rightarrow> env option" where
  "env_put k v env = (case setenv True True env (Some k) (Some v) True of Inl e \<Rightarrow> None | Inr env' \<Rightarrow> Some env')"

definition env_wf :: "env \<Rightarrow> bool" where
  "env_wf env \<longleftrightarrow> (\<forall>e\<in>set env. 61 \<in> set e)"

lemma env_replace_wf: "env_wf env \<Longrightarrow> 61 \<in> set s \<Longrightarrow> env_replace env s n = Some env' \<Longrightarrow> env_wf env'"
  by (induction env arbitrary: env') (auto simp: env_wf_def split: if_splits option.splits)

lemma putenv_wf: "env_wf env \<Longrightarrow> putenv ok env str = Inr env' \<Longrightarrow> env_wf env'"
  by (auto simp: putenv_def split: option.splits if_splits intro: env_replace_wf) (auto simp: env_wf_def)

lemma ename_assign [simp]: "61 \<notin> set n \<Longrightarrow> ename (n @ 61 # v) = n"
  by (auto simp: ename_def takeWhile_append)

lemma setenv_putenv:
  "name_ok n \<Longrightarrow> setenv ok1 ok2 env (Some n) (Some v) ow = Inr env' \<Longrightarrow>
   env' = env \<and> \<not> ow \<and> getenv env n \<noteq> None \<or> putenv ok2 env (Some (n @ 61 # v)) = Inr env'"
  by (auto simp: setenv_def split: if_splits)

interpretation env: dict env_wf env_get env_put
proof
  fix s s' :: env and k v
  assume wf: "env_wf s" and p: "env_put k v s = Some s'"
  have k: "name_ok k" using p by (auto simp: env_put_def setenv_def split: if_splits sum.splits)
  then have put: "putenv True s (Some (k @ 61 # v)) = Inr s'"
    using p by (auto simp: env_put_def setenv_def split: if_splits sum.splits)
  show "env_wf s'" using putenv_wf [OF wf put] .
  have "env_get s' n = ((env_get s)(k \<mapsto> v)) n" for n
    using getenv_putenv [OF put, of n] k by (auto simp: env_get_def name_ok_def)
  then show "env_get s' = (env_get s)(k \<mapsto> v)" by blast
qed

text \<open>
  C30: the environment behaves as a map: after a successful \<^verbatim>\<open>setenv\<close> the name has the new value (or
  keeps its value when overwriting was not asked for), after \<^verbatim>\<open>unsetenv\<close> it has none, and every
  other name keeps what it had.
\<close>

theorem environment_map:
  assumes "name_ok n" "name_ok k" "setenv ok1 ok2 env (Some n) (Some v) ow = Inr env'"
  shows "getenv env' k = (if k \<noteq> n then getenv env k
      else if \<not> ow \<and> getenv env n \<noteq> None then getenv env n else Some v) \<and>
    (\<exists>env''. unsetenv env' (Some n) = Inr env'' \<and> getenv env'' k = (if k = n then None else getenv env k))"
proof -
  have nk: "61 \<notin> set n" "61 \<notin> set k" using assms(1,2) by (auto simp: name_ok_def)
  have g: "getenv env' k = (if k \<noteq> n then getenv env k
      else if \<not> ow \<and> getenv env n \<noteq> None then getenv env n else Some v)"
    using setenv_putenv [OF assms(1,3)] getenv_putenv [of ok2 env "n @ 61 # v" env' k] nk assms(1,3)
    by (auto simp: setenv_def)
  moreover have "getenv (unset_loop env' n 0) k = (if k = n then None else getenv env' k)"
    using getenv_filter [OF nk(2,1)] by (simp add: unset_loop_filter)
  ultimately show ?thesis using assms(1) by (simp add: unsetenv_def)
qed

theorem environment_map_witness:
  "getenv [[97, 61, 49], [98, 61, 50]] [98] = Some [50] \<and>
   (\<exists>env''. unsetenv [[97, 61, 49], [98, 61, 50]] (Some [98]) = Inr env'' \<and> getenv env'' [98] = None)"
proof -
  have "name_ok [98]" "setenv True True [[97, 61, 49]] (Some [98]) (Some [50]) False = Inr [[97, 61, 49], [98, 61, 50]]"
    by (simp_all add: name_ok_def setenv_def putenv_def entry_is_def strncmp_eq_def)
  from environment_map [OF this(1,1,2)] show ?thesis by (simp add: entry_is_def strncmp_eq_def)
qed

section \<open>Exit handlers run in reverse order\<close>

definition slots_of :: "'f list \<Rightarrow> 'f slot list" where
  "slots_of fs = map (\<lambda>f. \<lparr>func = Some f, used = True\<rparr>) fs @ replicate (ATEXIT_MAX - length fs) \<lparr>func = None, used = False\<rparr>"

lemma take_slot_used: "take_slot (map (\<lambda>f. \<lparr>func = Some f, used = True\<rparr>) fs @ ss) g =
    map_option (\<lambda>ss'. map (\<lambda>f. \<lparr>func = Some f, used = True\<rparr>) fs @ ss') (take_slot ss g)"
  by (induction fs) (auto simp: option.map_ident split: option.splits)

lemmas take_slot_full = take_slot_used [of _ "[]", unfolded append_Nil2 take_slot.simps option.map]

lemma take_slot_slots_of:
  "length fs \<le> ATEXIT_MAX \<Longrightarrow>
   take_slot (slots_of fs) g = (if length fs < ATEXIT_MAX then Some (slots_of (fs @ [g])) else None)"
  by (cases "ATEXIT_MAX - length fs")
    (auto simp: slots_of_def take_slot_used take_slot_full dest: arg_cong [of _ "Suc _" "\<lambda>n. n - 1"])

lemma run_slots_of: "run_handlers (slots_of fs) = rev fs"
proof -
  have "concat (map (\<lambda>f. [f]) xs) = xs" for xs :: "'a list" by (induction xs) auto
  then show ?thesis by (simp add: run_handlers_def slots_of_def rev_map o_def)
qed

text \<open>The state after registering a list of functions in turn, and the results.\<close>

primrec register :: "'f list \<Rightarrow> 'f exit_state \<Rightarrow> int list \<times> 'f exit_state" where
  "register [] st = ([], st)"
| "register (f # fs) st =
     (let (r, st') = atexit (Some f) st; (rs, st'') = register fs st' in (r # rs, st''))"

lemma register_slots:
  "exit_handlers st = slots_of gs \<Longrightarrow> length gs \<le> ATEXIT_MAX \<Longrightarrow>
   fst (register fs st) = replicate (min (length fs) (ATEXIT_MAX - length gs)) 0 @
     replicate (length fs - (ATEXIT_MAX - length gs)) (- 1) \<and>
   exit_handlers (snd (register fs st)) = slots_of (gs @ take (ATEXIT_MAX - length gs) fs) \<and>
   quick_exit_handlers (snd (register fs st)) = quick_exit_handlers st"
proof (induction fs arbitrary: gs st)
  case (Cons f fs)
  show ?case
  proof (cases "length gs < ATEXIT_MAX")
    case True
    define st' where "st' = st\<lparr>exit_handlers := slots_of (gs @ [f]), exit_count := exit_count st + 1\<rparr>"
    have a: "atexit (Some f) st = (0, st')"
      using Cons.prems True by (simp add: atexit_def take_slot_slots_of st'_def)
    obtain n where n: "ATEXIT_MAX - length gs = Suc n" "ATEXIT_MAX - length (gs @ [f]) = n"
      using True by (cases "ATEXIT_MAX - length gs") auto
    have "length (gs @ [f]) \<le> ATEXIT_MAX" using True by simp
    with Cons.IH [of st' "gs @ [f]"] show ?thesis
      unfolding n by (simp add: a case_prod_beta st'_def)
  next
    case False
    then have "atexit (Some f) st = (- 1, st)"
      using Cons.prems by (simp add: atexit_def take_slot_slots_of)
    then show ?thesis using Cons.IH [OF Cons.prems] False by (simp add: case_prod_beta)
  qed
qed simp

text \<open>
  \<^verbatim>\<open>exit\<close> calls the registered handlers in the reverse order of their registration: of any
  sequence of \<^verbatim>\<open>atexit\<close> calls from the start of the program the first 32 return \<open>0\<close> and are run, the
  others return \<open>-1\<close> and are not; \<^verbatim>\<open>quick_exit\<close> runs none of them.
\<close>

theorem exit_runs_reverse:
  fixes fs :: "'f list"
  shows "fst (register fs exit_init) = replicate (min (length fs) 32) 0 @ replicate (length fs - 32) (- 1) \<and>
   exit (snd (register fs exit_init)) = rev (take 32 fs) \<and>
   quick_exit (snd (register fs exit_init)) = []"
proof -
  have "exit_handlers exit_init = slots_of ([] :: 'f list)" "quick_exit_handlers exit_init = slots_of ([] :: 'f list)"
    by (simp_all add: exit_init_def no_handlers_def slots_of_def)
  then show ?thesis using register_slots [of exit_init "[]" fs]
    by (simp add: exit_def quick_exit_def ATEXIT_MAX_def run_slots_of)
qed

section \<open>Suboptions\<close>

lemma subopt_search_value:
  "subopt_search seg ts i = Some (k, v) \<Longrightarrow> i \<le> k \<and> k < i + length ts \<and>
   (case v of None \<Rightarrow> seg = ts ! (k - i)
    | Some off \<Rightarrow> off = length (ts ! (k - i)) + 1 \<and> off \<le> length seg \<and>
        seg = ts ! (k - i) @ 61 # drop off seg)"
proof (induction ts arbitrary: i)
  case (Cons t ts)
  consider (here) "strncmp_eq seg t (length t)" "length t = length seg" "k = i" "v = None"
    | (val) "strncmp_eq seg t (length t)" "length t < length seg" "seg ! length t = 61" "k = i" "v = Some (length t + 1)"
    | (later) "subopt_search seg ts (i + 1) = Some (k, v)"
  proof -
    have l: "length t \<le> length seg" if "strncmp_eq seg t (length t)" using that by (simp add: strncmp_eq_def)
    have e: "subopt_search seg (t # ts) i =
        (if strncmp_eq seg t (length t) \<and> length t = length seg then Some (i, None)
         else if strncmp_eq seg t (length t) \<and> seg ! length t = 61 then Some (i, Some (length t + 1))
         else subopt_search seg ts (i + 1))"
      by (cases "strncmp_eq seg t (length t)") simp_all
    consider "strncmp_eq seg t (length t)" "length t = length seg"
      | "strncmp_eq seg t (length t)" "length t \<noteq> length seg" "seg ! length t = 61"
      | "\<not> (strncmp_eq seg t (length t) \<and> length t = length seg)" "\<not> (strncmp_eq seg t (length t) \<and> seg ! length t = 61)"
      by blast
    then show ?thesis
    proof cases
      case 1
      then show ?thesis using here Cons.prems unfolding e by simp
    next
      case c: 2
      then have "length t < length seg" using l by simp
      then show ?thesis using val Cons.prems c unfolding e by simp
    next
      case 3
      then show ?thesis using later Cons.prems unfolding e by (simp only: if_False)
    qed
  qed
  then show ?case
  proof cases
    case here
    then show ?thesis by (simp add: strncmp_eq_def)
  next
    case val
    then have "seg = t @ drop (length t) seg" by (metis append_take_drop_id order_refl strncmp_eq_def take_all)
    moreover have "drop (length t) seg = 61 # drop (Suc (length t)) seg" using val by (metis Cons_nth_drop_Suc)
    ultimately show ?thesis using val by simp
  next
    case later
    have "i + 1 \<le> k \<and> k < i + 1 + length ts \<and> (case v of None \<Rightarrow> seg = ts ! (k - (i + 1))
      | Some off \<Rightarrow> off = length (ts ! (k - (i + 1))) + 1 \<and> off \<le> length seg \<and> seg = ts ! (k - (i + 1)) @ 61 # drop off seg)"
      by (rule Cons.IH [OF later])
    then show ?thesis by (auto simp: nth_Cons' split: option.splits)
  qed
qed simp

text \<open>
  When \<^verbatim>\<open>getsubopt\<close> recognises a suboption with a value, the first suboption of the string is
  \<open>token=value\<close>; but since the code restores the comma it had overwritten, the string the value
  pointer designates goes on with the comma and all the remaining suboptions.
\<close>

theorem getsubopt_value_runs_on:
  assumes "getsubopt s tokens = (i, Some off, next)" "0 \<le> i"
  shows "\<exists>v. takeWhile (\<lambda>c. c \<noteq> 44) s = tokens ! nat i @ 61 # v \<and> nat i < length tokens \<and>
    drop off s = v @ dropWhile (\<lambda>c. c \<noteq> 44) s"
proof -
  let ?seg = "takeWhile (\<lambda>c. c \<noteq> 44) s"
  have "subopt_search ?seg tokens 0 = Some (nat i, Some off)"
    using assms by (auto simp: getsubopt_def Let_def split: option.splits)
  note sv = subopt_search_value [OF this, unfolded option.case diff_zero add_0]
  then have o: "off \<le> length ?seg" "?seg = tokens ! nat i @ 61 # drop off ?seg" "nat i < length tokens" by blast+
  have "drop off s = drop off (?seg @ dropWhile (\<lambda>c. c \<noteq> 44) s)" by simp
  also have "\<dots> = drop off ?seg @ dropWhile (\<lambda>c. c \<noteq> 44) s" using o(1) by (simp only: drop_append) simp
  finally show ?thesis using o by blast
qed

theorem getsubopt_value_runs_on_witness:
  "getsubopt [97, 61, 49, 44, 98] [[97]] = (0, Some 2, 4) \<and> drop 2 [97, 61, 49, 44, 98 :: byte] = [49, 44, 98]"
proof -
  have g: "getsubopt [97, 61, 49, 44, 98] [[97]] = (0, Some 2, 4)"
    by (simp add: getsubopt_def strncmp_eq_def)
  from getsubopt_value_runs_on [OF g] show ?thesis using g by auto
qed

section \<open>Temporary names\<close>

lemma suffix_char_alnum: "isalnum (uint (suffix_char seed))"
proof -
  define r where "r = unat (drop_bit 16 seed) mod 62"
  have "r < 62" by (simp add: r_def)
  then have "uint (suffix_char seed) = int (if r < 10 then 48 + r else if r < 36 then 65 + (r - 10) else 97 + (r - 36))"
    by (simp add: suffix_char_def Let_def r_def [symmetric] uint_nat unat_of_nat)
  then show ?thesis using \<open>r < 62\<close>
    by (auto simp: isalnum_def isalpha_def isupper_def islower_def isdigit_def split: if_splits)
qed

lemma gen_suffix_alnum: "length (gen_suffix n seed) = n \<and> list_all (\<lambda>c. isalnum (uint c)) (gen_suffix n seed)"
  by (induction n arbitrary: seed) (simp_all add: Let_def suffix_char_alnum)

lemma temp_loop_name:
  "temp_loop seeds op n k t = (Inr fd, name) \<Longrightarrow> 6 \<le> length t \<Longrightarrow>
   op name = Inr fd \<and> (\<exists>suf. name = take (length t - 6) t @ suf \<and> length suf = 6 \<and> list_all (\<lambda>c. isalnum (uint c)) suf)"
proof (induction seeds op n k t rule: temp_loop.induct)
  case (2 seeds op n k t)
  define nm where "nm = take (length t - 6) t @ gen_suffix 6 (seeds k)"
  have nm: "length nm = length t" "take (length nm - 6) nm = take (length t - 6) t"
    using 2(3) gen_suffix_alnum [of 6 "seeds k"] by (simp_all add: nm_def)
  show ?case
  proof (cases "op nm")
    case (Inl e)
    then have e: "e = EEXIST" and l: "temp_loop seeds op n (k + 1) nm = (Inr fd, name)"
      using 2(2) by (simp_all add: Let_def nm_def [symmetric] split: if_splits)
    have "op name = Inr fd \<and> (\<exists>suf. name = take (length nm - 6) nm @ suf \<and> length suf = 6 \<and> list_all (\<lambda>c. isalnum (uint c)) suf)"
      using 2(1) [OF nm_def Inl _ l] e 2(3) nm(1) by simp
    then show ?thesis unfolding nm(2) .
  next
    case (Inr fd')
    then have "fd' = fd" "nm = name" using 2(2) by (simp_all add: Let_def nm_def [symmetric])
    then show ?thesis using Inr gen_suffix_alnum [of 6 "seeds k"] nm_def by blast
  qed
qed simp

text \<open>
  When \<^verbatim>\<open>mkstemp\<close> succeeds it has opened exactly the name it leaves in the template: the
  template's prefix followed by six ASCII letters or digits; every other outcome is an error
  value, and a template that does not end in \<^verbatim>\<open>XXXXXX\<close> is rejected untouched.
\<close>

theorem mkstemp_name:
  "case mkstemp seeds op (Some t) of
     (Inr fd, Some name) \<Rightarrow> temp_ok t \<and> op name = Inr fd \<and>
       (\<exists>suf. name = take (length t - 6) t @ suf \<and> length suf = 6 \<and> list_all (\<lambda>c. isalnum (uint c)) suf)
   | (Inr fd, None) \<Rightarrow> False
   | (Inl e, n) \<Rightarrow> temp_ok t \<or> e = EINVAL \<and> n = Some t"
proof (cases "temp_ok t")
  case True
  obtain r name where l: "temp_loop seeds op TMP_MAX 0 t = (r, name)" by fastforce
  show ?thesis
  proof (cases r)
    case (Inr fd)
    have "6 \<le> length t" using True by (simp add: temp_ok_def)
    moreover have l': "temp_loop seeds op TMP_MAX 0 t = (Inr fd, name)" using l Inr by simp
    ultimately have "op name = Inr fd \<and>
      (\<exists>suf. name = take (length t - 6) t @ suf \<and> length suf = 6 \<and> list_all (\<lambda>c. isalnum (uint c)) suf)"
      using temp_loop_name by blast
    moreover have "mkstemp seeds op (Some t) = (Inr fd, Some name)" using l' True by (simp add: mkstemp_def)
    ultimately show ?thesis using True by (simp only: prod.case sum.case option.case simp_thms)
  qed (use l True in \<open>simp add: mkstemp_def\<close>)
qed (simp add: mkstemp_def)

end
