(* ===== verification/Rand.thy ===== *)
theory Rand
  imports CStr "HOL-Library.Signed_Division"
begin

text \<open>
  The arithmetic of \<^verbatim>\<open>include/stdlib.h\<close>: absolute value and division, the three random number
  generators, and the radix-64 notation.  Signed results are integers, with the width of the type
  as a parameter of \<^verbatim>\<open>abs\<close> and \<^verbatim>\<open>div\<close> (32 for \<^verbatim>\<open>int\<close>, 64 for \<^verbatim>\<open>long long\<close>).  The global
  variables of the generators are records.  \<^verbatim>\<open>erand48\<close> and \<^verbatim>\<open>drand48\<close> only divide the step's
  value by \<open>2\<^sup>48\<close> in floating point and are left out.
\<close>

unbundle bit_operations_syntax

section \<open>Absolute value and division\<close>


definition abs_int :: "int \<Rightarrow> int" where
  "abs_int n = (if n < 0 then - n else n)"

definition int_min :: "nat \<Rightarrow> int" where
  "int_min w = - (2 ^ (w - 1))"

text \<open>The pair \<open>(quot, rem)\<close> and the new \<^verbatim>\<open>errno\<close> when it is set.\<close>

definition div_int :: "nat \<Rightarrow> int \<Rightarrow> int \<Rightarrow> (int \<times> int) \<times> int option" where
  "div_int w n d =
     (if d = 0 then ((0, 0), Some EDOM)
      else if n = int_min w \<and> d = - 1 then ((int_min w, 0), None)
      else ((n sdiv d, n smod d), None))"

section \<open>\<^verbatim>\<open>rand\<close>\<close>

definition srand :: "u32 \<Rightarrow> u32" where
  "srand s = (if s \<noteq> 0 then s else 1)"

definition rand :: "u32 \<Rightarrow> u32 \<times> u32" where
  "rand seed = (let seed' = seed * 1103515245 + 12345 in (seed', drop_bit 16 seed' AND 0x7FFF))"

section \<open>The 48-bit generator\<close>

type_synonym u16x3 = "u16 \<times> u16 \<times> u16"

record rand48 =
  rand48_seed :: u16x3
  rand48_mult :: u16x3
  rand48_add :: u16
  rand48_oldseed :: u16x3

definition rand48_init :: rand48 where
  "rand48_init = \<lparr>rand48_seed = (0x330E, 0xABCD, 0x1234), rand48_mult = (0xE66D, 0xDEEC, 0x0005),
     rand48_add = 0x000B, rand48_oldseed = (0, 0, 0)\<rparr>"

definition val48 :: "u16x3 \<Rightarrow> u64" where
  "val48 xi = (case xi of (a, b, c) \<Rightarrow> ucast a OR push_bit 16 (ucast b) OR push_bit 32 (ucast c))"

definition rand48_step :: "u16x3 \<Rightarrow> u16x3 \<Rightarrow> u16 \<Rightarrow> u16x3 \<times> u64" where
  "rand48_step xi lc add =
     (let x = (val48 xi * val48 lc + ucast add) AND (push_bit 48 1 - 1)
      in ((ucast (x AND 0xFFFF), ucast (drop_bit 16 x AND 0xFFFF), ucast (drop_bit 32 x AND 0xFFFF)), x))"

definition nrand48 :: "u16x3 \<Rightarrow> rand48 \<Rightarrow> u16x3 \<times> int" where
  "nrand48 xi st =
     (case rand48_step xi (rand48_mult st) (rand48_add st) of (xi', x) \<Rightarrow> (xi', uint (drop_bit 17 x)))"

definition lrand48 :: "rand48 \<Rightarrow> rand48 \<times> int" where
  "lrand48 st = (case nrand48 (rand48_seed st) st of (xi, r) \<Rightarrow> (st\<lparr>rand48_seed := xi\<rparr>, r))"

definition jrand48 :: "u16x3 \<Rightarrow> rand48 \<Rightarrow> u16x3 \<times> int" where
  "jrand48 xi st =
     (case rand48_step xi (rand48_mult st) (rand48_add st) of
        (xi', x) \<Rightarrow> (xi', sint (ucast (drop_bit 16 x) :: u32)))"

definition mrand48 :: "rand48 \<Rightarrow> rand48 \<times> int" where
  "mrand48 st = (case jrand48 (rand48_seed st) st of (xi, r) \<Rightarrow> (st\<lparr>rand48_seed := xi\<rparr>, r))"

definition srand48 :: "u32 \<Rightarrow> rand48 \<Rightarrow> rand48" where
  "srand48 seedval st = st\<lparr>rand48_seed := (0x330E, ucast seedval, ucast (drop_bit 16 seedval)),
     rand48_mult := (0xE66D, 0xDEEC, 0x0005), rand48_add := 0x000B\<rparr>"

definition seed48 :: "u16x3 \<Rightarrow> rand48 \<Rightarrow> rand48 \<times> u16x3" where
  "seed48 seed16v st =
     (let st' = st\<lparr>rand48_oldseed := rand48_seed st, rand48_seed := seed16v\<rparr> in (st', rand48_oldseed st'))"

definition lcong48 :: "u16x3 \<Rightarrow> u16x3 \<Rightarrow> u16 \<Rightarrow> rand48 \<Rightarrow> rand48" where
  "lcong48 p012 p345 p6 st = st\<lparr>rand48_seed := p012, rand48_mult := p345, rand48_add := p6\<rparr>"

section \<open>The additive feedback generator\<close>

text \<open>
  The state arrays live in a store indexed by address; \<^verbatim>\<open>fptr\<close> and \<^verbatim>\<open>rptr\<close> point into the current
  array and are kept as offsets.
\<close>

record random_st =
  arrays :: "ptr \<Rightarrow> u32 list"
  state :: ptr
  fptr :: nat
  rptr :: nat

definition random_init :: "ptr \<Rightarrow> random_st" where
  "random_init p = \<lparr>arrays = (\<lambda>_. replicate 31 0), state = p, fptr = 3, rptr = 0\<rparr>"

definition bump :: "nat \<Rightarrow> nat" where
  "bump i = (if i + 1 \<ge> 31 then 0 else i + 1)"

text \<open>The value added to the array; \<^verbatim>\<open>random\<close> returns it without its lowest bit.\<close>

definition random_val :: "random_st \<Rightarrow> u32" where
  "random_val st = arrays st (state st) ! fptr st + arrays st (state st) ! rptr st"

definition random :: "random_st \<Rightarrow> random_st \<times> u32" where
  "random st =
     (let val = random_val st
      in (st\<lparr>arrays := (arrays st)(state st := (arrays st (state st))[fptr st := val]),
             fptr := bump (fptr st), rptr := bump (rptr st)\<rparr>, drop_bit 1 val))"

text \<open>The seeding loop: each word is 16807 times the previous one modulo \<open>2\<^sup>31 - 1\<close>.\<close>

primrec seed_words :: "nat \<Rightarrow> u32 \<Rightarrow> u32 list" where
  "seed_words 0 s = []"
| "seed_words (Suc n) s = s # seed_words n (of_nat ((16807 * unat s) mod 2147483647))"

definition srandom :: "u32 \<Rightarrow> random_st \<Rightarrow> random_st" where
  "srandom seed st =
     ((\<lambda>s. fst (random s)) ^^ 310)
       (st\<lparr>arrays := (arrays st)(state st := seed_words 31 seed @ drop 31 (arrays st (state st))), fptr := 3, rptr := 0\<rparr>)"

definition initstate :: "u32 \<Rightarrow> ptr \<Rightarrow> nat \<Rightarrow> random_st \<Rightarrow> (random_st \<times> ptr) option" where
  "initstate seed p n st =
     (if p = NULL \<or> n < 31 * 4 then None
      else
        let st1 = st\<lparr>arrays := (arrays st)(p := seed_words 31 seed @ drop 31 (arrays st p)),
                    state := p, fptr := 3, rptr := 0\<rparr>
        in Some (((\<lambda>s. fst (random s)) ^^ 310) st1, state st))"

definition setstate :: "ptr \<Rightarrow> random_st \<Rightarrow> (random_st \<times> ptr) option" where
  "setstate p st = (if p = NULL then None else Some (st\<lparr>state := p, fptr := 3, rptr := 0\<rparr>, state st))"

section \<open>Radix-64 notation\<close>

definition BASE64 :: "byte list" where
  "BASE64 = map of_nat ([46, 47] @ [48..<58] @ [65..<91] @ [97..<123])"

text \<open>\<^verbatim>\<open>strchr(BASE64, c) - BASE64\<close>, \<open>None\<close> when the character is not a digit.\<close>

definition digit64 :: "byte \<Rightarrow> nat option" where
  "digit64 c = (if c \<in> set BASE64 then Some (length (takeWhile (\<lambda>x. x \<noteq> c) BASE64)) else None)"

fun a64l_loop :: "nat \<Rightarrow> byte list \<Rightarrow> int \<Rightarrow> int \<Rightarrow> int" where
  "a64l_loop 0 s result mul = result"
| "a64l_loop (Suc n) [] result mul = result"
| "a64l_loop (Suc n) (c # s) result mul =
     (case digit64 c of None \<Rightarrow> result | Some d \<Rightarrow> a64l_loop n s (result + int d * mul) (mul * 64))"

definition a64l :: "byte list \<Rightarrow> int" where
  "a64l s = a64l_loop 6 s 0 1"

fun l64a_loop :: "nat \<Rightarrow> u64 \<Rightarrow> byte list" where
  "l64a_loop 0 v = []"
| "l64a_loop (Suc n) v = (if v = 0 then [] else BASE64 ! unat (v AND 0x3F) # l64a_loop n (drop_bit 6 v))"

definition l64a :: "int \<Rightarrow> byte list" where
  "l64a n = l64a_loop 6 (word_of_int n AND 0xFFFFFFFF)"

section \<open>Division\<close>

text \<open>
  For operands of width \<open>w\<close>, \<^verbatim>\<open>div\<close> (and \<^verbatim>\<open>ldiv\<close>, \<^verbatim>\<open>lldiv\<close>) sets \<^verbatim>\<open>EDOM\<close> exactly on a zero divisor, and
  otherwise returns a quotient and remainder that fit the type, satisfy
  \<open>quot * d + rem = n\<close> and \<open>|rem| < |d|\<close>, with the single wrapped case \<^verbatim>\<open>INT_MIN / -1\<close>.
\<close>

theorem div_int_correct:
  assumes "0 < w" "int_min w \<le> n" "n < - int_min w"
  shows "case div_int w n d of ((q, r), e) \<Rightarrow>
    if d = 0 then e = Some EDOM \<and> q = 0 \<and> r = 0
    else e = None \<and> \<bar>r\<bar> < \<bar>d\<bar> \<and> int_min w \<le> q \<and> q < - int_min w \<and>
      q * d + r = (if n = int_min w \<and> d = - 1 then - n else n)"
proof (cases "d = 0 \<or> n = int_min w \<and> d = - 1")
  case True
  then show ?thesis using assms by (auto simp: div_int_def int_min_def)
next
  case False
  have q: "- \<bar>n\<bar> \<le> n sdiv d" "n sdiv d \<le> \<bar>n\<bar>" using sdiv_int_range [of n d] by auto
  have "n sdiv d \<noteq> - int_min w"
  proof
    assume e: "n sdiv d = - int_min w"
    then have n: "n = int_min w" using q assms by (simp add: int_min_def)
    moreover have "n \<noteq> 0" using n by (simp add: int_min_def)
    ultimately show False using e False int_sdiv_negated_is_minus1 [of n d] by simp
  qed
  moreover have "\<bar>n smod d\<bar> < \<bar>d\<bar>" using smod_int_range [of d n] False by auto
  ultimately show ?thesis using False q assms sdiv_mult_smod_eq [of n d] by (auto simp: div_int_def int_min_def)
qed

theorem div_int_correct_witness: "\<exists>q r. div_int 32 (- 7) 2 = ((q, r), None) \<and> q * 2 + r = - 7 \<and> \<bar>r\<bar> < 2"
  using div_int_correct [of 32 "- 7" 2] by (auto simp: int_min_def split: prod.splits)

section \<open>The 48-bit generator is the linear congruence\<close>

lemma val48_split:
  fixes x :: u64
  assumes "x AND (push_bit 48 1 - 1) = x"
  shows "val48 (ucast (x AND 0xFFFF), ucast (drop_bit 16 x AND 0xFFFF), ucast (drop_bit 32 x AND 0xFFFF)) = x"
proof (rule bit_word_eqI)
  fix n assume n: "n < LENGTH(64)"
  have m48: "push_bit 48 1 - 1 = (mask 48 :: u64)" by (simp add: mask_eq_exp_minus_1)
  have m16: "0xFFFF = (mask 16 :: u64)" by (simp add: mask_eq_exp_minus_1)
  have hi: "bit x n \<Longrightarrow> n < 48" using assms unfolding m48 by (metis bit_and_iff bit_mask_iff)
  show "bit (val48 (ucast (x AND 0xFFFF), ucast (drop_bit 16 x AND 0xFFFF), ucast (drop_bit 32 x AND 0xFFFF))) n = bit x n"
    using n hi unfolding val48_def m16
    by (cases "n < 16"; cases "n < 32"; cases "n < 48")
      (auto simp: bit_or_iff bit_push_bit_iff bit_ucast_iff bit_and_iff bit_mask_iff bit_drop_bit_eq)
qed

lemma unat_widen: "unat (ucast (a :: u16) :: u64) = unat a"
proof -
  have "unat a < 2 ^ 64" using unsigned_less [of a, where 'a = nat] by simp
  then show ?thesis by (simp add: unsigned_ucast_eq take_bit_nat_eq_self)
qed

lemma unat_mask48: "unat ((v :: u64) AND (push_bit 48 1 - 1)) = unat v mod 2 ^ 48"
proof -
  have "push_bit 48 1 - 1 = (mask 48 :: u64)" by (simp add: mask_eq_exp_minus_1)
  then have "v AND (push_bit 48 1 - 1) = take_bit 48 v" by (simp only: take_bit_eq_mask)
  then have "unat (v AND (push_bit 48 1 - 1)) = take_bit 48 (unat v)" by (simp only: unsigned_take_bit_eq)
  then show ?thesis by (simp only: take_bit_eq_mod)
qed

text \<open>
  One step of the 48-bit generator computes \<open>x' = (m x + a) mod 2\<^sup>48\<close> on the number its three
  16-bit words denote, although the product overflows 64 bits, and stores the same number it
  returns; \<^verbatim>\<open>lrand48\<close> is \<open>x' div 2\<^sup>17\<close>, between \<open>0\<close> and \<open>2\<^sup>31 - 1\<close>.
\<close>

theorem rand48_congruence:
  "case rand48_step xi lc add of (xi', x) \<Rightarrow>
     val48 xi' = x \<and> unat x = (unat (val48 xi) * unat (val48 lc) + unat add) mod 2 ^ 48 \<and>
     snd (nrand48 xi (st\<lparr>rand48_mult := lc, rand48_add := add\<rparr>)) = int (unat x div 2 ^ 17) \<and> unat x div 2 ^ 17 < 2 ^ 31"
proof -
  define v :: u64 where "v = val48 xi * val48 lc + ucast add"
  define x :: u64 where "x = v AND (push_bit 48 1 - 1)"
  have x: "x AND (push_bit 48 1 - 1) = x" by (simp add: x_def and.assoc)
  have "unat v = (unat (val48 xi) * unat (val48 lc) + unat add) mod 2 ^ 64"
    unfolding v_def by (simp add: unat_word_ariths unat_widen mod_simps)
  then have u: "unat x = (unat (val48 xi) * unat (val48 lc) + unat add) mod 2 ^ 48"
    unfolding x_def unat_mask48 by (simp add: mod_mod_cancel)
  have "unat x < 2 ^ 48" unfolding u by simp
  then have "unat x div 2 ^ 17 < 2 ^ 31" by (simp add: div_less_iff_less_mult)
  moreover have "uint (drop_bit 17 x) = int (unat x div 2 ^ 17)"
    by (simp only: drop_bit_eq_div uint_div of_nat_div of_nat_unat) simp
  moreover have step: "rand48_step xi lc add =
      ((ucast (x AND 0xFFFF), ucast (drop_bit 16 x AND 0xFFFF), ucast (drop_bit 32 x AND 0xFFFF)), x)"
    by (simp only: rand48_step_def Let_def v_def x_def)
  moreover have "snd (nrand48 xi (st\<lparr>rand48_mult := lc, rand48_add := add\<rparr>)) = uint (drop_bit 17 x)"
    by (simp add: nrand48_def step)
  ultimately show ?thesis using val48_split [OF x] u by (simp only: prod.case simp_thms)
qed

section \<open>The additive feedback generator\<close>

definition random_ok :: "random_st \<Rightarrow> bool" where
  "random_ok st \<longleftrightarrow> length (arrays st (state st)) = 31 \<and> rptr st < 31 \<and> fptr st = (rptr st + 3) mod 31"

lemma bump_mod: "i < 31 \<Longrightarrow> bump i = (i + 1) mod 31"
  by (auto simp: bump_def mod_if)

lemma random_okD: "random_ok st \<Longrightarrow> fptr st < 31"
  by (simp add: random_ok_def)

lemma random_preserves: "random_ok st \<Longrightarrow> random_ok (fst (random st))"
  using bump_mod [of "rptr st"] bump_mod [of "fptr st"]
  by (auto simp: random_ok_def random_def Let_def mod_simps ac_simps)

lemma random_iterate: "random_ok st \<Longrightarrow> random_ok (((\<lambda>s. fst (random s)) ^^ n) st)"
  by (induction n) (simp_all add: random_preserves)

lemma length_seed_words [simp]: "length (seed_words n s) = n"
  by (induction n arbitrary: s) simp_all

text \<open>
  The state of \<^verbatim>\<open>random\<close> stays well formed under every call of the interface: the array in use
  has 31 words, both pointers are inside it, and they stay three words apart.  (The caller's
  buffers of \<^verbatim>\<open>initstate\<close> and \<^verbatim>\<open>setstate\<close> hold 31 words.)
\<close>

theorem random_state_invariant:
  assumes "random_ok st" "p \<noteq> NULL" "124 \<le> n" "length (arrays st p) = 31"
  shows "random_ok (fst (random st)) \<and> random_ok (srandom seed st) \<and>
    (\<exists>st' st''. initstate seed p n st = Some (st', state st) \<and> random_ok st' \<and>
       setstate p st = Some (st'', state st) \<and> random_ok st'')"
proof -
  have "random_ok (srandom seed st)"
    unfolding srandom_def using assms by (intro random_iterate) (simp add: random_ok_def)
  moreover have "random_ok (((\<lambda>s. fst (random s)) ^^ 310) (st\<lparr>arrays := (arrays st)(p := seed_words 31 seed @ drop 31 (arrays st p)),
                    state := p, fptr := 3, rptr := 0\<rparr>))"
    using assms by (intro random_iterate) (simp add: random_ok_def)
  ultimately show ?thesis
    using assms random_preserves by (simp add: initstate_def setstate_def Let_def random_ok_def)
qed

theorem random_state_invariant_witness:
  "random_ok (srandom 7 (random_init 4)) \<and> random_ok (fst (random (random_init 4)))"
proof -
  have "random_ok (random_init 4)" "length (arrays (random_init 4) 8) = 31" by (simp_all add: random_ok_def random_init_def)
  from random_state_invariant [OF this(1) _ _ this(2), of 124 7] show ?thesis by simp
qed

text \<open>The states of a run of \<^verbatim>\<open>random\<close> and the words it produces.\<close>

definition run :: "random_st \<Rightarrow> nat \<Rightarrow> random_st" where
  "run st n = ((\<lambda>s. fst (random s)) ^^ n) st"

definition word_at :: "random_st \<Rightarrow> nat \<Rightarrow> u32" where
  "word_at st n = random_val (run st n)"

lemma run_Suc: "run st (Suc n) = fst (random (run st n))"
  by (simp add: run_def)

lemma run_state [simp]: "state (run st n) = state st"
  by (induction n) (simp_all add: run_Suc random_def Let_def, simp add: run_def)

lemma run_ok: "random_ok st \<Longrightarrow> random_ok (run st n)"
  unfolding run_def by (rule random_iterate)

lemma run_fptr: "random_ok st \<Longrightarrow> fptr (run st n) = (fptr st + n) mod 31"
proof (induction n)
  case 0
  then show ?case using random_okD by (simp add: run_def)
next
  case (Suc n)
  then show ?case using bump_mod [of "fptr (run st n)"] random_okD [OF run_ok [OF Suc.prems, of n]]
    by (simp add: run_Suc random_def Let_def mod_simps)
qed

lemma run_array_Suc:
  "arrays (run st (Suc n)) (state st) = (arrays (run st n) (state st))[fptr (run st n) := word_at st n]"
  by (simp add: run_Suc random_def Let_def word_at_def)

lemma add_mod_neq: "(a :: nat) < 31 \<Longrightarrow> 0 < j \<Longrightarrow> j < 31 \<Longrightarrow> (a + j) mod 31 \<noteq> a"
  by (metis add_diff_cancel_left' diff_is_0_eq' less_imp_le_nat linorder_not_less mod_eq_0_iff_dvd
      mod_eq_dvd_iff_nat mod_less nat_dvd_not_less le_add1)

lemma back3: "(r::nat) < 31 \<Longrightarrow> (b + 31) mod 31 = (r + 3) mod 31 \<Longrightarrow> r = (b + 28) mod 31"
proof -
  assume r: "r < 31" and e: "(b + 31) mod 31 = (r + 3) mod 31"
  have "(b + 28) mod 31 = ((b + 31) mod 31 + 28) mod 31" by (simp add: mod_simps)
  also have "\<dots> = (r + 31) mod 31" unfolding e by (simp add: mod_simps)
  finally show ?thesis using r by simp
qed

text \<open>A word stays in its place for 31 steps.\<close>

lemma word_stays:
  assumes "random_ok st"
  shows "1 \<le> j \<Longrightarrow> j \<le> 31 \<Longrightarrow> arrays (run st (n + j)) (state st) ! fptr (run st n) = word_at st n"
proof (induction j)
  case (Suc j)
  have f: "fptr (run st n) < 31" using random_okD [OF run_ok [OF assms]] .
  have l: "length (arrays (run st (n + j)) (state st)) = 31" for j
    using run_ok [OF assms, of "n + j"] by (simp add: random_ok_def)
  show ?case
  proof (cases "j = 0")
    case True
    then show ?thesis using f l [of 0] by (simp add: run_array_Suc)
  next
    case False
    have "fptr (run st (n + j)) = (fptr (run st n) + j) mod 31"
      by (simp add: run_fptr [OF assms] mod_simps ac_simps)
    then have "fptr (run st (n + j)) \<noteq> fptr (run st n)" using add_mod_neq [OF f] False Suc.prems by simp
    then show ?thesis using Suc False by (simp add: run_array_Suc)
  qed
qed simp

text \<open>
  The words \<^verbatim>\<open>random\<close> produces satisfy the additive feedback recurrence
  \<open>x\<^sub>n\<^sub>+\<^sub>3\<^sub>1 = x\<^sub>n + x\<^sub>n\<^sub>+\<^sub>2\<^sub>8\<close> modulo \<open>2\<^sup>32\<close>, in which the two
  pointers walk the array cyclically; each call returns its word shifted right by one.
\<close>

theorem random_recurrence:
  assumes "random_ok st"
  shows "word_at st (n + 31) = word_at st n + word_at st (n + 28) \<and>
    snd (random (run st n)) = drop_bit 1 (word_at st n)"
proof -
  have r: "rptr (run st (n + 31)) = fptr (run st (n + 28))"
  proof -
    have "rptr (run st (n + 31)) < 31" and "fptr (run st (n + 31)) = (rptr (run st (n + 31)) + 3) mod 31"
      using run_ok [OF assms, of "n + 31"] by (simp_all add: random_ok_def)
    moreover have "fptr (run st (n + 31)) = (fptr st + n + 31) mod 31" "fptr (run st (n + 28)) = (fptr st + n + 28) mod 31"
      by (simp_all only: run_fptr [OF assms] add.assoc)
    ultimately show ?thesis using back3 [of "rptr (run st (n + 31))" "fptr st + n"] by simp
  qed
  have "fptr (run st (n + 31)) = fptr (run st n)"
    by (simp only: run_fptr [OF assms] mod_add_self2 flip: add.assoc)
  then have "arrays (run st (n + 31)) (state st) ! fptr (run st (n + 31)) = word_at st n"
    using word_stays [OF assms, of 31 n] by simp
  moreover have "arrays (run st (n + 31)) (state st) ! rptr (run st (n + 31)) = word_at st (n + 28)"
    using word_stays [OF assms, of 3 "n + 28"] r by (simp add: add.commute [of 31 n])
  ultimately show ?thesis by (simp add: word_at_def [of st "n + 31"] random_val_def)
     (simp add: random_def Let_def word_at_def)
qed

theorem random_recurrence_witness:
  "word_at (random_init 4) 31 = word_at (random_init 4) 0 + word_at (random_init 4) 28"
  using random_recurrence [of "random_init 4" 0] by (simp add: random_ok_def random_init_def)

text \<open>
  A program that never calls \<^verbatim>\<open>srandom\<close> draws only zeros: the default state is an array of
  zeros, where POSIX asks for the sequence of \<^verbatim>\<open>srandom(1)\<close>.
\<close>

theorem random_unseeded_zero: "snd (random (run (random_init p) n)) = 0"
proof -
  have "arrays (run (random_init p) n) p = replicate 31 0 \<and> random_ok (run (random_init p) n)"
  proof (induction n)
    case 0
    then show ?case by (simp add: run_def random_init_def random_ok_def)
  next
    case (Suc n)
    have s: "state (run (random_init p) n) = p" by (simp add: random_init_def)
    have f: "fptr (run (random_init p) n) < 31" "rptr (run (random_init p) n) < 31"
      using Suc random_okD by (auto simp: random_ok_def)
    have "random_val (run (random_init p) n) = 0" using Suc s f by (simp add: random_val_def)
    then have "arrays (run (random_init p) (Suc n)) p = replicate 31 0"
      using Suc s f by (simp add: run_Suc random_def Let_def list_update_same_conv)
    then show ?case using Suc random_preserves by (simp add: run_Suc)
  qed
  moreover have "state (run (random_init p) n) = p" by (simp add: random_init_def)
  ultimately show ?thesis using random_okD [of "run (random_init p) n"]
    by (simp add: random_def Let_def random_val_def random_ok_def)
qed

section \<open>Radix-64 notation\<close>

lemma length_BASE64 [simp]: "length BASE64 = 64"
  by (simp add: BASE64_def)

lemma digit64_BASE64:
  assumes "d < 64"
  shows "digit64 (BASE64 ! d) = Some d"
proof -
  have "distinct BASE64" unfolding BASE64_def by code_simp
  then have "takeWhile (\<lambda>x. x \<noteq> BASE64 ! d) BASE64 = take d BASE64"
    using assms by (intro takeWhile_eq_take_P_nth) (auto simp: nth_eq_iff_index_eq)
  then show ?thesis using assms by (simp add: digit64_def)
qed

lemma a64l_l64a_loop:
  "unat v < 64 ^ n \<Longrightarrow> a64l_loop n (l64a_loop n v) result mul = result + int (unat v) * mul"
proof (induction n arbitrary: v result mul)
  case 0
  then show ?case by simp
next
  case (Suc n)
  show ?case
  proof (cases "v = 0")
    case False
    have m: "(0x3F :: u64) = mask 6" by (simp add: mask_eq_exp_minus_1)
    have lo: "unat (v AND 0x3F) = unat v mod 64"
      unfolding m take_bit_eq_mask [symmetric] unsigned_take_bit_eq by (simp add: take_bit_eq_mod)
    have hi: "unat (drop_bit 6 v) = unat v div 64"
      by (simp only: drop_bit_eq_div unat_div) simp
    have "unat (drop_bit 6 v) < 64 ^ n" using Suc.prems unfolding hi by (simp add: less_mult_imp_div_less mult.commute)
    note IH = Suc.IH [OF this]
    have "int (unat v) = int (unat v mod 64) + 64 * int (unat v div 64)"
      by (metis mod_mult_div_eq of_nat_add of_nat_mult of_nat_numeral)
    then show ?thesis using False IH digit64_BASE64 [of "unat v mod 64"]
      by (simp add: lo hi algebra_simps)
  qed simp
qed

text \<open>
  \<^verbatim>\<open>a64l\<close> reads back what \<^verbatim>\<open>l64a\<close> writes: for every value of 32 bits the round trip is the identity.
\<close>

theorem a64l_l64a:
  assumes "0 \<le> n" "n < 2 ^ 32"
  shows "a64l (l64a n) = n"
proof -
  have m: "(0xFFFFFFFF :: u64) = mask 32" by (simp add: mask_eq_exp_minus_1)
  define v :: u64 where "v = word_of_int n AND 0xFFFFFFFF"
  have "uint v = n"
    unfolding v_def m take_bit_eq_mask [symmetric] using assms
    by (simp add: unsigned_take_bit_eq take_bit_int_eq_self unsigned_of_int)
  moreover have "a64l (l64a n) = int (unat v)"
    unfolding a64l_def l64a_def v_def [symmetric]
    using a64l_l64a_loop [of v 6 0 1] calculation assms by (simp add: unat_eq_nat_uint)
  ultimately show ?thesis by simp
qed

theorem a64l_l64a_witness: "a64l (l64a 123456789) = 123456789"
  by (rule a64l_l64a) simp_all

end
