(* ===== verification/Memory.thy ===== *)
theory Memory
  imports CMem Stdbit "HOL-Library.Monad_Syntax"
begin

text \<open>
  The allocator of \<^verbatim>\<open>include/core/memory.h\<close>, for a 64-bit \<^verbatim>\<open>size_t\<close>: a header is 24 bytes and a
  segment descriptor 288.

  The state is one record: the headers by address, the free-list links (the word a free block
  keeps at its payload address), the bytes of the user data, the list of segments (static heap
  first), the thread's arena window, the recycling stacks, and the outcomes of the coming
  system calls for memory (\<open>0\<close>: failure).  A free block, a link and user data share memory in the
  program; they are separate maps here, since a link is only read while its block is free.  The
  arguments of the public functions are 64-bit words and wrap as in C; offsets inside a segment
  are natural numbers.  The locks are the subject of \<open>Lock\<close>; here one thread runs.
\<close>

unbundle bit_operations_syntax

section \<open>State\<close>

definition HEAP_INIT :: nat where "HEAP_INIT = 262144"
definition HEAP_MAX :: nat where "HEAP_MAX = 1073741824"
definition HEAP_SEG :: nat where "HEAP_SEG = 1048576"
definition TLS_CHUNK :: u32 where "TLS_CHUNK = 4096"
definition ARENA_LIMIT :: nat where "ARENA_LIMIT = 65536"
definition HDR :: nat where "HDR = 24"
definition SEGHDR :: nat where "SEGHDR = 288"
definition HDR_ALLOC :: u64 where "HDR_ALLOC = 1"
definition HDR_ARENA :: u64 where "HDR_ARENA = 2"

lemmas mem_consts = HEAP_INIT_def HEAP_MAX_def HEAP_SEG_def TLS_CHUNK_def ARENA_LIMIT_def HDR_def
  SEGHDR_def HDR_ALLOC_def HDR_ARENA_def

record memhdr =
  hsize :: nat
  prev_size :: nat
  flags :: u64

record memseg =
  base :: nat
  ssize :: nat
  bins :: "nat list"
  bitmap :: u32

record heap =
  hdrs :: "nat \<Rightarrow> memhdr"
  links :: "nat \<Rightarrow> nat"
  bytes :: mem
  static_heap :: nat
  segs :: "memseg list"
  heap_current :: nat
  once :: bool
  tls_cursor :: u32
  tls_off :: nat
  tls_end :: nat
  recycling :: "nat list list"
  pages :: "nat list"
  errno :: int

section \<open>Size classes and rounding\<close>

text \<open>
  \<^verbatim>\<open>JACL_ALIGN_UP\<close> with an \<^verbatim>\<open>unsigned int\<close> alignment: the complemented mask has 32 bits and is
  extended with zeros.
\<close>

definition ALIGN_UP :: "u64 \<Rightarrow> u32 \<Rightarrow> u64" where
  "ALIGN_UP x a = (x + ucast (a - 1)) AND ucast (NOT (a - 1))"

definition round_size :: "u64 \<Rightarrow> u64" where
  "round_size sz =
     (if sz \<le> 128 then (sz + 7) AND ucast (NOT (7 :: u32))
      else if sz \<le> 512 then (sz + 15) AND ucast (NOT (15 :: u32))
      else ALIGN_UP sz 32)"

text \<open>The total size of a block for \<open>n\<close> bytes; the flag says whether \<^verbatim>\<open>errno\<close> is set.\<close>

definition alloc_need :: "u64 \<Rightarrow> u64 \<times> bool" where
  "alloc_need n0 =
     (let n = (if n0 = 0 then 1 else n0) in
      if n > - 1 - 24 then (0, True) else (round_size (n + 24), False))"

fun bin_loop :: "nat \<Rightarrow> nat \<Rightarrow> nat" where
  "bin_loop q i = (if q > 1 \<and> i < 31 then bin_loop (q div 2) (i + 1) else i)"

declare bin_loop.simps [simp del]

definition membin_get :: "nat \<Rightarrow> nat" where
  "membin_get sz =
     (let i = (if sz \<le> 128 then (sz + 7) div 8 else bin_loop (sz div 128) 16)
      in if i \<ge> 32 then 31 else i)"

section \<open>The bins of a segment\<close>

definition unsafe_off :: "memseg \<Rightarrow> nat \<Rightarrow> bool" where
  "unsafe_off seg off \<longleftrightarrow> off \<ge> ssize seg \<or> off + HDR > ssize seg"

definition set_bin :: "nat \<Rightarrow> nat \<Rightarrow> memseg \<Rightarrow> memseg" where
  "set_bin i off seg = seg\<lparr>bins := (bins seg)[i := off]\<rparr>"

definition clear_bit :: "nat \<Rightarrow> memseg \<Rightarrow> memseg" where
  "clear_bit i seg = seg\<lparr>bitmap := bitmap seg AND NOT (push_bit i 1)\<rparr>"

definition membin_pop :: "(nat \<Rightarrow> nat) \<Rightarrow> memseg \<Rightarrow> nat \<Rightarrow> memseg \<times> nat" where
  "membin_pop lk seg need =
     (let m = bitmap seg AND push_bit (membin_get need) (NOT 0) in
      if m = 0 then (seg, 0)
      else
        let i = ctz32 m; off = bins seg ! i in
        if off = 0 then (clear_bit i seg, 0)
        else if unsafe_off seg off then (seg, 0)
        else
          let p = base seg + off + HDR in
          if p < base seg + HDR \<or> p > base seg + ssize seg - 8 then (clear_bit i (set_bin i 0 seg), 0)
          else
            let seg1 = set_bin i (lk p) seg in
            (if lk p = 0 then clear_bit i seg1 else seg1, off))"

definition membin_push :: "(nat \<Rightarrow> memhdr) \<Rightarrow> (nat \<Rightarrow> nat) \<Rightarrow> memseg \<Rightarrow> nat \<Rightarrow> memseg \<times> (nat \<Rightarrow> nat)" where
  "membin_push hs lk seg off =
     (let i = membin_get (hsize (hs (base seg + off))) in
      if unsafe_off seg off then (seg, lk)
      else ((set_bin i off seg)\<lparr>bitmap := bitmap seg OR push_bit i 1\<rparr>,
            lk(base seg + off + HDR := bins seg ! i)))"

text \<open>The walk of \<^verbatim>\<open>__jacl_membin_remove\<close> after the head of the list: \<open>None\<close> on a cyclic list.\<close>

partial_function (option) unlink_loop :: "(nat \<Rightarrow> nat) \<Rightarrow> nat \<Rightarrow> nat \<Rightarrow> nat \<Rightarrow> (nat \<Rightarrow> nat) option" where
  [code]: "unlink_loop lk b cur off =
     (if cur = 0 then Some lk
      else
        let next = lk (b + cur + HDR) in
        if next = off then Some (lk(b + cur + HDR := lk (b + off + HDR)))
        else unlink_loop lk b next off)"

definition membin_remove :: "(nat \<Rightarrow> memhdr) \<Rightarrow> (nat \<Rightarrow> nat) \<Rightarrow> memseg \<Rightarrow> nat \<Rightarrow> (memseg \<times> (nat \<Rightarrow> nat)) option" where
  "membin_remove hs lk seg off =
     (let i = membin_get (hsize (hs (base seg + off))); cur = bins seg ! i in
      if unsafe_off seg off then Some (seg, lk)
      else do {
        (seg1, lk1) \<leftarrow>
          (if cur = off then Some (set_bin i (lk (base seg + off + HDR)) seg, lk)
           else do { lk1 \<leftarrow> unlink_loop lk (base seg) cur off; Some (seg, lk1) });
        Some (if bins seg1 ! i = 0 then clear_bit i seg1 else seg1, lk1)
      })"

section \<open>Initialisation and growth\<close>

definition seg_push :: "heap \<Rightarrow> nat \<Rightarrow> nat \<Rightarrow> heap" where
  "seg_push h k off =
     (case membin_push (hdrs h) (links h) (segs h ! k) off of
        (seg, lk) \<Rightarrow> h\<lparr>segs := (segs h)[k := seg], links := lk\<rparr>)"

definition empty_seg :: "nat \<Rightarrow> nat \<Rightarrow> memseg" where
  "empty_seg b n = \<lparr>base = b, ssize = n, bins = replicate 32 0, bitmap = 0\<rparr>"

definition membin_init :: "heap \<Rightarrow> heap" where
  "membin_init h =
     (if once h then h
      else
        let h1 = h\<lparr>once := True, recycling := replicate 4 [],
                   segs := [empty_seg (static_heap h) HEAP_INIT], tls_cursor := 0\<rparr>;
            b = unat (ALIGN_UP (of_nat (HEAP_INIT div 4)) 8)
        in if b + HDR < HEAP_INIT then
             seg_push (h1\<lparr>hdrs := (hdrs h1)(static_heap h + b :=
                 \<lparr>hsize = HEAP_INIT - b, prev_size = 0, flags = 0\<rparr>)\<rparr>) 0 b
           else h1)"

definition heap_start :: "nat \<Rightarrow> nat list \<Rightarrow> heap" where
  "heap_start sb pgs =
     \<lparr>hdrs = (\<lambda>_. \<lparr>hsize = 0, prev_size = 0, flags = 0\<rparr>), links = (\<lambda>_. 0), bytes = (\<lambda>_. 0),
      static_heap = sb, segs = [], heap_current = HEAP_INIT, once = False, tls_cursor = 0, tls_off = 0, tls_end = 0,
      recycling = replicate 4 [], pages = pgs, errno = 0\<rparr>"

fun memseg_find :: "memseg list \<Rightarrow> nat \<Rightarrow> nat option" where
  "memseg_find [] p = None"
| "memseg_find (seg # ss) p =
     (if p \<ge> base seg \<and> p < base seg + ssize seg then Some 0
      else case memseg_find ss p of None \<Rightarrow> None | Some k \<Rightarrow> Some (k + 1))"

definition tls_refill :: "heap \<Rightarrow> heap \<times> bool" where
  "tls_refill h =
     (let cur = tls_cursor h; h1 = h\<lparr>tls_cursor := cur + TLS_CHUNK\<rparr> in
      if unat cur \<ge> ARENA_LIMIT then (h1, False)
      else
        let available = (if unat cur + unat TLS_CHUNK > ARENA_LIMIT then ARENA_LIMIT - unat cur else unat TLS_CHUNK) in
        if available < 64 then (h1, False)
        else (h1\<lparr>tls_off := unat (ALIGN_UP (ucast cur) 8), tls_end := unat cur + available\<rparr>, True))"

text \<open>\<open>segment\<close> covers \<^verbatim>\<open>__jacl_segment\<close>, \<^verbatim>\<open>__jacl_segment_init\<close> and \<^verbatim>\<open>__jacl_segment_link\<close> for a non-null address.\<close>

definition segment :: "nat \<Rightarrow> nat \<Rightarrow> heap \<Rightarrow> heap" where
  "segment mem seg_size h =
     (let seg = empty_seg (mem + SEGHDR) (seg_size - SEGHDR);
          h1 = h\<lparr>segs := segs h @ [seg],
                 hdrs := (hdrs h)(base seg + HDR := \<lparr>hsize = ssize seg - HDR, prev_size = 0, flags = 0\<rparr>)\<rparr>;
          h2 = seg_push h1 (length (segs h)) HDR
      in h2\<lparr>heap_current := heap_current h + seg_size\<rparr>)"

definition grow_check :: "heap \<Rightarrow> bool" where
  "grow_check h \<longleftrightarrow> HEAP_MAX \<noteq> HEAP_INIT \<and> heap_current h < HEAP_MAX"

definition grow_size :: "heap \<Rightarrow> nat \<Rightarrow> nat" where
  "grow_size h need =
     (let seg_size = (if need > HEAP_SEG then unat (ALIGN_UP (of_nat need) 4096) else HEAP_SEG) in
      if heap_current h + seg_size > HEAP_MAX then
        (if HEAP_MAX - heap_current h < need then 0 else HEAP_MAX - heap_current h)
      else seg_size)"

text \<open>The new segment's index, or \<open>None\<close>; the next element of \<^const>\<open>pages\<close> is what the system answers.\<close>

definition grow_heap :: "heap \<Rightarrow> nat \<Rightarrow> heap \<times> nat option" where
  "grow_heap h need =
     (if \<not> grow_check h then (h, None)
      else
        let seg_size = grow_size h need in
        if seg_size = 0 then (h, None)
        else case pages h of
          [] \<Rightarrow> (h, None)
        | mem # ps \<Rightarrow>
            if mem = 0 then (h\<lparr>pages := ps\<rparr>, None)
            else (segment mem seg_size (h\<lparr>pages := ps\<rparr>), Some (length (segs h))))"

section \<open>Allocation\<close>

definition set_flags :: "nat \<Rightarrow> u64 \<Rightarrow> heap \<Rightarrow> heap" where
  "set_flags a f h = h\<lparr>hdrs := (hdrs h)(a := (hdrs h a)\<lparr>flags := f\<rparr>)\<rparr>"

definition alloc_recycle :: "heap \<Rightarrow> nat \<Rightarrow> heap \<times> nat" where
  "alloc_recycle h n =
     (if n < 16 \<or> n > 48 then (h, 0)
      else
        let rbin = ((n + 7) div 8 * 8) div 8 - 2 in
        if rbin < 4 \<and> recycling h ! rbin \<noteq> [] then
          let p = last (recycling h ! rbin) in
          (set_flags (p - HDR) HDR_ALLOC (h\<lparr>recycling := (recycling h)[rbin := butlast (recycling h ! rbin)]\<rparr>), p)
        else (h, 0))"

definition alloc_arena :: "heap \<Rightarrow> nat \<Rightarrow> nat \<Rightarrow> heap \<times> nat" where
  "alloc_arena h n need =
     (if n > 128 then (h, 0)
      else
        let (h1, can) = (if tls_off h + need \<le> tls_end h then (h, True) else tls_refill h) in
        if tls_off h1 + need > ARENA_LIMIT \<or> \<not> can then (h1, 0)
        else
          let a = static_heap h1 + tls_off h1 in
          (h1\<lparr>hdrs := (hdrs h1)(a := \<lparr>hsize = need, prev_size = 0, flags = HDR_ALLOC OR HDR_ARENA\<rparr>),
              tls_off := tls_off h1 + need\<rparr>, a + HDR))"

text \<open>One iteration of the loop of \<^verbatim>\<open>__jacl_alloc_bins\<close> on segment \<open>k\<close>; \<open>0\<close> means go on to the next segment.\<close>

definition alloc_seg :: "heap \<Rightarrow> nat \<Rightarrow> nat \<Rightarrow> heap \<times> nat" where
  "alloc_seg h k need =
     (let (seg, off) = membin_pop (links h) (segs h ! k) need;
          h1 = h\<lparr>segs := (segs h)[k := seg]\<rparr>;
          a = base seg + off
      in if off = 0 then (h1, 0)
         else if hsize (hdrs h1 a) < need then (seg_push h1 k off, 0)
         else
           let h2 = (if hsize (hdrs h1 a) \<ge> need + HDR + 8 then
                       seg_push (h1\<lparr>hdrs := (hdrs h1)
                           (a + need := \<lparr>hsize = hsize (hdrs h1 a) - need, prev_size = need, flags = 0\<rparr>,
                            a := (hdrs h1 a)\<lparr>hsize := need\<rparr>)\<rparr>) k (off + need)
                     else h1);
               sz = hsize (hdrs h2 a);
               h3 = (if off + sz < ssize seg then
                       h2\<lparr>hdrs := (hdrs h2)(a + sz := (hdrs h2 (a + sz))\<lparr>prev_size := sz\<rparr>)\<rparr>
                     else h2)
           in (set_flags a HDR_ALLOC h3, a + HDR))"

primrec alloc_bins :: "nat \<Rightarrow> heap \<Rightarrow> nat \<Rightarrow> nat \<Rightarrow> heap \<times> nat" where
  "alloc_bins 0 h k need = (h, 0)"
| "alloc_bins (Suc n) h k need =
     (case alloc_seg h k need of (h1, p) \<Rightarrow> if p \<noteq> 0 then (h1, p) else alloc_bins n h1 (k + 1) need)"

text \<open>
  The three assertions in \<^verbatim>\<open>malloc\<close> between the arena and the bins are not repeated here: they hold in every state in which the window of the
  thread is in order (\<open>malloc_asserts\<close>).
\<close>

definition malloc :: "u64 \<Rightarrow> heap \<Rightarrow> heap \<times> nat" where
  "malloc n h0 =
     (case alloc_need n of (need, e) \<Rightarrow>
      if need = 0 then (if e then h0\<lparr>errno := ENOMEM\<rparr> else h0, 0)
      else
        let h1 = membin_init h0; (h2, p) = alloc_recycle h1 (unat n) in
        if p \<noteq> 0 then (h2, p)
        else
          let (h3, p) = alloc_arena h2 (unat n) (unat need) in
          if p \<noteq> 0 then (h3, p)
          else
            let (h4, p) = alloc_bins (length (segs h3)) h3 0 (unat need) in
            if p \<noteq> 0 then (h4, p)
            else
              let (h5, s) = grow_heap h4 (unat need);
                  (h6, p) = (case s of None \<Rightarrow> (h5, 0) | Some k \<Rightarrow> alloc_bins 1 h5 k (unat need))
              in if p \<noteq> 0 then (h6, p) else (h6\<lparr>errno := ENOMEM\<rparr>, 0))"

section \<open>Deallocation\<close>

definition free_arena :: "heap \<Rightarrow> nat \<Rightarrow> heap \<times> bool" where
  "free_arena h p =
     (let f = flags (hdrs h (p - HDR)) in
      if f AND HDR_ARENA \<noteq> 0 then
        (if f AND HDR_ALLOC \<noteq> 0 then set_flags (p - HDR) 0 h else h, True)
      else (h, False))"

definition free_recycle :: "heap \<Rightarrow> nat \<Rightarrow> nat \<Rightarrow> heap \<times> bool" where
  "free_recycle h p n =
     (if n < 16 \<or> n > 48 then (h, False)
      else
        let rbin = n div 8 - 2 in
        if rbin < 4 \<and> length (recycling h ! rbin) < 12 then
          ((set_flags (p - HDR) 0 h)\<lparr>recycling := (recycling h)[rbin := recycling h ! rbin @ [p]]\<rparr>, True)
        else (h, False))"

definition seg_remove :: "heap \<Rightarrow> nat \<Rightarrow> nat \<Rightarrow> heap option" where
  "seg_remove h k off = do {
     (seg, lk) \<leftarrow> membin_remove (hdrs h) (links h) (segs h ! k) off;
     Some (h\<lparr>segs := (segs h)[k := seg], links := lk\<rparr>)
   }"

definition set_prev :: "nat \<Rightarrow> nat \<Rightarrow> heap \<Rightarrow> heap" where
  "set_prev a n h = h\<lparr>hdrs := (hdrs h)(a := (hdrs h a)\<lparr>prev_size := n\<rparr>)\<rparr>"

definition set_size :: "nat \<Rightarrow> nat \<Rightarrow> heap \<Rightarrow> heap" where
  "set_size a n h = h\<lparr>hdrs := (hdrs h)(a := (hdrs h a)\<lparr>hsize := n\<rparr>)\<rparr>"

definition coalesce_next :: "heap \<Rightarrow> nat \<Rightarrow> nat \<Rightarrow> heap option" where
  "coalesce_next h k off =
     (let seg = segs h ! k; a = base seg + off; next_off = off + hsize (hdrs h a) in
      if next_off < ssize seg \<and> flags (hdrs h (base seg + next_off)) AND HDR_ALLOC = 0 then do {
        h1 \<leftarrow> seg_remove h k next_off;
        let sz = hsize (hdrs h1 a) + hsize (hdrs h1 (base seg + next_off));
        let h2 = set_size a sz h1;
        Some (if off + sz < ssize seg then set_prev (base seg + (off + sz)) sz h2 else h2)
      } else Some h)"

definition coalesce_prev :: "heap \<Rightarrow> nat \<Rightarrow> nat \<Rightarrow> (heap \<times> nat) option" where
  "coalesce_prev h k off =
     (let seg = segs h ! k; a = base seg + off; ps = prev_size (hdrs h a) in
      if off > 0 \<and> ps > 0 \<and> ps \<le> off \<and> off - ps + HDR \<le> ssize seg \<and>
         flags (hdrs h (base seg + (off - ps))) AND HDR_ALLOC = 0 then do {
        let prev_off = off - ps;
        h1 \<leftarrow> seg_remove h k prev_off;
        let sz = hsize (hdrs h1 (base seg + prev_off)) + hsize (hdrs h1 a);
        let h2 = set_size (base seg + prev_off) sz h1;
        Some (if prev_off + sz < ssize seg then set_prev (base seg + (prev_off + sz)) sz h2 else h2, prev_off)
      } else Some (h, off))"

definition free_coalesce :: "heap \<Rightarrow> nat \<Rightarrow> nat \<Rightarrow> heap option" where
  "free_coalesce h k off =
     (if hsize (hdrs h (base (segs h ! k) + off)) \<ge> 1024 then do {
        h1 \<leftarrow> coalesce_next h k off;
        (h2, off2) \<leftarrow> coalesce_prev h1 k off;
        Some (seg_push h2 k off2)
      } else Some (seg_push h k off))"

text \<open>
  The word before \<open>p\<close>, where \<^verbatim>\<open>__jacl_free_aligned\<close> looks for the pointer \<open>orig\<close> that
  \<^verbatim>\<open>aligned_alloc\<close> left there, is the \<^const>\<open>flags\<close> field of the header address \<open>p - HDR\<close>.  That path is
  taken only when \<open>p\<close> lies in no segment.
\<close>

definition free :: "nat \<Rightarrow> heap \<Rightarrow> heap option" where
  "free p h =
     (if p = 0 then Some h
      else
        let (h1, ar) = free_arena h p; orig = unat (flags (hdrs h1 (p - HDR))) in
        if ar then Some h1
        else
          case (case memseg_find (segs h1) (p - HDR) of
                  Some k \<Rightarrow> Some (p, k)
                | None \<Rightarrow> if orig = 0 \<or> orig mod 8 \<noteq> 0 then None
                          else case memseg_find (segs h1) (orig - HDR) of
                                 None \<Rightarrow> None | Some k \<Rightarrow> Some (orig, k)) of
            None \<Rightarrow> Some h1
          | Some (q, k) \<Rightarrow>
              let hq = hdrs h1 (q - HDR) in
              if flags hq AND HDR_ALLOC = 0 then Some h1
              else
                let (h2, rc) = free_recycle h1 q (hsize hq - HDR) in
                if rc then Some h2
                else free_coalesce (set_flags (q - HDR) 0 h2) k (q - HDR - base (segs h1 ! k)))"

section \<open>The other public functions\<close>

definition calloc :: "u64 \<Rightarrow> u64 \<Rightarrow> heap \<Rightarrow> heap \<times> nat" where
  "calloc nmemb sz h =
     (if nmemb \<noteq> 0 \<and> sz > (- 1) div nmemb then (h\<lparr>errno := ENOMEM\<rparr>, 0)
      else
        let total = nmemb * sz; (h1, p) = malloc total h in
        (if p \<noteq> 0 then h1\<lparr>bytes := fst (memset (bytes h1) p 0 (unat total))\<rparr> else h1, p))"

definition realloc :: "nat \<Rightarrow> u64 \<Rightarrow> heap \<Rightarrow> (heap \<times> nat) option" where
  "realloc p sz h =
     (if p = 0 then Some (malloc sz h)
      else if sz = 0 then do { h1 \<leftarrow> free p h; Some (h1, 0) }
      else
        let a = p - HDR; old_total = hsize (hdrs h a); old_data = old_total - HDR in
        if unat sz \<le> old_data then Some (h, p)
        else
          let arena = (flags (hdrs h a) AND HDR_ARENA \<noteq> 0);
              (new_total, e) = (if arena then alloc_need sz else (0, False));
              h0 = (if e then h\<lparr>errno := ENOMEM\<rparr> else h);
              growth = new_total - of_nat old_total
          in if arena \<and> a + old_total = static_heap h + tls_off h \<and>
                unat (of_nat (tls_off h) + growth) \<le> tls_end h then
               Some ((set_size a (unat new_total) h0)\<lparr>tls_off := unat (of_nat (tls_off h) + ucast growth :: u32)\<rparr>, p)
             else
               let (h1, q) = malloc sz h0 in
               if q = 0 then Some (h1, 0)
               else
                 let h2 = h1\<lparr>bytes := fst (memcpy (bytes h1) q p old_data)\<rparr> in
                 if arena then Some (h2, q) else do { h3 \<leftarrow> free p h2; Some (h3, q) })"

definition pow2_bad :: "u64 \<Rightarrow> bool" where
  "pow2_bad a \<longleftrightarrow> a AND (a - 1) \<noteq> 0"

definition aligned_alloc :: "u64 \<Rightarrow> u64 \<Rightarrow> heap \<Rightarrow> heap \<times> nat" where
  "aligned_alloc al sz h =
     (if al = 0 \<or> pow2_bad al \<or> sz mod al \<noteq> 0 then (h\<lparr>errno := EINVAL\<rparr>, 0)
      else if al \<le> 8 then malloc sz h
      else
        let (h1, raw) = malloc (sz + (al + 8)) h in
        if raw = 0 then (h1, 0)
        else
          let ap = unat ((of_nat raw + 8 + (al - 1)) AND NOT (al - 1))
          in (set_flags (ap - HDR) (of_nat raw) h1, ap))"

definition posix_memalign :: "u64 \<Rightarrow> u64 \<Rightarrow> heap \<Rightarrow> heap \<times> int \<times> nat" where
  "posix_memalign al sz h =
     (if al < 8 \<or> pow2_bad al then (h, EINVAL, 0)
      else
        let s0 = (sz + al - 1) AND NOT (al - 1);
            s = (if s0 = 0 then al else s0);
            (h1, p) = aligned_alloc al s h
        in if p = 0 then (h1, ENOMEM, 0) else (h1, 0, p))"

definition reallocarray :: "nat \<Rightarrow> u64 \<Rightarrow> u64 \<Rightarrow> heap \<Rightarrow> (heap \<times> nat) option" where
  "reallocarray p nmemb sz h =
     (if nmemb \<noteq> 0 \<and> sz > (- 1) div nmemb then Some (h\<lparr>errno := ENOMEM\<rparr>, 0)
      else realloc p (nmemb * sz) h)"

section \<open>Size classes\<close>

lemma bin_loop_ge: "i \<le> bin_loop q i"
  by (induction q i rule: bin_loop.induct) (subst bin_loop.simps, auto)

lemma bin_loop_le: "i \<le> 31 \<Longrightarrow> bin_loop q i \<le> 31"
  by (induction q i rule: bin_loop.induct) (subst bin_loop.simps, auto)

lemma bin_loop_mono: "q \<le> q' \<Longrightarrow> bin_loop q i \<le> bin_loop q' i"
proof (induction q' i arbitrary: q rule: bin_loop.induct)
  case (1 q' i)
  show ?case
  proof (cases "q > 1 \<and> i < 31")
    case True
    then have "bin_loop (q div 2) (i + 1) \<le> bin_loop (q' div 2) (i + 1)"
      using 1 by (simp add: div_le_mono)
    then show ?thesis using True 1(2) by (simp add: bin_loop.simps [of q i] bin_loop.simps [of q' i])
  next
    case False
    then have "bin_loop q i = i" by (subst bin_loop.simps) auto
    then show ?thesis using bin_loop_ge by simp
  qed
qed

lemma membin_get_less: "membin_get sz < 32"
  using bin_loop_le [of 16 "sz div 128"] by (auto simp: membin_get_def Let_def)

lemma membin_get_mono: "sz \<le> sz' \<Longrightarrow> membin_get sz \<le> membin_get sz'"
proof -
  assume le: "sz \<le> sz'"
  have b: "bin_loop (sz div 128) 16 \<le> bin_loop (sz' div 128) 16"
    using le by (intro bin_loop_mono div_le_mono)
  have g: "16 \<le> bin_loop (sz' div 128) 16" "bin_loop (sz' div 128) 16 \<le> 31"
    using bin_loop_ge [of 16] bin_loop_le [of 16] by auto
  have d: "(sz + 7) div 8 \<le> (sz' + 7) div 8" using le by (intro div_le_mono) simp
  have s: "sz \<le> 128 \<Longrightarrow> (sz + 7) div 8 \<le> 16" "sz' \<le> 128 \<Longrightarrow> (sz' + 7) div 8 \<le> 16" by linarith+
  show ?thesis using le b g d s by (auto simp: membin_get_def Let_def)
qed

section \<open>Rounding\<close>

lemma and_low_mask:
  fixes x :: u64
  assumes "unat x < 2 ^ 32" "k < 32"
  shows "unat (x AND ucast (NOT (mask k :: u32))) = unat x div 2 ^ k * 2 ^ k"
proof -
  have hi: "\<not> bit x n" if "32 \<le> n" for n
  proof -
    have "take_bit 32 x = x"
      using assms(1) by (simp add: word_unat_eq_iff unsigned_take_bit_eq take_bit_nat_eq_self)
    then show ?thesis using that by (metis bit_take_bit_iff linorder_not_less)
  qed
  have "x AND ucast (NOT (mask k :: u32)) = push_bit k (drop_bit k x)"
  proof (rule bit_word_eqI)
    fix n assume n: "n < LENGTH(64)"
    show "bit (x AND ucast (NOT (mask k :: u32))) n = bit (push_bit k (drop_bit k x)) n"
      using hi [of n] n
      by (cases "k \<le> n"; cases "n < 32")
        (auto simp: bit_and_iff bit_ucast_iff bit_not_iff bit_mask_iff bit_push_bit_iff bit_drop_bit_eq)
  qed
  also have "unat \<dots> = unat x div 2 ^ k * 2 ^ k"
  proof -
    have "unat (drop_bit k x) = drop_bit k (take_bit LENGTH(64) (unat x))" by (rule unsigned_drop_bit_eq)
    then have "unat (drop_bit k x) = unat x div 2 ^ k"
      by (simp only: take_bit_nat_eq_self [OF unsigned_less] drop_bit_eq_div)
    moreover have "unat x div 2 ^ k * 2 ^ k < 2 ^ 64"
      using assms(1) by (intro le_less_trans [OF div_times_less_eq_dividend]) simp
    moreover have "unat (push_bit k (drop_bit k x)) = take_bit LENGTH(64) (push_bit k (unat (drop_bit k x)))"
      by (rule unsigned_push_bit_eq)
    ultimately show ?thesis by (simp only: push_bit_eq_mult) (simp add: take_bit_nat_eq_self)
  qed
  finally show ?thesis .
qed


lemma round_size_spec:
  assumes "unat sz < 2 ^ 32 - 32"
  shows "unat sz \<le> unat (round_size sz) \<and> unat (round_size sz) < unat sz + 32 \<and> 8 dvd unat (round_size sz)"
proof -
  have m: "(7 :: u32) = mask 3" "(15 :: u32) = mask 4" "(32 - 1 :: u32) = mask 5" by (simp_all add: mask_eq_exp_minus_1)
  have c: "(ucast (mask 5 :: u32) :: u64) = 31" by (simp add: mask_eq_exp_minus_1)
  have a: "unat (sz + 7) = unat sz + 7" "unat (sz + 15) = unat sz + 15" "unat (sz + 31) = unat sz + 31"
    using assms by (simp_all add: unat_word_ariths)
  have r: "unat (round_size sz) = (if sz \<le> 128 then (unat sz + 7) div 8 * 8
      else if sz \<le> 512 then (unat sz + 15) div 16 * 16 else (unat sz + 31) div 32 * 32)"
    unfolding round_size_def ALIGN_UP_def m c
    using assms and_low_mask [of "sz + 7" 3] and_low_mask [of "sz + 15" 4] and_low_mask [of "sz + 31" 5] by (simp add: a)
  have up: "x \<le> (x + (d - 1)) div d * d" "(x + (d - 1)) div d * d \<le> x + (d - 1)" if "0 < d" for x d :: nat
    using that dividend_less_div_times [of d "x + (d - 1)"] by (simp_all add: div_times_less_eq_dividend)
  have "8 dvd y div 16 * 16" "8 dvd y div 32 * 32" for y :: nat by presburger+
  then show ?thesis unfolding r using up [of 8 "unat sz"] up [of 16 "unat sz"] up [of 32 "unat sz"] by auto
qed

lemma alloc_need_spec:
  assumes "unat n < 2 ^ 32 - 64"
  shows "snd (alloc_need n) = False \<and> max 1 (unat n) + HDR \<le> unat (fst (alloc_need n)) \<and>
    unat (fst (alloc_need n)) < max 1 (unat n) + HDR + 32 \<and> 8 dvd unat (fst (alloc_need n))"
proof -
  define k where "k = (if n = 0 then 1 else n)"
  have k: "unat k = max 1 (unat n)" using unat_gt_0 [of n] by (auto simp: k_def)
  have "unat (- 1 - 24 :: u64) = 2 ^ 64 - 25" by simp
  then have "\<not> k > - 1 - 24" using assms k unfolding word_less_nat_alt by simp
  then have e: "alloc_need n = (round_size (k + 24), False)"
    by (simp add: alloc_need_def k_def [symmetric] Let_def)
  have "unat (k + 24) = max 1 (unat n) + 24" using assms k by (simp add: unat_word_ariths)
  then show ?thesis using round_size_spec [of "k + 24"] assms unfolding e by (simp add: HDR_def)
qed

section \<open>The bins as lists of free blocks\<close>

text \<open>\<open>chain lk b c xs\<close>: the list that starts at offset \<open>c\<close> and follows the links has the elements \<open>xs\<close>.\<close>

primrec chain :: "(nat \<Rightarrow> nat) \<Rightarrow> nat \<Rightarrow> nat \<Rightarrow> nat list \<Rightarrow> bool" where
  "chain lk b c [] \<longleftrightarrow> c = 0"
| "chain lk b c (x # xs) \<longleftrightarrow> c = x \<and> x \<noteq> 0 \<and> chain lk b (lk (b + x + HDR)) xs"

lemma chain_frame:
  "(\<And>x. x \<in> set xs \<Longrightarrow> lk' (b + x + HDR) = lk (b + x + HDR)) \<Longrightarrow> chain lk' b c xs = chain lk b c xs"
  by (induction xs arbitrary: c) auto

lemma chain_fresh: "y \<notin> set xs \<Longrightarrow> chain (lk(b + y + HDR := v)) b c xs = chain lk b c xs"
  by (rule chain_frame) auto

lemma chain_0: "chain lk b c xs \<Longrightarrow> c = 0 \<longleftrightarrow> xs = []"
  by (cases xs) auto

definition block_ok :: "memseg \<Rightarrow> nat \<Rightarrow> bool" where
  "block_ok seg off \<longleftrightarrow> off \<noteq> 0 \<and> off + HDR + 8 \<le> ssize seg"

text \<open>The abstraction: bin \<open>i\<close> holds the offsets \<open>fl i\<close>, and the bitmap has bit \<open>i\<close> set exactly when it is not empty.\<close>

definition bins_abs :: "(nat \<Rightarrow> nat) \<Rightarrow> memseg \<Rightarrow> (nat \<Rightarrow> nat list) \<Rightarrow> bool" where
  "bins_abs lk seg fl \<longleftrightarrow> length (bins seg) = 32 \<and>
     (\<forall>i<32. chain lk (base seg) (bins seg ! i) (fl i) \<and> distinct (fl i) \<and>
        (bit (bitmap seg) i \<longleftrightarrow> fl i \<noteq> []) \<and> list_all (block_ok seg) (fl i)) \<and>
     (\<forall>i<32. \<forall>j<32. i \<noteq> j \<longrightarrow> set (fl i) \<inter> set (fl j) = {})"

lemma bins_absD:
  assumes "bins_abs lk seg fl" "i < 32"
  shows "chain lk (base seg) (bins seg ! i) (fl i)" "distinct (fl i)" "bit (bitmap seg) i \<longleftrightarrow> fl i \<noteq> []"
    "list_all (block_ok seg) (fl i)" "length (bins seg) = 32"
  using assms by (auto simp: bins_abs_def)

lemma bins_abs_disjoint:
  "bins_abs lk seg fl \<Longrightarrow> i < 32 \<Longrightarrow> j < 32 \<Longrightarrow> i \<noteq> j \<Longrightarrow> x \<in> set (fl i) \<Longrightarrow> x \<notin> set (fl j)"
  by (auto simp: bins_abs_def)

lemma bit_clear: "j < 32 \<Longrightarrow> bit (m AND NOT (push_bit i 1) :: u32) j \<longleftrightarrow> bit m j \<and> j \<noteq> i"
  by (auto simp: bit_simps simp del: push_bit_of_1)

lemma bit_set: "j < 32 \<Longrightarrow> bit (m OR push_bit i 1 :: u32) j \<longleftrightarrow> bit m j \<or> j = i"
  by (auto simp: bit_simps simp del: push_bit_of_1)

lemma set_bin_simps [simp]:
  "base (set_bin i o' seg) = base seg" "ssize (set_bin i o' seg) = ssize seg" "bitmap (set_bin i o' seg) = bitmap seg"
  "bins (set_bin i o' seg) = (bins seg)[i := o']"
  "base (clear_bit i seg) = base seg" "ssize (clear_bit i seg) = ssize seg" "bins (clear_bit i seg) = bins seg"
  by (simp_all add: set_bin_def clear_bit_def)

text \<open>Changing one bin: the new head, the new links and the bitmap bit of that bin.\<close>

lemma bins_abs_update:
  assumes abs: "bins_abs lk seg fl" and i: "i < 32"
    and seg': "base seg' = base seg" "ssize seg' = ssize seg" "bins seg' = (bins seg)[i := c]"
      "\<And>j. j < 32 \<Longrightarrow> bit (bitmap seg') j \<longleftrightarrow> (if j = i then xs \<noteq> [] else bit (bitmap seg) j)"
    and ch: "chain lk' (base seg) c xs" "distinct xs" "list_all (block_ok seg) xs"
    and fr: "\<And>j x. j < 32 \<Longrightarrow> j \<noteq> i \<Longrightarrow> x \<in> set (fl j) \<Longrightarrow> x \<notin> set xs \<and> lk' (base seg + x + HDR) = lk (base seg + x + HDR)"
  shows "bins_abs lk' seg' (fl(i := xs))"
proof -
  have ok: "block_ok seg' = block_ok seg" by (rule ext) (simp add: block_ok_def seg')
  have "chain lk' (base seg) (bins seg ! j) (fl j)" if "j < 32" "j \<noteq> i" for j
    using bins_absD(1) [OF abs that(1)] chain_frame [of "fl j" lk' "base seg" lk] fr [OF that] by simp
  moreover have "set xs \<inter> set (fl j) = {}" if "j < 32" "j \<noteq> i" for j using fr [OF that] by blast
  ultimately show ?thesis
    using abs i seg'(4) ch unfolding bins_abs_def seg'(1-3) ok by (auto simp: Int_commute)
qed

lemma pop_least:
  assumes abs: "bins_abs lk seg fl" and i: "i < 32" "membin_get need \<le> i" "fl i \<noteq> []"
    and least: "\<And>j. membin_get need \<le> j \<Longrightarrow> j < i \<Longrightarrow> fl j = []"
  shows "\<exists>seg' rest. fl i = hd (fl i) # rest \<and> membin_pop lk seg need = (seg', hd (fl i)) \<and>
    bins_abs lk seg' (fl(i := rest)) \<and> base seg' = base seg \<and> ssize seg' = ssize seg"
proof -
  obtain x rest where f: "fl i = x # rest" using i(3) by (cases "fl i") auto
  note D = bins_absD [OF abs i(1)]
  define m where "m = bitmap seg AND push_bit (membin_get need) (NOT 0)"
  have bm: "bit m j \<longleftrightarrow> bit (bitmap seg) j \<and> membin_get need \<le> j" if "j < 32" for j
    using that by (auto simp: m_def bit_and_iff bit_push_bit_iff bit_not_iff bit_minus_1_iff bit_mask_iff)
  have mi: "bit m i" using bm i D(3) by simp
  moreover have "\<not> bit m j" if "j < i" for j
    using that bm least i(1) bins_absD(3) [OF abs, of j] by auto
  ultimately have c: "ctz32 m = i" by (intro ctz32_eq) auto
  have m0: "m \<noteq> 0" using mi by auto
  have x: "bins seg ! i = x" "x \<noteq> 0" "chain lk (base seg) (lk (base seg + x + HDR)) rest" "block_ok seg x"
    using D f by auto
  have ok: "\<not> unsafe_off seg x" "\<not> base seg + x + HDR > base seg + ssize seg - 8"
    using x(4) by (auto simp: unsafe_off_def block_ok_def HDR_def)
  define seg' where "seg' = (if lk (base seg + x + HDR) = 0 then clear_bit i (set_bin i (lk (base seg + x + HDR)) seg)
     else set_bin i (lk (base seg + x + HDR)) seg)"
  have pop: "membin_pop lk seg need = (seg', x)"
    unfolding membin_pop_def m_def [symmetric] Let_def c x(1) using m0 x(2) ok by (simp add: seg'_def)
  have "bins_abs lk seg' (fl(i := rest))"
  proof (rule bins_abs_update [OF abs i(1), where c = "lk (base seg + x + HDR)"])
    show "bit (bitmap seg') j \<longleftrightarrow> (if j = i then rest \<noteq> [] else bit (bitmap seg) j)" if "j < 32" for j
      using that chain_0 [OF x(3)] D(3) f
      by (auto simp: seg'_def clear_bit_def bit_clear simp del: push_bit_of_1)
    show "x' \<notin> set rest \<and> lk (base seg + x' + HDR) = lk (base seg + x' + HDR)"
      if "j < 32" "j \<noteq> i" "x' \<in> set (fl j)" for j x'
      using bins_abs_disjoint [OF abs that(1) i(1) that(2,3)] f by simp
  qed (use D f x in \<open>auto simp: seg'_def\<close>)
  then show ?thesis using pop f by (auto simp: seg'_def)
qed

lemma pop_empty:
  assumes abs: "bins_abs lk seg fl" and none: "\<And>j. membin_get need \<le> j \<Longrightarrow> j < 32 \<Longrightarrow> fl j = []"
  shows "membin_pop lk seg need = (seg, 0)"
proof -
  have "bitmap seg AND push_bit (membin_get need) (NOT 0) = 0"
  proof (rule bit_word_eqI)
    fix j assume "j < LENGTH(32)"
    then show "bit (bitmap seg AND push_bit (membin_get need) (NOT 0)) j = bit (0 :: u32) j"
      using none bins_absD(3) [OF abs, of j] by (auto simp: bit_and_iff bit_push_bit_iff bit_not_iff bit_mask_iff)
  qed
  then show ?thesis by (simp add: membin_pop_def)
qed

lemma push_abs:
  assumes abs: "bins_abs lk seg fl" and off: "block_ok seg off" and fresh: "\<And>i. i < 32 \<Longrightarrow> off \<notin> set (fl i)"
    and i: "i = membin_get (hsize (hs (base seg + off)))"
  shows "\<exists>seg' lk'. membin_push hs lk seg off = (seg', lk') \<and> bins_abs lk' seg' (fl(i := off # fl i)) \<and>
    base seg' = base seg \<and> ssize seg' = ssize seg"
proof -
  have i32: "i < 32" using membin_get_less i by simp
  note D = bins_absD [OF abs i32]
  have "\<not> unsafe_off seg off" using off by (auto simp: unsafe_off_def block_ok_def HDR_def)
  then have p: "membin_push hs lk seg off = ((set_bin i off seg)\<lparr>bitmap := bitmap seg OR push_bit i 1\<rparr>,
      lk(base seg + off + HDR := bins seg ! i))"
    by (simp add: membin_push_def i Let_def)
  have "bins_abs (lk(base seg + off + HDR := bins seg ! i)) ((set_bin i off seg)\<lparr>bitmap := bitmap seg OR push_bit i 1\<rparr>)
      (fl(i := off # fl i))"
  proof (rule bins_abs_update [OF abs i32, where c = off])
    show "chain (lk(base seg + off + HDR := bins seg ! i)) (base seg) off (off # fl i)"
      using D(1) off fresh [OF i32] by (simp add: block_ok_def chain_fresh fun_upd_same del: fun_upd_apply)
    show "bit (bitmap ((set_bin i off seg)\<lparr>bitmap := bitmap seg OR push_bit i 1\<rparr>)) j =
        (if j = i then off # fl i \<noteq> [] else bit (bitmap seg) j)" if "j < 32" for j
      using that by (simp add: bit_set del: push_bit_of_1)
    show "x \<notin> set (off # fl i) \<and> (lk(base seg + off + HDR := bins seg ! i)) (base seg + x + HDR) = lk (base seg + x + HDR)"
      if "j < 32" "j \<noteq> i" "x \<in> set (fl j)" for j x
      using bins_abs_disjoint [OF abs that(1) i32 that(2,3)] fresh [OF that(1)] that(3) by auto
  qed (use D off fresh [OF i32] in auto)
  then show ?thesis using p by auto
qed


lemma addr_notin: "x \<notin> set xs \<Longrightarrow> (b :: nat) + x + HDR \<notin> (\<lambda>x. b + x + HDR) ` set xs"
  by auto

lemma unlink_loop_chain:
  assumes "chain lk b c xs" "distinct xs" "xs \<noteq> []" "hd xs \<noteq> off" "off \<noteq> 0"
  shows "\<exists>lk'. unlink_loop lk b c off = Some lk' \<and> chain lk' b c (remove1 off xs) \<and>
    (\<forall>a. a \<notin> (\<lambda>x. b + x + HDR) ` set xs \<longrightarrow> lk' a = lk a)"
  using assms
proof (induction xs arbitrary: c)
  case (Cons x xs)
  then have c: "c = x" "x \<noteq> 0" "chain lk b (lk (b + x + HDR)) xs" "x \<noteq> off" "x \<notin> set xs" "distinct xs" by auto
  consider (none) "xs = []" | (here) "xs \<noteq> []" "hd xs = off" | (later) "xs \<noteq> []" "hd xs \<noteq> off" by blast
  then show ?case
  proof cases
    case none
    then have "lk (b + x + HDR) = 0" using c(3) by simp
    then have "unlink_loop lk b c off = Some lk"
      using c Cons.prems(5) by (simp add: unlink_loop.simps [of lk b x] unlink_loop.simps [of lk b 0])
    then show ?thesis using Cons.prems(1) none c(4) by auto
  next
    case here
    then obtain ys where ys: "xs = off # ys" by (cases xs) auto
    let ?lk = "lk(b + x + HDR := lk (b + off + HDR))"
    have u: "unlink_loop lk b c off = Some ?lk"
      using c ys by (simp add: unlink_loop.simps [of lk b x])
    have "chain ?lk b (lk (b + off + HDR)) ys" using c(3,5) ys by (simp add: chain_fresh del: fun_upd_apply)
    then have "chain ?lk b c (remove1 off (x # xs))" using c ys by (simp add: fun_upd_same del: fun_upd_apply)
    then show ?thesis using u by auto
  next
    case later
    then obtain lk' where l: "unlink_loop lk b (lk (b + x + HDR)) off = Some lk'" "chain lk' b (lk (b + x + HDR)) (remove1 off xs)"
        "\<forall>a. a \<notin> (\<lambda>x. b + x + HDR) ` set xs \<longrightarrow> lk' a = lk a"
      using Cons.IH [OF c(3,6)] Cons.prems(5) by blast
    have "lk (b + x + HDR) \<noteq> off" using c(3) later by (cases xs) auto
    then have "unlink_loop lk b c off = Some lk'"
      using c l(1) by (simp add: unlink_loop.simps [of lk b x])
    moreover have "lk' (b + x + HDR) = lk (b + x + HDR)" using l(3) addr_notin [OF c(5)] by blast
    ultimately show ?thesis using l c by (intro exI [of _ lk']) auto
  qed
qed simp

lemma remove_abs:
  assumes abs: "bins_abs lk seg fl" and off: "block_ok seg off"
    and i: "i = membin_get (hsize (hs (base seg + off)))"
  shows "\<exists>seg' lk'. membin_remove hs lk seg off = Some (seg', lk') \<and> bins_abs lk' seg' (fl(i := remove1 off (fl i))) \<and>
    base seg' = base seg \<and> ssize seg' = ssize seg"
proof -
  have i32: "i < 32" using membin_get_less i by simp
  note D = bins_absD [OF abs i32]
  have us: "\<not> unsafe_off seg off" and o: "off \<noteq> 0" using off by (auto simp: unsafe_off_def block_ok_def HDR_def)
  define fin where "fin = (\<lambda>s :: memseg. if bins s ! i = 0 then clear_bit i s else s)"
  have rm: "membin_remove hs lk seg off =
      (if bins seg ! i = off then Some (fin (set_bin i (lk (base seg + off + HDR)) seg), lk)
       else map_option (\<lambda>lk1. (fin seg, lk1)) (unlink_loop lk (base seg) (bins seg ! i) off))"
    using us by (simp add: membin_remove_def i [symmetric] Let_def fin_def split: option.splits bind_split) 
  have step: "bins_abs lk' (fin s) (fl(i := xs))"
    if "base s = base seg" "ssize s = ssize seg" "bins s = (bins seg)[i := c]" "bitmap s = bitmap seg"
      "chain lk' (base seg) c xs" "distinct xs" "list_all (block_ok seg) xs" "set xs \<subseteq> set (fl i)" "fl i \<noteq> [] \<or> xs = []"
      "\<forall>a. a \<notin> (\<lambda>x. base seg + x + HDR) ` set (fl i) \<longrightarrow> lk' a = lk a" for lk' s c xs
  proof (rule bins_abs_update [OF abs i32, where c = c])
    have c0: "bins s ! i = c" using that(3) i32 D(5) by simp
    note t = that
    show "bit (bitmap (fin s)) j = (if j = i then xs \<noteq> [] else bit (bitmap seg) j)" if "j < 32" for j
      using that chain_0 [OF t(5)] D(3) c0 t(4,9)
      by (auto simp: fin_def clear_bit_def bit_clear simp del: push_bit_of_1)
    show "x \<notin> set xs \<and> lk' (base seg + x + HDR) = lk (base seg + x + HDR)"
      if "j < 32" "j \<noteq> i" "x \<in> set (fl j)" for j x
      using bins_abs_disjoint [OF abs that(1) i32 that(2,3)] \<open>set xs \<subseteq> set (fl i)\<close>
        \<open>\<forall>a. a \<notin> (\<lambda>x. base seg + x + HDR) ` set (fl i) \<longrightarrow> lk' a = lk a\<close> addr_notin by blast
  qed (use that in \<open>auto simp: fin_def\<close>)
  have fin: "base (fin s) = base s" "ssize (fin s) = ssize s" for s by (simp_all add: fin_def)
  have all: "list_all (block_ok seg) (remove1 off (fl i))"
    using D(4) by (auto simp: list_all_iff dest: notin_set_remove1 [THEN contrapos_nn] set_remove1_subset [THEN subsetD])
  show ?thesis
  proof (cases "bins seg ! i = off")
    case True
    then obtain rest where f: "fl i = off # rest" using D(1) o by (cases "fl i") auto
    have "bins_abs lk (fin (set_bin i (lk (base seg + off + HDR)) seg)) (fl(i := rest))"
      using D f by (intro step [where c = "lk (base seg + off + HDR)"]) auto
    then show ?thesis using rm True f fin by simp
  next
    case False
    show ?thesis
    proof (cases "fl i = []")
      case True
      then have "bins seg ! i = 0" using D(1) by simp
      then have "membin_remove hs lk seg off = Some (fin seg, lk)"
        using rm False by (simp add: unlink_loop.simps [of lk "base seg" 0])
      moreover have "bins_abs lk (fin seg) (fl(i := []))"
        using \<open>bins seg ! i = 0\<close> list_update_id [of "bins seg" i] by (intro step [where c = 0]) auto
      ultimately show ?thesis using True fin by auto
    next
      case ne: False
      then have "hd (fl i) \<noteq> off" using D(1) False by (cases "fl i") auto
      from unlink_loop_chain [OF D(1,2) ne this o]
      obtain lk' where l: "unlink_loop lk (base seg) (bins seg ! i) off = Some lk'"
        "chain lk' (base seg) (bins seg ! i) (remove1 off (fl i))"
        "\<forall>a. a \<notin> (\<lambda>x. base seg + x + HDR) ` set (fl i) \<longrightarrow> lk' a = lk a" by blast
      have "bins_abs lk' (fin seg) (fl(i := remove1 off (fl i)))"
        using l ne all D(2) set_remove1_subset [of off "fl i"]
        by (intro step [where c = "bins seg ! i"]) (auto simp: D(5) i32)
      then show ?thesis using rm False l(1) fin by auto
    qed
  qed
qed

section \<open>The interface of a segregated free list\<close>

text \<open>
  What the allocator relies on: \<open>holds s fl\<close> says that the store holds the blocks \<open>fl i\<close> in class \<open>i\<close>.
\<close>

locale bin_store =
  fixes holds :: "'s \<Rightarrow> (nat \<Rightarrow> nat list) \<Rightarrow> bool"
    and ok :: "'s \<Rightarrow> nat \<Rightarrow> bool"
    and cls :: "'s \<Rightarrow> nat \<Rightarrow> nat"
    and least_cls :: "nat \<Rightarrow> nat"
    and push :: "nat \<Rightarrow> 's \<Rightarrow> 's"
    and pop :: "nat \<Rightarrow> 's \<Rightarrow> 's \<times> nat"
  assumes cls_less: "cls s x < 32"
    and push_holds: "holds s fl \<Longrightarrow> ok s x \<Longrightarrow> (\<And>i. i < 32 \<Longrightarrow> x \<notin> set (fl i)) \<Longrightarrow>
      holds (push x s) (fl(cls s x := x # fl (cls s x)))"
    and pop_holds: "holds s fl \<Longrightarrow> i < 32 \<Longrightarrow> least_cls need \<le> i \<Longrightarrow> fl i \<noteq> [] \<Longrightarrow>
      (\<And>j. least_cls need \<le> j \<Longrightarrow> j < i \<Longrightarrow> fl j = []) \<Longrightarrow>
      \<exists>s' rest. fl i = hd (fl i) # rest \<and> pop need s = (s', hd (fl i)) \<and> holds s' (fl(i := rest))"
begin

text \<open>A block just freed is the next one allocated from its class.\<close>

lemma push_pop:
  assumes "holds s fl" "ok s x" "\<And>i. i < 32 \<Longrightarrow> x \<notin> set (fl i)" "least_cls need = cls s x"
  shows "\<exists>s'. pop need (push x s) = (s', x) \<and> holds s' fl"
proof -
  let ?i = "cls s x" and ?fl = "fl(cls s x := x # fl (cls s x))"
  have "holds (push x s) ?fl" using push_holds assms by blast
  from pop_holds [OF this cls_less, of need s x] assms(4)
  obtain s' rest where "?fl ?i = hd (?fl ?i) # rest" "pop need (push x s) = (s', hd (?fl ?i))" "holds s' (?fl(?i := rest))"
    by auto
  then show ?thesis by auto
qed

end

text \<open>A segment with its headers and links, seen as such a store.\<close>

type_synonym seg_view = "(nat \<Rightarrow> memhdr) \<times> (nat \<Rightarrow> nat) \<times> memseg"

definition view_holds :: "seg_view \<Rightarrow> (nat \<Rightarrow> nat list) \<Rightarrow> bool" where
  "view_holds s fl \<longleftrightarrow> (case s of (hs, lk, seg) \<Rightarrow> bins_abs lk seg fl)"

definition view_ok :: "seg_view \<Rightarrow> nat \<Rightarrow> bool" where
  "view_ok s off \<longleftrightarrow> (case s of (hs, lk, seg) \<Rightarrow> block_ok seg off)"

definition view_cls :: "seg_view \<Rightarrow> nat \<Rightarrow> nat" where
  "view_cls s off = (case s of (hs, lk, seg) \<Rightarrow> membin_get (hsize (hs (base seg + off))))"

definition view_push :: "nat \<Rightarrow> seg_view \<Rightarrow> seg_view" where
  "view_push off s = (case s of (hs, lk, seg) \<Rightarrow> case membin_push hs lk seg off of (seg', lk') \<Rightarrow> (hs, lk', seg'))"

definition view_pop :: "nat \<Rightarrow> seg_view \<Rightarrow> seg_view \<times> nat" where
  "view_pop need s = (case s of (hs, lk, seg) \<Rightarrow> case membin_pop lk seg need of (seg', off) \<Rightarrow> ((hs, lk, seg'), off))"

lemmas view_defs = view_holds_def view_ok_def view_cls_def view_push_def view_pop_def

interpretation segment_bins: bin_store view_holds view_ok view_cls membin_get view_push view_pop
proof
  fix s :: seg_view and x need fl i
  obtain hs lk seg where s: "s = (hs, lk, seg)" by (metis prod_cases3)
  show "view_cls s x < 32" using membin_get_less s by (simp add: view_defs)
  show "view_holds (view_push x s) (fl(view_cls s x := x # fl (view_cls s x)))"
    if "view_holds s fl" "view_ok s x" "\<And>i. i < 32 \<Longrightarrow> x \<notin> set (fl i)"
    using push_abs [of lk seg fl x _ hs] that s by (auto simp: view_defs)
  show "\<exists>s' rest. fl i = hd (fl i) # rest \<and> view_pop need s = (s', hd (fl i)) \<and> view_holds s' (fl(i := rest))"
    if "view_holds s fl" "i < 32" "membin_get need \<le> i" "fl i \<noteq> []" "\<And>j. membin_get need \<le> j \<Longrightarrow> j < i \<Longrightarrow> fl j = []"
    using pop_least [of lk seg fl i need] that s by (fastforce simp: view_defs)
qed

section \<open>What an allocation returns\<close>

definition recycle_ok :: "heap \<Rightarrow> bool" where
  "recycle_ok h \<longleftrightarrow> length (recycling h) = 4 \<and>
     (\<forall>r<4. \<forall>p\<in>set (recycling h ! r). HDR \<le> p \<and> 8 * (r + 2) + HDR \<le> hsize (hdrs h (p - HDR)))"

lemma set_flags_simps [simp]:
  "hsize (hdrs (set_flags a f h) x) = hsize (hdrs h x)"
  "flags (hdrs (set_flags a f h) x) = (if x = a then f else flags (hdrs h x))"
  by (simp_all add: set_flags_def)

lemma seg_push_hdrs [simp]: "hdrs (seg_push h k off) = hdrs h"
  by (simp add: seg_push_def split: prod.splits)

lemma alloc_seg_block:
  assumes "alloc_seg h k need = (h', p)" "p \<noteq> 0"
  shows "HDR \<le> p \<and> need \<le> hsize (hdrs h' (p - HDR)) \<and> flags (hdrs h' (p - HDR)) = HDR_ALLOC"
proof -
  obtain seg off where e: "membin_pop (links h) (segs h ! k) need = (seg, off)" by fastforce
  define h1 where "h1 = h\<lparr>segs := (segs h)[k := seg]\<rparr>"
  have nz: "off \<noteq> 0" "\<not> hsize (hdrs h1 (base seg + off)) < need"
    using assms e by (auto simp: alloc_seg_def Let_def h1_def split: if_splits)
  define a where "a = base seg + off"
  define h2 where "h2 = (if hsize (hdrs h1 a) \<ge> need + HDR + 8 then
      seg_push (h1\<lparr>hdrs := (hdrs h1)(a + need := \<lparr>hsize = hsize (hdrs h1 a) - need, prev_size = need, flags = 0\<rparr>,
        a := (hdrs h1 a)\<lparr>hsize := need\<rparr>)\<rparr>) k (off + need) else h1)"
  define h3 where "h3 = (if off + hsize (hdrs h2 a) < ssize seg then
      h2\<lparr>hdrs := (hdrs h2)(a + hsize (hdrs h2 a) := (hdrs h2 (a + hsize (hdrs h2 a)))\<lparr>prev_size := hsize (hdrs h2 a)\<rparr>)\<rparr> else h2)"
  have "alloc_seg h k need = (set_flags a HDR_ALLOC h3, a + HDR)"
    unfolding alloc_seg_def e prod.case Let_def h3_def h2_def a_def h1_def
    by (simp only: nz [unfolded h1_def] if_False)
  then have r: "h' = set_flags a HDR_ALLOC h3" "p = a + HDR" using assms(1) by simp_all
  have "need \<le> hsize (hdrs h2 a)" using nz(2) by (simp add: h2_def a_def)
  then have "need \<le> hsize (hdrs h3 a)" by (simp add: h3_def)
  then show ?thesis unfolding r by simp
qed

lemma alloc_bins_block:
  "alloc_bins n h k need = (h', p) \<Longrightarrow> p \<noteq> 0 \<Longrightarrow>
   HDR \<le> p \<and> need \<le> hsize (hdrs h' (p - HDR)) \<and> flags (hdrs h' (p - HDR)) = HDR_ALLOC"
  by (induction n arbitrary: h k) (auto split: prod.splits if_splits dest: alloc_seg_block)

lemma alloc_recycle_block:
  assumes "recycle_ok h" "alloc_recycle h n = (h', p)" "p \<noteq> 0"
  shows "HDR \<le> p \<and> n + HDR \<le> hsize (hdrs h' (p - HDR)) \<and> flags (hdrs h' (p - HDR)) = HDR_ALLOC"
proof -
  define r where "r = (n + 7) div 8 - 2"
  have c: "16 \<le> n" "r < 4" "recycling h ! r \<noteq> []" "p = last (recycling h ! r)"
      "h' = set_flags (p - HDR) HDR_ALLOC (h\<lparr>recycling := (recycling h)[r := butlast (recycling h ! r)]\<rparr>)"
    using assms(2,3) by (auto simp: alloc_recycle_def Let_def r_def [symmetric] split: if_splits)
  have "p \<in> set (recycling h ! r)" using c by simp
  then have "HDR \<le> p" "8 * (r + 2) + HDR \<le> hsize (hdrs h (p - HDR))" using assms(1) c(2) by (auto simp: recycle_ok_def)
  moreover have "n \<le> 8 * (r + 2)" using c(1) unfolding r_def by presburger
  ultimately show ?thesis unfolding c(5) by simp
qed

lemma alloc_arena_block:
  assumes "alloc_arena h n need = (h', p)" "p \<noteq> 0"
  shows "HDR \<le> p \<and> hsize (hdrs h' (p - HDR)) = need \<and> flags (hdrs h' (p - HDR)) = HDR_ALLOC OR HDR_ARENA"
  using assms by (auto simp: alloc_arena_def Let_def split: if_splits prod.splits)

lemma recycle_ok_init: "recycle_ok h \<Longrightarrow> recycle_ok (membin_init h)"
  by (auto simp: recycle_ok_def membin_init_def Let_def seg_push_def split: prod.splits)

lemma free_recycle_ok:
  assumes "recycle_ok h" "HDR \<le> p" "hsize (hdrs h (p - HDR)) = n + HDR" "free_recycle h p n = (h', b)"
  shows "recycle_ok h'"
proof -
  have "8 * (n div 8) \<le> n" by simp
  then show ?thesis using assms
    by (auto simp: recycle_ok_def free_recycle_def Let_def nth_list_update split: if_splits)
qed

lemma malloc_cases:
  assumes "malloc n h = (h', p)" "alloc_need n = (need, False)" "need \<noteq> 0"
  obtains (recycled) "alloc_recycle (membin_init h) (unat n) = (h', p)" "p \<noteq> 0"
    | (arena) h2 where "alloc_recycle (membin_init h) (unat n) = (h2, 0)" "alloc_arena h2 (unat n) (unat need) = (h', p)" "p \<noteq> 0"
    | (bins) h3 k m where "alloc_bins m h3 k (unat need) = (h', p)" "p \<noteq> 0"
    | (failed) "p = 0" "errno h' = ENOMEM"
proof -
  obtain h2 p2 where r: "alloc_recycle (membin_init h) (unat n) = (h2, p2)" by fastforce
  obtain h3 p3 where a: "alloc_arena h2 (unat n) (unat need) = (h3, p3)" by fastforce
  obtain h4 p4 where b: "alloc_bins (length (segs h3)) h3 0 (unat need) = (h4, p4)" by fastforce
  obtain h5 s where g: "grow_heap h4 (unat need) = (h5, s)" by fastforce
  obtain h6 p6 where c: "(case s of None \<Rightarrow> (h5, 0) | Some k \<Rightarrow> alloc_bins 1 h5 k (unat need)) = (h6, p6)" by fastforce
  have m: "malloc n h = (if p2 \<noteq> 0 then (h2, p2) else if p3 \<noteq> 0 then (h3, p3) else if p4 \<noteq> 0 then (h4, p4)
      else if p6 \<noteq> 0 then (h6, p6) else (h6\<lparr>errno := ENOMEM\<rparr>, 0))"
    unfolding malloc_def assms(2) prod.case Let_def r a b g c using assms(3) by simp
  consider "p2 \<noteq> 0" | "p2 = 0" "p3 \<noteq> 0" | "p2 = 0" "p3 = 0" "p4 \<noteq> 0" | "p2 = 0" "p3 = 0" "p4 = 0" "p6 \<noteq> 0"
    | "p2 = 0" "p3 = 0" "p4 = 0" "p6 = 0" by blast
  then show ?thesis
  proof cases
    case 1
    then show ?thesis using recycled r m assms(1) by simp
  next
    case 2
    then show ?thesis using arena r a m assms(1) by simp
  next
    case 3
    then show ?thesis using bins b m assms(1) by simp
  next
    case 4
    then obtain k where "s = Some k" using c by (cases s) auto
    then have "alloc_bins 1 h5 k (unat need) = (h6, p6)" using c by (simp only: option.case)
    moreover have "h' = h6" "p = p6" using 4 m assms(1) by simp_all
    ultimately show ?thesis using 4 bins by blast
  next
    case 5
    then show ?thesis using failed m assms(1) by simp
  qed
qed

text \<open>
  C8: for every request below \<open>2\<^sup>32 - 64\<close> bytes, in every heap whose recycling lists hold blocks of at least the size of their
  class (\<open>recycle_ok\<close>, kept by \<^verbatim>\<open>__jacl_free_recycle\<close>), \<^verbatim>\<open>malloc\<close> either fails with \<^verbatim>\<open>ENOMEM\<close> or returns a block whose header
  is marked allocated and whose size covers the request and the header, whichever path served it
  (a recycled block, the thread's arena, a bin of a segment, or a new segment).
\<close>

theorem malloc_returns_block:
  assumes "recycle_ok h" "unat n < 2 ^ 32 - 64" "malloc n h = (h', p)"
  shows "if p = 0 then errno h' = ENOMEM
    else HDR \<le> p \<and> unat n + HDR \<le> hsize (hdrs h' (p - HDR)) \<and> flags (hdrs h' (p - HDR)) AND HDR_ALLOC \<noteq> 0"
proof -
  obtain need e where a: "alloc_need n = (need, e)" by fastforce
  have ns: "\<not> e" "unat n + HDR \<le> unat need" "0 < unat need"
    using alloc_need_spec [OF assms(2)] a by auto
  then have nd: "alloc_need n = (need, False)" "need \<noteq> 0" using a by auto
  have fl: "HDR_ALLOC AND HDR_ALLOC \<noteq> 0" "(HDR_ALLOC OR HDR_ARENA) AND HDR_ALLOC \<noteq> 0" by (simp_all add: mem_consts)
  from assms(3) nd show ?thesis
  proof (cases rule: malloc_cases)
    case recycled
    then show ?thesis using alloc_recycle_block [OF recycle_ok_init [OF assms(1)]] fl by simp
  next
    case (arena h2)
    then show ?thesis using alloc_arena_block [OF arena(2,3)] ns fl by simp
  next
    case (bins h3 k m)
    then show ?thesis using alloc_bins_block [OF bins] ns fl by simp
  next
    case failed
    then show ?thesis by simp
  qed
qed

theorem malloc_returns_block_witness:
  "\<exists>h' p. malloc 100 (heap_start 4096 []) = (h', p) \<and> (p = 0 \<or> 124 \<le> hsize (hdrs h' (p - HDR)))"
proof -
  obtain h' p where m: "malloc 100 (heap_start 4096 []) = (h', p)" by fastforce
  have "recycle_ok (heap_start 4096 [])" by (simp add: recycle_ok_def heap_start_def)
  from malloc_returns_block [OF this _ m] m show ?thesis by (simp add: HDR_def split: if_splits)
qed

section \<open>The thread's arena\<close>

definition arena_ok :: "heap \<Rightarrow> bool" where
  "arena_ok h \<longleftrightarrow> tls_off h \<le> tls_end h \<and> tls_end h \<le> ARENA_LIMIT \<and> 4096 dvd unat (tls_cursor h)"

lemma align_cursor: "8 dvd unat c \<Longrightarrow> unat c + 7 < 2 ^ 32 \<Longrightarrow> unat (ALIGN_UP (ucast (c :: u32)) 8) = unat c"
proof -
  assume c: "8 dvd unat c" "unat c + 7 < 2 ^ 32"
  have m: "(8 - 1 :: u32) = mask 3" "(ucast (mask 3 :: u32) :: u64) = 7" by (simp_all add: mask_eq_exp_minus_1)
  have u: "unat (ucast c :: u64) = unat c"
    using unsigned_less [of c, where 'a = nat] by (simp add: unsigned_ucast_eq take_bit_nat_eq_self)
  then have s: "unat ((ucast c :: u64) + 7) = unat c + 7" using c(2) by (simp add: unat_word_ariths)
  have "unat (ALIGN_UP (ucast c) 8) = (unat c + 7) div 8 * 8"
    unfolding ALIGN_UP_def m using and_low_mask [of "ucast c + 7" 3] c(2) by (simp add: s)
  then show ?thesis using c(1) by (auto elim!: dvdE)
qed

lemma tls_refill_eq:
  assumes "4096 dvd unat (tls_cursor h)"
  shows "tls_refill h =
    (if unat (tls_cursor h) \<ge> ARENA_LIMIT then (h\<lparr>tls_cursor := tls_cursor h + 4096\<rparr>, False)
     else (h\<lparr>tls_cursor := tls_cursor h + 4096, tls_off := unat (tls_cursor h), tls_end := unat (tls_cursor h) + 4096\<rparr>, True))"
proof (cases "unat (tls_cursor h) \<ge> ARENA_LIMIT")
  case False
  obtain k where k: "unat (tls_cursor h) = 4096 * k" using assms by (elim dvdE)
  have le: "unat (tls_cursor h) + 4096 \<le> ARENA_LIMIT" using False k by (simp add: ARENA_LIMIT_def)
  have al: "unat (ALIGN_UP (ucast (tls_cursor h)) 8) = unat (tls_cursor h)"
    using le k by (intro align_cursor) (auto simp: ARENA_LIMIT_def)
  have "\<not> unat (tls_cursor h) + unat TLS_CHUNK > ARENA_LIMIT" using le by (simp add: TLS_CHUNK_def)
  then show ?thesis using False by (simp add: tls_refill_def Let_def al TLS_CHUNK_def)
qed (simp add: tls_refill_def TLS_CHUNK_def)

lemma cursor_dvd: "4096 dvd unat (c :: u32) \<Longrightarrow> 4096 dvd unat (c + 4096)"
proof -
  assume "4096 dvd unat c"
  then have "4096 dvd (unat c + 4096) mod 4294967296" by (intro dvd_mod dvd_add) simp_all
  then show ?thesis by (simp add: unat_word_ariths)
qed

lemma alloc_arena_cases:
  assumes "arena_ok h" "need \<le> 4096"
  obtains (none) h1 where "alloc_arena h n need = (h1, 0)" "arena_ok h1"
      "tls_cursor h1 = tls_cursor h \<or> tls_cursor h1 = tls_cursor h + 4096" "tls_off h1 = tls_off h" "tls_end h1 = tls_end h"
      "static_heap h1 = static_heap h"
    | (window) h1 where "alloc_arena h n need = (h1, static_heap h + tls_off h + HDR)" "arena_ok h1"
      "tls_cursor h1 = tls_cursor h" "tls_off h1 = tls_off h + need" "tls_end h1 = tls_end h" "tls_off h + need \<le> tls_end h"
      "static_heap h1 = static_heap h"
    | (fresh) h1 where "alloc_arena h n need = (h1, static_heap h + unat (tls_cursor h) + HDR)" "arena_ok h1"
      "tls_cursor h1 = tls_cursor h + 4096" "tls_off h1 = unat (tls_cursor h) + need"
      "tls_end h1 = unat (tls_cursor h) + 4096" "unat (tls_cursor h) + 4096 \<le> ARENA_LIMIT" "static_heap h1 = static_heap h"
proof -
  have ok: "tls_off h \<le> tls_end h" "tls_end h \<le> ARENA_LIMIT" "4096 dvd unat (tls_cursor h)"
    using assms(1) by (auto simp: arena_ok_def)
  note rf = tls_refill_eq [OF ok(3)]
  have cd: "4096 dvd unat (tls_cursor h + 4096)" using cursor_dvd ok(3) .
  consider "n > 128" | "n \<le> 128" "tls_off h + need \<le> tls_end h"
    | "n \<le> 128" "\<not> tls_off h + need \<le> tls_end h" "unat (tls_cursor h) \<ge> ARENA_LIMIT"
    | "n \<le> 128" "\<not> tls_off h + need \<le> tls_end h" "unat (tls_cursor h) < ARENA_LIMIT" by linarith
  then show ?thesis
  proof cases
    case 1
    then show ?thesis using none [of h] assms(1) by (simp add: alloc_arena_def)
  next
    case 2
    then show ?thesis using window ok by (simp add: alloc_arena_def Let_def arena_ok_def)
  next
    case 3
    then show ?thesis using none ok cd by (simp add: alloc_arena_def Let_def arena_ok_def rf)
  next
    case 4
    obtain k where k: "unat (tls_cursor h) = 4096 * k" using ok(3) by (elim dvdE)
    have le: "unat (tls_cursor h) + 4096 \<le> ARENA_LIMIT" using 4(3) k by (simp add: ARENA_LIMIT_def)
    show ?thesis using 4 fresh ok cd le assms(2) by (simp add: alloc_arena_def Let_def arena_ok_def rf)
  qed
qed

text \<open>
  A sequence of calls a thread makes to its arena, allocations of given sizes and releases of given pointers: the final state and the
  blocks (offset, length) handed out.  It is not code of the program but a way to state what holds of its calls in sequence.
\<close>

datatype arena_op = Arena_take u64 | Arena_give nat

primrec arena_run :: "arena_op list \<Rightarrow> heap \<Rightarrow> heap \<times> (nat \<times> nat) list" where
  "arena_run [] h = (h, [])"
| "arena_run (op # ops) h =
     (case op of
        Arena_take n \<Rightarrow>
          (case alloc_arena h (unat n) (unat (fst (alloc_need n))) of (h1, p) \<Rightarrow>
           case arena_run ops h1 of (h2, bs) \<Rightarrow>
             (h2, if p = 0 then bs else (p - HDR - static_heap h, unat (fst (alloc_need n))) # bs))
      | Arena_give p \<Rightarrow> arena_run ops (fst (free_arena h p)))"

definition apart :: "nat \<times> nat \<Rightarrow> nat \<times> nat \<Rightarrow> bool" where
  "apart b c \<longleftrightarrow> fst b + snd b \<le> fst c \<or> fst c + snd c \<le> fst b"

text \<open>
  The part of the arena still free for this thread: its window and everything from the cursor on.
\<close>

definition free_part :: "heap \<Rightarrow> nat \<times> nat \<Rightarrow> bool" where
  "free_part h b \<longleftrightarrow> tls_off h \<le> fst b \<and> fst b + snd b \<le> tls_end h \<or>
     unat (tls_cursor h) \<le> fst b \<and> fst b + snd b \<le> ARENA_LIMIT"

definition taken :: "heap \<Rightarrow> nat \<times> nat \<Rightarrow> bool" where
  "taken h b \<longleftrightarrow> (fst b + snd b \<le> tls_off h \<or> tls_end h \<le> fst b) \<and> fst b + snd b \<le> unat (tls_cursor h)"

lemma taken_apart: "taken h b \<Longrightarrow> free_part h c \<Longrightarrow> apart b c"
  by (auto simp: taken_def free_part_def apart_def)

lemma cursor_step: "unat c + 4096 < 2 ^ 32 \<Longrightarrow> unat ((c :: u32) + 4096) = unat c + 4096"
  by (simp add: unat_word_ariths)

definition win_ok :: "heap \<Rightarrow> bool" where
  "win_ok h \<longleftrightarrow> arena_ok h \<and> tls_end h \<le> unat (tls_cursor h)"

lemma alloc_arena_step:
  assumes "win_ok h" "need \<le> 4096" "unat (tls_cursor h) + 4096 < 2 ^ 32" "alloc_arena h n need = (h1, p)"
  shows "win_ok h1 \<and> static_heap h1 = static_heap h \<and> unat (tls_cursor h1) \<le> unat (tls_cursor h) + 4096 \<and>
    (\<forall>b. taken h b \<longrightarrow> taken h1 b) \<and> (\<forall>b. free_part h1 b \<longrightarrow> free_part h b) \<and>
    (p = 0 \<or> free_part h (p - HDR - static_heap h, need) \<and> taken h1 (p - HDR - static_heap h, need))"
proof -
  have a: "arena_ok h" "tls_end h \<le> unat (tls_cursor h)" "tls_off h \<le> tls_end h" using assms(1) by (auto simp: win_ok_def arena_ok_def)
  note cs = cursor_step [OF assms(3)]
  from a(1) assms(2) show ?thesis
  proof (cases rule: alloc_arena_cases [where n = n])
    case (none h2)
    then show ?thesis using assms(4) a cs by (auto simp: win_ok_def taken_def free_part_def)
  next
    case (window h2)
    then show ?thesis using assms(4) a cs by (auto simp: win_ok_def taken_def free_part_def)
  next
    case (fresh h2)
    then show ?thesis using assms(2,4) a cs by (auto simp: win_ok_def taken_def free_part_def)
  qed
qed

lemma small_need: "unat n \<le> 128 \<Longrightarrow> unat (fst (alloc_need n)) \<le> 4096"
  using alloc_need_spec [of n] by (auto simp: HDR_def)

lemma alloc_arena_large: "128 < n \<Longrightarrow> alloc_arena h n need = (h, 0)"
  by (simp add: alloc_arena_def)

lemma arena_run_disjoint:
  "win_ok h \<Longrightarrow> unat (tls_cursor h) + 4096 * length ns < 2 ^ 32 \<Longrightarrow> arena_run ns h = (h', bs) \<Longrightarrow>
   sorted_wrt apart bs \<and> list_all (free_part h) bs"
proof (induction ns arbitrary: h h' bs)
  case (Cons op ns)
  show ?case
  proof (cases op)
    case (Arena_give p)
    have "win_ok (fst (free_arena h p)) = win_ok h" "tls_cursor (fst (free_arena h p)) = tls_cursor h" "free_part (fst (free_arena h p)) = free_part h"
      by (auto simp: free_arena_def set_flags_def win_ok_def arena_ok_def free_part_def Let_def)
    then show ?thesis using Cons.IH [of "fst (free_arena h p)"] Cons.prems Arena_give by simp
  next
    case (Arena_take n)
    define need where "need = unat (fst (alloc_need n))"
    obtain h1 p where a: "alloc_arena h (unat n) need = (h1, p)" by fastforce
    obtain h2 cs where r: "arena_run ns h1 = (h2, cs)" by fastforce
    have bs: "bs = (if p = 0 then cs else (p - HDR - static_heap h, need) # cs)"
      using Cons.prems(3) a r Arena_take by (auto simp: need_def)
    have st: "win_ok h1 \<and> static_heap h1 = static_heap h \<and> unat (tls_cursor h1) \<le> unat (tls_cursor h) + 4096 \<and>
      (\<forall>b. taken h b \<longrightarrow> taken h1 b) \<and> (\<forall>b. free_part h1 b \<longrightarrow> free_part h b) \<and>
      (p = 0 \<or> free_part h (p - HDR - static_heap h, need) \<and> taken h1 (p - HDR - static_heap h, need))"
    proof (cases "unat n \<le> 128")
      case True
      then show ?thesis
        using alloc_arena_step [OF Cons.prems(1) _ _ a] small_need [OF True] Cons.prems(2) by (simp add: need_def)
    next
      case False
      then show ?thesis using a alloc_arena_large Cons.prems(1) by auto
    qed
    have "unat (tls_cursor h1) + 4096 * length ns < 2 ^ 32" using st Cons.prems(2) by simp
    then have IH: "sorted_wrt apart cs" "list_all (free_part h1) cs" using Cons.IH [OF _ _ r] st by auto
    then have all: "list_all (free_part h) cs" using st by (auto simp: list_all_iff)
    show ?thesis
    proof (cases "p = 0")
      case True
      then show ?thesis using IH all bs by simp
    next
      case False
      then have "list_all (apart (p - HDR - static_heap h, need)) cs"
        using IH(2) st taken_apart by (auto simp: list_all_iff)
      then show ?thesis using False IH(1) all st bs by (simp add: list_all_iff)
    qed
  qed
qed simp

lemma alloc_arena_ok:
  assumes "arena_ok h" "alloc_need n = (need, e)" "alloc_arena h (unat n) (unat need) = (h', p)"
  shows "arena_ok h'"
proof (cases "unat n \<le> 128")
  case True
  then have "unat need \<le> 4096" using small_need [OF True] assms(2) by simp
  then show ?thesis using alloc_arena_cases [OF assms(1), of "unat need" "unat n" "arena_ok h'"] assms(3) by auto
next
  case False
  then show ?thesis using alloc_arena_large [of "unat n"] assms(1,3) by simp
qed

lemma membin_init_window: "arena_ok h \<Longrightarrow> arena_ok (membin_init h)"
  by (auto simp: arena_ok_def membin_init_def Let_def seg_push_def split: prod.splits)

lemma alloc_recycle_window: "alloc_recycle h n = (h', p) \<Longrightarrow> arena_ok h' = arena_ok h"
  by (auto simp: arena_ok_def alloc_recycle_def set_flags_def Let_def split: if_splits)

text \<open>The assertions of \<^verbatim>\<open>malloc\<close> hold where they stand, when the window was in order before the call.\<close>

lemma malloc_asserts:
  assumes "arena_ok h" "alloc_need n = (need, e)" "alloc_recycle (membin_init h) (unat n) = (h2, 0)"
    "alloc_arena h2 (unat n) (unat need) = (h3, 0)"
  shows "tls_off h3 \<le> HEAP_INIT div 4 \<and> tls_end h3 \<le> HEAP_INIT div 4 \<and> tls_off h3 \<le> tls_end h3"
proof -
  have "arena_ok h2" using membin_init_window [OF assms(1)] alloc_recycle_window [OF assms(3)] by simp
  then have "arena_ok h3" by (rule alloc_arena_ok [OF _ assms(2,4)])
  then show ?thesis by (simp add: arena_ok_def mem_consts)
qed

text \<open>
  C33: the blocks a thread takes from its arena by any sequence of fewer than \<open>2\<^sup>20\<close> allocations and releases (\<^verbatim>\<open>__jacl_alloc_arena\<close>,
  \<^verbatim>\<open>__jacl_free_arena\<close>), starting from the initial heap, are inside the arena (the first quarter of the static heap) and pairwise disjoint, also
  from those released in between, which the arena never takes up again.  With more allocations the
  cursor wraps and a chunk is handed out twice (\<open>tls_refill_wraps\<close>).
\<close>

theorem arena_blocks_disjoint:
  assumes "length ns < 2 ^ 20"
  shows "sorted_wrt apart (snd (arena_run ns (heap_start sb pgs))) \<and>
    list_all (\<lambda>b. fst b + snd b \<le> ARENA_LIMIT) (snd (arena_run ns (heap_start sb pgs)))"
proof -
  obtain h' bs where r: "arena_run ns (heap_start sb pgs) = (h', bs)" by fastforce
  have "win_ok (heap_start sb pgs)" by (simp add: win_ok_def arena_ok_def heap_start_def)
  moreover have "unat (tls_cursor (heap_start sb pgs)) + 4096 * length ns < 2 ^ 32"
    using assms by (simp add: heap_start_def)
  ultimately have "sorted_wrt apart bs \<and> list_all (free_part (heap_start sb pgs)) bs"
    using arena_run_disjoint r by blast
  then show ?thesis using r by (auto simp: list_all_iff free_part_def heap_start_def)
qed

theorem arena_blocks_disjoint_witness:
  "sorted_wrt apart (snd (arena_run [Arena_take 16, Arena_take 100, Arena_give 4120, Arena_take 7] (heap_start 4096 [])))"
  using arena_blocks_disjoint [of "[Arena_take 16, Arena_take 100, Arena_give 4120, Arena_take 7]" 4096 "[]"] by simp

lemma refill_cursor:
  "tls_cursor (((\<lambda>h. fst (tls_refill h)) ^^ k) h) = tls_cursor h + of_nat k * 4096"
  by (induction k) (simp_all add: tls_refill_def Let_def TLS_CHUNK_def algebra_simps)

text \<open>
  The arena's cursor wraps: after \<open>2\<^sup>20\<close> refill attempts (a refill is attempted by every small
  allocation once the arena is exhausted) the next refill succeeds again and hands out the first
  chunk of the arena a second time, whatever is still allocated there.
\<close>

theorem tls_refill_wraps:
  "let h = ((\<lambda>h. fst (tls_refill h)) ^^ 2 ^ 20) (heap_start sb pgs); (h', ok) = tls_refill h
   in ok \<and> tls_off h' = 0 \<and> tls_end h' = 4096"
proof -
  define h where "h = ((\<lambda>h. fst (tls_refill h)) ^^ 2 ^ 20) (heap_start sb pgs)"
  have "tls_cursor h = 0" unfolding h_def refill_cursor by (simp add: heap_start_def)
  then show ?thesis unfolding Let_def h_def [symmetric] using tls_refill_eq [of h] by (simp add: ARENA_LIMIT_def)
qed

section \<open>The bins refine lists of blocks\<close>

datatype bin_op = Push nat | Pop nat | Remove nat

definition bin_step :: "(nat \<Rightarrow> memhdr) \<Rightarrow> bin_op \<Rightarrow> memseg \<times> (nat \<Rightarrow> nat) \<Rightarrow> ((memseg \<times> (nat \<Rightarrow> nat)) \<times> nat) option" where
  "bin_step hs op s = (case s of (seg, lk) \<Rightarrow>
     (case op of
        Push off \<Rightarrow> Some (membin_push hs lk seg off, 0)
      | Pop need \<Rightarrow> (case membin_pop lk seg need of (seg', off) \<Rightarrow> Some ((seg', lk), off))
      | Remove off \<Rightarrow> map_option (\<lambda>s'. (s', 0)) (membin_remove hs lk seg off)))"

text \<open>The specification: one list of offsets per size class; a pop serves the least class that is large enough and not empty.\<close>

definition spec_step :: "(nat \<Rightarrow> nat) \<Rightarrow> bin_op \<Rightarrow> (nat \<Rightarrow> nat list) \<Rightarrow> (nat \<Rightarrow> nat list) \<times> nat" where
  "spec_step cls op fl = (case op of
     Push off \<Rightarrow> (fl(cls off := off # fl (cls off)), 0)
   | Pop need \<Rightarrow> (case filter (\<lambda>i. fl i \<noteq> []) [membin_get need..<32] of
       [] \<Rightarrow> (fl, 0)
     | i # _ \<Rightarrow> (fl(i := tl (fl i)), hd (fl i)))
   | Remove off \<Rightarrow> (fl(cls off := remove1 off (fl (cls off))), 0))"

definition legal_op :: "memseg \<Rightarrow> (nat \<Rightarrow> nat list) \<Rightarrow> bin_op \<Rightarrow> bool" where
  "legal_op seg fl op \<longleftrightarrow> (case op of
     Push off \<Rightarrow> block_ok seg off \<and> list_all (\<lambda>i. off \<notin> set (fl i)) [0..<32]
   | Pop need \<Rightarrow> True
   | Remove off \<Rightarrow> block_ok seg off)"

lemma filter_upt_hd:
  "filter P [a..<b] = i # is \<Longrightarrow> a \<le> i \<and> i < b \<and> P i \<and> (\<forall>j. a \<le> j \<and> j < i \<longrightarrow> \<not> P j)"
proof (induction b arbitrary: i "is")
  case (Suc b)
  show ?case
  proof (cases "filter P [a..<b]")
    case Nil
    then have "\<forall>j. a \<le> j \<and> j < b \<longrightarrow> \<not> P j" by (auto simp: filter_empty_conv)
    then show ?thesis using Suc.prems Nil by (auto split: if_splits)
  next
    case (Cons k ks)
    then show ?thesis using Suc.IH [OF Cons] Suc.prems by (auto split: if_splits)
  qed
qed simp

text \<open>
  C1: the segregated bins of a segment (heads, links through the free blocks, bitmap) implement
  lists of blocks per size class: every push, pop and removal of an allowed block returns, returns what the
  lists return, and leaves the bins representing the lists' new value.
\<close>

theorem membin_refines:
  assumes "bins_abs lk seg fl" "legal_op seg fl op"
    and "spec_step (\<lambda>off. membin_get (hsize (hs (base seg + off)))) op fl = (fl', r)"
  shows "\<exists>seg' lk'. bin_step hs op (seg, lk) = Some ((seg', lk'), r) \<and> bins_abs lk' seg' fl' \<and>
    base seg' = base seg \<and> ssize seg' = ssize seg"
proof (cases op)
  case (Push off)
  then show ?thesis
    using push_abs [OF assms(1) _ _ refl, of off hs] assms(2,3)
    by (fastforce simp: bin_step_def spec_step_def legal_op_def list_all_iff)
next
  case (Pop need)
  show ?thesis
  proof (cases "filter (\<lambda>i. fl i \<noteq> []) [membin_get need..<32]")
    case Nil
    then have "membin_pop lk seg need = (seg, 0)"
      using pop_empty [OF assms(1), of need] by (auto simp: filter_empty_conv)
    then show ?thesis using Pop Nil assms by (simp add: bin_step_def spec_step_def)
  next
    case (Cons i "is")
    note f = filter_upt_hd [OF Cons]
    obtain seg' rest where "fl i = hd (fl i) # rest" "membin_pop lk seg need = (seg', hd (fl i))"
      "bins_abs lk seg' (fl(i := rest))" "base seg' = base seg" "ssize seg' = ssize seg"
      using pop_least [OF assms(1), of i need] f by blast
    then show ?thesis using Pop Cons assms(3) by (cases "fl i") (auto simp: bin_step_def spec_step_def)
  qed
next
  case (Remove off)
  then show ?thesis
    using remove_abs [OF assms(1) _ refl, of off hs] assms(2,3)
    by (fastforce simp: bin_step_def spec_step_def legal_op_def)
qed

lemma bins_abs_empty: "bins_abs lk (empty_seg b n) (\<lambda>_. [])"
  by (auto simp: bins_abs_def empty_seg_def)

theorem membin_refines_witness:
  "\<exists>seg lk. bin_step (\<lambda>_. \<lparr>hsize = 640, prev_size = 0, flags = 0\<rparr>) (Push 64) (empty_seg 4096 1024, \<lambda>_. 0) = Some ((seg, lk), 0) \<and>
    bins_abs lk seg ((\<lambda>_. [])(18 := [64]))"
proof -
  have "legal_op (empty_seg 4096 1024) (\<lambda>_. []) (Push 64)" by (simp add: legal_op_def block_ok_def empty_seg_def HDR_def list_all_iff)
  moreover have "membin_get 640 = 18" by (simp add: membin_get_def bin_loop.simps)
  ultimately show ?thesis
    using membin_refines [OF bins_abs_empty, of 4096 1024 "Push 64" "\<lambda>_. \<lparr>hsize = 640, prev_size = 0, flags = 0\<rparr>" _ 0 "\<lambda>_. 0"]
    by (fastforce simp: spec_step_def)
qed

section \<open>Where the allocator fails\<close>

datatype call = Malloc u64 | Free nat

primrec calls :: "call list \<Rightarrow> heap \<Rightarrow> (nat list \<times> heap) option" where
  "calls [] h = Some ([], h)"
| "calls (c # cs) h = (case c of
     Malloc n \<Rightarrow> (case malloc n h of (h1, p) \<Rightarrow> map_option (\<lambda>(ps, h2). (p # ps, h2)) (calls cs h1))
   | Free p \<Rightarrow> (case free p h of None \<Rightarrow> None | Some h1 \<Rightarrow> calls cs h1))"

lemmas malloc_eval = malloc_def alloc_need_def round_size_def ALIGN_UP_def mem_consts membin_init_def seg_push_def
  membin_push_def heap_start_def empty_seg_def unsafe_off_def set_bin_def alloc_recycle_def alloc_arena_def alloc_bins_def
  alloc_seg_def membin_pop_def membin_get_def bin_loop.simps ctz32_def ctz32_table_def clear_bit_def set_flags_def Let_def
  mask_eq_exp_minus_1

lemmas free_eval = free_def free_arena_def free_recycle_def free_coalesce_def coalesce_next_def coalesce_prev_def
  seg_remove_def membin_remove_def unlink_loop.simps set_prev_def set_size_def

text \<open>
  Two live blocks can overlap.  The pointers 69656 and 72696 are freed after having been returned, and
  the block at 70808 is never freed; yet the last request of 5000 bytes is served with 69656 to 74656, around it.
  The header behind a split block keeps the size the block had before the split, so freeing 72696
  coalesces backwards over the live block.
\<close>

theorem live_blocks_overlap:
  "\<exists>h. calls [Malloc 3000, Malloc 2000, Free 69656, Malloc 1100, Malloc 600, Free 69656, Free 72696, Malloc 5000]
      (heap_start 4096 ps) = Some ([69656, 72696, 69656, 70808, 69656], h) \<and>
    hdrs h (70808 - HDR) = \<lparr>hsize = 640, prev_size = 1152, flags = HDR_ALLOC\<rparr> \<and>
    hsize (hdrs h (69656 - HDR)) = 5024 \<and> flags (hdrs h (69656 - HDR)) = HDR_ALLOC"
  by (simp add: malloc_eval free_eval)

text \<open>
  A request of 4 GB succeeds with a block of 32 bytes, header included: the rounding mask has 32 bits.
\<close>

theorem huge_request_small_block:
  "\<exists>h. malloc 4294967296 (heap_start 4096 ps) = (h, 69656) \<and> hsize (hdrs h (69656 - HDR)) = 32"
  by (simp add: malloc_eval)

text \<open>
  Growing the last arena block by a size that cannot be represented returns the old pointer
  (and sets \<^verbatim>\<open>errno\<close>) instead of failing: the growth wraps around.
\<close>

theorem realloc_huge_succeeds:
  "\<exists>h h'. malloc 40 (heap_start 4096 ps) = (h, 4120) \<and> realloc 4120 (- 5) h = Some (h', 4120) \<and>
     errno h' = ENOMEM \<and> hsize (hdrs h' (4120 - HDR)) = 0"
  by (simp add: realloc_def malloc_eval tls_refill_def free_eval ENOMEM_def)


end
