(* ===== verification/Lock.thy ===== *)
theory Lock
  imports Memory "HOL-Library.Sublist"
begin

text \<open>
  The allocator's locks (\<^verbatim>\<open>include/core/memory.h\<close>, \<^verbatim>\<open>__jacl_memlock_*\<close>) and \<^verbatim>\<open>fork\<close>
  (\<^verbatim>\<open>include/core/unistd.h\<close>).

  A lock is a ticket lock with 32-bit counters.  Any number of threads below \<open>2\<^sup>32 - 1\<close> interleave at
  the granularity of the atomic operations: drawing a ticket, one test of the waiting loop, the
  release.  The counters wrap around; the bound on the number of threads is what keeps two
  waiting threads from holding the same ticket.
\<close>

section \<open>The lock\<close>

record memlock =
  lnext :: u32
  lowner :: u32

definition memlock_blank :: memlock where
  "memlock_blank = \<lparr>lnext = 0, lowner = 0\<rparr>"

definition take_ticket :: "memlock \<Rightarrow> memlock \<times> u32" where
  "take_ticket l = (l\<lparr>lnext := lnext l + 1\<rparr>, lnext l)"

definition may_enter :: "memlock \<Rightarrow> u32 \<Rightarrow> bool" where
  "may_enter l ticket \<longleftrightarrow> lowner l = ticket"

definition memlock_release :: "memlock \<Rightarrow> memlock" where
  "memlock_release l = l\<lparr>lowner := lowner l + 1\<rparr>"

text \<open>Where a thread is: outside, in the waiting loop of \<^verbatim>\<open>__jacl_memlock_acquire\<close> with its ticket, or past it.\<close>

datatype tstate = Idle | Spin u32 | Hold

datatype event = Take nat | Enter nat | Yield nat | Release nat

type_synonym lock_state = "memlock \<times> (nat \<Rightarrow> tstate)"

definition MAX_THREADS :: nat where
  "MAX_THREADS = 2 ^ 32 - 1"

definition lock_init :: lock_state where
  "lock_init = (memlock_blank, \<lambda>_. Idle)"

inductive lock_step :: "lock_state \<Rightarrow> event \<Rightarrow> lock_state \<Rightarrow> bool" where
  take: "t < MAX_THREADS \<Longrightarrow> ts t = Idle \<Longrightarrow> take_ticket l = (l', k) \<Longrightarrow>
    lock_step (l, ts) (Take t) (l', ts(t := Spin k))"
| enter: "ts t = Spin k \<Longrightarrow> may_enter l k \<Longrightarrow> lock_step (l, ts) (Enter t) (l, ts(t := Hold))"
| yield: "ts t = Spin k \<Longrightarrow> \<not> may_enter l k \<Longrightarrow> lock_step (l, ts) (Yield t) (l, ts)"
| release: "ts t = Hold \<Longrightarrow> lock_step (l, ts) (Release t) (memlock_release l, ts(t := Idle))"

inductive_cases lock_stepE [consumes 1, case_names take enter yield release]: "lock_step (l, ts) e s'"

inductive runs :: "('s \<Rightarrow> 'e \<Rightarrow> 's \<Rightarrow> bool) \<Rightarrow> 's \<Rightarrow> 'e list \<Rightarrow> 's \<Rightarrow> bool" for step where
  stop: "runs step s [] s"
| more: "runs step s es s1 \<Longrightarrow> step s1 e s2 \<Longrightarrow> runs step s (es @ [e]) s2"

inductive_simps runs_Nil [simp]: "runs step s [] s'"

lemma runs_snoc: "runs step s (es @ [e]) s2 \<longleftrightarrow> (\<exists>s1. runs step s es s1 \<and> step s1 e s2)"
  by (subst runs.simps) auto

lemma runs_one: "step s e s' \<Longrightarrow> runs step s [e] s'"
  using runs.more [OF runs.stop] by fastforce

lemma runs_append: "runs step s es s1 \<Longrightarrow> runs step s1 fs s2 \<Longrightarrow> runs step s (es @ fs) s2"
proof (induction fs arbitrary: s2 rule: rev_induct)
  case (snoc f fs)
  then show ?case by (auto simp: runs_snoc simp flip: append_assoc)
qed simp

section \<open>What a fair lock promises\<close>

text \<open>
  The abstract lock is the queue of the threads that have asked for it and not yet released it, in
  the order in which they asked.
\<close>

fun queue_step :: "event \<Rightarrow> nat list \<Rightarrow> nat list" where
  "queue_step (Take t) q = q @ [t]"
| "queue_step (Enter t) q = q"
| "queue_step (Yield t) q = q"
| "queue_step (Release t) q = tl q"

primrec asked :: "event list \<Rightarrow> nat list" where
  "asked [] = []"
| "asked (e # es) = (case e of Take t \<Rightarrow> [t] | _ \<Rightarrow> []) @ asked es"

primrec entered :: "event list \<Rightarrow> nat list" where
  "entered [] = []"
| "entered (e # es) = (case e of Enter t \<Rightarrow> [t] | _ \<Rightarrow> []) @ entered es"

primrec released :: "event list \<Rightarrow> nat list" where
  "released [] = []"
| "released (e # es) = (case e of Release t \<Rightarrow> [t] | _ \<Rightarrow> []) @ released es"

lemma event_lists_append [simp]:
  "asked (es @ fs) = asked es @ asked fs" "entered (es @ fs) = entered es @ entered fs"
  "released (es @ fs) = released es @ released fs"
  by (induction es) auto

locale queue_lock =
  fixes step :: "'s \<Rightarrow> event \<Rightarrow> 's \<Rightarrow> bool"
    and init :: 's
    and rep :: "'s \<Rightarrow> nat list \<Rightarrow> bool"
    and holder :: "'s \<Rightarrow> nat \<Rightarrow> bool"
  assumes init_rep: "rep init []"
    and init_free: "\<not> holder init t"
    and step_rep: "rep s q \<Longrightarrow> step s e s' \<Longrightarrow> rep s' (queue_step e q)"
    and holder_hd: "rep s q \<Longrightarrow> holder s t \<Longrightarrow> q \<noteq> [] \<and> hd q = t"
    and enter: "step s (Enter t) s' \<Longrightarrow> \<not> holder s t \<and> (\<forall>u. holder s' u \<longleftrightarrow> holder s u \<or> u = t)"
    and release: "step s (Release t) s' \<Longrightarrow> holder s t \<and> (\<forall>u. holder s' u \<longleftrightarrow> holder s u \<and> u \<noteq> t)"
    and take: "step s (Take t) s' \<Longrightarrow> holder s' = holder s"
    and yield: "step s (Yield t) s' \<Longrightarrow> holder s' = holder s"
begin

lemma runs_rep: "runs step init es s \<Longrightarrow> \<exists>q. rep s q"
proof (induction es arbitrary: s rule: rev_induct)
  case Nil
  then show ?case using init_rep by auto
next
  case (snoc e es)
  then show ?case using step_rep by (fastforce simp: runs_snoc)
qed

lemma one_holder: "runs step init es s \<Longrightarrow> holder s t \<Longrightarrow> holder s u \<Longrightarrow> t = u"
  using runs_rep holder_hd by blast

text \<open>The history: released threads in front, the queue behind them.\<close>

lemma runs_history:
  "runs step init es s \<Longrightarrow>
   \<exists>q. rep s q \<and> asked es = released es @ q \<and>
     entered es = released es @ (if q \<noteq> [] \<and> holder s (hd q) then [hd q] else [])"
proof (induction es arbitrary: s rule: rev_induct)
  case Nil
  then show ?case using init_rep init_free by auto
next
  case (snoc e es)
  then obtain s1 where s1: "runs step init es s1" "step s1 e s" by (auto simp: runs_snoc)
  from snoc.IH [OF s1(1)] obtain q where q: "rep s1 q" "asked es = released es @ q"
      "entered es = released es @ (if q \<noteq> [] \<and> holder s1 (hd q) then [hd q] else [])"
    by blast
  have rep: "rep s (queue_step e q)" using step_rep q(1) s1(2) .
  show ?case
  proof (cases e)
    case (Take t)
    have "q = [] \<Longrightarrow> \<not> holder s t" using take s1(2) Take q(1) holder_hd by metis
    then show ?thesis using rep q Take take s1(2) by (cases q) auto
  next
    case (Enter t)
    then have "q \<noteq> [] \<and> hd q = t" using holder_hd rep enter s1(2) by fastforce
    then show ?thesis using rep q Enter enter s1(2) by auto
  next
    case (Yield t)
    then show ?thesis using rep q yield s1(2) by auto
  next
    case (Release t)
    then have "holder s1 t" using release s1(2) by blast
    moreover from this have "q \<noteq> [] \<and> hd q = t" using holder_hd q(1) by blast
    ultimately have h: "holder s1 t" "q \<noteq> []" "hd q = t" by simp_all
    have "\<not> holder s u" for u using Release release s1 one_holder h(1) by metis
    then show ?thesis using rep q Release h by (cases q) auto
  qed
qed

lemma entered_in_order: "runs step init es s \<Longrightarrow> prefix (entered es) (asked es)"
  by (drule runs_history) (auto simp: neq_Nil_conv)

end

section \<open>The ticket lock is such a lock\<close>

definition queue_rep :: "lock_state \<Rightarrow> nat list \<Rightarrow> bool" where
  "queue_rep s q \<longleftrightarrow> (case s of (l, ts) \<Rightarrow>
     distinct q \<and> (\<forall>t\<in>set q. t < MAX_THREADS) \<and> (\<forall>t. t \<notin> set q \<longrightarrow> ts t = Idle) \<and>
     lnext l = lowner l + of_nat (length q) \<and>
     (\<forall>i<length q. ts (q ! i) = Spin (lowner l + of_nat i) \<or> i = 0 \<and> ts (q ! i) = Hold))"

definition holder :: "lock_state \<Rightarrow> nat \<Rightarrow> bool" where
  "holder s t \<longleftrightarrow> snd s t = Hold"

lemma queue_rep_bound: "queue_rep s q \<Longrightarrow> length q < 2 ^ 32"
proof -
  assume r: "queue_rep s q"
  then have "set q \<subseteq> {..<MAX_THREADS}" by (auto simp: queue_rep_def split: prod.splits)
  then have "card (set q) \<le> card {..<MAX_THREADS}" by (rule card_mono [OF finite_lessThan])
  moreover have "card (set q) = length q" using r by (auto simp: queue_rep_def distinct_card split: prod.splits)
  ultimately show ?thesis by (simp add: MAX_THREADS_def)
qed

lemma ticket_inj: "i < 2 ^ 32 \<Longrightarrow> j < 2 ^ 32 \<Longrightarrow> (w :: u32) + of_nat i = w + of_nat j \<longleftrightarrow> i = j"
proof -
  assume "i < 2 ^ 32" "j < 2 ^ 32"
  then have "unat (of_nat i :: u32) = i" "unat (of_nat j :: u32) = j" by (simp_all add: unsigned_of_nat take_bit_nat_eq_self)
  then show ?thesis by (metis add_left_cancel)
qed

lemma queue_rep_nth:
  assumes "queue_rep (l, ts) q" "t < length q"
  shows "ts (q ! t) = Spin (lowner l + of_nat t) \<or> t = 0 \<and> ts (q ! t) = Hold"
  using assms by (auto simp: queue_rep_def)

lemma spin_position:
  assumes "queue_rep (l, ts) q" "ts t = Spin k"
  shows "\<exists>i<length q. q ! i = t \<and> k = lowner l + of_nat i"
proof -
  have "t \<in> set q" using assms by (auto simp: queue_rep_def)
  then obtain i where "i < length q" "q ! i = t" by (auto simp: in_set_conv_nth)
  then show ?thesis using queue_rep_nth [OF assms(1)] assms(2) by fastforce
qed

lemma spin_head:
  assumes "queue_rep (l, ts) q" "ts t = Spin k" "may_enter l k"
  shows "q \<noteq> [] \<and> q ! 0 = t"
proof -
  obtain i where i: "i < length q" "q ! i = t" "k = lowner l + of_nat i" using spin_position [OF assms(1,2)] by blast
  then have "lowner l + of_nat i = lowner l + of_nat 0" using assms(3) by (simp add: may_enter_def)
  then have "i = 0" using ticket_inj [of i 0] i(1) queue_rep_bound [OF assms(1)] by auto
  then show ?thesis using i by auto
qed

lemma hold_head:
  assumes "queue_rep (l, ts) q" "ts t = Hold"
  shows "q \<noteq> [] \<and> q ! 0 = t"
proof -
  have "t \<in> set q" using assms by (auto simp: queue_rep_def)
  then obtain i where "i < length q" "q ! i = t" by (auto simp: in_set_conv_nth)
  then show ?thesis using queue_rep_nth [OF assms(1)] assms(2) by fastforce
qed

lemma queue_rep_step:
  assumes r: "queue_rep s q" and st: "lock_step s e s'"
  shows "queue_rep s' (queue_step e q)"
proof -
  obtain l ts where s: "s = (l, ts)" by fastforce
  from st [unfolded s] show ?thesis
  proof (cases rule: lock_stepE)
    case (take t l' k)
    then have new: "t \<notin> set q" using queue_rep_nth r s by (fastforce simp: in_set_conv_nth)
    then show ?thesis using r take s by (auto simp: queue_rep_def take_ticket_def nth_append less_Suc_eq)
  next
    case (enter t k)
    then have "q \<noteq> [] \<and> q ! 0 = t" using spin_head r s by blast
    then show ?thesis using r enter s by (auto simp: queue_rep_def nth_eq_iff_index_eq)
  next
    case (yield t k)
    then show ?thesis using r s by simp
  next
    case (release t)
    then have "q \<noteq> [] \<and> q ! 0 = t" using hold_head r s by blast
    then obtain q' where q: "q = t # q'" by (cases q) auto
    have "ts (q' ! i) = Spin (lowner l + 1 + of_nat i)" if "i < length q'" for i
      using queue_rep_nth [OF r [unfolded s], of "Suc i"] that q by (simp add: add.assoc)
    then show ?thesis using r release s q by (auto simp: queue_rep_def memlock_release_def nth_mem)
  qed
qed

interpretation ticket: queue_lock lock_step lock_init queue_rep holder
proof
  show "queue_rep lock_init []" by (simp add: queue_rep_def lock_init_def memlock_blank_def)
next
  fix s q t assume "queue_rep s q" "holder s t"
  then show "q \<noteq> [] \<and> hd q = t" using hold_head by (cases s) (auto simp: holder_def hd_conv_nth)
qed (auto simp: lock_init_def holder_def fun_eq_iff queue_rep_step elim!: lock_step.cases split: if_splits)

text \<open>
  C4: at most one thread is past \<^verbatim>\<open>__jacl_memlock_acquire\<close> and not yet in \<^verbatim>\<open>__jacl_memlock_release\<close>, in every
  interleaving of any number of threads below \<open>2\<^sup>32 - 1\<close>, also after the counters have wrapped around.
\<close>

theorem lock_mutual_exclusion:
  assumes "runs lock_step lock_init es s" "snd s t = Hold" "snd s u = Hold"
  shows "t = u"
  using ticket.one_holder assms by (auto simp: holder_def)

lemma run_enter:
  "runs lock_step lock_init [Take 7, Enter 7] (\<lparr>lnext = 1, lowner = 0\<rparr>, (\<lambda>_. Idle)(7 := Hold))"
proof -
  let ?l = "\<lparr>lnext = 1, lowner = 0\<rparr>"
  have "lock_step lock_init (Take 7) (?l, (\<lambda>_. Idle)(7 := Spin 0))"
    unfolding lock_init_def by (rule lock_step.take) (simp_all add: MAX_THREADS_def take_ticket_def memlock_blank_def)
  moreover have "lock_step (?l, (\<lambda>_. Idle)(7 := Spin 0)) (Enter 7) (?l, ((\<lambda>_. Idle)(7 := Spin 0))(7 := Hold))"
    by (rule lock_step.enter) (simp_all add: may_enter_def)
  ultimately have "runs lock_step lock_init ([Take 7] @ [Enter 7]) (?l, (\<lambda>_. Idle)(7 := Hold))"
    unfolding runs_snoc by (auto intro: runs_one)
  then show ?thesis by simp
qed

theorem lock_mutual_exclusion_witness:
  "\<exists>s. runs lock_step lock_init [Take 7, Enter 7] s \<and> {u. snd s u = Hold} = {7}"
proof -
  let ?s = "(\<lparr>lnext = 1, lowner = 0\<rparr>, (\<lambda>_. Idle)(7 := Hold))"
  have "{u. snd ?s u = Hold} = {7}" using lock_mutual_exclusion [OF run_enter, of 7] by auto
  then show ?thesis using run_enter by blast
qed

text \<open>
  The lock is fair: threads enter in exactly the order in which they asked for it.
\<close>

theorem lock_first_come:
  assumes "runs lock_step lock_init es s"
  shows "prefix (entered es) (asked es)"
  using ticket.entered_in_order assms .

theorem lock_first_come_witness: "prefix (entered [Take 7, Enter 7]) (asked [Take 7, Enter 7])"
  by (rule lock_first_come [OF run_enter])

section \<open>Waiting is bounded\<close>

definition ahead :: "lock_state \<Rightarrow> u32 \<Rightarrow> nat" where
  "ahead s k = unat (k - lowner (fst s))"

lemma ahead_nth: "i < 2 ^ 32 \<Longrightarrow> ahead (l, ts) (lowner l + of_nat i) = i"
  by (simp add: ahead_def unsigned_of_nat take_bit_nat_eq_self)

lemma release_ahead:
  assumes r: "queue_rep (l, ts) q" and t: "ts t = Spin k" and u: "ts u = Hold"
  shows "Suc (ahead (memlock_release l, ts') k) = ahead (l, ts) k"
proof -
  obtain i where i: "i < length q" "q ! i = t" "k = lowner l + of_nat i" using spin_position [OF r t] by blast
  have "i \<noteq> 0" using i hold_head [OF r u] t u by (cases i) auto
  then obtain j where j: "i = Suc j" by (cases i) auto
  have "i < 2 ^ 32" using i(1) queue_rep_bound [OF r] by simp
  then have "ahead (l, ts) k = i" "ahead (memlock_release l, ts') (lowner (memlock_release l) + of_nat j) = j"
    unfolding i(3) using ahead_nth [of i] ahead_nth [of j] j by simp_all
  moreover have "k = lowner (memlock_release l) + of_nat j" using i(3) j by (simp add: memlock_release_def)
  ultimately show ?thesis using j by simp
qed

lemma spin_step:
  assumes r: "queue_rep s q" and t: "snd s t = Spin k" and st: "lock_step s e s'" "e \<noteq> Enter t"
  shows "snd s' t = Spin k \<and> ahead s' k + length (released [e]) = ahead s k"
proof -
  obtain l ts where s: "s = (l, ts)" by fastforce
  from st(1) [unfolded s] show ?thesis
  proof (cases rule: lock_stepE)
    case (release u)
    then show ?thesis using release_ahead [of l ts q t k u] r t s by auto
  qed (use t st s in \<open>auto simp: ahead_def take_ticket_def\<close>)
qed

lemma spin_runs:
  "runs lock_step s es s' \<Longrightarrow> queue_rep s q \<Longrightarrow> snd s t = Spin k \<Longrightarrow> t \<notin> set (entered es) \<Longrightarrow>
   snd s' t = Spin k \<and> ahead s' k + length (released es) = ahead s k \<and> (\<exists>q'. queue_rep s' q')"
proof (induction es arbitrary: s' rule: rev_induct)
  case (snoc e es)
  then obtain s1 where s1: "runs lock_step s es s1" "lock_step s1 e s'" by (auto simp: runs_snoc)
  have IH: "snd s1 t = Spin k" "ahead s1 k + length (released es) = ahead s k" "\<exists>q'. queue_rep s1 q'"
    using snoc s1(1) by auto
  have "e \<noteq> Enter t" using snoc.prems(4) by auto
  moreover obtain q1 where q1: "queue_rep s1 q1" using IH(3) by blast
  ultimately have "snd s' t = Spin k" "ahead s' k + length (released [e]) = ahead s1 k"
    using spin_step [OF q1 IH(1) s1(2)] by blast+
  then show ?case using IH(2) queue_rep_step [OF q1 s1(2)] by auto
qed auto

lemma next_turn:
  assumes r: "queue_rep s q" and t: "snd s t = Spin k" and d: "ahead s k = Suc d"
  shows "\<exists>es s'. runs lock_step s es s' \<and> length es \<le> 2 \<and> t \<notin> set (entered es) \<and> length (released es) = 1"
proof -
  obtain l ts where s: "s = (l, ts)" by fastforce
  obtain i where i: "i < length q" "q ! i = t" "k = lowner l + of_nat i" using spin_position r t s by fastforce
  have i0: "i \<noteq> 0"
  proof
    assume "i = 0"
    then show False using i(3) d s by (simp add: ahead_def)
  qed
  define u where "u = q ! 0"
  have "distinct q" using r s by (simp add: queue_rep_def)
  then have u: "u \<noteq> t" unfolding u_def i(2) [symmetric] using i(1) i0 nth_eq_iff_index_eq [of q 0 i] by force
  have "ts u = Spin (lowner l) \<or> ts u = Hold" using queue_rep_nth [of l ts q 0] r s i(1) by (cases q) (auto simp: u_def)
  then show ?thesis
  proof
    assume "ts u = Spin (lowner l)"
    then have "lock_step s (Enter u) (l, ts(u := Hold))" unfolding s by (rule lock_step.enter) (simp add: may_enter_def)
    moreover have "lock_step (l, ts(u := Hold)) (Release u) (memlock_release l, (ts(u := Hold))(u := Idle))"
      by (rule lock_step.release) simp
    ultimately have "runs lock_step s ([Enter u] @ [Release u]) (memlock_release l, (ts(u := Hold))(u := Idle))"
      unfolding runs_snoc by (blast intro: runs_one)
    then show ?thesis using u by (intro exI) (auto intro: exI [of _ "[Enter u, Release u]"])
  next
    assume "ts u = Hold"
    then have "runs lock_step s [Release u] (memlock_release l, ts(u := Idle))"
      unfolding s by (intro runs_one lock_step.release)
    then show ?thesis using u by (intro exI [of _ "[Release u]"]) auto
  qed
qed

lemma turn_comes:
  "queue_rep s q \<Longrightarrow> snd s t = Spin k \<Longrightarrow> ahead s k = d \<Longrightarrow>
   \<exists>es s'. runs lock_step s es s' \<and> length es \<le> 2 * d + 1 \<and> snd s' t = Hold"
proof (induction d arbitrary: s q)
  case 0
  obtain l ts where s: "s = (l, ts)" by fastforce
  have "k = lowner l" using 0(3) s by (simp add: ahead_def unsigned_eq_0_iff)
  then have "lock_step s (Enter t) (l, ts(t := Hold))" using 0(2) s by (auto intro: lock_step.enter simp: may_enter_def)
  then show ?case by (intro exI [of _ "[Enter t]"] exI [of _ "(l, ts(t := Hold))"]) (simp add: runs_one)
next
  case (Suc d)
  then obtain es s1 where es: "runs lock_step s es s1" "length es \<le> 2" "t \<notin> set (entered es)" "length (released es) = 1"
    using next_turn by blast
  have s1: "snd s1 t = Spin k" "ahead s1 k = d" "\<exists>q'. queue_rep s1 q'"
    using spin_runs [OF es(1) Suc.prems(1,2) es(3)] es(4) Suc.prems(3) by auto
  then obtain fs s' where "runs lock_step s1 fs s'" "length fs \<le> 2 * d + 1" "snd s' t = Hold" using Suc.IH by blast
  then show ?case using runs_append [OF es(1)] es(2) by (intro exI [of _ "es @ fs"] exI [of _ s']) auto
qed

text \<open>
  C13: a waiting thread is never passed and never stuck: if \<open>d\<close> tickets are before its own, then
  whatever the scheduler does at most \<open>d\<close> releases happen before it enters, and there is always a continuation
  of at most \<open>2 d + 1\<close> steps after which it holds the lock.
\<close>

theorem lock_bounded_waiting:
  assumes "runs lock_step lock_init es s" "snd s t = Spin k"
  shows "(\<forall>fs s'. runs lock_step s fs s' \<and> t \<notin> set (entered fs) \<longrightarrow> length (released fs) \<le> ahead s k) \<and>
    (\<exists>fs s'. runs lock_step s fs s' \<and> length fs \<le> 2 * ahead s k + 1 \<and> snd s' t = Hold)"
proof -
  obtain q where q: "queue_rep s q" using ticket.runs_rep assms(1) by blast
  then show ?thesis using spin_runs [OF _ q assms(2)] turn_comes [OF q assms(2) refl] by fastforce
qed

theorem lock_bounded_waiting_witness:
  "\<exists>fs s'. runs lock_step (\<lparr>lnext = 1, lowner = 0\<rparr>, (\<lambda>_. Idle)(7 := Spin 0)) fs s' \<and> length fs \<le> 1 \<and> snd s' 7 = Hold"
proof -
  let ?s = "(\<lparr>lnext = 1, lowner = 0\<rparr>, (\<lambda>_. Idle)(7 := Spin 0))"
  have "runs lock_step lock_init [Take 7] ?s" unfolding lock_init_def
    by (intro runs_one lock_step.take) (simp_all add: MAX_THREADS_def take_ticket_def memlock_blank_def)
  from lock_bounded_waiting [OF this, of 7 0] show ?thesis by (simp add: ahead_def)
qed

section \<open>All locks, and fork\<close>

text \<open>
  \<^verbatim>\<open>fork\<close> takes the thirty-two class locks and the growth lock, and releases them in the parent and in the
  child.  Other threads may hold locks, and draw tickets behind the forking thread while it waits or holds: \<open>late i\<close> is the number of
  tickets drawn after its own on lock \<open>i\<close> (32 is the growth lock) that still wait when the lock is released.  The waiting loop ends when
  the threads ahead have released the lock, with the owner at the ticket drawn.  \<open>pid\<close> is what the system call returns; the result is the
  state of the process in which it returned that, the child for 0.
\<close>

record mem_state =
  locks :: "memlock list"
  growth :: memlock
  mheap :: heap

definition memlock_acquire :: "nat \<Rightarrow> memlock \<Rightarrow> memlock" where
  "memlock_acquire late l = (case take_ticket l of (l', ticket) \<Rightarrow> l'\<lparr>lnext := lnext l' + of_nat late, lowner := ticket\<rparr>)"

primrec acquire_locks :: "(nat \<Rightarrow> nat) \<Rightarrow> nat \<Rightarrow> memlock list \<Rightarrow> memlock list" where
  "acquire_locks late 0 ls = ls"
| "acquire_locks late (Suc i) ls = acquire_locks late i (ls[i := memlock_acquire (late i) (ls ! i)])"

definition memlock_block :: "(nat \<Rightarrow> nat) \<Rightarrow> mem_state \<Rightarrow> mem_state" where
  "memlock_block late s = s\<lparr>locks := acquire_locks late 32 (locks s), growth := memlock_acquire (late 32) (growth s)\<rparr>"

primrec release_locks :: "nat \<Rightarrow> memlock list \<Rightarrow> memlock list" where
  "release_locks 0 ls = ls"
| "release_locks (Suc i) ls = release_locks i (ls[i := memlock_release (ls ! i)])"

definition memlock_clear :: "mem_state \<Rightarrow> mem_state" where
  "memlock_clear s = s\<lparr>locks := release_locks 32 (locks s), growth := memlock_release (growth s)\<rparr>"

definition memlock_reset :: "mem_state \<Rightarrow> mem_state" where
  "memlock_reset s = memlock_clear (s\<lparr>mheap := (mheap s)\<lparr>tls_off := HEAP_INIT div 4, tls_end := HEAP_INIT div 4,
     segs := (if segs (mheap s) = [] then [empty_seg 0 0] else segs (mheap s)), once := True\<rparr>\<rparr>)"

definition fork :: "(nat \<Rightarrow> nat) \<Rightarrow> int \<Rightarrow> mem_state \<Rightarrow> mem_state" where
  "fork late pid s =
     (let s1 = memlock_block late s
      in if pid = 0 then memlock_reset s1 else if pid > 0 then memlock_clear s1 else s1)"

text \<open>A lock that is free, and what a thread finds that acquires a lock with no other thread running: \<open>None\<close> is a waiting loop that never ends.\<close>

definition lock_free :: "memlock \<Rightarrow> bool" where
  "lock_free l \<longleftrightarrow> lnext l = lowner l"

definition acquire_alone :: "memlock \<Rightarrow> memlock option" where
  "acquire_alone l = (case take_ticket l of (l', k) \<Rightarrow> if may_enter l' k then Some l' else None)"

definition all_locks :: "mem_state \<Rightarrow> memlock list" where
  "all_locks s = locks s @ [growth s]"

text \<open>
  \<open>memlock_acquire\<close> is what the interleaving semantics gives: a thread draws its ticket, the waiting loop runs while other threads do
  anything, it enters, and other threads go on until the thread releases.  The lock is then the one computed with the number of tickets
  the others drew in between.
\<close>

lemma spin_run:
  assumes "runs lock_step s es s'" "snd s t = Spin k" "t \<notin> set (entered es)"
  shows "snd s' t = Spin k \<and> lnext (fst s') = lnext (fst s) + of_nat (length (asked es))"
  using assms
proof (induction rule: runs.induct)
  case (more s es s1 e s2)
  then have "snd s1 t = Spin k \<and> lnext (fst s1) = lnext (fst s) + of_nat (length (asked es))" by auto
  with more.hyps(2) more.prems(2) show ?case by cases (auto simp: take_ticket_def memlock_release_def ac_simps)
qed simp

lemma hold_run:
  assumes "runs lock_step s es s'" "runs lock_step lock_init es0 s" "snd s t = Hold" "t \<notin> set (released es)"
  shows "snd s' t = Hold \<and> lnext (fst s') = lnext (fst s) + of_nat (length (asked es)) \<and> lowner (fst s') = lowner (fst s)"
  using assms
proof (induction rule: runs.induct)
  case (more s es s1 e s2)
  then have h: "snd s1 t = Hold \<and> lnext (fst s1) = lnext (fst s) + of_nat (length (asked es)) \<and> lowner (fst s1) = lowner (fst s)" by auto
  obtain q where "queue_rep s1 q" using ticket.runs_rep [OF runs_append [OF more.prems(1) more.hyps(1)]] by blast
  then have one: "snd s1 u = Hold \<Longrightarrow> u = t" for u using hold_head [of "fst s1" "snd s1" q] h by (metis prod.collapse)
  have "e \<noteq> Release u" for u
  proof
    assume e: "e = Release u"
    then have "snd s1 u = Hold" using more.hyps(2) by (auto elim: lock_step.cases)
    then show False using one more.prems(3) e by simp
  qed
  with more.hyps(2) h show ?case by cases (auto simp: take_ticket_def ac_simps)
qed simp

lemma acquire_interleaved:
  assumes "runs lock_step lock_init es0 s0" "lock_step s0 (Take t) s1" "runs lock_step s1 es s2" "lock_step s2 (Enter t) s3"
    "runs lock_step s3 fs s4" "t \<notin> set (entered es)" "t \<notin> set (released fs)"
  shows "fst s4 = memlock_acquire (length (asked es) + length (asked fs)) (fst s0)"
proof -
  have s1: "snd s1 t = Spin (lnext (fst s0))" "lnext (fst s1) = lnext (fst s0) + 1"
    using assms(2) by (auto elim!: lock_step.cases simp: take_ticket_def)
  have s2: "snd s2 t = Spin (lnext (fst s0)) \<and> lnext (fst s2) = lnext (fst s0) + 1 + of_nat (length (asked es))"
    using spin_run [OF assms(3) s1(1) assms(6)] s1(2) by simp
  have s3: "snd s3 t = Hold" "lnext (fst s3) = lnext (fst s2)" "lowner (fst s3) = lnext (fst s0)"
    using assms(4) s2 by (auto elim!: lock_step.cases simp: may_enter_def)
  have "runs lock_step lock_init (es0 @ [Take t] @ es @ [Enter t]) s3"
    by (intro runs_append [OF assms(1)] runs_append [OF runs_one [of lock_step, OF assms(2)]] runs_append [OF assms(3)] runs_one [of lock_step, OF assms(4)])
  from hold_run [OF assms(5) this s3(1) assms(7)] show ?thesis
    using s2 s3 by (simp add: memlock_acquire_def take_ticket_def ac_simps)
qed

lemma acquire_alone_eq: "acquire_alone l = None \<longleftrightarrow> \<not> lock_free l"
  by (auto simp: acquire_alone_def take_ticket_def may_enter_def lock_free_def)

lemma acquire_locks_nth:
  "n \<le> length ls \<Longrightarrow> i < length ls \<Longrightarrow> acquire_locks late n ls ! i = (if i < n then memlock_acquire (late i) (ls ! i) else ls ! i)"
  by (induction n arbitrary: ls) (auto simp: nth_list_update less_Suc_eq)

lemma release_locks_nth:
  "n \<le> length ls \<Longrightarrow> i < length ls \<Longrightarrow> release_locks n ls ! i = (if i < n then memlock_release (ls ! i) else ls ! i)"
  by (induction n arbitrary: ls) (auto simp: nth_list_update less_Suc_eq)

lemma locks_length [simp]: "length (acquire_locks late n ls) = length ls" "length (release_locks n ls) = length ls"
  by (induction n arbitrary: ls) simp_all

lemma fork_lock:
  assumes "length (locks s) = 32" "i < 33"
  shows "all_locks (fork late pid s) ! i =
    (if pid \<ge> 0 then memlock_release (memlock_acquire (late i) (all_locks s ! i)) else memlock_acquire (late i) (all_locks s ! i))"
proof (cases "i = 32")
  case True
  then show ?thesis using assms
    by (auto simp: all_locks_def fork_def memlock_block_def memlock_reset_def memlock_clear_def Let_def nth_append)
next
  case False
  then show ?thesis using assms
    by (auto simp: all_locks_def fork_def memlock_block_def memlock_reset_def memlock_clear_def Let_def nth_append acquire_locks_nth release_locks_nth)
qed

lemma late_free: "n < 2 ^ 32 \<Longrightarrow> (of_nat n :: u32) = 0 \<longleftrightarrow> n = 0"
  using of_nat_inverse [of n "0 :: u32"] by auto

text \<open>
  C40: the allocator's locks across \<^verbatim>\<open>fork\<close>, with other threads contending, when the threads ahead release what they hold.  After
  a successful \<^verbatim>\<open>fork\<close> each lock is at the ticket after the forking thread's.  In the parent that lets the first waiting thread in.  In the
  child, where no other thread exists, a lock is free exactly when no thread was waiting for it at the fork; otherwise the next call that needs it
  waits forever.  If the system call fails, every lock stays held by the forking thread, and whoever acquires it waits forever.
\<close>

theorem fork_locks:
  assumes "length (locks s) = 32" "i < 33" "late i < MAX_THREADS"
  shows "let l = all_locks s ! i; l' = all_locks (fork late pid s) ! i in
    (pid \<ge> 0 \<longrightarrow> may_enter l' (lnext l + 1) \<and> lnext l' = lnext l + 1 + of_nat (late i) \<and>
       (acquire_alone l' = None \<longleftrightarrow> late i \<noteq> 0)) \<and>
    (pid < 0 \<longrightarrow> may_enter l' (lnext l) \<and> acquire_alone l' = None)"
proof -
  have z: "(of_nat (late i) :: u32) = 0 \<longleftrightarrow> late i = 0" "(1 + of_nat (late i) :: u32) \<noteq> 0"
    using late_free [of "late i"] late_free [of "Suc (late i)"] assms(3) by (auto simp: MAX_THREADS_def)
  show ?thesis unfolding Let_def fork_lock [OF assms(1,2)] using z
    by (auto simp: memlock_acquire_def take_ticket_def memlock_release_def may_enter_def acquire_alone_eq lock_free_def add.assoc)
qed

theorem fork_locks_witness:
  "acquire_alone (all_locks (fork (\<lambda>i. if i = 3 then 1 else 0) 0
     \<lparr>locks = replicate 32 memlock_blank, growth = memlock_blank, mheap = heap_start 4096 []\<rparr>) ! 3) = None"
  using fork_locks [of "\<lparr>locks = replicate 32 memlock_blank, growth = memlock_blank, mheap = heap_start 4096 []\<rparr>" 3 "\<lambda>i. if i = 3 then 1 else 0" 0]
  by (simp add: MAX_THREADS_def Let_def)

end
