(* ===== verification/CryptoBase.thy ===== *)
theory CryptoBase
  imports Prelude
begin

text \<open>
  The building blocks of \<^verbatim>\<open>include/crypto/base.h\<close>.  The buffers of the crypto headers are byte lists: a
  pointer into a buffer is the list from there on, a fixed-size output array the list written.
\<close>

unbundle bit_operations_syntax

section \<open>Rotation\<close>

definition rotl32 :: "u32 \<Rightarrow> nat \<Rightarrow> u32" where
  "rotl32 v r = push_bit (r mod 32) v OR drop_bit ((32 - r mod 32) mod 32) v"

definition rotr32 :: "u32 \<Rightarrow> nat \<Rightarrow> u32" where
  "rotr32 v r = drop_bit (r mod 32) v OR push_bit ((32 - r mod 32) mod 32) v"

definition rotl64 :: "u64 \<Rightarrow> nat \<Rightarrow> u64" where
  "rotl64 v r = push_bit (r mod 64) v OR drop_bit ((64 - r mod 64) mod 64) v"

definition rotr64 :: "u64 \<Rightarrow> nat \<Rightarrow> u64" where
  "rotr64 v r = drop_bit (r mod 64) v OR push_bit ((64 - r mod 64) mod 64) v"

section \<open>Loads and stores\<close>

definition load32_be :: "byte list \<Rightarrow> u32" where
  "load32_be p = push_bit 24 (ucast (p ! 0)) OR push_bit 16 (ucast (p ! 1)) OR push_bit 8 (ucast (p ! 2)) OR ucast (p ! 3)"

definition load32_le :: "byte list \<Rightarrow> u32" where
  "load32_le p = push_bit 24 (ucast (p ! 3)) OR push_bit 16 (ucast (p ! 2)) OR push_bit 8 (ucast (p ! 1)) OR ucast (p ! 0)"

definition load64_be :: "byte list \<Rightarrow> u64" where
  "load64_be p = push_bit 32 (ucast (load32_be p)) OR ucast (load32_be (drop 4 p))"

definition load64_le :: "byte list \<Rightarrow> u64" where
  "load64_le p = push_bit 32 (ucast (load32_le (drop 4 p))) OR ucast (load32_le p)"

definition store32_be :: "u32 \<Rightarrow> byte list" where
  "store32_be v = [ucast (drop_bit 24 v), ucast (drop_bit 16 v), ucast (drop_bit 8 v), ucast v]"

definition store32_le :: "u32 \<Rightarrow> byte list" where
  "store32_le v = [ucast v, ucast (drop_bit 8 v), ucast (drop_bit 16 v), ucast (drop_bit 24 v)]"

text \<open>
  The two 64-bit stores declare a variable \<^verbatim>\<open>__vv\<close> for their value and expand the 32-bit store on an expression of it.  The
  32-bit store declares an inner variable of the same name, so its initialiser reads the inner variable, which holds no
  value yet: the caller's value never reaches the buffer.  What is stored is the two 32-bit words that happen to be in
  the inner variable; they are an argument \<open>g\<close> of the model, chosen by nobody, and every theorem holds for all of them.
\<close>

type_synonym stale = "u32 \<times> u32"

definition store64_be :: "stale \<Rightarrow> u64 \<Rightarrow> byte list" where
  "store64_be g v = store32_be (fst g) @ store32_be (snd g)"

definition store64_le :: "stale \<Rightarrow> u64 \<Rightarrow> byte list" where
  "store64_le g v = store32_le (fst g) @ store32_le (snd g)"

text \<open>The encodings of a 64-bit word the comments of the two macros announce and the standards ask for.\<close>

definition be64 :: "u64 \<Rightarrow> byte list" where
  "be64 v = store32_be (ucast (drop_bit 32 v)) @ store32_be (ucast v)"

definition le64 :: "u64 \<Rightarrow> byte list" where
  "le64 v = store32_le (ucast v) @ store32_le (ucast (drop_bit 32 v))"

definition load3 :: "byte list \<Rightarrow> int" where
  "load3 p = uint (p ! 0) OR push_bit 8 (uint (p ! 1)) OR push_bit 16 (uint (p ! 2))"

definition load4 :: "byte list \<Rightarrow> int" where
  "load4 p = uint (p ! 0) OR push_bit 8 (uint (p ! 1)) OR push_bit 16 (uint (p ! 2)) OR push_bit 24 (uint (p ! 3))"

section \<open>Constant-time helpers and bulk operations\<close>

primrec memcmp_acc :: "byte \<Rightarrow> (byte \<times> byte) list \<Rightarrow> byte" where
  "memcmp_acc d [] = d"
| "memcmp_acc d (xy # xys) = memcmp_acc (d OR (fst xy XOR snd xy)) xys"

definition timingsafe_memcmp :: "byte list \<Rightarrow> byte list \<Rightarrow> nat \<Rightarrow> int" where
  "timingsafe_memcmp a b n = uint (memcmp_acc 0 (zip (take n a) (take n b)))"

definition explicit_bzero :: "nat \<Rightarrow> byte list \<Rightarrow> byte list" where
  "explicit_bzero n p = replicate n 0 @ drop n p"

definition ct_select :: "byte list \<Rightarrow> byte list \<Rightarrow> nat \<Rightarrow> int \<Rightarrow> byte list" where
  "ct_select a b n c =
     (let mask = - (if c \<noteq> 0 then 1 else 0 :: byte) in
      map2 (\<lambda>x y. (x AND NOT mask) OR (y AND mask)) (take n a) (take n b))"

definition memxor :: "byte list \<Rightarrow> byte list \<Rightarrow> nat \<Rightarrow> byte list" where
  "memxor dst src n = map2 (XOR) (take n dst) (take n src) @ drop n dst"

definition memxor3 :: "byte list \<Rightarrow> byte list \<Rightarrow> nat \<Rightarrow> byte list" where
  "memxor3 a b n = map2 (XOR) (take n a) (take n b)"

section \<open>What they compute\<close>

lemma length_store [simp]:
  "length (store32_be v) = 4" "length (store32_le v) = 4" "length (be64 w) = 8" "length (le64 w) = 8"
  "length (store64_be g w) = 8" "length (store64_le g w) = 8"
  by (simp_all add: store32_be_def store32_le_def be64_def le64_def store64_be_def store64_le_def)

text \<open>The carry of an addition in two words.\<close>

lemma carry_div:
  fixes B :: nat
  assumes "d < B"
  shows "((x + d) mod B < d \<longleftrightarrow> (x + d) div B = Suc (x div B)) \<and> (\<not> (x + d) mod B < d \<longleftrightarrow> (x + d) div B = x div B)"
proof -
  have B: "0 < B" "x mod B < B" using assms by auto
  have d: "(x + d) div B = x div B + (x mod B + d) div B" "(x + d) mod B = (x mod B + d) mod B"
    using div_add1_eq [of x d B] assms by (simp_all add: mod_simps)
  consider "x mod B + d < B" | "B \<le> x mod B + d" "x mod B + d < 2 * B" using B(2) assms by linarith
  then show ?thesis
  proof cases
    case 1
    then show ?thesis unfolding d by simp
  next
    case 2
    then have "x mod B + d - B < B" by linarith
    then have "(x mod B + d) div B = 1" "(x mod B + d) mod B = x mod B + d - B"
      using 2 B by (simp_all add: le_div_geq le_mod_geq)
    moreover have "x mod B + d - B < d" using 2(1) B(2) by linarith
    ultimately show ?thesis unfolding d by simp
  qed
qed

lemma bit_out_of_range: "LENGTH('a) \<le> n \<Longrightarrow> \<not> bit (x :: 'a::len word) n"
  using bit_imp_le_length by fastforce

text \<open>A rotation composed of two shifts, for any width.\<close>

lemma shifts_rotl:
  fixes v :: "'a::len word"
  assumes "m < LENGTH('a)"
  shows "push_bit m v OR drop_bit ((LENGTH('a) - m) mod LENGTH('a)) v = word_rotl m v"
proof (rule bit_word_eqI)
  fix n assume n: "n < LENGTH('a)"
  show "bit (push_bit m v OR drop_bit ((LENGTH('a) - m) mod LENGTH('a)) v) n = bit (word_rotl m v) n"
  proof (cases "m = 0")
    case True
    then show ?thesis using n by (simp add: bit_simps)
  next
    case False
    then have e: "(LENGTH('a) - m) mod LENGTH('a) = LENGTH('a) - m" by simp
    show ?thesis
    proof (cases "m \<le> n")
      case True
      then have "(n + (LENGTH('a) - m)) mod LENGTH('a) = n - m"
        using n by (simp add: mod_if)
      then show ?thesis using n True assms unfolding e by (auto simp: bit_simps bit_out_of_range)
    next
      case False
      then show ?thesis using n assms unfolding e by (auto simp: bit_simps bit_out_of_range add.commute)
    qed
  qed
qed

lemma rotl32_word: "rotl32 v r = word_rotl (r mod 32) v"
  unfolding rotl32_def using shifts_rotl [of "r mod 32" v] by simp

lemma rotl64_word: "rotl64 v r = word_rotl (r mod 64) v"
  unfolding rotl64_def using shifts_rotl [of "r mod 64" v] by simp

lemma rotl_rotr: "m \<le> LENGTH('a) \<Longrightarrow> word_rotl (LENGTH('a) - m) v = word_rotr m (v :: 'a::len word)"
proof (rule bit_word_eqI)
  fix n assume "m \<le> LENGTH('a)" "n < LENGTH('a)"
  then show "bit (word_rotl (LENGTH('a) - m) v) n = bit (word_rotr m v) n"
    by (cases "m = 0"; cases "m = LENGTH('a)") (simp_all add: bit_simps add.commute)
qed

lemma quarters:
  fixes n :: nat
  assumes "n < 32"
  obtains "n < 8" | "8 \<le> n" "n < 16" | "16 \<le> n" "n < 24" | "24 \<le> n" "n < 32"
  using assms by linarith

lemma load_store32 [simp]: "load32_be (store32_be v) = v" "load32_le (store32_le v) = v"
proof -
  show "load32_be (store32_be v) = v"
  proof (rule bit_word_eqI)
    fix n assume "n < LENGTH(32)"
    then have "n < 32" by simp
    then show "bit (load32_be (store32_be v)) n = bit v n"
      by (cases rule: quarters) (auto simp: load32_be_def store32_be_def bit_simps)
  qed
  then show "load32_le (store32_le v) = v"
    by (simp add: load32_be_def store32_be_def load32_le_def store32_le_def)
qed

text \<open>
  The 64-bit stores do not depend on their value, and are the encoding announced only when the stale words happen to be
  the two halves of the value.
\<close>

definition halves_be :: "u64 \<Rightarrow> stale" where
  "halves_be v = (ucast (drop_bit 32 v), ucast v)"

definition halves_le :: "u64 \<Rightarrow> stale" where
  "halves_le v = (ucast v, ucast (drop_bit 32 v))"

lemma store32_inject: "store32_be v = store32_be w \<longleftrightarrow> v = w" "store32_le v = store32_le w \<longleftrightarrow> v = w"
  by (metis load_store32(1)) (metis load_store32(2))

lemma store64_stale: "store64_be g v = store64_be g w" "store64_le g v = store64_le g w"
  by (simp_all add: store64_be_def store64_le_def)

lemma store64_iff: "store64_be g w = be64 v \<longleftrightarrow> g = halves_be v" "store64_le g w = le64 v \<longleftrightarrow> g = halves_le v"
  by (cases g; simp add: store64_be_def store64_le_def be64_def le64_def halves_be_def halves_le_def store32_inject)+

lemma list4: "length p = 4 \<Longrightarrow> p = [p ! 0, p ! 1, p ! 2, p ! 3]"
  by (rule nth_equalityI) (auto simp: nth_Cons numeral_2_eq_2 numeral_3_eq_3 split: nat.splits)

lemma store_load32:
  assumes "length p = 4"
  shows "store32_be (load32_be p) = p" and "store32_le (load32_le p) = p"
proof -
  have 1: "ucast (drop_bit 24 v) = a" "ucast (drop_bit 16 v) = b" "ucast (drop_bit 8 v) = c" "ucast v = d"
    if "v = push_bit 24 (ucast a) OR push_bit 16 (ucast b) OR push_bit 8 (ucast c) OR ucast d"
    for v :: u32 and a b c d :: byte
    unfolding that by (rule bit_word_eqI; simp add: bit_simps bit_out_of_range)+
  show "store32_be (load32_be p) = p"
    using list4 [OF assms] by (simp add: store32_be_def 1 [OF load32_be_def [of p]])
  show "store32_le (load32_le p) = p"
    using list4 [OF assms] by (simp add: store32_le_def 1 [OF load32_le_def [of p]])
qed

lemma load_store64 [simp]: "load64_be (be64 v) = v" "load64_le (le64 v) = v"
proof -
  have 1: "push_bit 32 (ucast (ucast (drop_bit 32 v) :: u32)) OR ucast (ucast v :: u32) = v"
    by (rule bit_word_eqI) (auto simp: bit_simps)
  have 2: "load32_be (store32_be a @ b) = a" "load32_le (store32_le a @ b) = a" for a b
    using load_store32 [of a] by (simp_all add: load32_be_def store32_be_def load32_le_def store32_le_def)
  show "load64_be (be64 v) = v" "load64_le (le64 v) = v"
    by (simp_all add: load64_be_def be64_def load64_le_def le64_def 1 2)
qed

lemma store_load64:
  assumes "length p = 8"
  shows "be64 (load64_be p) = p" and "le64 (load64_le p) = p"
proof -
  have 1: "ucast (drop_bit 32 v) = a" "ucast v = b" if "v = push_bit 32 (ucast a) OR ucast b" for v :: u64 and a b :: u32
    unfolding that by (rule bit_word_eqI; simp add: bit_simps bit_out_of_range)+
  have t: "load32_be p = load32_be (take 4 p)" "load32_le p = load32_le (take 4 p)"
    by (simp_all add: load32_be_def load32_le_def)
  have l: "length (take 4 p) = 4" "length (drop 4 p) = 4" using assms by simp_all
  show "be64 (load64_be p) = p"
    using 1 [OF load64_be_def [of p]] store_load32 (1) [OF l(1)] store_load32 (1) [OF l(2)]
    by (simp add: be64_def flip: t(1))
  show "le64 (load64_le p) = p"
    using 1 [OF load64_le_def [of p]] store_load32 (2) [OF l(1)] store_load32 (2) [OF l(2)]
    by (simp add: le64_def flip: t(2))
qed

lemma xor_0_iff: "x XOR y = 0 \<longleftrightarrow> x = (y :: 'a::len word)"
proof
  assume "x XOR y = 0"
  then have "(x XOR y) XOR y = 0 XOR y" by (rule arg_cong)
  then show "x = y" by (simp only: xor.assoc xor_self_eq xor.left_neutral xor.right_neutral)
qed simp

lemma memcmp_acc_0: "memcmp_acc d xys = 0 \<longleftrightarrow> d = 0 \<and> list_all (\<lambda>(x, y). x = y) xys"
proof (induction xys arbitrary: d)
  case (Cons xy xys)
  show ?case using xor_0_iff [of "fst xy" "snd xy"] Cons.IH [of "d OR (fst xy XOR snd xy)"] or_eq_0_iff [of d "fst xy XOR snd xy"]
    by (simp add: case_prod_beta conj_assoc)
qed simp

lemma zip_all_eq: "length a = length b \<Longrightarrow> list_all (\<lambda>(x, y). x = y) (zip a b) \<longleftrightarrow> a = b"
  by (induction a b rule: list_induct2) auto

lemma timingsafe_memcmp_0:
  assumes "n \<le> length a" "n \<le> length b"
  shows "timingsafe_memcmp a b n = 0 \<longleftrightarrow> take n a = take n b"
  using zip_all_eq [of "take n a" "take n b"] assms
  by (simp add: timingsafe_memcmp_def memcmp_acc_0 unsigned_eq_0_iff)

lemma ct_select_eq:
  assumes "n \<le> length a" "n \<le> length b"
  shows "ct_select a b n c = take n (if c = 0 then a else b)"
  using assms by (auto simp: ct_select_def intro!: nth_equalityI)

lemma memxor3_inverse:
  assumes "n \<le> length a" "n \<le> length b"
  shows "memxor3 (memxor3 a b n) b n = take n a"
  using assms by (auto simp: memxor3_def xor.assoc intro!: nth_equalityI)

end
