(* ===== verification/Digest.thy ===== *)
theory Digest
  imports CryptoBase
begin

text \<open>
  What the iterated hashes of \<^verbatim>\<open>include/crypto\<close> share.  A context buffers the message bytes one at a
  time, compresses each full block and pads at the end.  The specification takes the whole message at
  once: append \<open>0x80\<close>, zeros and the length, cut into blocks, fold the compression function.  The locale
  \<open>md_hash\<close> proves once that the incremental code computes the specification; the theories of the
  individual hashes interpret it.
\<close>

record ('w, 'l) hash_ctx =
  state :: "'w list"
  bitlen :: 'l
  buf :: "byte list"
  len :: nat

function zero_fill :: "byte list \<Rightarrow> nat \<Rightarrow> nat \<Rightarrow> byte list" where
  "zero_fill b i n = (if i < n then zero_fill (b[i := 0]) (i + 1) n else b)"
  by pat_completeness auto
termination by (relation "measure (\<lambda>(b, i, n). n - i)") auto

declare zero_fill.simps [simp del]

lemma take_snoc_upd: "i < length b \<Longrightarrow> take (Suc i) (b[i := x]) = take i b @ [x]"
  by (simp add: take_Suc_conv_app_nth)

lemma zero_fill_eq: "i \<le> n \<Longrightarrow> n \<le> length b \<Longrightarrow> zero_fill b i n = take i b @ replicate (n - i) 0 @ drop n b"
proof (induction b i n rule: zero_fill.induct)
  case (1 b i n)
  show ?case
  proof (cases "i < n")
    case True
    then have "zero_fill b i n = take (Suc i) (b[i := 0]) @ replicate (n - Suc i) 0 @ drop n b"
      using 1 by (subst zero_fill.simps) simp
    then show ?thesis using True 1 by (simp add: take_snoc_upd replicate_Suc [symmetric] Suc_diff_Suc del: replicate_Suc)
  next
    case False
    then show ?thesis using 1 by (subst zero_fill.simps) simp
  qed
qed

lemma zero_fill_length [simp]: "length (zero_fill b i n) = length b"
  by (induction b i n rule: zero_fill.induct) (subst zero_fill.simps, simp)

section \<open>The specification\<close>

fun chunks :: "nat \<Rightarrow> 'a list \<Rightarrow> 'a list list" where
  "chunks n xs = (if n = 0 \<or> xs = [] then [] else take n xs # chunks n (drop n xs))"

declare chunks.simps [simp del]

definition md_pad :: "nat \<Rightarrow> nat \<Rightarrow> (nat \<Rightarrow> byte list) \<Rightarrow> byte list \<Rightarrow> byte list" where
  "md_pad blk lenw lenenc m =
     m @ [0x80] @ replicate ((2 * blk - lenw - 1 - length m mod blk) mod blk) 0 @ lenenc (length m)"

definition md_spec :: "nat \<Rightarrow> nat \<Rightarrow> (nat \<Rightarrow> byte list) \<Rightarrow> ('w list \<Rightarrow> byte list \<Rightarrow> 'w list) \<Rightarrow> ('w list \<Rightarrow> 'o) \<Rightarrow>
    'w list \<Rightarrow> byte list \<Rightarrow> 'o" where
  "md_spec blk lenw lenenc compress out iv m = out (foldl compress iv (chunks blk (md_pad blk lenw lenenc m)))"

text \<open>
  HMAC (RFC 2104) over a hash with blocks of \<open>blk\<close> bytes.  The three evaluations of the hash (of a long key, inner, outer)
  are separate arguments, because the length field each one stores is its own; the standard has one hash in all three places.
\<close>

definition hmac_spec :: "nat \<Rightarrow> (byte list \<Rightarrow> byte list) \<Rightarrow> (byte list \<Rightarrow> byte list) \<Rightarrow> (byte list \<Rightarrow> byte list) \<Rightarrow>
    byte list \<Rightarrow> byte list \<Rightarrow> byte list" where
  "hmac_spec blk hk hi ho key msg =
     (let k0 = (if length key > blk then hk key else key); k = k0 @ replicate (blk - length k0) 0
      in ho (map (\<lambda>x. x XOR 0x5c) k @ hi (map (\<lambda>x. x XOR 0x36) k @ msg)))"

lemma chunks_Nil [simp]: "chunks n [] = []"
  by (simp add: chunks.simps)

lemma chunks_block: "length xs = n \<Longrightarrow> 0 < n \<Longrightarrow> chunks n (xs @ ys) = xs # chunks n ys"
  by (subst chunks.simps) auto

lemma chunks_append: "n dvd length xs \<Longrightarrow> 0 < n \<Longrightarrow> chunks n (xs @ ys) = chunks n xs @ chunks n ys"
proof (induction n xs rule: chunks.induct)
  case (1 n xs)
  show ?case
  proof (cases "xs = []")
    case False
    then have "n \<le> length xs" using 1 by (auto intro: dvd_imp_le)
    then have "chunks n xs = take n xs # chunks n (drop n xs)"
        "chunks n (xs @ ys) = take n xs # chunks n (drop n xs @ ys)"
      using False 1 by (subst chunks.simps; simp)+
    moreover have "n dvd length (drop n xs)" using 1(2) by simp
    ultimately show ?thesis using 1 False by simp
  qed simp
qed

section \<open>Feeding blocks\<close>

text \<open>
  A context that collects bytes and absorbs each full block: \<open>st_of\<close> is what the blocks are absorbed into, \<open>buf_of\<close> and
  \<open>len_of\<close> the pending bytes.
\<close>

locale block_feed =
  fixes blk :: nat
    and absorb :: "'s \<Rightarrow> byte list \<Rightarrow> 's"
    and st_of :: "'c \<Rightarrow> 's"
    and buf_of :: "'c \<Rightarrow> byte list"
    and len_of :: "'c \<Rightarrow> nat"
    and inv :: "'c \<Rightarrow> bool"
    and put :: "'c \<Rightarrow> byte \<Rightarrow> 'c"
  assumes blk_pos: "0 < blk"
    and inv_buf: "inv c \<Longrightarrow> blk \<le> length (buf_of c)"
    and inv_put: "inv c \<Longrightarrow> inv (put c b)"
    and put_buf: "inv c \<Longrightarrow> buf_of (put c b) = (buf_of c)[len_of c := b]"
    and put_len: "inv c \<Longrightarrow> len_of (put c b) = (if len_of c + 1 = blk then 0 else len_of c + 1)"
    and put_st: "inv c \<Longrightarrow> st_of (put c b) =
      (if len_of c + 1 = blk then absorb (st_of c) (take blk ((buf_of c)[len_of c := b])) else st_of c)"
begin

definition fed :: "'s \<Rightarrow> byte list \<Rightarrow> 'c \<Rightarrow> bool" where
  "fed s0 m c \<longleftrightarrow> inv c \<and> (\<exists>dn rest. m = dn @ rest \<and> blk dvd length dn \<and> length rest < blk \<and> len_of c = length rest \<and>
     take (len_of c) (buf_of c) = rest \<and> st_of c = foldl absorb s0 (chunks blk dn))"

lemma fed_init: "inv c \<Longrightarrow> len_of c = 0 \<Longrightarrow> fed (st_of c) [] c"
  using blk_pos by (simp add: fed_def)

lemma fed_put:
  assumes "fed s0 m c"
  shows "fed s0 (m @ [b]) (put c b)"
proof -
  obtain dn rest where m: "inv c" "m = dn @ rest" "blk dvd length dn" "length rest < blk" "len_of c = length rest"
    "take (len_of c) (buf_of c) = rest" "st_of c = foldl absorb s0 (chunks blk dn)"
    using assms unfolding fed_def by blast
  define b1 where "b1 = (buf_of c)[len_of c := b]"
  have t: "take (Suc (len_of c)) b1 = rest @ [b]"
    using m inv_buf [OF m(1)] by (simp add: b1_def take_snoc_upd)
  show ?thesis
  proof (cases "len_of c + 1 = blk")
    case True
    have "chunks blk (dn @ (rest @ [b])) = chunks blk dn @ [rest @ [b]]"
      using chunks_append [OF m(3) blk_pos] chunks_block [of "rest @ [b]" blk "[]"] blk_pos True m(5) by simp
    moreover have "blk dvd length (dn @ (rest @ [b]))" using m(3,5) True by simp
    moreover have "st_of (put c b) = absorb (st_of c) (rest @ [b])"
      using put_st [OF m(1)] True t by (simp add: b1_def)
    ultimately show ?thesis unfolding fed_def
      using m True blk_pos inv_put [OF m(1)] put_len [OF m(1)]
      by (intro conjI exI [of _ "dn @ (rest @ [b])"] exI [of _ "[]"]) simp_all
  next
    case False
    then show ?thesis unfolding fed_def
      using m t inv_put [OF m(1)] put_len [OF m(1)] put_st [OF m(1)] put_buf [OF m(1)]
      by (intro conjI exI [of _ dn] exI [of _ "rest @ [b]"]) (simp_all add: b1_def)
  qed
qed

lemma fed_update: "fed s0 m c \<Longrightarrow> fed s0 (m @ bs) (foldl put c bs)"
proof (induction bs arbitrary: m c)
  case (Cons b bs)
  then show ?case using fed_put by fastforce
qed simp

end

section \<open>Iterated hashing with a length\<close>

locale md_hash =
  fixes blk lenw :: nat
    and compress :: "'w list \<Rightarrow> byte list \<Rightarrow> 'w list"
    and bump :: "'l \<Rightarrow> 'l"
    and addlen :: "'l \<Rightarrow> nat \<Rightarrow> 'l"
    and total :: "nat \<Rightarrow> 'l"
    and enc :: "'l \<Rightarrow> byte list"
    and out :: "'w list \<Rightarrow> 'o"
    and put :: "('w, 'l) hash_ctx \<Rightarrow> byte \<Rightarrow> ('w, 'l) hash_ctx"
    and fin :: "('w, 'l) hash_ctx \<Rightarrow> 'o"
  assumes sizes: "lenw < blk"
    and length_enc: "length (enc l) = lenw"
    and bump: "bump (total (k * blk)) = total (k * blk + blk)"
    and addlen: "r < blk \<Longrightarrow> addlen (total (k * blk)) r = total (k * blk + r)"
    and put: "put c b =
      (let c1 = c\<lparr>buf := (buf c)[len c := b], len := len c + 1\<rparr> in
       if len c1 = blk then c1\<lparr>state := compress (state c1) (buf c1), bitlen := bump (bitlen c1), len := 0\<rparr> else c1)"
    and fin: "fin c =
      (let b1 = (buf c)[len c := 0x80]; i = len c + 1;
           (s2, b2, i2) = (if i > blk - lenw then
              (let b = zero_fill b1 i blk in (compress (state c) b, b, 0)) else (state c, b1, i));
           b3 = zero_fill b2 i2 (blk - lenw)
       in out (compress s2 (take (blk - lenw) b3 @ enc (addlen (bitlen c) (len c)))))"

sublocale md_hash \<subseteq> feed: block_feed blk "\<lambda>s b. (compress (fst s) b, bump (snd s))" "\<lambda>c. (state c, bitlen c)" buf len
  "\<lambda>c. length (buf c) = blk" put
  using sizes by unfold_locales (simp_all add: put Let_def)

context md_hash
begin

lemma absorbed:
  "foldl (\<lambda>s b. (compress (fst s) b, bump (snd s))) (iv, total (k * blk)) bs =
   (foldl compress iv bs, total ((k + length bs) * blk))"
proof (induction bs arbitrary: iv k)
  case (Cons b bs)
  then show ?case using Cons.IH [of "compress iv b" "Suc k"] bump [of k] by (simp add: add.commute)
qed simp

lemma chunks_length: "blk dvd length xs \<Longrightarrow> length (chunks blk xs) * blk = length xs"
proof (induction blk xs rule: chunks.induct)
  case (1 n xs)
  show ?case
  proof (cases "n = 0 \<or> xs = []")
    case False
    then have "n \<le> length xs" using 1(2) by (auto intro: dvd_imp_le)
    then have "length (chunks n (drop n xs)) * n = length xs - n" using 1 False by simp
    then show ?thesis using False \<open>n \<le> length xs\<close> by (subst chunks.simps) simp
  next
    case True
    then show ?thesis using 1(2) by auto
  qed
qed

lemma pad_zeros_short: "r < blk - lenw \<Longrightarrow> (2 * blk - lenw - 1 - r) mod blk = blk - lenw - 1 - r"
proof -
  assume "r < blk - lenw"
  then have "2 * blk - lenw - 1 - r = blk + (blk - lenw - 1 - r)" "blk - lenw - 1 - r < blk" using sizes by auto
  then show ?thesis by (metis mod_add_self1 mod_less)
qed

lemma pad_zeros_long: "blk - lenw \<le> r \<Longrightarrow> r < blk \<Longrightarrow> (2 * blk - lenw - 1 - r) mod blk = (blk - 1 - r) + (blk - lenw)"
  using sizes by (simp add: mod_if) linarith

lemma fed_fin:
  assumes "feed.fed (iv, total 0) m c"
  shows "fin c = md_spec blk lenw (\<lambda>n. enc (total n)) compress out iv m"
proof -
  obtain dn rest where d: "m = dn @ rest" "blk dvd length dn" "length rest < blk" "len c = length rest"
    "take (len c) (buf c) = rest" "length (buf c) = blk"
    "(state c, bitlen c) = foldl (\<lambda>s b. (compress (fst s) b, bump (snd s))) (iv, total 0) (chunks blk dn)"
    using assms unfolding feed.fed_def by blast
  have "state c = foldl compress iv (chunks blk dn)" "bitlen c = total (length dn)"
    using d(7) absorbed [of iv 0] chunks_length [OF d(2)] by simp_all
  note m = d(1-6) this
  note blk_pos = feed.blk_pos
  obtain k where k: "length dn = k * blk" using m(2) dvd_div_mult_self by metis
  define e where "e = enc (total (length m))"
  have e: "enc (addlen (bitlen c) (len c)) = e" "length e = lenw"
    using m k addlen [of "len c" k] length_enc by (simp_all add: e_def)
  have lm: "length m mod blk = length rest" using m k by simp
  define b1 where "b1 = (buf c)[len c := 0x80]"
  have b1: "take (Suc (len c)) b1 = rest @ [0x80]" "length b1 = blk" using m by (simp_all add: b1_def take_snoc_upd)
  let ?C = "foldl compress iv (chunks blk dn)"
  show ?thesis
  proof (cases "len c + 1 > blk - lenw")
    case True
    define f where "f = rest @ 0x80 # replicate (blk - 1 - length rest) 0"
    define g where "g = replicate (blk - lenw) 0 @ e"
    have z1: "zero_fill b1 (Suc (len c)) blk = f"
      using zero_fill_eq [of "Suc (len c)" blk b1] m b1 by (simp add: f_def)
    have z2: "take (blk - lenw) (zero_fill f 0 (blk - lenw)) = replicate (blk - lenw) 0"
      using zero_fill_eq [of 0 "blk - lenw" f] m by (simp add: f_def)
    have "blk - lenw \<le> length rest" using True m(4) by simp
    from pad_zeros_long [OF this m(3)] have "replicate ((2 * blk - lenw - 1 - length m mod blk) mod blk) (0 :: byte) =
        replicate (blk - 1 - length rest) 0 @ replicate (blk - lenw) 0"
      unfolding lm by (simp only: replicate_add)
    then have "md_pad blk lenw (\<lambda>n. enc (total n)) m = dn @ (f @ g)"
      unfolding md_pad_def f_def g_def e_def using m(1) by simp
    moreover have "length f = blk" "length g = blk" using m e sizes by (auto simp: f_def g_def)
    then have "chunks blk (f @ g) = [f, g]"
      using chunks_block [of f blk g] chunks_block [of g blk "[]"] blk_pos by simp
    ultimately have "md_spec blk lenw (\<lambda>n. enc (total n)) compress out iv m = out (compress (compress ?C f) g)"
      using chunks_append [OF m(2) blk_pos] by (simp add: md_spec_def)
    moreover have "fin c = out (compress (compress ?C f) g)"
      using True z1 z2 e m(7) by (simp add: fin Let_def b1_def [symmetric] g_def)
    ultimately show ?thesis by simp
  next
    case False
    define f where "f = rest @ 0x80 # replicate (blk - lenw - 1 - length rest) 0"
    have "zero_fill b1 (Suc (len c)) (blk - lenw) = f @ drop (blk - lenw) b1"
      using zero_fill_eq [of "Suc (len c)" "blk - lenw" b1] m b1 False by (simp add: f_def)
    moreover have "length f = blk - lenw" using m False by (auto simp: f_def)
    ultimately have z1: "take (blk - lenw) (zero_fill b1 (Suc (len c)) (blk - lenw)) = f" by simp
    have "md_pad blk lenw (\<lambda>n. enc (total n)) m = dn @ (f @ e)"
      using False m lm pad_zeros_short [of "length rest"] by (simp add: md_pad_def f_def e_def)
    moreover have "length (f @ e) = blk" using m e sizes False by (auto simp: f_def)
    then have "chunks blk (f @ e) = [f @ e]" using chunks_block [of "f @ e" blk "[]"] blk_pos by simp
    ultimately have "md_spec blk lenw (\<lambda>n. enc (total n)) compress out iv m = out (compress ?C (f @ e))"
      using chunks_append [OF m(2) blk_pos] by (simp add: md_spec_def)
    moreover have "fin c = out (compress ?C (f @ e))"
      using False z1 e m(7) by (simp add: fin Let_def b1_def [symmetric])
    ultimately show ?thesis by simp
  qed
qed

lemma hash_correct:
  assumes "state c = iv" "bitlen c = total 0" "len c = 0" "length (buf c) = blk"
  shows "fin (foldl put c m) = md_spec blk lenw (\<lambda>n. enc (total n)) compress out iv m"
  using fed_fin [of iv m "foldl put c m"] feed.fed_update [OF feed.fed_init, of c m] assms by simp

text \<open>The counter at the end is the length of the whole message.\<close>

lemma fed_total:
  assumes "feed.fed (iv, total 0) m c"
  shows "addlen (bitlen c) (len c) = total (length m)"
proof -
  obtain dn rest where d: "m = dn @ rest" "blk dvd length dn" "length rest < blk" "len c = length rest"
    "(state c, bitlen c) = foldl (\<lambda>s b. (compress (fst s) b, bump (snd s))) (iv, total 0) (chunks blk dn)"
    using assms unfolding feed.fed_def by blast
  obtain k where k: "length dn = k * blk" using d(2) dvd_div_mult_self by metis
  have "bitlen c = total (length dn)" using d(5) absorbed [of iv 0] chunks_length [OF d(2)] by simp
  then show ?thesis using d k addlen [of "len c" k] by simp
qed

lemma hash_total:
  assumes "bitlen c = total 0" "len c = 0" "length (buf c) = blk"
  shows "addlen (bitlen (foldl put c m)) (len (foldl put c m)) = total (length m)"
  using fed_total [of "state c" m "foldl put c m"] feed.fed_update [OF feed.fed_init, of c m] assms by simp

text \<open>The buffer keeps its size, whatever is fed.\<close>

lemma update_buf: "length (buf (foldl put c bs)) = length (buf c)"
  by (induction bs arbitrary: c) (simp_all add: put Let_def)

end

end
