(* ===== verification/Md5.thy ===== *)
theory Md5
  imports Digest
begin

text \<open>
  MD5 and HMAC-MD5 (\<^verbatim>\<open>include/crypto/md5.h\<close>).  The context on the stack is uninitialised in the code, so the
  functions take it as an argument, as they take the words the broken 64-bit store leaves in the length field.  The reference
  is RFC 1321's sequence of 64 steps by its index formulas.
\<close>

type_synonym md5_ctx = "(u32, u64) hash_ctx"

section \<open>The transformation\<close>

definition md5_F :: "u32 \<Rightarrow> u32 \<Rightarrow> u32 \<Rightarrow> u32" where
  "md5_F x y z = (x AND y) OR (NOT x AND z)"

definition md5_G :: "u32 \<Rightarrow> u32 \<Rightarrow> u32 \<Rightarrow> u32" where
  "md5_G x y z = (x AND z) OR (y AND NOT z)"

definition md5_H :: "u32 \<Rightarrow> u32 \<Rightarrow> u32 \<Rightarrow> u32" where
  "md5_H x y z = x XOR y XOR z"

definition md5_I :: "u32 \<Rightarrow> u32 \<Rightarrow> u32 \<Rightarrow> u32" where
  "md5_I x y z = y XOR (x OR NOT z)"

text \<open>
  One \<^verbatim>\<open>STEP\<close> computes the new value of its first variable; the next step has the variables rotated, so a
  round is a run of steps over \<open>(a, b, c, d)\<close> that rotates the four after each.
\<close>

definition md5_step :: "(u32 \<Rightarrow> u32 \<Rightarrow> u32 \<Rightarrow> u32) \<Rightarrow> u32 \<Rightarrow> u32 \<Rightarrow> u32 \<Rightarrow> u32 \<Rightarrow> u32 \<Rightarrow> nat \<Rightarrow> u32 \<Rightarrow> u32" where
  "md5_step f a b c d xk s ti = b + rotl32 (a + (f b c d + xk + ti)) s"

primrec md5_round :: "(u32 \<Rightarrow> u32 \<Rightarrow> u32 \<Rightarrow> u32) \<Rightarrow> u32 list \<Rightarrow> (nat \<times> nat \<times> u32) list \<Rightarrow>
    u32 \<times> u32 \<times> u32 \<times> u32 \<Rightarrow> u32 \<times> u32 \<times> u32 \<times> u32" where
  "md5_round f x [] v = v"
| "md5_round f x (r # rs) v =
     (case v of (a, b, c, d) \<Rightarrow> case r of (k, s, ti) \<Rightarrow> md5_round f x rs (d, md5_step f a b c d (x ! k) s ti, b, c))"

definition md5_T1 :: "(nat \<times> nat \<times> u32) list" where
  "md5_T1 =
    [(0, 7, 0xd76aa478), (1, 12, 0xe8c7b756), (2, 17, 0x242070db), (3, 22, 0xc1bdceee),
     (4, 7, 0xf57c0faf), (5, 12, 0x4787c62a), (6, 17, 0xa8304613), (7, 22, 0xfd469501),
     (8, 7, 0x698098d8), (9, 12, 0x8b44f7af), (10, 17, 0xffff5bb1), (11, 22, 0x895cd7be),
     (12, 7, 0x6b901122), (13, 12, 0xfd987193), (14, 17, 0xa679438e), (15, 22, 0x49b40821)]"

definition md5_T2 :: "(nat \<times> nat \<times> u32) list" where
  "md5_T2 =
    [(1, 5, 0xf61e2562), (6, 9, 0xc040b340), (11, 14, 0x265e5a51), (0, 20, 0xe9b6c7aa),
     (5, 5, 0xd62f105d), (10, 9, 0x02441453), (15, 14, 0xd8a1e681), (4, 20, 0xe7d3fbc8),
     (9, 5, 0x21e1cde6), (14, 9, 0xc33707d6), (3, 14, 0xf4d50d87), (8, 20, 0x455a14ed),
     (13, 5, 0xa9e3e905), (2, 9, 0xfcefa3f8), (7, 14, 0x676f02d9), (12, 20, 0x8d2a4c8a)]"

definition md5_T3 :: "(nat \<times> nat \<times> u32) list" where
  "md5_T3 =
    [(5, 4, 0xfffa3942), (8, 11, 0x8771f681), (11, 16, 0x6d9d6122), (14, 23, 0xfde5380c),
     (1, 4, 0xa4beea44), (4, 11, 0x4bdecfa9), (7, 16, 0xf6bb4b60), (10, 23, 0xbebfbc70),
     (13, 4, 0x289b7ec6), (0, 11, 0xeaa127fa), (3, 16, 0xd4ef3085), (6, 23, 0x04881d05),
     (9, 4, 0xd9d4d039), (12, 11, 0xe6db99e5), (15, 16, 0x1fa27cf8), (2, 23, 0xc4ac5665)]"

definition md5_T4 :: "(nat \<times> nat \<times> u32) list" where
  "md5_T4 =
    [(0, 6, 0xf4292244), (7, 10, 0x432aff97), (14, 15, 0xab9423a7), (5, 21, 0xfc93a039),
     (12, 6, 0x655b59c3), (3, 10, 0x8f0ccc92), (10, 15, 0xffeff47d), (1, 21, 0x85845dd1),
     (8, 6, 0x6fa87e4f), (15, 10, 0xfe2ce6e0), (6, 15, 0xa3014314), (13, 21, 0x4e0811a1),
     (4, 6, 0xf7537e82), (11, 10, 0xbd3af235), (2, 15, 0x2ad7d2bb), (9, 21, 0xeb86d391)]"

definition md5_block :: "u32 list \<Rightarrow> byte list \<Rightarrow> u32 list" where
  "md5_block st b =
     (let x = map (\<lambda>i. load32_le (drop (i * 4) b)) [0..<16];
          v0 = (st ! 0, st ! 1, st ! 2, st ! 3);
          (a, b, c, d) = md5_round md5_I x md5_T4 (md5_round md5_H x md5_T3 (md5_round md5_G x md5_T2 (md5_round md5_F x md5_T1 v0)))
      in [st ! 0 + a, st ! 1 + b, st ! 2 + c, st ! 3 + d])"

definition md5_transform :: "md5_ctx \<Rightarrow> md5_ctx" where
  "md5_transform ctx = ctx\<lparr>state := md5_block (state ctx) (buf ctx)\<rparr>"

section \<open>The incremental interface\<close>

definition md5_iv :: "u32 list" where
  "md5_iv = [0x67452301, 0xefcdab89, 0x98badcfe, 0x10325476]"

definition md5_init :: "md5_ctx \<Rightarrow> md5_ctx" where
  "md5_init ctx = ctx\<lparr>state := md5_iv, bitlen := 0, len := 0\<rparr>"

definition md5_put :: "md5_ctx \<Rightarrow> byte \<Rightarrow> md5_ctx" where
  "md5_put ctx b =
     (let c1 = ctx\<lparr>buf := (buf ctx)[len ctx := b], len := len ctx + 1\<rparr> in
      if len c1 = 64 then (md5_transform c1)\<lparr>bitlen := bitlen c1 + 512, len := 0\<rparr> else c1)"

definition md5_update :: "md5_ctx \<Rightarrow> byte list \<Rightarrow> md5_ctx" where
  "md5_update ctx data = foldl md5_put ctx data"

definition md5_final :: "stale \<Rightarrow> md5_ctx \<Rightarrow> md5_ctx \<times> byte list" where
  "md5_final g ctx =
     (let i = len ctx;
          c1 = ctx\<lparr>buf := (buf ctx)[i := 0x80]\<rparr>;
          (c2, i2) = (if i + 1 > 56 then (md5_transform (c1\<lparr>buf := zero_fill (buf c1) (i + 1) 64\<rparr>), 0) else (c1, i + 1));
          c3 = c2\<lparr>buf := zero_fill (buf c2) i2 56\<rparr>;
          c4 = c3\<lparr>bitlen := bitlen c3 + of_nat (len c3) * 8\<rparr>;
          c5 = md5_transform (c4\<lparr>buf := take 56 (buf c4) @ store64_le g (bitlen c4)\<rparr>)
      in (c5, concat (map store32_le (take 4 (state c5)))))"

definition md5 :: "stale \<Rightarrow> md5_ctx \<Rightarrow> byte list \<Rightarrow> byte list" where
  "md5 g ctx data = snd (md5_final g (md5_update (md5_init ctx) data))"

text \<open>The stores of the up to three hashes (long key, inner, outer) leave \<open>g 0\<close>, \<open>g 1\<close> and \<open>g 2\<close>.\<close>

definition md5_hmac :: "(nat \<Rightarrow> stale) \<Rightarrow> md5_ctx \<Rightarrow> byte list \<Rightarrow> byte list \<Rightarrow> byte list" where
  "md5_hmac g ctx key msg =
     (let k = (if length key > 64 then md5 (g 0) ctx key @ replicate 48 0 else key @ replicate (64 - length key) 0);
          ipad = map (\<lambda>x. x XOR 0x36) k;
          opad = map (\<lambda>x. x XOR 0x5c) k;
          (c1, out1) = md5_final (g 1) (md5_update (md5_update (md5_init ctx) ipad) msg);
          (c2, out2) = md5_final (g 2) (md5_update (md5_update (md5_init c1) opad) out1)
      in out2)"

section \<open>RFC 1321\<close>

definition rfc_f :: "nat \<Rightarrow> u32 \<Rightarrow> u32 \<Rightarrow> u32 \<Rightarrow> u32" where
  "rfc_f i x y z =
     (if i < 16 then (x AND y) OR (NOT x AND z)
      else if i < 32 then (x AND z) OR (y AND NOT z)
      else if i < 48 then x XOR y XOR z
      else y XOR (x OR NOT z))"

definition rfc_k :: "nat \<Rightarrow> nat" where
  "rfc_k i = (if i < 16 then i else if i < 32 then (5 * i + 1) mod 16 else if i < 48 then (3 * i + 5) mod 16 else 7 * i mod 16)"

definition rfc_s :: "nat \<Rightarrow> nat" where
  "rfc_s i = [[7, 12, 17, 22], [5, 9, 14, 20], [4, 11, 16, 23], [6, 10, 15, 21]] ! (i div 16) ! (i mod 4)"

text \<open>The table \<open>T\<close>: the integer part of \<open>2\<^sup>32 * abs (sin (i + 1))\<close>, as RFC 1321 prints it.\<close>

definition rfc_T :: "u32 list" where
  "rfc_T =
    [0xd76aa478, 0xe8c7b756, 0x242070db, 0xc1bdceee, 0xf57c0faf, 0x4787c62a, 0xa8304613, 0xfd469501,
     0x698098d8, 0x8b44f7af, 0xffff5bb1, 0x895cd7be, 0x6b901122, 0xfd987193, 0xa679438e, 0x49b40821,
     0xf61e2562, 0xc040b340, 0x265e5a51, 0xe9b6c7aa, 0xd62f105d, 0x02441453, 0xd8a1e681, 0xe7d3fbc8,
     0x21e1cde6, 0xc33707d6, 0xf4d50d87, 0x455a14ed, 0xa9e3e905, 0xfcefa3f8, 0x676f02d9, 0x8d2a4c8a,
     0xfffa3942, 0x8771f681, 0x6d9d6122, 0xfde5380c, 0xa4beea44, 0x4bdecfa9, 0xf6bb4b60, 0xbebfbc70,
     0x289b7ec6, 0xeaa127fa, 0xd4ef3085, 0x04881d05, 0xd9d4d039, 0xe6db99e5, 0x1fa27cf8, 0xc4ac5665,
     0xf4292244, 0x432aff97, 0xab9423a7, 0xfc93a039, 0x655b59c3, 0x8f0ccc92, 0xffeff47d, 0x85845dd1,
     0x6fa87e4f, 0xfe2ce6e0, 0xa3014314, 0x4e0811a1, 0xf7537e82, 0xbd3af235, 0x2ad7d2bb, 0xeb86d391]"

definition rfc_md5_step :: "u32 list \<Rightarrow> nat \<Rightarrow> u32 \<times> u32 \<times> u32 \<times> u32 \<Rightarrow> u32 \<times> u32 \<times> u32 \<times> u32" where
  "rfc_md5_step X i v =
     (case v of (a, b, c, d) \<Rightarrow> (d, b + word_rotl (rfc_s i) (a + rfc_f i b c d + X ! rfc_k i + rfc_T ! i), b, c))"

definition rfc_md5_block :: "u32 list \<Rightarrow> byte list \<Rightarrow> u32 list" where
  "rfc_md5_block H m =
     (case fold (rfc_md5_step (map (\<lambda>i. load32_le (drop (4 * i) m)) [0..<16])) [0..<64] (H ! 0, H ! 1, H ! 2, H ! 3) of
        (a, b, c, d) \<Rightarrow> [H ! 0 + a, H ! 1 + b, H ! 2 + c, H ! 3 + d])"

lemma md5_round_fold:
  "md5_round f x rs v =
   fold (\<lambda>r v. case v of (a, b, c, d) \<Rightarrow> case r of (k, s, ti) \<Rightarrow> (d, md5_step f a b c d (x ! k) s ti, b, c)) rs v"
  by (induction rs arbitrary: v) (simp_all split: prod.splits)

lemma md5_tables:
  "md5_T1 = map (\<lambda>i. (rfc_k i, rfc_s i, rfc_T ! i)) [0..<16]"
  "md5_T2 = map (\<lambda>i. (rfc_k i, rfc_s i, rfc_T ! i)) [16..<32]"
  "md5_T3 = map (\<lambda>i. (rfc_k i, rfc_s i, rfc_T ! i)) [32..<48]"
  "md5_T4 = map (\<lambda>i. (rfc_k i, rfc_s i, rfc_T ! i)) [48..<64]"
proof -
  have z: "map (\<lambda>i. (rfc_k i, rfc_s i, rfc_T ! i)) xs = zip (map rfc_k xs) (zip (map rfc_s xs) (map ((!) rfc_T) xs))" for xs
    by (induction xs) simp_all
  have "length rfc_T = 64" by (simp add: rfc_T_def)
  then have t: "map ((!) rfc_T) [a..<b] = drop a (take b rfc_T)" if "b \<le> 64" for a b
    using that by (intro nth_equalityI) simp_all
  have k: "map rfc_k [0..<16] = [0, 1, 2, 3, 4, 5, 6, 7, 8, 9, 10, 11, 12, 13, 14, 15]"
    "map rfc_k [16..<32] = [1, 6, 11, 0, 5, 10, 15, 4, 9, 14, 3, 8, 13, 2, 7, 12]"
    "map rfc_k [32..<48] = [5, 8, 11, 14, 1, 4, 7, 10, 13, 0, 3, 6, 9, 12, 15, 2]"
    "map rfc_k [48..<64] = [0, 7, 14, 5, 12, 3, 10, 1, 8, 15, 6, 13, 4, 11, 2, 9]"
    by (simp_all add: rfc_k_def upt_rec)
  have s: "map rfc_s [0..<16] = [7, 12, 17, 22, 7, 12, 17, 22, 7, 12, 17, 22, 7, 12, 17, 22]"
    "map rfc_s [16..<32] = [5, 9, 14, 20, 5, 9, 14, 20, 5, 9, 14, 20, 5, 9, 14, 20]"
    "map rfc_s [32..<48] = [4, 11, 16, 23, 4, 11, 16, 23, 4, 11, 16, 23, 4, 11, 16, 23]"
    "map rfc_s [48..<64] = [6, 10, 15, 21, 6, 10, 15, 21, 6, 10, 15, 21, 6, 10, 15, 21]"
    by (simp_all add: rfc_s_def upt_rec)
  show "md5_T1 = map (\<lambda>i. (rfc_k i, rfc_s i, rfc_T ! i)) [0..<16]" unfolding z k s t [of 16 0, simplified] by (simp add: md5_T1_def rfc_T_def)
  show "md5_T2 = map (\<lambda>i. (rfc_k i, rfc_s i, rfc_T ! i)) [16..<32]" unfolding z k s t [of 32 16, simplified] by (simp add: md5_T2_def rfc_T_def)
  show "md5_T3 = map (\<lambda>i. (rfc_k i, rfc_s i, rfc_T ! i)) [32..<48]" unfolding z k s t [of 48 32, simplified] by (simp add: md5_T3_def rfc_T_def)
  show "md5_T4 = map (\<lambda>i. (rfc_k i, rfc_s i, rfc_T ! i)) [48..<64]" unfolding z k s t [of 64 48, simplified] by (simp add: md5_T4_def rfc_T_def)
qed

lemma rfc_s_less: "i < 64 \<Longrightarrow> rfc_s i < 32"
proof -
  assume "i < 64"
  then have "i div 16 < 4" "i mod 4 < 4" by simp_all
  moreover have four: "n = 0 \<or> n = 1 \<or> n = 2 \<or> n = 3" if "n < 4" for n :: nat using that by linarith
  ultimately have "i div 16 = 0 \<or> i div 16 = 1 \<or> i div 16 = 2 \<or> i div 16 = 3" "i mod 4 = 0 \<or> i mod 4 = 1 \<or> i mod 4 = 2 \<or> i mod 4 = 3"
    by blast+
  then show ?thesis unfolding rfc_s_def by (elim disjE) (simp_all only: nth_Cons_0 nth_Cons_numeral One_nat_def nth_Cons_Suc, simp_all)
qed

lemma md5_round_rfc:
  assumes "\<And>i b c d. lo \<le> i \<Longrightarrow> i < hi \<Longrightarrow> f b c d = rfc_f i b c d" "hi \<le> 64"
  shows "md5_round f X (map (\<lambda>i. (rfc_k i, rfc_s i, rfc_T ! i)) [lo..<hi]) v = fold (rfc_md5_step X) [lo..<hi] v"
  unfolding md5_round_fold fold_map comp_def
proof (rule fold_cong [OF refl refl])
  fix i assume "i \<in> set [lo..<hi]"
  then have i: "lo \<le> i" "i < hi" "rfc_s i < 32" using assms(2) rfc_s_less by auto
  then show "(\<lambda>v. case v of (a, b, c, d) \<Rightarrow> case (rfc_k i, rfc_s i, rfc_T ! i) of (k, s, ti) \<Rightarrow> (d, md5_step f a b c d (X ! k) s ti, b, c)) =
      rfc_md5_step X i"
    using assms(1) [OF i(1,2)] by (auto simp: rfc_md5_step_def md5_step_def rotl32_word ac_simps)
qed

lemma md5_block_rfc: "md5_block H m = rfc_md5_block H m"
proof -
  let ?X = "map (\<lambda>i. load32_le (drop (i * 4) m)) [0..<16]"
  have 1: "[0..<64] = [0..<16] @ [16..<32] @ [32..<48] @ [48..<64 :: nat]" by (simp add: upt_rec)
  have 2: "fold (rfc_md5_step ?X) [0..<64] v = md5_round md5_I ?X md5_T4 (md5_round md5_H ?X md5_T3 (md5_round md5_G ?X md5_T2 (md5_round md5_F ?X md5_T1 v)))" for v
  proof -
    note R = md5_round_rfc [of 0 16 md5_F ?X] md5_round_rfc [of 16 32 md5_G ?X] md5_round_rfc [of 32 48 md5_H ?X] md5_round_rfc [of 48 64 md5_I ?X]
    have f: "md5_F b c d = rfc_f i b c d" if "i < 16" for i b c d using that by (simp add: rfc_f_def md5_F_def)
    have g: "md5_G b c d = rfc_f i b c d" if "16 \<le> i" "i < 32" for i b c d using that by (simp add: rfc_f_def md5_G_def)
    have h: "md5_H b c d = rfc_f i b c d" if "32 \<le> i" "i < 48" for i b c d using that by (simp add: rfc_f_def md5_H_def)
    have i: "md5_I b c d = rfc_f i b c d" if "48 \<le> i" for i b c d using that by (simp add: rfc_f_def md5_I_def)
    show ?thesis unfolding 1 fold_append comp_def md5_tables
      by (simp only: R(1) [OF f] R(2) [OF g] R(3) [OF h] R(4) [OF i] numeral_le_iff semiring_norm)
  qed
  have 3: "map (\<lambda>i. load32_le (drop (4 * i) m)) [0..<16] = ?X" by (simp only: mult.commute)
  show ?thesis unfolding md5_block_def rfc_md5_block_def 2 3 Let_def by (rule refl)
qed

section \<open>Correctness\<close>

definition md5_out :: "u32 list \<Rightarrow> byte list" where
  "md5_out st = concat (map store32_le (take 4 st))"

lemma md5_final_eq:
  "snd (md5_final g c) =
    (let b1 = (buf c)[len c := 0x80]; i = len c + 1;
         (s2, b2, i2) = (if i > 64 - 8 then
            (let b = zero_fill b1 i 64 in (md5_block (state c) b, b, 0)) else (state c, b1, i));
         b3 = zero_fill b2 i2 (64 - 8)
     in md5_out (md5_block s2 (take (64 - 8) b3 @ (\<lambda>l. store64_le g 0) (bitlen c + of_nat (len c) * 8))))"
  by (simp add: md5_final_def md5_out_def md5_transform_def Let_def store64_le_def)

interpretation md5i: md_hash 64 8 md5_block "\<lambda>l. l + 512" "\<lambda>l r. l + of_nat r * 8" "\<lambda>n. of_nat (8 * n)"
  "\<lambda>l. store64_le g 0" md5_out md5_put "\<lambda>c. snd (md5_final g c)" for g
proof
  fix c b
  show "md5_put c b =
      (let c1 = c\<lparr>buf := (buf c)[len c := b], len := len c + 1\<rparr> in
       if len c1 = 64 then c1\<lparr>state := md5_block (state c1) (buf c1), bitlen := bitlen c1 + 512, len := 0\<rparr> else c1)"
    by (simp add: md5_put_def md5_transform_def Let_def)
qed (simp_all add: md5_final_eq algebra_simps)

text \<open>RFC 1321's hash with the contents \<open>f\<close> of the length field of the padding an argument, and the RFC's own.\<close>

definition rfc_md5_field :: "byte list \<Rightarrow> byte list \<Rightarrow> byte list" where
  "rfc_md5_field f = md_spec 64 8 (\<lambda>n. f) rfc_md5_block md5_out [0x67452301, 0xefcdab89, 0x98badcfe, 0x10325476]"

definition rfc_md5 :: "byte list \<Rightarrow> byte list" where
  "rfc_md5 m = rfc_md5_field (le64 (of_nat (8 * length m))) m"

lemma md5_fed: "length (buf ctx) = 64 \<Longrightarrow> snd (md5_final g (md5_update (md5_init ctx) m)) = rfc_md5_field (store64_le g 0) m"
proof -
  assume "length (buf ctx) = 64"
  then have "snd (md5_final g (md5_update (md5_init ctx) m)) = md_spec 64 8 (\<lambda>n. store64_le g 0) md5_block md5_out md5_iv m"
    unfolding md5_update_def by (intro md5i.hash_correct) (simp_all add: md5_init_def)
  moreover have "md5_block = rfc_md5_block" by (intro ext md5_block_rfc)
  ultimately show ?thesis by (simp add: rfc_md5_field_def md5_iv_def)
qed

lemma md5_bitlen:
  assumes "length (buf ctx) = 64"
  shows "bitlen (fst (md5_final g (md5_update (md5_init ctx) m))) = of_nat (8 * length m)"
proof -
  have "bitlen (fst (md5_final g c)) = bitlen c + of_nat (len c) * 8" for c
    by (simp add: md5_final_def md5_transform_def Let_def)
  then show ?thesis
    using md5i.hash_total [of "md5_init ctx" m] assms by (simp add: md5_init_def md5_update_def)
qed

lemma md5_update_append: "md5_update (md5_update c a) b = md5_update c (a @ b)"
  by (simp add: md5_update_def)

lemma md5_final_buf: "length (buf c) = 64 \<Longrightarrow> length (buf (fst (md5_final g c))) = 64"
  by (simp add: md5_final_def md5_transform_def Let_def zero_fill_length)

lemma md5_update_buf: "length (buf (md5_update c m)) = length (buf c)"
  unfolding md5_update_def by (rule md5i.update_buf)

lemma md5_init_buf: "buf (md5_init c) = buf c"
  by (simp add: md5_init_def)

text \<open>
  C38: feeding a message to \<^verbatim>\<open>md5_update\<close> byte by byte and finishing computes the hash of RFC 1321, whatever the context held
  before, except that the length field of the padding holds the two words the broken 64-bit store leaves there; it is the RFC's hash when
  they happen to be the bit length, which the context's counter has right.  \<^verbatim>\<open>md5_hmac\<close> is HMAC over the hashes with their stale length
  fields, for keys shorter and longer than a block.
\<close>

theorem md5_correct:
  assumes "length (buf ctx) = 64"
  shows "md5 x ctx m = rfc_md5_field (store64_le x 0) m \<and>
    (x = halves_le (of_nat (8 * length m)) \<longrightarrow> md5 x ctx m = rfc_md5 m) \<and>
    bitlen (fst (md5_final x (md5_update (md5_init ctx) m))) = of_nat (8 * length m) \<and>
    md5_hmac g ctx key msg =
      (let h = \<lambda>i. rfc_md5_field (store64_le (g i) 0) in hmac_spec 64 (h 0) (h 1) (h 2) key msg)"
proof (intro conjI impI)
  have h: "md5 x c m = rfc_md5_field (store64_le x 0) m" if "length (buf c) = 64" for c x m using md5_fed that by (simp add: md5_def)
  show "md5 x ctx m = rfc_md5_field (store64_le x 0) m" by (rule h [OF assms])
  assume "x = halves_le (of_nat (8 * length m))"
  then have "store64_le x 0 = le64 (of_nat (8 * length m))" using store64_iff(2) by blast
  then show "md5 x ctx m = rfc_md5 m" by (simp only: h [OF assms] rfc_md5_def)
next
  have "length (foldl rfc_md5_block st bs) = 4" if "length st = 4" for st bs
    using that by (induction bs arbitrary: st) (simp_all add: rfc_md5_block_def case_prod_beta)
  then have l: "length (rfc_md5_field f key) = 16" for f
    by (simp add: rfc_md5_field_def md_spec_def md5_out_def length_concat comp_def sum_list_triv)
  show "md5_hmac g ctx key msg = (let h = \<lambda>i. rfc_md5_field (store64_le (g i) 0) in hmac_spec 64 (h 0) (h 1) (h 2) key msg)"
    using assms md5_fed l
    by (simp add: md5_hmac_def md5_def hmac_spec_def Let_def case_prod_beta md5_update_append md5_final_buf md5_update_buf md5_init_buf)
qed (rule md5_bitlen [OF assms])

theorem md5_correct_witness:
  "md5 (8, 0) \<lparr>state = [], bitlen = 0, buf = replicate 64 0, len = 9\<rparr> [97] = rfc_md5 [97]"
proof -
  have g: "(8, 0) = halves_le (of_nat (8 * length [97 :: byte]))" by (simp add: halves_le_def)
  have c: "length (buf \<lparr>state = [] :: u32 list, bitlen = 0 :: u64, buf = replicate 64 0, len = 9\<rparr>) = 64" by simp
  show ?thesis using md5_correct [OF c, of "(8, 0)" "[97]" "\<lambda>i. (0, 0)" "[]" "[]"] g by blast
qed

end
