(* ===== verification/Sha2.thy ===== *)
theory Sha2
  imports Digest
begin

text \<open>
  The SHA-2 family with HMAC and HKDF (\<^verbatim>\<open>include/crypto/sha2.h\<close>).  Two cores, of 32 and 64 bits; the macros
  \<^verbatim>\<open>__jacl_sha2_make32\<close> and \<^verbatim>\<open>__jacl_sha2_make64\<close> are functions of the initial value and the digest size.  The context
  on the stack is uninitialised in the code, so the functions take it as an argument, and so are the words the 64-bit
  stores leave in the length field and in the digest of the 64-bit core (\<open>store64_be\<close>).
\<close>

section \<open>The 32-bit core\<close>

definition K256 :: "u32 list" where
  "K256 =
    [0x428a2f98, 0x71374491, 0xb5c0fbcf, 0xe9b5dba5, 0x3956c25b, 0x59f111f1, 0x923f82a4, 0xab1c5ed5,
     0xd807aa98, 0x12835b01, 0x243185be, 0x550c7dc3, 0x72be5d74, 0x80deb1fe, 0x9bdc06a7, 0xc19bf174,
     0xe49b69c1, 0xefbe4786, 0x0fc19dc6, 0x240ca1cc, 0x2de92c6f, 0x4a7484aa, 0x5cb0a9dc, 0x76f988da,
     0x983e5152, 0xa831c66d, 0xb00327c8, 0xbf597fc7, 0xc6e00bf3, 0xd5a79147, 0x06ca6351, 0x14292967,
     0x27b70a85, 0x2e1b2138, 0x4d2c6dfc, 0x53380d13, 0x650a7354, 0x766a0abb, 0x81c2c92e, 0x92722c85,
     0xa2bfe8a1, 0xa81a664b, 0xc24b8b70, 0xc76c51a3, 0xd192e819, 0xd6990624, 0xf40e3585, 0x106aa070,
     0x19a4c116, 0x1e376c08, 0x2748774c, 0x34b0bcb5, 0x391c0cb3, 0x4ed8aa4a, 0x5b9cca4f, 0x682e6ff3,
     0x748f82ee, 0x78a5636f, 0x84c87814, 0x8cc70208, 0x90befffa, 0xa4506ceb, 0xbef9a3f7, 0xc67178f2]"

type_synonym sha2_ctx32 = "(u32, u64) hash_ctx"

primrec extend32 :: "nat \<Rightarrow> u32 list \<Rightarrow> u32 list" where
  "extend32 0 w = w"
| "extend32 (Suc n) w =
     (let i = length w;
          s0 = rotl32 (w ! (i - 15)) 25 XOR rotl32 (w ! (i - 15)) 14 XOR drop_bit 3 (w ! (i - 15));
          s1 = rotl32 (w ! (i - 2)) 15 XOR rotl32 (w ! (i - 2)) 13 XOR drop_bit 10 (w ! (i - 2))
      in extend32 n (w @ [w ! (i - 16) + s0 + w ! (i - 7) + s1]))"

definition round32 :: "u32 \<Rightarrow> u32 \<Rightarrow> u32 list \<Rightarrow> u32 list" where
  "round32 k w s =
     (let S1 = rotl32 (s ! 4) 26 XOR rotl32 (s ! 4) 21 XOR rotl32 (s ! 4) 7;
          ch = (s ! 4 AND s ! 5) XOR (NOT (s ! 4) AND s ! 6);
          temp1 = s ! 7 + S1 + ch + k + w;
          S0 = rotl32 (s ! 0) 30 XOR rotl32 (s ! 0) 19 XOR rotl32 (s ! 0) 10;
          maj = (s ! 0 AND s ! 1) XOR (s ! 0 AND s ! 2) XOR (s ! 1 AND s ! 2);
          temp2 = S0 + maj
      in [temp1 + temp2, s ! 0, s ! 1, s ! 2, s ! 3 + temp1, s ! 4, s ! 5, s ! 6])"

definition sha2_block32 :: "u32 list \<Rightarrow> byte list \<Rightarrow> u32 list" where
  "sha2_block32 st b =
     (let w = extend32 48 (map (\<lambda>i. load32_be (drop (i * 4) b)) [0..<16]);
          s = fold (\<lambda>i. round32 (K256 ! i) (w ! i)) [0..<64] (take 8 st)
      in map2 (+) (take 8 st) s)"

definition sha2_transform32 :: "sha2_ctx32 \<Rightarrow> sha2_ctx32" where
  "sha2_transform32 ctx = ctx\<lparr>state := sha2_block32 (state ctx) (buf ctx)\<rparr>"

definition sha2_init32 :: "u32 list \<Rightarrow> sha2_ctx32 \<Rightarrow> sha2_ctx32" where
  "sha2_init32 iv ctx = ctx\<lparr>state := iv, bitlen := 0, len := 0\<rparr>"

definition sha2_put32 :: "sha2_ctx32 \<Rightarrow> byte \<Rightarrow> sha2_ctx32" where
  "sha2_put32 ctx b =
     (let c1 = ctx\<lparr>buf := (buf ctx)[len ctx := b], len := len ctx + 1\<rparr> in
      if len c1 = 64 then (sha2_transform32 c1)\<lparr>bitlen := bitlen c1 + 512, len := 0\<rparr> else c1)"

definition sha2_update32 :: "sha2_ctx32 \<Rightarrow> byte list \<Rightarrow> sha2_ctx32" where
  "sha2_update32 ctx data = foldl sha2_put32 ctx data"

definition sha2_final32 :: "stale \<Rightarrow> sha2_ctx32 \<Rightarrow> sha2_ctx32 \<times> byte list" where
  "sha2_final32 g ctx =
     (let i = len ctx;
          c1 = ctx\<lparr>buf := (buf ctx)[i := 0x80]\<rparr>;
          (c2, i2) = (if i + 1 > 56 then (sha2_transform32 (c1\<lparr>buf := zero_fill (buf c1) (i + 1) 64\<rparr>), 0) else (c1, i + 1));
          c3 = c2\<lparr>buf := zero_fill (buf c2) i2 56\<rparr>;
          c4 = c3\<lparr>bitlen := bitlen c3 + of_nat (len c3) * 8\<rparr>;
          c5 = sha2_transform32 (c4\<lparr>buf := take 56 (buf c4) @ store64_be g (bitlen c4)\<rparr>)
      in (c5, concat (map store32_be (take 8 (state c5)))))"

section \<open>The 64-bit core\<close>

definition K512 :: "u64 list" where
  "K512 =
    [0x428a2f98d728ae22, 0x7137449123ef65cd, 0xb5c0fbcfec4d3b2f, 0xe9b5dba58189dbbc,
     0x3956c25bf348b538, 0x59f111f1b605d019, 0x923f82a4af194f9b, 0xab1c5ed5da6d8118,
     0xd807aa98a3030242, 0x12835b0145706fbe, 0x243185be4ee4b28c, 0x550c7dc3d5ffb4e2,
     0x72be5d74f27b896f, 0x80deb1fe3b1696b1, 0x9bdc06a725c71235, 0xc19bf174cf692694,
     0xe49b69c19ef14ad2, 0xefbe4786384f25e3, 0x0fc19dc68b8cd5b5, 0x240ca1cc77ac9c65,
     0x2de92c6f592b0275, 0x4a7484aa6ea6e483, 0x5cb0a9dcbd41fbd4, 0x76f988da831153b5,
     0x983e5152ee66dfab, 0xa831c66d2db43210, 0xb00327c898fb213f, 0xbf597fc7beef0ee4,
     0xc6e00bf33da88fc2, 0xd5a79147930aa725, 0x06ca6351e003826f, 0x142929670a0e6e70,
     0x27b70a8546d22ffc, 0x2e1b21385c26c926, 0x4d2c6dfc5ac42aed, 0x53380d139d95b3df,
     0x650a73548baf63de, 0x766a0abb3c77b2a8, 0x81c2c92e47edaee6, 0x92722c851482353b,
     0xa2bfe8a14cf10364, 0xa81a664bbc423001, 0xc24b8b70d0f89791, 0xc76c51a30654be30,
     0xd192e819d6ef5218, 0xd69906245565a910, 0xf40e35855771202a, 0x106aa07032bbd1b8,
     0x19a4c116b8d2d0c8, 0x1e376c085141ab53, 0x2748774cdf8eeb99, 0x34b0bcb5e19b48a8,
     0x391c0cb3c5c95a63, 0x4ed8aa4ae3418acb, 0x5b9cca4f7763e373, 0x682e6ff3d6b2b8a3,
     0x748f82ee5defb2fc, 0x78a5636f43172f60, 0x84c87814a1f0ab72, 0x8cc702081a6439ec,
     0x90befffa23631e28, 0xa4506cebde82bde9, 0xbef9a3f7b2c67915, 0xc67178f2e372532b,
     0xca273eceea26619c, 0xd186b8c721c0c207, 0xeada7dd6cde0eb1e, 0xf57d4f7fee6ed178,
     0x06f067aa72176fba, 0x0a637dc5a2c898a6, 0x113f9804bef90dae, 0x1b710b35131c471b,
     0x28db77f523047d84, 0x32caab7b40c72493, 0x3c9ebe0a15c9bebc, 0x431d67c49c100d4c,
     0x4cc5d4becb3e42b6, 0x597f299cfc657e2a, 0x5fcb6fab3ad6faec, 0x6c44198c4a475817]"

type_synonym sha2_ctx64 = "(u64, u64 \<times> u64) hash_ctx"

primrec extend64 :: "nat \<Rightarrow> u64 list \<Rightarrow> u64 list" where
  "extend64 0 w = w"
| "extend64 (Suc n) w =
     (let i = length w;
          s0 = rotl64 (w ! (i - 15)) 63 XOR rotl64 (w ! (i - 15)) 56 XOR drop_bit 7 (w ! (i - 15));
          s1 = rotl64 (w ! (i - 2)) 45 XOR rotl64 (w ! (i - 2)) 3 XOR drop_bit 6 (w ! (i - 2))
      in extend64 n (w @ [w ! (i - 16) + s0 + w ! (i - 7) + s1]))"

definition round64 :: "u64 \<Rightarrow> u64 \<Rightarrow> u64 list \<Rightarrow> u64 list" where
  "round64 k w s =
     (let S1 = rotl64 (s ! 4) 50 XOR rotl64 (s ! 4) 46 XOR rotl64 (s ! 4) 23;
          ch = (s ! 4 AND s ! 5) XOR (NOT (s ! 4) AND s ! 6);
          temp1 = s ! 7 + S1 + ch + k + w;
          S0 = rotl64 (s ! 0) 36 XOR rotl64 (s ! 0) 30 XOR rotl64 (s ! 0) 25;
          maj = (s ! 0 AND s ! 1) XOR (s ! 0 AND s ! 2) XOR (s ! 1 AND s ! 2);
          temp2 = S0 + maj
      in [temp1 + temp2, s ! 0, s ! 1, s ! 2, s ! 3 + temp1, s ! 4, s ! 5, s ! 6])"

definition sha2_block64 :: "u64 list \<Rightarrow> byte list \<Rightarrow> u64 list" where
  "sha2_block64 st b =
     (let w = extend64 64 (map (\<lambda>i. load64_be (drop (i * 8) b)) [0..<16]);
          s = fold (\<lambda>i. round64 (K512 ! i) (w ! i)) [0..<80] (take 8 st)
      in map2 (+) (take 8 st) s)"

definition sha2_transform64 :: "sha2_ctx64 \<Rightarrow> sha2_ctx64" where
  "sha2_transform64 ctx = ctx\<lparr>state := sha2_block64 (state ctx) (buf ctx)\<rparr>"

definition sha2_init64 :: "u64 list \<Rightarrow> sha2_ctx64 \<Rightarrow> sha2_ctx64" where
  "sha2_init64 iv ctx = ctx\<lparr>state := iv, bitlen := (0, 0), len := 0\<rparr>"

text \<open>The 128-bit counter: the low word first; the sum is below the addend exactly when it wrapped.\<close>

definition carry_add :: "u64 \<times> u64 \<Rightarrow> u64 \<Rightarrow> u64 \<times> u64" where
  "carry_add l d = (let lo = fst l + d in (lo, if lo < d then snd l + 1 else snd l))"

definition sha2_put64 :: "sha2_ctx64 \<Rightarrow> byte \<Rightarrow> sha2_ctx64" where
  "sha2_put64 ctx b =
     (let c1 = ctx\<lparr>buf := (buf ctx)[len ctx := b], len := len ctx + 1\<rparr> in
      if len c1 = 128 then (sha2_transform64 c1)\<lparr>bitlen := carry_add (bitlen c1) 1024, len := 0\<rparr> else c1)"

definition sha2_update64 :: "sha2_ctx64 \<Rightarrow> byte list \<Rightarrow> sha2_ctx64" where
  "sha2_update64 ctx data = foldl sha2_put64 ctx data"

text \<open>The executions of the store are counted: 0 and 1 write the length, \<open>i + 2\<close> the word \<open>i\<close> of the digest.\<close>

definition sha2_final64 :: "(nat \<Rightarrow> stale) \<Rightarrow> sha2_ctx64 \<Rightarrow> sha2_ctx64 \<times> byte list" where
  "sha2_final64 g ctx =
     (let i = len ctx;
          c1 = ctx\<lparr>buf := (buf ctx)[i := 0x80]\<rparr>;
          (c2, i2) = (if i + 1 > 112 then (sha2_transform64 (c1\<lparr>buf := zero_fill (buf c1) (i + 1) 128\<rparr>), 0) else (c1, i + 1));
          c3 = c2\<lparr>buf := zero_fill (buf c2) i2 112\<rparr>;
          c4 = c3\<lparr>bitlen := carry_add (bitlen c3) (of_nat (len c3) * 8)\<rparr>;
          c5 = sha2_transform64 (c4\<lparr>buf := take 112 (buf c4) @ store64_be (g 0) (snd (bitlen c4)) @ store64_be (g 1) (fst (bitlen c4))\<rparr>)
      in (c5, concat (map (\<lambda>i. store64_be (g (i + 2)) (state c5 ! i)) [0..<8])))"

section \<open>The six variants\<close>

definition make32 :: "u32 list \<Rightarrow> nat \<Rightarrow> stale \<Rightarrow> sha2_ctx32 \<Rightarrow> byte list \<Rightarrow> byte list" where
  "make32 iv dlen g ctx data = take dlen (snd (sha2_final32 g (sha2_update32 (sha2_init32 iv ctx) data)))"

definition make64 :: "u64 list \<Rightarrow> nat \<Rightarrow> (nat \<Rightarrow> stale) \<Rightarrow> sha2_ctx64 \<Rightarrow> byte list \<Rightarrow> byte list" where
  "make64 iv dlen g ctx data = take dlen (snd (sha2_final64 g (sha2_update64 (sha2_init64 iv ctx) data)))"

definition sha224_iv :: "u32 list" where
  "sha224_iv =
    [0xc1059ed8, 0x367cd507, 0x3070dd17, 0xf70e5939,
     0xffc00b31, 0x68581511, 0x64f98fa7, 0xbefa4fa4]"

definition sha224 :: "stale \<Rightarrow> sha2_ctx32 \<Rightarrow> byte list \<Rightarrow> byte list" where
  "sha224 = make32 sha224_iv 28"

definition sha256_iv :: "u32 list" where
  "sha256_iv =
    [0x6a09e667, 0xbb67ae85, 0x3c6ef372, 0xa54ff53a,
     0x510e527f, 0x9b05688c, 0x1f83d9ab, 0x5be0cd19]"

definition sha256 :: "stale \<Rightarrow> sha2_ctx32 \<Rightarrow> byte list \<Rightarrow> byte list" where
  "sha256 = make32 sha256_iv 32"

definition sha384_iv :: "u64 list" where
  "sha384_iv =
    [0xcbbb9d5dc1059ed8, 0x629a292a367cd507, 0x9159015a3070dd17, 0x152fecd8f70e5939,
     0x67332667ffc00b31, 0x8eb44a8768581511, 0xdb0c2e0d64f98fa7, 0x47b5481dbefa4fa4]"

definition sha384 :: "(nat \<Rightarrow> stale) \<Rightarrow> sha2_ctx64 \<Rightarrow> byte list \<Rightarrow> byte list" where
  "sha384 = make64 sha384_iv 48"

definition sha512_iv :: "u64 list" where
  "sha512_iv =
    [0x6a09e667f3bcc908, 0xbb67ae8584caa73b, 0x3c6ef372fe94f82b, 0xa54ff53a5f1d36f1,
     0x510e527fade682d1, 0x9b05688c2b3e6c1f, 0x1f83d9abfb41bd6b, 0x5be0cd19137e2179]"

definition sha512 :: "(nat \<Rightarrow> stale) \<Rightarrow> sha2_ctx64 \<Rightarrow> byte list \<Rightarrow> byte list" where
  "sha512 = make64 sha512_iv 64"

definition sha512_224_iv :: "u64 list" where
  "sha512_224_iv =
    [0x8c3d37c819544da2, 0x73e1996689dcd4d6, 0x1dfab7ae32ff9c82, 0x679dd514582f9fcf,
     0x0f6d2b697bd44da8, 0x77e36f7304c48942, 0x3f9d85a86a1d36c8, 0x1112e6ad91d692a1]"

definition sha512_224 :: "(nat \<Rightarrow> stale) \<Rightarrow> sha2_ctx64 \<Rightarrow> byte list \<Rightarrow> byte list" where
  "sha512_224 = make64 sha512_224_iv 28"

definition sha512_256_iv :: "u64 list" where
  "sha512_256_iv =
    [0x22312194fc2bf72c, 0x9f555fa3c84c64c2, 0x2393b86b6f53b151, 0x963877195940eabd,
     0x96283ee2a88effe3, 0xbe5e1e2553863992, 0x2b0199fc2c85b8aa, 0x0eb72ddc81c52ca2]"

definition sha512_256 :: "(nat \<Rightarrow> stale) \<Rightarrow> sha2_ctx64 \<Rightarrow> byte list \<Rightarrow> byte list" where
  "sha512_256 = make64 sha512_256_iv 32"

section \<open>HMAC and HKDF\<close>

text \<open>
  HMAC finishes a hash up to three times: of a long key, of the inner and of the outer message.  The words left behind by the stores of
  the three are \<open>g 0\<close>, \<open>g 1\<close> and \<open>g 2\<close>.
\<close>

definition sha256_hmac :: "(nat \<Rightarrow> stale) \<Rightarrow> sha2_ctx32 \<Rightarrow> byte list \<Rightarrow> byte list \<Rightarrow> byte list" where
  "sha256_hmac g ctx key msg =
     (let k = (if length key > 64 then sha256 (g 0) ctx key @ replicate 32 0 else key @ replicate (64 - length key) 0);
          ipad = map (\<lambda>x. x XOR 0x36) k;
          opad = map (\<lambda>x. x XOR 0x5c) k;
          (c1, out1) = sha2_final32 (g 1) (sha2_update32 (sha2_update32 (sha2_init32 sha256_iv ctx) ipad) msg);
          (c2, out2) = sha2_final32 (g 2) (sha2_update32 (sha2_update32 (sha2_init32 sha256_iv c1) opad) (take 32 out1))
      in take 32 out2)"

definition sha512_hmac :: "(nat \<Rightarrow> nat \<Rightarrow> stale) \<Rightarrow> sha2_ctx64 \<Rightarrow> byte list \<Rightarrow> byte list \<Rightarrow> byte list" where
  "sha512_hmac g ctx key msg =
     (let k = (if length key > 128 then sha512 (g 0) ctx key @ replicate 64 0 else key @ replicate (128 - length key) 0);
          ipad = map (\<lambda>x. x XOR 0x36) k;
          opad = map (\<lambda>x. x XOR 0x5c) k;
          (c1, out1) = sha2_final64 (g 1) (sha2_update64 (sha2_update64 (sha2_init64 sha512_iv ctx) ipad) msg);
          (c2, out2) = sha2_final64 (g 2) (sha2_update64 (sha2_update64 (sha2_init64 sha512_iv c1) opad) (take 64 out1))
      in take 64 out2)"

text \<open>The salt is optional: \<open>None\<close> is the null pointer.\<close>

definition sha256_hkdf_extract :: "(nat \<Rightarrow> stale) \<Rightarrow> sha2_ctx32 \<Rightarrow> byte list option \<Rightarrow> byte list \<Rightarrow> byte list" where
  "sha256_hkdf_extract g ctx salt ikm = sha256_hmac g ctx (case salt of None \<Rightarrow> replicate 32 0 | Some x \<Rightarrow> x) ikm"

definition sha512_hkdf_extract :: "(nat \<Rightarrow> nat \<Rightarrow> stale) \<Rightarrow> sha2_ctx64 \<Rightarrow> byte list option \<Rightarrow> byte list \<Rightarrow> byte list" where
  "sha512_hkdf_extract g ctx salt ikm = sha512_hmac g ctx (case salt of None \<Rightarrow> replicate 64 0 | Some x \<Rightarrow> x) ikm"

text \<open>
  The expansion loop, with \<open>dl\<close> the digest size.  \<open>Overrun\<close> is the write past the end of the array \<^verbatim>\<open>buf\<close>, whose size leaves
  256 bytes for \<^verbatim>\<open>info\<close>.  \<open>T1\<close> is the array \<^verbatim>\<open>T\<close> of \<open>dl\<close> bytes after the call has filled it.
\<close>

datatype hkdf_result = Overrun | Ret int "byte list"

function hkdf_loop :: "(byte list \<Rightarrow> byte list) \<Rightarrow> nat \<Rightarrow> byte list \<Rightarrow> nat \<Rightarrow> byte list \<Rightarrow> byte \<Rightarrow> byte list \<Rightarrow> hkdf_result" where
  "hkdf_loop hmac dl info olen T ctr okm =
     (if length okm < olen \<and> 0 < dl then
        let b = T @ info @ [ctr] in
        if length b > dl + 256 + 1 then Overrun
        else
          let T1 = take dl (hmac b @ replicate dl 0);
              copy = (if olen - length okm < dl then olen - length okm else dl)
          in hkdf_loop hmac dl info olen T1 (ctr + 1) (okm @ take copy T1)
      else Ret 0 okm)"
  by pat_completeness auto
termination
  by (relation "measure (\<lambda>(hmac, dl, info, olen, T, ctr, okm). olen - length okm)") (auto simp: Let_def)

declare hkdf_loop.simps [simp del]

text \<open>
  The stale words of the call of HMAC on the message \<open>b\<close> are \<open>g b\<close>.  The messages of one run end in different counter bytes, so this
  lets every call find words of its own.
\<close>

definition sha256_hkdf_expand :: "(byte list \<Rightarrow> nat \<Rightarrow> stale) \<Rightarrow> sha2_ctx32 \<Rightarrow> byte list \<Rightarrow> byte list \<Rightarrow> nat \<Rightarrow> hkdf_result" where
  "sha256_hkdf_expand g ctx prk info olen =
     (if olen > 255 * 32 then Ret (- 1) [] else hkdf_loop (\<lambda>b. sha256_hmac (g b) ctx prk b) 32 info olen [] 1 [])"

definition sha512_hkdf_expand :: "(byte list \<Rightarrow> nat \<Rightarrow> nat \<Rightarrow> stale) \<Rightarrow> sha2_ctx64 \<Rightarrow> byte list \<Rightarrow> byte list \<Rightarrow> nat \<Rightarrow> hkdf_result" where
  "sha512_hkdf_expand g ctx prk info olen =
     (if olen > 255 * 64 then Ret (- 1) [] else hkdf_loop (\<lambda>b. sha512_hmac (g b) ctx prk b) 64 info olen [] 1 [])"

section \<open>The standard's compression function\<close>

definition Ch :: "'a::len word \<Rightarrow> 'a word \<Rightarrow> 'a word \<Rightarrow> 'a word" where
  "Ch x y z = (x AND y) XOR (NOT x AND z)"

definition Maj :: "'a::len word \<Rightarrow> 'a word \<Rightarrow> 'a word \<Rightarrow> 'a word" where
  "Maj x y z = (x AND y) XOR (x AND z) XOR (y AND z)"

fun fips_W :: "('a::len word \<Rightarrow> 'a word) \<Rightarrow> ('a word \<Rightarrow> 'a word) \<Rightarrow> 'a word list \<Rightarrow> nat \<Rightarrow> 'a word" where
  "fips_W s0 s1 M t =
     (if t < 16 then M ! t
      else s1 (fips_W s0 s1 M (t - 2)) + fips_W s0 s1 M (t - 7) + s0 (fips_W s0 s1 M (t - 15)) + fips_W s0 s1 M (t - 16))"

declare fips_W.simps [simp del]

type_synonym 'a vars = "'a word \<times> 'a word \<times> 'a word \<times> 'a word \<times> 'a word \<times> 'a word \<times> 'a word \<times> 'a word"

primrec fips_vars :: "('a::len word \<Rightarrow> 'a word) \<Rightarrow> ('a word \<Rightarrow> 'a word) \<Rightarrow> 'a word list \<Rightarrow> (nat \<Rightarrow> 'a word) \<Rightarrow> 'a vars \<Rightarrow> nat \<Rightarrow> 'a vars" where
  "fips_vars S0 S1 K W v 0 = v"
| "fips_vars S0 S1 K W v (Suc t) =
     (case fips_vars S0 S1 K W v t of (a, b, c, d, e, f, g, h) \<Rightarrow>
        let T1 = h + S1 e + Ch e f g + K ! t + W t; T2 = S0 a + Maj a b c
        in (T1 + T2, a, b, c, d + T1, e, f, g))"

definition vars_list :: "'a vars \<Rightarrow> 'a word list" where
  "vars_list v = (case v of (a, b, c, d, e, f, g, h) \<Rightarrow> [a, b, c, d, e, f, g, h])"

definition list_vars :: "'a word list \<Rightarrow> 'a vars" where
  "list_vars s = (s ! 0, s ! 1, s ! 2, s ! 3, s ! 4, s ! 5, s ! 6, s ! 7)"

definition fips_block :: "('a::len word \<Rightarrow> 'a word) \<Rightarrow> ('a word \<Rightarrow> 'a word) \<Rightarrow> ('a word \<Rightarrow> 'a word) \<Rightarrow> ('a word \<Rightarrow> 'a word) \<Rightarrow>
    'a word list \<Rightarrow> 'a word list \<Rightarrow> 'a word list \<Rightarrow> 'a word list" where
  "fips_block S0 S1 s0 s1 K H M =
     map2 (+) H (vars_list (fips_vars S0 S1 K (fips_W s0 s1 M) (list_vars H) (length K)))"

text \<open>The functions of FIPS 180-4, section 4.1: rotations to the right and shifts.\<close>

definition rot3 :: "nat \<Rightarrow> nat \<Rightarrow> nat \<Rightarrow> 'a::len word \<Rightarrow> 'a word" where
  "rot3 a b c x = word_rotr a x XOR word_rotr b x XOR word_rotr c x"

definition rot2 :: "nat \<Rightarrow> nat \<Rightarrow> nat \<Rightarrow> 'a::len word \<Rightarrow> 'a word" where
  "rot2 a b c x = word_rotr a x XOR word_rotr b x XOR drop_bit c x"

definition sha256_spec_block :: "u32 list \<Rightarrow> byte list \<Rightarrow> u32 list" where
  "sha256_spec_block H b = fips_block (rot3 2 13 22) (rot3 6 11 25) (rot2 7 18 3) (rot2 17 19 10) K256 H
     (map (\<lambda>i. load32_be (drop (i * 4) b)) [0..<16])"

definition sha512_spec_block :: "u64 list \<Rightarrow> byte list \<Rightarrow> u64 list" where
  "sha512_spec_block H b = fips_block (rot3 28 34 39) (rot3 14 18 41) (rot2 1 8 7) (rot2 19 61 6) K512 H
     (map (\<lambda>i. load64_be (drop (i * 8) b)) [0..<16])"

lemma vars_list_list: "length s = 8 \<Longrightarrow> vars_list (list_vars s) = s"
  by (rule nth_equalityI) (auto simp: vars_list_def list_vars_def nth_Cons numeral_eq_Suc less_Suc_eq)

lemma list_vars_list [simp]: "list_vars (vars_list v) = v" "length (vars_list v) = 8"
  by (simp_all add: vars_list_def list_vars_def split: prod.splits)

lemma sum4: "(a :: 'a::len word) + b + c + d = d + c + b + a"
  by (simp add: ac_simps)

lemma sigma32:
  "rotl32 x 25 XOR rotl32 x 14 XOR drop_bit 3 x = rot2 7 18 3 x"
  "rotl32 x 15 XOR rotl32 x 13 XOR drop_bit 10 x = rot2 17 19 10 x"
  "rotl32 x 30 XOR rotl32 x 19 XOR rotl32 x 10 = rot3 2 13 22 x"
  "rotl32 x 26 XOR rotl32 x 21 XOR rotl32 x 7 = rot3 6 11 25 x"
  using rotl_rotr [where 'a = 32, of 7] rotl_rotr [where 'a = 32, of 18] rotl_rotr [where 'a = 32, of 17] rotl_rotr [where 'a = 32, of 19]
    rotl_rotr [where 'a = 32, of 2] rotl_rotr [where 'a = 32, of 13] rotl_rotr [where 'a = 32, of 22] rotl_rotr [where 'a = 32, of 6] rotl_rotr [where 'a = 32, of 11] rotl_rotr [where 'a = 32, of 25]
  by (simp_all add: rot2_def rot3_def rotl32_word)

abbreviation fips_W32 :: "u32 list \<Rightarrow> nat \<Rightarrow> u32" where
  "fips_W32 \<equiv> fips_W (rot2 7 18 3) (rot2 17 19 10)"

lemma extend32_fips:
  "16 \<le> length w \<Longrightarrow> (\<forall>i<length w. w ! i = fips_W32 M i) \<Longrightarrow>
   length (extend32 n w) = length w + n \<and> (\<forall>i<length w + n. extend32 n w ! i = fips_W32 M i)"
proof (induction n arbitrary: w)
  case (Suc n)
  define x where "x = w ! (length w - 16) + rot2 7 18 3 (w ! (length w - 15)) + w ! (length w - 7) +
    rot2 17 19 10 (w ! (length w - 2))"
  have x: "x = fips_W32 M (length w)" using Suc.prems by (subst fips_W.simps) (simp add: x_def ac_simps)
  have "extend32 (Suc n) w = extend32 n (w @ [x])" by (simp add: x_def Let_def sigma32)
  moreover have "\<forall>i<length (w @ [x]). (w @ [x]) ! i = fips_W32 M i" using Suc.prems x by (simp add: nth_append less_Suc_eq)
  ultimately show ?case using Suc.IH [of "w @ [x]"] Suc.prems(1) by simp
qed simp

lemma round32_fips:
  "fold (\<lambda>i. round32 (K256 ! i) (W i)) [0..<n] (vars_list v) =
   vars_list (fips_vars (rot3 2 13 22) (rot3 6 11 25) K256 W v n)"
proof (induction n)
  case (Suc n)
  have "round32 k w (vars_list u) = vars_list (case u of (a, b, c, d, e, f, g, h) \<Rightarrow>
      let T1 = h + rot3 6 11 25 e + Ch e f g + k + w; T2 = rot3 2 13 22 a + Maj a b c
      in (T1 + T2, a, b, c, d + T1, e, f, g))" for k w u
    by (simp add: round32_def vars_list_def Let_def sigma32 Ch_def Maj_def split: prod.splits)
  then show ?case using Suc by simp
qed simp

lemma fold_cong_upt: "(\<And>i. i < n \<Longrightarrow> f i = g i) \<Longrightarrow> fold f [0..<n] s = fold g [0..<n] s"
  by (rule fold_cong) auto

lemma sha2_block32_fips:
  assumes "length H = 8"
  shows "sha2_block32 H b = sha256_spec_block H b"
proof -
  define M where "M = map (\<lambda>i. load32_be (drop (i * 4) b)) [0..<16]"
  have "\<forall>i<length M. M ! i = fips_W32 M i" by (simp add: M_def fips_W.simps)
  then have w: "extend32 48 M ! i = fips_W32 M i" if "i < 64" for i
    using extend32_fips [of M M 48] that by (simp add: M_def)
  have "fold (\<lambda>i. round32 (K256 ! i) (extend32 48 M ! i)) [0..<64] H =
      fold (\<lambda>i. round32 (K256 ! i) (fips_W32 M i)) [0..<64] (vars_list (list_vars H))"
    unfolding vars_list_list [OF assms] by (rule fold_cong_upt) (simp add: w)
  moreover have "length K256 = 64" by (simp add: K256_def)
  ultimately show ?thesis
    unfolding sha2_block32_def sha256_spec_block_def fips_block_def M_def [symmetric]
    by (simp add: round32_fips assms del: upt.simps)
qed

lemma sigma64:
  "rotl64 x 63 XOR rotl64 x 56 XOR drop_bit 7 x = rot2 1 8 7 x"
  "rotl64 x 45 XOR rotl64 x 3 XOR drop_bit 6 x = rot2 19 61 6 x"
  "rotl64 x 36 XOR rotl64 x 30 XOR rotl64 x 25 = rot3 28 34 39 x"
  "rotl64 x 50 XOR rotl64 x 46 XOR rotl64 x 23 = rot3 14 18 41 x"
  using rotl_rotr [where 'a = 64, of 1] rotl_rotr [where 'a = 64, of 8] rotl_rotr [where 'a = 64, of 19] rotl_rotr [where 'a = 64, of 61]
    rotl_rotr [where 'a = 64, of 28] rotl_rotr [where 'a = 64, of 34] rotl_rotr [where 'a = 64, of 39] rotl_rotr [where 'a = 64, of 14] rotl_rotr [where 'a = 64, of 18] rotl_rotr [where 'a = 64, of 41]
  by (simp_all add: rot2_def rot3_def rotl64_word)

abbreviation fips_W64 :: "u64 list \<Rightarrow> nat \<Rightarrow> u64" where
  "fips_W64 \<equiv> fips_W (rot2 1 8 7) (rot2 19 61 6)"

lemma extend64_fips:
  "16 \<le> length w \<Longrightarrow> (\<forall>i<length w. w ! i = fips_W64 M i) \<Longrightarrow>
   length (extend64 n w) = length w + n \<and> (\<forall>i<length w + n. extend64 n w ! i = fips_W64 M i)"
proof (induction n arbitrary: w)
  case (Suc n)
  define x where "x = w ! (length w - 16) + rot2 1 8 7 (w ! (length w - 15)) + w ! (length w - 7) +
    rot2 19 61 6 (w ! (length w - 2))"
  have x: "x = fips_W64 M (length w)" using Suc.prems by (subst fips_W.simps) (simp add: x_def ac_simps)
  have "extend64 (Suc n) w = extend64 n (w @ [x])" by (simp add: x_def Let_def sigma64)
  moreover have "\<forall>i<length (w @ [x]). (w @ [x]) ! i = fips_W64 M i" using Suc.prems x by (simp add: nth_append less_Suc_eq)
  ultimately show ?case using Suc.IH [of "w @ [x]"] Suc.prems(1) by simp
qed simp

lemma round64_fips:
  "fold (\<lambda>i. round64 (K512 ! i) (W i)) [0..<n] (vars_list v) =
   vars_list (fips_vars (rot3 28 34 39) (rot3 14 18 41) K512 W v n)"
proof (induction n)
  case (Suc n)
  have "round64 k w (vars_list u) = vars_list (case u of (a, b, c, d, e, f, g, h) \<Rightarrow>
      let T1 = h + rot3 14 18 41 e + Ch e f g + k + w; T2 = rot3 28 34 39 a + Maj a b c
      in (T1 + T2, a, b, c, d + T1, e, f, g))" for k w u
    by (simp add: round64_def vars_list_def Let_def sigma64 Ch_def Maj_def split: prod.splits)
  then show ?case using Suc by simp
qed simp

lemma sha2_block64_fips:
  assumes "length H = 8"
  shows "sha2_block64 H b = sha512_spec_block H b"
proof -
  define M where "M = map (\<lambda>i. load64_be (drop (i * 8) b)) [0..<16]"
  have "\<forall>i<length M. M ! i = fips_W64 M i" by (simp add: M_def fips_W.simps)
  then have w: "extend64 64 M ! i = fips_W64 M i" if "i < 80" for i
    using extend64_fips [of M M 64] that by (simp add: M_def)
  have "fold (\<lambda>i. round64 (K512 ! i) (extend64 64 M ! i)) [0..<80] H =
      fold (\<lambda>i. round64 (K512 ! i) (fips_W64 M i)) [0..<80] (vars_list (list_vars H))"
    unfolding vars_list_list [OF assms] by (rule fold_cong_upt) (simp add: w)
  moreover have "length K512 = 80" by (simp add: K512_def)
  ultimately show ?thesis
    unfolding sha2_block64_def sha512_spec_block_def fips_block_def M_def [symmetric]
    by (simp add: round64_fips assms del: upt.simps)
qed

section \<open>Correctness of the hashes\<close>

definition sha2_out32 :: "u32 list \<Rightarrow> byte list" where
  "sha2_out32 st = concat (map store32_be (take 8 st))"

lemma sha2_final32_eq:
  "snd (sha2_final32 g c) =
    (let b1 = (buf c)[len c := 0x80]; i = len c + 1;
         (s2, b2, i2) = (if i > 64 - 8 then
            (let b = zero_fill b1 i 64 in (sha2_block32 (state c) b, b, 0)) else (state c, b1, i));
         b3 = zero_fill b2 i2 (64 - 8)
     in sha2_out32 (sha2_block32 s2 (take (64 - 8) b3 @ (\<lambda>l. store64_be g 0) (bitlen c + of_nat (len c) * 8))))"
  by (simp add: sha2_final32_def sha2_out32_def sha2_transform32_def Let_def store64_be_def)

interpretation sha2i32: md_hash 64 8 sha2_block32 "\<lambda>l. l + 512" "\<lambda>l r. l + of_nat r * 8" "\<lambda>n. of_nat (8 * n)"
  "\<lambda>l. store64_be g 0" sha2_out32 sha2_put32 "\<lambda>c. snd (sha2_final32 g c)" for g
proof
  fix c b
  show "sha2_put32 c b =
      (let c1 = c\<lparr>buf := (buf c)[len c := b], len := len c + 1\<rparr> in
       if len c1 = 64 then c1\<lparr>state := sha2_block32 (state c1) (buf c1), bitlen := (\<lambda>l. l + 512) (bitlen c1), len := 0\<rparr> else c1)"
    by (simp add: sha2_put32_def sha2_transform32_def Let_def)
qed (simp_all add: sha2_final32_eq algebra_simps)

text \<open>
  The hash of FIPS 180-4 on the 32-bit core, before truncation, with the contents \<open>f\<close> of the length field of the padding as
  an argument; the standard's own has the big-endian bit length there.
\<close>

definition fips_hash32_field :: "byte list \<Rightarrow> u32 list \<Rightarrow> byte list \<Rightarrow> byte list" where
  "fips_hash32_field f = md_spec 64 8 (\<lambda>n. f) sha256_spec_block sha2_out32"

definition fips_hash32 :: "u32 list \<Rightarrow> byte list \<Rightarrow> byte list" where
  "fips_hash32 iv m = fips_hash32_field (be64 (of_nat (8 * length m))) iv m"

lemma sha2_block32_length: "length H = 8 \<Longrightarrow> length (sha2_block32 H b) = 8"
  by (simp add: sha2_block32_fips sha256_spec_block_def fips_block_def)

lemma foldl_block32:
  "length H = 8 \<Longrightarrow> foldl sha2_block32 H bs = foldl sha256_spec_block H bs \<and> length (foldl sha256_spec_block H bs) = 8"
proof (induction bs arbitrary: H)
  case (Cons b bs)
  then show ?case using Cons.IH [of "sha2_block32 H b"] sha2_block32_length [of H b] sha2_block32_fips [of H b] by simp
qed simp

lemma sha2_fed32:
  assumes "length (buf ctx) = 64" "length iv = 8"
  shows "snd (sha2_final32 g (sha2_update32 (sha2_init32 iv ctx) m)) = fips_hash32_field (store64_be g 0) iv m"
proof -
  have "snd (sha2_final32 g (sha2_update32 (sha2_init32 iv ctx) m)) =
      md_spec 64 8 (\<lambda>n. store64_be g 0) sha2_block32 sha2_out32 iv m"
    unfolding sha2_update32_def using assms by (intro sha2i32.hash_correct) (simp_all add: sha2_init32_def)
  then show ?thesis using foldl_block32 [OF assms(2)] by (simp add: fips_hash32_field_def md_spec_def)
qed

text \<open>The bit counter of the context is right; only the store of it is not.\<close>

lemma sha2_bitlen32:
  assumes "length (buf ctx) = 64"
  shows "bitlen (fst (sha2_final32 g (sha2_update32 (sha2_init32 iv ctx) m))) = of_nat (8 * length m)"
proof -
  have "bitlen (fst (sha2_final32 g c)) = bitlen c + of_nat (len c) * 8" for c
    by (simp add: sha2_final32_def sha2_transform32_def Let_def)
  then show ?thesis
    using sha2i32.hash_total [of "sha2_init32 iv ctx" m] assms by (simp add: sha2_init32_def sha2_update32_def)
qed

lemma fips_hash32_length: "length iv = 8 \<Longrightarrow> length (fips_hash32_field f iv m) = 32"
  using foldl_block32 [of iv] by (simp add: fips_hash32_field_def md_spec_def sha2_out32_def length_concat comp_def sum_list_triv)

lemma sha2_ctx32_buf:
  "length (buf c) = 64 \<Longrightarrow> length (buf (fst (sha2_final32 g c))) = 64"
  "length (buf (sha2_update32 c m)) = length (buf c)" "buf (sha2_init32 iv c) = buf c"
  "sha2_update32 (sha2_update32 c a) b = sha2_update32 c (a @ b)"
proof -
  show "length (buf c) = 64 \<Longrightarrow> length (buf (fst (sha2_final32 g c))) = 64"
    by (simp add: sha2_final32_def sha2_transform32_def Let_def)
  show "length (buf (sha2_update32 c m)) = length (buf c)" unfolding sha2_update32_def by (rule sha2i32.update_buf)
qed (simp_all add: sha2_init32_def sha2_update32_def)

definition total128 :: "nat \<Rightarrow> u64 \<times> u64" where
  "total128 n = (of_nat (8 * n), of_nat (8 * n div 2 ^ 64))"

lemma carry_word:
  assumes "d < 2 ^ 64"
  shows "((of_nat x + of_nat d :: u64) < of_nat d \<longleftrightarrow> (x + d) div 2 ^ 64 = Suc (x div 2 ^ 64)) \<and>
    (\<not> (of_nat x + of_nat d :: u64) < of_nat d \<longleftrightarrow> (x + d) div 2 ^ 64 = x div 2 ^ 64)"
proof -
  have u: "unat (of_nat x + of_nat d :: u64) = (x + d) mod 2 ^ 64" "unat (of_nat d :: u64) = d"
    using assms by (simp_all add: unsigned_of_nat take_bit_eq_mod flip: of_nat_add)
  have lt: "(of_nat x + of_nat d :: u64) < of_nat d \<longleftrightarrow> (x + d) mod 2 ^ 64 < d" unfolding word_less_nat_alt u ..
  show ?thesis unfolding lt by (rule carry_div [OF assms])
qed

lemma carry_add_total:
  assumes "8 * d < 2 ^ 64"
  shows "carry_add (total128 n) (of_nat (8 * d)) = total128 (n + d)"
proof -
  have s: "8 * (n + d) = 8 * n + 8 * d" by simp
  have "(if (of_nat (8 * n) + of_nat (8 * d) :: u64) < of_nat (8 * d) then of_nat (8 * n div 2 ^ 64) + 1 else of_nat (8 * n div 2 ^ 64)) =
      (of_nat ((8 * n + 8 * d) div 2 ^ 64) :: u64)"
  proof (cases "(of_nat (8 * n) + of_nat (8 * d) :: u64) < of_nat (8 * d)")
    case True
    then have "(8 * n + 8 * d) div 2 ^ 64 = Suc (8 * n div 2 ^ 64)" using carry_word [OF assms, of "8 * n"] by blast
    then show ?thesis unfolding if_P [OF True] by (simp only: of_nat_Suc add.commute)
  next
    case False
    then have "(8 * n + 8 * d) div 2 ^ 64 = 8 * n div 2 ^ 64" using carry_word [OF assms, of "8 * n"] by blast
    then show ?thesis unfolding if_not_P [OF False] by (simp only:)
  qed
  then show ?thesis unfolding carry_add_def total128_def Let_def fst_conv snd_conv s of_nat_add by simp
qed

text \<open>The length field of the last block, as the two stores leave it.\<close>

definition stale_field64 :: "(nat \<Rightarrow> stale) \<Rightarrow> byte list" where
  "stale_field64 g = store64_be (g 0) 0 @ store64_be (g 1) 0"

lemma sha2_final64_eq:
  "state (fst (sha2_final64 g c)) =
    (let b1 = (buf c)[len c := 0x80]; i = len c + 1;
         (s2, b2, i2) = (if i > 128 - 16 then
            (let b = zero_fill b1 i 128 in (sha2_block64 (state c) b, b, 0)) else (state c, b1, i));
         b3 = zero_fill b2 i2 (128 - 16)
     in id (sha2_block64 s2 (take (128 - 16) b3 @ (\<lambda>l. stale_field64 g) (carry_add (bitlen c) (of_nat (len c) * 8)))))"
  by (simp add: sha2_final64_def sha2_transform64_def Let_def stale_field64_def store64_be_def)

interpretation sha2i64: md_hash 128 16 sha2_block64 "\<lambda>l. carry_add l 1024" "\<lambda>l r. carry_add l (of_nat r * 8)" "total128"
  "\<lambda>l. stale_field64 g" id sha2_put64 "\<lambda>c. state (fst (sha2_final64 g c))" for g
proof
  fix c b
  show "sha2_put64 c b =
      (let c1 = c\<lparr>buf := (buf c)[len c := b], len := len c + 1\<rparr> in
       if len c1 = 128 then c1\<lparr>state := sha2_block64 (state c1) (buf c1), bitlen := (\<lambda>l. carry_add l 1024) (bitlen c1), len := 0\<rparr> else c1)"
    by (simp add: sha2_put64_def sha2_transform64_def Let_def)
next
  fix k r :: nat
  show "carry_add (total128 (k * 128)) 1024 = total128 (k * 128 + 128)" using carry_add_total [of 128] by simp
  assume "r < 128"
  then show "carry_add (total128 (k * 128)) (of_nat r * 8) = total128 (k * 128 + r)"
    using carry_add_total [of r] by (simp add: mult.commute)
qed (simp_all add: sha2_final64_eq stale_field64_def)

text \<open>The chaining value at the end of FIPS 180-4's hash on the 64-bit core, with the contents \<open>f\<close> of the length field an argument.\<close>

definition fips_state64_field :: "byte list \<Rightarrow> u64 list \<Rightarrow> byte list \<Rightarrow> u64 list" where
  "fips_state64_field f = md_spec 128 16 (\<lambda>n. f) sha512_spec_block id"

lemma sha2_block64_length: "length H = 8 \<Longrightarrow> length (sha2_block64 H b) = 8"
  by (simp add: sha2_block64_fips sha512_spec_block_def fips_block_def)

lemma foldl_block64:
  "length H = 8 \<Longrightarrow> foldl sha2_block64 H bs = foldl sha512_spec_block H bs \<and> length (foldl sha512_spec_block H bs) = 8"
proof (induction bs arbitrary: H)
  case (Cons b bs)
  then show ?case using Cons.IH [of "sha2_block64 H b"] sha2_block64_length [of H b] sha2_block64_fips [of H b] by simp
qed simp

lemma sha2_fed64:
  assumes "length (buf ctx) = 128" "length iv = 8"
  shows "state (fst (sha2_final64 g (sha2_update64 (sha2_init64 iv ctx) m))) = fips_state64_field (stale_field64 g) iv m"
proof -
  have "state (fst (sha2_final64 g (sha2_update64 (sha2_init64 iv ctx) m))) =
      md_spec 128 16 (\<lambda>n. stale_field64 g) sha2_block64 id iv m"
    unfolding sha2_update64_def using assms by (intro sha2i64.hash_correct) (simp_all add: sha2_init64_def total128_def)
  then show ?thesis using foldl_block64 [OF assms(2)] by (simp add: fips_state64_field_def md_spec_def)
qed

lemma sha2_bitlen64:
  assumes "length (buf ctx) = 128"
  shows "bitlen (fst (sha2_final64 g (sha2_update64 (sha2_init64 iv ctx) m))) = total128 (length m)"
proof -
  have "bitlen (fst (sha2_final64 g c)) = carry_add (bitlen c) (of_nat (len c) * 8)" for c
    by (simp add: sha2_final64_def sha2_transform64_def Let_def)
  then show ?thesis
    using sha2i64.hash_total [of "sha2_init64 iv ctx" m] assms by (simp add: sha2_init64_def sha2_update64_def total128_def)
qed

text \<open>The digest of the 64-bit core is what the eight stores leave: no word of the state reaches it.\<close>

definition stale_digest64 :: "(nat \<Rightarrow> stale) \<Rightarrow> byte list" where
  "stale_digest64 g = concat (map (\<lambda>i. store64_be (g (i + 2)) 0) [0..<8])"

lemma sha2_digest64: "snd (sha2_final64 g c) = stale_digest64 g"
  by (simp add: sha2_final64_def Let_def case_prod_beta stale_digest64_def store64_be_def)

lemma stale_digest64_length: "length (stale_digest64 g) = 64"
  by (simp add: stale_digest64_def length_concat comp_def sum_list_triv)

lemma sha2_ctx64_buf:
  "length (buf c) = 128 \<Longrightarrow> length (buf (fst (sha2_final64 g c))) = 128"
  "length (buf (sha2_update64 c m)) = length (buf c)" "buf (sha2_init64 iv c) = buf c"
  "sha2_update64 (sha2_update64 c a) b = sha2_update64 c (a @ b)"
proof -
  show "length (buf c) = 128 \<Longrightarrow> length (buf (fst (sha2_final64 g c))) = 128"
    by (simp add: sha2_final64_def sha2_transform64_def Let_def)
  show "length (buf (sha2_update64 c m)) = length (buf c)" unfolding sha2_update64_def by (rule sha2i64.update_buf)
qed (simp_all add: sha2_init64_def sha2_update64_def)

lemma iv_lengths [simp]:
  "length sha224_iv = 8" "length sha256_iv = 8" "length sha384_iv = 8" "length sha512_iv = 8"
  "length sha512_224_iv = 8" "length sha512_256_iv = 8"
  by (simp_all add: sha224_iv_def sha256_iv_def sha384_iv_def sha512_iv_def sha512_224_iv_def sha512_256_iv_def)

text \<open>
  C3: SHA-224 and SHA-256 compute the hash of FIPS 180-4 of the whole message, truncated to the digest, except that the length
  field of the padding holds the two words the broken 64-bit store leaves there; the hash is the standard's when those words happen
  to be the bit length.  On the 64-bit core the state at the end is the standard's chaining value up to that field, but the digest
  of the four functions consists of stale words alone.  The bit counters of both cores are right, the carry of the 128-bit one included.
\<close>

theorem sha2_correct:
  assumes "length (buf c) = 64" "length (buf d) = 128"
  shows "sha224 g c m = take 28 (fips_hash32_field (store64_be g 0) sha224_iv m) \<and>
    sha256 g c m = take 32 (fips_hash32_field (store64_be g 0) sha256_iv m) \<and>
    (g = halves_be (of_nat (8 * length m)) \<longrightarrow>
       sha224 g c m = take 28 (fips_hash32 sha224_iv m) \<and> sha256 g c m = take 32 (fips_hash32 sha256_iv m)) \<and>
    bitlen (fst (sha2_final32 g (sha2_update32 (sha2_init32 sha256_iv c) m))) = of_nat (8 * length m) \<and>
    (\<forall>iv \<in> {sha384_iv, sha512_iv, sha512_224_iv, sha512_256_iv}.
       let e = fst (sha2_final64 h (sha2_update64 (sha2_init64 iv d) m)) in
       state e = fips_state64_field (stale_field64 h) iv m \<and>
       bitlen e = (of_nat (8 * length m), of_nat (8 * length m div 2 ^ 64))) \<and>
    sha384 h d m = take 48 (stale_digest64 h) \<and> sha512 h d m = take 64 (stale_digest64 h) \<and>
    sha512_224 h d m = take 28 (stale_digest64 h) \<and> sha512_256 h d m = take 32 (stale_digest64 h)"
proof (intro conjI ballI impI)
  show "sha224 g c m = take 28 (fips_hash32_field (store64_be g 0) sha224_iv m)"
    "sha256 g c m = take 32 (fips_hash32_field (store64_be g 0) sha256_iv m)"
    using sha2_fed32 [OF assms(1)] by (simp_all add: sha224_def sha256_def make32_def)
  assume "g = halves_be (of_nat (8 * length m))"
  then have "store64_be g 0 = be64 (of_nat (8 * length m))" using store64_iff(1) by blast
  then show "sha224 g c m = take 28 (fips_hash32 sha224_iv m)" "sha256 g c m = take 32 (fips_hash32 sha256_iv m)"
    using sha2_fed32 [OF assms(1)] by (simp_all only: sha224_def sha256_def make32_def fips_hash32_def iv_lengths)
next
  fix iv assume "iv \<in> {sha384_iv, sha512_iv, sha512_224_iv, sha512_256_iv}"
  then show "let e = fst (sha2_final64 h (sha2_update64 (sha2_init64 iv d) m)) in
      state e = fips_state64_field (stale_field64 h) iv m \<and> bitlen e = (of_nat (8 * length m), of_nat (8 * length m div 2 ^ 64))"
    using sha2_fed64 [OF assms(2), of iv] sha2_bitlen64 [OF assms(2)] by (auto simp: Let_def total128_def)
qed (use sha2_bitlen32 [OF assms(1)] in \<open>simp_all add: sha384_def sha512_def sha512_224_def sha512_256_def make64_def sha2_digest64\<close>)

theorem sha2_correct_witness:
  "sha256 (0, 8) \<lparr>state = [], bitlen = 0, buf = replicate 64 0, len = 3\<rparr> [97] = take 32 (fips_hash32 sha256_iv [97])"
proof -
  have g: "(0, 8) = halves_be (of_nat (8 * length [97 :: byte]))" by (simp add: halves_be_def)
  have c: "length (buf \<lparr>state = [] :: u32 list, bitlen = 0 :: u64, buf = replicate 64 0, len = 3\<rparr>) = 64"
    "length (buf \<lparr>state = [] :: u64 list, bitlen = (0 :: u64, 0 :: u64), buf = replicate 128 0, len = 3\<rparr>) = 128" by simp_all
  show ?thesis using sha2_correct [OF c, of "(0, 8)" "[97]" "\<lambda>i. (0, 0)"] g by blast
qed

lemma sha256_hmac_eq:
  assumes "length (buf ctx) = 64"
  shows "sha256_hmac g ctx key msg =
    (let h = \<lambda>i m. take 32 (fips_hash32_field (store64_be (g i) 0) sha256_iv m) in hmac_spec 64 (h 0) (h 1) (h 2) key msg)"
proof -
  have "sha256 (g 0) ctx key = take 32 (fips_hash32_field (store64_be (g 0) 0) sha256_iv key)"
    using sha2_fed32 assms by (simp add: sha256_def make32_def)
  then show ?thesis using sha2_fed32 assms fips_hash32_length [of sha256_iv]
    by (simp add: sha256_hmac_def hmac_spec_def Let_def case_prod_beta sha2_ctx32_buf)
qed

text \<open>
  \<^verbatim>\<open>sha256_hmac\<close> is HMAC (RFC 2104) over the hashes with their stale length fields, for keys shorter and longer than a block; with the
  right fields it is HMAC over the FIPS hash.  \<^verbatim>\<open>sha512_hmac\<close> returns the stale words of its last finish, whatever the key and the message.
\<close>

theorem sha2_hmac_correct:
  assumes "length (buf c) = 64"
  shows "sha256_hmac g c key msg =
      (let h = \<lambda>i m. take 32 (fips_hash32_field (store64_be (g i) 0) sha256_iv m) in hmac_spec 64 (h 0) (h 1) (h 2) key msg) \<and>
    sha512_hmac h d key msg = take 64 (stale_digest64 (h 2))"
  using sha256_hmac_eq [OF assms] by (simp add: sha512_hmac_def Let_def case_prod_beta sha2_digest64)

theorem sha2_hmac_correct_witness:
  "sha512_hmac (\<lambda>i j. (0, 0)) \<lparr>state = [], bitlen = (0, 0), buf = [], len = 0\<rparr> [1, 2] [97] = take 64 (stale_digest64 (\<lambda>j. (0, 0)))"
  using sha2_hmac_correct [of "\<lparr>state = [], bitlen = 0, buf = replicate 64 0, len = 3\<rparr>"] by simp

section \<open>Correctness of HKDF\<close>

primrec hkdf_T :: "(byte list \<Rightarrow> byte list) \<Rightarrow> byte list \<Rightarrow> nat \<Rightarrow> byte list" where
  "hkdf_T hmac info 0 = []"
| "hkdf_T hmac info (Suc i) = hmac (hkdf_T hmac info i @ info @ [of_nat (Suc i)])"

definition hkdf_okm :: "(byte list \<Rightarrow> byte list) \<Rightarrow> byte list \<Rightarrow> nat \<Rightarrow> byte list" where
  "hkdf_okm hmac info n = concat (map (hkdf_T hmac info) [1..<Suc n])"

lemma hkdf_okm_Suc: "hkdf_okm hmac info (Suc n) = hkdf_okm hmac info n @ hkdf_T hmac info (Suc n)"
  by (simp add: hkdf_okm_def)

lemma hkdf_T_length: "(\<And>m. length (hmac m) = dl) \<Longrightarrow> length (hkdf_T hmac info i) = (if i = 0 then 0 else dl)"
  by (cases i) simp_all

lemma hkdf_okm_length: "(\<And>m. length (hmac m) = dl) \<Longrightarrow> length (hkdf_okm hmac info n) = n * dl"
proof (induction n)
  case 0
  then show ?case by (simp add: hkdf_okm_def)
next
  case (Suc n)
  then show ?case unfolding hkdf_okm_Suc length_append using hkdf_T_length [of hmac dl info "Suc n"] by simp
qed

lemma hkdf_okm_prefix: "i \<le> n \<Longrightarrow> \<exists>ys. hkdf_okm hmac info n = hkdf_okm hmac info i @ ys"
proof (induction n)
  case (Suc n)
  then show ?case by (cases "i = Suc n") (auto simp: hkdf_okm_Suc)
qed (simp add: hkdf_okm_def)

lemma hkdf_loop_okm:
  assumes hm: "\<And>m. length (hmac m) = dl" and dl: "0 < dl" and info: "length info \<le> 256"
  shows "i \<le> n \<Longrightarrow> olen \<le> n * dl \<Longrightarrow>
    hkdf_loop hmac dl info olen (hkdf_T hmac info i) (of_nat (Suc i)) (take olen (hkdf_okm hmac info i)) =
    Ret 0 (take olen (hkdf_okm hmac info n))"
proof (induction "n - i" arbitrary: i)
  case 0
  then have "olen \<le> i * dl" by simp
  then show ?case using 0 hkdf_okm_length [where hmac = hmac and info = info and n = i, OF hm] by (subst hkdf_loop.simps) simp
next
  case (Suc k)
  note len = hkdf_okm_length [where hmac = hmac and info = info and n = i, OF hm]
    hkdf_T_length [where hmac = hmac and info = info and i = i, OF hm]
  show ?case
  proof (cases "i * dl < olen")
    case False
    obtain ys where "hkdf_okm hmac info n = hkdf_okm hmac info i @ ys" using hkdf_okm_prefix Suc.prems(1) by blast
    then show ?thesis using False len by (subst hkdf_loop.simps) simp
  next
    case True
    define T1 where "T1 = hkdf_T hmac info (Suc i)"
    have t: "take dl (T1 @ replicate dl 0) = T1" "hmac (hkdf_T hmac info i @ info @ [of_nat (Suc i)]) = T1" "length T1 = dl"
      using hm by (simp_all add: T1_def)
    have b: "\<not> length (hkdf_T hmac info i @ info @ [of_nat (Suc i)]) > dl + 256 + 1" using len info by simp
    have o: "take olen (hkdf_okm hmac info i) = hkdf_okm hmac info i" using True len by simp
    have okm: "hkdf_okm hmac info i @ take (if olen - i * dl < dl then olen - i * dl else dl) T1 = take olen (hkdf_okm hmac info (Suc i))"
      unfolding hkdf_okm_Suc T1_def [symmetric] take_append o len(1) using t(3) by auto
    have "hkdf_loop hmac dl info olen (hkdf_T hmac info i) (of_nat (Suc i)) (take olen (hkdf_okm hmac info i)) =
        hkdf_loop hmac dl info olen T1 (of_nat (Suc i) + 1) (take olen (hkdf_okm hmac info (Suc i)))"
      unfolding o by (subst hkdf_loop.simps) (use True dl in \<open>simp only: Let_def if_not_P [OF b] len(1) t okm simp_thms if_True\<close>)
    also have "\<dots> = Ret 0 (take olen (hkdf_okm hmac info n))"
      using Suc.hyps(1) [of "Suc i"] Suc.hyps(2) Suc.prems by (simp add: T1_def add.commute)
    finally show ?thesis .
  qed
qed

text \<open>
  HKDF-Expand refuses more than 255 blocks, and otherwise writes the first \<open>olen\<close> bytes of
  \<open>T(1) | T(2) | \<dots>\<close> of RFC 5869, provided \<^verbatim>\<open>info\<close> has at most 256 bytes.
\<close>

theorem hkdf_expand_correct:
  assumes "length (buf c) = 64" "length info \<le> 256"
  shows "sha256_hkdf_expand g c prk info olen =
      (if olen > 8160 then Ret (- 1) [] else Ret 0 (take olen (hkdf_okm (\<lambda>b. sha256_hmac (g b) c prk b) info 255))) \<and>
    sha512_hkdf_expand h d prk info olen =
      (if olen > 16320 then Ret (- 1) [] else Ret 0 (take olen (hkdf_okm (\<lambda>b. sha512_hmac (h b) d prk b) info 255)))"
proof -
  have l: "length (sha256_hmac (g b) c prk b) = 32" "length (sha512_hmac (h b) d prk b) = 64" for b
    using sha256_hmac_eq [OF assms(1)] fips_hash32_length stale_digest64_length
    by (simp_all add: hmac_spec_def Let_def sha512_hmac_def case_prod_beta sha2_digest64)
  have "olen \<le> 255 * 32 \<Longrightarrow> hkdf_loop (\<lambda>b. sha256_hmac (g b) c prk b) 32 info olen [] 1 [] =
      Ret 0 (take olen (hkdf_okm (\<lambda>b. sha256_hmac (g b) c prk b) info 255))"
    using hkdf_loop_okm [of "\<lambda>b. sha256_hmac (g b) c prk b", OF l(1) _ assms(2), of 0 255] by (simp add: hkdf_okm_def)
  moreover have "olen \<le> 255 * 64 \<Longrightarrow> hkdf_loop (\<lambda>b. sha512_hmac (h b) d prk b) 64 info olen [] 1 [] =
      Ret 0 (take olen (hkdf_okm (\<lambda>b. sha512_hmac (h b) d prk b) info 255))"
    using hkdf_loop_okm [of "\<lambda>b. sha512_hmac (h b) d prk b", OF l(2) _ assms(2), of 0 255] by (simp add: hkdf_okm_def)
  ultimately show ?thesis by (simp add: sha256_hkdf_expand_def sha512_hkdf_expand_def)
qed

theorem hkdf_expand_correct_witness:
  "sha256_hkdf_expand (\<lambda>b i. (0, 0)) \<lparr>state = [], bitlen = 0, buf = replicate 64 0, len = 3\<rparr> [1] [2] 9000 = Ret (- 1) []"
  using hkdf_expand_correct [of "\<lparr>state = [], bitlen = 0, buf = replicate 64 0, len = 3\<rparr>" "[2]" "\<lambda>b i. (0, 0)" "[1]" 9000]
  by simp

text \<open>
  With \<^verbatim>\<open>info\<close> longer than 288 bytes HKDF-Expand writes past the end of its stack buffer for every
  output length it accepts.
\<close>

theorem hkdf_expand_overrun:
  assumes "288 < length info" "0 < olen" "olen \<le> 8160"
  shows "sha256_hkdf_expand g c prk info olen = Overrun"
  using assms by (simp add: sha256_hkdf_expand_def hkdf_loop.simps)

theorem hkdf_expand_overrun_witness:
  "sha256_hkdf_expand (\<lambda>b i. (0, 0)) \<lparr>state = [], bitlen = 0, buf = replicate 64 0, len = 0\<rparr> [1] (replicate 300 2) 32 = Overrun"
  by (rule hkdf_expand_overrun) simp_all

end
