(* ===== verification/Kdf.thy ===== *)
theory Kdf
  imports Sha2
begin

text \<open>
  PBKDF2 (\<^verbatim>\<open>include/crypto/pbkdf2.h\<close>).  The function pointer \<^verbatim>\<open>hmac_fn\<close> is an argument \<open>hmac\<close>; null pointers are \<open>None\<close>.  The
  result is the return value and the contents of the output buffer afterwards.  \<open>None\<close> stands for no result: a division by an
  HMAC length of 0, or the loop that does not end when the block count is the largest 32-bit number.
\<close>

type_synonym hmac_fn = "byte list \<Rightarrow> byte list \<Rightarrow> byte list"

primrec pbkdf2_iterate :: "hmac_fn \<Rightarrow> byte list \<Rightarrow> nat \<Rightarrow> byte list \<times> byte list \<Rightarrow> byte list \<times> byte list" where
  "pbkdf2_iterate hmac pw 0 bt = bt"
| "pbkdf2_iterate hmac pw (Suc n) bt =
     (let tmp = hmac pw (snd bt) in pbkdf2_iterate hmac pw n (map2 (XOR) (fst bt) tmp, tmp))"

definition pbkdf2_block :: "hmac_fn \<Rightarrow> nat \<Rightarrow> byte list \<Rightarrow> byte list \<Rightarrow> nat \<Rightarrow> nat \<Rightarrow> byte list" where
  "pbkdf2_block hmac hl pw salt iters blk =
     (let block = hmac pw (salt @ store32_be (of_nat blk)) in
      fst (pbkdf2_iterate hmac pw (iters - 1) (block, take hl block)))"

definition pbkdf2 :: "hmac_fn option \<Rightarrow> nat \<Rightarrow> byte list option \<Rightarrow> byte list option \<Rightarrow> nat \<Rightarrow> byte list option \<Rightarrow> nat \<Rightarrow>
    (int \<times> byte list) option" where
  "pbkdf2 hmac hl pw salt iters out outlen =
     (case (hmac, pw, salt, out) of
        (Some hmac, Some pw, Some salt, Some out) \<Rightarrow>
          if iters = 0 \<or> outlen = 0 then Some (- 1, out)
          else if hl > 64 \<or> length salt > 252 then Some (- 1, out)
          else if hl = 0 then None
          else
            let num_blocks = ((outlen + hl - 1) mod 2 ^ 64 div hl) mod 2 ^ 32 in
            if num_blocks = 2 ^ 32 - 1 then None
            else
              let key = foldl (\<lambda>key blk.
                    let offset = (blk - 1) * hl; cpylen = (if offset + hl > outlen then outlen - offset else hl)
                    in key @ take cpylen (pbkdf2_block hmac hl pw salt iters blk)) [] [1..<num_blocks + 1]
              in Some (0, key @ drop (length key) out)
      | _ \<Rightarrow> Some (- 1, case out of None \<Rightarrow> [] | Some x \<Rightarrow> x))"

text \<open>
  The two instances.  The words the broken 64-bit stores of a call of HMAC find are a function \<open>g\<close> of its message; a message that comes
  up twice in one run, when the iteration cycles, is given the same words.
\<close>

definition pbkdf2_hmac_sha256 :: "(byte list \<Rightarrow> nat \<Rightarrow> stale) \<Rightarrow> sha2_ctx32 \<Rightarrow> byte list option \<Rightarrow> byte list option \<Rightarrow> nat \<Rightarrow>
    byte list option \<Rightarrow> nat \<Rightarrow> (int \<times> byte list) option" where
  "pbkdf2_hmac_sha256 g ctx = pbkdf2 (Some (\<lambda>k m. sha256_hmac (g m) ctx k m)) 32"

definition pbkdf2_hmac_sha512 :: "(byte list \<Rightarrow> nat \<Rightarrow> nat \<Rightarrow> stale) \<Rightarrow> sha2_ctx64 \<Rightarrow> byte list option \<Rightarrow> byte list option \<Rightarrow> nat \<Rightarrow>
    byte list option \<Rightarrow> nat \<Rightarrow> (int \<times> byte list) option" where
  "pbkdf2_hmac_sha512 g ctx = pbkdf2 (Some (\<lambda>k m. sha512_hmac (g m) ctx k m)) 64"

section \<open>RFC 8018\<close>

primrec rfc_U :: "hmac_fn \<Rightarrow> byte list \<Rightarrow> byte list \<Rightarrow> nat \<Rightarrow> byte list" where
  "rfc_U prf pw s 0 = prf pw s"
| "rfc_U prf pw s (Suc j) = prf pw (rfc_U prf pw s j)"

primrec rfc_F :: "hmac_fn \<Rightarrow> byte list \<Rightarrow> byte list \<Rightarrow> nat \<Rightarrow> byte list" where
  "rfc_F prf pw s 0 = prf pw s"
| "rfc_F prf pw s (Suc j) = map2 (XOR) (rfc_F prf pw s j) (rfc_U prf pw s (Suc j))"

definition rfc_block :: "hmac_fn \<Rightarrow> byte list \<Rightarrow> byte list \<Rightarrow> nat \<Rightarrow> nat \<Rightarrow> byte list" where
  "rfc_block prf pw salt iters i = rfc_F prf pw (salt @ store32_be (of_nat i)) (iters - 1)"

lemma iterate_rfc:
  "pbkdf2_iterate hmac pw n (rfc_F hmac pw s j, rfc_U hmac pw s j) = (rfc_F hmac pw s (j + n), rfc_U hmac pw s (j + n))"
proof (induction n arbitrary: j)
  case (Suc n)
  then show ?case using Suc.IH [of "Suc j"] by (simp add: Let_def)
qed simp

lemma pbkdf2_block_rfc:
  assumes "\<And>k m. length (hmac k m) = hl"
  shows "pbkdf2_block hmac hl pw salt iters i = rfc_block hmac pw salt iters i"
  using iterate_rfc [of hmac pw "iters - 1" "salt @ store32_be (of_nat i)" 0] assms
  by (simp add: pbkdf2_block_def rfc_block_def Let_def)

lemma rfc_block_length: "(\<And>k m. length (hmac k m) = hl) \<Longrightarrow> length (rfc_block hmac pw salt iters i) = hl"
proof -
  assume l: "\<And>k m. length (hmac k m) = hl"
  have "length (rfc_F hmac pw s j) = hl" for s j by (induction j) (simp_all add: l)
  then show ?thesis by (simp add: rfc_block_def)
qed

lemma blocks_fold:
  assumes F: "\<And>i. length (F i) = hl"
  shows "(n - 1) * hl \<le> outlen \<Longrightarrow> foldl (\<lambda>out blk.
      let offset = (blk - 1) * hl; cpylen = (if offset + hl > outlen then outlen - offset else hl)
      in out @ take cpylen (F blk)) [] [1..<n + 1] = take outlen (concat (map F [1..<n + 1])) \<and>
    length (concat (map F [1..<n + 1])) = n * hl"
proof (induction n)
  case (Suc n)
  have "(n - 1) * hl \<le> outlen" using Suc.prems le_trans mult_le_mono1 by (metis diff_Suc_1 diff_le_self)
  note IH = Suc.IH [OF this]
  have le: "n * hl \<le> outlen" using Suc.prems by simp
  have t: "take (if n * hl + hl > outlen then outlen - n * hl else hl) (F (Suc n)) = take (outlen - n * hl) (F (Suc n))"
    using F [of "Suc n"] le by auto
  show ?case using IH F t le by (simp add: Let_def)
qed simp

lemma num_blocks: "0 < hl \<Longrightarrow> 0 < (outlen :: nat) \<Longrightarrow>
   ((outlen + hl - 1) div hl - 1) * hl \<le> outlen \<and> outlen \<le> (outlen + hl - 1) div hl * hl"
proof -
  assume h: "0 < hl" "0 < outlen"
  define q where "q = (outlen + hl - 1) div hl"
  have "q * hl \<le> outlen + hl - 1" "outlen + hl - 1 < q * hl + hl"
    using div_mult_mod_eq [of "outlen + hl - 1" hl] h(1) by (simp_all add: q_def dividend_less_div_times add.commute)
  then show ?thesis unfolding q_def [symmetric] using h by (cases q) auto
qed

lemma block_bound: "(outlen + hl - 1) div hl < 2 ^ 32 - 1 \<Longrightarrow> hl \<le> 64 \<Longrightarrow> 0 < hl \<Longrightarrow> outlen + hl - 1 < (2 ^ 64 :: nat)"
proof -
  assume "(outlen + hl - 1) div hl < 2 ^ 32 - 1" "hl \<le> 64" "0 < hl"
  then have "outlen + hl - 1 < (2 ^ 32 - 1) * hl" by (simp only: div_less_iff_less_mult)
  also have "\<dots> \<le> (2 ^ 32 - 1) * 64" using \<open>hl \<le> 64\<close> by (intro mult_le_mono2)
  finally show ?thesis by simp
qed

text \<open>
  C39: with a PRF of fixed non-zero output length \<open>hl\<close>, all pointers given, room for the key, and at most \<open>2\<^sup>32 - 2\<close> blocks of output,
  \<^verbatim>\<open>pbkdf2\<close> returns -1 and leaves the buffer alone when the iteration count or the output length is 0, \<open>hl\<close> exceeds 64 or the salt exceeds 252
  bytes, and otherwise returns 0 with the first \<open>outlen\<close> bytes of \<open>T\<^sub>1 | T\<^sub>2 | \<dots>\<close> of RFC 8018 in the buffer and the rest of it as it
  was.  A null pointer for any of the four gives -1.
\<close>

theorem pbkdf2_correct:
  assumes "\<And>k m. length (hmac k m) = hl" "0 < hl" "(outlen + hl - 1) div hl < 2 ^ 32 - 1" "outlen \<le> length out"
  shows "pbkdf2 (Some hmac) hl (Some pw) (Some salt) iters (Some out) outlen =
    (if iters = 0 \<or> outlen = 0 \<or> hl > 64 \<or> length salt > 252 then Some (- 1, out)
     else Some (0, take outlen (concat (map (rfc_block hmac pw salt iters) [1..<(outlen + hl - 1) div hl + 1])) @ drop outlen out)) \<and>
    (h = None \<or> p = None \<or> s = None \<or> b = None \<longrightarrow>
       pbkdf2 h hl p s iters b outlen = Some (- 1, case b of None \<Rightarrow> [] | Some x \<Rightarrow> x))"
proof (intro conjI impI)
  show "pbkdf2 (Some hmac) hl (Some pw) (Some salt) iters (Some out) outlen =
    (if iters = 0 \<or> outlen = 0 \<or> hl > 64 \<or> length salt > 252 then Some (- 1, out)
     else Some (0, take outlen (concat (map (rfc_block hmac pw salt iters) [1..<(outlen + hl - 1) div hl + 1])) @ drop outlen out))"
  proof (cases "iters = 0 \<or> outlen = 0 \<or> hl > 64 \<or> length salt > 252")
    case True
    then show ?thesis by (auto simp: pbkdf2_def)
  next
    case False
    define n where "n = (outlen + hl - 1) div hl"
    have "outlen + hl - 1 < 2 ^ 64" by (rule block_bound) (use False assms(2,3) in auto)
    then have n: "(outlen + hl - 1) mod 2 ^ 64 div hl mod 2 ^ 32 = n" "n \<noteq> 2 ^ 32 - 1"
      using assms(3) unfolding n_def by (simp_all only: mod_less)
    have le: "(n - 1) * hl \<le> outlen" "outlen \<le> n * hl" using num_blocks assms(2) False by (simp_all add: n_def)
    let ?K = "concat (map (rfc_block hmac pw salt iters) [1..<n + 1])"
    have "length ?K = n * hl" using blocks_fold [of "rfc_block hmac pw salt iters" hl n outlen] rfc_block_length [of hmac, OF assms(1)] le by blast
    then have l: "length (take outlen ?K) = outlen" using le(2) by simp
    have f: "foldl (\<lambda>key blk. let offset = (blk - 1) * hl; cpylen = (if offset + hl > outlen then outlen - offset else hl)
        in key @ take cpylen (pbkdf2_block hmac hl pw salt iters blk)) [] [1..<n + 1] = take outlen ?K"
      using blocks_fold [of "rfc_block hmac pw salt iters" hl n outlen] rfc_block_length [of hmac, OF assms(1)] le
      unfolding pbkdf2_block_rfc [of hmac, OF assms(1)] by blast
    have "\<not> (iters = 0 \<or> outlen = 0)" "\<not> (hl > 64 \<or> length salt > 252)" "hl \<noteq> 0" using False assms(2) by simp_all
    note c = this [THEN if_not_P] n(2) [THEN if_not_P]
    have "pbkdf2 (Some hmac) hl (Some pw) (Some salt) iters (Some out) outlen = Some (0, take outlen ?K @ drop outlen out)"
      unfolding pbkdf2_def prod.case option.case c Let_def n(1) f [unfolded Let_def] l by (rule refl)
    then show ?thesis using False by (simp only: n_def if_False)
  qed
next
  assume "h = None \<or> p = None \<or> s = None \<or> b = None"
  then show "pbkdf2 h hl p s iters b outlen = Some (- 1, case b of None \<Rightarrow> [] | Some x \<Rightarrow> x)"
    by (cases h; cases p; cases s; cases b) (simp_all add: pbkdf2_def)
qed

theorem pbkdf2_correct_witness:
  "pbkdf2 (Some (\<lambda>k m. replicate 32 (hd k))) 32 (Some [5]) (Some [1]) 2 (Some (replicate 41 9)) 40 = Some (0, replicate 40 0 @ [9]) \<and>
   pbkdf2 (Some (\<lambda>k m. replicate 32 (hd k))) 32 (Some [5]) (Some [1]) 2 None 40 = Some (- 1, [])"
  using pbkdf2_correct [of "\<lambda>k m. replicate 32 (hd k)" 32 40 "replicate 41 9" "[5]" "[1]" 2 "Some (\<lambda>k m. replicate 32 (hd k))" "Some [5]" "Some [1]" None]
  by (simp add: rfc_block_def upt_rec zip_replicate flip: replicate_add)

text \<open>The checks are not complete: an HMAC length of 0 is a division by zero, and an output of \<open>2\<^sup>32\<close> blocks and one byte writes one block.\<close>

lemma pbkdf2_zero_length:
  "iters \<noteq> 0 \<Longrightarrow> outlen \<noteq> 0 \<Longrightarrow> length salt \<le> 252 \<Longrightarrow> pbkdf2 (Some hmac) 0 (Some pw) (Some salt) iters (Some out) outlen = None"
  by (simp add: pbkdf2_def)

lemma pbkdf2_long_output:
  assumes "\<And>k m. length (hmac k m) = 32" "iters \<noteq> 0" "length salt \<le> 252"
  shows "pbkdf2 (Some hmac) 32 (Some pw) (Some salt) iters (Some out) (2 ^ 37 + 32) =
    Some (0, rfc_block hmac pw salt iters 1 @ drop 32 out)"
  using assms rfc_block_length [of hmac 32 pw salt iters 1] pbkdf2_block_rfc [of hmac 32 pw salt iters 1]
  by (simp add: pbkdf2_def upt_rec)

end
