(* ===== verification/Poly1305.thy ===== *)
theory Poly1305
  imports CryptoBase
begin

text \<open>
  Poly1305 (\<^verbatim>\<open>include/crypto/poly1305.h\<close>) on its 26-bit limbs, with the 32- and 64-bit arithmetic of the code.
\<close>

record poly1305_ctx =
  pr :: "u32 list"
  ph :: "u32 list"
  ppad :: "u32 list"
  pbuf :: "byte list"
  plen :: nat

section \<open>One block\<close>

definition M26 :: u32 where
  "M26 = 0x3ffffff"

definition poly1305_limbs :: "byte list \<Rightarrow> u32 list" where
  "poly1305_limbs m =
     (let t0 = load32_le m; t1 = load32_le (drop 4 m); t2 = load32_le (drop 8 m); t3 = load32_le (drop 12 m)
      in [t0 AND M26, (drop_bit 26 t0 OR push_bit 6 t1) AND M26, (drop_bit 20 t1 OR push_bit 12 t2) AND M26,
          (drop_bit 14 t2 OR push_bit 18 t3) AND M26, drop_bit 8 t3 OR 0x01000000])"

definition poly1305_mul :: "u32 list \<Rightarrow> u32 list \<Rightarrow> u64 list" where
  "poly1305_mul h r =
     (let w = (\<lambda>x. ucast x :: u64);
          h0 = w (h ! 0); h1 = w (h ! 1); h2 = w (h ! 2); h3 = w (h ! 3); h4 = w (h ! 4);
          r0 = w (r ! 0); r1 = w (r ! 1); r2 = w (r ! 2); r3 = w (r ! 3); r4 = w (r ! 4);
          r1_5 = r1 * 5; r2_5 = r2 * 5; r3_5 = r3 * 5; r4_5 = r4 * 5
      in [h0 * r0 + h1 * r4_5 + h2 * r3_5 + h3 * r2_5 + h4 * r1_5,
          h0 * r1 + h1 * r0 + h2 * r4_5 + h3 * r3_5 + h4 * r2_5,
          h0 * r2 + h1 * r1 + h2 * r0 + h3 * r4_5 + h4 * r3_5,
          h0 * r3 + h1 * r2 + h2 * r1 + h3 * r0 + h4 * r4_5,
          h0 * r4 + h1 * r3 + h2 * r2 + h3 * r1 + h4 * r0])"

definition carry26 :: "u64 \<Rightarrow> u32" where
  "carry26 d = ucast (drop_bit 26 d)"

definition low26 :: "u64 \<Rightarrow> u32" where
  "low26 d = ucast d AND M26"

definition poly1305_carry :: "u64 list \<Rightarrow> u32 list" where
  "poly1305_carry d =
     (let d0 = d ! 0;
          d1 = d ! 1 + ucast (carry26 d0);
          d2 = d ! 2 + ucast (carry26 d1);
          d3 = d ! 3 + ucast (carry26 d2);
          d4 = d ! 4 + ucast (carry26 d3);
          h0 = low26 d0 + carry26 d4 * 5
      in [h0 AND M26, low26 d1 + drop_bit 26 h0, low26 d2, low26 d3, low26 d4])"

definition poly1305_block :: "poly1305_ctx \<Rightarrow> byte list \<Rightarrow> poly1305_ctx" where
  "poly1305_block ctx m =
     ctx\<lparr>ph := poly1305_carry (poly1305_mul (map2 (+) (take 5 (ph ctx)) (poly1305_limbs m)) (pr ctx))\<rparr>"

section \<open>The interface\<close>

definition poly1305_init :: "byte list \<Rightarrow> poly1305_ctx" where
  "poly1305_init key =
     (let t0 = load32_le key; t1 = load32_le (drop 4 key); t2 = load32_le (drop 8 key); t3 = load32_le (drop 12 key)
      in \<lparr>pr = [t0 AND 0x0fffffff, (drop_bit 28 t0 OR push_bit 4 t1) AND 0x0ffffffc,
                (drop_bit 24 t1 OR push_bit 8 t2) AND 0x0ffffffc, (drop_bit 20 t2 OR push_bit 12 t3) AND 0x0ffffffc,
                drop_bit 16 t3 AND 0x0ffffffc],
          ph = replicate 5 0,
          ppad = map (\<lambda>i. load32_le (drop (16 + 4 * i) key)) [0..<4],
          pbuf = replicate 16 0, plen = 0\<rparr>)"

function poly1305_update :: "poly1305_ctx \<Rightarrow> byte list \<Rightarrow> poly1305_ctx" where
  "poly1305_update ctx data =
     (if data = [] \<or> plen ctx \<ge> 16 then ctx
      else
        let t = min (16 - plen ctx) (length data);
            c1 = ctx\<lparr>pbuf := take (plen ctx) (pbuf ctx) @ take t data @ drop (plen ctx + t) (pbuf ctx), plen := plen ctx + t\<rparr>;
            c2 = (if plen c1 = 16 then (poly1305_block c1 (pbuf c1))\<lparr>plen := 0\<rparr> else c1)
        in poly1305_update c2 (drop t data))"
  by pat_completeness auto
termination by (relation "measure (\<lambda>(ctx, data). length data)") (auto simp: Let_def)

declare poly1305_update.simps [simp del]

definition poly1305_final :: "poly1305_ctx \<Rightarrow> byte list" where
  "poly1305_final ctx =
     (let c1 = (if plen ctx \<noteq> 0 then
                  poly1305_block ctx (take (plen ctx) (pbuf ctx) @ [1] @ replicate (16 - plen ctx - 1) 0)
                else ctx);
          h = ph c1;
          h0 = h ! 0; h1 = h ! 1; h2 = h ! 2; h3 = h ! 3; h4 = h ! 4;
          c = drop_bit 26 h1; h1 = h1 AND M26; h2 = h2 + c;
          c = drop_bit 26 h2; h2 = h2 AND M26; h3 = h3 + c;
          c = drop_bit 26 h3; h3 = h3 AND M26; h4 = h4 + c;
          c = drop_bit 26 h4; h4 = h4 AND M26; h0 = h0 + c * 5;
          c = drop_bit 26 h0; h0 = h0 AND M26; h1 = h1 + c;
          g0 = h0 + 5;
          g1 = h1 + drop_bit 26 g0; g0 = g0 AND M26;
          g2 = h2 + drop_bit 26 g1; g1 = g1 AND M26;
          g3 = h3 + drop_bit 26 g2; g2 = g2 AND M26;
          g4 = h4 + drop_bit 26 g3; g3 = g3 AND M26;
          mask = drop_bit 2 g4 - 1; nmask = NOT mask;
          h0 = (h0 AND nmask) OR (g0 AND mask);
          h1 = (h1 AND nmask) OR (g1 AND mask);
          h2 = (h2 AND nmask) OR (g2 AND mask);
          h3 = (h3 AND nmask) OR (g3 AND mask);
          h4 = (h4 AND nmask) OR (g4 AND mask);
          f0 = (ucast h0 :: u64) OR push_bit 26 (ucast h1);
          f1 = (ucast h2 :: u64) OR push_bit 26 (ucast h3) OR push_bit 52 (ucast h4);
          f0 = f0 + (ucast (ppad c1 ! 0) + push_bit 32 (ucast (ppad c1 ! 1)));
          f1 = f1 + (ucast (ppad c1 ! 2) + push_bit 32 (ucast (ppad c1 ! 3)))
      in store32_le (ucast f0) @ store32_le (ucast (drop_bit 32 f0)) @
         store32_le (ucast f1) @ store32_le (ucast (drop_bit 32 f1)))"

definition poly1305 :: "byte list \<Rightarrow> byte list \<Rightarrow> byte list" where
  "poly1305 key data = poly1305_final (poly1305_update (poly1305_init key) data)"

section \<open>Feeding a message in pieces\<close>

definition poly1305_put :: "poly1305_ctx \<Rightarrow> byte \<Rightarrow> poly1305_ctx" where
  "poly1305_put ctx b =
     (let c1 = ctx\<lparr>pbuf := (pbuf ctx)[plen ctx := b], plen := plen ctx + 1\<rparr> in
      if plen c1 = 16 then (poly1305_block c1 (pbuf c1))\<lparr>plen := 0\<rparr> else c1)"

definition poly_ok :: "poly1305_ctx \<Rightarrow> bool" where
  "poly_ok c \<longleftrightarrow> length (pbuf c) = 16 \<and> plen c < 16"

lemma poly_block_simps [simp]:
  "pbuf (poly1305_block c m) = pbuf c" "plen (poly1305_block c m) = plen c" "pr (poly1305_block c m) = pr c"
  "ppad (poly1305_block c m) = ppad c"
  by (simp_all add: poly1305_block_def)

lemma put_ok: "poly_ok c \<Longrightarrow> poly_ok (poly1305_put c b)"
  by (auto simp: poly_ok_def poly1305_put_def Let_def)

lemma puts_ok: "poly_ok c \<Longrightarrow> poly_ok (foldl poly1305_put c bs)"
  by (induction bs arbitrary: c) (simp_all add: put_ok)

text \<open>Bytes that do not fill the buffer are copied one after the other.\<close>

lemma puts_partial:
  "plen c + length xs < 16 \<Longrightarrow> length (pbuf c) = 16 \<Longrightarrow>
   foldl poly1305_put c xs =
   c\<lparr>pbuf := take (plen c) (pbuf c) @ xs @ drop (plen c + length xs) (pbuf c), plen := plen c + length xs\<rparr>"
proof (induction xs arbitrary: c)
  case (Cons x xs)
  define c1 where "c1 = c\<lparr>pbuf := (pbuf c)[plen c := x], plen := Suc (plen c)\<rparr>"
  have p: "poly1305_put c x = c1" using Cons.prems by (simp add: poly1305_put_def c1_def Let_def)
  have "take (Suc (plen c)) ((pbuf c)[plen c := x]) = take (plen c) (pbuf c) @ [x]"
    using Cons.prems by (simp add: take_Suc_conv_app_nth)
  then show ?case using Cons.IH [of c1] Cons.prems p by (simp add: c1_def)
qed (simp add: Cons_nth_drop_Suc)

lemma puts_full:
  assumes "plen c + length xs = 16" "length (pbuf c) = 16" "xs \<noteq> []"
  shows "foldl poly1305_put c xs =
    (let c1 = c\<lparr>pbuf := take (plen c) (pbuf c) @ xs, plen := 16\<rparr> in (poly1305_block c1 (pbuf c1))\<lparr>plen := 0\<rparr>)"
proof -
  obtain ys y where xs: "xs = ys @ [y]" using assms(3) by (cases xs rule: rev_cases) auto
  have "foldl poly1305_put c ys =
      c\<lparr>pbuf := take (plen c) (pbuf c) @ ys @ drop 15 (pbuf c), plen := 15\<rparr>"
    using puts_partial [of c ys] assms xs by simp
  moreover have "drop 15 (pbuf c) = [pbuf c ! 15]" using assms(2) Cons_nth_drop_Suc [of 15 "pbuf c"] by simp
  ultimately show ?thesis using assms xs by (simp add: poly1305_put_def Let_def list_update_append)
qed

lemma poly1305_update_puts: "poly_ok c \<Longrightarrow> poly1305_update c data = foldl poly1305_put c data"
proof (induction c data rule: poly1305_update.induct)
  case (1 c data)
  show ?case
  proof (cases "data = []")
    case True
    then show ?thesis by (subst poly1305_update.simps) simp
  next
    case False
    define t where "t = min (16 - plen c) (length data)"
    define c1 where "c1 = c\<lparr>pbuf := take (plen c) (pbuf c) @ take t data @ drop (plen c + t) (pbuf c), plen := plen c + t\<rparr>"
    define c2 where "c2 = (if plen c1 = 16 then (poly1305_block c1 (pbuf c1))\<lparr>plen := 0\<rparr> else c1)"
    have ok: "length (pbuf c) = 16" "plen c < 16" using 1(2) by (auto simp: poly_ok_def)
    have t: "plen c + t \<le> 16" "t \<le> length data" using ok by (auto simp: t_def)
    have "poly1305_update c data = poly1305_update c2 (drop t data)"
      using False ok by (subst poly1305_update.simps) (simp add: Let_def t_def c1_def c2_def)
    moreover have c2: "foldl poly1305_put c (take t data) = c2"
    proof (cases "plen c + t = 16")
      case True
      then show ?thesis using puts_full [of c "take t data"] ok t False by (simp add: c1_def c2_def Let_def)
    next
      case neq: False
      then show ?thesis using puts_partial [of c "take t data"] ok t by (simp add: c1_def c2_def)
    qed
    moreover have "poly1305_update c2 (drop t data) = foldl poly1305_put c2 (drop t data)"
      using 1(1) [of t c1 c2] False ok puts_ok [OF 1(2), of "take t data"] unfolding c2
      by (simp add: t_def c1_def c2_def)
    ultimately show ?thesis by (metis append_take_drop_id foldl_append)
  qed
qed

lemma poly1305_init_ok: "poly_ok (poly1305_init key)"
  by (simp add: poly_ok_def poly1305_init_def Let_def)

lemma poly1305_update_append:
  "poly_ok c \<Longrightarrow> poly1305_update (poly1305_update c a) b = poly1305_update c (a @ b)"
  using puts_ok [of c a] by (simp add: poly1305_update_puts)

section \<open>The tag of the empty message\<close>

lemma poly1305_final_zero:
  assumes "plen c = 0" "ph c = replicate 5 0"
  shows "poly1305_final c =
    le64 (5 + (ucast (ppad c ! 0) + push_bit 32 (ucast (ppad c ! 1)))) @
    le64 (ucast (ppad c ! 2) + push_bit 32 (ucast (ppad c ! 3)))"
  using assms by (simp add: poly1305_final_def Let_def M26_def le64_def)

text \<open>
  The tag of the empty message is the second half of the key with 5 added to its low word.  RFC 8439 requires
  the second half of the key itself: the accumulator is 0 and must not be reduced, but the code's mask selects
  \<open>h + 5\<close> whenever the top limb is below 4.
\<close>

theorem poly1305_empty_wrong:
  assumes "length key = 32"
  shows "poly1305 key [] = le64 (load64_le (drop 16 key) + 5) @ drop 24 key \<and> poly1305 key [] \<noteq> drop 16 key"
proof -
  define k where "k = drop 16 key"
  have k: "length k = 16" "drop 24 key = drop 8 k" using assms by (simp_all add: k_def)
  have w: "ucast (load32_le k) + push_bit 32 (ucast (load32_le (drop 4 k))) = load64_le k" for k
    unfolding load64_le_def by (subst disjunctive_add) (auto simp: bit_simps or.commute bit_out_of_range)
  have pads: "ppad (poly1305_init key) ! 0 = load32_le k" "ppad (poly1305_init key) ! 1 = load32_le (drop 4 k)"
      "ppad (poly1305_init key) ! 2 = load32_le (drop 8 k)" "ppad (poly1305_init key) ! 3 = load32_le (drop 4 (drop 8 k))"
    by (simp_all add: poly1305_init_def Let_def k_def)
  have u: "poly1305_update (poly1305_init key) [] = poly1305_init key" by (simp add: poly1305_update.simps)
  have z: "plen (poly1305_init key) = 0" "ph (poly1305_init key) = replicate 5 0" by (simp_all add: poly1305_init_def Let_def)
  have "poly1305 key [] = le64 (5 + load64_le k) @ le64 (load64_le (drop 8 k))"
    unfolding poly1305_def u poly1305_final_zero [OF z] pads w ..
  then have t: "poly1305 key [] = le64 (load64_le k + 5) @ drop 8 k"
    using store_load64 (2) [of "drop 8 k"] k by (simp add: add.commute)
  have "le64 (load64_le k + 5) \<noteq> take 8 k"
  proof
    assume "le64 (load64_le k + 5) = take 8 k"
    then have "load64_le k + 5 = load64_le (take 8 k)" using load_store64 (2) by metis
    moreover have "load64_le (take 8 k) = load64_le k" using k(1) by (simp add: load64_le_def load32_le_def)
    ultimately show False by simp
  qed
  then have "le64 (load64_le k + 5) @ drop 8 k \<noteq> take 8 k @ drop 8 k" by (simp only: append_same_eq not_False_eq_True)
  then have "le64 (load64_le k + 5) @ drop 8 k \<noteq> k" by (simp only: append_take_drop_id not_False_eq_True)
  then show ?thesis using t k by (simp add: k_def [symmetric])
qed

theorem poly1305_empty_wrong_witness:
  "poly1305 (replicate 32 0) [] \<noteq> replicate 16 0"
  using poly1305_empty_wrong [of "replicate 32 0"] by (auto dest: conjunct2)

end
