(* ===== verification/Chacha20.thy ===== *)
theory Chacha20
  imports Poly1305
begin

text \<open>
  ChaCha20 and the AEAD built from it and Poly1305 (\<^verbatim>\<open>include/crypto/chacha20.h\<close>), on a little-endian host: the
  code reads the key stream block through a byte pointer.
\<close>

section \<open>The block function\<close>

definition chacha20_qr :: "nat \<Rightarrow> nat \<Rightarrow> nat \<Rightarrow> nat \<Rightarrow> u32 list \<Rightarrow> u32 list" where
  "chacha20_qr a b c d x =
     (let x = x[a := x ! a + x ! b]; x = x[d := x ! d XOR x ! a]; x = x[d := rotl32 (x ! d) 16];
          x = x[c := x ! c + x ! d]; x = x[b := x ! b XOR x ! c]; x = x[b := rotl32 (x ! b) 12];
          x = x[a := x ! a + x ! b]; x = x[d := x ! d XOR x ! a]; x = x[d := rotl32 (x ! d) 8];
          x = x[c := x ! c + x ! d]; x = x[b := x ! b XOR x ! c]; x = x[b := rotl32 (x ! b) 7]
      in x)"

definition chacha20_rounds :: "u32 list \<Rightarrow> u32 list" where
  "chacha20_rounds x =
     (let x = chacha20_qr 0 4 8 12 x;
          x = chacha20_qr 1 5 9 13 x;
          x = chacha20_qr 2 6 10 14 x;
          x = chacha20_qr 3 7 11 15 x;
          x = chacha20_qr 0 5 10 15 x;
          x = chacha20_qr 1 6 11 12 x;
          x = chacha20_qr 2 7 8 13 x
      in chacha20_qr 3 4 9 14 x)"

definition chacha20_block :: "u32 list \<Rightarrow> u32 list" where
  "chacha20_block inp = map2 (+) ((chacha20_rounds ^^ 10) (take 16 inp)) (take 16 inp)"

section \<open>The stream cipher\<close>

record chacha20_ctx =
  cstate :: "u32 list"
  counter :: u32

definition chacha20_init :: "byte list \<Rightarrow> byte list \<Rightarrow> u32 \<Rightarrow> chacha20_ctx" where
  "chacha20_init key nonce ctr =
     \<lparr>cstate = [0x61707865, 0x3320646e, 0x79622d32, 0x6b206574] @ map (\<lambda>i. load32_le (drop (4 * i) key)) [0..<8] @
        [ctr, load32_le nonce, load32_le (drop 4 nonce), load32_le (drop 8 nonce)],
      counter = ctr\<rparr>"

fun chacha20_xor :: "chacha20_ctx \<Rightarrow> byte list \<Rightarrow> chacha20_ctx \<times> byte list" where
  "chacha20_xor ctx inp =
     (if inp = [] then (ctx, [])
      else
        let block = concat (map store32_le (chacha20_block (cstate ctx)));
            (c, out) = chacha20_xor (ctx\<lparr>cstate := (cstate ctx)[12 := cstate ctx ! 12 + 1]\<rparr>) (drop 64 inp)
        in (c, map2 (XOR) (take 64 inp) block @ out))"

declare chacha20_xor.simps [simp del]

definition chacha20 :: "byte list \<Rightarrow> byte list \<Rightarrow> u32 \<Rightarrow> byte list \<Rightarrow> byte list" where
  "chacha20 key nonce ctr inp = snd (chacha20_xor (chacha20_init key nonce ctr) inp)"

section \<open>The AEAD\<close>

text \<open>
  The tag is computed once in each of the two functions, by separate copies of the same statements.  \<open>aad\<close> is \<open>None\<close> for the null
  pointer and \<open>alen\<close> its length as passed; \<open>g 0\<close> and \<open>g 1\<close> are the words the broken 64-bit stores leave in the array \<^verbatim>\<open>lens\<close>.
\<close>

definition encrypt_tag :: "(nat \<Rightarrow> stale) \<Rightarrow> byte list \<Rightarrow> byte list option \<Rightarrow> nat \<Rightarrow> byte list \<Rightarrow> byte list" where
  "encrypt_tag g polykey aad alen ct =
     (let pctx = poly1305_init polykey;
          pctx = (case aad of
              None \<Rightarrow> pctx
            | Some a \<Rightarrow> if alen \<noteq> 0 then
                let pctx = poly1305_update pctx (take alen a) in
                if alen mod 16 \<noteq> 0 then poly1305_update pctx (replicate (16 - alen mod 16) 0) else pctx
              else pctx);
          pctx = poly1305_update pctx ct;
          pctx = (if length ct mod 16 \<noteq> 0 then poly1305_update pctx (replicate (16 - length ct mod 16) 0) else pctx);
          lens = store64_le (g 0) (of_nat alen) @ store64_le (g 1) (of_nat (length ct))
      in poly1305_final (poly1305_update pctx lens))"

definition chacha20poly1305_encrypt :: "(nat \<Rightarrow> stale) \<Rightarrow> byte list \<Rightarrow> byte list \<Rightarrow> byte list option \<Rightarrow> nat \<Rightarrow> byte list \<Rightarrow>
    int \<times> byte list \<times> byte list" where
  "chacha20poly1305_encrypt g key nonce aad alen pt =
     (let polykey = snd (chacha20_xor (chacha20_init key nonce 0) (replicate 32 0));
          ct = snd (chacha20_xor (chacha20_init key nonce 1) pt)
      in (0, ct, encrypt_tag g polykey aad alen ct))"

definition decrypt_tag :: "(nat \<Rightarrow> stale) \<Rightarrow> byte list \<Rightarrow> byte list option \<Rightarrow> nat \<Rightarrow> byte list \<Rightarrow> byte list" where
  "decrypt_tag g polykey aad alen ct =
     (let pctx = poly1305_init polykey;
          pctx = (case aad of
              None \<Rightarrow> pctx
            | Some a \<Rightarrow> if alen \<noteq> 0 then
                let pctx = poly1305_update pctx (take alen a) in
                if alen mod 16 \<noteq> 0 then poly1305_update pctx (replicate (16 - alen mod 16) 0) else pctx
              else pctx);
          pctx = poly1305_update pctx ct;
          pctx = (if length ct mod 16 \<noteq> 0 then poly1305_update pctx (replicate (16 - length ct mod 16) 0) else pctx);
          lens = store64_le (g 0) (of_nat alen) @ store64_le (g 1) (of_nat (length ct))
      in poly1305_final (poly1305_update pctx lens))"

text \<open>The plaintext is \<open>None\<close> when the code writes none.\<close>

definition chacha20poly1305_decrypt :: "(nat \<Rightarrow> stale) \<Rightarrow> byte list \<Rightarrow> byte list \<Rightarrow> byte list option \<Rightarrow> nat \<Rightarrow> byte list \<Rightarrow> byte list \<Rightarrow>
    int \<times> byte list option" where
  "chacha20poly1305_decrypt g key nonce aad alen ct tag =
     (let polykey = snd (chacha20_xor (chacha20_init key nonce 0) (replicate 32 0));
          ctag = decrypt_tag g polykey aad alen ct
      in if timingsafe_memcmp tag ctag 16 \<noteq> 0 then (- 1, None)
         else (0, Some (snd (chacha20_xor (chacha20_init key nonce 1) ct))))"

section \<open>The key stream\<close>

definition keystream_block :: "u32 list \<Rightarrow> nat \<Rightarrow> byte list" where
  "keystream_block st j = concat (map store32_le (chacha20_block (st[12 := st ! 12 + of_nat j])))"

definition keystream :: "u32 list \<Rightarrow> nat \<Rightarrow> byte list" where
  "keystream st n = concat (map (keystream_block st) [0..<n])"

lemma chacha20_qr_length [simp]: "length (chacha20_qr a b c d x) = length x"
  by (simp add: chacha20_qr_def Let_def)

lemma chacha20_rounds_length [simp]: "length (chacha20_rounds x) = length x"
  by (simp add: chacha20_rounds_def Let_def)

lemma rounds_length [simp]: "length ((chacha20_rounds ^^ n) x) = length x"
  by (induction n) simp_all

lemma keystream_block_length: "length st = 16 \<Longrightarrow> length (keystream_block st j) = 64"
  by (simp add: keystream_block_def chacha20_block_def length_concat comp_def sum_list_triv)

lemma keystream_length: "length st = 16 \<Longrightarrow> length (keystream st n) = 64 * n"
  by (induction n) (simp_all add: keystream_def keystream_block_length)

lemma keystream_Suc:
  assumes "length st = 16"
  shows "keystream st (Suc n) = keystream_block st 0 @ keystream (st[12 := st ! 12 + 1]) n"
proof -
  have "keystream_block st (Suc j) = keystream_block (st[12 := st ! 12 + 1]) j" for j
    using assms by (simp add: keystream_block_def add.assoc)
  then have "map (keystream_block st) [1..<Suc n] = map (keystream_block (st[12 := st ! 12 + 1])) [0..<n]"
    unfolding One_nat_def map_Suc_upt [symmetric] by simp
  then show ?thesis unfolding keystream_def by (subst upt_conv_Cons) simp_all
qed

lemma map2_append: "length a = length b \<Longrightarrow> map2 f (a @ c) (b @ d) = map2 f a b @ map2 f c d"
  by simp

lemma chacha20_xor_stream:
  "length (cstate c) = 16 \<Longrightarrow> length m \<le> 64 * n \<Longrightarrow> snd (chacha20_xor c m) = map2 (XOR) m (keystream (cstate c) n)"
proof (induction c m arbitrary: n rule: chacha20_xor.induct)
  case (1 c m)
  show ?case
  proof (cases "m = []")
    case True
    then show ?thesis by (subst chacha20_xor.simps) simp
  next
    case False
    then obtain k where n: "n = Suc k" using 1(3) by (cases n) auto
    let ?c = "c\<lparr>cstate := (cstate c)[12 := cstate c ! 12 + 1]\<rparr>"
    have IH: "snd (chacha20_xor ?c (drop 64 m)) = map2 (XOR) (drop 64 m) (keystream (cstate ?c) k)"
      using 1(1) [OF False refl] 1(2,3) n by simp
    have b: "concat (map store32_le (chacha20_block (cstate c))) = keystream_block (cstate c) 0"
      by (simp add: keystream_block_def)
    have "snd (chacha20_xor c m) = map2 (XOR) (take 64 m) (keystream_block (cstate c) 0) @ map2 (XOR) (drop 64 m) (keystream (cstate ?c) k)"
      by (subst chacha20_xor.simps) (simp add: False Let_def case_prod_beta IH b)
    also have "\<dots> = map2 (XOR) m (keystream_block (cstate c) 0 @ keystream (cstate ?c) k)"
    proof (cases "64 \<le> length m")
      case True
      then show ?thesis
        using map2_append [of "take 64 m" "keystream_block (cstate c) 0" "(XOR)" "drop 64 m"] keystream_block_length [OF 1(2)]
        by (simp del: map2_append)
    next
      case False
      then show ?thesis using keystream_block_length [OF 1(2)] by (simp add: zip_append2)
    qed
    finally show ?thesis using keystream_Suc [OF 1(2)] n by simp
  qed
qed

lemma chacha20_init_length [simp]: "length (cstate (chacha20_init key nonce ctr)) = 16"
  by (simp add: chacha20_init_def)

definition blocks64 :: "nat \<Rightarrow> nat" where
  "blocks64 n = (n + 63) div 64"

lemma map2_xor_twice: "length m \<le> length k \<Longrightarrow> map2 (XOR) (map2 (XOR) m k) k = (m :: byte list)"
  by (rule nth_equalityI) (auto simp: xor.assoc)

lemma xor_stream_twice:
  assumes "length (cstate c) = 16"
  shows "snd (chacha20_xor c (snd (chacha20_xor c m))) = m"
proof -
  have l: "length m \<le> length (keystream (cstate c) (blocks64 (length m)))"
    using keystream_length [OF assms] by (simp add: blocks64_def)
  then have "length m \<le> 64 * blocks64 (length m)" using keystream_length [OF assms] by simp
  then show ?thesis using chacha20_xor_stream [OF assms] map2_xor_twice [OF l] l keystream_length [OF assms] by simp
qed

lemma chacha20_length: "length (chacha20 key nonce ctr m) = length m"
  unfolding chacha20_def
  by (subst chacha20_xor_stream [where n = "blocks64 (length m)"]) (simp_all add: blocks64_def keystream_length)

lemma chacha20_twice: "chacha20 key nonce ctr (chacha20 key nonce ctr m) = m"
  unfolding chacha20_def by (rule xor_stream_twice) simp

text \<open>
  \<^verbatim>\<open>chacha20\<close> is the stream cipher of RFC 8439: byte \<open>i\<close> is XORed with byte \<open>i mod 64\<close> of the block with
  counter \<open>ctr + i div 64\<close>; so applying it twice gives the input back.
\<close>

theorem chacha20_stream:
  "chacha20 key nonce ctr m =
     map2 (XOR) m (keystream (cstate (chacha20_init key nonce ctr)) (blocks64 (length m))) \<and>
   chacha20 key nonce ctr (chacha20 key nonce ctr m) = m"
  unfolding chacha20_def
  by (intro conjI chacha20_xor_stream xor_stream_twice) (simp_all add: blocks64_def)

section \<open>Authenticated encryption\<close>

definition rfc_pad16 :: "byte list \<Rightarrow> byte list" where
  "rfc_pad16 x = replicate ((16 - length x mod 16) mod 16) 0"

text \<open>The input of the MAC of RFC 8439, section 2.8, with the 16 bytes after the padded ciphertext an argument; the RFC has the two lengths there.\<close>

definition mac_data :: "byte list \<Rightarrow> byte list \<Rightarrow> byte list \<Rightarrow> byte list" where
  "mac_data aad ct lens = aad @ rfc_pad16 aad @ ct @ rfc_pad16 ct @ lens"

definition rfc_mac_data :: "byte list \<Rightarrow> byte list \<Rightarrow> byte list" where
  "rfc_mac_data aad ct = mac_data aad ct (le64 (of_nat (length aad)) @ le64 (of_nat (length ct)))"

definition stale_lens :: "(nat \<Rightarrow> stale) \<Rightarrow> byte list" where
  "stale_lens g = store64_le (g 0) 0 @ store64_le (g 1) 0"

text \<open>The associated data as passed, empty for the null pointer.\<close>

definition aad_bytes :: "byte list option \<Rightarrow> nat \<Rightarrow> byte list" where
  "aad_bytes aad alen = (case aad of None \<Rightarrow> [] | Some a \<Rightarrow> take alen a)"

definition aad_ok :: "byte list option \<Rightarrow> nat \<Rightarrow> bool" where
  "aad_ok aad alen = (case aad of None \<Rightarrow> True | Some a \<Rightarrow> alen \<le> length a)"

lemma update_ok: "poly_ok c \<Longrightarrow> poly_ok (poly1305_update c x)"
  by (simp add: poly1305_update_puts puts_ok)

lemma update_Nil [simp]: "poly1305_update c [] = c"
  by (simp add: poly1305_update.simps)

lemma pad_update:
  "poly_ok c \<Longrightarrow> length x = n \<Longrightarrow>
   (let p = poly1305_update c x in if n mod 16 \<noteq> 0 then poly1305_update p (replicate (16 - n mod 16) 0) else p) =
   poly1305_update c (x @ rfc_pad16 x)"
proof (cases "n mod 16 = 0")
  case False
  assume ok: "poly_ok c" "length x = n"
  have "(16 - length x mod 16) mod 16 = 16 - length x mod 16" using False ok(2) by simp
  then show ?thesis using False ok by (simp add: Let_def rfc_pad16_def poly1305_update_append)
qed (simp add: Let_def rfc_pad16_def)

lemma tag_input:
  assumes "aad_ok aad alen" "poly_ok p"
  defines "q \<equiv> (case aad of None \<Rightarrow> p
      | Some a \<Rightarrow> if alen \<noteq> 0 then
          let p = poly1305_update p (take alen a) in if alen mod 16 \<noteq> 0 then poly1305_update p (replicate (16 - alen mod 16) 0) else p
        else p)"
  shows "poly1305_update (if length ct mod 16 \<noteq> 0 then poly1305_update (poly1305_update q ct) (replicate (16 - length ct mod 16) 0)
      else poly1305_update q ct) lens = poly1305_update p (mac_data (aad_bytes aad alen) ct lens)"
proof -
  let ?a = "aad_bytes aad alen"
  have q: "q = poly1305_update p (?a @ rfc_pad16 ?a)"
    using assms(1) pad_update [OF assms(2), of "take alen (the aad)" alen]
    by (cases aad) (auto simp: q_def aad_bytes_def aad_ok_def rfc_pad16_def)
  have "poly_ok q" unfolding q by (rule update_ok [OF assms(2)])
  then have "(if length ct mod 16 \<noteq> 0 then poly1305_update (poly1305_update q ct) (replicate (16 - length ct mod 16) 0)
      else poly1305_update q ct) = poly1305_update q (ct @ rfc_pad16 ct)"
    using pad_update [of q ct "length ct"] by (simp add: Let_def)
  then show ?thesis unfolding q using poly1305_update_append [OF assms(2)] by (simp add: mac_data_def)
qed

lemma encrypt_tag_eq: "aad_ok aad alen \<Longrightarrow> encrypt_tag g pk aad alen ct = poly1305 pk (mac_data (aad_bytes aad alen) ct (stale_lens g))"
  using tag_input [OF _ poly1305_init_ok, of aad alen ct pk "stale_lens g"]
  by (simp add: encrypt_tag_def poly1305_def stale_lens_def Let_def store64_le_def)

lemma decrypt_tag_eq: "aad_ok aad alen \<Longrightarrow> decrypt_tag g pk aad alen ct = poly1305 pk (mac_data (aad_bytes aad alen) ct (stale_lens g))"
  using tag_input [OF _ poly1305_init_ok, of aad alen ct pk "stale_lens g"]
  by (simp add: decrypt_tag_def poly1305_def stale_lens_def Let_def store64_le_def)

lemma poly1305_length: "length (poly1305 key m) = 16"
  by (simp add: poly1305_def poly1305_final_def Let_def)

lemma decrypt_eq:
  assumes "length tag = 16" "aad_ok aad alen"
  shows "chacha20poly1305_decrypt h key nonce aad alen ct tag =
    (if tag = poly1305 (chacha20 key nonce 0 (replicate 32 0)) (mac_data (aad_bytes aad alen) ct (stale_lens h))
     then (0, Some (chacha20 key nonce 1 ct)) else (- 1, None))"
  using timingsafe_memcmp_0 [of 16 tag "decrypt_tag h (chacha20 key nonce 0 (replicate 32 0)) aad alen ct"] assms
  by (simp add: chacha20poly1305_decrypt_def Let_def decrypt_tag_eq poly1305_length flip: chacha20_def)

text \<open>
  C7: what \<^verbatim>\<open>chacha20poly1305_encrypt\<close> produces is either decrypted to exactly the plaintext or refused.  The 16 bytes that should hold
  the lengths are stale words, \<open>g\<close> on encryption and \<open>h\<close> on decryption: the decryption succeeds exactly when the Poly1305 tags with the two are the same, in
  particular when the words are.
\<close>

theorem aead_round_trip:
  assumes "aad_ok aad alen"
  shows "case chacha20poly1305_encrypt g key nonce aad alen pt of (r, ct, tag) \<Rightarrow>
    r = 0 \<and> length ct = length pt \<and>
    chacha20poly1305_decrypt h key nonce aad alen ct tag =
      (let tag_with = \<lambda>lens. poly1305 (chacha20 key nonce 0 (replicate 32 0)) (mac_data (aad_bytes aad alen) ct lens)
       in if tag_with (stale_lens g) = tag_with (stale_lens h) then (0, Some pt) else (- 1, None)) \<and>
    (g 0 = h 0 \<and> g 1 = h 1 \<longrightarrow> chacha20poly1305_decrypt h key nonce aad alen ct tag = (0, Some pt))"
proof -
  define ct where "ct = chacha20 key nonce 1 pt"
  define tag where "tag = poly1305 (chacha20 key nonce 0 (replicate 32 0)) (mac_data (aad_bytes aad alen) ct (stale_lens g))"
  have e: "chacha20poly1305_encrypt g key nonce aad alen pt = (0, ct, tag)"
    using encrypt_tag_eq [OF assms] by (simp add: chacha20poly1305_encrypt_def Let_def ct_def tag_def flip: chacha20_def)
  have ct: "chacha20 key nonce 1 ct = pt" "length ct = length pt"
    using chacha20_twice chacha20_length by (simp_all add: ct_def)
  have d: "chacha20poly1305_decrypt h key nonce aad alen ct tag =
      (if tag = poly1305 (chacha20 key nonce 0 (replicate 32 0)) (mac_data (aad_bytes aad alen) ct (stale_lens h))
       then (0, Some pt) else (- 1, None))"
    using decrypt_eq [OF _ assms, of tag h key nonce ct] ct(1) poly1305_length by (simp add: tag_def)
  have "g 0 = h 0 \<and> g 1 = h 1 \<Longrightarrow> stale_lens g = stale_lens h" by (simp add: stale_lens_def)
  then show ?thesis unfolding e prod.case d Let_def using ct(2) by (auto simp: tag_def)
qed

theorem aead_round_trip_witness:
  "case chacha20poly1305_encrypt (\<lambda>i. (3, 7)) (replicate 32 1) (replicate 12 2) (Some [9, 9]) 2 [97, 98] of (r, ct, tag) \<Rightarrow>
     chacha20poly1305_decrypt (\<lambda>i. (3, 7)) (replicate 32 1) (replicate 12 2) (Some [9, 9]) 2 ct tag = (0, Some [97, 98])"
  using aead_round_trip [where aad = "Some [9, 9]" and alen = 2 and g = "\<lambda>i. (3, 7)" and h = "\<lambda>i. (3, 7)" and
      key = "replicate 32 1" and nonce = "replicate 12 2" and pt = "[97, 98]"]
  by (auto simp: aad_ok_def split: prod.splits)

text \<open>
  C31: \<^verbatim>\<open>chacha20poly1305_decrypt\<close> accepts a tag exactly when it is the Poly1305 tag (as the code computes it), under the one-time key
  from block 0, of the padded associated data, the padded ciphertext and the 16 bytes its broken length stores left; otherwise it returns
  -1 and no plaintext.  The MAC input is the one of RFC 8439 when these bytes happen to be the two lengths.
\<close>

theorem aead_verifies_tag:
  assumes "length tag = 16" "aad_ok aad alen"
  shows "chacha20poly1305_decrypt h key nonce aad alen ct tag =
      (if tag = poly1305 (chacha20 key nonce 0 (replicate 32 0)) (mac_data (aad_bytes aad alen) ct (stale_lens h))
       then (0, Some (chacha20 key nonce 1 ct)) else (- 1, None)) \<and>
    (h 0 = halves_le (of_nat (length (aad_bytes aad alen))) \<and> h 1 = halves_le (of_nat (length ct)) \<longrightarrow>
       mac_data (aad_bytes aad alen) ct (stale_lens h) = rfc_mac_data (aad_bytes aad alen) ct)"
proof (intro conjI impI)
  assume "h 0 = halves_le (of_nat (length (aad_bytes aad alen))) \<and> h 1 = halves_le (of_nat (length ct))"
  then have "store64_le (h 0) 0 = le64 (of_nat (length (aad_bytes aad alen)))" "store64_le (h 1) 0 = le64 (of_nat (length ct))"
    using store64_iff(2) by blast+
  then show "mac_data (aad_bytes aad alen) ct (stale_lens h) = rfc_mac_data (aad_bytes aad alen) ct"
    by (simp only: stale_lens_def rfc_mac_data_def)
qed (rule decrypt_eq [OF assms])

theorem aead_verifies_tag_witness:
  "chacha20poly1305_decrypt (\<lambda>i. if i = 0 then (2, 0) else (3, 0)) (replicate 32 1) (replicate 12 2) (Some [9, 9]) 2 [1, 2, 3]
     (poly1305 (chacha20 (replicate 32 1) (replicate 12 2) 0 (replicate 32 0)) (rfc_mac_data [9, 9] [1, 2, 3])) =
   (0, Some (chacha20 (replicate 32 1) (replicate 12 2) 1 [1, 2, 3]))"
  using aead_verifies_tag [OF poly1305_length, of "Some [9, 9]" 2 "\<lambda>i. if i = 0 then (2, 0) else (3, 0)" "replicate 32 1" "replicate 12 2" "[1, 2, 3]"
      "chacha20 (replicate 32 1) (replicate 12 2) 0 (replicate 32 0)" "rfc_mac_data [9, 9] [1, 2, 3]"]
  by (simp add: aad_ok_def aad_bytes_def halves_le_def)

end
