(* ===== verification/Keccak.thy ===== *)
theory Keccak
  imports Digest
begin

text \<open>
  The Keccak permutation and sponge (\<^verbatim>\<open>include/crypto/keccak.h\<close>), and SHA-3 and SHAKE built on them
  (\<^verbatim>\<open>sha3.h\<close>, \<^verbatim>\<open>shake.h\<close>).  The lanes are written out with the broken 64-bit store, so the words it leaves are an argument of
  squeezing: \<open>g i j\<close> for lane \<open>j\<close> of the block extracted at output byte \<open>i\<close>.
\<close>

section \<open>The permutation\<close>

definition keccak_rc :: "u64 list" where
  "keccak_rc =
    [0x0000000000000001, 0x0000000000008082, 0x800000000000808a,
     0x8000000080008000, 0x000000000000808b, 0x0000000080000001,
     0x8000000080008081, 0x8000000000008009, 0x000000000000008a,
     0x0000000000000088, 0x0000000080008009, 0x000000008000000a,
     0x000000008000808b, 0x800000000000008b, 0x8000000000008089,
     0x8000000000008003, 0x8000000000008002, 0x8000000000000080,
     0x000000000000800a, 0x800000008000000a, 0x8000000080008081,
     0x8000000080008080, 0x0000000080000001, 0x8000000080008008]"

definition keccak_rotc :: "nat list" where
  "keccak_rotc = [1, 3, 6, 10, 15, 21, 28, 36, 45, 55, 2, 14, 27, 41, 56, 8, 25, 43, 62, 18, 39, 61, 20, 44]"

definition keccak_piln :: "nat list" where
  "keccak_piln = [10, 7, 11, 17, 18, 3, 5, 16, 8, 21, 24, 4, 15, 23, 19, 13, 12, 2, 20, 14, 22, 9, 6, 1]"

definition keccak_theta :: "u64 list \<Rightarrow> u64 list" where
  "keccak_theta st =
     (let bc = map (\<lambda>i. st ! i XOR st ! (i + 5) XOR st ! (i + 10) XOR st ! (i + 15) XOR st ! (i + 20)) [0..<5] in
      fold (\<lambda>i st. let t = bc ! ((i + 4) mod 5) XOR rotl64 (bc ! ((i + 1) mod 5)) 1 in
              fold (\<lambda>j st. st[j + i := st ! (j + i) XOR t]) [0, 5, 10, 15, 20] st) [0..<5] st)"

definition keccak_rho_pi :: "u64 list \<Rightarrow> u64 list" where
  "keccak_rho_pi st =
     fst (fold (\<lambda>i (st, t). let j = keccak_piln ! i; bc0 = st ! j in (st[j := rotl64 t (keccak_rotc ! i)], bc0)) [0..<24] (st, st ! 1))"

definition keccak_chi :: "u64 list \<Rightarrow> u64 list" where
  "keccak_chi st =
     fold (\<lambda>j st. let bc = map (\<lambda>i. st ! (j + i)) [0..<5] in
              fold (\<lambda>i st. st[j + i := st ! (j + i) XOR (NOT (bc ! ((i + 1) mod 5)) AND bc ! ((i + 2) mod 5))]) [0..<5] st)
       [0, 5, 10, 15, 20] st"

definition keccak_round :: "nat \<Rightarrow> u64 list \<Rightarrow> u64 list" where
  "keccak_round rnd st =
     (let st = keccak_chi (keccak_rho_pi (keccak_theta st)) in st[0 := st ! 0 XOR keccak_rc ! rnd])"

definition keccak_f1600 :: "u64 list \<Rightarrow> u64 list" where
  "keccak_f1600 st = fold keccak_round [0..<24] st"

section \<open>The sponge\<close>

record keccak_ctx =
  kst :: "u64 list"
  kbuf :: "byte list"
  klen :: nat
  krate :: nat
  absorbing :: int

definition keccak_init :: "nat \<Rightarrow> keccak_ctx" where
  "keccak_init rate = \<lparr>kst = replicate 25 0, kbuf = replicate 200 0, klen = 0, krate = rate, absorbing = 1\<rparr>"

definition xor_block :: "nat \<Rightarrow> byte list \<Rightarrow> u64 list \<Rightarrow> u64 list" where
  "xor_block rate b st = fold (\<lambda>j st. st[j := st ! j XOR load64_le (drop (j * 8) b)]) [0..<rate div 8] st"

definition keccak_put :: "keccak_ctx \<Rightarrow> byte \<Rightarrow> keccak_ctx" where
  "keccak_put ctx b =
     (let c1 = ctx\<lparr>kbuf := (kbuf ctx)[klen ctx := b], klen := klen ctx + 1\<rparr> in
      if klen c1 = krate c1 then c1\<lparr>kst := keccak_f1600 (xor_block (krate c1) (kbuf c1) (kst c1)), klen := 0\<rparr> else c1)"

definition keccak_absorb :: "keccak_ctx \<Rightarrow> byte list \<Rightarrow> keccak_ctx" where
  "keccak_absorb ctx data = foldl keccak_put ctx data"

definition keccak_pad :: "keccak_ctx \<Rightarrow> byte \<Rightarrow> keccak_ctx" where
  "keccak_pad ctx delim =
     (let r = krate ctx;
          b1 = (kbuf ctx)[klen ctx := delim];
          b2 = zero_fill b1 (klen ctx + 1) r;
          b3 = b2[r - 1 := b2 ! (r - 1) OR 0x80]
      in ctx\<lparr>kbuf := b3, kst := keccak_f1600 (xor_block r b3 (kst ctx)), absorbing := 0, klen := 0\<rparr>)"

definition keccak_extract :: "(nat \<Rightarrow> stale) \<Rightarrow> nat \<Rightarrow> u64 list \<Rightarrow> byte list \<Rightarrow> byte list" where
  "keccak_extract g rate st b = concat (map (\<lambda>j. store64_le (g j) (st ! j)) [0..<rate div 8]) @ drop (8 * (rate div 8)) b"

primrec squeeze_loop :: "(nat \<Rightarrow> nat \<Rightarrow> stale) \<Rightarrow> nat \<Rightarrow> nat \<Rightarrow> keccak_ctx \<Rightarrow> keccak_ctx \<times> byte list" where
  "squeeze_loop g 0 i ctx = (ctx, [])"
| "squeeze_loop g (Suc n) i ctx =
     (let c1 = (if klen ctx = 0 then
                  let c = (if i > 0 then ctx\<lparr>kst := keccak_f1600 (kst ctx)\<rparr> else ctx)
                  in c\<lparr>kbuf := keccak_extract (g i) (krate c) (kst c) (kbuf c), klen := krate c\<rparr>
                else ctx);
          (c2, out) = squeeze_loop g n (i + 1) (c1\<lparr>klen := klen c1 - 1\<rparr>)
      in (c2, kbuf c1 ! (krate c1 - klen c1) # out))"

definition keccak_squeeze :: "(nat \<Rightarrow> nat \<Rightarrow> stale) \<Rightarrow> keccak_ctx \<Rightarrow> nat \<Rightarrow> keccak_ctx \<times> byte list" where
  "keccak_squeeze g ctx outlen = squeeze_loop g outlen 0 ctx"

section \<open>SHA-3 and SHAKE\<close>

definition sha3_make :: "nat \<Rightarrow> nat \<Rightarrow> (nat \<Rightarrow> nat \<Rightarrow> stale) \<Rightarrow> byte list \<Rightarrow> byte list" where
  "sha3_make dlen rate g data = snd (keccak_squeeze g (keccak_pad (keccak_absorb (keccak_init rate) data) 0x06) dlen)"

definition sha3_224 :: "(nat \<Rightarrow> nat \<Rightarrow> stale) \<Rightarrow> byte list \<Rightarrow> byte list" where "sha3_224 = sha3_make 28 144"
definition sha3_256 :: "(nat \<Rightarrow> nat \<Rightarrow> stale) \<Rightarrow> byte list \<Rightarrow> byte list" where "sha3_256 = sha3_make 32 136"
definition sha3_384 :: "(nat \<Rightarrow> nat \<Rightarrow> stale) \<Rightarrow> byte list \<Rightarrow> byte list" where "sha3_384 = sha3_make 48 104"
definition sha3_512 :: "(nat \<Rightarrow> nat \<Rightarrow> stale) \<Rightarrow> byte list \<Rightarrow> byte list" where "sha3_512 = sha3_make 64 72"

definition shake_make :: "nat \<Rightarrow> (nat \<Rightarrow> nat \<Rightarrow> stale) \<Rightarrow> byte list \<Rightarrow> nat \<Rightarrow> byte list" where
  "shake_make rate g data outlen = snd (keccak_squeeze g (keccak_pad (keccak_absorb (keccak_init rate) data) 0x1F) outlen)"

definition shake128 :: "(nat \<Rightarrow> nat \<Rightarrow> stale) \<Rightarrow> byte list \<Rightarrow> nat \<Rightarrow> byte list" where "shake128 = shake_make 168"
definition shake256 :: "(nat \<Rightarrow> nat \<Rightarrow> stale) \<Rightarrow> byte list \<Rightarrow> nat \<Rightarrow> byte list" where "shake256 = shake_make 136"

section \<open>FIPS 202\<close>

text \<open>
  The step mappings of the standard, on lanes \<open>A[x, y]\<close> stored at index \<open>x + 5 y\<close>, the rotation offsets by the standard's
  walk over the lanes, and the round constants by its linear feedback shift register.
\<close>

abbreviation lane :: "u64 list \<Rightarrow> nat \<Rightarrow> nat \<Rightarrow> u64" where
  "lane st x y \<equiv> st ! (x + 5 * y)"

definition lanes :: "(nat \<Rightarrow> nat \<Rightarrow> u64) \<Rightarrow> u64 list" where
  "lanes f = map (\<lambda>i. f (i mod 5) (i div 5)) [0..<25]"

definition fips_theta :: "u64 list \<Rightarrow> u64 list" where
  "fips_theta st =
     (let C = (\<lambda>x. lane st x 0 XOR lane st x 1 XOR lane st x 2 XOR lane st x 3 XOR lane st x 4);
          D = (\<lambda>x. C ((x + 4) mod 5) XOR word_rotl 1 (C ((x + 1) mod 5)))
      in lanes (\<lambda>x y. lane st x y XOR D x))"

primrec rho_walk :: "nat \<Rightarrow> nat \<times> nat" where
  "rho_walk 0 = (1, 0)"
| "rho_walk (Suc t) = (case rho_walk t of (x, y) \<Rightarrow> (y, (2 * x + 3 * y) mod 5))"

definition rho_offset :: "nat \<Rightarrow> nat \<Rightarrow> nat" where
  "rho_offset x y =
     (case find (\<lambda>t. rho_walk t = (x, y)) [0..<24] of None \<Rightarrow> 0 | Some t \<Rightarrow> ((t + 1) * (t + 2) div 2) mod 64)"

definition fips_rho :: "u64 list \<Rightarrow> u64 list" where
  "fips_rho st = lanes (\<lambda>x y. word_rotl (rho_offset x y) (lane st x y))"

definition fips_pi :: "u64 list \<Rightarrow> u64 list" where
  "fips_pi st = lanes (\<lambda>x y. lane st ((x + 3 * y) mod 5) x)"

definition fips_chi :: "u64 list \<Rightarrow> u64 list" where
  "fips_chi st = lanes (\<lambda>x y. lane st x y XOR (NOT (lane st ((x + 1) mod 5) y) AND lane st ((x + 2) mod 5) y))"

definition lfsr_step :: "bool list \<Rightarrow> bool list" where
  "lfsr_step R = (let R8 = R ! 7 in [R8, R ! 0, R ! 1, R ! 2, R ! 3 \<noteq> R8, R ! 4 \<noteq> R8, R ! 5 \<noteq> R8, R ! 6])"

definition fips_rc :: "nat \<Rightarrow> bool" where
  "fips_rc t = (lfsr_step ^^ (t mod 255)) [True, False, False, False, False, False, False, False] ! 0"

definition rc_word :: "bool list \<Rightarrow> u64" where
  "rc_word bs = sum_list (map (\<lambda>j. if bs ! j then push_bit (2 ^ j - 1) 1 else 0) [0..<7])"

definition fips_RC :: "nat \<Rightarrow> u64" where
  "fips_RC ir = rc_word (map (\<lambda>j. fips_rc (j + 7 * ir)) [0..<7])"

lemma list25:
  assumes "length st = 25"
  obtains a0 a1 a2 a3 a4 a5 a6 a7 a8 a9 a10 a11 a12 a13 a14 a15 a16 a17 a18 a19 a20 a21 a22 a23 a24 where "st = [a0, a1, a2, a3, a4, a5, a6, a7, a8, a9, a10, a11, a12, a13, a14, a15, a16, a17, a18, a19, a20, a21, a22, a23, a24]"
  using assms by (auto simp: length_Suc_conv numeral_eq_Suc)

lemma theta_fips: "length st = 25 \<Longrightarrow> keccak_theta st = fips_theta st"
  by (erule list25) (simp add: keccak_theta_def fips_theta_def lanes_def upt_rec rotl64_word Let_def)

lemma word_rotl_0: "word_rotl 0 w = (w :: u64)"
  by (rule bit_word_eqI) (simp add: bit_simps)

lemma rho_offsets:
  "map (\<lambda>i. rho_offset (i mod 5) (i div 5)) [0..<25] =
   [0, 1, 62, 28, 27, 36, 44, 6, 55, 20, 3, 10, 43, 25, 39, 41, 45, 15, 21, 8, 18, 2, 61, 56, 14]"
  by code_simp

lemma rho_offset_nth: "x + 5 * y = i \<Longrightarrow> x < 5 \<Longrightarrow> y < 5 \<Longrightarrow> rho_offset x y =
   [0, 1, 62, 28, 27, 36, 44, 6, 55, 20, 3, 10, 43, 25, 39, 41, 45, 15, 21, 8, 18, 2, 61, 56, 14] ! i"
  unfolding rho_offsets [symmetric] by auto

lemma rho_pi_fips: "length st = 25 \<Longrightarrow> keccak_rho_pi st = fips_pi (fips_rho st)"
  by (erule list25)
    (simp add: keccak_rho_pi_def fips_pi_def fips_rho_def lanes_def upt_rec rotl64_word Let_def keccak_piln_def keccak_rotc_def
      rho_offset_nth word_rotl_0)

lemma chi_fips: "length st = 25 \<Longrightarrow> keccak_chi st = fips_chi st"
  by (erule list25) (simp add: keccak_chi_def fips_chi_def lanes_def upt_rec Let_def)

primrec lfsr_seq :: "nat \<Rightarrow> bool list \<Rightarrow> bool list" where
  "lfsr_seq 0 R = []"
| "lfsr_seq (Suc n) R = R ! 0 # lfsr_seq n (lfsr_step R)"

lemma lfsr_seq_nth: "t < n \<Longrightarrow> lfsr_seq n R ! t = (lfsr_step ^^ t) R ! 0"
proof (induction n arbitrary: R t)
  case (Suc n)
  then show ?case by (cases t) (simp_all add: funpow_swap1)
qed simp

primrec lfsr_rows :: "nat \<Rightarrow> bool list \<Rightarrow> bool list list" where
  "lfsr_rows 0 R = []"
| "lfsr_rows (Suc n) R = lfsr_seq 7 R # lfsr_rows n ((lfsr_step ^^ 7) R)"

lemma lfsr_rows_nth: "i < n \<Longrightarrow> lfsr_rows n R ! i = lfsr_seq 7 ((lfsr_step ^^ (7 * i)) R)"
proof (induction n arbitrary: R i)
  case (Suc n)
  show ?case
  proof (cases i)
    case (Suc k)
    have "(lfsr_step ^^ (7 * i)) R = (lfsr_step ^^ (7 * k)) ((lfsr_step ^^ 7) R)"
      using funpow_add [of "7 * k" 7 lfsr_step] Suc by (simp only: mult_Suc_right add.commute comp_apply)
    then show ?thesis using Suc.IH [of k] Suc.prems \<open>i = Suc k\<close> by simp
  qed simp
qed simp

definition lfsr_start :: "bool list" where
  "lfsr_start = [True, False, False, False, False, False, False, False]"

lemma rc_rows: "lfsr_rows 24 lfsr_start =
    [[True, False, False, False, False, False, False],
     [False, True, False, True, True, False, False],
     [False, True, True, True, True, False, True],
     [False, False, False, False, True, True, True],
     [True, True, True, True, True, False, False],
     [True, False, False, False, False, True, False],
     [True, False, False, True, True, True, True],
     [True, False, True, False, True, False, True],
     [False, True, True, True, False, False, False],
     [False, False, True, True, False, False, False],
     [True, False, True, False, True, True, False],
     [False, True, True, False, False, True, False],
     [True, True, True, True, True, True, False],
     [True, True, True, True, False, False, True],
     [True, False, True, True, True, False, True],
     [True, True, False, False, True, False, True],
     [False, True, False, False, True, False, True],
     [False, False, False, True, False, False, True],
     [False, True, True, False, True, False, False],
     [False, True, True, False, False, True, True],
     [True, False, False, True, True, True, True],
     [False, False, False, True, True, False, True],
     [True, False, False, False, False, True, False],
     [False, False, True, False, True, True, True]]"
  by code_simp

lemma fips_rc_row:
  assumes "i < 24"
  shows "map (\<lambda>j. fips_rc (j + 7 * i)) [0..<7] = lfsr_rows 24 lfsr_start ! i"
proof (rule nth_equalityI)
  have l: "length (lfsr_seq n R) = n" for n R by (induction n arbitrary: R) simp_all
  show "length (map (\<lambda>j. fips_rc (j + 7 * i)) [0..<7]) = length (lfsr_rows 24 lfsr_start ! i)"
    using assms by (simp add: lfsr_rows_nth l)
  fix j assume "j < length (map (\<lambda>j. fips_rc (j + 7 * i)) [0..<7])"
  then have j: "j < 7" by simp
  have "fips_rc (j + 7 * i) = (lfsr_step ^^ (j + 7 * i)) lfsr_start ! 0" using assms j by (simp add: fips_rc_def lfsr_start_def)
  also have "\<dots> = lfsr_seq 7 ((lfsr_step ^^ (7 * i)) lfsr_start) ! j" using lfsr_seq_nth [OF j] by (simp add: funpow_add)
  finally show "map (\<lambda>j. fips_rc (j + 7 * i)) [0..<7] ! j = lfsr_rows 24 lfsr_start ! i ! j"
    using assms j by (simp add: lfsr_rows_nth)
qed

lemma fips_RC_rows: "map fips_RC [0..<24] = map rc_word (lfsr_rows 24 lfsr_start)"
proof -
  have "length (lfsr_rows n R) = n" for n R by (induction n arbitrary: R) simp_all
  then show ?thesis by (intro nth_equalityI) (simp_all add: fips_RC_def fips_rc_row)
qed

lemma fips_RC_values:
  "map fips_RC [0..<24] =
    [0x1, 0x8082, 0x800000000000808a, 0x8000000080008000,
     0x808b, 0x80000001, 0x8000000080008081, 0x8000000000008009,
     0x8a, 0x88, 0x80008009, 0x8000000a,
     0x8000808b, 0x800000000000008b, 0x8000000000008089, 0x8000000000008003,
     0x8000000000008002, 0x8000000000000080, 0x800a, 0x800000008000000a,
     0x8000000080008081, 0x8000000000008080, 0x80000001, 0x8000000080008008]"
  unfolding fips_RC_rows rc_rows by (simp add: rc_word_def upt_rec)

lemma round_constants: "keccak_rc = (map fips_RC [0..<24])[21 := 0x8000000080008080]"
  unfolding fips_RC_values by (simp add: keccak_rc_def)

lemma lanes_length [simp]: "length (lanes f) = 25"
  by (simp add: lanes_def)

lemma fips_lengths [simp]:
  "length (fips_theta st) = 25" "length (fips_rho st) = 25" "length (fips_pi st) = 25" "length (fips_chi st) = 25"
  by (simp_all add: fips_theta_def fips_rho_def fips_pi_def fips_chi_def Let_def)

definition fips_round :: "u64 \<Rightarrow> u64 list \<Rightarrow> u64 list" where
  "fips_round rc st = (let A = fips_chi (fips_pi (fips_rho (fips_theta st))) in A[0 := A ! 0 XOR rc])"

lemma round_constant: "i < 24 \<Longrightarrow> keccak_rc ! i = (if i = 21 then 0x8000000080008080 else fips_RC i)"
  unfolding round_constants by simp

lemma round_fips: "length st = 25 \<Longrightarrow> keccak_round i st = fips_round (keccak_rc ! i) st"
  by (simp add: keccak_round_def fips_round_def Let_def theta_fips rho_pi_fips chi_fips)

text \<open>
  C36: every round of \<^verbatim>\<open>keccak_f1600\<close> is the round of FIPS 202 (theta, rho, pi, chi on the lanes, iota), except that
  round 21 adds the constant \<open>0x8000000080008080\<close> where the standard has \<open>0x8000000000008080\<close>.
\<close>

theorem keccak_round_fips:
  assumes "length st = 25" "i < 24"
  shows "keccak_round i st = fips_round (if i = 21 then 0x8000000080008080 else fips_RC i) st \<and>
    fips_RC 21 = 0x8000000000008080"
proof -
  have "fips_RC 21 = map fips_RC [0..<24] ! 21" by simp
  then have "fips_RC 21 = 0x8000000000008080" unfolding fips_RC_values by simp
  then show ?thesis using round_fips [OF assms(1)] round_constant [OF assms(2)] by simp
qed

theorem keccak_round_fips_witness:
  "keccak_round 3 (replicate 25 0) = fips_round (fips_RC 3) (replicate 25 0)"
  using keccak_round_fips [of "replicate 25 0" 3] by simp

section \<open>The sponge construction\<close>

definition sponge_pad :: "nat \<Rightarrow> byte \<Rightarrow> nat \<Rightarrow> byte list" where
  "sponge_pad rate d n =
     (let k = rate - n mod rate in if k = 1 then [d OR 0x80] else d # replicate (k - 2) 0 @ [0x80])"

text \<open>
  The permutation of FIPS 202 with a list of round constants as an argument; \<open>fips_constants\<close> are the standard's, \<open>code_constants\<close> have the
  wrong one in round 21.
\<close>

definition fips_constants :: "u64 list" where
  "fips_constants = map fips_RC [0..<24]"

definition code_constants :: "u64 list" where
  "code_constants = fips_constants[21 := 0x8000000080008080]"

definition fips_perm :: "u64 list \<Rightarrow> u64 list \<Rightarrow> u64 list" where
  "fips_perm rc st = fold fips_round rc st"

definition fips_xor_block :: "nat \<Rightarrow> byte list \<Rightarrow> u64 list \<Rightarrow> u64 list" where
  "fips_xor_block rate b st = map (\<lambda>j. if j < rate div 8 then st ! j XOR load64_le (drop (8 * j) b) else st ! j) [0..<25]"

definition sponge_absorb :: "nat \<Rightarrow> byte list \<Rightarrow> u64 list" where
  "sponge_absorb rate m = foldl (\<lambda>st b. fips_perm code_constants (fips_xor_block rate b st)) (replicate 25 0) (chunks rate m)"

text \<open>What squeezing writes: block \<open>q\<close> of the output is extracted at byte \<open>q * rate\<close>.\<close>

definition rate_bytes :: "nat \<Rightarrow> u64 list \<Rightarrow> byte list" where
  "rate_bytes rate st = concat (map (\<lambda>j. le64 (st ! j)) [0..<rate div 8])"

definition sponge_output :: "nat \<Rightarrow> u64 list \<Rightarrow> nat \<Rightarrow> byte list" where
  "sponge_output rate st n = concat (map (\<lambda>i. rate_bytes rate ((fips_perm code_constants ^^ i) st)) [0..<n])"

definition stale_block :: "nat \<Rightarrow> (nat \<Rightarrow> nat \<Rightarrow> stale) \<Rightarrow> nat \<Rightarrow> byte list" where
  "stale_block rate g q = concat (map (\<lambda>j. store64_le (g (q * rate) j) 0) [0..<rate div 8])"

lemma length_fips_round [simp]: "length (fips_round c st) = 25"
  by (simp add: fips_round_def Let_def)

lemma length_fips_perm: "length st = 25 \<Longrightarrow> length (fips_perm rc st) = 25"
  unfolding fips_perm_def by (induction rc arbitrary: st) simp_all

lemma f1600_fips:
  assumes "length st = 25"
  shows "keccak_f1600 st = fips_perm code_constants st"
proof -
  have "fold keccak_round xs st = fold (\<lambda>i. fips_round (keccak_rc ! i)) xs st" for xs
    using assms by (induction xs arbitrary: st) (simp_all add: round_fips)
  then have "keccak_f1600 st = fold (\<lambda>i. fips_round (keccak_rc ! i)) [0..<24] st" by (simp only: keccak_f1600_def)
  also have "\<dots> = fold fips_round (map ((!) keccak_rc) [0..<24]) st" unfolding fold_map comp_def ..
  also have "map ((!) keccak_rc) [0..<24] = keccak_rc"
  proof -
    have "length keccak_rc = 24" by (simp add: keccak_rc_def)
    then show ?thesis using map_nth [of keccak_rc] by simp
  qed
  finally show ?thesis by (simp only: fips_perm_def code_constants_def fips_constants_def round_constants)
qed

lemma xor_block_fips:
  assumes "length st = 25"
  shows "n \<le> 25 \<Longrightarrow> fold (\<lambda>j st. st[j := st ! j XOR load64_le (drop (j * 8) b)]) [0..<n] st =
    map (\<lambda>j. if j < n then st ! j XOR load64_le (drop (8 * j) b) else st ! j) [0..<25]"
proof (induction n)
  case 0
  then show ?case using assms map_nth [of st] by simp
next
  case (Suc n)
  then show ?case by (auto simp: mult.commute nth_list_update intro!: nth_equalityI)
qed

lemma absorb_block_fips:
  "length st = 25 \<Longrightarrow> rate \<le> 200 \<Longrightarrow> keccak_f1600 (xor_block rate b st) = fips_perm code_constants (fips_xor_block rate b st)"
  using xor_block_fips [of st "rate div 8" b] f1600_fips by (simp add: xor_block_def fips_xor_block_def)

lemma foldl_absorb_fips:
  "rate \<le> 200 \<Longrightarrow> length st = 25 \<Longrightarrow> foldl (\<lambda>st b. keccak_f1600 (xor_block rate b st)) st bs =
     foldl (\<lambda>st b. fips_perm code_constants (fips_xor_block rate b st)) st bs \<and>
   length (foldl (\<lambda>st b. fips_perm code_constants (fips_xor_block rate b st)) st bs) = 25"
proof (induction bs arbitrary: st)
  case (Cons b bs)
  have "length (fips_perm code_constants (fips_xor_block rate b st)) = 25" by (rule length_fips_perm) (simp add: fips_xor_block_def)
  then show ?case using Cons absorb_block_fips by simp
qed simp

lemma sponge_absorb_code:
  "rate \<le> 200 \<Longrightarrow> sponge_absorb rate m = foldl (\<lambda>st b. keccak_f1600 (xor_block rate b st)) (replicate 25 0) (chunks rate m) \<and>
   length (sponge_absorb rate m) = 25"
  using foldl_absorb_fips [of rate "replicate 25 0"] by (simp add: sponge_absorb_def)

lemma load64_take: "8 * j + 8 \<le> r \<Longrightarrow> r \<le> length b \<Longrightarrow> load64_le (drop (j * 8) (take r b)) = load64_le (drop (j * 8) b)"
  by (simp add: load64_le_def load32_le_def)

lemma xor_block_take:
  assumes "r \<le> length b"
  shows "xor_block r (take r b) st = xor_block r b st"
  unfolding xor_block_def
proof (rule fold_cong [OF refl refl])
  fix j assume "j \<in> set [0..<r div 8]"
  then have "8 * j + 8 \<le> r" by auto
  then show "(\<lambda>st. st[j := st ! j XOR load64_le (drop (j * 8) (take r b))]) = (\<lambda>st. st[j := st ! j XOR load64_le (drop (j * 8) b)])"
    using load64_take assms by simp
qed

interpretation keccak_feed: block_feed "Suc r" "\<lambda>st b. keccak_f1600 (xor_block (Suc r) b st)" kst kbuf klen
  "\<lambda>c. krate c = Suc r \<and> Suc r \<le> length (kbuf c)" keccak_put for r
  by unfold_locales (auto simp: keccak_put_def Let_def xor_block_take)

lemma absorb_fed:
  assumes "0 < rate" "rate \<le> 200"
  obtains dn rest where "m = dn @ rest" "rate dvd length dn" "length rest < rate"
    "klen (keccak_absorb (keccak_init rate) m) = length rest" "take (length rest) (kbuf (keccak_absorb (keccak_init rate) m)) = rest"
    "kst (keccak_absorb (keccak_init rate) m) = sponge_absorb rate dn" "krate (keccak_absorb (keccak_init rate) m) = rate"
    "rate \<le> length (kbuf (keccak_absorb (keccak_init rate) m))"
proof -
  obtain r where r: "rate = Suc r" using assms(1) by (cases rate) auto
  have i: "krate (keccak_init rate) = Suc r" "Suc r \<le> length (kbuf (keccak_init rate))" "klen (keccak_init rate) = 0"
    "kst (keccak_init rate) = replicate 25 0"
    using assms(2) by (simp_all add: keccak_init_def r)
  then have "keccak_feed.fed r (replicate 25 0) ([] @ m) (keccak_absorb (keccak_init rate) m)"
    unfolding keccak_absorb_def using keccak_feed.fed_init [of "keccak_init rate" r] by (intro keccak_feed.fed_update) simp
  then show ?thesis unfolding keccak_feed.fed_def using that r sponge_absorb_code [OF assms(2)] by auto
qed

lemma pad_last:
  fixes d :: byte
  assumes "length rest = n" "n < r"
  defines "x \<equiv> rest @ d # replicate (r - Suc n) 0"
  shows "x[r - 1 := x ! (r - 1) OR 0x80] = rest @ sponge_pad r d n"
proof (cases "r = Suc n")
  case True
  have "x = rest @ [d]" "r - 1 = length rest" using True assms by simp_all
  moreover have "sponge_pad r d n = [d OR 0x80]" unfolding True sponge_pad_def by simp
  ultimately show ?thesis by (simp only: nth_append_length list_update_length)
next
  case False
  define k where "k = r - Suc (Suc n)"
  have k: "r = Suc (Suc (n + k))" using False assms(2) by (simp add: k_def)
  define y where "y = rest @ d # replicate k 0"
  have "x = y @ [0]" "r - 1 = length y" using k assms by (simp_all add: x_def y_def replicate_append_same)
  moreover have "sponge_pad r d n = d # replicate k 0 @ [0x80]" using k by (simp add: sponge_pad_def Let_def)
  ultimately show ?thesis by (simp only: nth_append_length list_update_length or.left_neutral) (simp add: y_def)
qed

lemma pad_block:
  fixes d :: byte
  assumes "n < r" "r \<le> length b" "take n b = rest"
  defines "z \<equiv> zero_fill (b[n := d]) (n + 1) r"
  shows "take r (z[r - 1 := z ! (r - 1) OR 0x80]) = rest @ sponge_pad r d n"
proof -
  define x where "x = rest @ d # replicate (r - Suc n) 0"
  have lr: "length rest = n" using assms by auto
  have l: "length x = r" "0 < r" using assms(1) lr by (simp_all add: x_def)
  have z: "z = x @ drop r b"
    unfolding z_def using zero_fill_eq [of "n + 1" r "b[n := d]"] assms by (simp add: take_snoc_upd x_def)
  have "z[r - 1 := z ! (r - 1) OR 0x80] = x[r - 1 := x ! (r - 1) OR 0x80] @ drop r b"
    unfolding z using l by (simp add: list_update_append1 nth_append)
  then have "take r (z[r - 1 := z ! (r - 1) OR 0x80]) = x[r - 1 := x ! (r - 1) OR 0x80]" using l by simp
  then show ?thesis using pad_last [OF lr assms(1), of d] unfolding x_def by (rule trans)
qed

lemma padded_state:
  fixes m :: "byte list" and d :: byte
  assumes "0 < rate" "rate \<le> 200"
  defines "c \<equiv> keccak_pad (keccak_absorb (keccak_init rate) m) d"
  shows "kst c = sponge_absorb rate (m @ sponge_pad rate d (length m)) \<and> klen c = 0 \<and> krate c = rate"
proof -
  define a where "a = keccak_absorb (keccak_init rate) m"
  obtain dn rest where m: "m = dn @ rest" "rate dvd length dn" "length rest < rate" "klen a = length rest"
    "take (length rest) (kbuf a) = rest" "kst a = sponge_absorb rate dn" "krate a = rate" "rate \<le> length (kbuf a)"
    unfolding a_def using absorb_fed [OF assms(1,2), of m] by metis
  have c: "c = keccak_pad a d" by (simp add: c_def a_def)
  define z where "z = zero_fill ((kbuf a)[length rest := d]) (length rest + 1) rate"
  define b where "b = z[rate - 1 := z ! (rate - 1) OR 0x80]"
  have "length m mod rate = length rest" using m(1-3) by (auto elim!: dvdE)
  then have p: "sponge_pad rate d (length rest) = sponge_pad rate d (length m)"
    using m(3) by (simp add: sponge_pad_def)
  have b: "take rate b = rest @ sponge_pad rate d (length m)"
    unfolding p [symmetric] using pad_block [OF m(3,8,5)] by (simp add: b_def z_def)
  have lb: "rate \<le> length b" using m(8) by (simp add: b_def z_def)
  have "kst c = keccak_f1600 (xor_block rate (take rate b) (kst a))"
    using m(4,7) xor_block_take [OF lb] by (simp add: c keccak_pad_def Let_def b_def z_def)
  moreover have "chunks rate (m @ sponge_pad rate d (length m)) = chunks rate dn @ [take rate b]"
  proof -
    have "chunks rate (take rate b) = [take rate b]" using chunks_block [of "take rate b" rate "[]"] lb assms(1) by simp
    then show ?thesis using chunks_append [OF m(2) assms(1), of "take rate b"] b m(1) by simp
  qed
  ultimately show ?thesis using m(6,7) sponge_absorb_code [OF assms(2)]
    by (simp add: c keccak_pad_def Let_def)
qed

definition squeezed :: "nat \<Rightarrow> (nat \<Rightarrow> nat \<Rightarrow> stale) \<Rightarrow> u64 list \<Rightarrow> nat \<Rightarrow> keccak_ctx \<Rightarrow> bool" where
  "squeezed r g S i c \<longleftrightarrow> krate c = r \<and> klen c = (r - i mod r) mod r \<and> kst c = (keccak_f1600 ^^ ((i - 1) div r)) S \<and>
     (klen c \<noteq> 0 \<longrightarrow> take r (kbuf c) = stale_block r g (i div r))"

definition stream_byte :: "nat \<Rightarrow> (nat \<Rightarrow> nat \<Rightarrow> stale) \<Rightarrow> nat \<Rightarrow> byte" where
  "stream_byte r g k = stale_block r g (k div r) ! (k mod r)"

lemma stale_block_length: "8 dvd r \<Longrightarrow> length (stale_block r g q) = r"
  by (simp add: stale_block_def length_concat comp_def sum_list_triv)

lemma extract_stale: "i mod r = 0 \<Longrightarrow> keccak_extract (g i) r st b = stale_block r g (i div r) @ drop (8 * (r div 8)) b"
  by (auto simp: keccak_extract_def stale_block_def store64_le_def elim!: dvdE simp flip: dvd_eq_mod_eq_0)

lemma div_pred: "i mod r \<noteq> 0 \<Longrightarrow> (i - 1) div r = i div (r :: nat)"
  by (cases i) (auto simp: div_Suc mod_Suc split: if_splits)

lemma div_step: "0 < r \<Longrightarrow> i mod r = 0 \<Longrightarrow> 0 < i \<Longrightarrow> Suc ((i - 1) div r) = i div (r :: nat)"
  by (cases i) (auto simp: div_Suc)

lemma squeeze_step:
  assumes r: "8 dvd r" "0 < r" and sq: "squeezed r g S i c"
  defines "c1 \<equiv> (if klen c = 0 then
      let c = (if i > 0 then c\<lparr>kst := keccak_f1600 (kst c)\<rparr> else c)
      in c\<lparr>kbuf := keccak_extract (g i) (krate c) (kst c) (kbuf c), klen := krate c\<rparr>
    else c)"
  shows "squeezed r g S (Suc i) (c1\<lparr>klen := klen c1 - 1\<rparr>) \<and> kbuf c1 ! (krate c1 - klen c1) = stream_byte r g i"
proof -
  have r8: "8 \<le> r" using r dvd_imp_le by blast
  have D: "krate c = r" "klen c = (r - i mod r) mod r" "kst c = (keccak_f1600 ^^ ((i - 1) div r)) S"
    "klen c \<noteq> 0 \<Longrightarrow> take r (kbuf c) = stale_block r g (i div r)"
    using sq by (auto simp: squeezed_def)
  show ?thesis
  proof (cases "i mod r = 0")
    case True
    have st: "(if i > 0 then keccak_f1600 (kst c) else kst c) = (keccak_f1600 ^^ (i div r)) S"
    proof (cases "i = 0")
      case False
      then have "i div r = Suc ((i - 1) div r)" using div_step [OF r(2) True] by simp
      then show ?thesis using False D(3) by simp
    qed (simp add: D(3))
    have c1: "krate c1 = r" "klen c1 = r" "kst c1 = (keccak_f1600 ^^ (i div r)) S" "take r (kbuf c1) = stale_block r g (i div r)"
      using True D st r by (auto simp: c1_def Let_def extract_stale stale_block_length)
    have m: "Suc i mod r = 1" "Suc i div r = i div r" using True r8 by (simp_all add: mod_Suc div_Suc)
    have "kbuf c1 ! 0 = take r (kbuf c1) ! 0" using r8 by simp
    then show ?thesis using c1 m r8 True by (simp add: squeezed_def stream_byte_def)
  next
    case False
    have lt: "i mod r < r" using r(2) by simp
    then have "klen c = r - i mod r" "klen c \<noteq> 0" using D(2) False by simp_all
    moreover from this have "c1 = c" by (simp add: c1_def)
    ultimately have k: "klen c = r - i mod r" "klen c \<noteq> 0" "i mod r < r" "c1 = c" using lt by simp_all
    have n: "kbuf c ! (i mod r) = take r (kbuf c) ! (i mod r)" using k(3) by simp
    have "(r - Suc i mod r) mod r = r - i mod r - 1"
      using False k(3) by (auto simp: mod_Suc)
    moreover have "\<not> r \<le> Suc (i mod r) \<Longrightarrow> Suc i div r = i div r" by (simp add: div_Suc mod_Suc)
    ultimately show ?thesis using D k n div_pred [OF False] by (auto simp: squeezed_def stream_byte_def)
  qed
qed

lemma squeeze_loop_stream:
  assumes r: "8 dvd r" "0 < r"
  shows "squeezed r g S i c \<Longrightarrow> snd (squeeze_loop g n i c) = map (stream_byte r g) [i..<i + n] \<and>
    squeezed r g S (i + n) (fst (squeeze_loop g n i c))"
proof (induction n arbitrary: i c)
  case (Suc n)
  note st = squeeze_step [OF r Suc.prems]
  show ?case using Suc.IH [OF conjunct1 [OF st]] conjunct2 [OF st]
    by (simp add: Let_def case_prod_beta upt_conv_Cons del: upt_Suc)
qed simp

lemma stream_blocks:
  assumes "8 dvd r" "0 < r"
  shows "map (stream_byte r g) [0..<n] = take n (concat (map (stale_block r g) [0..<n]))"
proof (rule nth_equalityI)
  have l: "length (concat (map (stale_block r g) [0..<n])) = n * r"
    by (simp add: length_concat comp_def stale_block_length [OF assms(1)] sum_list_triv)
  then show "length (map (stream_byte r g) [0..<n]) = length (take n (concat (map (stale_block r g) [0..<n])))" using assms(2) by simp
  fix k assume "k < length (map (stream_byte r g) [0..<n])"
  then have k: "k < n" by simp
  moreover have "n \<le> n * r" using assms(2) by simp
  ultimately have "k < n * r" by linarith
  then show "map (stream_byte r g) [0..<n] ! k = take n (concat (map (stale_block r g) [0..<n])) ! k"
    using concat_nth [where F = "stale_block r g", OF stale_block_length [OF assms(1)], of k n] k by (simp add: stream_byte_def)
qed

lemma funpow_fips: "length S = 25 \<Longrightarrow> (keccak_f1600 ^^ n) S = (fips_perm code_constants ^^ n) S \<and> length ((fips_perm code_constants ^^ n) S) = 25"
  by (induction n) (simp_all add: f1600_fips length_fips_perm)

text \<open>
  C35: absorbing a message in two pieces, padding and squeezing once follows the sponge construction of FIPS 202, with the permutation of the
  standard except for its constant of round 21: after padding the state is that of the message with \<open>pad10*1\<close> and the domain byte absorbed
  block by block, and squeezing \<open>n\<close> bytes has permuted it once per further block.  The output bytes are the words the broken
  64-bit store leaves, block after block; where these are the halves of the lanes the output is the standard's.  SHA-3 and SHAKE are the instances.
\<close>

theorem sponge_correct:
  assumes "8 dvd rate" "0 < rate" "rate \<le> 200"
  shows "let S = sponge_absorb rate ((a @ b) @ sponge_pad rate d (length (a @ b)));
             c = keccak_pad (keccak_absorb (keccak_absorb (keccak_init rate) a) b) d
    in kst c = S \<and> kst (fst (keccak_squeeze g c n)) = (fips_perm code_constants ^^ ((n - 1) div rate)) S \<and>
      snd (keccak_squeeze g c n) = take n (concat (map (stale_block rate g) [0..<n])) \<and>
      ((\<forall>q j. g (q * rate) j = halves_le ((fips_perm code_constants ^^ q) S ! j)) \<longrightarrow>
         snd (keccak_squeeze g c n) = take n (sponge_output rate S n))"
proof -
  define S where "S = sponge_absorb rate ((a @ b) @ sponge_pad rate d (length (a @ b)))"
  define c where "c = keccak_pad (keccak_absorb (keccak_absorb (keccak_init rate) a) b) d"
  have "keccak_absorb (keccak_absorb (keccak_init rate) a) b = keccak_absorb (keccak_init rate) (a @ b)"
    by (simp add: keccak_absorb_def)
  then have c: "kst c = S" "klen c = 0" "krate c = rate"
    using padded_state [OF assms(2,3), of "a @ b" d] by (simp_all add: c_def S_def)
  then have "squeezed rate g S 0 c" by (simp add: squeezed_def)
  note sq = squeeze_loop_stream [OF assms(1,2) this, of n]
  have out: "snd (keccak_squeeze g c n) = take n (concat (map (stale_block rate g) [0..<n]))"
    using sq stream_blocks [OF assms(1,2)] by (simp add: keccak_squeeze_def)
  have "kst (fst (keccak_squeeze g c n)) = (fips_perm code_constants ^^ ((n - 1) div rate)) S"
  proof -
    have "length S = 25" unfolding S_def by (rule conjunct2 [OF sponge_absorb_code [OF assms(3)]])
    then show ?thesis using sq funpow_fips [of S] by (simp add: keccak_squeeze_def squeezed_def)
  qed
  moreover have "stale_block rate g q = rate_bytes rate ((fips_perm code_constants ^^ q) S)"
    if "\<forall>q j. g (q * rate) j = halves_le ((fips_perm code_constants ^^ q) S ! j)" for q
  proof -
    have "store64_le (g (q * rate) j) 0 = le64 ((fips_perm code_constants ^^ q) S ! j)" for j
      using that store64_iff(2) by blast
    then show ?thesis by (simp add: stale_block_def rate_bytes_def)
  qed
  then have "take n (concat (map (stale_block rate g) [0..<n])) = take n (sponge_output rate S n)"
    if "\<forall>q j. g (q * rate) j = halves_le ((fips_perm code_constants ^^ q) S ! j)"
    unfolding sponge_output_def using that by presburger
  ultimately show ?thesis unfolding Let_def S_def [symmetric] c_def [symmetric] using c(1) out by presburger
qed

theorem sponge_correct_witness:
  "kst (keccak_pad (keccak_absorb (keccak_absorb (keccak_init 136) [1]) [2]) 6) =
   sponge_absorb 136 (([1] @ [2]) @ sponge_pad 136 6 (length ([1] @ [2 :: byte])))"
  using sponge_correct [of 136 "[1]" "[2]" 6 "\<lambda>i j. (0, 0)" 32] unfolding Let_def by simp

text \<open>
  Squeezing in two calls does not continue when the first call ends on a block boundary: the second call extracts the block of the
  same state again, since a call never permutes before its first byte.
\<close>

theorem squeeze_repeats:
  assumes "8 dvd rate" "0 < rate" "rate \<le> 200" "k \<le> rate"
  shows "let c = keccak_pad (keccak_absorb (keccak_init rate) m) d; c1 = fst (keccak_squeeze g c rate)
    in kst c1 = kst c \<and> kst (fst (keccak_squeeze h c1 k)) = kst c"
proof -
  define c where "c = keccak_pad (keccak_absorb (keccak_init rate) m) d"
  define S where "S = kst c"
  have "squeezed rate g S 0 c" using padded_state [OF assms(2,3), of m d] by (simp add: squeezed_def S_def c_def)
  note sq = squeeze_loop_stream [OF assms(1,2) this, of rate]
  define c1 where "c1 = fst (squeeze_loop g rate 0 c)"
  have c1: "kst c1 = S" "klen c1 = 0" "krate c1 = rate" using sq assms(2) by (simp_all add: squeezed_def c1_def)
  then have "squeezed rate h S 0 c1" by (simp add: squeezed_def)
  moreover have "(k - 1) div rate = 0" using assms(2,4) by simp
  ultimately have "kst (fst (squeeze_loop h k 0 c1)) = S" using squeeze_loop_stream [OF assms(1,2), of h S 0 c1 k]
    by (simp add: squeezed_def)
  then show ?thesis using c1 by (simp add: keccak_squeeze_def Let_def S_def flip: c_def c1_def)
qed

theorem squeeze_repeats_witness:
  "let c = keccak_pad (keccak_absorb (keccak_init 168) [97]) 0x1F; c1 = fst (keccak_squeeze (\<lambda>i j. (0, 0)) c 168)
   in kst c1 = kst c \<and> kst (fst (keccak_squeeze (\<lambda>i j. (0, 0)) c1 16)) = kst c"
  by (rule squeeze_repeats) simp_all

end
