(* ===== verification/Blake2.thy ===== *)
theory Blake2
  imports CryptoBase
begin

text \<open>
  BLAKE2 (\<^verbatim>\<open>include/crypto/blake2.h\<close>): the 64-bit and the 32-bit variant, with output length and key.  Unlike
  the other hashes the context keeps a full block back until more data follows, since the last block is
  compressed with the finalization flag.  The specification is RFC 7693: the function F on a block and a byte
  counter, folded over the blocks of the padded key and the message.
\<close>

unbundle bit_operations_syntax

record 'w blake2_ctx =
  bl_h :: "'w list"
  bl_t :: "'w \<times> 'w"
  bl_f :: "'w \<times> 'w"
  bl_buf :: "byte list"
  bl_buflen :: nat
  bl_outlen :: nat

section \<open>BLAKE2b\<close>

definition blake2b_iv :: "u64 list" where
  "blake2b_iv = [0x6a09e667f3bcc908, 0xbb67ae8584caa73b, 0x3c6ef372fe94f82b, 0xa54ff53a5f1d36f1,
     0x510e527fade682d1, 0x9b05688c2b3e6c1f, 0x1f83d9abfb41bd6b, 0x5be0cd19137e2179]"

definition blake2b_sigma :: "nat list list" where
  "blake2b_sigma = [
    [0,1,2,3,4,5,6,7,8,9,10,11,12,13,14,15],
    [14,10,4,8,9,15,13,6,1,12,0,2,11,7,5,3],
    [11,8,12,0,5,2,15,13,10,14,3,6,7,1,9,4],
    [7,9,3,1,13,12,11,14,2,6,5,10,4,0,15,8],
    [9,0,5,7,2,4,10,15,14,1,11,12,6,8,3,13],
    [2,12,6,10,0,11,8,3,4,13,7,5,15,14,1,9],
    [12,5,1,15,14,13,4,10,0,7,6,3,9,2,8,11],
    [13,11,7,14,12,1,3,9,5,0,15,4,8,6,2,10],
    [6,15,14,9,11,3,0,8,12,2,13,7,1,4,10,5],
    [10,2,8,4,7,6,1,5,15,11,9,14,3,12,13,0],
    [0,1,2,3,4,5,6,7,8,9,10,11,12,13,14,15],
    [14,10,4,8,9,15,13,6,1,12,0,2,11,7,5,3]]"

definition blake2b_g :: "u64 list \<Rightarrow> nat \<Rightarrow> nat \<Rightarrow> nat \<Rightarrow> nat \<Rightarrow> nat \<Rightarrow> nat \<Rightarrow> u64 list \<Rightarrow> u64 list" where
  "blake2b_g m r i a b c d v =
     (let v = v[a := v ! a + v ! b + m ! (blake2b_sigma ! r ! (2 * i + 0))];
          v = v[d := rotr64 (v ! d XOR v ! a) 32];
          v = v[c := v ! c + v ! d];
          v = v[b := rotr64 (v ! b XOR v ! c) 24];
          v = v[a := v ! a + v ! b + m ! (blake2b_sigma ! r ! (2 * i + 1))];
          v = v[d := rotr64 (v ! d XOR v ! a) 16];
          v = v[c := v ! c + v ! d];
          v = v[b := rotr64 (v ! b XOR v ! c) 63]
      in v)"

definition blake2b_round :: "u64 list \<Rightarrow> nat \<Rightarrow> u64 list \<Rightarrow> u64 list" where
  "blake2b_round m r v =
     (let v = blake2b_g m r 0 0 4 8 12 v;
          v = blake2b_g m r 1 1 5 9 13 v;
          v = blake2b_g m r 2 2 6 10 14 v;
          v = blake2b_g m r 3 3 7 11 15 v;
          v = blake2b_g m r 4 0 5 10 15 v;
          v = blake2b_g m r 5 1 6 11 12 v;
          v = blake2b_g m r 6 2 7 8 13 v;
          v = blake2b_g m r 7 3 4 9 14 v
      in v)"

definition blake2b_compress :: "u64 blake2_ctx \<Rightarrow> byte list \<Rightarrow> u64 blake2_ctx" where
  "blake2b_compress ctx block =
     (let m = map (\<lambda>i. load64_le (drop (i * 8) block)) [0..<16];
          v = map (\<lambda>i. bl_h ctx ! i) [0..<8] @
            [blake2b_iv ! 0, blake2b_iv ! 1, blake2b_iv ! 2, blake2b_iv ! 3,
             blake2b_iv ! 4 XOR fst (bl_t ctx), blake2b_iv ! 5 XOR snd (bl_t ctx),
             blake2b_iv ! 6 XOR fst (bl_f ctx), blake2b_iv ! 7 XOR snd (bl_f ctx)];
          v = blake2b_round m 0 v;
          v = blake2b_round m 1 v;
          v = blake2b_round m 2 v;
          v = blake2b_round m 3 v;
          v = blake2b_round m 4 v;
          v = blake2b_round m 5 v;
          v = blake2b_round m 6 v;
          v = blake2b_round m 7 v;
          v = blake2b_round m 8 v;
          v = blake2b_round m 9 v;
          v = blake2b_round m 10 v;
          v = blake2b_round m 11 v
      in ctx\<lparr>bl_h := map (\<lambda>i. bl_h ctx ! i XOR (v ! i XOR v ! (i + 8))) [0..<8]\<rparr>)"

definition blake2b_count :: "u64 blake2_ctx \<Rightarrow> nat \<Rightarrow> u64 blake2_ctx" where
  "blake2b_count ctx n =
     (let t0 = fst (bl_t ctx) + of_nat n
      in ctx\<lparr>bl_t := (t0, if t0 < of_nat n then snd (bl_t ctx) + 1 else snd (bl_t ctx))\<rparr>)"

fun blake2b_blocks :: "u64 blake2_ctx \<Rightarrow> byte list \<Rightarrow> u64 blake2_ctx \<times> byte list" where
  "blake2b_blocks ctx pin =
     (if length pin > 128 then blake2b_blocks (blake2b_compress (blake2b_count ctx 128) (take 128 pin)) (drop 128 pin)
      else (ctx, pin))"

declare blake2b_blocks.simps [simp del]

definition blake2b_update :: "u64 blake2_ctx \<Rightarrow> byte list \<Rightarrow> u64 blake2_ctx" where
  "blake2b_update ctx pin =
     (if length pin > 0 then
        let left = bl_buflen ctx; fill = 128 - left;
            (ctx, pin) =
              (if length pin > fill then
                 let ctx = ctx\<lparr>bl_buflen := 0, bl_buf := take left (bl_buf ctx) @ take fill pin\<rparr>;
                     ctx = blake2b_count ctx 128;
                     ctx = blake2b_compress ctx (bl_buf ctx)
                 in blake2b_blocks ctx (drop fill pin)
               else (ctx, pin))
        in ctx\<lparr>bl_buf := take (bl_buflen ctx) (bl_buf ctx) @ pin @ drop (bl_buflen ctx + length pin) (bl_buf ctx),
               bl_buflen := bl_buflen ctx + length pin\<rparr>
      else ctx)"

definition blake2b_init :: "u64 blake2_ctx \<Rightarrow> nat \<Rightarrow> byte list option \<Rightarrow> nat \<Rightarrow> u64 blake2_ctx option" where
  "blake2b_init ctx outlen key keylen =
     (if outlen = 0 \<or> outlen > 64 then None
      else if keylen > 64 then None
      else if keylen \<noteq> 0 \<and> key = None then None
      else
        let h = map (\<lambda>i. blake2b_iv ! i) [0..<8];
            ctx = ctx\<lparr>bl_h := h[0 := h ! 0 XOR (0x01010000 XOR push_bit 8 (of_nat keylen) XOR of_nat outlen)],
                      bl_t := (0, 0), bl_f := (0, 0), bl_buflen := 0, bl_outlen := outlen\<rparr>
        in Some (if keylen > 0 then
                   blake2b_update ctx (take keylen (the key) @ replicate (128 - keylen) 0)
                 else ctx))"

definition blake2b_zero :: "u64 blake2_ctx" where
  "blake2b_zero = \<lparr>bl_h = replicate 8 0, bl_t = (0, 0), bl_f = (0, 0), bl_buf = replicate 128 0, bl_buflen = 0, bl_outlen = 0\<rparr>"

definition blake2b_final :: "u64 blake2_ctx \<Rightarrow> u64 blake2_ctx \<times> byte list" where
  "blake2b_final ctx =
     (let ctx = blake2b_count ctx (bl_buflen ctx);
          ctx = ctx\<lparr>bl_f := (- 1, snd (bl_f ctx)),
                    bl_buf := take (bl_buflen ctx) (bl_buf ctx) @ replicate (128 - bl_buflen ctx) 0\<rparr>;
          ctx = blake2b_compress ctx (bl_buf ctx)
      in (blake2b_zero, map (\<lambda>i. ucast (drop_bit (8 * (i mod 8)) (bl_h ctx ! (i div 8)) AND 0xFF)) [0..<bl_outlen ctx]))"

definition blake2b :: "u64 blake2_ctx \<Rightarrow> nat \<Rightarrow> byte list \<Rightarrow> byte list option \<Rightarrow> nat \<Rightarrow> byte list option" where
  "blake2b ctx outlen inp key keylen =
     (case blake2b_init ctx outlen key keylen of
        None \<Rightarrow> None
      | Some ctx \<Rightarrow> Some (snd (blake2b_final (blake2b_update ctx inp))))"

section \<open>BLAKE2s\<close>

definition blake2s_iv :: "u32 list" where
  "blake2s_iv = [0x6A09E667, 0xBB67AE85, 0x3C6EF372, 0xA54FF53A, 0x510E527F, 0x9B05688C, 0x1F83D9AB, 0x5BE0CD19]"

definition blake2s_sigma :: "nat list list" where
  "blake2s_sigma = [
    [0,1,2,3,4,5,6,7,8,9,10,11,12,13,14,15],
    [14,10,4,8,9,15,13,6,1,12,0,2,11,7,5,3],
    [11,8,12,0,5,2,15,13,10,14,3,6,7,1,9,4],
    [7,9,3,1,13,12,11,14,2,6,5,10,4,0,15,8],
    [9,0,5,7,2,4,10,15,14,1,11,12,6,8,3,13],
    [2,12,6,10,0,11,8,3,4,13,7,5,15,14,1,9],
    [12,5,1,15,14,13,4,10,0,7,6,3,9,2,8,11],
    [13,11,7,14,12,1,3,9,5,0,15,4,8,6,2,10],
    [6,15,14,9,11,3,0,8,12,2,13,7,1,4,10,5],
    [10,2,8,4,7,6,1,5,15,11,9,14,3,12,13,0]]"

definition blake2s_g :: "u32 list \<Rightarrow> nat \<Rightarrow> nat \<Rightarrow> nat \<Rightarrow> nat \<Rightarrow> nat \<Rightarrow> nat \<Rightarrow> u32 list \<Rightarrow> u32 list" where
  "blake2s_g m r i a b c d v =
     (let v = v[a := v ! a + v ! b + m ! (blake2s_sigma ! r ! (2 * i + 0))];
          v = v[d := rotr32 (v ! d XOR v ! a) 16];
          v = v[c := v ! c + v ! d];
          v = v[b := rotr32 (v ! b XOR v ! c) 12];
          v = v[a := v ! a + v ! b + m ! (blake2s_sigma ! r ! (2 * i + 1))];
          v = v[d := rotr32 (v ! d XOR v ! a) 8];
          v = v[c := v ! c + v ! d];
          v = v[b := rotr32 (v ! b XOR v ! c) 7]
      in v)"

definition blake2s_round :: "u32 list \<Rightarrow> nat \<Rightarrow> u32 list \<Rightarrow> u32 list" where
  "blake2s_round m r v =
     (let v = blake2s_g m r 0 0 4 8 12 v;
          v = blake2s_g m r 1 1 5 9 13 v;
          v = blake2s_g m r 2 2 6 10 14 v;
          v = blake2s_g m r 3 3 7 11 15 v;
          v = blake2s_g m r 4 0 5 10 15 v;
          v = blake2s_g m r 5 1 6 11 12 v;
          v = blake2s_g m r 6 2 7 8 13 v;
          v = blake2s_g m r 7 3 4 9 14 v
      in v)"

definition blake2s_compress :: "u32 blake2_ctx \<Rightarrow> byte list \<Rightarrow> u32 blake2_ctx" where
  "blake2s_compress ctx block =
     (let m = map (\<lambda>i. load32_le (drop (i * 4) block)) [0..<16];
          v = map (\<lambda>i. bl_h ctx ! i) [0..<8] @
            [blake2s_iv ! 0, blake2s_iv ! 1, blake2s_iv ! 2, blake2s_iv ! 3,
             blake2s_iv ! 4 XOR fst (bl_t ctx), blake2s_iv ! 5 XOR snd (bl_t ctx),
             blake2s_iv ! 6 XOR fst (bl_f ctx), blake2s_iv ! 7 XOR snd (bl_f ctx)];
          v = blake2s_round m 0 v;
          v = blake2s_round m 1 v;
          v = blake2s_round m 2 v;
          v = blake2s_round m 3 v;
          v = blake2s_round m 4 v;
          v = blake2s_round m 5 v;
          v = blake2s_round m 6 v;
          v = blake2s_round m 7 v;
          v = blake2s_round m 8 v;
          v = blake2s_round m 9 v
      in ctx\<lparr>bl_h := map (\<lambda>i. bl_h ctx ! i XOR (v ! i XOR v ! (i + 8))) [0..<8]\<rparr>)"

text \<open>The 32-bit counter is compared with the \<open>size_t\<close> that was added, at 64 bits.\<close>

definition blake2s_count :: "u32 blake2_ctx \<Rightarrow> nat \<Rightarrow> u32 blake2_ctx" where
  "blake2s_count ctx n =
     (let t0 = fst (bl_t ctx) + of_nat n
      in ctx\<lparr>bl_t := (t0, if (ucast t0 :: u64) < of_nat n then snd (bl_t ctx) + 1 else snd (bl_t ctx))\<rparr>)"

fun blake2s_blocks :: "u32 blake2_ctx \<Rightarrow> byte list \<Rightarrow> u32 blake2_ctx \<times> byte list" where
  "blake2s_blocks ctx pin =
     (if length pin > 64 then blake2s_blocks (blake2s_compress (blake2s_count ctx 64) (take 64 pin)) (drop 64 pin)
      else (ctx, pin))"

declare blake2s_blocks.simps [simp del]

definition blake2s_update :: "u32 blake2_ctx \<Rightarrow> byte list \<Rightarrow> u32 blake2_ctx" where
  "blake2s_update ctx pin =
     (if length pin > 0 then
        let left = bl_buflen ctx; fill = 64 - left;
            (ctx, pin) =
              (if length pin > fill then
                 let ctx = ctx\<lparr>bl_buflen := 0, bl_buf := take left (bl_buf ctx) @ take fill pin\<rparr>;
                     ctx = blake2s_count ctx 64;
                     ctx = blake2s_compress ctx (bl_buf ctx)
                 in blake2s_blocks ctx (drop fill pin)
               else (ctx, pin))
        in ctx\<lparr>bl_buf := take (bl_buflen ctx) (bl_buf ctx) @ pin @ drop (bl_buflen ctx + length pin) (bl_buf ctx),
               bl_buflen := bl_buflen ctx + length pin\<rparr>
      else ctx)"

definition blake2s_init :: "u32 blake2_ctx \<Rightarrow> nat \<Rightarrow> byte list option \<Rightarrow> nat \<Rightarrow> u32 blake2_ctx option" where
  "blake2s_init ctx outlen key keylen =
     (if outlen = 0 \<or> outlen > 32 then None
      else if keylen > 32 then None
      else if keylen \<noteq> 0 \<and> key = None then None
      else
        let h = map (\<lambda>i. blake2s_iv ! i) [0..<8];
            ctx = ctx\<lparr>bl_h := h[0 := ucast (ucast (h ! 0) XOR (0x01010000 XOR push_bit 8 (of_nat keylen) XOR of_nat outlen :: u64))],
                      bl_t := (0, 0), bl_f := (0, 0), bl_buflen := 0, bl_outlen := outlen\<rparr>
        in Some (if keylen > 0 then
                   blake2s_update ctx (take keylen (the key) @ replicate (64 - keylen) 0)
                 else ctx))"

definition blake2s_zero :: "u32 blake2_ctx" where
  "blake2s_zero = \<lparr>bl_h = replicate 8 0, bl_t = (0, 0), bl_f = (0, 0), bl_buf = replicate 64 0, bl_buflen = 0, bl_outlen = 0\<rparr>"

definition blake2s_final :: "u32 blake2_ctx \<Rightarrow> u32 blake2_ctx \<times> byte list" where
  "blake2s_final ctx =
     (let ctx = blake2s_count ctx (bl_buflen ctx);
          ctx = ctx\<lparr>bl_f := (- 1, snd (bl_f ctx)),
                    bl_buf := take (bl_buflen ctx) (bl_buf ctx) @ replicate (64 - bl_buflen ctx) 0\<rparr>;
          ctx = blake2s_compress ctx (bl_buf ctx)
      in (blake2s_zero, map (\<lambda>i. ucast (drop_bit (8 * (i mod 4)) (bl_h ctx ! (i div 4)) AND 0xFF)) [0..<bl_outlen ctx]))"

definition blake2s :: "u32 blake2_ctx \<Rightarrow> nat \<Rightarrow> byte list \<Rightarrow> byte list option \<Rightarrow> nat \<Rightarrow> byte list option" where
  "blake2s ctx outlen inp key keylen =
     (case blake2s_init ctx outlen key keylen of
        None \<Rightarrow> None
      | Some ctx \<Rightarrow> Some (snd (blake2s_final (blake2s_update ctx inp))))"

section \<open>RFC 7693\<close>

definition rfc_sigma :: "nat list list" where
  "rfc_sigma = [
    [0,1,2,3,4,5,6,7,8,9,10,11,12,13,14,15],
    [14,10,4,8,9,15,13,6,1,12,0,2,11,7,5,3],
    [11,8,12,0,5,2,15,13,10,14,3,6,7,1,9,4],
    [7,9,3,1,13,12,11,14,2,6,5,10,4,0,15,8],
    [9,0,5,7,2,4,10,15,14,1,11,12,6,8,3,13],
    [2,12,6,10,0,11,8,3,4,13,7,5,15,14,1,9],
    [12,5,1,15,14,13,4,10,0,7,6,3,9,2,8,11],
    [13,11,7,14,12,1,3,9,5,0,15,4,8,6,2,10],
    [6,15,14,9,11,3,0,8,12,2,13,7,1,4,10,5],
    [10,2,8,4,7,6,1,5,15,11,9,14,3,12,13,0]]"

text \<open>The mixing function on four entries of the work vector, with the rotations of the variant.\<close>

definition rfc_mix :: "nat \<times> nat \<times> nat \<times> nat \<Rightarrow> nat \<times> nat \<times> nat \<times> nat \<Rightarrow> 'a::len word \<times> 'a word \<Rightarrow> 'a word list \<Rightarrow> 'a word list" where
  "rfc_mix = (\<lambda>(r1, r2, r3, r4) (a, b, c, d) (x, y) v.
     let va = v ! a + v ! b + x;
         vd = word_rotr r1 (v ! d XOR va);
         vc = v ! c + vd;
         vb = word_rotr r2 (v ! b XOR vc);
         va = va + vb + y;
         vd = word_rotr r3 (vd XOR va);
         vc = vc + vd;
         vb = word_rotr r4 (vb XOR vc)
     in v[a := va, b := vb, c := vc, d := vd])"

definition rfc_round :: "nat \<times> nat \<times> nat \<times> nat \<Rightarrow> 'a::len word list \<Rightarrow> 'a word list \<Rightarrow> nat \<Rightarrow> 'a word list" where
  "rfc_round R m v i =
     (let s = rfc_sigma ! (i mod 10) in
      foldl (\<lambda>v (q, k). rfc_mix R q (m ! (s ! (2 * k)), m ! (s ! (2 * k + 1))) v) v
        [((0, 4, 8, 12), 0), ((1, 5, 9, 13), 1), ((2, 6, 10, 14), 2), ((3, 7, 11, 15), 3),
         ((0, 5, 10, 15), 4), ((1, 6, 11, 12), 5), ((2, 7, 8, 13), 6), ((3, 4, 9, 14), 7)])"

text \<open>The compression function F: state, message words, byte counter of two words, final flag.\<close>

definition rfc_F :: "nat \<Rightarrow> nat \<times> nat \<times> nat \<times> nat \<Rightarrow> 'a::len word list \<Rightarrow> 'a word list \<Rightarrow> 'a word list \<Rightarrow> nat \<Rightarrow> bool \<Rightarrow> 'a word list" where
  "rfc_F rounds R iv h m t f =
     (let v = h @ iv;
          v = v[12 := v ! 12 XOR of_nat t, 13 := v ! 13 XOR of_nat (t div 2 ^ LENGTH('a))];
          v = (if f then v[14 := NOT (v ! 14)] else v);
          v = foldl (rfc_round R m) v [0..<rounds]
      in map (\<lambda>i. h ! i XOR v ! i XOR v ! (i + 8)) [0..<8])"

text \<open>F over the blocks of the data: every block but the last without the flag, the last one padded with zeros.\<close>

fun rfc_blocks :: "nat \<Rightarrow> ('w list \<Rightarrow> byte list \<Rightarrow> nat \<Rightarrow> bool \<Rightarrow> 'w list) \<Rightarrow> 'w list \<Rightarrow> nat \<Rightarrow> byte list \<Rightarrow> 'w list" where
  "rfc_blocks bb F h n d =
     (if bb = 0 \<or> length d \<le> bb then F h (d @ replicate (bb - length d) 0) (n + length d) True
      else rfc_blocks bb F (F h (take bb d) (n + bb) False) (n + bb) (drop bb d))"

declare rfc_blocks.simps [simp del]

definition rfc_blake2 :: "nat \<Rightarrow> ('a::len word list \<Rightarrow> byte list \<Rightarrow> nat \<Rightarrow> bool \<Rightarrow> 'a word list) \<Rightarrow> 'a word list \<Rightarrow> ('a word \<Rightarrow> byte list) \<Rightarrow>
    byte list \<Rightarrow> nat \<Rightarrow> byte list \<Rightarrow> byte list" where
  "rfc_blake2 bb F iv bytes key nn msg =
     (let h = iv[0 := iv ! 0 XOR 0x01010000 XOR push_bit 8 (of_nat (length key)) XOR of_nat nn];
          d = (if key = [] then [] else key @ replicate (bb - length key) 0) @ msg
      in take nn (concat (map bytes (rfc_blocks bb F h 0 d))))"

definition blake2b_F :: "u64 list \<Rightarrow> byte list \<Rightarrow> nat \<Rightarrow> bool \<Rightarrow> u64 list" where
  "blake2b_F h b = rfc_F 12 (32, 24, 16, 63) blake2b_iv h (map (\<lambda>i. load64_le (drop (i * 8) b)) [0..<16])"

definition blake2s_F :: "u32 list \<Rightarrow> byte list \<Rightarrow> nat \<Rightarrow> bool \<Rightarrow> u32 list" where
  "blake2s_F h b = rfc_F 10 (16, 12, 8, 7) blake2s_iv h (map (\<lambda>i. load32_le (drop (i * 4) b)) [0..<16])"

definition rfc_blake2b :: "byte list \<Rightarrow> nat \<Rightarrow> byte list \<Rightarrow> byte list" where
  "rfc_blake2b = rfc_blake2 128 blake2b_F blake2b_iv le64"

definition rfc_blake2s :: "byte list \<Rightarrow> nat \<Rightarrow> byte list \<Rightarrow> byte list" where
  "rfc_blake2s = rfc_blake2 64 blake2s_F blake2s_iv store32_le"

section \<open>The compression function\<close>

lemma shifts_rotr:
  fixes v :: "'a::len word"
  assumes "r < LENGTH('a)"
  shows "drop_bit r v OR push_bit ((LENGTH('a) - r) mod LENGTH('a)) v = word_rotr r v"
proof (cases "r = 0")
  case False
  define m where "m = LENGTH('a) - r"
  have m: "m < LENGTH('a)" "(LENGTH('a) - r) mod LENGTH('a) = m" "(LENGTH('a) - m) mod LENGTH('a) = r"
    using False assms by (simp_all add: m_def)
  show ?thesis using shifts_rotl [OF m(1), of v] rotl_rotr [of r v] assms unfolding m(2,3) by (simp add: m_def or.commute)
next
  case True
  then show ?thesis by (intro bit_word_eqI) (simp add: bit_simps)
qed

lemma rotr_word: "r < 64 \<Longrightarrow> rotr64 v r = word_rotr r v" "q < 32 \<Longrightarrow> rotr32 w q = word_rotr q w"
  using shifts_rotr [of r v] shifts_rotr [of q w] by (simp_all add: rotr64_def rotr32_def)

lemma sigma_rows: "r < 12 \<Longrightarrow> blake2b_sigma ! r = rfc_sigma ! (r mod 10)" "blake2s_sigma = rfc_sigma"
proof -
  have "\<forall>r \<in> set [0..<12]. blake2b_sigma ! r = rfc_sigma ! (r mod 10)" by code_simp
  then show "r < 12 \<Longrightarrow> blake2b_sigma ! r = rfc_sigma ! (r mod 10)" by simp
qed (simp add: blake2s_sigma_def rfc_sigma_def)

lemma mix_updates:
  assumes "distinct [a, b, c, d]" "{a, b, c, d} \<subseteq> {..<length v}"
  shows "v[a := p, d := q, c := r, b := s, a := p', d := q', c := r', b := s'] = v[a := p', b := s', c := r', d := q']"
  using assms by (intro nth_equalityI) (simp_all add: nth_list_update)

lemma blake2b_g_rfc:
  assumes "distinct [a, b, c, d]" "{a, b, c, d} \<subseteq> {..<length v}" "r < 12"
  shows "blake2b_g m r i a b c d v =
    rfc_mix (32, 24, 16, 63) (a, b, c, d) (m ! (rfc_sigma ! (r mod 10) ! (2 * i)), m ! (rfc_sigma ! (r mod 10) ! (2 * i + 1))) v"
  using assms by (simp add: blake2b_g_def rfc_mix_def rotr_word sigma_rows Let_def mix_updates)

lemma blake2s_g_rfc:
  assumes "distinct [a, b, c, d]" "{a, b, c, d} \<subseteq> {..<length v}" "r < 10"
  shows "blake2s_g m r i a b c d v =
    rfc_mix (16, 12, 8, 7) (a, b, c, d) (m ! (rfc_sigma ! (r mod 10) ! (2 * i)), m ! (rfc_sigma ! (r mod 10) ! (2 * i + 1))) v"
  using assms by (simp add: blake2s_g_def rfc_mix_def rotr_word sigma_rows Let_def mix_updates)

lemma rfc_mix_length [simp]: "length (rfc_mix R q xy v) = length v"
  by (simp add: rfc_mix_def Let_def split: prod.splits)

lemma blake2b_round_rfc: "r < 12 \<Longrightarrow> length v = 16 \<Longrightarrow> blake2b_round m r v = rfc_round (32, 24, 16, 63) m v r"
  by (simp add: blake2b_round_def rfc_round_def Let_def blake2b_g_rfc)

lemma blake2s_round_rfc: "r < 10 \<Longrightarrow> length v = 16 \<Longrightarrow> blake2s_round m r v = rfc_round (16, 12, 8, 7) m v r"
  by (simp add: blake2s_round_def rfc_round_def Let_def blake2s_g_rfc)

lemma rfc_round_length [simp]: "length (rfc_round R m v r) = length v"
  by (simp add: rfc_round_def Let_def)

definition two_words :: "nat \<Rightarrow> 'a::len word \<times> 'a word" where
  "two_words n = (of_nat n, of_nat (n div 2 ^ LENGTH('a)))"

definition final_words :: "bool \<Rightarrow> 'a::len word \<times> 'a word" where
  "final_words f = (if f then - 1 else 0, 0)"

lemma work_vector:
  fixes h iv :: "'a::len word list"
  assumes "length h = 8" "length iv = 8" "t = two_words n" "f = final_words fl"
  shows "map (\<lambda>i. h ! i) [0..<8] @ [iv ! 0, iv ! 1, iv ! 2, iv ! 3, iv ! 4 XOR fst t, iv ! 5 XOR snd t, iv ! 6 XOR fst f, iv ! 7 XOR snd f] =
    (let v = h @ iv; v = v[12 := v ! 12 XOR of_nat n, 13 := v ! 13 XOR of_nat (n div 2 ^ LENGTH('a))]
     in if fl then v[14 := NOT (v ! 14)] else v)"
proof -
  obtain a b c d e f' g k where iv: "iv = [a, b, c, d, e, f', g, k]"
    using assms(2) by (auto simp: numeral_eq_Suc length_Suc_conv)
  have h: "map (\<lambda>i. h ! i) [0..<8] = h" using map_nth [of h] assms(1) by simp
  show ?thesis unfolding h Let_def using assms(1,3,4)
    by (simp add: iv two_words_def final_words_def list_update_append nth_append)
qed

lemma iv_length [simp]: "length blake2b_iv = 8" "length blake2s_iv = 8"
  by (simp_all add: blake2b_iv_def blake2s_iv_def)

lemma twelve_rounds: "[0..<12] = [0, 1, 2, 3, 4, 5, 6, 7, 8, 9, 10, 11]" "[0..<10] = [0, 1, 2, 3, 4, 5, 6, 7, 8, 9]"
  by (simp_all add: upt_rec)

lemma blake2b_compress_F:
  assumes "length (bl_h c) = 8" "bl_t c = two_words n" "bl_f c = final_words fl"
  shows "blake2b_compress c b = c\<lparr>bl_h := blake2b_F (bl_h c) b n fl\<rparr>"
proof -
  define w where "w = (let v = bl_h c @ blake2b_iv; v = v[12 := v ! 12 XOR of_nat n, 13 := v ! 13 XOR of_nat (n div 2 ^ LENGTH(64))]
     in if fl then v[14 := NOT (v ! 14)] else v)"
  have w: "length w = 16" using assms(1) by (simp add: w_def Let_def)
  show ?thesis
    unfolding blake2b_compress_def work_vector [OF assms(1) iv_length(1) assms(2,3)] w_def [symmetric] Let_def
    unfolding blake2b_F_def rfc_F_def Let_def w_def [unfolded Let_def, symmetric] twelve_rounds
    using w by (simp add: blake2b_round_rfc xor.assoc)
qed

lemma blake2s_compress_F:
  assumes "length (bl_h c) = 8" "bl_t c = two_words n" "bl_f c = final_words fl"
  shows "blake2s_compress c b = c\<lparr>bl_h := blake2s_F (bl_h c) b n fl\<rparr>"
proof -
  define w where "w = (let v = bl_h c @ blake2s_iv; v = v[12 := v ! 12 XOR of_nat n, 13 := v ! 13 XOR of_nat (n div 2 ^ LENGTH(32))]
     in if fl then v[14 := NOT (v ! 14)] else v)"
  have w: "length w = 16" using assms(1) by (simp add: w_def Let_def)
  show ?thesis
    unfolding blake2s_compress_def work_vector [OF assms(1) iv_length(2) assms(2,3)] w_def [symmetric] Let_def
    unfolding blake2s_F_def rfc_F_def Let_def w_def [unfolded Let_def, symmetric] twelve_rounds
    using w by (simp add: blake2s_round_rfc xor.assoc)
qed

section \<open>The byte counter\<close>

lemma two_words_add:
  fixes n k :: nat
  assumes "k < 2 ^ LENGTH('a)"
  shows "((fst (two_words n :: 'a::len word \<times> 'a word) + of_nat k),
      if unat (fst (two_words n :: 'a word \<times> 'a word) + of_nat k) < k then snd (two_words n :: 'a word \<times> 'a word) + 1 else snd (two_words n)) =
    (two_words (n + k) :: 'a word \<times> 'a word)"
proof -
  have "unat (of_nat n + of_nat k :: 'a word) = (n + k) mod 2 ^ LENGTH('a)"
    by (simp add: unsigned_of_nat take_bit_eq_mod flip: of_nat_add)
  then show ?thesis using carry_div [OF assms, of n] by (auto simp: two_words_def)
qed

lemma blake2b_count_add:
  assumes "bl_t c = two_words n" "k \<le> 128"
  shows "blake2b_count c k = c\<lparr>bl_t := two_words (n + k)\<rparr>"
proof -
  have "unat (of_nat k :: u64) = k" using assms(2) by (simp add: unsigned_of_nat take_bit_nat_eq_self)
  then show ?thesis
    using two_words_add [where 'a = 64, of k n] assms by (simp add: blake2b_count_def Let_def word_less_nat_alt split: if_splits)
qed

lemma blake2s_count_add:
  assumes "bl_t c = two_words n" "k \<le> 64"
  shows "blake2s_count c k = c\<lparr>bl_t := two_words (n + k)\<rparr>"
proof -
  have "unat (of_nat k :: u64) = k" using assms(2) by (simp add: unsigned_of_nat take_bit_nat_eq_self)
  moreover have "unat (ucast t :: u64) = unat t" for t :: u32
    using unsigned_less [of t, where 'a = nat] by (simp add: unsigned_ucast_eq take_bit_nat_eq_self)
  ultimately show ?thesis
    using two_words_add [where 'a = 32, of k n] assms by (simp add: blake2s_count_def Let_def word_less_nat_alt split: if_splits)
qed

section \<open>Feeding a context\<close>

text \<open>
  What the two variants share: F on blocks of \<open>blk\<close> bytes, and a context that keeps back its last block.  The
  context after feeding \<open>m\<close> stands for the rest of the computation: whatever follows, the specification on
  the whole message is the specification on the pending bytes and what follows, from the state and the counter reached.
\<close>

locale lazy_feed =
  fixes blk :: nat
    and F :: "'a::len word list \<Rightarrow> byte list \<Rightarrow> nat \<Rightarrow> bool \<Rightarrow> 'a word list"
    and compress :: "'a word blake2_ctx \<Rightarrow> byte list \<Rightarrow> 'a word blake2_ctx"
    and count :: "'a word blake2_ctx \<Rightarrow> nat \<Rightarrow> 'a word blake2_ctx"
    and blocks :: "'a word blake2_ctx \<Rightarrow> byte list \<Rightarrow> 'a word blake2_ctx \<times> byte list"
    and update :: "'a word blake2_ctx \<Rightarrow> byte list \<Rightarrow> 'a word blake2_ctx"
    and last_state :: "'a word blake2_ctx \<Rightarrow> 'a word list"
  assumes blk_pos: "0 < blk"
    and F_length: "length (F h b n fl) = 8"
    and compress: "length (bl_h c) = 8 \<Longrightarrow> bl_t c = two_words n \<Longrightarrow> bl_f c = final_words fl \<Longrightarrow>
      compress c b = c\<lparr>bl_h := F (bl_h c) b n fl\<rparr>"
    and count: "bl_t c = two_words n \<Longrightarrow> k \<le> blk \<Longrightarrow> count c k = c\<lparr>bl_t := two_words (n + k)\<rparr>"
    and blocks: "blocks c p = (if length p > blk then blocks (compress (count c blk) (take blk p)) (drop blk p) else (c, p))"
    and update: "update c p =
     (if length p > 0 then
        let left = bl_buflen c; fill = blk - left;
            (c, p) =
              (if length p > fill then
                 let c = c\<lparr>bl_buflen := 0, bl_buf := take left (bl_buf c) @ take fill p\<rparr>;
                     c = count c blk;
                     c = compress c (bl_buf c)
                 in blocks c (drop fill p)
               else (c, p))
        in c\<lparr>bl_buf := take (bl_buflen c) (bl_buf c) @ p @ drop (bl_buflen c + length p) (bl_buf c),
             bl_buflen := bl_buflen c + length p\<rparr>
      else c)"
    and last_state: "last_state c =
      (let c = count c (bl_buflen c);
           c = c\<lparr>bl_f := (- 1, snd (bl_f c)), bl_buf := take (bl_buflen c) (bl_buf c) @ replicate (blk - bl_buflen c) 0\<rparr>
       in bl_h (compress c (bl_buf c)))"
begin

definition fed :: "nat \<Rightarrow> 'a word list \<Rightarrow> byte list \<Rightarrow> 'a word blake2_ctx \<Rightarrow> bool" where
  "fed k h m c \<longleftrightarrow> length (bl_h c) = 8 \<and> bl_outlen c = k \<and> bl_f c = final_words False \<and> length (bl_buf c) = blk \<and> bl_buflen c \<le> blk \<and>
     (\<exists>n. bl_t c = two_words n \<and>
       (\<forall>x. rfc_blocks blk F h 0 (m @ x) = rfc_blocks blk F (bl_h c) n (take (bl_buflen c) (bl_buf c) @ x)))"

lemma blocks_step:
  "length p = blk \<Longrightarrow> q \<noteq> [] \<Longrightarrow> rfc_blocks blk F h n (p @ q) = rfc_blocks blk F (F h p (n + blk) False) (n + blk) q"
  by (subst rfc_blocks.simps) (use blk_pos in auto)

lemma blocks_fed:
  assumes "length (bl_h c) = 8" "bl_t c = two_words n" "bl_f c = final_words False" "p \<noteq> []"
  shows "\<exists>c' p' n'. blocks c p = (c', p') \<and> c' = c\<lparr>bl_h := bl_h c', bl_t := two_words n'\<rparr> \<and> length (bl_h c') = 8 \<and>
    length p' \<le> blk \<and> p' \<noteq> [] \<and> (\<forall>x. rfc_blocks blk F (bl_h c) n (p @ x) = rfc_blocks blk F (bl_h c') n' (p' @ x))"
  using assms
proof (induction p arbitrary: c n rule: length_induct)
  case (1 p)
  show ?case
  proof (cases "length p > blk")
    case True
    define h where "h = F (bl_h c) (take blk p) (n + blk) False"
    define c1 where "c1 = c\<lparr>bl_h := h, bl_t := two_words (n + blk)\<rparr>"
    have "compress (count c blk) (take blk p) = c1"
      using 1 compress [of "c\<lparr>bl_t := two_words (n + blk)\<rparr>" "n + blk" False] count [of c n blk] by (simp add: c1_def h_def)
    then have b: "blocks c p = blocks c1 (drop blk p)" using True by (subst blocks) simp
    have s: "rfc_blocks blk F (bl_h c) n (p @ x) = rfc_blocks blk F h (n + blk) (drop blk p @ x)" for x
      using blocks_step [of "take blk p" "drop blk p @ x" "bl_h c" n] True
      by (simp add: h_def) (metis append.assoc append_take_drop_id)
    have "length (drop blk p) < length p" "drop blk p \<noteq> []" using True blk_pos by simp_all
    moreover have "length (bl_h c1) = 8" "bl_t c1 = two_words (n + blk)" "bl_f c1 = final_words False" "bl_h c1 = h"
      using 1 by (simp_all add: c1_def h_def F_length)
    ultimately obtain c' p' n' where "blocks c1 (drop blk p) = (c', p')" "c' = c1\<lparr>bl_h := bl_h c', bl_t := two_words n'\<rparr>"
      "length (bl_h c') = 8" "length p' \<le> blk" "p' \<noteq> []"
      "\<forall>x. rfc_blocks blk F h (n + blk) (drop blk p @ x) = rfc_blocks blk F (bl_h c') n' (p' @ x)"
      using 1(1) by metis
    then show ?thesis using b s by (intro exI [of _ c'] exI [of _ p'] exI [of _ n']) (simp add: c1_def)
  next
    case False
    then have "blocks c p = (c, p)" by (subst blocks) simp
    then show ?thesis using 1 False by (intro exI [of _ c] exI [of _ p] exI [of _ n]) simp
  qed
qed

lemma fed_update:
  assumes "fed k h m c"
  shows "fed k h (m @ p) (update c p)"
proof -
  obtain n where c: "length (bl_h c) = 8" "bl_f c = final_words False" "length (bl_buf c) = blk" "bl_buflen c \<le> blk"
    "bl_t c = two_words n" "bl_outlen c = k" "\<And>x. rfc_blocks blk F h 0 (m @ x) = rfc_blocks blk F (bl_h c) n (take (bl_buflen c) (bl_buf c) @ x)"
    using assms unfolding fed_def by blast
  define fill where "fill = blk - bl_buflen c"
  consider "p = []" | "p \<noteq> []" "length p \<le> fill" | "length p > fill" by fastforce
  then show ?thesis
  proof cases
    case 1
    then show ?thesis using assms by (simp add: update)
  next
    case 2
    then show ?thesis unfolding fed_def using c
      by (intro conjI exI [of _ n]) (simp_all add: update Let_def fill_def)
  next
    case 3
    define b where "b = take (bl_buflen c) (bl_buf c) @ take fill p"
    define c1 where "c1 = c\<lparr>bl_buflen := 0, bl_buf := b, bl_t := two_words (n + blk), bl_h := F (bl_h c) b (n + blk) False\<rparr>"
    have b: "length b = blk" using c 3 by (simp add: b_def fill_def)
    have "count (c\<lparr>bl_buflen := 0, bl_buf := b\<rparr>) blk = c\<lparr>bl_buflen := 0, bl_buf := b, bl_t := two_words (n + blk)\<rparr>"
      using c count [of "c\<lparr>bl_buflen := 0, bl_buf := b\<rparr>" n blk] by simp
    then have c1: "compress (count (c\<lparr>bl_buflen := 0, bl_buf := b\<rparr>) blk) (bl_buf (count (c\<lparr>bl_buflen := 0, bl_buf := b\<rparr>) blk)) = c1"
      using c compress [of "c\<lparr>bl_buflen := 0, bl_buf := b, bl_t := two_words (n + blk)\<rparr>" "n + blk" False] by (simp add: c1_def)
    have ne: "drop fill p \<noteq> []" using 3 by simp
    obtain c2 p2 n2 where c2: "blocks c1 (drop fill p) = (c2, p2)" "c2 = c1\<lparr>bl_h := bl_h c2, bl_t := two_words n2\<rparr>"
        "length (bl_h c2) = 8" "length p2 \<le> blk"
        "\<And>x. rfc_blocks blk F (bl_h c1) (n + blk) (drop fill p @ x) = rfc_blocks blk F (bl_h c2) n2 (p2 @ x)"
      using blocks_fed [of c1 "n + blk", OF _ _ _ ne] c F_length by (auto simp: c1_def)
    have f: "bl_buflen c2 = 0" "bl_buf c2 = b" "bl_t c2 = two_words n2" "bl_f c2 = final_words False" "bl_outlen c2 = k"
      using c by (subst c2(2), simp add: c1_def)+
    have u: "update c p = c2\<lparr>bl_buf := p2 @ drop (length p2) b, bl_buflen := length p2\<rparr>"
      using 3 c1 c2(1) f by (auto simp: update Let_def fill_def b_def)
    have "rfc_blocks blk F h 0 ((m @ p) @ x) = rfc_blocks blk F (bl_h c2) n2 (p2 @ x)" for x
    proof -
      have "rfc_blocks blk F h 0 ((m @ p) @ x) = rfc_blocks blk F (bl_h c) n (b @ (drop fill p @ x))"
        using c(7) [of "p @ x"] by (simp add: b_def) (metis append.assoc append_take_drop_id)
      also have "\<dots> = rfc_blocks blk F (bl_h c1) (n + blk) (drop fill p @ x)"
        using blocks_step [of b "drop fill p @ x"] b ne by (simp add: c1_def)
      finally show ?thesis using c2(5) by simp
    qed
    then show ?thesis unfolding fed_def u using c2(3,4) f b by (intro conjI exI [of _ n2]) simp_all
  qed
qed

lemma fed_parts: "fed k h m c \<Longrightarrow> fed k h (m @ concat ps) (foldl update c ps)"
proof (induction ps arbitrary: m c)
  case (Cons p ps)
  then show ?case using fed_update [of k h m c p] Cons.IH [of "m @ p" "update c p"] by simp
qed simp

lemma fed_init: "length (bl_h c) = 8 \<Longrightarrow> bl_t c = (0, 0) \<Longrightarrow> bl_f c = (0, 0) \<Longrightarrow> length (bl_buf c) = blk \<Longrightarrow> bl_buflen c = 0 \<Longrightarrow>
    fed (bl_outlen c) (bl_h c) [] c"
  unfolding fed_def by (intro conjI exI [of _ 0]) (simp_all add: two_words_def final_words_def)

lemma fed_last:
  assumes "fed k h m c"
  shows "last_state c = rfc_blocks blk F h 0 m"
proof -
  obtain n where c: "length (bl_h c) = 8" "bl_f c = final_words False" "length (bl_buf c) = blk" "bl_buflen c \<le> blk"
    "bl_t c = two_words n" "bl_outlen c = k" "\<And>x. rfc_blocks blk F h 0 (m @ x) = rfc_blocks blk F (bl_h c) n (take (bl_buflen c) (bl_buf c) @ x)"
    using assms unfolding fed_def by blast
  define b where "b = take (bl_buflen c) (bl_buf c)"
  have b: "length b = bl_buflen c" using c by (simp add: b_def)
  have f: "(- 1, snd (bl_f c)) = final_words True" using c by (simp add: final_words_def)
  have "last_state c = F (bl_h c) (b @ replicate (blk - length b) 0) (n + length b) True"
    unfolding last_state f b b_def [symmetric] count [OF c(5,4)] Let_def using c(1)
    by (subst compress [where n = "n + bl_buflen c" and fl = True]) (simp_all add: f [simplified] b b_def)
  also have "\<dots> = rfc_blocks blk F (bl_h c) n b" using b c(4) by (subst rfc_blocks.simps) simp
  finally show ?thesis using c(7) [of "[]"] by (simp add: b_def)
qed

end

definition blake2b_last :: "u64 blake2_ctx \<Rightarrow> u64 list" where
  "blake2b_last ctx =
     (let ctx = blake2b_count ctx (bl_buflen ctx);
          ctx = ctx\<lparr>bl_f := (- 1, snd (bl_f ctx)),
                    bl_buf := take (bl_buflen ctx) (bl_buf ctx) @ replicate (128 - bl_buflen ctx) 0\<rparr>
      in bl_h (blake2b_compress ctx (bl_buf ctx)))"

definition blake2s_last :: "u32 blake2_ctx \<Rightarrow> u32 list" where
  "blake2s_last ctx =
     (let ctx = blake2s_count ctx (bl_buflen ctx);
          ctx = ctx\<lparr>bl_f := (- 1, snd (bl_f ctx)),
                    bl_buf := take (bl_buflen ctx) (bl_buf ctx) @ replicate (64 - bl_buflen ctx) 0\<rparr>
      in bl_h (blake2s_compress ctx (bl_buf ctx)))"

lemma F_lengths: "length (blake2b_F h b n fl) = 8" "length (blake2s_F g b n fl) = 8"
  by (simp_all add: blake2b_F_def blake2s_F_def rfc_F_def Let_def)

interpretation b2b: lazy_feed 128 blake2b_F blake2b_compress blake2b_count blake2b_blocks blake2b_update blake2b_last
  by unfold_locales (simp_all only: F_lengths blake2b_compress_F blake2b_count_add blake2b_blocks.simps [symmetric]
    blake2b_update_def blake2b_last_def)

interpretation b2s: lazy_feed 64 blake2s_F blake2s_compress blake2s_count blake2s_blocks blake2s_update blake2s_last
  by unfold_locales (simp_all only: F_lengths blake2s_compress_F blake2s_count_add blake2s_blocks.simps [symmetric]
    blake2s_update_def blake2s_last_def)

section \<open>The digest\<close>

lemma concat_bytes:
  assumes "\<And>w. length (bytes w) = k" "i < length h * k"
  shows "concat (map bytes h) ! i = bytes (h ! (i div k)) ! (i mod k)"
  using assms concat_nth [of "\<lambda>j. bytes (h ! j)" k i "length h"] map_nth [of h] by (metis map_map comp_def map_cong)

lemma digest_take:
  assumes "\<And>w. length (bytes w) = k" "n \<le> length h * k" "\<And>w j. j < k \<Longrightarrow> bytes w ! j = byte_of w j"
  shows "map (\<lambda>i. byte_of (h ! (i div k)) (i mod k)) [0..<n] = take n (concat (map bytes h))"
proof (rule nth_equalityI)
  have l: "length (concat (map bytes h)) = length h * k" using assms(1) by (simp add: length_concat comp_def sum_list_triv)
  show "length (map (\<lambda>i. byte_of (h ! (i div k)) (i mod k)) [0..<n]) = length (take n (concat (map bytes h)))"
    using l assms(2) by simp
  fix i assume "i < length (map (\<lambda>i. byte_of (h ! (i div k)) (i mod k)) [0..<n])"
  then have i: "i < n" "i < length h * k" using assms(2) by simp_all
  then have "i mod k < k" by (cases "k = 0") simp_all
  then show "map (\<lambda>i. byte_of (h ! (i div k)) (i mod k)) [0..<n] ! i = take n (concat (map bytes h)) ! i"
    using i concat_bytes [OF assms(1), where h = h] assms(3) by simp
qed

lemma byte_mask: "ucast (w AND 0xFF) = (ucast w :: byte)" for w :: "'a::len word"
proof -
  have m: "(0xFF :: 'a word) = mask 8" by (simp add: mask_eq_exp_minus_1)
  show ?thesis unfolding m by (intro bit_word_eqI) (auto simp: bit_simps dest: bit_imp_le_length)
qed

lemma store_nth:
  "j < 4 \<Longrightarrow> store32_le v ! j = ucast (drop_bit (8 * j) v AND 0xFF)"
  "j < 8 \<Longrightarrow> le64 w ! j = ucast (drop_bit (8 * j) w AND 0xFF)"
proof -
  show 4: "store32_le v ! j = ucast (drop_bit (8 * j) v AND 0xFF)" if "j < 4" for v and j :: nat
  proof -
    have "j \<in> {0, 1, 2, 3}" using that by auto
    then show ?thesis unfolding byte_mask by (auto simp: store32_le_def)
  qed
  show "le64 w ! j = ucast (drop_bit (8 * j) w AND 0xFF)" if "j < 8"
  proof (cases "j < 4")
    case True
    then show ?thesis unfolding byte_mask using 4 [of j "ucast w", unfolded byte_mask]
      by (simp add: le64_def nth_append) (rule bit_word_eqI, auto simp: bit_simps)
  next
    case False
    then have "8 * j = 8 * (j - 4) + 32" "j - 4 < 4" using that by auto
    then show ?thesis unfolding byte_mask using False 4 [of "j - 4" "ucast (drop_bit 32 w)", unfolded byte_mask]
      by (simp add: le64_def nth_append) (rule bit_word_eqI, auto simp: bit_simps ac_simps)
  qed
qed

lemma count_compress_outlen:
  "bl_outlen (blake2b_compress c b) = bl_outlen c" "bl_outlen (blake2b_count c n) = bl_outlen c"
  "bl_outlen (blake2s_compress d b) = bl_outlen d" "bl_outlen (blake2s_count d n) = bl_outlen d"
  by (simp_all add: blake2b_compress_def blake2b_count_def blake2s_compress_def blake2s_count_def Let_def)

lemma final_digest:
  "length (blake2b_last c) = 8 \<Longrightarrow> bl_outlen c \<le> 64 \<Longrightarrow>
    snd (blake2b_final c) = take (bl_outlen c) (concat (map le64 (blake2b_last c)))"
  "length (blake2s_last d) = 8 \<Longrightarrow> bl_outlen d \<le> 32 \<Longrightarrow>
    snd (blake2s_final d) = take (bl_outlen d) (concat (map store32_le (blake2s_last d)))"
  using digest_take [of le64 8 "bl_outlen c" "blake2b_last c", OF _ _ store_nth(2)]
    digest_take [of store32_le 4 "bl_outlen d" "blake2s_last d", OF _ _ store_nth(1)]
  by (simp_all add: blake2b_final_def blake2b_last_def blake2s_final_def blake2s_last_def Let_def count_compress_outlen)

section \<open>Initialization\<close>

definition key_bytes :: "byte list option \<Rightarrow> nat \<Rightarrow> byte list" where
  "key_bytes key keylen = (if keylen = 0 then [] else take keylen (the key))"

definition param_word :: "nat \<Rightarrow> nat \<Rightarrow> 'a::len word list \<Rightarrow> 'a word list" where
  "param_word kk nn iv = iv[0 := iv ! 0 XOR 0x01010000 XOR push_bit 8 (of_nat kk) XOR of_nat nn]"

lemma param_words:
  "(map (\<lambda>i. blake2b_iv ! i) [0..<8])[0 := map (\<lambda>i. blake2b_iv ! i) [0..<8] ! 0 XOR
     (0x01010000 XOR push_bit 8 (of_nat kk) XOR of_nat nn)] = param_word kk nn blake2b_iv"
  "(map (\<lambda>i. blake2s_iv ! i) [0..<8])[0 := ucast (ucast (map (\<lambda>i. blake2s_iv ! i) [0..<8] ! 0) XOR
     (0x01010000 XOR push_bit 8 (of_nat kk) XOR of_nat nn :: u64))] = param_word kk nn blake2s_iv"
proof -
  have m: "map (\<lambda>i. blake2b_iv ! i) [0..<8] = blake2b_iv" "map (\<lambda>i. blake2s_iv ! i) [0..<8] = blake2s_iv"
    using map_nth [of blake2b_iv] map_nth [of blake2s_iv] by simp_all
  have "ucast (ucast a XOR (0x01010000 XOR push_bit 8 (of_nat kk) XOR of_nat nn :: u64)) =
      a XOR 0x01010000 XOR push_bit 8 (of_nat kk) XOR of_nat nn" for a :: u32
    by (rule bit_word_eqI) (auto simp: bit_simps)
  then show "(map (\<lambda>i. blake2s_iv ! i) [0..<8])[0 := ucast (ucast (map (\<lambda>i. blake2s_iv ! i) [0..<8] ! 0) XOR
     (0x01010000 XOR push_bit 8 (of_nat kk) XOR of_nat nn :: u64))] = param_word kk nn blake2s_iv"
    unfolding m param_word_def by simp
  show "(map (\<lambda>i. blake2b_iv ! i) [0..<8])[0 := map (\<lambda>i. blake2b_iv ! i) [0..<8] ! 0 XOR
     (0x01010000 XOR push_bit 8 (of_nat kk) XOR of_nat nn)] = param_word kk nn blake2b_iv"
    unfolding m param_word_def by (simp add: xor.assoc)
qed

definition key_block :: "nat \<Rightarrow> byte list \<Rightarrow> byte list" where
  "key_block bb key = (if key = [] then [] else key @ replicate (bb - length key) 0)"

lemma blake2b_init_fed:
  assumes "length (bl_buf c0) = 128" "0 < nn" "nn \<le> 64" "kl \<le> 64" "kl = 0 \<or> (\<exists>k. kp = Some k \<and> kl \<le> length k)"
  shows "\<exists>c. blake2b_init c0 nn kp kl = Some c \<and>
    b2b.fed nn (param_word kl nn blake2b_iv) (key_block 128 (key_bytes kp kl)) c"
proof -
  define c1 where "c1 = c0\<lparr>bl_h := param_word kl nn blake2b_iv, bl_t := (0, 0), bl_f := (0, 0), bl_buflen := 0, bl_outlen := nn\<rparr>"
  have "b2b.fed nn (param_word kl nn blake2b_iv) [] c1"
    using b2b.fed_init [of c1] assms(1) by (simp add: c1_def param_word_def)
  moreover from b2b.fed_update [OF this, of "key_block 128 (key_bytes kp kl)"]
  have "b2b.fed nn (param_word kl nn blake2b_iv) (key_block 128 (key_bytes kp kl)) (blake2b_update c1 (key_block 128 (key_bytes kp kl)))" by simp
  moreover have "blake2b_init c0 nn kp kl = Some (if kl > 0 then blake2b_update c1 (key_block 128 (key_bytes kp kl)) else c1)"
    unfolding blake2b_init_def param_words Let_def c1_def using assms by (auto simp: key_block_def key_bytes_def)
  ultimately show ?thesis by (auto simp: key_block_def key_bytes_def)
qed

lemma blake2s_init_fed:
  assumes "length (bl_buf c0) = 64" "0 < nn" "nn \<le> 32" "kl \<le> 32" "kl = 0 \<or> (\<exists>k. kp = Some k \<and> kl \<le> length k)"
  shows "\<exists>c. blake2s_init c0 nn kp kl = Some c \<and>
    b2s.fed nn (param_word kl nn blake2s_iv) (key_block 64 (key_bytes kp kl)) c"
proof -
  define c1 where "c1 = c0\<lparr>bl_h := param_word kl nn blake2s_iv, bl_t := (0, 0), bl_f := (0, 0), bl_buflen := 0, bl_outlen := nn\<rparr>"
  have "b2s.fed nn (param_word kl nn blake2s_iv) [] c1"
    using b2s.fed_init [of c1] assms(1) by (simp add: c1_def param_word_def)
  moreover from b2s.fed_update [OF this, of "key_block 64 (key_bytes kp kl)"]
  have "b2s.fed nn (param_word kl nn blake2s_iv) (key_block 64 (key_bytes kp kl)) (blake2s_update c1 (key_block 64 (key_bytes kp kl)))" by simp
  moreover have "blake2s_init c0 nn kp kl = Some (if kl > 0 then blake2s_update c1 (key_block 64 (key_bytes kp kl)) else c1)"
    unfolding blake2s_init_def param_words Let_def c1_def using assms by (auto simp: key_block_def key_bytes_def)
  ultimately show ?thesis by (auto simp: key_block_def key_bytes_def)
qed

lemma rfc_blocks_length:
  "length (rfc_blocks 128 blake2b_F h n d) = 8" "length (rfc_blocks 64 blake2s_F g n d) = 8"
proof -
  have "\<forall>h b n fl. length (F h b n fl) = 8 \<Longrightarrow> length (rfc_blocks bb F h n d) = 8" for bb and F :: "'b list \<Rightarrow> byte list \<Rightarrow> nat \<Rightarrow> bool \<Rightarrow> 'b list" and h n d
    by (induction bb F h n d rule: rfc_blocks.induct) (subst rfc_blocks.simps, simp)
  then show "length (rfc_blocks 128 blake2b_F h n d) = 8" "length (rfc_blocks 64 blake2s_F g n d) = 8"
    using F_lengths by blast+
qed

lemma blake2b_fed_digest:
  assumes "b2b.fed nn (param_word (length key) nn blake2b_iv) (key_block 128 key @ m) c" "nn \<le> 64"
  shows "snd (blake2b_final c) = rfc_blake2b key nn m"
  using b2b.fed_last [OF assms(1)] assms rfc_blocks_length(1) final_digest(1) [of c]
  by (simp add: rfc_blake2b_def rfc_blake2_def param_word_def key_block_def b2b.fed_def Let_def)

lemma blake2s_fed_digest:
  assumes "b2s.fed nn (param_word (length key) nn blake2s_iv) (key_block 64 key @ m) c" "nn \<le> 32"
  shows "snd (blake2s_final c) = rfc_blake2s key nn m"
  using b2s.fed_last [OF assms(1)] assms rfc_blocks_length(2) final_digest(2) [of c]
  by (simp add: rfc_blake2s_def rfc_blake2_def param_word_def key_block_def b2s.fed_def Let_def)

lemma key_bytes_length: "kl = 0 \<or> (\<exists>k. kp = Some k \<and> kl \<le> length k) \<Longrightarrow> length (key_bytes kp kl) = kl"
  by (auto simp: key_bytes_def)

text \<open>
  C16: a BLAKE2b context, initialized with any admissible output length and key and fed a message in any pieces, yields
  the digest of RFC 7693 of the whole message, whatever the context held before.
\<close>

theorem blake2b_correct:
  assumes "length (bl_buf c0) = 128" "0 < nn" "nn \<le> 64" "kl \<le> 64" "kl = 0 \<or> (\<exists>k. kp = Some k \<and> kl \<le> length k)"
  shows "\<exists>c. blake2b_init c0 nn kp kl = Some c \<and>
    snd (blake2b_final (foldl blake2b_update c parts)) = rfc_blake2b (key_bytes kp kl) nn (concat parts)"
  using blake2b_init_fed [OF assms] b2b.fed_parts blake2b_fed_digest [OF _ assms(3)] key_bytes_length [OF assms(5)] by metis

theorem blake2b_correct_witness:
  "length (bl_buf blake2b_zero) = 128 \<and>
   (\<exists>c. blake2b_init blake2b_zero 32 (Some [1, 2, 3]) 3 = Some c \<and>
    snd (blake2b_final (foldl blake2b_update c [[4], [], [5, 6]])) = rfc_blake2b [1, 2, 3] 32 [4, 5, 6])"
  using blake2b_correct [of blake2b_zero 32 3 "Some [1, 2, 3]" "[[4], [], [5, 6]]"] by (simp add: blake2b_zero_def key_bytes_def)

text \<open>
  A BLAKE2s context, initialized with any admissible output length and key and fed a message in any pieces, yields
  the digest of RFC 7693 of the whole message, although its byte counter is kept in two 32-bit words.
\<close>

theorem blake2s_correct:
  assumes "length (bl_buf c0) = 64" "0 < nn" "nn \<le> 32" "kl \<le> 32" "kl = 0 \<or> (\<exists>k. kp = Some k \<and> kl \<le> length k)"
  shows "\<exists>c. blake2s_init c0 nn kp kl = Some c \<and>
    snd (blake2s_final (foldl blake2s_update c parts)) = rfc_blake2s (key_bytes kp kl) nn (concat parts)"
  using blake2s_init_fed [OF assms] b2s.fed_parts blake2s_fed_digest [OF _ assms(3)] key_bytes_length [OF assms(5)] by metis

theorem blake2s_correct_witness:
  "length (bl_buf blake2s_zero) = 64 \<and>
   (\<exists>c. blake2s_init blake2s_zero 32 None 0 = Some c \<and>
    snd (blake2s_final (foldl blake2s_update c [[4], [], [5, 6]])) = rfc_blake2s [] 32 [4, 5, 6])"
  using blake2s_correct [of blake2s_zero 32 0 None "[[4], [], [5, 6]]"] by (simp add: blake2s_zero_def key_bytes_def)

text \<open>The one-shot functions: an error on inadmissible lengths and on a missing key, the digest otherwise.\<close>

theorem blake2b_one_shot:
  assumes "length (bl_buf c0) = 128" "\<forall>k. kp = Some k \<longrightarrow> kl \<le> length k"
  shows "blake2b c0 nn m kp kl =
    (if nn = 0 \<or> nn > 64 \<or> kl > 64 \<or> kl > 0 \<and> kp = None then None else Some (rfc_blake2b (key_bytes kp kl) nn m))"
proof (cases "nn = 0 \<or> nn > 64 \<or> kl > 64 \<or> kl > 0 \<and> kp = None")
  case True
  then show ?thesis by (auto simp: blake2b_def blake2b_init_def)
next
  case False
  then have k: "0 < nn" "nn \<le> 64" "kl \<le> 64" "kl = 0 \<or> (\<exists>k. kp = Some k \<and> kl \<le> length k)" using assms(2) by auto
  obtain c where "blake2b_init c0 nn kp kl = Some c" "b2b.fed nn (param_word kl nn blake2b_iv) (key_block 128 (key_bytes kp kl)) c"
    using blake2b_init_fed [OF assms(1) k] by blast
  then show ?thesis using False k(2) key_bytes_length [OF k(4)] b2b.fed_update [of nn _ _ c m]
    by (auto simp: blake2b_def intro!: blake2b_fed_digest)
qed

theorem blake2s_one_shot:
  assumes "length (bl_buf c0) = 64" "\<forall>k. kp = Some k \<longrightarrow> kl \<le> length k"
  shows "blake2s c0 nn m kp kl =
    (if nn = 0 \<or> nn > 32 \<or> kl > 32 \<or> kl > 0 \<and> kp = None then None else Some (rfc_blake2s (key_bytes kp kl) nn m))"
proof (cases "nn = 0 \<or> nn > 32 \<or> kl > 32 \<or> kl > 0 \<and> kp = None")
  case True
  then show ?thesis by (auto simp: blake2s_def blake2s_init_def)
next
  case False
  then have k: "0 < nn" "nn \<le> 32" "kl \<le> 32" "kl = 0 \<or> (\<exists>k. kp = Some k \<and> kl \<le> length k)" using assms(2) by auto
  obtain c where "blake2s_init c0 nn kp kl = Some c" "b2s.fed nn (param_word kl nn blake2s_iv) (key_block 64 (key_bytes kp kl)) c"
    using blake2s_init_fed [OF assms(1) k] by blast
  then show ?thesis using False k(2) key_bytes_length [OF k(4)] b2s.fed_update [of nn _ _ c m]
    by (auto simp: blake2s_def intro!: blake2s_fed_digest)
qed

end
