(* ===== verification/Route.thy ===== *)
theory Route
  imports Stdbit "HOL-Library.Monad_Syntax"
begin

text \<open>
  The router of \<^verbatim>\<open>include/transit/route.h\<close>: pattern matching, the linked list of routes, dispatch.

  Paths and patterns are byte lists, the terminating NUL implied; reading \<^verbatim>\<open>*p\<close> at the end gives 0.  A result \<open>None\<close> is
  undefined behaviour: a read behind the terminator, an index outside the 256-bit set, an \<^verbatim>\<open>int\<close> overflow.
\<close>

unbundle bit_operations_syntax

section \<open>Character classes\<close>

definition chr0 :: "byte list \<Rightarrow> byte" where
  "chr0 p = (case p of [] \<Rightarrow> 0 | x # _ \<Rightarrow> x)"

text \<open>
  \<^verbatim>\<open>BITON(cset, *p)\<close>: the macro declares its own \<^verbatim>\<open>p\<close>, a pointer to the set, so the bit it names is the value of the
  set's first byte and not the character of the pattern.
\<close>

definition cset_char :: "bool \<Rightarrow> byte list \<Rightarrow> byte list" where
  "cset_char neg cset = (if neg then BITOFF cset (unat (cset ! 0)) else BITON cset (unat (cset ! 0)))"

definition cset_range :: "bool \<Rightarrow> int \<Rightarrow> int \<Rightarrow> byte list \<Rightarrow> byte list option" where
  "cset_range neg a b cset =
     (if a \<le> b \<and> a < 0 then None
      else Some (fold (\<lambda>c s. if neg then BITOFF s (nat c) else BITON s (nat c)) [a..b] cset))"

text \<open>The rest of the pattern (at the bracket, or empty) and the set.\<close>

fun scan_class :: "bool \<Rightarrow> byte list \<Rightarrow> byte list \<Rightarrow> (byte list \<times> byte list) option" where
  "scan_class neg p cset =
     (if p = [] \<or> chr0 p = 93 then Some (p, cset)
      else if chr0 (drop 1 p) = 45 \<and> chr0 (drop 2 p) \<noteq> 93 then
        (case cset_range neg (sint (chr0 p)) (sint (chr0 (drop 2 p))) cset of
           None \<Rightarrow> None
         | Some cset1 \<Rightarrow> if length p < 3 then None else scan_class neg (drop 3 p) cset1)
      else scan_class neg (drop 1 p) (cset_char neg cset))"

declare scan_class.simps [simp del]

fun scan_num :: "int \<Rightarrow> byte list \<Rightarrow> (int \<times> byte list) option" where
  "scan_num n [] = Some (n, [])"
| "scan_num n (x # xs) =
     (if 48 \<le> x \<and> x \<le> 57 then
        (if n * 10 + (uint x - 48) > 2147483647 then None else scan_num (n * 10 + (uint x - 48)) xs)
      else Some (n, x # xs))"

text \<open>The quantifier after the bracket: minimum and maximum, or \<open>Some None\<close> when it is malformed.\<close>

definition scan_quant :: "byte list \<Rightarrow> (int \<times> int) option option" where
  "scan_quant p =
     (if chr0 p = 123 then do {
        (mn, p1) \<leftarrow> scan_num 0 (tl p);
        (mx, p2) \<leftarrow> (if chr0 p1 = 44 then scan_num 0 (tl p1) else Some (mn, p1));
        Some (if chr0 p2 = 125 then Some (mn, mx) else None)
      } else Some (Some (1, 2147483647)))"

text \<open>The matching loop: a negative \<^verbatim>\<open>char\<close> indexes before the set.\<close>

fun scan_count :: "byte list \<Rightarrow> byte list \<Rightarrow> int \<Rightarrow> int \<Rightarrow> int option" where
  "scan_count cset [] mx m = Some m"
| "scan_count cset (x # xs) mx m =
     (if sint x < 0 then None
      else if BITCHECK cset (unat x) then (if m + 1 \<ge> mx then Some (m + 1) else scan_count cset xs mx (m + 1))
      else Some m)"

definition route_scan :: "byte list \<Rightarrow> byte list \<Rightarrow> int option" where
  "route_scan h p =
     (if chr0 p \<noteq> 91 then Some (- 1)
      else do {
        let neg = (chr0 (tl p) = 94);
        let (p1, cset) = (if neg then (tl (tl p), replicate 32 255) else (tl p, replicate 32 0));
        (p2, cset2) \<leftarrow> scan_class neg p1 cset;
        (if p2 = [] then Some (- 1)
         else do {
           q \<leftarrow> scan_quant (tl p2);
           (case q of
              None \<Rightarrow> Some (- 1)
            | Some (mn, mx) \<Rightarrow> do { m \<leftarrow> scan_count cset2 h mx 0; Some (if m < mn then - 1 else m) })
         })
      })"

section \<open>Matching\<close>

definition skip_to :: "byte \<Rightarrow> byte list \<Rightarrow> byte list" where
  "skip_to c p = tl (dropWhile (\<lambda>x. x \<noteq> c) p)"

lemma skip_to_length: "p \<noteq> [] \<Longrightarrow> length (skip_to c p) < length p"
  unfolding skip_to_def using length_dropWhile_le [of "\<lambda>x. x \<noteq> c" p] by (cases p) (auto simp del: dropWhile.simps)

definition skip_class :: "byte list \<Rightarrow> byte list" where
  "skip_class p = (let p1 = skip_to 93 p in if chr0 p1 = 123 then skip_to 125 p1 else p1)"

lemma skip_class_length: "p \<noteq> [] \<Longrightarrow> length (skip_class p) < length p"
proof -
  assume p: "p \<noteq> []"
  then have "length (skip_to 93 p) < length p" by (rule skip_to_length)
  moreover have "skip_to 93 p \<noteq> [] \<Longrightarrow> length (skip_to 125 (skip_to 93 p)) < length (skip_to 93 p)" by (rule skip_to_length)
  ultimately show ?thesis by (auto simp: skip_class_def Let_def chr0_def split: list.splits)
qed

text \<open>The sequence of classes after a wildcard: the rests of path and pattern, \<open>Some None\<close> when it does not match.\<close>

function match_classes :: "byte list \<Rightarrow> byte list \<Rightarrow> (byte list \<times> byte list) option option" where
  "match_classes h p =
     (if chr0 p = 91 then do {
        scan \<leftarrow> route_scan h p;
        (if scan = - 1 then Some None else match_classes (drop (nat scan) h) (skip_class p))
      } else Some (Some (h, p)))"
  by pat_completeness auto
termination
proof (relation "measure (\<lambda>(h, p). length p)", simp)
  fix h p scan
  assume "chr0 p = 91"
  then have "p \<noteq> []" by (auto simp: chr0_def)
  then show "((drop (nat scan) h, skip_class p), h, p) \<in> measure (\<lambda>(h, p). length p)" by (simp add: skip_class_length)
qed

declare match_classes.simps [simp del]

record route_spec =
  any_c :: byte
  div_c :: byte
  esc_c :: byte

text \<open>
  The captures, or \<open>Some None\<close> for no match.  An escape at the end of the pattern that meets the end of the path steps
  behind the terminator.
\<close>

lemma match_classes_length: "match_classes h p = Some (Some (h', p')) \<Longrightarrow> length p' \<le> length p"
proof (induction h p rule: match_classes.induct)
  case (1 h p)
  show ?case
  proof (cases "chr0 p = 91")
    case True
    then have p: "p \<noteq> []" by (auto simp: chr0_def)
    from 1(2) True obtain scan where s: "route_scan h p = Some scan" "scan \<noteq> - 1"
      "match_classes (drop (nat scan) h) (skip_class p) = Some (Some (h', p'))"
      by (subst (asm) match_classes.simps) (auto simp: bind_eq_Some_conv split: if_splits)
    then show ?thesis using 1(1) [OF True s(1)] skip_class_length [OF p] by fastforce
  next
    case False
    then show ?thesis using 1(2) by (subst (asm) match_classes.simps) simp
  qed
qed

function match_loop :: "route_spec \<Rightarrow> byte list \<Rightarrow> byte list \<Rightarrow> byte list list option option" where
  "match_loop spec h p =
     (case p of
        [] \<Rightarrow> Some (if h = [] then Some [] else None)
      | x # p1 \<Rightarrow>
          if x = any_c spec then
            (if chr0 p1 = 91 then
               (case match_classes h p1 of
                  None \<Rightarrow> None
                | Some None \<Rightarrow> Some None
                | Some (Some (h2, p2)) \<Rightarrow> map_option (map_option ((#) h)) (match_loop spec h2 p2))
             else if p1 = [any_c spec] then map_option (map_option ((#) h)) (match_loop spec [] [])
             else map_option (map_option ((#) h)) (match_loop spec (dropWhile (\<lambda>c. c \<noteq> div_c spec) h) p1))
          else if x = esc_c spec then
            (if chr0 p1 = chr0 h then (if p1 = [] then None else match_loop spec (tl h) (tl p1)) else Some None)
          else if x = chr0 h then match_loop spec (tl h) p1
          else Some None)"
  by pat_completeness auto
termination
  by (relation "measure (\<lambda>(spec, h, p). length p)") (auto dest: match_classes_length)

declare match_loop.simps [simp del]

text \<open>The array of matches: the path and the captures that fit; empty when the function returns 0.\<close>

definition route_match :: "byte list option \<Rightarrow> byte list option \<Rightarrow> route_spec option \<Rightarrow> nat \<Rightarrow> byte list list option" where
  "route_match path pattern spec msize =
     (case (path, pattern, spec) of
        (Some h, Some p, Some s) \<Rightarrow>
          if msize = 0 then Some []
          else map_option (\<lambda>r. case r of None \<Rightarrow> [] | Some cs \<Rightarrow> take msize (h # cs)) (match_loop s h p)
      | _ \<Rightarrow> Some [])"


section \<open>What a pattern without classes means\<close>

text \<open>
  Such a pattern is a sequence of literal bytes, of stars, which take everything up to the next divider, and perhaps a
  double star at the end, which takes the rest of the path.
\<close>

datatype token = Lit byte | Star | Rest

fun tokens :: "route_spec \<Rightarrow> byte list \<Rightarrow> token list option" where
  "tokens spec [] = Some []"
| "tokens spec (x # p) =
     (if x = any_c spec then
        (if chr0 p = 91 then None
         else if p = [any_c spec] then Some [Rest]
         else map_option ((#) Star) (tokens spec p))
      else if x = esc_c spec then
        (case p of [] \<Rightarrow> None | y # q \<Rightarrow> map_option ((#) (Lit y)) (tokens spec q))
      else map_option ((#) (Lit x)) (tokens spec p))"

inductive tmatch :: "byte \<Rightarrow> token list \<Rightarrow> byte list \<Rightarrow> byte list list \<Rightarrow> bool" for dv where
  Nil: "tmatch dv [] [] []"
| Lit: "tmatch dv ts h cs \<Longrightarrow> tmatch dv (Lit c # ts) (c # h) cs"
| Star: "dv \<notin> set a \<Longrightarrow> h = [] \<or> hd h = dv \<Longrightarrow> tmatch dv ts h cs \<Longrightarrow> tmatch dv (Star # ts) (a @ h) ((a @ h) # cs)"
| Rest: "tmatch dv [Rest] h [h]"

inductive_simps tmatch_Nil [simp]: "tmatch dv [] h cs"
inductive_simps tmatch_Lit [simp]: "tmatch dv (Lit c # ts) h cs"
inductive_simps tmatch_Star: "tmatch dv (Star # ts) h cs"
inductive_simps tmatch_Rest [simp]: "tmatch dv (Rest # ts) h cs"

lemma star_split:
  assumes "dv \<notin> set a" "h = [] \<or> hd h = dv"
  shows "dropWhile (\<lambda>c. c \<noteq> dv) (a @ h) = h"
proof -
  have "dropWhile (\<lambda>c. c \<noteq> dv) (a @ h) = dropWhile (\<lambda>c. c \<noteq> dv) h"
    using assms(1) by (intro dropWhile_append2) auto
  then show ?thesis using assms(2) by (cases h) auto
qed

lemma tmatch_star: "tmatch dv (Star # ts) h cs \<longleftrightarrow> (\<exists>cs'. cs = h # cs' \<and> tmatch dv ts (dropWhile (\<lambda>c. c \<noteq> dv) h) cs')"
proof
  assume "tmatch dv (Star # ts) h cs"
  then obtain a t cs' where "h = a @ t" "cs = h # cs'" "dv \<notin> set a" "t = [] \<or> hd t = dv" "tmatch dv ts t cs'"
    by (auto simp: tmatch_Star)
  then show "\<exists>cs'. cs = h # cs' \<and> tmatch dv ts (dropWhile (\<lambda>c. c \<noteq> dv) h) cs'"
    using star_split [of dv a t] by simp
next
  assume "\<exists>cs'. cs = h # cs' \<and> tmatch dv ts (dropWhile (\<lambda>c. c \<noteq> dv) h) cs'"
  then obtain cs' where cs: "cs = h # cs'" "tmatch dv ts (dropWhile (\<lambda>c. c \<noteq> dv) h) cs'" by blast
  let ?a = "takeWhile (\<lambda>c. c \<noteq> dv) h" and ?h = "dropWhile (\<lambda>c. c \<noteq> dv) h"
  have "dv \<notin> set ?a" by (auto dest: set_takeWhileD)
  moreover have "?h = [] \<or> hd ?h = dv" using hd_dropWhile [of "\<lambda>c. c \<noteq> dv" h] by blast
  ultimately have "tmatch dv (Star # ts) (?a @ ?h) ((?a @ ?h) # cs')" using cs(2) by (rule tmatch.Star)
  then show "tmatch dv (Star # ts) h cs" using cs(1) by simp
qed

lemma chr0_eq: "0 \<notin> set h \<Longrightarrow> x \<noteq> 0 \<Longrightarrow> x = chr0 h \<longleftrightarrow> (\<exists>t. h = x # t)"
  by (cases h) (auto simp: chr0_def)

lemma match_loop_tokens:
  assumes "tokens spec p = Some ts" "0 \<notin> set p" "0 \<notin> set h"
  shows "\<exists>r. match_loop spec h p = Some r \<and> (\<forall>cs. r = Some cs \<longleftrightarrow> tmatch (div_c spec) ts h cs)"
  using assms
proof (induction spec p arbitrary: h ts rule: tokens.induct)
  case (1 spec)
  then show ?case by (auto simp: match_loop.simps [of spec h "[]"])
next
  case (2 spec x p)
  consider (rest) "x = any_c spec" "chr0 p \<noteq> 91" "p = [any_c spec]" "ts = [Rest]"
    | (star) ts' where "x = any_c spec" "chr0 p \<noteq> 91" "p \<noteq> [any_c spec]" "tokens spec p = Some ts'" "ts = Star # ts'"
    | (esc) y q ts' where "x \<noteq> any_c spec" "x = esc_c spec" "p = y # q" "tokens spec q = Some ts'" "ts = Lit y # ts'"
    | (lit) ts' where "x \<noteq> any_c spec" "x \<noteq> esc_c spec" "tokens spec p = Some ts'" "ts = Lit x # ts'"
    using 2(4) by (auto split: if_splits list.splits)
  then show ?case
  proof cases
    case rest
    then have "match_loop spec h (x # p) = Some (Some [h])"
      by (simp add: match_loop.simps [of spec h] match_loop.simps [of spec "[]" "[]"])
    then show ?thesis using rest by auto
  next
    case star
    have "0 \<notin> set (dropWhile (\<lambda>c. c \<noteq> div_c spec) h)" using 2(6) by (auto dest: set_dropWhileD)
    then obtain r where "match_loop spec (dropWhile (\<lambda>c. c \<noteq> div_c spec) h) p = Some r"
      "\<forall>cs. r = Some cs \<longleftrightarrow> tmatch (div_c spec) ts' (dropWhile (\<lambda>c. c \<noteq> div_c spec) h) cs"
      using 2(1) [OF star(1-4)] 2(5) by auto
    moreover have "match_loop spec h (x # p) = map_option (map_option ((#) h)) (match_loop spec (dropWhile (\<lambda>c. c \<noteq> div_c spec) h) p)"
      using star by (simp add: match_loop.simps [of spec h])
    ultimately show ?thesis using star by (auto simp: tmatch_star)
  next
    case esc
    show ?thesis
    proof (cases "y = chr0 h")
      case True
      moreover have "y \<noteq> 0" using 2(5) esc(3) by auto
      ultimately obtain t where h: "h = y # t" using chr0_eq [of h y] 2(6) by blast
      then obtain r where "match_loop spec t q = Some r" "\<forall>cs. r = Some cs \<longleftrightarrow> tmatch (div_c spec) ts' t cs"
        using 2(2) [OF esc(1,2,3,4)] 2(5,6) esc by auto
      moreover have "match_loop spec h (x # p) = match_loop spec t q"
        by (subst match_loop.simps) (use esc h in \<open>simp add: chr0_def\<close>)
      ultimately show ?thesis using esc(5) h by auto
    next
      case False
      then have "match_loop spec h (x # p) = Some None" by (subst match_loop.simps) (use esc in \<open>simp add: chr0_def\<close>)
      moreover have "h \<noteq> y # t" for t using False by (auto simp: chr0_def)
      ultimately show ?thesis using esc(5) by simp
    qed
  next
    case lit
    show ?thesis
    proof (cases "x = chr0 h")
      case True
      moreover have "x \<noteq> 0" using 2(5) by auto
      ultimately obtain t where h: "h = x # t" using chr0_eq [of h x] 2(6) by blast
      then obtain r where "match_loop spec t p = Some r" "\<forall>cs. r = Some cs \<longleftrightarrow> tmatch (div_c spec) ts' t cs"
        using 2(3) [OF lit(1,2,3)] 2(5,6) lit by auto
      moreover have "match_loop spec h (x # p) = match_loop spec t p"
        by (subst match_loop.simps) (use lit h in \<open>simp add: chr0_def\<close>)
      ultimately show ?thesis using lit(4) h by auto
    next
      case False
      then have "match_loop spec h (x # p) = Some None" by (subst match_loop.simps) (use lit in \<open>simp add: chr0_def\<close>)
      moreover have "h \<noteq> x # t" for t using False by (auto simp: chr0_def)
      ultimately show ?thesis using lit(4) by simp
    qed
  qed
qed

text \<open>
  C37: on a pattern without character classes, route matching succeeds exactly on the paths that have the pattern's
  shape, and then reports the path and, for each star, the rest of the path from where the star begins.
\<close>

theorem route_match_iff:
  assumes "tokens spec p = Some ts" "0 \<notin> set p" "0 \<notin> set h" "0 < msize" "argv \<noteq> []"
  shows "route_match (Some h) (Some p) (Some spec) msize = Some argv \<longleftrightarrow>
    (\<exists>cs. tmatch (div_c spec) ts h cs \<and> argv = take msize (h # cs))"
proof -
  from match_loop_tokens [OF assms(1-3)] obtain r where
    r: "match_loop spec h p = Some r" "\<forall>cs. r = Some cs \<longleftrightarrow> tmatch (div_c spec) ts h cs" by blast
  then show ?thesis using assms(4,5)
  proof (cases r)
    case None
    then have "\<not> tmatch (div_c spec) ts h cs" for cs using r(2) by simp
    then show ?thesis using None r(1) assms(4,5) by (simp add: route_match_def)
  next
    case (Some cs)
    then have "tmatch (div_c spec) ts h cs' \<longleftrightarrow> cs' = cs" for cs' using r(2) by (metis option.inject)
    then show ?thesis using Some r(1) assms(4) by (auto simp: route_match_def)
  qed
qed

theorem route_match_iff_witness:
  "route_match (Some [47, 97, 47, 98]) (Some [47, 42, 47, 42, 42]) (Some \<lparr>any_c = 42, div_c = 47, esc_c = 92\<rparr>) 16 =
   Some [[47, 97, 47, 98], [97, 47, 98], [98]]"
proof -
  let ?s = "\<lparr>any_c = 42, div_c = 47, esc_c = 92\<rparr> :: route_spec"
  have t: "tokens ?s [47, 42, 47, 42, 42] = Some [Lit 47, Star, Lit 47, Rest]" by (simp add: chr0_def)
  have "tmatch 47 [Lit 47, Star, Lit 47, Rest] [47, 97, 47, 98] [[97, 47, 98], [98]]"
    by (simp add: tmatch_star)
  then show ?thesis
    using route_match_iff [OF t, of "[47, 97, 47, 98]" 16 "[[47, 97, 47, 98], [97, 47, 98], [98]]"] by auto
qed

section \<open>What a class means\<close>

text \<open>A class made of ranges only.\<close>

definition in_ranges :: "(byte \<times> byte) list \<Rightarrow> byte \<Rightarrow> bool" where
  "in_ranges rs x \<longleftrightarrow> (\<exists>(a, b) \<in> set rs. a \<le> x \<and> x \<le> b)"

definition ranges_text :: "(byte \<times> byte) list \<Rightarrow> byte list" where
  "ranges_text rs = concat (map (\<lambda>(a, b). [a, 45, b]) rs)"

definition ascii :: "byte list \<Rightarrow> bool" where
  "ascii xs \<longleftrightarrow> list_all (\<lambda>x. x < 128) xs"

lemma sint_ascii: "x < 128 \<Longrightarrow> sint x = int (unat (x :: byte))"
proof -
  assume "x < 128"
  then have u: "uint x < 2 ^ 7" by (simp add: word_less_alt)
  then have "\<not> bit (uint x) 7" by (simp add: bit_iff_odd)
  moreover have "take_bit 7 (uint x) = uint x" using u by (intro take_bit_int_eq_self) simp_all
  ultimately have "sint x = uint x" by (simp add: sint_uint signed_take_bit_eq_if_positive)
  then show ?thesis by simp
qed

abbreviation set_bits_range :: "bool \<Rightarrow> int list \<Rightarrow> byte list \<Rightarrow> byte list" where
  "set_bits_range neg ls \<equiv> fold (\<lambda>c s. if neg then BITOFF s (nat c) else BITON s (nat c)) ls"

lemma set_bits_range_check:
  assumes "length s = 32" "\<forall>c \<in> set ls. 0 \<le> c \<and> c < 256"
  shows "length (set_bits_range neg ls s) = 32 \<and>
    BITCHECK (set_bits_range neg ls s) k = (if int k \<in> set ls then \<not> neg else BITCHECK s k)"
  using assms
proof (induction ls arbitrary: s)
  case (Cons c ls)
  have c: "nat c div 8 < length s" using Cons.prems by auto
  have "length (BITON s (nat c)) = 32" "length (BITOFF s (nat c)) = 32"
    using Cons.prems by (simp_all add: BITON_def BITOFF_def)
  then show ?case using Cons bitset_ops [OF c, of k] by auto
qed simp

lemma byte_range_check:
  assumes "m < 256" "length s = 32"
  shows "length (set_bits_range neg [int n..int m] s) = 32 \<and>
    BITCHECK (set_bits_range neg [int n..int m] s) k = (if n \<le> k \<and> k \<le> m then \<not> neg else BITCHECK s k)"
  using set_bits_range_check [OF assms(2), of "[int n..int m]" neg k] assms(1) by auto

lemma scan_ranges:
  assumes "length s = 32" "\<forall>(a, b) \<in> set rs. a < 128 \<and> b < 128 \<and> a \<noteq> 93 \<and> b \<noteq> 93"
  shows "\<exists>s'. scan_class neg (ranges_text rs @ 93 # rest) s = Some (93 # rest, s') \<and> length s' = 32 \<and>
    (\<forall>x. BITCHECK s' (unat x) = (if in_ranges rs x then \<not> neg else BITCHECK s (unat x)))"
  using assms
proof (induction rs arbitrary: s)
  case Nil
  then show ?case by (simp add: ranges_text_def in_ranges_def scan_class.simps chr0_def)
next
  case (Cons r rs)
  obtain a b where r: "r = (a, b)" by (cases r)
  have ab: "a < 128" "b < 128" "a \<noteq> 93" "b \<noteq> 93" using Cons.prems(2) r by auto
  define s1 where "s1 = set_bits_range neg [int (unat a)..int (unat b)] s"
  have "unat b < 256" using unsigned_less [of b, where 'a = nat] by simp
  then have s1: "length s1 = 32" "BITCHECK s1 k = (if unat a \<le> k \<and> k \<le> unat b then \<not> neg else BITCHECK s k)" for k
    unfolding s1_def using byte_range_check [OF _ Cons.prems(1)] by blast+
  have "cset_range neg (sint a) (sint b) s = Some s1"
    using ab by (simp add: cset_range_def sint_ascii s1_def)
  then have "scan_class neg (ranges_text (r # rs) @ 93 # rest) s = scan_class neg (ranges_text rs @ 93 # rest) s1"
    using ab by (subst scan_class.simps) (simp add: ranges_text_def r chr0_def)
  moreover obtain s2 where "scan_class neg (ranges_text rs @ 93 # rest) s1 = Some (93 # rest, s2)" "length s2 = 32"
    "\<forall>x. BITCHECK s2 (unat x) = (if in_ranges rs x then \<not> neg else BITCHECK s1 (unat x))"
    using Cons.IH [OF s1(1)] Cons.prems(2) by auto
  ultimately show ?case by (auto simp: s1(2) in_ranges_def r word_le_nat_alt)
qed

lemma scan_count_run:
  assumes "ascii h"
  shows "scan_count s h mx m = Some (m + int (min (length (takeWhile (\<lambda>x. BITCHECK s (unat x)) h)) (nat (max 1 (mx - m)))))"
  using assms
proof (induction h arbitrary: m)
  case (Cons x h)
  then have "0 \<le> sint x" by (simp add: ascii_def sint_ascii)
  then show ?case using Cons by (auto simp: ascii_def min_def max_def)
qed simp

text \<open>
  A class made of ranges matches the longest run of characters inside the ranges (outside them when it is negated),
  cut at the maximum of its quantifier, and fails below the minimum.
\<close>

theorem route_scan_ranges:
  assumes "\<forall>(a, b) \<in> set rs. a < 128 \<and> b < 128 \<and> a \<noteq> 93 \<and> b \<noteq> 93" "neg \<or> rs = [] \<or> fst (hd rs) \<noteq> 94"
    "ascii h" "scan_quant rest = Some (Some (mn, mx))"
  shows "route_scan h (91 # (if neg then [94] else []) @ ranges_text rs @ 93 # rest) =
    (let m = int (min (length (takeWhile (\<lambda>x. in_ranges rs x \<noteq> neg) h)) (nat (max 1 mx)))
     in Some (if m < mn then - 1 else m))"
proof -
  define s where "s = (if neg then replicate 32 255 else replicate 32 (0 :: byte))"
  have l: "length s = 32" by (simp add: s_def)
  obtain s' where s': "scan_class neg (ranges_text rs @ 93 # rest) s = Some (93 # rest, s')"
    "\<And>x. BITCHECK s' (unat x) = (if in_ranges rs x then \<not> neg else BITCHECK s (unat x))"
    using scan_ranges [OF l assms(1), of neg rest] by blast
  have "BITCHECK s (unat x) = neg" for x :: byte
  proof -
    have "unat x div 8 < 32" using unsigned_less [of x, where 'a = nat] by simp
    then have "s ! (unat x div 8) = (if neg then 255 else 0)" by (simp add: s_def)
    moreover have "bit (255 :: byte) (unat x mod 8)"
      using bit_mask_iff [where 'a = "8 word", of 8 "unat x mod 8"] by (simp add: mask_eq_exp_minus_1)
    ultimately show ?thesis by (simp add: BITCHECK_bit)
  qed
  then have run: "BITCHECK s' (unat x) = (in_ranges rs x \<noteq> neg)" for x using s'(2) [of x] by auto
  have neg0: "(chr0 ((if neg then [94] else []) @ ranges_text rs @ 93 # rest) = 94) = neg"
    using assms(2) by (cases rs) (auto simp: chr0_def ranges_text_def)
  show ?thesis
    using s'(1) neg0 assms(4) unfolding route_scan_def
    by (cases neg) (simp_all add: chr0_def s_def scan_count_run [OF assms(3)] run Let_def)
qed

theorem route_scan_ranges_witness:
  "route_scan [97, 98, 49, 47] [91, 97, 45, 122, 48, 45, 57, 93, 123, 50, 44, 52, 125] = Some 3"
proof -
  have q: "scan_quant [123, 50, 44, 52, 125] = Some (Some (2, 4))" by (simp add: scan_quant_def chr0_def)
  show ?thesis
    using route_scan_ranges [of "[(97, 122), (48, 57)]" False "[97, 98, 49, 47]" "[123, 50, 44, 52, 125]" 2 4, OF _ _ _ q]
    by (simp add: ascii_def ranges_text_def in_ranges_def)
qed

text \<open>
  A quantifier without upper bound, as in \<^verbatim>\<open>[a-z]{2,}\<close>, leaves the maximum at 0: at most one character is taken and the
  class never matches.
\<close>

lemma open_quantifier_fails:
  assumes "a < 128" "b < 128" "a \<noteq> 93" "b \<noteq> 93" "a \<noteq> 94" "ascii h"
  shows "route_scan h [91, a, 45, b, 93, 123, 50, 44, 125] = Some (- 1)"
proof -
  have q: "scan_quant [123, 50, 44, 125] = Some (Some (2, 0))" by (simp add: scan_quant_def chr0_def)
  show ?thesis
    using route_scan_ranges [of "[(a, b)]" False h "[123, 50, 44, 125]" 2 0, OF _ _ assms(6) q] assms
    by (simp add: ranges_text_def Let_def min_def split: if_splits)
qed

text \<open>Single characters in a class set the bits 0, 1, 3 and 11, whatever the characters are.\<close>

definition low_bits :: "byte list \<Rightarrow> bool" where
  "low_bits s \<longleftrightarrow> (\<exists>v w. s = v # w # replicate 30 0 \<and> (v, w) \<in> {(0, 0), (1, 0), (3, 0), (11, 0), (11, 8)})"

lemma low_bits_char: "low_bits s \<Longrightarrow> low_bits (cset_char False s)"
  by (auto simp: low_bits_def cset_char_def BITON_def)

lemma low_bits_check:
  assumes "low_bits s" "12 \<le> k" "k < 256"
  shows "\<not> BITCHECK s k"
proof -
  from assms(1) obtain v w where s: "s = v # w # replicate 30 0" "(v, w) \<in> {(0, 0), (1, 0), (3, 0), (11, 0), (11, 8)}"
    by (auto simp: low_bits_def)
  show ?thesis
  proof (cases "k < 16")
    case True
    then have "k \<in> {12, 13, 14, 15}" using assms(2) by auto
    then show ?thesis using s by (auto simp: BITCHECK_def)
  next
    case False
    then have "2 \<le> k div 8" "k div 8 < 32" using assms(3) by auto
    moreover define j where "j = k div 8 - 2"
    ultimately have "k div 8 = Suc (Suc j)" "j < 30" by simp_all
    then have "s ! (k div 8) = 0" by (simp add: s(1))
    then show ?thesis by (simp add: BITCHECK_def)
  qed
qed

lemma scan_chars:
  assumes "low_bits s" "45 \<notin> set cs" "93 \<notin> set cs"
  shows "\<exists>s'. scan_class False (cs @ 93 # rest) s = Some (93 # rest, s') \<and> low_bits s'"
  using assms
proof (induction cs arbitrary: s)
  case Nil
  then show ?case by (simp add: scan_class.simps chr0_def)
next
  case (Cons c cs)
  have "chr0 (cs @ 93 # rest) \<noteq> 45" using Cons.prems(2) by (cases cs) (auto simp: chr0_def)
  then have "scan_class False ((c # cs) @ 93 # rest) s = scan_class False (cs @ 93 # rest) (cset_char False s)"
    using Cons.prems(3) by (subst scan_class.simps) (simp add: chr0_def)
  then show ?case using Cons.IH [OF low_bits_char [OF Cons.prems(1)]] Cons.prems(2,3) by simp
qed

text \<open>
  A class that lists characters, such as \<^verbatim>\<open>[abc]\<close>, matches no character from 12 on, and so no printable one: the
  macro that adds a character to the set reads the set's own first byte in its place.
\<close>

theorem class_chars_never_match:
  assumes "45 \<notin> set cs" "93 \<notin> set cs" "hd (cs @ [0]) \<noteq> 94" "12 \<le> x" "x < 128"
  shows "route_scan (x # h) (91 # cs @ [93]) = Some (- 1)"
proof -
  have "low_bits (replicate 32 0)" by (simp add: low_bits_def numeral_eq_Suc)
  from scan_chars [OF this assms(1,2), of "[]"] obtain s where
    s: "scan_class False (cs @ [93]) (replicate 32 0) = Some ([93], s)" "low_bits s" by blast
  have "chr0 (cs @ [93]) \<noteq> 94" using assms(3) by (cases cs) (auto simp: chr0_def)
  moreover have "\<not> BITCHECK s (unat x)"
    using low_bits_check [OF s(2), of "unat x"] assms(4) unsigned_less [of x, where 'a = nat] by (simp add: word_le_nat_alt)
  moreover have "0 \<le> sint x" using sint_ascii [OF assms(5)] by simp
  ultimately show ?thesis using s(1)
    by (simp add: route_scan_def chr0_def scan_quant_def)
qed

theorem class_chars_never_match_witness: "route_scan [97] [91, 97, 98, 99, 93] = Some (- 1)"
  using class_chars_never_match [of "[97, 98, 99]" 97 "[]"] by simp

text \<open>An escape at the end of a pattern that meets the end of the path reads on behind both terminators.\<close>

lemma trailing_escape_undefined:
  "any_c spec \<noteq> esc_c spec \<Longrightarrow> match_loop spec [] [esc_c spec] = None"
  by (simp add: match_loop.simps chr0_def)

end
