(* ===== verification/Router.thy ===== *)
theory Router
  imports Route
begin

text \<open>
  The router of \<^verbatim>\<open>include/transit/route.h\<close>: the linked list of routes and dispatch.

  The nodes live in a store by address, 0 being NULL; an address with no node is not allocated, and using it is
  undefined (\<open>None\<close>).  Handlers are compared by address, 0 being NULL.
\<close>

section \<open>The list of routes\<close>

record route =
  pattern :: "byte list"
  handler :: nat
  rnext :: nat

type_synonym rstore = "nat \<rightharpoonup> route"

record router =
  rspec :: route_spec
  routes :: nat
  rlast :: nat

text \<open>
  \<open>ok\<close> says whether \<^verbatim>\<open>calloc\<close> succeeds; the result is not checked before the specification is copied into it.
\<close>

definition router_create :: "bool \<Rightarrow> route_spec \<Rightarrow> router option option" where
  "router_create ok spec =
     (if any_c spec = 0 \<or> div_c spec = 0 \<or> esc_c spec = 0 then Some None
      else if ok then Some (Some \<lparr>rspec = spec, routes = 0, rlast = 0\<rparr>) else None)"

text \<open>The loop of \<^verbatim>\<open>router_free\<close>: the store without the nodes of the list.\<close>

partial_function (option) free_loop :: "rstore \<Rightarrow> nat \<Rightarrow> rstore option" where
  [code]: "free_loop st cur =
     (if cur = 0 then Some st else do { n \<leftarrow> st cur; free_loop (st(cur := None)) (rnext n) })"

definition router_free :: "rstore \<Rightarrow> router option \<Rightarrow> rstore option" where
  "router_free st r = (case r of None \<Rightarrow> Some st | Some r \<Rightarrow> free_loop st (routes r))"

text \<open>\<open>a\<close> is the address \<^verbatim>\<open>calloc\<close> returns, 0 when it fails.\<close>

definition route_add :: "nat \<Rightarrow> rstore \<Rightarrow> router \<Rightarrow> byte list option \<Rightarrow> nat \<Rightarrow> (rstore \<times> router \<times> int) option" where
  "route_add a st r pat hnd =
     (case pat of
        None \<Rightarrow> Some (st, r, - 1)
      | Some p \<Rightarrow>
          if hnd = 0 \<or> a = 0 then Some (st, r, - 1)
          else
            let st1 = st(a \<mapsto> \<lparr>pattern = p, handler = hnd, rnext = 0\<rparr>) in
            if routes r = 0 then Some (st1, r\<lparr>routes := a, rlast := a\<rparr>, 0)
            else do {
              l \<leftarrow> st1 (rlast r);
              Some (st1(rlast r \<mapsto> l\<lparr>rnext := a\<rparr>), r\<lparr>rlast := a\<rparr>, 0)
            })"

partial_function (option) remove_loop :: "rstore \<Rightarrow> router \<Rightarrow> byte list \<Rightarrow> nat \<Rightarrow> nat \<Rightarrow> nat \<Rightarrow> int \<Rightarrow> (rstore \<times> router \<times> int) option" where
  [code]: "remove_loop st r pat hnd cur prev deleted =
     (if cur = 0 then Some (st, r, deleted)
      else do {
        n \<leftarrow> st cur;
        let nxt = rnext n;
        if pattern n = pat \<and> handler n = hnd then do {
          st1 \<leftarrow> (if prev \<noteq> 0 then do { q \<leftarrow> st prev; Some (st(prev \<mapsto> q\<lparr>rnext := nxt\<rparr>)) } else Some st);
          let r1 = (if prev \<noteq> 0 then r else r\<lparr>routes := nxt\<rparr>);
          let r2 = (if rlast r1 = cur then r1\<lparr>rlast := prev\<rparr> else r1);
          remove_loop (st1(cur := None)) r2 pat hnd nxt prev (deleted + 1)
        } else remove_loop st r pat hnd nxt cur deleted
      })"

definition route_remove :: "rstore \<Rightarrow> router \<Rightarrow> byte list option \<Rightarrow> nat \<Rightarrow> (rstore \<times> router \<times> int) option" where
  "route_remove st r pat hnd =
     (case pat of
        None \<Rightarrow> Some (st, r, - 1)
      | Some p \<Rightarrow> if hnd = 0 then Some (st, r, - 1) else remove_loop st r p hnd (routes r) 0 0)"

section \<open>Dispatch\<close>

text \<open>
  A handler returns a status, possibly after passing the request on with \<^verbatim>\<open>route_forward\<close>, any number of times and as
  the results tell it.  The behaviour of the handlers is the argument \<open>beh\<close>; they do not change the routes.
\<close>

datatype hact = Return int | Forward "byte list option" "int \<Rightarrow> hact"

text \<open>The calls, handler and arguments, in order.\<close>

type_synonym hlog = "(nat \<times> byte list list) list"

definition ROUTE_MATCH_MAX :: nat where "ROUTE_MATCH_MAX = 16"
definition ROUTE_FORWARD_MAX :: int where "ROUTE_FORWARD_MAX = 16"

primrec run_handler :: "(int \<Rightarrow> byte list option \<Rightarrow> (int \<times> int \<times> hlog) option) \<Rightarrow> hact \<Rightarrow> int \<Rightarrow> (int \<times> int \<times> hlog) option" where
  "run_handler fwd (Return n) hops = Some (n, hops, [])"
| "run_handler fwd (Forward path k) hops = do {
     (res, hops1, log1) \<leftarrow> fwd hops path;
     (res2, hops2, log2) \<leftarrow> run_handler fwd (k res) hops1;
     Some (res2, hops2, log1 @ log2)
   }"

text \<open>The routes from a node on, as the walk of \<^verbatim>\<open>route_forward\<close> meets them.\<close>

partial_function (option) routes_from :: "rstore \<Rightarrow> nat \<Rightarrow> (byte list \<times> nat) list option" where
  [code]: "routes_from st cur =
     (if cur = 0 then Some []
      else do { n \<leftarrow> st cur; rts \<leftarrow> routes_from st (rnext n); Some ((pattern n, handler n) # rts) })"

text \<open>
  The walk: the remaining routes, the number matched so far, the hop counter of the context.  The result: status, hop
  counter, log.
\<close>

primrec forward_loop :: "(nat \<Rightarrow> byte list list \<Rightarrow> hact) \<Rightarrow> (int \<Rightarrow> byte list option \<Rightarrow> (int \<times> int \<times> hlog) option) \<Rightarrow> route_spec \<Rightarrow>
    byte list \<Rightarrow> int \<Rightarrow> nat \<Rightarrow> (byte list \<times> nat) list \<Rightarrow> (int \<times> int \<times> hlog) option" where
  "forward_loop beh fwd spec path hops matched [] = Some (if matched > 0 then 0 else - 1, hops, [])"
| "forward_loop beh fwd spec path hops matched (rt # rts) = do {
     argv \<leftarrow> route_match (Some path) (Some (fst rt)) (Some spec) ROUTE_MATCH_MAX;
     (if argv = [] then forward_loop beh fwd spec path hops matched rts
      else do {
        (result, hops1, log1) \<leftarrow> run_handler fwd (beh (snd rt) argv) hops;
        (if result \<noteq> 0 then Some (result, hops1, (snd rt, argv) # log1)
         else do {
           (res2, hops2, log2) \<leftarrow> forward_loop beh fwd spec path hops1 (matched + 1) rts;
           Some (res2, hops2, (snd rt, argv) # log1 @ log2)
         })
      })
   }"

text \<open>The counter is tested against the limit and then incremented; \<open>fuel\<close> bounds the depth of the recursion.\<close>

primrec route_forward :: "nat \<Rightarrow> (nat \<Rightarrow> byte list list \<Rightarrow> hact) \<Rightarrow> route_spec \<Rightarrow> (byte list \<times> nat) list \<Rightarrow> int \<Rightarrow> byte list option \<Rightarrow>
    (int \<times> int \<times> hlog) option" where
  "route_forward 0 beh spec rts hops path = None"
| "route_forward (Suc fuel) beh spec rts hops path =
     (case path of
        None \<Rightarrow> Some (- 1, hops, [])
      | Some h \<Rightarrow>
          if hops > ROUTE_FORWARD_MAX then Some (0, hops + 1, [])
          else forward_loop beh (route_forward fuel beh spec rts) spec h (hops + 1) 0 rts)"

definition route_dispatch :: "(nat \<Rightarrow> byte list list \<Rightarrow> hact) \<Rightarrow> rstore \<Rightarrow> router option \<Rightarrow> byte list option \<Rightarrow> (int \<times> hlog) option" where
  "route_dispatch beh st r path =
     (case (r, path) of
        (Some r, Some h) \<Rightarrow> do {
          rts \<leftarrow> routes_from st (routes r);
          (res, hops, log) \<leftarrow> route_forward 18 beh (rspec r) rts 0 (Some h);
          Some (res, log)
        }
      | _ \<Rightarrow> Some (- 1, []))"

section \<open>Chains of nodes\<close>

fun chain :: "rstore \<Rightarrow> nat \<Rightarrow> nat list \<Rightarrow> nat \<Rightarrow> bool" where
  "chain st a [] b \<longleftrightarrow> a = b"
| "chain st a (x # xs) b \<longleftrightarrow> a = x \<and> a \<noteq> 0 \<and> (\<exists>n. st a = Some n \<and> chain st (rnext n) xs b)"

definition entry_at :: "rstore \<Rightarrow> nat \<Rightarrow> byte list \<times> nat" where
  "entry_at st a = (pattern (the (st a)), handler (the (st a)))"

definition wf_router :: "rstore \<Rightarrow> router \<Rightarrow> nat list \<Rightarrow> bool" where
  "wf_router st r as \<longleftrightarrow> chain st (routes r) as 0 \<and> distinct as \<and> dom st = set as \<and> rlast r = (if as = [] then 0 else last as)"

definition router_list :: "rstore \<Rightarrow> router \<Rightarrow> (byte list \<times> nat) list \<Rightarrow> bool" where
  "router_list st r L \<longleftrightarrow> (\<exists>as. wf_router st r as \<and> map (entry_at st) as = L)"

lemma chain_append [simp]: "chain st a (xs @ ys) b \<longleftrightarrow> (\<exists>m. chain st a xs m \<and> chain st m ys b)"
  by (induction xs arbitrary: a) auto

lemma chain_upd [simp]: "x \<notin> set xs \<Longrightarrow> chain (st(x := v)) a xs b = chain st a xs b"
  by (induction xs arbitrary: a) auto

lemma chain_alloc: "chain st a xs b \<Longrightarrow> x \<in> set xs \<Longrightarrow> x \<noteq> 0 \<and> st x \<noteq> None"
  by (induction xs arbitrary: a) auto

lemma chain_zero: "chain st 0 xs 0 \<longleftrightarrow> xs = []"
  by (cases xs) auto

lemma routes_from_chain: "chain st a as 0 \<Longrightarrow> routes_from st a = Some (map (entry_at st) as)"
proof (induction as arbitrary: a)
  case Nil
  then show ?case by (simp add: routes_from.simps)
next
  case (Cons x xs)
  then show ?case by (subst routes_from.simps) (auto simp: entry_at_def)
qed

lemma entries_upd [simp]: "x \<notin> set as \<Longrightarrow> map (entry_at (st(x := v))) as = map (entry_at st) as"
  by (auto simp: entry_at_def)

lemma chain_relink:
  assumes "chain st a (ks @ [p]) b" "distinct (ks @ [p])" "st p = Some q"
  shows "chain (st(p \<mapsto> q\<lparr>rnext := c\<rparr>)) a (ks @ [p]) c"
  using assms by auto

lemma entries_relink: "st p = Some q \<Longrightarrow> map (entry_at (st(p \<mapsto> q\<lparr>rnext := c\<rparr>))) as = map (entry_at st) as"
  by (auto simp: entry_at_def)

section \<open>Adding, removing and freeing\<close>

lemma route_add_wf:
  assumes "wf_router st r as" "a \<noteq> 0" "st a = None" "hnd \<noteq> 0"
  shows "\<exists>st' r'. route_add a st r (Some p) hnd = Some (st', r', 0) \<and> wf_router st' r' (as @ [a]) \<and>
    map (entry_at st') (as @ [a]) = map (entry_at st) as @ [(p, hnd)] \<and> rspec r' = rspec r"
proof -
  have a: "a \<notin> set as" using assms(1,3) by (auto simp: wf_router_def)
  define st1 where "st1 = st(a \<mapsto> \<lparr>pattern = p, handler = hnd, rnext = 0\<rparr>)"
  show ?thesis
  proof (cases "as = []")
    case True
    then show ?thesis using assms by (auto simp: wf_router_def route_add_def entry_at_def)
  next
    case False
    then obtain ks l where as: "as = ks @ [l]" by (metis rev_exhaust)
    have w: "chain st (routes r) (ks @ [l]) 0" "distinct (ks @ [l])" "rlast r = l" "dom st = set (ks @ [l])"
      using assms(1) as by (auto simp: wf_router_def)
    obtain q where q: "st l = Some q" using w(4) by auto
    have nz: "routes r \<noteq> 0" using w(1) by (cases ks) auto
    have l: "l \<noteq> a" "a \<notin> set (ks @ [l])" using a as by auto
    have st1: "st1 l = Some q" "chain st1 (routes r) (ks @ [l]) 0" using w(1) l q by (auto simp: st1_def)
    have "chain (st1(l \<mapsto> q\<lparr>rnext := a\<rparr>)) (routes r) (ks @ [l]) a" by (rule chain_relink [OF st1(2) w(2) st1(1)])
    moreover have "chain (st1(l \<mapsto> q\<lparr>rnext := a\<rparr>)) a [a] 0" using l assms(2) by (simp add: st1_def)
    ultimately have c: "chain (st1(l \<mapsto> q\<lparr>rnext := a\<rparr>)) (routes r) (as @ [a]) 0"
      unfolding as by (subst chain_append) blast
    have e: "map (entry_at (st1(l \<mapsto> q\<lparr>rnext := a\<rparr>))) (as @ [a]) = map (entry_at st) as @ [(p, hnd)]"
      using a by (simp only: entries_relink [where st = st1 and p = l and q = q, OF st1(1)]) (simp add: st1_def entry_at_def)
    have "dom (st1(l \<mapsto> q\<lparr>rnext := a\<rparr>)) = set (as @ [a])" using w(4) as by (auto simp: st1_def)
    then show ?thesis using c e assms w a as nz st1(1)
      by (simp add: route_add_def st1_def wf_router_def)
  qed
qed

lemma remove_loop_wf:
  assumes "chain st (routes r) ks cur" "chain st cur ys 0" "distinct (ks @ ys)" "dom st = set (ks @ ys)"
    "rlast r = (if ks @ ys = [] then 0 else last (ks @ ys))" "prev = (if ks = [] then 0 else last ks)"
  shows "\<exists>st' r'. remove_loop st r pat hnd cur prev d =
      Some (st', r', d + int (length (filter (\<lambda>a. entry_at st a = (pat, hnd)) ys))) \<and>
    wf_router st' r' (ks @ filter (\<lambda>a. entry_at st a \<noteq> (pat, hnd)) ys) \<and>
    (\<forall>a \<in> dom st'. entry_at st' a = entry_at st a) \<and> rspec r' = rspec r"
  using assms
proof (induction ys arbitrary: st r ks cur prev d)
  case Nil
  then show ?case by (simp add: remove_loop.simps wf_router_def)
next
  case (Cons y ys)
  obtain n where n: "cur = y" "y \<noteq> 0" "st y = Some n" "chain st (rnext n) ys 0" using Cons.prems(2) by auto
  have y: "y \<notin> set ks" "y \<notin> set ys" using Cons.prems(3) by auto
  show ?case
  proof (cases "pattern n = pat \<and> handler n = hnd")
    case False
    have c: "chain st (routes r) (ks @ [y]) (rnext n)" using Cons.prems(1) n by auto
    have "remove_loop st r pat hnd cur prev d = remove_loop st r pat hnd (rnext n) y d"
      by (subst remove_loop.simps) (use n False in \<open>auto simp: Let_def\<close>)
    moreover have "entry_at st y \<noteq> (pat, hnd)" using False n by (simp add: entry_at_def)
    ultimately show ?thesis
      using Cons.IH [OF c n(4), of y d] Cons.prems(3-5) by simp
  next
    case True
    define r1 where "r1 = (if prev \<noteq> 0 then r else r\<lparr>routes := rnext n\<rparr>)"
    define r2 where "r2 = (if rlast r1 = cur then r1\<lparr>rlast := prev\<rparr> else r1)"
    have "\<exists>st1. (if prev \<noteq> 0 then do { q \<leftarrow> st prev; Some (st(prev \<mapsto> q\<lparr>rnext := rnext n\<rparr>)) } else Some st) = Some st1 \<and>
      chain st1 (routes r2) ks (rnext n) \<and> chain st1 (rnext n) ys 0 \<and> dom st1 = dom st \<and> (\<forall>a. entry_at st1 a = entry_at st a)"
    proof (cases "ks = []")
      case True
      then show ?thesis using Cons.prems(6) n by (simp add: r2_def r1_def)
    next
      case False
      then obtain js p where ks: "ks = js @ [p]" by (metis rev_exhaust)
      have p: "prev = p" "p \<noteq> 0" "p \<notin> set ys" using Cons.prems(1,3,6) ks chain_alloc [OF Cons.prems(1), of p] by auto
      obtain q where q: "st p = Some q" using chain_alloc [OF Cons.prems(1), of p] ks by auto
      have "chain (st(p \<mapsto> q\<lparr>rnext := rnext n\<rparr>)) (routes r) ks (rnext n)"
        using chain_relink [of st "routes r" js p cur q "rnext n"] Cons.prems(1,3) ks q by auto
      then show ?thesis using p q n by (auto simp: r2_def r1_def entry_at_def)
    qed
    then obtain st1 where st1: "(if prev \<noteq> 0 then do { q \<leftarrow> st prev; Some (st(prev \<mapsto> q\<lparr>rnext := rnext n\<rparr>)) } else Some st) = Some st1"
      "chain st1 (routes r2) ks (rnext n)" "chain st1 (rnext n) ys 0" "dom st1 = dom st" "\<And>a. entry_at st1 a = entry_at st a"
      by blast
    define st2 where "st2 = st1(y := None)"
    have c: "chain st2 (routes r2) ks (rnext n)" "chain st2 (rnext n) ys 0" using st1 y by (simp_all add: st2_def)
    have d: "dom st2 = set (ks @ ys)" using st1(4) Cons.prems(4) y by (auto simp: st2_def)
    have l: "rlast r2 = (if ks @ ys = [] then 0 else last (ks @ ys))"
      using Cons.prems(3,5,6) n(1) y by (cases "ys = []") (auto simp: r2_def r1_def)
    have "remove_loop st r pat hnd cur prev d = remove_loop st2 r2 pat hnd (rnext n) prev (d + 1)"
      by (subst remove_loop.simps) (use n True st1(1) in \<open>simp add: Let_def r1_def r2_def st2_def\<close>)
    moreover have "entry_at st y = (pat, hnd)" using True n by (simp add: entry_at_def)
    moreover have e: "a \<noteq> y \<Longrightarrow> entry_at st2 a = entry_at st a" for a using st1(5) by (simp add: st2_def entry_at_def)
    moreover have ey: "\<And>a. a \<in> set ys \<Longrightarrow> entry_at st2 a = entry_at st a" using y(2) e by metis
    moreover have "filter (\<lambda>a. entry_at st2 a = x) ys = filter (\<lambda>a. entry_at st a = x) ys"
      "filter (\<lambda>a. entry_at st2 a \<noteq> x) ys = filter (\<lambda>a. entry_at st a \<noteq> x) ys" for x
      using ey by (auto intro!: filter_cong)
    moreover have "rspec r2 = rspec r" by (simp add: r2_def r1_def)
    moreover obtain st' r' where "remove_loop st2 r2 pat hnd (rnext n) prev (d + 1) =
        Some (st', r', d + 1 + int (length (filter (\<lambda>a. entry_at st2 a = (pat, hnd)) ys)))"
      "wf_router st' r' (ks @ filter (\<lambda>a. entry_at st2 a \<noteq> (pat, hnd)) ys)"
      "\<forall>a \<in> dom st'. entry_at st' a = entry_at st2 a" "rspec r' = rspec r2"
      using Cons.IH [OF c _ d l Cons.prems(6), of "d + 1"] Cons.prems(3) by auto
    moreover from this have "\<forall>a \<in> dom st'. a \<noteq> y" using y by (auto simp: wf_router_def)
    moreover from calculation have "\<forall>a \<in> dom st'. entry_at st' a = entry_at st a" using e by metis
    ultimately show ?thesis by auto
  qed
qed

lemma route_remove_list:
  assumes "router_list st r L" "hnd \<noteq> 0"
  shows "\<exists>st' r'. route_remove st r (Some p) hnd = Some (st', r', int (length (filter (\<lambda>e. e = (p, hnd)) L))) \<and>
    router_list st' r' (filter (\<lambda>e. e \<noteq> (p, hnd)) L) \<and> rspec r' = rspec r"
proof -
  obtain as where as: "wf_router st r as" "map (entry_at st) as = L" using assms(1) by (auto simp: router_list_def)
  have "\<exists>st' r'. remove_loop st r p hnd (routes r) 0 0 = Some (st', r', 0 + int (length (filter (\<lambda>a. entry_at st a = (p, hnd)) as))) \<and>
    wf_router st' r' ([] @ filter (\<lambda>a. entry_at st a \<noteq> (p, hnd)) as) \<and> (\<forall>a \<in> dom st'. entry_at st' a = entry_at st a) \<and> rspec r' = rspec r"
    using as(1) by (intro remove_loop_wf) (simp_all add: wf_router_def)
  then obtain st' r' where r': "remove_loop st r p hnd (routes r) 0 0 = Some (st', r', int (length (filter (\<lambda>a. entry_at st a = (p, hnd)) as)))"
    "wf_router st' r' (filter (\<lambda>a. entry_at st a \<noteq> (p, hnd)) as)" "\<forall>a \<in> dom st'. entry_at st' a = entry_at st a" "rspec r' = rspec r"
    by auto
  have "length (filter (\<lambda>e. e = (p, hnd)) L) = length (filter (\<lambda>a. entry_at st a = (p, hnd)) as)"
    unfolding as(2) [symmetric] by (simp add: filter_map comp_def)
  moreover have "map (entry_at st') (filter (\<lambda>a. entry_at st a \<noteq> (p, hnd)) as) = filter (\<lambda>e. e \<noteq> (p, hnd)) L"
    unfolding as(2) [symmetric] filter_map comp_def using r'(2,3) by (intro map_cong) (auto simp: wf_router_def)
  ultimately show ?thesis using r' assms(2) by (auto simp: route_remove_def router_list_def)
qed

lemma free_loop_chain: "chain st a as 0 \<Longrightarrow> distinct as \<Longrightarrow> free_loop st a = Some (st |` (- set as))"
proof (induction as arbitrary: st a)
  case Nil
  then show ?case by (simp add: free_loop.simps restrict_map_def)
next
  case (Cons x xs)
  then obtain n where n: "a = x" "x \<noteq> 0" "st x = Some n" "chain st (rnext n) xs 0" by auto
  have "chain (st(x := None)) (rnext n) xs 0" "distinct xs" using n Cons.prems(2) by simp_all
  then have "free_loop (st(x := None)) (rnext n) = Some (st(x := None) |` (- set xs))" by (rule Cons.IH)
  moreover have "st(x := None) |` (- set xs) = st |` (- set (x # xs))" by (auto simp: restrict_map_def)
  ultimately show ?case using n by (subst free_loop.simps) simp
qed

section \<open>The registry interface\<close>

text \<open>
  What the clients of a router rely on: adding appends one entry or fails, removing deletes exactly the equal entries
  and counts them.  The address in \<open>Add\<close> is the allocator's choice.
\<close>

datatype rop = Add nat "byte list option" nat | Remove "byte list option" nat

primrec run_ops :: "('s \<Rightarrow> rop \<Rightarrow> ('s \<times> int) option) \<Rightarrow> rop list \<Rightarrow> 's \<Rightarrow> ('s \<times> int list) option" where
  "run_ops ex [] s = Some (s, [])"
| "run_ops ex (x # xs) s = do { (s1, n) \<leftarrow> ex s x; (s2, ns) \<leftarrow> run_ops ex xs s1; Some (s2, n # ns) }"

fun spec_op :: "rop \<Rightarrow> int \<Rightarrow> (byte list \<times> nat) list \<Rightarrow> (byte list \<times> nat) list option" where
  "spec_op (Add a (Some p) h) n L = (if n = 0 \<and> h \<noteq> 0 then Some (L @ [(p, h)]) else if n = - 1 then Some L else None)"
| "spec_op (Remove (Some p) h) n L =
     (if n = (if h = 0 then - 1 else int (length (filter (\<lambda>e. e = (p, h)) L)))
      then Some (if h = 0 then L else filter (\<lambda>e. e \<noteq> (p, h)) L) else None)"
| "spec_op _ n L = (if n = - 1 then Some L else None)"

fun spec_ops :: "rop list \<Rightarrow> int list \<Rightarrow> (byte list \<times> nat) list \<Rightarrow> (byte list \<times> nat) list option" where
  "spec_ops (x # xs) (n # ns) L = do { L1 \<leftarrow> spec_op x n L; spec_ops xs ns L1 }"
| "spec_ops xs ns L = (if xs = [] \<and> ns = [] then Some L else None)"

locale route_registry =
  fixes holds :: "'s \<Rightarrow> (byte list \<times> nat) list \<Rightarrow> bool"
    and ex :: "'s \<Rightarrow> rop \<Rightarrow> ('s \<times> int) option"
  assumes step: "holds s L \<Longrightarrow> \<exists>s' n L'. ex s x = Some (s', n) \<and> spec_op x n L = Some L' \<and> holds s' L'"
begin

lemma runs: "holds s L \<Longrightarrow> \<exists>s' ns L'. run_ops ex xs s = Some (s', ns) \<and> spec_ops xs ns L = Some L' \<and> holds s' L'"
proof (induction xs arbitrary: s L)
  case (Cons x xs)
  from step [OF Cons.prems, of x] obtain s1 n L1 where 1: "ex s x = Some (s1, n)" "spec_op x n L = Some L1" "holds s1 L1" by blast
  from Cons.IH [OF 1(3)] obtain s2 ns L2 where "run_ops ex xs s1 = Some (s2, ns)" "spec_ops xs ns L1 = Some L2" "holds s2 L2" by blast
  then show ?case using 1 by auto
qed simp

end

text \<open>The router: the allocator returns a free address or 0.\<close>

fun exec_op :: "rstore \<times> router \<Rightarrow> rop \<Rightarrow> ((rstore \<times> router) \<times> int) option" where
  "exec_op (st, r) (Add a p h) =
     map_option (\<lambda>(st, r, n). ((st, r), n)) (route_add (if st a = None then a else 0) st r p h)"
| "exec_op (st, r) (Remove p h) = map_option (\<lambda>(st, r, n). ((st, r), n)) (route_remove st r p h)"

definition router_holds :: "route_spec \<Rightarrow> rstore \<times> router \<Rightarrow> (byte list \<times> nat) list \<Rightarrow> bool" where
  "router_holds spec s L \<longleftrightarrow> router_list (fst s) (snd s) L \<and> rspec (snd s) = spec"

interpretation router_reg: route_registry "router_holds spec" exec_op for spec
proof unfold_locales
  fix s :: "rstore \<times> router" and L x
  assume "router_holds spec s L"
  then obtain st r as where s: "s = (st, r)" "wf_router st r as" "map (entry_at st) as = L" "rspec r = spec"
    by (cases s) (auto simp: router_holds_def router_list_def)
  then have h: "router_holds spec s L" "router_list st r L" by (auto simp: router_holds_def router_list_def)
  show "\<exists>s' n L'. exec_op s x = Some (s', n) \<and> spec_op x n L = Some L' \<and> router_holds spec s' L'"
  proof (cases x)
    case (Add a p hnd)
    show ?thesis
    proof (cases "p \<noteq> None \<and> hnd \<noteq> 0 \<and> a \<noteq> 0 \<and> st a = None")
      case True
      then obtain q where q: "p = Some q" "hnd \<noteq> 0" "a \<noteq> 0" "st a = None" by auto
      from route_add_wf [OF s(2) q(3,4,2), of q] obtain st' r' where
        1: "route_add a st r (Some q) hnd = Some (st', r', 0)" "wf_router st' r' (as @ [a])"
        "map (entry_at st') (as @ [a]) = map (entry_at st) as @ [(q, hnd)]" "rspec r' = rspec r" by blast
      then have "router_holds spec (st', r') (L @ [(q, hnd)])"
        using s(3,4) unfolding router_holds_def router_list_def by (metis fst_conv snd_conv)
      then show ?thesis using Add q s(1) 1(1) by auto
    next
      case False
      then show ?thesis using Add s(1) h(1) by (cases p) (auto simp: route_add_def)
    qed
  next
    case (Remove p hnd)
    show ?thesis
    proof (cases "p \<noteq> None \<and> hnd \<noteq> 0")
      case True
      then obtain q where q: "p = Some q" "hnd \<noteq> 0" by auto
      from route_remove_list [OF h(2) q(2), of q] obtain st' r' where
        1: "route_remove st r (Some q) hnd = Some (st', r', int (length (filter (\<lambda>e. e = (q, hnd)) L)))"
        "router_list st' r' (filter (\<lambda>e. e \<noteq> (q, hnd)) L)" "rspec r' = rspec r" by blast
      then have "router_holds spec (st', r') (filter (\<lambda>e. e \<noteq> (q, hnd)) L)" using s(4) by (simp add: router_holds_def)
      then show ?thesis using Remove q s(1) 1(1) by auto
    next
      case False
      then show ?thesis using Remove s(1) h(1) by (cases p) (auto simp: route_remove_def)
    qed
  qed
qed

text \<open>
  C17: a router implements a list of routes: any sequence of additions and removals, whatever free addresses the
  allocator hands out and whenever it fails, returns and has the effect and the results of the list operations;
  dispatch then walks that list, and freeing the router releases every node.
\<close>

theorem router_refines_list:
  "\<exists>st r ns L. run_ops exec_op xs (Map.empty, \<lparr>rspec = spec, routes = 0, rlast = 0\<rparr>) = Some ((st, r), ns) \<and>
    spec_ops xs ns [] = Some L \<and> rspec r = spec \<and> routes_from st (routes r) = Some L \<and>
    router_free st (Some r) = Some Map.empty"
proof -
  have "router_holds spec (Map.empty, \<lparr>rspec = spec, routes = 0, rlast = 0\<rparr>) []"
    by (simp add: router_holds_def router_list_def wf_router_def)
  from router_reg.runs [OF this, of xs] obtain st r ns L where
    1: "run_ops exec_op xs (Map.empty, \<lparr>rspec = spec, routes = 0, rlast = 0\<rparr>) = Some ((st, r), ns)"
    "spec_ops xs ns [] = Some L" "router_holds spec (st, r) L" by auto
  then obtain as where as: "wf_router st r as" "map (entry_at st) as = L" "rspec r = spec"
    by (auto simp: router_holds_def router_list_def)
  have "st |` (- set as) = Map.empty"
  proof
    fix a
    show "(st |` (- set as)) a = None" using as(1) by (cases "st a") (auto simp: wf_router_def restrict_map_def)
  qed
  then have "router_free st (Some r) = Some Map.empty"
    using free_loop_chain [of st "routes r" as] as(1) by (simp add: router_free_def wf_router_def)
  moreover have "routes_from st (routes r) = Some L" using routes_from_chain [of st "routes r" as] as(1,2) by (simp add: wf_router_def)
  ultimately show ?thesis using 1 as(3) by blast
qed

section \<open>Dispatch\<close>

definition sound_routes :: "route_spec \<Rightarrow> (byte list \<times> nat) list \<Rightarrow> bool" where
  "sound_routes spec rts \<longleftrightarrow> list_all (\<lambda>(p, _). tokens spec p \<noteq> None \<and> 0 \<notin> set p) rts"

lemma match_loop_defined:
  assumes "tokens spec p = Some ts" "0 \<notin> set p"
  shows "match_loop spec h p \<noteq> None"
  using assms
proof (induction spec p arbitrary: h ts rule: tokens.induct)
  case (1 spec)
  then show ?case by (simp add: match_loop.simps)
next
  case (2 spec x p)
  consider (rest) "x = any_c spec" "chr0 p \<noteq> 91" "p = [any_c spec]"
    | (star) ts' where "x = any_c spec" "chr0 p \<noteq> 91" "p \<noteq> [any_c spec]" "tokens spec p = Some ts'"
    | (esc) y q ts' where "x \<noteq> any_c spec" "x = esc_c spec" "p = y # q" "tokens spec q = Some ts'"
    | (lit) ts' where "x \<noteq> any_c spec" "x \<noteq> esc_c spec" "tokens spec p = Some ts'"
    using 2(4) by (auto split: if_splits list.splits)
  then show ?case
  proof cases
    case rest
    then show ?thesis by (subst match_loop.simps) (simp add: match_loop.simps [of spec "[]" "[]"])
  next
    case star
    then show ?thesis using 2(1) [OF star] 2(5) by (subst match_loop.simps) simp
  next
    case esc
    then show ?thesis using 2(2) [OF esc] 2(5) by (subst match_loop.simps) simp
  next
    case lit
    then show ?thesis using 2(3) [OF lit] 2(5) by (subst match_loop.simps) simp
  qed
qed

lemma route_match_defined:
  assumes "sound_routes spec rts" "rt \<in> set rts"
  shows "\<exists>argv. route_match (Some h) (Some (fst rt)) (Some spec) n = Some argv"
proof -
  obtain ts where "tokens spec (fst rt) = Some ts" "0 \<notin> set (fst rt)"
    using assms by (cases rt) (auto simp: sound_routes_def list_all_iff)
  then have "match_loop spec h (fst rt) \<noteq> None" by (rule match_loop_defined)
  then show ?thesis by (auto simp: route_match_def)
qed

text \<open>
  One bound for all parts of a dispatch: the walk calls at most \<open>n\<close> handlers for each step of the hop counter below 17.
\<close>

definition bounded :: "nat \<Rightarrow> int \<Rightarrow> nat \<Rightarrow> (int \<times> int \<times> hlog) option \<Rightarrow> bool" where
  "bounded n hops k r \<longleftrightarrow> (\<exists>res hops' log. r = Some (res, hops', log) \<and> hops \<le> hops' \<and>
     int (length log) + int n * min hops 17 \<le> int n * min hops' 17 + int k)"

lemma run_handler_bounded:
  assumes "\<And>hops path. lo \<le> hops \<Longrightarrow> bounded n hops 0 (fwd hops path)" "lo \<le> hops"
  shows "bounded n hops 0 (run_handler fwd act hops)"
  using assms(2)
proof (induction act arbitrary: hops)
  case (Return x)
  then show ?case by (simp add: bounded_def)
next
  case (Forward path k)
  from assms(1) [OF Forward.prems, of path] obtain res h1 l1 where
    1: "fwd hops path = Some (res, h1, l1)" "hops \<le> h1" "int (length l1) + int n * min hops 17 \<le> int n * min h1 17"
    by (auto simp: bounded_def)
  have "bounded n h1 0 (run_handler fwd (k res) h1)" using Forward 1(2) by simp
  then obtain res2 h2 l2 where 2: "run_handler fwd (k res) h1 = Some (res2, h2, l2)" "h1 \<le> h2"
    "int (length l2) + int n * min h1 17 \<le> int n * min h2 17" by (auto simp: bounded_def)
  then show ?case using 1 by (simp add: bounded_def)
qed

lemma forward_loop_bounded:
  assumes "\<And>hops path. lo \<le> hops \<Longrightarrow> bounded n hops 0 (fwd hops path)" "lo \<le> hops" "sound_routes spec rts"
  shows "bounded n hops (length rts) (forward_loop beh fwd spec path hops matched rts)"
  using assms(2,3)
proof (induction rts arbitrary: hops matched)
  case Nil
  then show ?case by (simp add: bounded_def)
next
  case (Cons rt rts)
  have s: "sound_routes spec rts" using Cons.prems(2) by (simp add: sound_routes_def)
  obtain argv where argv: "route_match (Some path) (Some (fst rt)) (Some spec) ROUTE_MATCH_MAX = Some argv"
    using route_match_defined [OF Cons.prems(2), of rt] by auto
  show ?case
  proof (cases "argv = []")
    case True
    then show ?thesis using Cons.IH [OF Cons.prems(1) s, of matched] argv by (auto simp: bounded_def)
  next
    case False
    from run_handler_bounded [where fwd = fwd and act = "beh (snd rt) argv", OF assms(1) Cons.prems(1)] obtain res h1 l1 where
      1: "run_handler fwd (beh (snd rt) argv) hops = Some (res, h1, l1)" "hops \<le> h1"
      "int (length l1) + int n * min hops 17 \<le> int n * min h1 17" by (auto simp: bounded_def)
    have "lo \<le> h1" using Cons.prems(1) 1(2) by simp
    from Cons.IH [OF this s, of "matched + 1"] obtain res2 h2 l2 where
      2: "forward_loop beh fwd spec path h1 (matched + 1) rts = Some (res2, h2, l2)" "h1 \<le> h2"
      "int (length l2) + int n * min h1 17 \<le> int n * min h2 17 + int (length rts)" by (auto simp: bounded_def)
    show ?thesis using argv False 1 2 by (auto simp: bounded_def)
  qed
qed

lemma route_forward_bounded:
  assumes "sound_routes spec rts" "0 \<le> hops" "18 \<le> int fuel + hops" "0 < fuel"
  shows "bounded (length rts) hops 0 (route_forward fuel beh spec rts hops path)"
  using assms(2-4)
proof (induction fuel arbitrary: hops path)
  case (Suc fuel)
  show ?case
  proof (cases "path = None \<or> hops > 16")
    case True
    then show ?thesis by (auto simp: bounded_def ROUTE_FORWARD_MAX_def split: option.splits)
  next
    case False
    then obtain h where h: "path = Some h" "hops \<le> 16" by auto
    have "bounded (length rts) hops' 0 (route_forward fuel beh spec rts hops' p)" if "hops + 1 \<le> hops'" for hops' p
      using Suc.IH [of hops' p] Suc.prems h(2) that by simp
    then have "bounded (length rts) (hops + 1) (length rts)
      (forward_loop beh (route_forward fuel beh spec rts) spec h (hops + 1) 0 rts)"
      using forward_loop_bounded [where fwd = "route_forward fuel beh spec rts" and lo = "hops + 1"] assms(1) by blast
    then show ?thesis using h by (auto simp: bounded_def ROUTE_FORWARD_MAX_def algebra_simps)
  qed
qed simp

text \<open>
  C18: for a router whose patterns have no character class and no trailing escape (\<open>sound_routes\<close>), dispatch returns for all handlers that
  do nothing to the router but forward requests and return a status, however they forward to each other: the recursion
  is at most 18 deep, and with n routes at most 17 n handlers are called.  Handlers that add or remove routes are not covered.
\<close>

theorem dispatch_returns:
  assumes "routes_from st (routes r) = Some rts" "sound_routes (rspec r) rts"
  shows "\<exists>res log. route_dispatch beh st (Some r) (Some path) = Some (res, log) \<and> length log \<le> 17 * length rts"
proof -
  from route_forward_bounded [OF assms(2), of 0 18 beh "Some path"] obtain res hops log where
    1: "route_forward 18 beh (rspec r) rts 0 (Some path) = Some (res, hops, log)" "0 \<le> hops"
    "int (length log) \<le> int (length rts) * min hops 17" by (auto simp: bounded_def)
  have "int (length rts) * min hops 17 \<le> int (length rts) * 17" by (intro mult_left_mono) auto
  then have "length log \<le> 17 * length rts" using 1(3) by linarith
  then show ?thesis using 1(1) assms(1) by (simp add: route_dispatch_def)
qed

text \<open>The calls of one walk when no handler forwards.\<close>

definition route_calls :: "route_spec \<Rightarrow> byte list \<Rightarrow> (byte list \<times> nat) list \<Rightarrow> hlog" where
  "route_calls spec path rts =
     filter (\<lambda>c. snd c \<noteq> []) (map (\<lambda>rt. (snd rt, the (route_match (Some path) (Some (fst rt)) (Some spec) ROUTE_MATCH_MAX))) rts)"

text \<open>
  When the handlers do not forward, dispatch calls the handlers of the matching routes in the order of registration up to the
  first that returns a nonzero status, and returns that status, 0 if all returned 0, -1 if no route matched.
\<close>

theorem dispatch_in_order:
  fixes path :: "byte list"
  assumes "routes_from st (routes r) = Some rts" "sound_routes (rspec r) rts" "\<And>h argv. beh h argv = Return (status h argv)"
  defines "calls \<equiv> route_calls (rspec r) path rts"
  shows "route_dispatch beh st (Some r) (Some path) =
    (case dropWhile (\<lambda>(h, argv). status h argv = 0) calls of
       [] \<Rightarrow> Some (if calls = [] then - 1 else 0, calls)
     | (h, argv) # _ \<Rightarrow> Some (status h argv, takeWhile (\<lambda>(h, argv). status h argv = 0) calls @ [(h, argv)]))"
proof -
  have walk: "forward_loop beh fwd (rspec r) path hops matched rts =
    (case dropWhile (\<lambda>(h, argv). status h argv = 0) (route_calls (rspec r) path rts) of
       [] \<Rightarrow> Some (if matched = 0 \<and> route_calls (rspec r) path rts = [] then - 1 else 0, hops, route_calls (rspec r) path rts)
     | (h, argv) # _ \<Rightarrow> Some (status h argv, hops, takeWhile (\<lambda>(h, argv). status h argv = 0) (route_calls (rspec r) path rts) @ [(h, argv)]))"
    for fwd hops matched
    using assms(2)
  proof (induction rts arbitrary: matched)
    case Nil
    then show ?case by (simp add: route_calls_def)
  next
    case (Cons rt rts)
    have s: "sound_routes (rspec r) rts" using Cons.prems by (simp add: sound_routes_def)
    obtain argv where "route_match (Some path) (Some (fst rt)) (Some (rspec r)) ROUTE_MATCH_MAX = Some argv"
      using route_match_defined [OF Cons.prems, of rt] by auto
    moreover from this have "route_calls (rspec r) path (rt # rts) =
      (if argv = [] then route_calls (rspec r) path rts else (snd rt, argv) # route_calls (rspec r) path rts)"
      by (simp add: route_calls_def)
    ultimately show ?case using Cons.IH [OF s]
      by (cases "argv = []"; cases "status (snd rt) argv = 0") (simp_all add: assms(3) del: dropWhile_eq_Nil_conv split: list.split)
  qed
  show ?thesis using walk [of _ 1 0] assms(1)
    by (auto simp: route_dispatch_def calls_def numeral_eq_Suc ROUTE_FORWARD_MAX_def simp del: dropWhile_eq_Nil_conv split: list.splits)
qed

text \<open>A router with two routes that match every path: the first forwards to itself forever.\<close>

abbreviation demo_spec :: route_spec where
  "demo_spec \<equiv> \<lparr>any_c = 42, div_c = 47, esc_c = 92\<rparr>"

abbreviation demo_store :: rstore where
  "demo_store \<equiv> [1 \<mapsto> \<lparr>pattern = [42, 42], handler = 5, rnext = 2\<rparr>, 2 \<mapsto> \<lparr>pattern = [42, 42], handler = 6, rnext = 0\<rparr>]"

abbreviation demo_router :: router where
  "demo_router \<equiv> \<lparr>rspec = demo_spec, routes = 1, rlast = 2\<rparr>"

lemma demo_routes: "routes_from demo_store (routes demo_router) = Some [([42, 42], 5), ([42, 42], 6)]"
  by (simp add: routes_from.simps)

lemma demo_sound: "sound_routes (rspec demo_router) [([42, 42], 5), ([42, 42], 6)]"
  by (simp add: sound_routes_def chr0_def)

theorem dispatch_returns_witness:
  "\<exists>res log. route_dispatch (\<lambda>h argv. if h = 5 then Forward (Some [47]) Return else Return 0) demo_store (Some demo_router) (Some [47, 97]) =
     Some (res, log) \<and> length log \<le> 34"
  using dispatch_returns [OF demo_routes demo_sound, of "\<lambda>h argv. if h = 5 then Forward (Some [47]) Return else Return 0" "[47, 97]"]
  by simp

theorem dispatch_in_order_witness:
  "route_dispatch (\<lambda>h argv. Return (if h = 6 then 200 else 0)) demo_store (Some demo_router) (Some [97]) =
     Some (200, [(5, [[97], [97]]), (6, [[97], [97]])])"
proof -
  have m: "match_loop demo_spec [97] [42, 42] = Some (Some [[97]])"
    by (subst match_loop.simps) (simp add: chr0_def match_loop.simps [of _ "[]" "[]"])
  have "route_calls (rspec demo_router) [97] [([42, 42], 5), ([42, 42], 6)] = [(5, [[97], [97]]), (6, [[97], [97]])]"
    using m by (simp add: route_calls_def route_match_def ROUTE_MATCH_MAX_def)
  then show ?thesis
    using dispatch_in_order [OF demo_routes demo_sound, of _ "\<lambda>h argv. if h = 6 then 200 else 0" "[97]"] by simp
qed

end
