(* ===== verification/Calendar.thy ===== *)
theory Calendar
  imports Prelude "HOL-Library.Signed_Division"
begin

text \<open>
  The calendar of \<^verbatim>\<open>include/time.h\<close>: conversion between seconds since 1970 and broken-down time, and the formatting of
  dates.  Time zones do not exist in the library: local time is UTC.

  \<^verbatim>\<open>int\<close>, \<^verbatim>\<open>long\<close> and \<^verbatim>\<open>time_t\<close> are unbounded integers here; \<open>gmtime_fields\<close> states for which times every value fits.
  \<^verbatim>\<open>/\<close> and \<^verbatim>\<open>%\<close> are the truncating \<open>sdiv\<close> and \<open>smod\<close>.
\<close>

section \<open>Calendar arithmetic\<close>

record tm =
  tm_sec :: int
  tm_min :: int
  tm_hour :: int
  tm_mday :: int
  tm_mon :: int
  tm_year :: int
  tm_wday :: int
  tm_yday :: int
  tm_isdst :: int

definition is_leap_year :: "int \<Rightarrow> bool" where
  "is_leap_year year \<longleftrightarrow> (year smod 4 = 0 \<and> year smod 100 \<noteq> 0) \<or> year smod 400 = 0"

definition days_in_month :: "int \<Rightarrow> int \<Rightarrow> int" where
  "days_in_month month year =
     (if month = 1 \<and> is_leap_year year then 29
      else [31, 28, 31, 30, 31, 30, 31, 31, 30, 31, 30, 31] ! nat month)"

text \<open>The conditional expression the loops over years use.\<close>

definition days_in_year :: "int \<Rightarrow> int" where
  "days_in_year y = (if is_leap_year y then 366 else 365)"

lemma days_in_year_bounds: "365 \<le> days_in_year y" "days_in_year y \<le> 366"
  by (simp_all add: days_in_year_def)

section \<open>Conversions\<close>

text \<open>The two loops of \<^verbatim>\<open>mktime\<close>.\<close>

function sum_years :: "int \<Rightarrow> int \<Rightarrow> int \<Rightarrow> int" where
  "sum_years y year days = (if y < year then sum_years (y + 1) year (days + days_in_year y) else days)"
  by pat_completeness auto
termination by (relation "measure (\<lambda>(y, year, days). nat (year - y))") auto

function sum_months :: "int \<Rightarrow> int \<Rightarrow> int \<Rightarrow> int \<Rightarrow> int" where
  "sum_months m month year days =
     (if m < month then sum_months (m + 1) month year (days + days_in_month m year) else days)"
  by pat_completeness auto
termination by (relation "measure (\<lambda>(m, month, year, days). nat (month - m))") auto

declare sum_years.simps [simp del] sum_months.simps [simp del]

text \<open>
  The time and the structure with the fields \<^verbatim>\<open>mktime\<close> sets.  The fields are of type \<^verbatim>\<open>int\<close>; \<open>None\<close> is the overflow of the addition
  to \<^verbatim>\<open>tm_year\<close>, which C leaves undefined.  The later sums are of type \<^verbatim>\<open>long\<close> and do not overflow.
\<close>

definition mktime :: "tm option \<Rightarrow> (int \<times> tm option) option" where
  "mktime t =
     (case t of
        None \<Rightarrow> Some (- 1, None)
      | Some t \<Rightarrow>
          if tm_year t + 1900 \<ge> 2 ^ 31 then None
          else
            let year = tm_year t + 1900; month = tm_mon t; mday = tm_mday t in
            if year < 1970 \<or> month < 0 \<or> month > 11 \<or> mday < 1 \<or> mday > 31 then Some (- 1, Some t)
            else
              let days = sum_months 0 month year (sum_years 1970 year 0) + (mday - 1);
                  result = days * 86400 + tm_hour t * 3600 + tm_min t * 60 + tm_sec t
              in Some (result, Some (t\<lparr>tm_wday := (days + 4) smod 7, tm_yday := sum_months 0 month year 0 + (mday - 1), tm_isdst := 0\<rparr>)))"

definition timegm :: "tm option \<Rightarrow> (int \<times> tm option) option" where
  "timegm t = mktime t"

text \<open>The two loops of \<^verbatim>\<open>gmtime\<close>: what is left of the days, and the year or month reached.\<close>

function year_loop :: "int \<Rightarrow> int \<Rightarrow> int \<times> int" where
  "year_loop days year =
     (if days < days_in_year year then (days, year) else year_loop (days - days_in_year year) (year + 1))"
  by pat_completeness auto
termination
proof (relation "measure (\<lambda>(days, year). nat days)")
  fix days year
  assume "\<not> days < days_in_year year"
  then show "((days - days_in_year year, year + 1), days, year) \<in> measure (\<lambda>(days, year). nat days)"
    using days_in_year_bounds [of year] by simp
qed simp

function month_loop :: "int \<Rightarrow> int \<Rightarrow> int \<Rightarrow> int \<times> int" where
  "month_loop days month year =
     (if month < 12 then
        (if days < days_in_month month year then (days, month)
         else month_loop (days - days_in_month month year) (month + 1) year)
      else (days, month))"
  by pat_completeness auto
termination by (relation "measure (\<lambda>(days, month, year). nat (12 - month))") auto

declare year_loop.simps [simp del] month_loop.simps [simp del]

text \<open>\<open>st\<close> is the static structure; the result says whether a pointer to it is returned.\<close>

definition gmtime :: "tm \<Rightarrow> int option \<Rightarrow> tm \<times> bool" where
  "gmtime st timer =
     (case timer of
        None \<Rightarrow> (st, False)
      | Some t \<Rightarrow>
          if t < 0 then (st, False)
          else
            let days = t sdiv 86400; rem = t smod 86400;
                (rem, days) = (if rem < 0 then (rem + 86400, days - 1) else (rem, days));
                hour = rem sdiv 3600; rem = rem smod 3600;
                wday = (days + 4) smod 7; wday = (if wday < 0 then wday + 7 else wday);
                (yday, year) = year_loop days 1970;
                (mday, month) = month_loop yday 0 year
            in (\<lparr>tm_sec = rem smod 60, tm_min = rem sdiv 60, tm_hour = hour, tm_mday = mday + 1, tm_mon = month,
                 tm_year = year - 1900, tm_wday = wday, tm_yday = yday, tm_isdst = 0\<rparr>, True))"

definition localtime :: "tm \<Rightarrow> int option \<Rightarrow> tm \<times> bool" where
  "localtime st timer = gmtime st timer"

text \<open>The static structure, the caller's structure, and whether the call succeeds.\<close>

definition gmtime_r :: "tm \<Rightarrow> int option \<Rightarrow> tm option \<Rightarrow> tm \<times> tm option \<times> bool" where
  "gmtime_r st timer res =
     (case res of
        None \<Rightarrow> (st, None, False)
      | Some r \<Rightarrow> let (st1, ok) = gmtime st timer in if ok then (st1, Some st1, True) else (st1, Some r, False))"

definition localtime_r :: "tm \<Rightarrow> int option \<Rightarrow> tm option \<Rightarrow> tm \<times> tm option \<times> bool" where
  "localtime_r st timer res =
     (case res of
        None \<Rightarrow> (st, None, False)
      | Some r \<Rightarrow> let (st1, ok) = localtime st timer in if ok then (st1, Some st1, True) else (st1, Some r, False))"

section \<open>Formatting\<close>

primrec num_to_str :: "nat \<Rightarrow> int \<Rightarrow> byte list" where
  "num_to_str 0 num = []"
| "num_to_str (Suc width) num = num_to_str width (num sdiv 10) @ [word_of_int (48 + num smod 10)]"

definition day_names :: "byte list list" where
  "day_names = [[83,117,110], [77,111,110], [84,117,101], [87,101,100], [84,104,117], [70,114,105], [83,97,116]]"

definition month_names :: "byte list list" where
  "month_names = [[74,97,110], [70,101,98], [77,97,114], [65,112,114], [77,97,121], [74,117,110],
                  [74,117,108], [65,117,103], [83,101,112], [79,99,116], [78,111,118], [68,101,99]]"

text \<open>The 26 bytes \<^verbatim>\<open>asctime\<close> writes to the static buffer.\<close>

definition asctime :: "tm option \<Rightarrow> byte list option" where
  "asctime t =
     (case t of
        None \<Rightarrow> None
      | Some t \<Rightarrow>
          let wday = (if tm_wday t \<ge> 0 \<and> tm_wday t < 7 then tm_wday t else 0);
              mon = (if tm_mon t \<ge> 0 \<and> tm_mon t < 12 then tm_mon t else 0);
              year = tm_year t + 1900
          in Some (day_names ! nat wday @ [32] @ month_names ! nat mon @ [32] @ num_to_str 2 (tm_mday t) @ [32] @
                   num_to_str 2 (tm_hour t) @ [58] @ num_to_str 2 (tm_min t) @ [58] @ num_to_str 2 (tm_sec t) @ [32] @
                   num_to_str 4 year @ [10, 0]))"

definition ctime :: "tm \<Rightarrow> int option \<Rightarrow> tm \<times> byte list option" where
  "ctime st timer = (let (st1, ok) = localtime st timer in (st1, if ok then asctime (Some st1) else None))"

text \<open>The reentrant variants copy 26 bytes to the caller's buffer and return it.\<close>

definition asctime_r :: "mem \<Rightarrow> tm option \<Rightarrow> ptr \<Rightarrow> mem \<times> ptr" where
  "asctime_r m t buf =
     (if t = None \<or> buf = NULL then (m, NULL)
      else case asctime t of None \<Rightarrow> (m, NULL) | Some x \<Rightarrow> (wr m buf (take 26 x), buf))"

definition ctime_r :: "mem \<Rightarrow> tm \<Rightarrow> int option \<Rightarrow> ptr \<Rightarrow> mem \<times> tm \<times> ptr" where
  "ctime_r m st timer buf =
     (if buf = NULL then (m, st, NULL)
      else let (st1, x) = ctime st timer in
        case x of None \<Rightarrow> (m, st1, NULL) | Some x \<Rightarrow> (wr m buf (take 26 x), st1, buf))"

text \<open>The text of a conversion, and the loop that copies as much of it as fits.\<close>

definition strf_conv :: "tm \<Rightarrow> byte \<Rightarrow> byte list" where
  "strf_conv t d =
     (if d = 89 then num_to_str 4 (tm_year t + 1900)
      else if d = 109 then num_to_str 2 (tm_mon t + 1)
      else if d = 100 then num_to_str 2 (tm_mday t)
      else if d = 72 then num_to_str 2 (tm_hour t)
      else if d = 77 then num_to_str 2 (tm_min t)
      else if d = 83 then num_to_str 2 (tm_sec t)
      else [d])"

primrec strf_emit :: "mem \<Rightarrow> ptr \<Rightarrow> nat \<Rightarrow> byte list \<Rightarrow> nat \<Rightarrow> mem \<times> nat" where
  "strf_emit m s mx [] pos = (m, pos)"
| "strf_emit m s mx (x # xs) pos = (if pos < mx - 1 then strf_emit (m(s + pos := x)) s mx xs (pos + 1) else (m, pos))"

text \<open>A percent sign at the end of the format is copied: the default case reads it again as \<^verbatim>\<open>fmt[-1]\<close>.\<close>

fun strf_loop :: "mem \<Rightarrow> ptr \<Rightarrow> nat \<Rightarrow> tm \<Rightarrow> byte list \<Rightarrow> nat \<Rightarrow> mem \<times> nat" where
  "strf_loop m s mx t [] pos = (m, pos)"
| "strf_loop m s mx t (c # fmt) pos =
     (if pos < mx - 1 then
        (if c \<noteq> 37 then strf_loop (m(s + pos := c)) s mx t fmt (pos + 1)
         else case fmt of
           [] \<Rightarrow> (m(s + pos := 37), pos + 1)
         | d # rest \<Rightarrow> let (m1, pos1) = strf_emit m s mx (strf_conv t d) pos in strf_loop m1 s mx t rest pos1)
      else (m, pos))"

definition strftime :: "mem \<Rightarrow> ptr \<Rightarrow> nat \<Rightarrow> byte list option \<Rightarrow> tm option \<Rightarrow> mem \<times> nat" where
  "strftime m s mx fmt t =
     (case (fmt, t) of
        (Some f, Some t) \<Rightarrow>
          if s = NULL \<or> mx = 0 then (m, 0)
          else let (m1, pos) = strf_loop m s mx t f 0 in (m1(s + pos := 0), pos)
      | _ \<Rightarrow> (m, 0))"

section \<open>The Gregorian calendar\<close>

lemma smod_zero_iff: "(a :: int) smod b = 0 \<longleftrightarrow> a mod b = 0"
  by (auto simp: signed_modulo_int_def signed_divide_int_def dvd_eq_mod_eq_0 [symmetric] sgn_0_0)

lemma sdiv_pos: "0 \<le> a \<Longrightarrow> 0 < b \<Longrightarrow> (a :: int) sdiv b = a div b"
  by (cases "a = 0") (simp_all add: signed_divide_int_def)

lemma smod_pos: "0 \<le> a \<Longrightarrow> 0 < b \<Longrightarrow> (a :: int) smod b = a mod b"
  by (cases "a = 0") (simp_all add: signed_modulo_int_def)

lemmas c_arith = sdiv_pos smod_pos

lemma is_leap_year_mod: "is_leap_year y \<longleftrightarrow> (y mod 4 = 0 \<and> y mod 100 \<noteq> 0) \<or> y mod 400 = 0"
  by (simp add: is_leap_year_def smod_zero_iff)

text \<open>The number of leap years up to \<open>y\<close>, and the days from 1970-01-01 to a date.\<close>

definition leap_years :: "int \<Rightarrow> int" where
  "leap_years y = y div 4 - y div 100 + y div 400"

definition month_starts :: "int list" where
  "month_starts = [0, 31, 59, 90, 120, 151, 181, 212, 243, 273, 304, 334]"

definition day_number :: "int \<Rightarrow> int \<Rightarrow> int \<Rightarrow> int" where
  "day_number year month mday =
     365 * (year - 1970) + (leap_years (year - 1) - leap_years 1969) +
     month_starts ! nat month + (if is_leap_year year \<and> month > 1 then 1 else 0) + (mday - 1)"

lemma div_pred_int: "0 < k \<Longrightarrow> y div k - (y - 1) div k = (if y mod k = 0 then 1 else (0 :: int))"
proof -
  assume k: "0 < k"
  show ?thesis
  proof (cases "y mod k = 0")
    case True
    then obtain q where "y = k * q" by auto
    moreover have "(k * q - 1) div k = q - 1"
      using k by (intro int_div_pos_eq [where r = "k - 1"]) (auto simp: algebra_simps)
    ultimately show ?thesis using k by simp
  next
    case False
    have "0 \<le> y mod k" "y mod k < k" using k by simp_all
    then have "0 \<le> y mod k - 1" "y mod k - 1 < k" using False by linarith+
    moreover have "y - 1 = k * (y div k) + (y mod k - 1)" by simp
    ultimately have "(y - 1) div k = y div k" by (intro int_div_pos_eq [where r = "y mod k - 1"]) auto
    then show ?thesis using False by simp
  qed
qed

lemma leap_years_step: "leap_years y = leap_years (y - 1) + (if is_leap_year y then 1 else 0)"
proof -
  have 1: "y mod 400 = 0 \<Longrightarrow> y mod 100 = 0" using dvd_trans [of 100 400 y] by (simp add: mod_eq_0_iff_dvd)
  have 2: "y mod 100 = 0 \<Longrightarrow> y mod 4 = 0" using dvd_trans [of 4 100 y] by (simp add: mod_eq_0_iff_dvd)
  have "(a - b + c) - (a' - b' + c') = (a - a') - (b - b') + (c - c')" for a b c a' b' c' :: int by simp
  then have "leap_years y - leap_years (y - 1) =
    (if y mod 4 = 0 then 1 else 0) - (if y mod 100 = 0 then 1 else 0) + (if y mod 400 = 0 then 1 else 0)"
    unfolding leap_years_def by (simp only: div_pred_int zero_less_numeral)
  also have "\<dots> = (if is_leap_year y then 1 else 0)" using 1 2 unfolding is_leap_year_mod by (auto simp del: mod_eq_0_iff_dvd)
  finally show ?thesis by simp
qed

lemma sum_years_eq: "y \<le> year \<Longrightarrow> sum_years y year d = d + 365 * (year - y) + (leap_years (year - 1) - leap_years (y - 1))"
proof (induction y year d rule: sum_years.induct)
  case (1 y year d)
  show ?case
  proof (cases "y < year")
    case True
    then show ?thesis using 1(1) [OF True] leap_years_step [of y]
      by (subst sum_years.simps) (auto simp: days_in_year_def algebra_simps)
  next
    case False
    then show ?thesis using 1(2) by (subst sum_years.simps) simp
  qed
qed

lemma month_cases: "0 \<le> m \<Longrightarrow> m < 12 \<Longrightarrow> m \<in> {0, 1, 2, 3, 4, 5, 6, 7, 8, 9, 10, 11 :: int}"
  by simp presburger

lemma sum_months_eq:
  assumes "0 \<le> month" "month < 12"
  shows "sum_months 0 month year d = d + month_starts ! nat month + (if is_leap_year year \<and> month > 1 then 1 else 0)"
  using month_cases [OF assms] unfolding insert_iff empty_iff
  by (elim disjE) (simp_all add: sum_months.simps days_in_month_def month_starts_def)

section \<open>The loops of \<open>gmtime\<close>\<close>

lemma sum_years_stop: "\<not> y < year \<Longrightarrow> sum_years y year d = d"
  by (subst sum_years.simps) simp

lemma sum_years_acc: "sum_years y year d = d + sum_years y year 0"
  by (cases "y < year") (simp_all add: sum_years_eq sum_years_stop)

lemma sum_years_step:
  assumes "y < year"
  shows "sum_years y year 0 = days_in_year y + sum_years (y + 1) year 0"
proof -
  have "sum_years y year 0 = sum_years (y + 1) year (days_in_year y)" using assms by (subst sum_years.simps) simp
  then show ?thesis using sum_years_acc [of "y + 1" year "days_in_year y"] by simp
qed

lemma sum_years_nonneg: "0 \<le> sum_years y year 0"
proof (induction "nat (year - y)" arbitrary: y)
  case 0
  then show ?case by (simp add: sum_years_stop)
next
  case (Suc n)
  then have "y < year" "0 \<le> sum_years (y + 1) year 0" by simp_all
  then show ?case using sum_years_step days_in_year_bounds [of y] by simp
qed

lemma year_loop_inverse:
  assumes "y0 \<le> y" "0 \<le> r" "r < days_in_year y"
  shows "year_loop (sum_years y0 y 0 + r) y0 = (r, y)"
  using assms(1)
proof (induction "nat (y - y0)" arbitrary: y0)
  case 0
  then have "y0 = y" by simp
  then show ?case using assms by (subst year_loop.simps) (simp add: sum_years_stop)
next
  case (Suc n)
  then have lt: "y0 < y" by linarith
  have nl: "\<not> sum_years y0 y 0 + r < days_in_year y0"
    using sum_years_step [OF lt] sum_years_nonneg [of "y0 + 1" y] assms(2) by simp
  have eq: "sum_years y0 y 0 + r - days_in_year y0 = sum_years (y0 + 1) y 0 + r" using sum_years_step [OF lt] by simp
  have "year_loop (sum_years y0 y 0 + r) y0 = year_loop (sum_years (y0 + 1) y 0 + r) (y0 + 1)"
    by (subst year_loop.simps) (simp only: nl eq if_False)
  then show ?case using Suc.hyps(1) [of "y0 + 1"] Suc.hyps(2) lt by simp
qed

lemma year_loop_spec:
  assumes "0 \<le> days"
  shows "\<exists>r y. year_loop days y0 = (r, y) \<and> y0 \<le> y \<and> 0 \<le> r \<and> r < days_in_year y \<and> sum_years y0 y 0 + r = days"
  using assms
proof (induction days y0 rule: year_loop.induct)
  case (1 days y0)
  show ?case
  proof (cases "days < days_in_year y0")
    case True
    then show ?thesis using 1(2) by (subst year_loop.simps) (simp add: sum_years_stop)
  next
    case False
    then have "0 \<le> days - days_in_year y0" by simp
    from 1(1) [OF False this] obtain r y where "year_loop (days - days_in_year y0) (y0 + 1) = (r, y)" "y0 + 1 \<le> y"
      "0 \<le> r" "r < days_in_year y" "sum_years (y0 + 1) y 0 + r = days - days_in_year y0" by blast
    moreover have "year_loop days y0 = year_loop (days - days_in_year y0) (y0 + 1)"
      using False by (subst year_loop.simps) simp
    ultimately show ?thesis using sum_years_step [of y0 y] by simp
  qed
qed

lemma days_in_month_bounds: "0 \<le> m \<Longrightarrow> m < 12 \<Longrightarrow> 28 \<le> days_in_month m y \<and> days_in_month m y \<le> 31"
  by (drule (1) month_cases) (elim insertE; simp add: days_in_month_def)

lemma sum_months_stop: "\<not> m < month \<Longrightarrow> sum_months m month y d = d"
  by (subst sum_months.simps) simp

lemma sum_months_acc: "sum_months m month y d = d + sum_months m month y 0"
proof (induction "nat (month - m)" arbitrary: m d)
  case 0
  then show ?case by (simp add: sum_months_stop)
next
  case (Suc n)
  then have "m < month" by linarith
  then have "sum_months m month y d = sum_months (m + 1) month y (d + days_in_month m y)" for d
    by (subst sum_months.simps) simp
  then show ?case
    using Suc.hyps(1) [of "m + 1" "d + days_in_month m y"] Suc.hyps(1) [of "m + 1" "days_in_month m y"] Suc.hyps(2) by simp
qed

lemma sum_months_step: "m < month \<Longrightarrow> sum_months m month y 0 = days_in_month m y + sum_months (m + 1) month y 0"
  by (subst sum_months.simps) (simp add: sum_months_acc [of "m + 1" month y "days_in_month m y"])

lemma sum_months_nonneg: "0 \<le> m \<Longrightarrow> month \<le> 12 \<Longrightarrow> 0 \<le> sum_months m month y 0"
proof (induction "nat (month - m)" arbitrary: m)
  case (Suc n)
  then have "m < month" "0 \<le> sum_months (m + 1) month y 0" by simp_all
  then show ?case using sum_months_step days_in_month_bounds [of m y] Suc.prems by simp
qed (simp add: sum_months_stop)

lemma sum_months_split: "m \<le> k \<Longrightarrow> k \<le> month \<Longrightarrow> sum_months m month y 0 = sum_months m k y 0 + sum_months k month y 0"
proof (induction "nat (k - m)" arbitrary: m)
  case (Suc n)
  then have "m < k" "sum_months (m + 1) month y 0 = sum_months (m + 1) k y 0 + sum_months k month y 0" by simp_all
  then show ?case using sum_months_step [of m k] sum_months_step [of m month] Suc.prems by simp
qed (simp add: sum_months_stop)

lemma sum_months_year: "sum_months 0 12 y 0 = days_in_year y"
  by (simp add: sum_months_step sum_months_stop days_in_month_def days_in_year_def)

lemma month_loop_inverse:
  assumes "0 \<le> m0" "m0 \<le> m" "m < 12" "0 \<le> r" "r < days_in_month m y"
  shows "month_loop (sum_months m0 m y 0 + r) m0 y = (r, m)"
  using assms(1,2)
proof (induction "nat (m - m0)" arbitrary: m0)
  case 0
  then have "m0 = m" by simp
  then show ?case using assms by (subst month_loop.simps) (simp add: sum_months_stop)
next
  case (Suc n)
  then have lt: "m0 < m" "m0 < 12" using assms(3) by linarith+
  have nl: "\<not> sum_months m0 m y 0 + r < days_in_month m0 y"
    using sum_months_step [OF lt(1)] sum_months_nonneg [of "m0 + 1" m y] assms Suc.prems by simp
  have eq: "sum_months m0 m y 0 + r - days_in_month m0 y = sum_months (m0 + 1) m y 0 + r" using sum_months_step [OF lt(1)] by simp
  have "month_loop (sum_months m0 m y 0 + r) m0 y = month_loop (sum_months (m0 + 1) m y 0 + r) (m0 + 1) y"
    by (subst month_loop.simps) (simp only: lt nl eq if_True if_False)
  then show ?case using Suc.hyps(1) [of "m0 + 1"] Suc.hyps(2) Suc.prems lt by simp
qed

lemma month_loop_spec:
  assumes "0 \<le> m0" "0 \<le> days" "days < sum_months m0 12 y 0"
  shows "\<exists>r m. month_loop days m0 y = (r, m) \<and> m0 \<le> m \<and> m < 12 \<and> 0 \<le> r \<and> r < days_in_month m y \<and> sum_months m0 m y 0 + r = days"
  using assms
proof (induction "nat (12 - m0)" arbitrary: m0 days)
  case 0
  then show ?case by (simp add: sum_months_stop)
next
  case (Suc n)
  then have m: "m0 < 12" by linarith
  show ?case
  proof (cases "days < days_in_month m0 y")
    case True
    then show ?thesis using m Suc.prems by (subst month_loop.simps) (simp add: sum_months_stop)
  next
    case False
    have n: "n = nat (12 - (m0 + 1))" "0 \<le> m0 + 1" "0 \<le> days - days_in_month m0 y" using Suc.hyps(2) Suc.prems False by auto
    have "days - days_in_month m0 y < sum_months (m0 + 1) 12 y 0" using sum_months_step [OF m, of y] Suc.prems(3) by simp
    from Suc.hyps(1) [OF n this] obtain r k where k: "month_loop (days - days_in_month m0 y) (m0 + 1) y = (r, k)" "m0 + 1 \<le> k"
      "k < 12" "0 \<le> r" "r < days_in_month k y" "sum_months (m0 + 1) k y 0 + r = days - days_in_month m0 y" by blast
    moreover have "month_loop days m0 y = month_loop (days - days_in_month m0 y) (m0 + 1) y"
      using False m by (subst month_loop.simps) simp
    ultimately show ?thesis using sum_months_step [of m0 k y] by simp
  qed
qed

lemma yday_bounds:
  assumes "0 \<le> m" "m < 12" "0 \<le> r" "r < days_in_month m y"
  shows "0 \<le> sum_months 0 m y 0 + r" "sum_months 0 m y 0 + r < days_in_year y"
proof -
  show "0 \<le> sum_months 0 m y 0 + r" using sum_months_nonneg [of 0 m y] assms by simp
  have "days_in_year y = sum_months 0 m y 0 + (days_in_month m y + sum_months (m + 1) 12 y 0)"
    using sum_months_split [of 0 m 12 y] sum_months_step [of m 12 y] sum_months_year [of y] assms(1,2) by simp
  then show "sum_months 0 m y 0 + r < days_in_year y" using sum_months_nonneg [of "m + 1" 12 y] assms by simp
qed

text \<open>A date and time as \<^verbatim>\<open>gmtime\<close> produces them.\<close>

definition valid_tm :: "tm \<Rightarrow> bool" where
  "valid_tm t \<longleftrightarrow> 70 \<le> tm_year t \<and> 0 \<le> tm_mon t \<and> tm_mon t < 12 \<and>
     1 \<le> tm_mday t \<and> tm_mday t \<le> days_in_month (tm_mon t) (tm_year t + 1900) \<and>
     0 \<le> tm_hour t \<and> tm_hour t < 24 \<and> 0 \<le> tm_min t \<and> tm_min t < 60 \<and> 0 \<le> tm_sec t \<and> tm_sec t < 60 \<and>
     tm_wday t = (day_number (tm_year t + 1900) (tm_mon t) (tm_mday t) + 4) mod 7 \<and>
     tm_yday t = day_number (tm_year t + 1900) (tm_mon t) (tm_mday t) - day_number (tm_year t + 1900) 0 1 \<and> tm_isdst t = 0"

lemma day_number_loops:
  assumes "1970 \<le> y" "0 \<le> m" "m < 12"
  shows "day_number y m d = sum_years 1970 y 0 + sum_months 0 m y 0 + (d - 1)"
  using assms by (simp add: day_number_def sum_years_eq sum_months_eq)

lemma mktime_days:
  assumes "70 \<le> tm_year t" "0 \<le> tm_mon t" "tm_mon t < 12" "1 \<le> tm_mday t" "tm_mday t \<le> 31" "tm_year t + 1900 < 2 ^ 31"
  defines "n \<equiv> day_number (tm_year t + 1900) (tm_mon t) (tm_mday t)"
  shows "mktime (Some t) = Some (n * 86400 + tm_hour t * 3600 + tm_min t * 60 + tm_sec t,
    Some (t\<lparr>tm_wday := (n + 4) mod 7, tm_yday := n - day_number (tm_year t + 1900) 0 1, tm_isdst := 0\<rparr>))"
proof -
  define year where "year = tm_year t + 1900"
  have y: "1970 \<le> year" using assms(1) by (simp add: year_def)
  have n: "n = sum_years 1970 year 0 + sum_months 0 (tm_mon t) year 0 + (tm_mday t - 1)"
    unfolding n_def year_def [symmetric] using y assms(2,3) by (rule day_number_loops)
  have "0 \<le> sum_months 0 (tm_mon t) year 0" using assms(2,3) by (intro sum_months_nonneg) simp_all
  then have "0 \<le> n" using n sum_years_nonneg [of 1970 year] assms(4) by simp
  then have w: "(n + 4) smod 7 = (n + 4) mod 7" by (simp add: smod_pos)
  have j: "day_number year 0 1 = sum_years 1970 year 0" using y by (simp add: day_number_loops sum_months_stop)
  show ?thesis
    using assms(1-6) y w n j sum_months_acc [of 0 "tm_mon t" year "sum_years 1970 year 0"]
    by (simp add: mktime_def Let_def flip: year_def)
qed

text \<open>The time a date stands for.\<close>

definition tm_time :: "tm \<Rightarrow> int" where
  "tm_time t = day_number (tm_year t + 1900) (tm_mon t) (tm_mday t) * 86400 + tm_hour t * 3600 + tm_min t * 60 + tm_sec t"

section \<open>Round trips\<close>

lemma gmtime_eval:
  assumes "0 \<le> n" "0 \<le> s" "s < 86400" "year_loop n 1970 = (yd, y)" "month_loop yd 0 y = (md, m)"
  shows "gmtime st (Some (n * 86400 + s)) =
    (\<lparr>tm_sec = s mod 3600 mod 60, tm_min = s mod 3600 div 60, tm_hour = s div 3600, tm_mday = md + 1, tm_mon = m,
      tm_year = y - 1900, tm_wday = (n + 4) mod 7, tm_yday = yd, tm_isdst = 0\<rparr>, True)"
proof -
  have "0 \<le> n * 86400 + s" "(n * 86400 + s) div 86400 = n" "(n * 86400 + s) mod 86400 = s" using assms by simp_all
  then show ?thesis unfolding gmtime_def using assms by (simp add: c_arith Let_def)
qed

lemma sum_years_ge: "y \<le> year \<Longrightarrow> 365 * (year - y) \<le> sum_years y year 0"
proof (induction "nat (year - y)" arbitrary: y)
  case (Suc n)
  then have "y < year" "365 * (year - (y + 1)) \<le> sum_years (y + 1) year 0"
    using Suc.hyps(1) [of "y + 1"] by simp_all
  then show ?case using sum_years_step days_in_year_bounds [of y] by simp
qed (simp add: sum_years_stop)

lemma clock_fields:
  assumes "0 \<le> s" "s < (86400 :: int)"
  shows "0 \<le> s div 3600 \<and> s div 3600 < 24 \<and> 0 \<le> s mod 3600 div 60 \<and> s mod 3600 div 60 < 60 \<and>
    0 \<le> s mod 3600 mod 60 \<and> s mod 3600 mod 60 < 60 \<and> s div 3600 * 3600 + s mod 3600 div 60 * 60 + s mod 3600 mod 60 = s"
proof -
  have "s div 3600 * 3600 + s mod 3600 div 60 * 60 + s mod 3600 mod 60 = s"
    by (simp only: add.assoc div_mult_mod_eq)
  moreover have "s div 3600 < 24" "s mod 3600 div 60 < 60"
    using assms(2) pos_mod_bound [of 3600 s] by (simp_all add: div_less_iff_less_mult)
  moreover have "0 \<le> s div 3600" "0 \<le> s mod 3600 div 60" using assms(1) by (simp_all add: pos_imp_zdiv_nonneg_iff)
  ultimately show ?thesis by (simp only: pos_mod_sign pos_mod_bound zero_less_numeral)
qed

lemma gmtime_date:
  assumes "0 \<le> n" "0 \<le> s" "s < 86400"
  shows "\<exists>t. gmtime st (Some (n * 86400 + s)) = (t, True) \<and> valid_tm t \<and> tm_time t = n * 86400 + s"
proof -
  obtain yd y where y: "year_loop n 1970 = (yd, y)" "1970 \<le> y" "0 \<le> yd" "yd < days_in_year y" "sum_years 1970 y 0 + yd = n"
    using year_loop_spec [OF assms(1), of 1970] by blast
  obtain md m where m: "month_loop yd 0 y = (md, m)" "0 \<le> m" "m < 12" "0 \<le> md" "md < days_in_month m y" "sum_months 0 m y 0 + md = yd"
    using month_loop_spec [of 0 yd y] y(3,4) sum_months_year [of y] by auto
  have dn: "day_number y m (md + 1) = n" using day_number_loops [OF y(2) m(2,3)] y(5) m(6) by simp
  have d1: "day_number y 0 1 = sum_years 1970 y 0" using y(2) by (simp add: day_number_loops sum_months_stop)
  define hh mi se where o: "hh = s div 3600" "mi = s mod 3600 div 60" "se = s mod 3600 mod 60"
  have hms: "0 \<le> hh" "hh < 24" "0 \<le> mi" "mi < 60" "0 \<le> se" "se < 60" "hh * 3600 + mi * 60 + se = s"
    unfolding o using clock_fields [OF assms(2,3)] by blast+
  define t where "t = \<lparr>tm_sec = se, tm_min = mi, tm_hour = hh, tm_mday = md + 1, tm_mon = m,
    tm_year = y - 1900, tm_wday = (n + 4) mod 7, tm_yday = yd, tm_isdst = 0\<rparr>"
  have g: "gmtime st (Some (n * 86400 + s)) = (t, True)"
    unfolding t_def o using assms y(1) m(1) by (rule gmtime_eval)
  have v: "valid_tm t"
    unfolding valid_tm_def t_def using y(2,5) m(2-6) dn d1 hms(1-6) by simp
  have "tm_time t = n * 86400 + s" using dn hms(7) by (simp add: t_def tm_time_def)
  then show ?thesis using g v by blast
qed

text \<open>
  C19: every time from 1970 on and below \<open>2\<^sup>55\<close> seconds becomes a valid date, with its weekday and its day of the year, whose fields fit their
  types, and converting the date back gives the time.
\<close>

theorem gmtime_mktime:
  assumes "0 \<le> time" "time < 2 ^ 55"
  shows "case gmtime st (Some time) of (t, ok) \<Rightarrow>
    ok \<and> valid_tm t \<and> tm_year t < 2 ^ 31 \<and> mktime (Some t) = Some (time, Some t)"
proof -
  obtain t where t: "gmtime st (Some time) = (t, True)" "valid_tm t" "tm_time t = time"
    using gmtime_date [of "time div 86400" "time mod 86400" st] assms(1)
    by (auto simp: div_mult_mod_eq pos_imp_zdiv_nonneg_iff)
  define n where "n = day_number (tm_year t + 1900) (tm_mon t) (tm_mday t)"
  have md: "tm_mday t \<le> 31" using t(2) days_in_month_bounds [of "tm_mon t" "tm_year t + 1900"] by (auto simp: valid_tm_def)
  have v: "70 \<le> tm_year t" "0 \<le> tm_mon t" "tm_mon t < 12" "1 \<le> tm_mday t" "tm_mday t \<le> 31"
    using t(2) md by (auto simp: valid_tm_def)
  have y: "tm_year t + 1900 < 2 ^ 31"
  proof -
    have "n = sum_years 1970 (tm_year t + 1900) 0 + (sum_months 0 (tm_mon t) (tm_year t + 1900) 0 + (tm_mday t - 1))"
      using day_number_loops [of "tm_year t + 1900" "tm_mon t" "tm_mday t"] v by (simp add: n_def)
    moreover have "0 \<le> sum_months 0 (tm_mon t) (tm_year t + 1900) 0 + (tm_mday t - 1)"
      using yday_bounds(1) [of "tm_mon t" "tm_mday t - 1" "tm_year t + 1900"] t(2) by (auto simp: valid_tm_def)
    ultimately have "365 * (tm_year t - 70) \<le> n" using sum_years_ge [of 1970 "tm_year t + 1900"] v(1) by simp
    moreover have "n * 86400 \<le> time" using t(2,3) by (simp add: valid_tm_def tm_time_def n_def)
    ultimately show ?thesis using assms(2) by simp
  qed
  have "mktime (Some t) = Some (time, Some t)"
    using mktime_days [OF v y] t(2,3) by (simp add: valid_tm_def tm_time_def)
  then show ?thesis using t y by simp
qed

text \<open>
  C20: \<^verbatim>\<open>gmtime\<close> inverts \<^verbatim>\<open>mktime\<close> on every valid date from 1970 on whose year fits an \<^verbatim>\<open>int\<close>; beyond, the addition in \<^verbatim>\<open>mktime\<close> overflows.
\<close>

theorem mktime_gmtime:
  assumes "valid_tm t" "tm_year t + 1900 < 2 ^ 31"
  shows "\<exists>time. mktime (Some t) = Some (time, Some t) \<and> gmtime st (Some time) = (t, True)"
proof -
  define y where "y = tm_year t + 1900"
  define n where "n = day_number y (tm_mon t) (tm_mday t)"
  define s where "s = tm_hour t * 3600 + tm_min t * 60 + tm_sec t"
  have v: "1970 \<le> y" "0 \<le> tm_mon t" "tm_mon t < 12" "1 \<le> tm_mday t" "tm_mday t \<le> days_in_month (tm_mon t) y"
    using assms by (auto simp: valid_tm_def y_def)
  have md: "tm_mday t \<le> 31" using v days_in_month_bounds [of "tm_mon t" y] by auto
  have mk: "mktime (Some t) = Some (n * 86400 + s, Some t)"
    using mktime_days [of t] v md assms by (simp add: n_def s_def y_def valid_tm_def)
  define yd where "yd = sum_months 0 (tm_mon t) y 0 + (tm_mday t - 1)"
  have n: "n = sum_years 1970 y 0 + yd" using day_number_loops [OF v(1-3)] by (simp add: n_def yd_def)
  have ml: "month_loop yd 0 y = (tm_mday t - 1, tm_mon t)"
    unfolding yd_def using v by (intro month_loop_inverse) auto
  have yd: "0 \<le> yd" "yd < days_in_year y"
    unfolding yd_def using yday_bounds [of "tm_mon t" "tm_mday t - 1" y] v by simp_all
  then have yl: "year_loop n 1970 = (yd, y)" unfolding n using v(1) by (intro year_loop_inverse)
  have hms: "0 \<le> tm_hour t" "tm_hour t < 24" "0 \<le> tm_min t" "tm_min t < 60" "0 \<le> tm_sec t" "tm_sec t < 60"
    using assms by (auto simp: valid_tm_def)
  have s: "0 \<le> s" "s < 86400" "s div 3600 = tm_hour t" "s mod 3600 = tm_min t * 60 + tm_sec t"
    unfolding s_def using hms
    by (auto intro: int_div_pos_eq int_mod_pos_eq [where q = "tm_hour t"])
  have d1: "day_number y 0 1 = sum_years 1970 y 0" using v(1) by (simp add: day_number_loops sum_months_stop)
  have n0: "0 \<le> n" using n yd(1) sum_years_nonneg [of 1970 y] by simp
  have "tm_wday t = (n + 4) mod 7" "tm_yday t = yd" "tm_isdst t = 0" "tm_year t = y - 1900"
    using assms d1 n by (auto simp: valid_tm_def n_def y_def)
  then have "gmtime st (Some (n * 86400 + s)) = (t, True)"
    unfolding gmtime_eval [OF n0 s(1,2) yl ml] using s hms by (cases t) simp
  then show ?thesis using mk by blast
qed

lemma mktime_overflow: "2 ^ 31 \<le> tm_year t + 1900 \<Longrightarrow> mktime (Some t) = None"
  by (simp add: mktime_def)

abbreviation leap_day :: tm where
  "leap_day \<equiv> \<lparr>tm_sec = 7, tm_min = 30, tm_hour = 12, tm_mday = 29, tm_mon = 1, tm_year = 100, tm_wday = 2, tm_yday = 59, tm_isdst = 0\<rparr>"

theorem gmtime_mktime_witness:
  "case gmtime leap_day (Some 951868800) of (t, ok) \<Rightarrow>
    ok \<and> valid_tm t \<and> tm_year t < 2 ^ 31 \<and> mktime (Some t) = Some (951868800, Some t)"
  by (rule gmtime_mktime) simp_all

theorem mktime_gmtime_witness:
  "mktime (Some leap_day) = Some (951827407, Some leap_day) \<and> gmtime leap_day (Some 951827407) = (leap_day, True)"
proof -
  have v: "valid_tm leap_day"
    by (simp add: valid_tm_def day_number_def leap_years_def month_starts_def days_in_month_def is_leap_year_mod)
  have "mktime (Some leap_day) = Some (951827407, Some leap_day)"
    using mktime_days [of leap_day] by (simp add: day_number_def leap_years_def month_starts_def is_leap_year_mod)
  then show ?thesis using mktime_gmtime [OF v, of leap_day] by simp
qed

text \<open>
  The 31st is accepted in every month: 31 February 2001 is converted as 3 March, and the structure keeps the impossible
  date.  A month outside the year is refused where the C standard has it normalised.
\<close>

lemma mktime_no_normalise:
  "mktime (Some (leap_day\<lparr>tm_year := 101, tm_mday := 31, tm_hour := 0, tm_min := 0, tm_sec := 0\<rparr>)) =
     Some (983577600, Some (leap_day\<lparr>tm_year := 101, tm_mday := 31, tm_hour := 0, tm_min := 0, tm_sec := 0, tm_wday := 6, tm_yday := 61\<rparr>))"
  "mktime (Some (leap_day\<lparr>tm_mon := 12\<rparr>)) = Some (- 1, Some (leap_day\<lparr>tm_mon := 12\<rparr>))"
  by (subst mktime_days; simp add: day_number_def leap_years_def month_starts_def is_leap_year_mod) (simp add: mktime_def)

section \<open>Formatting\<close>

lemma num_to_str_length [simp]: "length (num_to_str w n) = w"
  by (induction w arbitrary: n) simp_all

lemma num_to_str_numeral:
  "num_to_str (numeral k) n = num_to_str (pred_numeral k) (n sdiv 10) @ [word_of_int (48 + n smod 10)]"
  by (simp add: numeral_eq_Suc)

definition dec_value :: "byte list \<Rightarrow> int" where
  "dec_value xs = foldl (\<lambda>v d. 10 * v + (uint d - 48)) 0 xs"

lemma num_to_str_digits:
  assumes "0 \<le> n" "n < 10 ^ w"
  shows "dec_value (num_to_str w n) = n \<and> list_all (\<lambda>d. 48 \<le> d \<and> d \<le> 57) (num_to_str w n)"
  using assms
proof (induction w arbitrary: n)
  case 0
  then show ?case by (simp add: dec_value_def)
next
  case (Suc w)
  have n: "0 \<le> n div 10" "n div 10 < 10 ^ w"
    using Suc.prems by (simp_all add: pos_imp_zdiv_nonneg_iff div_less_iff_less_mult)
  have d: "0 \<le> n mod 10" "n mod 10 < 10" by simp_all
  then have u: "uint (word_of_int (48 + n mod 10) :: byte) = 48 + n mod 10"
    by (simp only: uint_word_of_int) simp
  then have "48 \<le> (word_of_int (48 + n mod 10) :: byte)" "(word_of_int (48 + n mod 10) :: byte) \<le> 57"
    using d by (simp_all add: word_le_def)
  then show ?case
    using Suc.IH [OF n] u Suc.prems(1) by (simp add: c_arith dec_value_def)
qed

text \<open>What a format means, before the cut at the buffer's end.\<close>

fun strf_text :: "tm \<Rightarrow> byte list \<Rightarrow> byte list" where
  "strf_text t [] = []"
| "strf_text t (c # fmt) =
     (if c \<noteq> 37 then c # strf_text t fmt
      else case fmt of [] \<Rightarrow> [37] | d # rest \<Rightarrow> strf_conv t d @ strf_text t rest)"

lemma strf_emit_wr:
  "pos \<le> mx - 1 \<Longrightarrow> strf_emit m s mx xs pos = (wr m (s + pos) (take (mx - 1 - pos) xs), pos + min (length xs) (mx - 1 - pos))"
proof (induction xs arbitrary: m pos)
  case (Cons x xs)
  show ?case
  proof (cases "pos < mx - 1")
    case True
    then have "mx - 1 - pos = Suc (mx - 1 - Suc pos)" by simp
    then show ?thesis using True Cons.IH [of "Suc pos" "m(s + pos := x)"] by (simp del: fun_upd_apply)
  next
    case False
    then show ?thesis using Cons.prems by simp
  qed
qed simp

lemma strf_loop_wr:
  "pos \<le> mx - 1 \<Longrightarrow> strf_loop m s mx t fmt pos =
     (wr m (s + pos) (take (mx - 1 - pos) (strf_text t fmt)), pos + min (length (strf_text t fmt)) (mx - 1 - pos))"
proof (induction m s mx t fmt pos rule: strf_loop.induct)
  case (2 m s mx t c fmt pos)
  show ?case
  proof (cases "pos < mx - 1")
    case False
    then show ?thesis using 2(3) by simp
  next
    case lt: True
    then have k: "mx - 1 - pos = Suc (mx - 1 - Suc pos)" by simp
    show ?thesis
    proof (cases "c = 37")
      case False
      then show ?thesis using 2(1) [OF lt] lt k by (simp del: fun_upd_apply)
    next
      case True
      show ?thesis
      proof (cases fmt)
        case Nil
        then show ?thesis using True lt k by (simp del: fun_upd_apply)
      next
        case (Cons d rest)
        define x where "x = strf_conv t d"
        have e: "strf_emit m s mx x pos = (wr m (s + pos) (take (mx - 1 - pos) x), pos + min (length x) (mx - 1 - pos))"
          using lt by (intro strf_emit_wr) simp
        have "strf_loop m s mx t (c # fmt) pos = strf_loop (wr m (s + pos) (take (mx - 1 - pos) x)) s mx t rest (pos + min (length x) (mx - 1 - pos))"
          using True Cons lt e by (simp add: x_def)
        also have "\<dots> = (wr (wr m (s + pos) (take (mx - 1 - pos) x)) (s + (pos + min (length x) (mx - 1 - pos)))
            (take (mx - 1 - (pos + min (length x) (mx - 1 - pos))) (strf_text t rest)),
          pos + min (length x) (mx - 1 - pos) + min (length (strf_text t rest)) (mx - 1 - (pos + min (length x) (mx - 1 - pos))))"
          using 2(2) [OF lt _ Cons e [unfolded x_def, symmetric]] True lt by (simp add: x_def)
        also have "\<dots> = (wr m (s + pos) (take (mx - 1 - pos) (x @ strf_text t rest)), pos + min (length (x @ strf_text t rest)) (mx - 1 - pos))"
          by (auto simp: wr_append min_def add.assoc)
        finally show ?thesis using True Cons by (simp add: x_def)
      qed
    qed
  qed
qed simp

text \<open>
  \<^verbatim>\<open>strftime\<close> writes the expansion of the format, cut to the buffer, and its terminator, nothing else, and returns the
  number of bytes before the terminator.
\<close>

theorem strftime_writes:
  assumes "s \<noteq> NULL" "0 < mx"
  shows "let out = take (mx - 1) (strf_text t fmt)
    in strftime m s mx (Some fmt) (Some t) = (wr m s (out @ [0]), length out)"
  using assms strf_loop_wr [of 0 mx m s t fmt]
  by (simp add: strftime_def wr_append Let_def min.commute)

theorem strftime_writes_witness:
  "strftime (\<lambda>_. 0) 100 8 (Some [37, 89, 45, 37, 109]) (Some leap_day) = (wr (\<lambda>_. 0) 100 [50, 48, 48, 48, 45, 48, 50, 0], 7)"
proof -
  have "strf_text leap_day [37, 89, 45, 37, 109] = [50, 48, 48, 48, 45, 48, 50]"
    by (simp add: strf_conv_def num_to_str_numeral)
  then show ?thesis using strftime_writes [of 100 8 leap_day "[37, 89, 45, 37, 109]" "\<lambda>_. 0"] by (simp add: Let_def)
qed

text \<open>
  The text of \<^verbatim>\<open>asctime\<close> always has 24 characters, a newline and the terminator, so it fits the static buffer of 32 bytes and
  the 26 bytes the reentrant variants copy.
\<close>

lemma asctime_length: "asctime (Some t) = Some out \<Longrightarrow> length out = 26 \<and> drop 24 out = [10, 0]"
proof -
  assume "asctime (Some t) = Some out"
  moreover have "length (day_names ! k) = 3" if "k < 7" for k
    using that by (auto simp: day_names_def less_Suc_eq numeral_eq_Suc)
  moreover have "length (month_names ! k) = 3" if "k < 12" for k
    using that by (auto simp: month_names_def less_Suc_eq numeral_eq_Suc)
  ultimately show ?thesis by (auto simp: asctime_def Let_def split: if_splits)
qed

end
