(* ===== verification/Utf8.thy ===== *)
theory Utf8
  imports Prelude
begin

text \<open>
  Multibyte characters of \<^verbatim>\<open>include/wchar.h\<close> and \<^verbatim>\<open>include/uchar.h\<close>: UTF-8 from and to \<^verbatim>\<open>wchar_t\<close>, the string conversions, and
  the UTF-16 and UTF-32 interfaces.

  \<^verbatim>\<open>wchar_t\<close> is \<^verbatim>\<open>int\<close>, as for clang on wasm32 and Linux, and an unbounded integer here; \<^verbatim>\<open>size_t\<close> results are integers, the error
  values \<^verbatim>\<open>(size_t)-1\<close>, \<^verbatim>\<open>-2\<close>, \<^verbatim>\<open>-3\<close> being negative.  \<^verbatim>\<open>errno\<close> is set to \<^verbatim>\<open>EILSEQ\<close> where a function says so.
\<close>

section \<open>One character\<close>

record mbstate =
  mb_wc :: int
  mb_bytes :: int
  mb_want :: int

definition zero_state :: mbstate where
  "zero_state = \<lparr>mb_wc = 0, mb_bytes = 0, mb_want = 0\<rparr>"

text \<open>
  The result: the returned value, the value stored through \<^verbatim>\<open>pwc\<close> (which happens before the last check), and the value set
  in \<^verbatim>\<open>errno\<close>.  \<open>pwc\<close> says whether the pointer is not NULL.
\<close>

type_synonym mbres = "int \<times> int option \<times> int option"

definition ilseq :: "int option \<Rightarrow> mbres" where
  "ilseq stored = (- 1, stored, Some EILSEQ)"

definition is_cont :: "byte \<Rightarrow> bool" where
  "is_cont b \<longleftrightarrow> uint b AND 0xC0 = 0x80"

text \<open>Storing a decoded value when \<^verbatim>\<open>pwc\<close> is given, and refusing it when it is stored and \<open>bad\<close>.\<close>

definition mb_store :: "bool \<Rightarrow> int \<Rightarrow> bool \<Rightarrow> int \<Rightarrow> mbres" where
  "mb_store pwc wc bad k = (if pwc then (if bad then ilseq (Some wc) else (k, Some wc, None)) else (k, None, None))"

definition mbrtowc :: "mem \<Rightarrow> bool \<Rightarrow> ptr \<Rightarrow> nat \<Rightarrow> mbres" where
  "mbrtowc m pwc s n =
     (if s = NULL then (0, None, None)
      else if n = 0 then (- 2, None, None)
      else
        let c = uint (m s); s1 = m (s + 1); s2 = m (s + 2); s3 = m (s + 3) in
        if c < 0x80 then (if c \<noteq> 0 then 1 else 0, if pwc then Some c else None, None)
        else if c AND 0xE0 = 0xC0 then
          (if n < 2 then (- 2, None, None)
           else if \<not> is_cont s1 then ilseq None
           else let wc = push_bit 6 (c AND 0x1F) OR (uint s1 AND 0x3F) in mb_store pwc wc (wc < 0x80) 2)
        else if c AND 0xF0 = 0xE0 then
          (if n < 3 then (- 2, None, None)
           else if \<not> is_cont s1 \<or> \<not> is_cont s2 then ilseq None
           else
             let wc = push_bit 12 (c AND 0x0F) OR push_bit 6 (uint s1 AND 0x3F) OR (uint s2 AND 0x3F)
             in mb_store pwc wc (wc < 0x800 \<or> (wc \<ge> 0xD800 \<and> wc \<le> 0xDFFF)) 3)
        else if c AND 0xF8 = 0xF0 then
          (if n < 4 then (- 2, None, None)
           else if \<not> is_cont s1 \<or> \<not> is_cont s2 \<or> \<not> is_cont s3 then ilseq None
           else
             let wc = push_bit 18 (c AND 0x07) OR push_bit 12 (uint s1 AND 0x3F) OR push_bit 6 (uint s2 AND 0x3F) OR (uint s3 AND 0x3F)
             in mb_store pwc wc (wc < 0x10000 \<or> wc > 0x10FFFF) 4)
        else ilseq None)"

text \<open>The state \<^verbatim>\<open>mbrtowc\<close> leaves: it is cleared when there is no string.\<close>

definition mbrtowc_state :: "ptr \<Rightarrow> mbstate \<Rightarrow> mbstate" where
  "mbrtowc_state s st = (if s = NULL then zero_state else st)"

text \<open>The bytes \<^verbatim>\<open>wcrtomb\<close> writes, \<open>None\<close> for \<^verbatim>\<open>EILSEQ\<close>.  There is no check for a negative value, which is written as one byte.\<close>

definition utf8_byte :: "int \<Rightarrow> byte" where
  "utf8_byte x = word_of_int x"

definition wcrtomb_bytes :: "int \<Rightarrow> byte list option" where
  "wcrtomb_bytes wc =
     (if wc > 0x10FFFF \<or> (wc \<ge> 0xD800 \<and> wc \<le> 0xDFFF) then None
      else if wc < 0x80 then Some [utf8_byte wc]
      else if wc < 0x800 then Some [utf8_byte (0xC0 OR drop_bit 6 wc), utf8_byte (0x80 OR (wc AND 0x3F))]
      else if wc < 0x10000 then
        Some [utf8_byte (0xE0 OR drop_bit 12 wc), utf8_byte (0x80 OR (drop_bit 6 wc AND 0x3F)), utf8_byte (0x80 OR (wc AND 0x3F))]
      else
        Some [utf8_byte (0xF0 OR drop_bit 18 wc), utf8_byte (0x80 OR (drop_bit 12 wc AND 0x3F)),
              utf8_byte (0x80 OR (drop_bit 6 wc AND 0x3F)), utf8_byte (0x80 OR (wc AND 0x3F))])"

definition wcrtomb :: "mem \<Rightarrow> ptr \<Rightarrow> int \<Rightarrow> mbstate \<Rightarrow> mem \<times> mbstate \<times> int \<times> int option" where
  "wcrtomb m s wc st =
     (if s = NULL then (m, zero_state, 1, None)
      else case wcrtomb_bytes wc of
        None \<Rightarrow> (m, st, - 1, Some EILSEQ)
      | Some bs \<Rightarrow> (wr m s bs, st\<lparr>mb_wc := 0\<rparr>, int (length bs), None))"

definition mbtowc :: "mem \<Rightarrow> bool \<Rightarrow> ptr \<Rightarrow> nat \<Rightarrow> mbres" where
  "mbtowc m pwc s n = mbrtowc m pwc s n"

definition wctomb :: "mem \<Rightarrow> ptr \<Rightarrow> int \<Rightarrow> mem \<times> int \<times> int option" where
  "wctomb m s wc =
     (if s = NULL then (m, 0, None) else let (m1, st, k, e) = wcrtomb m s wc zero_state in (m1, k, e))"

definition mbrlen :: "mem \<Rightarrow> ptr \<Rightarrow> nat \<Rightarrow> int \<times> int option" where
  "mbrlen m s n =
     (if s = NULL then (0, None)
      else if n = 0 then (- 2, None)
      else
        let c = uint (m s); s1 = m (s + 1); s2 = m (s + 2); s3 = m (s + 3); bad = (- 1, Some EILSEQ) in
        if c < 0x80 then (if c \<noteq> 0 then 1 else 0, None)
        else if c AND 0xE0 = 0xC0 then
          (if n < 2 then (- 2, None)
           else if \<not> is_cont s1 then bad
           else if c AND 0x1E = 0 then bad
           else (2, None))
        else if c AND 0xF0 = 0xE0 then
          (if n < 3 then (- 2, None)
           else if \<not> is_cont s1 \<or> \<not> is_cont s2 then bad
           else if c = 0xE0 \<and> uint s1 AND 0x20 = 0 then bad
           else if c = 0xED \<and> uint s1 AND 0x20 \<noteq> 0 then bad
           else (3, None))
        else if c AND 0xF8 = 0xF0 then
          (if n < 4 then (- 2, None)
           else if \<not> is_cont s1 \<or> \<not> is_cont s2 \<or> \<not> is_cont s3 then bad
           else if c = 0xF0 \<and> uint s1 AND 0x30 = 0 then bad
           else if c > 0xF4 \<or> (c = 0xF4 \<and> uint s1 AND 0x30 \<noteq> 0) then bad
           else (4, None))
        else bad)"

definition mbsinit :: "mbstate option \<Rightarrow> int" where
  "mbsinit ps = (case ps of None \<Rightarrow> 1 | Some st \<Rightarrow> if st = zero_state then 1 else 0)"

definition mblen :: "mem \<Rightarrow> ptr \<Rightarrow> nat \<Rightarrow> int" where
  "mblen m s n = fst (mbtowc m False s n)"

section \<open>Strings\<close>

text \<open>
  A destination array is the list of values stored in it, from its start; \<open>pw\<close>, \<open>dst\<close> say whether there is one.  A source
  of wide characters is the list before its terminator.  The loops over a byte string are partial: they end at its
  terminator.
\<close>

definition MB_CUR_MAX :: nat where "MB_CUR_MAX = 4"

partial_function (option) mbstowcs_loop :: "mem \<Rightarrow> bool \<Rightarrow> nat \<Rightarrow> ptr \<Rightarrow> nat \<Rightarrow> int list \<Rightarrow> (int \<times> int list) option" where
  [code]: "mbstowcs_loop m pw n s i acc =
     (if (\<not> pw \<or> i < n) \<and> m s \<noteq> 0 then
        (let (b, v, e) = mbtowc m pw s MB_CUR_MAX; acc1 = acc @ (case v of None \<Rightarrow> [] | Some x \<Rightarrow> [x]) in
         if b < 0 then Some (- 1, acc1)
         else if b = 0 then Some (int i, acc1)
         else mbstowcs_loop m pw n (s + nat b) (i + 1) acc1)
      else Some (int i, acc))"

definition mbstowcs :: "mem \<Rightarrow> bool \<Rightarrow> ptr \<Rightarrow> nat \<Rightarrow> (int \<times> int list) option" where
  "mbstowcs m pw s n = (if s = NULL then Some (0, []) else mbstowcs_loop m pw n s 0 [])"

fun wcstombs_loop :: "bool \<Rightarrow> nat \<Rightarrow> int list \<Rightarrow> nat \<Rightarrow> int \<times> byte list" where
  "wcstombs_loop s n [] t = (int t, [])"
| "wcstombs_loop s n (w # ws) t =
     (case wcrtomb_bytes w of
        None \<Rightarrow> (- 1, [])
      | Some bs \<Rightarrow>
          if s \<and> t + length bs > n then (int t, [])
          else let (r, out) = wcstombs_loop s n ws (t + length bs) in (r, if s then bs @ out else out))"

definition wcstombs :: "bool \<Rightarrow> int list option \<Rightarrow> nat \<Rightarrow> int \<times> byte list" where
  "wcstombs s pw n = (case pw of None \<Rightarrow> (0, []) | Some ws \<Rightarrow> wcstombs_loop s n ws 0)"

text \<open>The restartable versions; the last component is the source pointer they leave, \<open>None\<close> being NULL.\<close>

partial_function (option) mbsrtowcs_loop :: "mem \<Rightarrow> bool \<Rightarrow> nat \<Rightarrow> ptr \<Rightarrow> nat \<Rightarrow> int list \<Rightarrow> (int \<times> int list \<times> ptr option) option" where
  [code]: "mbsrtowcs_loop m dst len s i acc =
     (if i < len \<or> \<not> dst then
        (if m s = 0 then Some (int i, if dst then acc @ [0] else acc, None)
         else let (b, v, e) = mbrtowc m True s MB_CUR_MAX in
           if b = - 1 \<or> b = - 2 then Some (- 1, acc, Some s)
           else mbsrtowcs_loop m dst len (s + nat b) (i + 1) (if dst then acc @ [the v] else acc))
      else Some (int i, acc, Some s))"

definition mbsrtowcs :: "mem \<Rightarrow> bool \<Rightarrow> ptr \<Rightarrow> nat \<Rightarrow> (int \<times> int list \<times> ptr option) option" where
  "mbsrtowcs m dst src len = mbsrtowcs_loop m dst len src 0 []"

text \<open>With a limit on the bytes read, \<open>e\<close> being its end.\<close>

partial_function (option) mbsnrtowcs_loop :: "mem \<Rightarrow> bool \<Rightarrow> ptr \<Rightarrow> nat \<Rightarrow> ptr \<Rightarrow> nat \<Rightarrow> int list \<Rightarrow> (int \<times> int list \<times> ptr option) option" where
  [code]: "mbsnrtowcs_loop m dst e len s i acc =
     (if i < len \<or> \<not> dst then
        (if s \<ge> e \<or> m s = 0 then
           Some (int i, if dst \<and> i < len then acc @ [0] else acc, if m s = 0 then None else Some s)
         else let (b, v, er) = mbrtowc m True s (e - s) in
           if b = - 1 \<or> b = - 2 then Some (- 1, acc, Some s)
           else mbsnrtowcs_loop m dst e len (s + nat b) (i + 1) (if dst then acc @ [the v] else acc))
      else Some (int i, acc, Some s))"

definition mbsnrtowcs :: "mem \<Rightarrow> bool \<Rightarrow> ptr \<Rightarrow> nat \<Rightarrow> nat \<Rightarrow> (int \<times> int list \<times> ptr option) option" where
  "mbsnrtowcs m dst src nms len = mbsnrtowcs_loop m dst (src + nms) len src 0 []"

text \<open>The bytes stored, the count, and what is left of the source; \<open>Inl\<close> is the source at an invalid character.\<close>

fun wcsr_loop :: "bool \<Rightarrow> nat \<Rightarrow> int list \<Rightarrow> nat \<Rightarrow> int list + (nat \<times> byte list \<times> int list)" where
  "wcsr_loop dst len [] i = Inr (i, [], [])"
| "wcsr_loop dst len (w # ws) i =
     (case wcrtomb_bytes w of
        None \<Rightarrow> Inl (w # ws)
      | Some bs \<Rightarrow>
          if dst \<and> i + length bs > len then Inr (i, [], w # ws)
          else (case wcsr_loop dst len ws (i + length bs) of
                  Inl rest \<Rightarrow> Inl rest
                | Inr (k, out, rest) \<Rightarrow> Inr (k, if dst then bs @ out else out, rest)))"

definition wcsrtombs :: "bool \<Rightarrow> int list \<Rightarrow> nat \<Rightarrow> int \<times> byte list \<times> int list option" where
  "wcsrtombs dst src len =
     (case wcsr_loop dst len src 0 of
        Inl rest \<Rightarrow> (- 1, [], Some rest)
      | Inr (i, out, rest) \<Rightarrow>
          (int i, if dst \<and> i < len then out @ [0] else out, if rest = [] then None else Some rest))"

text \<open>The version with a limit \<open>nwc\<close>; it looks at the character behind the limit.\<close>

definition wcsnrtombs :: "bool \<Rightarrow> int list \<Rightarrow> nat \<Rightarrow> nat \<Rightarrow> int \<times> byte list \<times> int list option" where
  "wcsnrtombs dst src nwc len =
     (case wcsr_loop dst len (take nwc src) 0 of
        Inl rest \<Rightarrow> (- 1, [], Some (rest @ drop nwc src))
      | Inr (i, out, rest) \<Rightarrow>
          (int i, if dst \<and> i < len then out @ [0] else out, if rest @ drop nwc src = [] then None else Some (rest @ drop nwc src)))"

section \<open>UTF-16 and UTF-32\<close>

text \<open>
  The state's first field holds the pending low surrogate (when decoding) or high surrogate (when encoding).  A NULL string stands
  for the empty string.
\<close>

definition mbrtoc16 :: "mem \<Rightarrow> bool \<Rightarrow> ptr \<Rightarrow> nat \<Rightarrow> mbstate \<Rightarrow> int \<times> int option \<times> mbstate" where
  "mbrtoc16 m pc16 s n st =
     (let pc = (pc16 \<and> s \<noteq> NULL) in
      if mb_wc st > 0 then (- 3, if pc then Some (mb_wc st) else None, st\<lparr>mb_wc := 0\<rparr>)
      else
        let (ret, v, e) = (if s = NULL then (0, Some 0, None) else mbrtowc m True s n) in
        if 0 \<le> ret \<and> ret \<le> 4 then
          (let wc = the v in
           if wc = 0 then (0, if pc then Some 0 else None, st)
           else if wc \<ge> 0x10000 then (ret, if pc then Some (0xD7C0 + drop_bit 10 wc) else None, st\<lparr>mb_wc := (wc AND 0x3FF) + 0xDC00\<rparr>)
           else (ret, if pc then Some wc else None, st))
        else (ret, None, st))"

definition c16rtomb :: "mem \<Rightarrow> ptr \<Rightarrow> int \<Rightarrow> mbstate \<Rightarrow> mem \<times> mbstate \<times> int \<times> int option" where
  "c16rtomb m s c16 st =
     (if s = NULL then (m, st\<lparr>mb_wc := 0\<rparr>, 1, None)
      else if c16 = 0 then (if mb_wc st \<noteq> 0 then (m, st, - 1, None) else wcrtomb m s 0 st)
      else if mb_wc st \<noteq> 0 then
        (if c16 < 0xDC00 \<or> c16 \<ge> 0xE000 then (m, st\<lparr>mb_wc := 0\<rparr>, - 1, Some EILSEQ)
         else wcrtomb m s (0x10000 + push_bit 10 (mb_wc st - 0xD800) + (c16 - 0xDC00)) (st\<lparr>mb_wc := 0\<rparr>))
      else if c16 \<ge> 0xD800 \<and> c16 < 0xDC00 then (m, st\<lparr>mb_wc := c16\<rparr>, 0, None)
      else if c16 \<ge> 0xDC00 \<and> c16 < 0xE000 then (m, st, - 1, Some EILSEQ)
      else wcrtomb m s c16 st)"

definition mbrtoc32 :: "mem \<Rightarrow> bool \<Rightarrow> ptr \<Rightarrow> nat \<Rightarrow> int \<times> int option" where
  "mbrtoc32 m pc32 s n =
     (if s = NULL then (0, None)
      else let (ret, v, e) = mbrtowc m True s n in (ret, if 0 \<le> ret \<and> ret \<le> 4 \<and> pc32 then v else None))"

definition c32rtomb :: "mem \<Rightarrow> ptr \<Rightarrow> int \<Rightarrow> mbstate \<Rightarrow> mem \<times> mbstate \<times> int \<times> int option" where
  "c32rtomb m s c32 st = (if s = NULL then (m, st\<lparr>mb_wc := 0\<rparr>, 1, None) else wcrtomb m s c32 st)"

section \<open>Arithmetic of the encoding\<close>

lemma low_mask: "x AND mask k = x mod (2 ^ k :: int)"
  by (simp add: take_bit_eq_mod flip: take_bit_eq_mask)

lemma high_mask: "x AND push_bit k (mask j) = (x div 2 ^ k) mod 2 ^ j * (2 ^ k :: int)"
proof -
  have "x AND push_bit k (mask j) = push_bit k (take_bit j (drop_bit k x))"
    by (rule bit_eqI) (auto simp: bit_simps)
  then show ?thesis by (simp add: push_bit_eq_mult take_bit_eq_mod drop_bit_eq_div)
qed

lemma or_low:
  assumes "0 \<le> b" "b < 2 ^ k"
  shows "push_bit k a OR b = a * 2 ^ k + (b :: int)"
proof -
  have "take_bit k b = b" using assms by (intro take_bit_int_eq_self)
  then have "\<not> bit b n" if "k \<le> n" for n using that by (metis bit_take_bit_iff not_le)
  then have "push_bit k a OR b = push_bit k a + b"
    by (intro disjunctive_add [symmetric]) (auto simp: bit_simps)
  then show ?thesis by (simp add: push_bit_eq_mult)
qed

lemma and_masks:
  fixes x :: int
  shows "x AND 0x3F = x mod 64" "x AND 0x1F = x mod 32" "x AND 0x0F = x mod 16" "x AND 0x07 = x mod 8"
  using low_mask [of x 6] low_mask [of x 5] low_mask [of x 4] low_mask [of x 3] by (simp_all add: mask_eq_exp_minus_1)

lemma and_high_mask:
  "push_bit k (mask j) = c \<Longrightarrow> 2 ^ k = p \<Longrightarrow> 2 ^ j = q \<Longrightarrow> x AND c = (x div p) mod q * (p :: int)"
  using high_mask by blast

lemma and_high_masks:
  fixes x :: int
  shows "x AND 0xC0 = (x div 64) mod 4 * 64" "x AND 0xE0 = (x div 32) mod 8 * 32" "x AND 0xF0 = (x div 16) mod 16 * 16"
    "x AND 0xF8 = (x div 8) mod 32 * 8" "x AND 0x1E = (x div 2) mod 16 * 2" "x AND 0x20 = (x div 32) mod 2 * 32"
    "x AND 0x30 = (x div 16) mod 4 * 16"
proof -
  show "x AND 0xC0 = (x div 64) mod 4 * 64" by (rule and_high_mask [where k = 6 and j = 2]) (simp_all add: mask_eq_exp_minus_1)
  show "x AND 0xE0 = (x div 32) mod 8 * 32" by (rule and_high_mask [where k = 5 and j = 3]) (simp_all add: mask_eq_exp_minus_1)
  show "x AND 0xF0 = (x div 16) mod 16 * 16" by (rule and_high_mask [where k = 4 and j = 4]) (simp_all add: mask_eq_exp_minus_1)
  show "x AND 0xF8 = (x div 8) mod 32 * 8" by (rule and_high_mask [where k = 3 and j = 5]) (simp_all add: mask_eq_exp_minus_1)
  show "x AND 0x1E = (x div 2) mod 16 * 2" by (rule and_high_mask [where k = 1 and j = 4]) (simp_all add: mask_eq_exp_minus_1)
  show "x AND 0x20 = (x div 32) mod 2 * 32" by (rule and_high_mask [where k = 5 and j = 1]) (simp_all add: mask_eq_exp_minus_1)
  show "x AND 0x30 = (x div 16) mod 4 * 16" by (rule and_high_mask [where k = 4 and j = 2]) (simp_all add: mask_eq_exp_minus_1)
qed

text \<open>The classes of bytes, as intervals.\<close>

lemma div_class:
  assumes "0 < p" "0 \<le> x" "x < q * p" "c = k * p"
  shows "(x div p) mod q * p = c \<longleftrightarrow> c \<le> x \<and> x < c + (p :: int)"
proof -
  have "x div p < q"
  proof (rule ccontr)
    assume "\<not> x div p < q"
    then have "q * p \<le> x div p * p" using assms(1) by simp
    also have "\<dots> \<le> x" using div_mult_mod_eq [of x p] pos_mod_sign [OF assms(1), of x] by linarith
    finally show False using assms(3) by simp
  qed
  then have "(x div p) mod q = x div p" using assms by (intro mod_pos_pos_trivial) (simp_all add: pos_imp_zdiv_nonneg_iff)
  then have "(x div p) mod q * p = k * p \<longleftrightarrow> x div p = k" using assms(1) by simp
  also have "\<dots> \<longleftrightarrow> k * p \<le> x \<and> x < k * p + p"
  proof
    assume "x div p = k"
    then have "x = k * p + x mod p" using div_mult_mod_eq [of x p] by simp
    then show "k * p \<le> x \<and> x < k * p + p" using pos_mod_bound [OF assms(1), of x] pos_mod_sign [OF assms(1), of x] by linarith
  next
    assume "k * p \<le> x \<and> x < k * p + p"
    then show "x div p = k" by (intro int_div_pos_eq [where r = "x - k * p"]) (auto simp: mult.commute)
  qed
  finally show ?thesis by (simp add: assms(4))
qed

lemma div_class_at:
  assumes "0 < p" "b = j * (q * p)" "b \<le> x" "x < b + q * p" "c = k * p"
  shows "(x div p) mod q * p = c \<longleftrightarrow> b + c \<le> x \<and> x < b + c + (p :: int)"
proof -
  have "x = (x - b) + (j * q) * p" using assms(2) by simp
  then have "x div p = (x - b + (j * q) * p) div p" by simp
  also have "\<dots> = j * q + (x - b) div p" using assms(1) by simp
  finally have "(x div p) mod q = ((x - b) div p) mod q" by simp
  then show ?thesis using div_class [of p "x - b" q c k] assms by auto
qed

lemma byte_range: "0 \<le> uint (b :: byte)" "uint (b :: byte) < 256"
  using uint_lt2p [of b] by simp_all

lemma is_cont_iff: "is_cont b \<longleftrightarrow> 128 \<le> uint b \<and> uint b < 192"
  unfolding is_cont_def and_high_masks by (subst div_class [where k = 2]) (use byte_range [of b] in simp_all)

lemma lead_classes:
  assumes "0 \<le> x" "x < (256 :: int)"
  shows "x AND 0xE0 = 0xC0 \<longleftrightarrow> 192 \<le> x \<and> x < 224" "x AND 0xF0 = 0xE0 \<longleftrightarrow> 224 \<le> x \<and> x < 240"
    "x AND 0xF8 = 0xF0 \<longleftrightarrow> 240 \<le> x \<and> x < 248"
proof -
  show "x AND 0xE0 = 0xC0 \<longleftrightarrow> 192 \<le> x \<and> x < 224"
    unfolding and_high_masks by (subst div_class [where k = 6]) (use assms in simp_all)
  show "x AND 0xF0 = 0xE0 \<longleftrightarrow> 224 \<le> x \<and> x < 240"
    unfolding and_high_masks by (subst div_class [where k = 14]) (use assms in simp_all)
  show "x AND 0xF8 = 0xF0 \<longleftrightarrow> 240 \<le> x \<and> x < 248"
    unfolding and_high_masks by (subst div_class [where k = 30]) (use assms in simp_all)
qed

lemma or_parts2: "0 \<le> b \<Longrightarrow> b < 64 \<Longrightarrow> push_bit 6 a OR b = a * 64 + (b :: int)"
  using or_low [of b 6 a] by simp

lemma or_parts3:
  assumes "0 \<le> b" "b < 64" "0 \<le> c" "c < 64"
  shows "push_bit 12 a OR push_bit 6 b OR c = a * 4096 + b * 64 + (c :: int)"
proof -
  have "push_bit 12 a OR push_bit 6 b OR c = push_bit 6 (push_bit 6 a OR b) OR c"
    by (rule bit_eqI) (auto simp: bit_simps)
  then show ?thesis using assms by (simp add: or_parts2)
qed

lemma or_parts4:
  assumes "0 \<le> b" "b < 64" "0 \<le> c" "c < 64" "0 \<le> d" "d < 64"
  shows "push_bit 18 a OR push_bit 12 b OR push_bit 6 c OR d = a * 262144 + b * 4096 + c * 64 + (d :: int)"
proof -
  have "push_bit 18 a OR push_bit 12 b OR push_bit 6 c OR d = push_bit 6 (push_bit 12 a OR push_bit 6 b OR c) OR d"
    by (rule bit_eqI) (auto simp: bit_simps)
  also have "\<dots> = push_bit 6 (a * 4096 + b * 64 + c) OR d" using assms by (simp only: or_parts3)
  finally show ?thesis using assms by (simp add: or_parts2)
qed

lemma or_leads:
  fixes d :: int
  shows "0 \<le> d \<Longrightarrow> d < 64 \<Longrightarrow> 0xC0 OR d = 192 + d" "0 \<le> d \<Longrightarrow> d < 64 \<Longrightarrow> 0x80 OR d = 128 + d"
    "0 \<le> d \<Longrightarrow> d < 16 \<Longrightarrow> 0xE0 OR d = 224 + d" "0 \<le> d \<Longrightarrow> d < 16 \<Longrightarrow> 0xF0 OR d = 240 + d"
  using or_low [of d 6 3] or_low [of d 6 2] or_low [of d 4 14] or_low [of d 4 15] by (simp_all add: push_bit_eq_mult)

lemma cont_value: "is_cont b \<Longrightarrow> uint b AND 0x3F = uint b - 128"
proof -
  assume "is_cont b"
  then have b: "128 \<le> uint b" "uint b < 192" by (simp_all add: is_cont_iff)
  then have "uint b mod 64 = uint b - 128" by (intro int_mod_pos_eq [where q = 2]) simp_all
  then show ?thesis by (simp add: and_masks)
qed

lemma lead_values:
  fixes x :: int
  shows "192 \<le> x \<Longrightarrow> x < 224 \<Longrightarrow> x AND 0x1F = x - 192" "224 \<le> x \<Longrightarrow> x < 240 \<Longrightarrow> x AND 0x0F = x - 224"
    "240 \<le> x \<Longrightarrow> x < 248 \<Longrightarrow> x AND 0x07 = x - 240"
  unfolding and_masks
  by (rule int_mod_pos_eq [where q = 6] int_mod_pos_eq [where q = 14] int_mod_pos_eq [where q = 30]; simp)+

text \<open>Decoding in plain arithmetic: the value of a well-formed sequence of one to four bytes.\<close>

definition decode2 :: "byte \<Rightarrow> byte \<Rightarrow> int" where
  "decode2 b0 b1 = (uint b0 - 192) * 64 + (uint b1 - 128)"

definition decode3 :: "byte \<Rightarrow> byte \<Rightarrow> byte \<Rightarrow> int" where
  "decode3 b0 b1 b2 = (uint b0 - 224) * 4096 + (uint b1 - 128) * 64 + (uint b2 - 128)"

definition decode4 :: "byte \<Rightarrow> byte \<Rightarrow> byte \<Rightarrow> byte \<Rightarrow> int" where
  "decode4 b0 b1 b2 b3 = (uint b0 - 240) * 262144 + (uint b1 - 128) * 4096 + (uint b2 - 128) * 64 + (uint b3 - 128)"

lemma mbrtowc_cases:
  assumes "s \<noteq> NULL" "0 < n"
  shows "mbrtowc m pwc s n =
    (let c = uint (m s); s1 = m (s + 1); s2 = m (s + 2); s3 = m (s + 3) in
     if c < 128 then (if c \<noteq> 0 then 1 else 0, if pwc then Some c else None, None)
     else if 192 \<le> c \<and> c < 224 then
       (if n < 2 then (- 2, None, None) else if \<not> is_cont s1 then ilseq None
        else mb_store pwc (decode2 (m s) s1) (decode2 (m s) s1 < 128) 2)
     else if 224 \<le> c \<and> c < 240 then
       (if n < 3 then (- 2, None, None) else if \<not> is_cont s1 \<or> \<not> is_cont s2 then ilseq None
        else let wc = decode3 (m s) s1 s2 in mb_store pwc wc (wc < 0x800 \<or> (wc \<ge> 0xD800 \<and> wc \<le> 0xDFFF)) 3)
     else if 240 \<le> c \<and> c < 248 then
       (if n < 4 then (- 2, None, None) else if \<not> is_cont s1 \<or> \<not> is_cont s2 \<or> \<not> is_cont s3 then ilseq None
        else let wc = decode4 (m s) s1 s2 s3 in mb_store pwc wc (wc < 0x10000 \<or> wc > 0x10FFFF) 4)
     else ilseq None)"
proof -
  have c: "is_cont b \<Longrightarrow> 0 \<le> uint b - 128 \<and> uint b - 128 < 64" for b by (simp add: is_cont_iff)
  have d2: "push_bit 6 (uint (m s) AND 0x1F) OR (uint (m (s + 1)) AND 0x3F) = decode2 (m s) (m (s + 1))"
    if "192 \<le> uint (m s) \<and> uint (m s) < 224" "is_cont (m (s + 1))"
    using that c by (simp add: lead_values cont_value or_parts2 decode2_def)
  have d3: "push_bit 12 (uint (m s) AND 0x0F) OR push_bit 6 (uint (m (s + 1)) AND 0x3F) OR (uint (m (s + 2)) AND 0x3F) =
      decode3 (m s) (m (s + 1)) (m (s + 2))"
    if "224 \<le> uint (m s) \<and> uint (m s) < 240" "is_cont (m (s + 1))" "is_cont (m (s + 2))"
    using that c by (simp only: lead_values cont_value or_parts3 decode3_def)
  have d4: "push_bit 18 (uint (m s) AND 0x07) OR push_bit 12 (uint (m (s + 1)) AND 0x3F) OR push_bit 6 (uint (m (s + 2)) AND 0x3F) OR (uint (m (s + 3)) AND 0x3F) =
      decode4 (m s) (m (s + 1)) (m (s + 2)) (m (s + 3))"
    if "240 \<le> uint (m s) \<and> uint (m s) < 248" "is_cont (m (s + 1))" "is_cont (m (s + 2))" "is_cont (m (s + 3))"
    using that c by (simp only: lead_values cont_value or_parts4 decode4_def)
  show ?thesis
    unfolding mbrtowc_def Let_def lead_classes [OF byte_range [of "m s"]]
    using assms d2 d3 d4 by (simp cong: if_cong)
qed

section \<open>Encoding and decoding are inverse\<close>

definition scalar :: "int \<Rightarrow> bool" where
  "scalar wc \<longleftrightarrow> 0 \<le> wc \<and> wc \<le> 0x10FFFF \<and> \<not> (0xD800 \<le> wc \<and> wc \<le> 0xDFFF)"

lemma uint_utf8_byte: "0 \<le> x \<Longrightarrow> x < 256 \<Longrightarrow> uint (utf8_byte x) = x"
  unfolding utf8_byte_def by (simp only: uint_word_of_int) simp

lemma utf8_byte_uint [simp]: "utf8_byte (uint b) = b"
  by (simp add: utf8_byte_def)

lemma split64: "0 \<le> b \<Longrightarrow> b < 64 \<Longrightarrow> (a * 64 + b) div 64 = a" "0 \<le> b \<Longrightarrow> b < 64 \<Longrightarrow> (a * 64 + b) mod 64 = (b :: int)"
  by simp_all

lemma parts64:
  assumes "0 \<le> wc"
  obtains a b where "wc = a * 64 + b" "0 \<le> b" "b < 64" "0 \<le> (a :: int)"
proof
  show "wc = wc div 64 * 64 + wc mod 64" by simp
qed (use assms in \<open>simp_all add: pos_imp_zdiv_nonneg_iff\<close>)

lemma shift_parts:
  fixes a b c d :: int
  assumes "0 \<le> b" "b < 64" "0 \<le> c" "c < 64" "0 \<le> d" "d < 64"
  shows "drop_bit 6 (a * 64 + b) = a" "drop_bit 12 (a * 4096 + b * 64 + c) = a" "drop_bit 6 (a * 4096 + b * 64 + c) = a * 64 + b"
    "drop_bit 18 (a * 262144 + b * 4096 + c * 64 + d) = a" "drop_bit 12 (a * 262144 + b * 4096 + c * 64 + d) = a * 64 + b"
    "drop_bit 6 (a * 262144 + b * 4096 + c * 64 + d) = a * 4096 + b * 64 + c"
  by (simp_all only: drop_bit_eq_div power_numeral numeral_2_eq_2 [symmetric])
     (use assms in \<open>auto intro!: int_div_pos_eq\<close>)

lemma encode2:
  assumes "2 \<le> a" "a < 32" "0 \<le> b" "b < 64"
  shows "wcrtomb_bytes (a * 64 + b) = Some [utf8_byte (192 + a), utf8_byte (128 + b)]"
  using assms by (simp add: wcrtomb_bytes_def shift_parts(1) and_masks or_leads)

lemma encode3:
  assumes "0 \<le> a" "a < 16" "0 \<le> b" "b < 64" "0 \<le> c" "c < 64" "scalar (a * 4096 + b * 64 + c)" "2048 \<le> a * 4096 + b * 64 + c"
  shows "wcrtomb_bytes (a * 4096 + b * 64 + c) = Some [utf8_byte (224 + a), utf8_byte (128 + b), utf8_byte (128 + c)]"
proof -
  have m: "(a * 4096 + b * 64 + c) mod 64 = c" using assms by (intro int_mod_pos_eq [where q = "a * 64 + b"]) simp_all
  show ?thesis using assms m split64(2) [of b a] by (simp add: wcrtomb_bytes_def shift_parts(2,3) and_masks or_leads scalar_def)
qed

lemma encode4:
  assumes "0 \<le> a" "a < 8" "0 \<le> b" "b < 64" "0 \<le> c" "c < 64" "0 \<le> d" "d < 64"
    "a * 262144 + b * 4096 + c * 64 + d \<le> 0x10FFFF" "0x10000 \<le> a * 262144 + b * 4096 + c * 64 + d"
  shows "wcrtomb_bytes (a * 262144 + b * 4096 + c * 64 + d) =
    Some [utf8_byte (240 + a), utf8_byte (128 + b), utf8_byte (128 + c), utf8_byte (128 + d)]"
proof -
  have m: "(a * 262144 + b * 4096 + c * 64 + d) mod 64 = d" "(a * 4096 + b * 64 + c) mod 64 = c"
    using assms by (auto intro: int_mod_pos_eq [where q = "a * 4096 + b * 64 + c"] int_mod_pos_eq [where q = "a * 64 + b"])
  show ?thesis using assms m split64(2) [of b a] by (simp add: wcrtomb_bytes_def shift_parts(4-6) and_masks or_leads)
qed

lemma scalar_forms:
  assumes "scalar wc"
  obtains (one) "wc < 128"
  | (two) a b where "wc = a * 64 + b" "2 \<le> a" "a < 32" "0 \<le> b" "b < 64"
  | (three) a b c where "wc = a * 4096 + b * 64 + c" "0 \<le> a" "a < 16" "0 \<le> b" "b < 64" "0 \<le> c" "c < 64" "2048 \<le> wc"
  | (four) a b c d where "wc = a * 262144 + b * 4096 + c * 64 + d" "0 \<le> a" "a < 8" "0 \<le> b" "b < 64" "0 \<le> c" "c < 64" "0 \<le> d" "d < 64"
      "0x10000 \<le> wc"
proof -
  have wc: "0 \<le> wc" "wc \<le> 0x10FFFF" using assms by (simp_all add: scalar_def)
  obtain x d where x: "wc = x * 64 + d" "0 \<le> d" "d < 64" "0 \<le> x" using parts64 [OF wc(1)] .
  obtain y c where y: "x = y * 64 + c" "0 \<le> c" "c < 64" "0 \<le> y" using parts64 [OF x(4)] .
  obtain z b where z: "y = z * 64 + b" "0 \<le> b" "b < 64" "0 \<le> z" using parts64 [OF y(4)] .
  consider "wc < 128" | "128 \<le> wc" "wc < 2048" | "2048 \<le> wc" "wc < 0x10000" | "0x10000 \<le> wc" by linarith
  then show ?thesis
  proof cases
    case 2
    then show ?thesis using x by (intro two [of x d]) linarith+
  next
    case 3
    then show ?thesis using x y by (intro three [of y c d]) linarith+
  next
    case 4
    then show ?thesis using x y z wc(2) by (intro four [of z b c d]) linarith+
  qed (rule one)
qed

lemma rd_bytes:
  "rd m s 1 = [x0] \<longleftrightarrow> m s = x0"
  "rd m s 2 = [x0, x1] \<longleftrightarrow> m s = x0 \<and> m (s + 1) = x1"
  "rd m s 3 = [x0, x1, x2] \<longleftrightarrow> m s = x0 \<and> m (s + 1) = x1 \<and> m (s + 2) = x2"
  "rd m s 4 = [x0, x1, x2, x3] \<longleftrightarrow> m s = x0 \<and> m (s + 1) = x1 \<and> m (s + 2) = x2 \<and> m (s + 3) = x3"
  by (simp_all add: numeral_eq_Suc)

lemma cont_byte: "0 \<le> b \<Longrightarrow> b < 64 \<Longrightarrow> is_cont (utf8_byte (128 + b)) \<and> uint (utf8_byte (128 + b)) = 128 + b"
  by (simp add: is_cont_iff uint_utf8_byte)

lemma encode_decode:
  assumes "scalar wc" "wcrtomb_bytes wc = Some bs" "rd m s (length bs) = bs" "s \<noteq> NULL" "length bs \<le> n"
  shows "mbrtowc m True s n = (if wc = 0 then 0 else int (length bs), Some wc, None)"
  using assms(1)
proof (cases rule: scalar_forms)
  case one
  then have "bs = [utf8_byte wc]" using assms(1,2) by (auto simp: wcrtomb_bytes_def scalar_def)
  then have "m s = utf8_byte wc" "0 < n" "bs = [utf8_byte wc]" using assms(3,5) by (simp_all add: rd_bytes(1) [simplified])
  then show ?thesis using one assms(1,4) by (simp add: mbrtowc_cases Let_def uint_utf8_byte scalar_def)
next
  case (two a b)
  then have bs: "bs = [utf8_byte (192 + a), utf8_byte (128 + b)]" using encode2 assms(2) by simp
  then have m: "m s = utf8_byte (192 + a)" "m (s + 1) = utf8_byte (128 + b)" "2 \<le> n"
    using assms(3,5) rd_bytes(2) [of m s] by (simp_all add: numeral_2_eq_2)
  have u: "uint (utf8_byte (192 + a)) = 192 + a" using two by (simp add: uint_utf8_byte)
  have d: "decode2 (utf8_byte (192 + a)) (utf8_byte (128 + b)) = wc" using two u cont_byte [of b] by (simp add: decode2_def)
  show ?thesis unfolding mbrtowc_cases [OF assms(4) order_less_le_trans [OF _ m(3), of 0, simplified]]
    using m u d two bs cont_byte [of b] by (simp add: Let_def mb_store_def)
next
  case (three a b c)
  then have bs: "bs = [utf8_byte (224 + a), utf8_byte (128 + b), utf8_byte (128 + c)]" using encode3 assms(1,2) by simp
  then have m: "m s = utf8_byte (224 + a)" "m (s + 1) = utf8_byte (128 + b)" "m (s + 2) = utf8_byte (128 + c)" "3 \<le> n"
    using assms(3,5) rd_bytes(3) [of m s] by (simp_all add: numeral_3_eq_3)
  have u: "uint (utf8_byte (224 + a)) = 224 + a" using three by (simp add: uint_utf8_byte)
  have d: "decode3 (utf8_byte (224 + a)) (utf8_byte (128 + b)) (utf8_byte (128 + c)) = wc"
    using three u cont_byte [of b] cont_byte [of c] by (simp add: decode3_def)
  show ?thesis unfolding mbrtowc_cases [OF assms(4) order_less_le_trans [OF _ m(4), of 0, simplified]]
    using m u d three(2-8) bs cont_byte [of b] cont_byte [of c] assms(1) by (auto simp: Let_def mb_store_def scalar_def)
next
  case (four a b c d)
  then have bs: "bs = [utf8_byte (240 + a), utf8_byte (128 + b), utf8_byte (128 + c), utf8_byte (128 + d)]"
    using encode4 [of a b c d] assms(1,2) by (simp add: scalar_def)
  then have m: "m s = utf8_byte (240 + a)" "m (s + 1) = utf8_byte (128 + b)" "m (s + 2) = utf8_byte (128 + c)" "m (s + 3) = utf8_byte (128 + d)" "4 \<le> n"
    using assms(3,5) rd_bytes(4) [of m s] by (simp_all add: eval_nat_numeral)
  have u: "uint (utf8_byte (240 + a)) = 240 + a" using four by (simp add: uint_utf8_byte)
  have e: "decode4 (utf8_byte (240 + a)) (utf8_byte (128 + b)) (utf8_byte (128 + c)) (utf8_byte (128 + d)) = wc"
    using four u cont_byte [of b] cont_byte [of c] cont_byte [of d] by (simp add: decode4_def)
  show ?thesis unfolding mbrtowc_cases [OF assms(4) order_less_le_trans [OF _ m(5), of 0, simplified]]
    using m u e four(2-10) bs cont_byte [of b] cont_byte [of c] cont_byte [of d] assms(1) by (simp add: Let_def mb_store_def scalar_def)
qed

text \<open>What the checked decoder accepts, case by case.\<close>

lemma mbrtowc_accepts:
  assumes "mbrtowc m True s n = (k, Some wc, None)" "0 < k"
  obtains (one) "k = 1" "uint (m s) = wc" "0 < wc" "wc < 128"
  | (two) "k = 2" "192 \<le> uint (m s)" "uint (m s) < 224" "is_cont (m (s + 1))" "wc = decode2 (m s) (m (s + 1))" "128 \<le> wc"
  | (three) "k = 3" "224 \<le> uint (m s)" "uint (m s) < 240" "is_cont (m (s + 1))" "is_cont (m (s + 2))"
      "wc = decode3 (m s) (m (s + 1)) (m (s + 2))" "2048 \<le> wc" "\<not> (0xD800 \<le> wc \<and> wc \<le> 0xDFFF)"
  | (four) "k = 4" "240 \<le> uint (m s)" "uint (m s) < 248" "is_cont (m (s + 1))" "is_cont (m (s + 2))" "is_cont (m (s + 3))"
      "wc = decode4 (m s) (m (s + 1)) (m (s + 2)) (m (s + 3))" "0x10000 \<le> wc" "wc \<le> 0x10FFFF"
proof -
  have s1: "s \<noteq> NULL" using assms by (intro notI) (simp add: mbrtowc_def)
  have s2: "n \<noteq> 0" using assms s1 by (intro notI) (simp add: mbrtowc_def)
  note s = s1 s2 [unfolded neq0_conv]
  consider "uint (m s) < 128" | "192 \<le> uint (m s) \<and> uint (m s) < 224" | "224 \<le> uint (m s) \<and> uint (m s) < 240"
    | "240 \<le> uint (m s) \<and> uint (m s) < 248" | "128 \<le> uint (m s)" "uint (m s) < 192 \<or> 248 \<le> uint (m s)" by linarith
  then show ?thesis
  proof cases
    case 1
    then show ?thesis using assms mbrtowc_cases [OF s, of m True] byte_range(1) [of "m s"]
      by (intro one) (auto simp: Let_def split: if_splits)
  next
    case 2
    then show ?thesis using assms mbrtowc_cases [OF s, of m True]
      by (intro two) (auto simp: Let_def ilseq_def mb_store_def split: if_splits)
  next
    case 3
    then show ?thesis using assms mbrtowc_cases [OF s, of m True]
      by (intro three) (auto simp: Let_def ilseq_def mb_store_def split: if_splits)
  next
    case 4
    then show ?thesis using assms mbrtowc_cases [OF s, of m True]
      by (intro four) (auto simp: Let_def ilseq_def mb_store_def split: if_splits)
  next
    case 5
    then show ?thesis using assms mbrtowc_cases [OF s, of m True]
      by (auto simp: Let_def ilseq_def split: if_splits)
  qed
qed

lemma cont_part: "is_cont b \<Longrightarrow> 0 \<le> uint b - 128 \<and> uint b - 128 < 64"
  by (simp add: is_cont_iff)

lemma decode_encode:
  assumes "mbrtowc m True s n = (k, Some wc, None)" "0 < k"
  shows "scalar wc \<and> wcrtomb_bytes wc = Some (rd m s (nat k))"
  using assms
proof (cases rule: mbrtowc_accepts)
  case one
  then have "utf8_byte wc = m s" by (metis utf8_byte_uint)
  then show ?thesis using one by (simp add: wcrtomb_bytes_def scalar_def)
next
  case two
  define a b where ab: "a = uint (m s) - 192" "b = uint (m (s + 1)) - 128"
  have wc: "wc = a * 64 + b" using two by (simp add: decode2_def ab)
  have "a < 32" "0 \<le> b" "b < 64" using two cont_part [of "m (s + 1)"] by (simp_all add: ab)
  moreover from this have "2 \<le> a" using two(6) wc by linarith
  ultimately have "wcrtomb_bytes wc = Some [utf8_byte (192 + a), utf8_byte (128 + b)]" "scalar wc"
    unfolding wc by (auto intro!: encode2 simp: scalar_def)
  then show ?thesis using two(1) by (simp add: ab numeral_2_eq_2)
next
  case three
  define a b c where abc: "a = uint (m s) - 224" "b = uint (m (s + 1)) - 128" "c = uint (m (s + 2)) - 128"
  have wc: "wc = a * 4096 + b * 64 + c" using three by (simp add: decode3_def abc)
  have r: "0 \<le> a" "a < 16" "0 \<le> b" "b < 64" "0 \<le> c" "c < 64"
    using three cont_part [of "m (s + 1)"] cont_part [of "m (s + 2)"] by (simp_all add: abc)
  have "scalar wc" using r wc three(7,8) by (simp add: scalar_def)
  moreover from this have "wcrtomb_bytes wc = Some [utf8_byte (224 + a), utf8_byte (128 + b), utf8_byte (128 + c)]"
    unfolding wc using r three(7) wc by (intro encode3) simp_all
  ultimately show ?thesis using three(1) by (simp add: abc numeral_3_eq_3)
next
  case four
  define a b c d where abcd: "a = uint (m s) - 240" "b = uint (m (s + 1)) - 128" "c = uint (m (s + 2)) - 128" "d = uint (m (s + 3)) - 128"
  have wc: "wc = a * 262144 + b * 4096 + c * 64 + d" using four by (simp add: decode4_def abcd)
  have r: "0 \<le> a" "a < 8" "0 \<le> b" "b < 64" "0 \<le> c" "c < 64" "0 \<le> d" "d < 64"
    using four cont_part [of "m (s + 1)"] cont_part [of "m (s + 2)"] cont_part [of "m (s + 3)"] by (simp_all add: abcd)
  have "scalar wc" using four(8,9) by (simp add: scalar_def)
  moreover have "wcrtomb_bytes wc = Some [utf8_byte (240 + a), utf8_byte (128 + b), utf8_byte (128 + c), utf8_byte (128 + d)]"
    unfolding wc using r four(8,9) wc by (intro encode4) simp_all
  ultimately show ?thesis using four(1) by (simp add: abcd eval_nat_numeral)
qed

text \<open>
  C21: the checked decoder and the encoder are inverse: a byte sequence is decoded to a character if and only if it is the
  encoding of that Unicode scalar value, so overlong forms, surrogates and values beyond the last plane are all refused.
\<close>

theorem utf8_round_trip:
  assumes "s \<noteq> NULL" "wc \<noteq> 0" "length bs \<le> n" "rd m s (length bs) = bs" "bs \<noteq> []"
  shows "mbrtowc m True s n = (int (length bs), Some wc, None) \<longleftrightarrow> scalar wc \<and> wcrtomb_bytes wc = Some bs"
proof
  assume "mbrtowc m True s n = (int (length bs), Some wc, None)"
  then show "scalar wc \<and> wcrtomb_bytes wc = Some bs" using decode_encode [of m s n "int (length bs)" wc] assms(4,5) by simp
next
  assume "scalar wc \<and> wcrtomb_bytes wc = Some bs"
  then show "mbrtowc m True s n = (int (length bs), Some wc, None)" using encode_decode [of wc bs m s n] assms by simp
qed

theorem utf8_round_trip_witness:
  "let m = wr (\<lambda>_. 0) 16 [0xE2, 0x82, 0xAC] in mbrtowc m True 16 3 = (3, Some 0x20AC, None)"
proof -
  have b: "wcrtomb_bytes 0x20AC = Some [0xE2, 0x82, 0xAC]"
    using encode3 [of 2 2 44] by (simp add: scalar_def utf8_byte_def)
  show ?thesis
    using utf8_round_trip [of 16 "0x20AC" "[0xE2, 0x82, 0xAC]" 3 "wr (\<lambda>_. 0) 16 [0xE2, 0x82, 0xAC]"] b rd_wr_same [of "\<lambda>_. 0" 16 "[0xE2, 0x82, 0xAC]"]
    by (simp add: scalar_def Let_def)
qed

text \<open>
  \<^verbatim>\<open>mbrlen\<close>, which tests bit patterns, agrees with the decoder, which computes the value and compares it: same length, same
  errors on every input.
\<close>

theorem mbrlen_agrees: "mbrlen m s n = (case mbrtowc m True s n of (ret, v, e) \<Rightarrow> (ret, e))"
proof (cases "s = NULL \<or> n = 0")
  case True
  then show ?thesis by (auto simp: mbrlen_def mbrtowc_def)
next
  case False
  define c x where cx: "c = uint (m s)" "x = uint (m (s + 1))"
  have s: "s \<noteq> NULL" "0 < n" using False by simp_all
  have two: "c AND 0x1E = 0 \<longleftrightarrow> c < 194" if "192 \<le> c" "c < 224"
    unfolding and_high_masks by (subst div_class_at [where b = 192 and j = 6 and k = 0]) (use that in auto)
  have x20: "x AND 0x20 = 0 \<longleftrightarrow> x < 160" if "128 \<le> x" "x < 192"
    unfolding and_high_masks by (subst div_class_at [where b = 128 and j = 2 and k = 0]) (use that in auto)
  have x30: "x AND 0x30 = 0 \<longleftrightarrow> x < 144" if "128 \<le> x" "x < 192"
    unfolding and_high_masks by (subst div_class_at [where b = 128 and j = 2 and k = 0]) (use that in auto)
  have d2: "decode2 (m s) (m (s + 1)) < 128 \<longleftrightarrow> c < 194" if "192 \<le> c" "is_cont (m (s + 1))"
    using that cont_part [of "m (s + 1)"] by (auto simp: decode2_def cx)
  have d3: "decode3 (m s) (m (s + 1)) (m (s + 2)) < 0x800 \<longleftrightarrow> c = 0xE0 \<and> x < 160"
    "0xD800 \<le> decode3 (m s) (m (s + 1)) (m (s + 2)) \<and> decode3 (m s) (m (s + 1)) (m (s + 2)) \<le> 0xDFFF \<longleftrightarrow> c = 0xED \<and> 160 \<le> x"
    if "224 \<le> c" "c < 240" "is_cont (m (s + 1))" "is_cont (m (s + 2))"
    using that cont_part [of "m (s + 1)"] cont_part [of "m (s + 2)"] unfolding decode3_def cx [symmetric]
    by (auto, cases c "237 :: int" rule: linorder_cases, auto)
  have d4: "decode4 (m s) (m (s + 1)) (m (s + 2)) (m (s + 3)) < 0x10000 \<longleftrightarrow> c = 0xF0 \<and> x < 144"
    "decode4 (m s) (m (s + 1)) (m (s + 2)) (m (s + 3)) > 0x10FFFF \<longleftrightarrow> c > 0xF4 \<or> c = 0xF4 \<and> 144 \<le> x"
    if "240 \<le> c" "c < 248" "is_cont (m (s + 1))" "is_cont (m (s + 2))" "is_cont (m (s + 3))"
    using that cont_part [of "m (s + 1)"] cont_part [of "m (s + 2)"] cont_part [of "m (s + 3)"] unfolding decode4_def cx [symmetric]
    by auto
  note unf = mbrtowc_cases [OF s] mbrlen_def Let_def cx [symmetric] lead_classes [OF byte_range [of "m s"], folded cx]
  have cont: "is_cont (m (s + 1)) \<longleftrightarrow> 128 \<le> x \<and> x < 192" by (simp add: is_cont_iff cx)
  consider "c < 128" | "192 \<le> c \<and> c < 224" | "224 \<le> c \<and> c < 240" | "240 \<le> c \<and> c < 248"
    | "128 \<le> c" "c < 192 \<or> 248 \<le> c" by linarith
  then show ?thesis
  proof cases
    case 1
    then show ?thesis unfolding unf using s by simp
  next
    case 2
    then show ?thesis unfolding unf using s d2 two by (simp add: ilseq_def mb_store_def)
  next
    case 3
    then show ?thesis unfolding unf using s d3 x20 cont by (auto simp: ilseq_def mb_store_def)
  next
    case 4
    show ?thesis
    proof (cases "is_cont (m (s + 1)) \<and> is_cont (m (s + 2)) \<and> is_cont (m (s + 3))")
      case True
      then have e: "decode4 (m s) (m (s + 1)) (m (s + 2)) (m (s + 3)) < 0x10000 \<longleftrightarrow> c = 0xF0 \<and> x < 144"
        "decode4 (m s) (m (s + 1)) (m (s + 2)) (m (s + 3)) > 0x10FFFF \<longleftrightarrow> c > 0xF4 \<or> c = 0xF4 \<and> \<not> x < 144"
        "x AND 0x30 = 0 \<longleftrightarrow> x < 144" using 4 d4 x30 cont by auto
      show ?thesis unfolding unf e using 4 s True by (simp add: ilseq_def mb_store_def)
    next
      case False
      then have nc: "(\<not> is_cont (m (s + 1)) \<or> \<not> is_cont (m (s + 2)) \<or> \<not> is_cont (m (s + 3))) = True" by blast
      show ?thesis unfolding unf nc if_True using 4 s by (simp add: ilseq_def)
    qed
  next
    case 5
    then have k: "(c < 128) = False" "(192 \<le> c \<and> c < 224) = False" "(224 \<le> c \<and> c < 240) = False" "(240 \<le> c \<and> c < 248) = False"
      "(s = NULL) = False" "(n = 0) = False" using s by auto
    show ?thesis unfolding unf k if_False by (simp add: ilseq_def)
  qed
qed

text \<open>
  Without a place to store the value nothing but the form of the bytes is checked: \<^verbatim>\<open>mblen\<close> accepts an overlong NUL and a
  surrogate.  The encoder writes a negative \<^verbatim>\<open>wchar_t\<close> as one byte.
\<close>

lemma mblen_unchecked:
  "m s = 0xC0 \<Longrightarrow> m (s + 1) = 0x80 \<Longrightarrow> s \<noteq> NULL \<Longrightarrow> mblen m s 2 = 2 \<and> fst (mbtowc m True s 2) = - 1"
  by (simp add: mblen_def mbtowc_def mbrtowc_cases Let_def is_cont_iff mb_store_def ilseq_def decode2_def)

lemma wcrtomb_negative: "wc < 0 \<Longrightarrow> wcrtomb_bytes wc = Some [utf8_byte wc]"
  by (simp add: wcrtomb_bytes_def)

section \<open>Strings of characters\<close>

text \<open>The encoding of a string of scalar values.\<close>

definition utf8 :: "int list \<Rightarrow> byte list" where
  "utf8 ws = concat (map (\<lambda>w. the (wcrtomb_bytes w)) ws)"

lemma scalar_encodes:
  assumes "scalar wc"
  obtains bs where "wcrtomb_bytes wc = Some bs" "bs \<noteq> []" "length bs \<le> MB_CUR_MAX"
proof -
  have "\<exists>bs. wcrtomb_bytes wc = Some bs \<and> bs \<noteq> [] \<and> length bs \<le> MB_CUR_MAX"
    using assms by (cases "wc < 128"; cases "wc < 2048"; cases "wc < 65536") (auto simp: wcrtomb_bytes_def scalar_def MB_CUR_MAX_def)
  then show ?thesis using that by blast
qed

lemma utf8_byte_nonzero: "0 < x \<Longrightarrow> x < 256 \<Longrightarrow> utf8_byte x \<noteq> 0"
  using uint_utf8_byte [of x] by auto

lemma encode_nonzero:
  assumes "scalar w" "w \<noteq> 0"
  shows "0 \<notin> set (the (wcrtomb_bytes w))"
  using assms(1)
proof (cases rule: scalar_forms)
  case one
  then show ?thesis using assms utf8_byte_nonzero [of w] by (auto simp: wcrtomb_bytes_def scalar_def)
next
  case (two a b)
  then show ?thesis using encode2 [of a b] utf8_byte_nonzero [of "192 + a"] utf8_byte_nonzero [of "128 + b"] by auto
next
  case (three a b c)
  then show ?thesis using encode3 [of a b c] assms(1) utf8_byte_nonzero [of "224 + a"] utf8_byte_nonzero [of "128 + b"] utf8_byte_nonzero [of "128 + c"] by auto
next
  case (four a b c d)
  then show ?thesis
    using encode4 [of a b c d] assms(1) utf8_byte_nonzero [of "240 + a"] utf8_byte_nonzero [of "128 + b"] utf8_byte_nonzero [of "128 + c"] utf8_byte_nonzero [of "128 + d"]
    by (auto simp: scalar_def)
qed

lemma cstr_utf8_step:
  assumes "cstr m s (utf8 (w # ws))" "scalar w" "w \<noteq> 0" "s \<noteq> NULL"
  obtains bs where "wcrtomb_bytes w = Some bs" "bs \<noteq> []" "m s \<noteq> 0" "mbrtowc m True s MB_CUR_MAX = (int (length bs), Some w, None)"
    "cstr m (s + length bs) (utf8 ws)"
proof -
  obtain bs where bs: "wcrtomb_bytes w = Some bs" "bs \<noteq> []" "length bs \<le> MB_CUR_MAX" using scalar_encodes [OF assms(2)] .
  have c: "rd m s (length bs) = bs" "0 \<notin> set bs" "cstr m (s + length bs) (utf8 ws)"
    using assms(1) bs(1) by (simp_all add: utf8_def cstr_append)
  have "m s = hd bs" using c(1) bs(2) by (cases bs) auto
  then have "m s \<noteq> 0" using c(2) bs(2) by (metis hd_in_set)
  moreover have "mbrtowc m True s MB_CUR_MAX = (int (length bs), Some w, None)"
    using encode_decode [OF assms(2) bs(1) c(1) assms(4) bs(3)] assms(3) by simp
  ultimately show ?thesis using that bs c(3) by blast
qed

lemma mbsrtowcs_loop_utf8:
  assumes "cstr m s (utf8 ws)" "list_all scalar ws" "0 \<notin> set ws" "s \<noteq> NULL" "i + length ws < len"
  shows "mbsrtowcs_loop m True len s i acc = Some (int (i + length ws), acc @ ws @ [0], None)"
  using assms
proof (induction ws arbitrary: s i acc)
  case Nil
  then show ?case by (subst mbsrtowcs_loop.simps) (simp add: utf8_def)
next
  case (Cons w ws)
  obtain bs where bs: "wcrtomb_bytes w = Some bs" "bs \<noteq> []" "m s \<noteq> 0" "mbrtowc m True s MB_CUR_MAX = (int (length bs), Some w, None)"
    "cstr m (s + length bs) (utf8 ws)" using cstr_utf8_step [OF Cons.prems(1)] Cons.prems by auto
  have "mbsrtowcs_loop m True len s i acc = mbsrtowcs_loop m True len (s + length bs) (i + 1) (acc @ [w])"
    using bs Cons.prems(5) by (subst mbsrtowcs_loop.simps) simp
  then show ?case using Cons.IH [OF bs(5), of "i + 1" "acc @ [w]"] Cons.prems by simp
qed

lemma wcsr_loop_utf8:
  assumes "list_all scalar ws" "i + length (utf8 ws) \<le> len"
  shows "wcsr_loop True len ws i = Inr (i + length (utf8 ws), utf8 ws, [])"
  using assms
proof (induction ws arbitrary: i)
  case (Cons w ws)
  obtain bs where "wcrtomb_bytes w = Some bs" using scalar_encodes [of w] Cons.prems(1) by auto
  then show ?case using Cons.IH [of "i + length bs"] Cons.prems by (simp add: utf8_def)
qed (simp add: utf8_def)

text \<open>
  C29: a string of nonzero scalar values survives the way through the multibyte encoding: \<^verbatim>\<open>wcsrtombs\<close> writes its UTF-8 with the
  terminator, and \<^verbatim>\<open>mbsrtowcs\<close> reads the same characters back, with theirs; both report the end by a NULL source.
\<close>

theorem wide_string_round_trip:
  assumes "list_all scalar ws" "0 \<notin> set ws" "length (utf8 ws) < len" "length ws < wlen" "p \<noteq> NULL"
  shows "wcsrtombs True ws len = (int (length (utf8 ws)), utf8 ws @ [0], None) \<and>
    mbsrtowcs (wr m p (utf8 ws @ [0])) True p wlen = Some (int (length ws), ws @ [0], None)"
proof -
  have "0 \<notin> set (the (wcrtomb_bytes w))" if "w \<in> set ws" for w
    using that assms(1,2) by (intro encode_nonzero) (auto simp: list_all_iff)
  then have "0 \<notin> set (utf8 ws)" by (auto simp: utf8_def)
  then have "cstr (wr m p (utf8 ws @ [0])) p (utf8 ws)" by (rule cstr_wr)
  from mbsrtowcs_loop_utf8 [OF this assms(1,2,5), of 0 wlen "[]"] assms(4)
  have "mbsrtowcs (wr m p (utf8 ws @ [0])) True p wlen = Some (int (length ws), ws @ [0], None)" by (simp add: mbsrtowcs_def)
  moreover have "wcsrtombs True ws len = (int (length (utf8 ws)), utf8 ws @ [0], None)"
    using wcsr_loop_utf8 [OF assms(1), of 0 len] assms(3) by (simp add: wcsrtombs_def)
  ultimately show ?thesis by blast
qed

theorem wide_string_round_trip_witness:
  "let ws = [0x7A, 0xDF, 0x6C34, 0x1F600] in
   wcsrtombs True ws 16 = (int (length (utf8 ws)), utf8 ws @ [0], None) \<and>
   mbsrtowcs (wr (\<lambda>_. 0) 64 (utf8 ws @ [0])) True 64 8 = Some (4, ws @ [0], None)"
proof -
  have "length (utf8 [0x7A, 0xDF, 0x6C34, 0x1F600]) = 10" by (simp add: utf8_def wcrtomb_bytes_def)
  then show ?thesis
    using wide_string_round_trip [of "[0x7A, 0xDF, 0x6C34, 0x1F600]" 16 8 64 "\<lambda>_. 0"] by (simp add: scalar_def Let_def)
qed

section \<open>UTF-16\<close>

lemma surrogate_arith:
  fixes wc :: int
  assumes "0x10000 \<le> wc" "wc \<le> 0x10FFFF"
  defines "hi \<equiv> 0xD7C0 + drop_bit 10 wc" and "lo \<equiv> (wc AND 0x3FF) + 0xDC00"
  shows "0xD800 \<le> hi \<and> hi < 0xDC00 \<and> 0xDC00 \<le> lo \<and> lo < 0xE000 \<and> 0x10000 + push_bit 10 (hi - 0xD800) + (lo - 0xDC00) = wc"
proof -
  define a b where ab: "a = wc div 1024" "b = wc mod 1024"
  have "wc AND 0x3FF = b" using low_mask [of wc 10] by (simp add: mask_eq_exp_minus_1 ab)
  moreover have "drop_bit 10 wc = a" by (simp add: drop_bit_eq_div ab)
  moreover have "wc = a * 1024 + b" "0 \<le> b" "b < 1024" by (simp_all add: ab)
  ultimately show ?thesis using assms(1,2) by (auto simp: hi_def lo_def push_bit_eq_mult)
qed

text \<open>
  UTF-16 conversion is a round trip: a character of the basic plane is one unit, which is converted back to its bytes; any
  other is a high and a low surrogate delivered by two calls, and feeding both back, in order, gives the bytes again and the initial
  state.
\<close>

theorem utf16_round_trip:
  assumes "scalar wc" "wc \<noteq> 0" "wcrtomb_bytes wc = Some bs" "rd m s (length bs) = bs" "s \<noteq> NULL" "length bs \<le> n"
    "mb_wc st = 0" "q \<noteq> NULL"
  shows "if wc < 0x10000 then
      mbrtoc16 m True s n st = (int (length bs), Some wc, st) \<and> c16rtomb m q wc st = (wr m q bs, st, int (length bs), None)
    else \<exists>hi lo. mbrtoc16 m True s n st = (int (length bs), Some hi, st\<lparr>mb_wc := lo\<rparr>) \<and>
      mbrtoc16 m True s n (st\<lparr>mb_wc := lo\<rparr>) = (- 3, Some lo, st) \<and>
      c16rtomb m q hi st = (m, st\<lparr>mb_wc := hi\<rparr>, 0, None) \<and>
      c16rtomb m q lo (st\<lparr>mb_wc := hi\<rparr>) = (wr m q bs, st, int (length bs), None)"
proof -
  have d: "mbrtowc m True s n = (int (length bs), Some wc, None)"
    using encode_decode [OF assms(1,3,4,5,6)] assms(2) by simp
  have k: "int (length bs) \<le> 4" using scalar_encodes [OF assms(1)] assms(3) by (auto simp: MB_CUR_MAX_def)
  have st: "st\<lparr>mb_wc := 0\<rparr> = st" using assms(7) by (cases st) simp
  have w: "wcrtomb m q wc st = (wr m q bs, st, int (length bs), None)"
    using assms(3,8) st by (simp add: wcrtomb_def)
  show ?thesis
  proof (cases "wc < 0x10000")
    case True
    then show ?thesis using d k w assms st by (auto simp: mbrtoc16_def c16rtomb_def scalar_def Let_def)
  next
    case False
    define hi lo where hl: "hi = 0xD7C0 + drop_bit 10 wc" "lo = (wc AND 0x3FF) + 0xDC00"
    have a: "0xD800 \<le> hi" "hi < 0xDC00" "0xDC00 \<le> lo" "lo < 0xE000" "0x10000 + push_bit 10 (hi - 0xD800) + (lo - 0xDC00) = wc"
      unfolding hl using surrogate_arith [of wc] False assms(1) by (simp_all add: scalar_def)
    have "mbrtoc16 m True s n st = (int (length bs), Some hi, st\<lparr>mb_wc := lo\<rparr>)"
      using d k False assms(2,5,7) by (simp add: mbrtoc16_def Let_def hl)
    moreover have "mbrtoc16 m True s n (st\<lparr>mb_wc := lo\<rparr>) = (- 3, Some lo, st)"
      using a assms(5) st by (simp add: mbrtoc16_def Let_def)
    moreover have "c16rtomb m q hi st = (m, st\<lparr>mb_wc := hi\<rparr>, 0, None)"
      using a assms(7,8) by (simp add: c16rtomb_def)
    moreover have "c16rtomb m q lo (st\<lparr>mb_wc := hi\<rparr>) = (wr m q bs, st, int (length bs), None)"
    proof -
      have "c16rtomb m q lo (st\<lparr>mb_wc := hi\<rparr>) = wcrtomb m q wc st"
        unfolding c16rtomb_def using a(1-4) assms(8) st by (simp add: a(5))
      then show ?thesis using w by simp
    qed
    ultimately show ?thesis using False by auto
  qed
qed

theorem utf16_round_trip_witness:
  "let m = wr (\<lambda>_. 0) 16 [0xF0, 0x9F, 0x98, 0x80] in
   \<exists>hi lo. mbrtoc16 m True 16 4 zero_state = (4, Some hi, zero_state\<lparr>mb_wc := lo\<rparr>) \<and>
      c16rtomb m 32 lo (zero_state\<lparr>mb_wc := hi\<rparr>) = (wr m 32 [0xF0, 0x9F, 0x98, 0x80], zero_state, 4, None)"
proof -
  have b: "wcrtomb_bytes 0x1F600 = Some [0xF0, 0x9F, 0x98, 0x80]"
    using encode4 [of 0 31 24 0] by (simp add: utf8_byte_def)
  show ?thesis
    using utf16_round_trip [of "0x1F600" "[0xF0, 0x9F, 0x98, 0x80]" "wr (\<lambda>_. 0) 16 [0xF0, 0x9F, 0x98, 0x80]" 16 4 zero_state 32]
      b rd_wr_same [of "\<lambda>_. 0" 16 "[0xF0, 0x9F, 0x98, 0x80]"]
    by (auto simp: scalar_def Let_def zero_state_def)
qed

end
