(* ===== verification/Format.thy ===== *)
theory Format
  imports Prelude
begin

text \<open>
  The formatting engine of \<^verbatim>\<open>include/core/format.h\<close>, output side: conversion specifications, integers, strings,
  characters and pointers, written to a stream or into a bounded buffer.  The floating-point conversions are not
  modelled; a format that uses one has no result here.  \<^verbatim>\<open>int\<close> has 32 and \<^verbatim>\<open>long\<close> and pointers have 64 bits.

  A format string is the list of its characters before the terminator.  The variadic arguments are a list of
  machine words and of character arrays; \<open>AStr None\<close> is a null pointer, and reading an array beyond its end has no
  result (\<open>None\<close>), as has reading a missing argument, and a call that does not return.  A stream is the list of the characters put to it.
\<close>

unbundle bit_operations_syntax

section \<open>Specifications\<close>

type_synonym spec = u32

definition FMT_hex :: u32 where "FMT_hex = 16"
definition FMT_dec :: u32 where "FMT_dec = 10"
definition FMT_oct :: u32 where "FMT_oct = 8"
definition FMT_bin :: u32 where "FMT_bin = 2"

definition FMT_sign :: nat where "FMT_sign = 9"
definition FMT_upper :: nat where "FMT_upper = 10"
definition FMT_left :: nat where "FMT_left = 11"
definition FMT_pref :: nat where "FMT_pref = 12"
definition FMT_plus :: nat where "FMT_plus = 13"
definition FMT_spad :: nat where "FMT_spad = 14"
definition FMT_zpad :: nat where "FMT_zpad = 15"
definition FMT_ksep :: nat where "FMT_ksep = 16"

definition fmt_has :: "spec \<Rightarrow> nat \<Rightarrow> bool" where
  "fmt_has s k \<longleftrightarrow> s AND push_bit k 1 \<noteq> 0"

definition fmt_add :: "spec \<Rightarrow> nat \<Rightarrow> spec" where
  "fmt_add s k = s OR push_bit k 1"

definition fmt_base :: "spec \<Rightarrow> u32" where
  "fmt_base s = s AND 0x3F"

definition fmt_set_base :: "spec \<Rightarrow> u32 \<Rightarrow> spec" where
  "fmt_set_base s b = (s AND NOT 0x3F) OR b"

definition fmt_length :: "spec \<Rightarrow> nat" where
  "fmt_length s = unat (drop_bit 6 (s AND 0x1C0))"

definition fmt_set_length :: "spec \<Rightarrow> nat \<Rightarrow> spec" where
  "fmt_set_length s l = (s AND NOT 0x1C0) OR push_bit 6 (of_nat l)"

definition INT_MAX :: int where "INT_MAX = 2147483647"

section \<open>Writing\<close>

record sink =
  wstream :: "byte list option"
  wmem :: mem
  wptr :: ptr
  wrem :: nat
  wstores :: "(u64 \<times> nat \<times> u64) list"

text \<open>The number of characters written is threaded along; it is not reduced to the width of \<^verbatim>\<open>int\<close>.\<close>

definition write_char :: "byte \<Rightarrow> sink \<times> nat \<Rightarrow> sink \<times> nat" where
  "write_char ch = (\<lambda>(s, len).
     (case wstream s of
        Some cs \<Rightarrow> s\<lparr>wstream := Some (cs @ [ch])\<rparr>
      | None \<Rightarrow> if wptr s \<noteq> 0 \<and> wrem s > 0
                 then s\<lparr>wmem := (wmem s)(wptr s := ch), wptr := wptr s + 1, wrem := wrem s - 1\<rparr> else s,
      len + 1))"

definition write_pad :: "byte \<Rightarrow> int \<Rightarrow> sink \<times> nat \<Rightarrow> sink \<times> nat" where
  "write_pad ch pad = (write_char ch) ^^ nat pad"

definition write_sign :: "spec \<Rightarrow> bool \<Rightarrow> sink \<times> nat \<Rightarrow> sink \<times> nat" where
  "write_sign spec neg st =
     (if neg then write_char 0x2D st
      else if fmt_has spec FMT_plus then write_char 0x2B st
      else if fmt_has spec FMT_spad then write_char 0x20 st else st)"

section \<open>Parsing a specification\<close>

datatype arg = ANum u64 | AStr "byte list option"

definition va_num :: "arg list \<Rightarrow> (u64 \<times> arg list) option" where
  "va_num ap = (case ap of ANum w # ap' \<Rightarrow> Some (w, ap') | _ \<Rightarrow> None)"

definition va_str :: "arg list \<Rightarrow> (byte list option \<times> arg list) option" where
  "va_str ap = (case ap of AStr s # ap' \<Rightarrow> Some (s, ap') | _ \<Rightarrow> None)"

text \<open>\<open>*fmt\<close>: the first character left, or the terminator.\<close>

definition cur :: "byte list \<Rightarrow> byte" where
  "cur fmt = (case fmt of [] \<Rightarrow> 0 | c # _ \<Rightarrow> c)"

definition spec_length :: "byte list \<Rightarrow> nat \<times> byte list" where
  "spec_length fmt =
     (let c = cur fmt; f1 = tl fmt in
      if c = 0x6C then (if cur f1 = 0x6C then (4, tl f1) else (3, f1))
      else if c = 0x68 then (if cur f1 = 0x68 then (1, tl f1) else (2, f1))
      else if c = 0x7A then (5, f1)
      else if c = 0x74 then (6, f1)
      else if c = 0x6A then (7, f1)
      else if c = 0x4C then (4, f1)
      else (0, fmt))"

text \<open>Digits of a width or precision; a value beyond \<^verbatim>\<open>INT_MAX\<close> overflows.\<close>

fun spec_digits :: "int \<Rightarrow> byte list \<Rightarrow> (int \<times> byte list) option" where
  "spec_digits val [] = Some (val, [])"
| "spec_digits val (c # fmt) =
     (if 0x30 \<le> c \<and> c \<le> 0x39 then
        let v = val * 10 + (uint c - 0x30) in if v > INT_MAX then None else spec_digits v fmt
      else Some (val, c # fmt))"

definition spec_value :: "byte list \<Rightarrow> arg list \<Rightarrow> (int \<times> byte list \<times> arg list) option" where
  "spec_value fmt ap =
     (if cur fmt = 0x2A then
        (case va_num ap of None \<Rightarrow> None | Some (w, ap') \<Rightarrow> Some (sint (ucast w :: u32), tl fmt, ap'))
      else (case spec_digits 0 fmt of None \<Rightarrow> None | Some (v, fmt') \<Rightarrow> Some (v, fmt', ap)))"

fun spec_flags :: "spec \<Rightarrow> byte list \<Rightarrow> spec \<times> byte list" where
  "spec_flags spec [] = (spec, [])"
| "spec_flags spec (c # fmt) =
     (if c = 0x2D then spec_flags (fmt_add spec FMT_left) fmt
      else if c = 0x2B then spec_flags (fmt_add spec FMT_plus) fmt
      else if c = 0x20 then spec_flags (fmt_add spec FMT_spad) fmt
      else if c = 0x23 then spec_flags (fmt_add spec FMT_pref) fmt
      else if c = 0x30 then spec_flags (fmt_add spec FMT_zpad) fmt
      else if c = 0x27 then spec_flags (fmt_add spec FMT_ksep) fmt
      else (spec, c # fmt))"

record conv =
  cspec :: spec
  cprec :: int
  cwidth :: int
  ctype :: byte

definition spec_prec :: "byte list \<Rightarrow> arg list \<Rightarrow> (int \<times> byte list \<times> arg list) option" where
  "spec_prec fmt ap = (if cur fmt = 0x2E then spec_value (tl fmt) ap else Some (- 1, fmt, ap))"

definition spec_printf :: "arg list \<Rightarrow> byte list \<Rightarrow> (conv \<times> byte list \<times> arg list) option" where
  "spec_printf ap fmt =
     (let (spec, fmt) = spec_flags 0 fmt in
      case spec_value fmt ap of None \<Rightarrow> None
      | Some (width, fmt, ap) \<Rightarrow>
          if width = - INT_MAX - 1 then None
          else
            let spec = (if width < 0 then fmt_add spec FMT_left else spec);
                width = (if width < 0 then - width else width)
            in case spec_prec fmt ap of None \<Rightarrow> None
               | Some (prec, fmt, ap) \<Rightarrow>
                   let (l, fmt) = spec_length fmt;
                       spec = spec OR push_bit 6 (of_nat l);
                       c = cur fmt;
                       spec = (if 0x41 \<le> c \<and> c < 0x41 + 26 then fmt_add spec FMT_upper else spec);
                       spec = (if c = 0x64 \<or> c = 0x69 then fmt_add spec FMT_sign else spec)
                   in Some (\<lparr>cspec = spec, cprec = prec, cwidth = width, ctype = c\<rparr>, fmt, ap))"

definition get_signed :: "spec \<Rightarrow> arg list \<Rightarrow> (u64 \<times> arg list) option" where
  "get_signed spec ap =
     (case va_num ap of None \<Rightarrow> None
      | Some (w, ap') \<Rightarrow> Some (if fmt_length spec \<in> {3, 4, 5, 6, 7} then w else scast (ucast w :: u32), ap'))"

definition get_unsigned :: "spec \<Rightarrow> arg list \<Rightarrow> (u64 \<times> arg list) option" where
  "get_unsigned spec ap =
     (case va_num ap of None \<Rightarrow> None
      | Some (w, ap') \<Rightarrow> Some (if fmt_length spec \<in> {3, 4, 5, 6, 7} then w else ucast (ucast w :: u32), ap'))"

text \<open>The store through a pointer argument, as address, size and value.\<close>

definition store_size :: "spec \<Rightarrow> nat" where
  "store_size spec =
     (let l = fmt_length spec in if l = 1 then 1 else if l = 2 then 2 else if l \<in> {3, 4, 5, 6, 7} then 8 else 4)"

definition set_signed :: "spec \<Rightarrow> arg list \<Rightarrow> u64 \<Rightarrow> sink \<Rightarrow> (sink \<times> arg list) option" where
  "set_signed spec ap v s =
     (case va_num ap of None \<Rightarrow> None
      | Some (p, ap') \<Rightarrow> Some (s\<lparr>wstores := wstores s @ [(p, store_size spec, v)]\<rparr>, ap'))"

section \<open>Output\<close>

function str_len :: "byte list \<Rightarrow> nat \<Rightarrow> int \<Rightarrow> nat option" where
  "str_len s slen prec =
     (if length s \<le> slen then None
      else if s ! slen \<noteq> 0 \<and> int slen < prec then str_len s (slen + 1) prec
      else Some slen)"
  by pat_completeness auto
termination by (relation "measure (\<lambda>(s, slen, prec). length s - slen)") auto

declare str_len.simps [simp del]

text \<open>
  The loop over the characters of a string advances inside the argument of the write macro, \<^verbatim>\<open>str[pos++]\<close>, and the macro evaluates
  its argument only where it stores it.  With no room left, or no buffer, the loop makes no progress and does not return.
\<close>

primrec write_str :: "byte list \<Rightarrow> sink \<times> nat \<Rightarrow> (sink \<times> nat) option" where
  "write_str [] st = Some st"
| "write_str (c # cs) st =
     (if wstream (fst st) = None \<and> (wptr (fst st) = 0 \<or> wrem (fst st) = 0) then None else write_str cs (write_char c st))"

definition output_str :: "sink \<Rightarrow> spec \<Rightarrow> byte list \<Rightarrow> int \<Rightarrow> int \<Rightarrow> (sink \<times> nat) option" where
  "output_str s spec str prec width =
     (let prec = (if prec < 0 then INT_MAX else prec) in
      case str_len str 0 prec of None \<Rightarrow> None
      | Some slen \<Rightarrow>
          let pad = (if width > int slen then width - int slen else 0);
              st = (s, 0);
              st = (if \<not> fmt_has spec FMT_left then write_pad 0x20 pad st else st)
          in map_option (\<lambda>st. if fmt_has spec FMT_left then write_pad 0x20 pad st else st) (write_str (take slen str) st))"

definition LD :: "byte list" where "LD = map of_char ''0123456789abcdef''"
definition UD :: "byte list" where "UD = map of_char ''0123456789ABCDEF''"

definition D100 :: "byte list" where
  "D100 = map of_char (
     ''0001020304050607080910111213141516171819202122232425262728293031323334353637383940414243444546474849'' @
     ''5051525354555657585960616263646566676869707172737475767778798081828384858687888990919293949596979899'')"

text \<open>The digits for a base that is a power of two; the shifts are 4, 3 and 1.\<close>

lemma unat_drop: "unat (drop_bit k (v :: u64)) = unat v div 2 ^ k"
  using unsigned_less [of v, where 'a = nat] by (subst unsigned_drop_bit_eq) (simp add: drop_bit_eq_div take_bit_nat_eq_self)

lemma unat_mask_bits: "unat (v AND mask k) = unat (v :: u64) mod 2 ^ k"
  by (simp only: take_bit_eq_mask [symmetric]) (subst unsigned_take_bit_eq, simp only: take_bit_eq_mod)

function bits_loop :: "byte list \<Rightarrow> u64 \<Rightarrow> nat \<Rightarrow> u64 \<Rightarrow> byte list \<Rightarrow> byte list" where
  "bits_loop digits msk shift val buf =
     (if val = 0 \<or> shift = 0 then buf
      else bits_loop digits msk shift (drop_bit shift val) (buf @ [digits ! unat (val AND msk)]))"
  by pat_completeness auto
termination
proof (relation "measure (\<lambda>(digits, msk, shift, val, buf). unat val)", simp)
  fix digits buf :: "byte list" and msk val :: u64 and shift :: nat
  assume "\<not> (val = 0 \<or> shift = 0)"
  then have "0 < unat val" "(1 :: nat) < 2 ^ shift" using one_less_power [of "2 :: nat" shift] by (auto simp: unat_gt_0)
  then have "unat (drop_bit shift val) < unat val"
    unfolding unat_drop by (simp add: div_less_dividend)
  then show "((digits, msk, shift, drop_bit shift val, buf @ [digits ! unat (val AND msk)]), digits, msk, shift, val, buf)
      \<in> measure (\<lambda>(digits, msk, shift, val, buf). unat val)" by simp
qed

declare bits_loop.simps [simp del]

function dec_loop :: "u64 \<Rightarrow> byte list \<Rightarrow> u64 \<times> byte list" where
  "dec_loop val buf =
     (if val \<ge> 100 then
        let d = unat (val mod 100) in dec_loop (val div 100) (buf @ [D100 ! (d * 2 + 1), D100 ! (d * 2)])
      else (val, buf))"
  by pat_completeness auto
termination
  by (relation "measure (\<lambda>(val, buf). unat val)") (simp_all add: unat_div word_le_nat_alt)

declare dec_loop.simps [simp del]

definition dec_digits :: "u64 \<Rightarrow> byte list" where
  "dec_digits val =
     (let (val, buf) = dec_loop val [] in
      if val \<ge> 10 then buf @ [D100 ! (unat val * 2 + 1), D100 ! (unat val * 2)] else buf @ [0x30 + ucast val])"

function prec_fill :: "byte list \<Rightarrow> int \<Rightarrow> byte list" where
  "prec_fill buf prec = (if int (length buf) < prec \<and> length buf < 64 then prec_fill (buf @ [0x30]) prec else buf)"
  by pat_completeness auto
termination by (relation "measure (\<lambda>(buf, prec). 64 - length buf)") auto

declare prec_fill.simps [simp del]

definition int_digits :: "spec \<Rightarrow> u64 \<Rightarrow> int \<Rightarrow> byte list" where
  "int_digits spec val prec =
     (let digits = (if fmt_has spec FMT_upper then UD else LD) in
      if \<not> (prec = 0 \<and> val = 0) then
        if val = 0 then [0x30]
        else if fmt_base spec = FMT_hex then bits_loop digits 0xF 4 val []
        else if fmt_base spec = FMT_oct then bits_loop digits 0x7 3 val []
        else if fmt_base spec = FMT_bin then bits_loop digits 0x1 1 val []
        else dec_digits val
      else [])"

text \<open>
  The negation of the smallest value overflows \<^verbatim>\<open>intmax_t\<close>, which C leaves undefined; here it wraps around, as compilers with
  \<^verbatim>\<open>-fwrapv\<close> or plain two's complement code do.
\<close>

definition output_int :: "sink \<Rightarrow> spec \<Rightarrow> u64 \<Rightarrow> int \<Rightarrow> int \<Rightarrow> sink \<times> nat" where
  "output_int s spec val prec width =
     (let neg = (fmt_has spec FMT_sign \<and> sint val < 0);
          sign = (if fmt_has spec FMT_sign \<and> (neg \<or> fmt_has spec FMT_plus \<or> fmt_has spec FMT_spad) then 1 else 0 :: nat);
          val = (if neg then - val else val);
          prefix = (if fmt_has spec FMT_pref \<and> val \<noteq> 0 then
                      if fmt_base spec = FMT_hex \<or> fmt_base spec = FMT_bin then 2
                      else if fmt_base spec = FMT_oct then 1 else 0
                    else 0 :: nat);
          buf = prec_fill (int_digits spec val prec) prec;
          pos = length buf;
          pad = (if width > int (pos + sign + prefix) then width - int (pos + sign + prefix) else 0)
      in if wstream s = None \<and> wptr s = 0 then (s, pos + sign + prefix + nat pad)
         else
           let st = (s, 0);
               st = (if \<not> fmt_has spec FMT_left \<and> \<not> (fmt_has spec FMT_zpad \<and> prec < 0) then write_pad 0x20 pad st else st);
               st = (if sign \<noteq> 0 then write_sign spec neg st else st);
               st = (if prefix \<noteq> 0 then
                       let st = write_char 0x30 st in
                       if prefix = 2 then
                         write_char (if fmt_has spec FMT_upper then (if fmt_base spec = FMT_hex then 0x58 else 0x42)
                                     else (if fmt_base spec = FMT_hex then 0x78 else 0x62)) st
                       else st
                     else st);
               st = (if \<not> fmt_has spec FMT_left \<and> (fmt_has spec FMT_zpad \<and> prec < 0) then write_pad 0x30 pad st else st);
               st = foldl (\<lambda>st c. write_char c st) st (rev buf);
               st = (if fmt_has spec FMT_left then write_pad 0x20 pad st else st)
           in st)"

section \<open>Conversions\<close>

definition printf_ptr :: "sink \<Rightarrow> spec \<Rightarrow> arg list \<Rightarrow> int \<Rightarrow> (sink \<times> nat \<times> arg list) option" where
  "printf_ptr s spec ap width =
     (case va_num ap of None \<Rightarrow> None
      | Some (p, ap') \<Rightarrow>
          if p \<noteq> 0 then
            let (s', n) = output_int s (fmt_set_base spec FMT_hex OR push_bit FMT_pref 1) p (- 1) width in Some (s', n, ap')
          else map_option (\<lambda>(s', n). (s', n, ap')) (output_str s spec [0x30, 0x78, 0x30, 0] 3 width))"

definition printf_char :: "sink \<Rightarrow> spec \<Rightarrow> arg list \<Rightarrow> int \<Rightarrow> (sink \<times> nat \<times> arg list) option" where
  "printf_char s spec ap width =
     (case va_num ap of None \<Rightarrow> None
      | Some (ch, ap') \<Rightarrow>
          let pad = (if width > 1 then width - 1 else 0);
              st = (s, 0);
              st = (if \<not> fmt_has spec FMT_left then write_pad 0x20 pad st else st);
              st = write_char (ucast ch) st;
              st = (if fmt_has spec FMT_left then write_pad 0x20 pad st else st)
          in Some (fst st, snd st, ap'))"

definition printf_str :: "sink \<Rightarrow> spec \<Rightarrow> arg list \<Rightarrow> int \<Rightarrow> int \<Rightarrow> (sink \<times> nat \<times> arg list) option" where
  "printf_str s spec ap prec width =
     (case va_str ap of None \<Rightarrow> None
      | Some (str, ap') \<Rightarrow>
          let str = (case str of None \<Rightarrow> [0x28, 0x6E, 0x75, 0x6C, 0x6C, 0x29, 0] | Some x \<Rightarrow> x)
          in map_option (\<lambda>(s', n). (s', n, ap')) (output_str s spec str prec width))"

definition printf_base :: "u32 \<Rightarrow> sink \<Rightarrow> spec \<Rightarrow> arg list \<Rightarrow> int \<Rightarrow> int \<Rightarrow> (sink \<times> nat \<times> arg list) option" where
  "printf_base base s spec ap prec width =
     (case (if fmt_has spec FMT_sign then get_signed spec ap else get_unsigned spec ap) of None \<Rightarrow> None
      | Some (val, ap') \<Rightarrow>
          let (s', n) = output_int s (fmt_set_base spec base) val prec width in Some (s', n, ap'))"

definition is_float_type :: "byte \<Rightarrow> bool" where
  "is_float_type c \<longleftrightarrow> c \<in> set [0x66, 0x46, 0x65, 0x45, 0x67, 0x47, 0x61, 0x41]"

definition printf_conv :: "conv \<Rightarrow> sink \<Rightarrow> nat \<Rightarrow> arg list \<Rightarrow> (sink \<times> nat \<times> arg list) option" where
  "printf_conv cv s len ap =
     (let c = ctype cv; spec = cspec cv; prec = cprec cv; width = cwidth cv in
      if c = 0x6E then map_option (\<lambda>(s', ap'). (s', 0, ap')) (set_signed spec ap (of_nat len) s)
      else if c = 0x63 then printf_char s spec ap width
      else if c = 0x73 then printf_str s spec ap prec width
      else if c = 0x64 \<or> c = 0x69 \<or> c = 0x75 then printf_base FMT_dec s spec ap prec width
      else if c = 0x6F then printf_base FMT_oct s spec ap prec width
      else if c = 0x78 \<or> c = 0x58 then printf_base FMT_hex s spec ap prec width
      else if c = 0x62 \<or> c = 0x42 then printf_base FMT_bin s spec ap prec width
      else if c = 0x70 then printf_ptr s spec ap width
      else if is_float_type c then None
      else (let (s', n) = write_char c (write_char 0x25 (s, 0)) in Some (s', n, ap)))"

text \<open>What parsing a specification leaves of the format is a suffix.\<close>

lemma spec_flags_length: "length (snd (spec_flags spec fmt)) \<le> length fmt"
  by (induction spec fmt rule: spec_flags.induct) (auto split: prod.splits)

lemma spec_digits_length: "spec_digits v fmt = Some (v', fmt') \<Longrightarrow> length fmt' \<le> length fmt"
  by (induction v fmt rule: spec_digits.induct) (auto simp: Let_def split: if_splits)

lemma spec_value_length: "spec_value fmt ap = Some (v, fmt', ap') \<Longrightarrow> length fmt' \<le> length fmt"
  by (auto simp: spec_value_def split: if_splits option.splits dest: spec_digits_length)

lemma spec_prec_length: "spec_prec fmt ap = Some (v, fmt', ap') \<Longrightarrow> length fmt' \<le> length fmt"
  by (auto simp: spec_prec_def split: if_splits dest!: spec_value_length)

lemma spec_length_length: "length (snd (spec_length fmt)) \<le> length fmt"
  by (auto simp: spec_length_def Let_def)

lemma spec_printf_length: "spec_printf ap fmt = Some (cv, fmt', ap') \<Longrightarrow> length fmt' \<le> length fmt"
proof -
  assume a: "spec_printf ap fmt = Some (cv, fmt', ap')"
  obtain sp f1 where 1: "spec_flags 0 fmt = (sp, f1)" by force
  obtain w f2 ap2 where 2: "spec_value f1 ap = Some (w, f2, ap2)"
    using a 1 by (auto simp: spec_printf_def split: option.splits)
  obtain q f3 ap3 where 3: "spec_prec f2 ap2 = Some (q, f3, ap3)"
    using a 1 2 by (auto simp: spec_printf_def Let_def split: option.splits if_splits)
  have "fmt' = snd (spec_length f3)"
    using a 1 2 3 by (auto simp: spec_printf_def Let_def split: if_splits prod.splits)
  then show ?thesis
    using spec_flags_length [of 0 fmt] spec_value_length [OF 2] spec_prec_length [OF 3] spec_length_length [of f3] 1 by simp
qed

text \<open>The main loop.  A conversion whose type is the terminator moves the format pointer beyond the string: no result.\<close>

function printf_loop :: "sink \<Rightarrow> nat \<Rightarrow> byte list \<Rightarrow> arg list \<Rightarrow> (sink \<times> nat \<times> arg list) option" where
  "printf_loop s len fmt ap =
     (case fmt of [] \<Rightarrow> Some (s, len, ap)
      | c # fmt1 \<Rightarrow>
          if c \<noteq> 0x25 then (let (s', len') = write_char c (s, len) in printf_loop s' len' fmt1 ap)
          else if cur fmt1 = 0x25 then (let (s', len') = write_char 0x25 (s, len) in printf_loop s' len' (tl fmt1) ap)
          else (case spec_printf ap fmt1 of None \<Rightarrow> None
                | Some (cv, fmt2, ap2) \<Rightarrow>
                    (case printf_conv cv s len ap2 of None \<Rightarrow> None
                     | Some (s', n, ap3) \<Rightarrow>
                         (case fmt2 of [] \<Rightarrow> None | _ # fmt3 \<Rightarrow> printf_loop s' (len + n) fmt3 ap3))))"
  by pat_completeness auto
termination
  by (relation "measure (\<lambda>(s, len, fmt, ap). length fmt)") (auto dest!: spec_printf_length simp: cur_def split: list.splits)

declare printf_loop.simps [simp del]

text \<open>Into a buffer of \<open>n\<close> bytes (\<^verbatim>\<open>vsnprintf\<close>), and to a stream (\<^verbatim>\<open>vfprintf\<close>); a null format returns \<open>-1\<close>.\<close>

definition printf_sink :: "mem \<Rightarrow> ptr \<Rightarrow> nat \<Rightarrow> sink" where
  "printf_sink m out n = \<lparr>wstream = None, wmem = m, wptr = out, wrem = (if out \<noteq> 0 \<and> n > 0 then n - 1 else 0), wstores = []\<rparr>"

definition vsnprintf :: "mem \<Rightarrow> ptr \<Rightarrow> nat \<Rightarrow> byte list option \<Rightarrow> arg list \<Rightarrow> (sink \<times> int) option" where
  "vsnprintf m out n fmt ap =
     (case fmt of None \<Rightarrow> Some (printf_sink m out n, - 1)
      | Some f \<Rightarrow>
          (case printf_loop (printf_sink m out n) 0 f ap of None \<Rightarrow> None
           | Some (s, len, _) \<Rightarrow>
               Some (if out \<noteq> 0 \<and> n > 0 then s\<lparr>wmem := (wmem s)(wptr s := 0)\<rparr> else s, int len)))"

definition vfprintf :: "byte list \<Rightarrow> byte list option \<Rightarrow> arg list \<Rightarrow> (sink \<times> int) option" where
  "vfprintf cs fmt ap =
     (let s = \<lparr>wstream = Some cs, wmem = (\<lambda>_. 0), wptr = 0, wrem = 0, wstores = []\<rparr> in
      case fmt of None \<Rightarrow> Some (s, - 1)
      | Some f \<Rightarrow>
          (case printf_loop s 0 f ap of None \<Rightarrow> None | Some (s, len, _) \<Rightarrow> Some (s, int len)))"

section \<open>The text of a conversion\<close>

text \<open>
  What a conversion is to print, without a sink: the digits of a number in a base, most significant first; sign,
  prefix and digits, filled with zeros up to the precision and with spaces or zeros up to the width.
\<close>

fun radix :: "nat \<Rightarrow> nat \<Rightarrow> nat list" where
  "radix b n = (if n < b \<or> b < 2 then [n] else radix b (n div b) @ [n mod b])"

declare radix.simps [simp del]

definition base_of :: "spec \<Rightarrow> nat" where
  "base_of spec = (if fmt_base spec = FMT_hex then 16 else if fmt_base spec = FMT_oct then 8 else if fmt_base spec = FMT_bin then 2 else 10)"

definition digit_char :: "bool \<Rightarrow> nat \<Rightarrow> byte" where
  "digit_char up d = (if d < 10 then 0x30 + of_nat d else (if up then 0x41 else 0x61) + of_nat (d - 10))"

definition pad_text :: "spec \<Rightarrow> bool \<Rightarrow> int \<Rightarrow> byte list \<Rightarrow> byte list \<Rightarrow> byte list" where
  "pad_text spec zeros width front body =
     (let pad = nat width - length front - length body in
      if fmt_has spec FMT_left then front @ body @ replicate pad 0x20
      else if zeros then front @ replicate pad 0x30 @ body
      else replicate pad 0x20 @ front @ body)"

definition sign_text :: "spec \<Rightarrow> bool \<Rightarrow> byte list" where
  "sign_text spec neg =
     (if \<not> fmt_has spec FMT_sign then [] else if neg then [0x2D]
      else if fmt_has spec FMT_plus then [0x2B] else if fmt_has spec FMT_spad then [0x20] else [])"

definition prefix_text :: "spec \<Rightarrow> nat \<Rightarrow> byte list" where
  "prefix_text spec n =
     (if \<not> fmt_has spec FMT_pref \<or> n = 0 then []
      else if base_of spec = 16 then [0x30, if fmt_has spec FMT_upper then 0x58 else 0x78]
      else if base_of spec = 2 then [0x30, if fmt_has spec FMT_upper then 0x42 else 0x62]
      else if base_of spec = 8 then [0x30] else [])"

definition digits_text :: "spec \<Rightarrow> nat \<Rightarrow> int \<Rightarrow> byte list" where
  "digits_text spec n prec =
     (let ds = (if prec = 0 \<and> n = 0 then [] else map (digit_char (fmt_has spec FMT_upper)) (radix (base_of spec) n))
      in replicate (nat prec - length ds) 0x30 @ ds)"

definition int_text :: "spec \<Rightarrow> int \<Rightarrow> int \<Rightarrow> int \<Rightarrow> byte list" where
  "int_text spec v prec width =
     pad_text spec (fmt_has spec FMT_zpad \<and> prec < 0) width
       (sign_text spec (v < 0) @ prefix_text spec (nat \<bar>v\<bar>)) (digits_text spec (nat \<bar>v\<bar>) prec)"

text \<open>The number an argument stands for.\<close>

definition int_value :: "spec \<Rightarrow> u64 \<Rightarrow> int" where
  "int_value spec w = (if fmt_has spec FMT_sign then sint w else uint w)"

section \<open>Digits\<close>

lemma fmt_has_bit: "k < 32 \<Longrightarrow> fmt_has s k \<longleftrightarrow> bit s k"
proof -
  assume k: "k < 32"
  have "bit (s AND push_bit k 1) n \<longleftrightarrow> n = k \<and> bit s k" for n by (auto simp: bit_simps k bit_1_iff)
  then show ?thesis unfolding fmt_has_def by (metis bit_0_eq bit_eqI bot_apply bot_bool_def)
qed

lemma LD_digit: "d < 16 \<Longrightarrow> LD ! d = digit_char False d" "d < 16 \<Longrightarrow> UD ! d = digit_char True d"
proof -
  have "\<forall>d \<in> set [0..<16]. LD ! d = digit_char False d \<and> UD ! d = digit_char True d" by code_simp
  then show "d < 16 \<Longrightarrow> LD ! d = digit_char False d" "d < 16 \<Longrightarrow> UD ! d = digit_char True d" by simp_all
qed

lemma D100_pairs: "D100 = concat (map (\<lambda>d. [0x30 + of_nat (d div 10), 0x30 + of_nat (d mod 10)]) [0..<100])"
  by code_simp

lemma D100_digits:
  assumes "d < 100"
  shows "D100 ! (d * 2) = digit_char up (d div 10)" "D100 ! (d * 2 + 1) = digit_char up (d mod 10)"
proof -
  have "d div 10 < 10" "d mod 10 < 10" "Suc (d * 2) mod 2 = 1" using assms by (auto simp: mod_Suc)
  then show "D100 ! (d * 2) = digit_char up (d div 10)" "D100 ! (d * 2 + 1) = digit_char up (d mod 10)"
    using assms concat_nth [of "\<lambda>d. [0x30 + of_nat (d div 10), 0x30 + of_nat (d mod 10)] :: byte list" 2 _ 100]
    by (simp_all add: D100_pairs digit_char_def)
qed

lemma radix_small: "n < b \<Longrightarrow> radix b n = [n]"
  by (subst radix.simps) simp

lemma radix_step: "2 \<le> b \<Longrightarrow> b \<le> n \<Longrightarrow> radix b n = radix b (n div b) @ [n mod b]"
  by (subst radix.simps) simp

lemma radix_less: "2 \<le> b \<Longrightarrow> d \<in> set (radix b n) \<Longrightarrow> d < b"
  by (induction b n rule: radix.induct) (subst (asm) (2) radix.simps, auto split: if_splits)

lemma bits_loop_radix:
  assumes "0 < k" "msk = mask k"
  shows "val \<noteq> 0 \<Longrightarrow> bits_loop digits msk k val buf = buf @ map ((!) digits) (rev (radix (2 ^ k) (unat val)))"
  using assms
proof (induction digits msk k val buf rule: bits_loop.induct)
  case (1 digits msk k val buf)
  have b: "(2 :: nat) \<le> 2 ^ k" using 1(3) by (cases k) auto
  note d = unat_drop [of k val]
  have m: "unat (val AND msk) = unat val mod 2 ^ k"
    using 1(4) by (simp only: unat_mask_bits)
  show ?case
  proof (cases "drop_bit k val = 0")
    case True
    then have "unat val div 2 ^ k = 0" using d by simp
    then have lt: "unat val < 2 ^ k" by (simp add: div_eq_0_iff)
    then show ?thesis using 1 True m by (subst bits_loop.simps) (simp add: bits_loop.simps [of _ _ _ 0] radix_small)
  next
    case False
    then have "unat val div 2 ^ k \<noteq> 0" using d by (metis unat_eq_zero)
    then have ge: "2 ^ k \<le> unat val" by (simp add: div_eq_0_iff not_less)
    show ?thesis using 1 False m d radix_step [OF b ge] by (subst bits_loop.simps) simp
  qed
qed

lemma radix_hundred: "100 \<le> n \<Longrightarrow> radix 10 n = radix 10 (n div 100) @ [n div 10 mod 10, n mod 10]"
proof -
  assume a: "100 \<le> n"
  then have "10 \<le> n div 10" by (simp add: div_le_mono [of 100 n 10, simplified])
  then show ?thesis using a radix_step [of 10 n] radix_step [of 10 "n div 10"] by (simp add: div_mult2_eq [symmetric])
qed

lemma dec_loop_radix:
  "\<exists>v b. dec_loop val buf = (v, b) \<and> unat v < 100 \<and>
    b @ map (digit_char up) (rev (radix 10 (unat v))) = buf @ map (digit_char up) (rev (radix 10 (unat val)))"
proof (induction val buf rule: dec_loop.induct)
  case (1 val buf)
  show ?case
  proof (cases "val \<ge> 100")
    case True
    define d where "d = unat val mod 100"
    have u: "unat (val mod 100) = d" "unat (val div 100) = unat val div 100" "100 \<le> unat val"
      using True by (simp_all add: d_def unat_mod unat_div word_le_nat_alt)
    have d: "d < 100" "d div 10 = unat val div 10 mod 10" "d mod 10 = unat val mod 10"
      by (simp_all add: d_def mod_mult2_eq [of _ 10 10, simplified] mod_mod_cancel)
    have "dec_loop val buf = dec_loop (val div 100) (buf @ [D100 ! (d * 2 + 1), D100 ! (d * 2)])"
      using True u by (subst dec_loop.simps) simp
    then show ?thesis using 1 [OF True refl] True u d D100_digits [OF d(1), of up] radix_hundred [OF u(3)]
      by simp
  next
    case False
    then show ?thesis by (subst dec_loop.simps) (simp add: word_le_nat_alt)
  qed
qed

lemma dec_digits_radix: "dec_digits val = map (digit_char up) (rev (radix 10 (unat val)))"
proof -
  obtain v b where l: "dec_loop val [] = (v, b)" "unat v < 100"
      "b @ map (digit_char up) (rev (radix 10 (unat v))) = map (digit_char up) (rev (radix 10 (unat val)))"
    using dec_loop_radix [of val "[]" up] by auto
  show ?thesis
  proof (cases "v \<ge> 10")
    case True
    then have "10 \<le> unat v" by (simp add: word_le_nat_alt)
    moreover have "unat v div 10 < 10" using l(2) by auto
    ultimately have "radix 10 (unat v) = [unat v div 10, unat v mod 10]" using radix_step [of 10 "unat v"] by (simp add: radix_small)
    then show ?thesis using l True D100_digits [OF l(2), of up] by (simp add: dec_digits_def)
  next
    case False
    then have "unat v < 10" by (simp add: word_le_nat_alt)
    moreover have "ucast v = (of_nat (unat v) :: byte)" by simp
    ultimately show ?thesis using l False by (simp add: dec_digits_def radix_small digit_char_def)
  qed
qed

lemma lookup_digits: "(if up then UD else LD) ! d = digit_char up d" if "d < 16"
  using LD_digit that by simp

lemma int_digits_radix:
  "int_digits spec val prec =
    (if prec = 0 \<and> val = 0 then [] else rev (map (digit_char (fmt_has spec FMT_upper)) (radix (base_of spec) (unat val))))"
proof -
  define up where "up = fmt_has spec FMT_upper"
  define tb where "tb = (if up then UD else LD)"
  have bl: "bits_loop tb (mask k) k val [] = rev (map (digit_char up) (radix (2 ^ k) (unat val)))"
    if "val \<noteq> 0" "0 < k" "2 ^ k \<le> (16 :: nat)" for k
  proof -
    have "(2 :: nat) \<le> 2 ^ k" using that(2) by (cases k) auto
    then have "map ((!) tb) (rev (radix (2 ^ k) (unat val))) = map (digit_char up) (rev (radix (2 ^ k) (unat val)))"
      using radix_less that(3) by (intro map_cong) (fastforce simp: tb_def lookup_digits)+
    then show ?thesis using bits_loop_radix [OF that(2) refl that(1), of tb "[]"] by (simp add: rev_map)
  qed
  have m: "(0xF :: u64) = mask 4" "(0x7 :: u64) = mask 3" "(0x1 :: u64) = mask 1" by (simp_all add: mask_eq_exp_minus_1)
  show ?thesis
  proof (cases "val = 0")
    case True
    then show ?thesis by (simp add: int_digits_def base_of_def radix_small digit_char_def)
  next
    case False
    then show ?thesis
      using bl [of 4] bl [of 3] bl [of 1] dec_digits_radix [of val up]
      unfolding int_digits_def Let_def up_def [symmetric] tb_def [symmetric] m base_of_def
      by (simp add: FMT_hex_def FMT_oct_def FMT_bin_def rev_map)
  qed
qed

lemma radix_length: "2 \<le> b \<Longrightarrow> n < 2 ^ k \<Longrightarrow> 0 < k \<Longrightarrow> length (radix b n) \<le> k"
proof (induction k arbitrary: n)
  case (Suc k)
  show ?case
  proof (cases "n < b \<or> k = 0")
    case True
    then show ?thesis using Suc.prems by (auto simp: radix_small)
  next
    case False
    have "n div b \<le> n div 2" using Suc.prems by (intro div_le_mono2) auto
    also have "\<dots> < 2 ^ k" using Suc.prems(2) by auto
    finally show ?thesis using Suc.IH [of "n div b"] Suc.prems False radix_step [of b n] by simp
  qed
qed simp

text \<open>The digits and the zeros of the precision fit in the 64 characters of the buffer.\<close>

lemma prec_fill_eq: "prec_fill buf prec = buf @ replicate (nat (min prec 64) - length buf) 0x30"
proof (induction buf prec rule: prec_fill.induct)
  case (1 buf prec)
  show ?case
  proof (cases "int (length buf) < prec \<and> length buf < 64")
    case True
    then have "nat (min prec 64) - length buf = Suc (nat (min prec 64) - length (buf @ [0x30]))" by auto
    then show ?thesis using 1 True by (subst prec_fill.simps) simp
  next
    case False
    then show ?thesis by (subst prec_fill.simps) auto
  qed
qed

lemma buffer_fits: "length (prec_fill (int_digits spec val prec) prec) \<le> 64"
proof -
  have "length (radix (base_of spec) (unat val)) \<le> 64"
    using radix_length [of "base_of spec" "unat val" 64] unsigned_less [of val, where 'a = nat] by (auto simp: base_of_def)
  moreover have "nat (min prec 64) \<le> 64" by simp
  ultimately show ?thesis by (auto simp: prec_fill_eq int_digits_radix)
qed

lemma digits_filled:
  "rev (prec_fill (int_digits spec val prec) prec) = digits_text spec (unat val) (min prec 64)"
  unfolding prec_fill_eq int_digits_radix digits_text_def Let_def by (simp add: unat_eq_0 rev_map min_def)

lemma magnitude:
  "unat (if fmt_has spec FMT_sign \<and> sint val < 0 then - val else val) = nat \<bar>int_value spec val\<bar>"
proof (cases "fmt_has spec FMT_sign")
  case True
  have r: "- (2 ^ 63) \<le> sint val" "sint val < 2 ^ 63" using sint_range_size [of val] by (simp_all add: word_size)
  show ?thesis
  proof (cases "sint val < 0")
    case neg: True
    have "uint (- val) = uint (of_int (- sint val) :: u64)" by simp
    also have "\<dots> = - sint val" using r neg by (simp only: uint_word_of_int) simp
    finally show ?thesis using True neg by (simp add: int_value_def unat_eq_nat_uint)
  next
    case False
    have "uint val = uint (of_int (sint val) :: u64)" by simp
    also have "\<dots> = sint val" using r False by (simp only: uint_word_of_int) simp
    finally show ?thesis using True False by (simp add: int_value_def unat_eq_nat_uint)
  qed
next
  case False
  then show ?thesis unfolding int_value_def unat_eq_nat_uint by (simp only: simp_thms if_False) simp
qed

section \<open>Emitting a text\<close>

definition emit :: "byte list \<Rightarrow> sink \<Rightarrow> sink" where
  "emit t s = foldl (\<lambda>s c. fst (write_char c (s, 0))) s t"

lemma emit_Nil [simp]: "emit [] s = s"
  by (simp add: emit_def)

lemma emit_append [simp]: "emit (a @ b) s = emit b (emit a s)"
  by (simp add: emit_def)

lemma write_char_emit: "write_char c (s, n) = (emit [c] s, Suc n)"
  by (simp add: emit_def write_char_def)

lemma write_all_emit: "foldl (\<lambda>st c. write_char c st) (s, n) t = (emit t s, n + length t)"
proof (induction t arbitrary: s n)
  case (Cons c t)
  show ?case using Cons.IH [of "emit [c] s" "Suc n"] emit_append [of "[c]" t s] by (simp add: write_char_emit)
qed simp

lemma write_pad_emit: "write_pad c k (s, n) = (emit (replicate (nat k) c) s, n + nat k)"
proof -
  have "(write_char c ^^ j) (s, n) = (emit (replicate j c) s, n + j)" for j
  proof (induction j)
    case (Suc j)
    have "emit [c] (emit (replicate j c) s) = emit (replicate j c @ [c]) s" by simp
    then show ?case using Suc by (simp add: write_char_emit replicate_append_same del: emit_append)
  qed simp
  then show ?thesis by (simp add: write_pad_def)
qed

lemma emit_null: "wstream s = None \<Longrightarrow> wptr s = 0 \<Longrightarrow> emit t s = s"
  by (induction t) (simp_all add: emit_def write_char_def)

lemma emit_stream: "wstream s = Some cs \<Longrightarrow> emit t s = s\<lparr>wstream := Some (cs @ t)\<rparr>"
proof (induction t arbitrary: s cs)
  case (Cons c t)
  have "emit (c # t) s = emit t (s\<lparr>wstream := Some (cs @ [c])\<rparr>)"
    using Cons.prems emit_append [of "[c]" t s] by (simp add: emit_def write_char_def)
  then show ?case using Cons.IH [of "s\<lparr>wstream := Some (cs @ [c])\<rparr>" "cs @ [c]"] by simp
qed simp

lemma emit_buffer:
  "wstream s = None \<Longrightarrow> wptr s \<noteq> 0 \<Longrightarrow>
    emit t s = s\<lparr>wmem := wr (wmem s) (wptr s) (take (wrem s) t), wptr := wptr s + min (wrem s) (length t),
      wrem := wrem s - length t\<rparr>"
proof (induction t arbitrary: s)
  case (Cons c t)
  define s1 where "s1 = emit [c] s"
  have e: "emit (c # t) s = emit t s1" using emit_append [of "[c]" t s] by (simp add: s1_def)
  show ?case
  proof (cases "wrem s")
    case 0
    then have "s1 = s" using Cons.prems by (simp add: s1_def emit_def write_char_def)
    then show ?thesis using e Cons.IH [of s] Cons.prems 0 by simp
  next
    case (Suc r)
    then have "s1 = s\<lparr>wmem := (wmem s)(wptr s := c), wptr := Suc (wptr s), wrem := r\<rparr>"
      using Cons.prems by (simp add: s1_def emit_def write_char_def)
    then show ?thesis using e Cons.IH [of s1] Cons.prems Suc by (simp del: fun_upd_apply)
  qed
qed simp

text \<open>
  The room a sink needs to take \<open>k\<close> characters without dropping one; a part that needs no room is not made to need any by what
  precedes it.
\<close>

definition fits :: "sink \<Rightarrow> nat \<Rightarrow> bool" where
  "fits s k \<longleftrightarrow> k = 0 \<or> wstream s \<noteq> None \<or> (wptr s \<noteq> 0 \<and> k \<le> wrem s)"

definition after :: "nat \<Rightarrow> nat \<Rightarrow> nat" where
  "after n k = (if k = 0 then 0 else n + k)"

lemma fits_0 [simp]: "fits s 0"
  by (simp add: fits_def)

lemma fits_max: "fits s (max a b) \<longleftrightarrow> fits s a \<and> fits s b"
  by (auto simp: fits_def max_def)

lemma fits_stores [simp]: "fits (s\<lparr>wstores := w\<rparr>) k = fits s k"
  by (simp add: fits_def)

lemma fits_emit: "fits (emit u s) k \<longleftrightarrow> fits s (after (length u) k)"
proof (cases "wstream s")
  case None
  show ?thesis
  proof (cases "wptr s = 0")
    case True
    then show ?thesis using None by (simp add: fits_def after_def emit_null)
  next
    case False
    then show ?thesis using None by (auto simp: fits_def after_def emit_buffer)
  qed
next
  case (Some cs)
  then show ?thesis by (simp add: fits_def after_def emit_stream)
qed

lemma write_str_emit: "write_str t (s, n) = (if fits s (length t) then Some (emit t s, n + length t) else None)"
proof (induction t arbitrary: s n)
  case (Cons c t)
  have e: "emit (c # t) s = emit t (emit [c] s)" using emit_append [of "[c]" t s] by simp
  have "fits s (length (c # t)) \<longleftrightarrow> fits s 1 \<and> fits (emit [c] s) (length t)"
    unfolding fits_emit by (auto simp: fits_def after_def)
  moreover have "fits s 1 \<longleftrightarrow> \<not> (wstream s = None \<and> (wptr s = 0 \<or> wrem s = 0))" by (auto simp: fits_def)
  ultimately show ?case using Cons.IH [of "emit [c] s" "Suc n"] by (auto simp: write_char_emit e)
qed simp

section \<open>Every conversion emits its text\<close>

text \<open>The engine has room for 64 digits, so a larger precision counts as 64.\<close>

lemma output_int_text:
  "output_int s spec val prec width = (emit (int_text spec (int_value spec val) (min prec 64) width) s,
     length (int_text spec (int_value spec val) (min prec 64) width))"
proof -
  define v where "v = int_value spec val"
  define neg where "neg = (fmt_has spec FMT_sign \<and> sint val < 0)"
  define mag where "mag = (if neg then - val else val)"
  have n: "neg \<longleftrightarrow> v < 0" by (auto simp: neg_def v_def int_value_def)
  have m: "unat mag = nat \<bar>v\<bar>" using magnitude [of spec val] by (simp add: neg_def v_def mag_def)
  then have m0: "mag = 0 \<longleftrightarrow> nat \<bar>v\<bar> = 0" by (metis unat_eq_zero)
  define sg where "sg = sign_text spec (v < 0)"
  define pf where "pf = prefix_text spec (nat \<bar>v\<bar>)"
  define ds where "ds = digits_text spec (nat \<bar>v\<bar>) (min prec 64)"
  define buf where "buf = prec_fill (int_digits spec mag prec) prec"
  have buf: "rev buf = ds" using digits_filled [of spec mag prec] m by (simp add: buf_def ds_def)
  then have lb: "length buf = length ds" by (metis length_rev)
  have sgn: "(if fmt_has spec FMT_sign \<and> (neg \<or> fmt_has spec FMT_plus \<or> fmt_has spec FMT_spad) then 1 else 0 :: nat) = length sg"
    by (simp add: sg_def sign_text_def n)
  have pre: "(if fmt_has spec FMT_pref \<and> mag \<noteq> 0 then
        if fmt_base spec = FMT_hex \<or> fmt_base spec = FMT_bin then 2 else if fmt_base spec = FMT_oct then 1 else 0
      else 0 :: nat) = length pf"
    by (simp add: pf_def prefix_text_def m0 base_of_def FMT_hex_def FMT_bin_def FMT_oct_def)
  have ws: "(if length sg \<noteq> 0 then write_sign spec neg (s', k) else (s', k)) = (emit sg s', k + length sg)" for s' k
    by (simp add: sg_def sign_text_def n write_sign_def write_char_emit)
  have wp: "(if length pf \<noteq> 0 then
        let st = write_char 0x30 (s', k) in
        if length pf = 2 then
          write_char (if fmt_has spec FMT_upper then (if fmt_base spec = FMT_hex then 0x58 else 0x42)
                      else (if fmt_base spec = FMT_hex then 0x78 else 0x62)) st
        else st
      else (s', k)) = (emit pf s', k + length pf)" for s' k
    using emit_append [of "[0x30]" "[_]" s']
    by (simp add: pf_def prefix_text_def m0 base_of_def FMT_hex_def FMT_bin_def FMT_oct_def write_char_emit Let_def)
  define pad where "pad = (if width > int (length buf + length sg + length pf) then width - int (length buf + length sg + length pf) else 0)"
  have pad: "nat pad = nat width - length (sg @ pf) - length ds" unfolding pad_def lb by (auto simp: nat_diff_distrib')
  have it: "int_text spec v (min prec 64) width = pad_text spec (fmt_has spec FMT_zpad \<and> prec < 0) width (sg @ pf) ds"
    by (simp add: int_text_def sg_def pf_def ds_def min_less_iff_disj)
  have lt: "length (int_text spec v (min prec 64) width) = length buf + length sg + length pf + nat pad"
    unfolding it pad_text_def Let_def pad [symmetric] by (simp add: lb)
  show ?thesis
  proof (cases "wstream s = None \<and> wptr s = 0")
    case True
    then show ?thesis unfolding output_int_def Let_def neg_def [symmetric] mag_def [symmetric] sgn pre buf_def [symmetric] pad_def [symmetric]
        v_def [symmetric] using emit_null lt by simp
  next
    case False
    define z where "z = (fmt_has spec FMT_zpad \<and> prec < 0)"
    consider "fmt_has spec FMT_left = True" | "fmt_has spec FMT_left = False" "z = True" | "fmt_has spec FMT_left = False" "z = False"
      by blast
    then show ?thesis unfolding output_int_def Let_def neg_def [symmetric] mag_def [symmetric] sgn pre buf_def [symmetric] pad_def [symmetric]
        v_def [symmetric] lt if_not_P [OF False]
      unfolding it pad_text_def Let_def pad [symmetric] z_def [symmetric]
      by cases (simp_all only: simp_thms if_True if_False ws wp [unfolded Let_def] write_pad_emit write_all_emit buf lb
        emit_append length_append length_replicate add_0 ac_simps)
  qed
qed

text \<open>
  The text of a string argument: the characters before the terminator, as many as the precision allows.  The engine looks at
  one character more than it prints, so it has to exist.
\<close>

definition str_chars :: "byte list \<Rightarrow> int \<Rightarrow> byte list" where
  "str_chars str prec = take (nat (if prec < 0 then INT_MAX else prec)) (takeWhile (\<lambda>c. c \<noteq> 0) str)"

definition str_text :: "spec \<Rightarrow> byte list \<Rightarrow> int \<Rightarrow> int \<Rightarrow> byte list option" where
  "str_text spec str prec width =
     (if length (str_chars str prec) < length str then Some (pad_text spec False width [] (str_chars str prec)) else None)"

text \<open>The room a string conversion needs: up to its last character, the padding before it included.\<close>

definition str_need :: "spec \<Rightarrow> byte list \<Rightarrow> int \<Rightarrow> int \<Rightarrow> nat" where
  "str_need spec str prec width =
     (let k = length (str_chars str prec) in if fmt_has spec FMT_left then k else after (nat width - k) k)"

lemma takeWhile_next: "k = length (takeWhile P s) \<Longrightarrow> k < length s \<Longrightarrow> \<not> P (s ! k)"
  using nth_length_takeWhile by blast

lemma str_len_scan:
  assumes "L = min (nat prec) (length (takeWhile (\<lambda>c. c \<noteq> 0) str))" "k \<le> L" "0 \<le> prec"
  shows "str_len str k prec = (if L < length str then Some L else None)"
  using assms(2)
proof (induction "L - k" arbitrary: k)
  case 0
  then have k: "k = L" by simp
  show ?case
  proof (cases "L < length str")
    case True
    then have "\<not> (str ! L \<noteq> 0 \<and> int L < prec)"
      using assms(1,3) takeWhile_next [of L "\<lambda>c. c \<noteq> 0" str] by (auto simp: min_def split: if_splits)
    then show ?thesis using k True by (subst str_len.simps) auto
  next
    case False
    then show ?thesis using k by (subst str_len.simps) simp
  qed
next
  case (Suc d)
  then have k: "k < L" by simp
  have w: "L \<le> length (takeWhile (\<lambda>c. c \<noteq> 0) str)" "int L \<le> prec" using assms by (auto simp: min_def)
  have "k < length str" using k w(1) length_takeWhile_le [of "\<lambda>c. c \<noteq> 0" str] by linarith
  moreover have "str ! k \<noteq> 0"
  proof -
    have t: "k < length (takeWhile (\<lambda>c. c \<noteq> 0) str)" using k w(1) by (rule order_less_le_trans)
    show ?thesis using set_takeWhileD [OF nth_mem [OF t]] takeWhile_nth [OF t] by simp
  qed
  ultimately have "str_len str k prec = str_len str (Suc k) prec" using k w(2) by (subst str_len.simps) simp
  then show ?case using Suc by simp
qed

lemma nat_minus_int: "nat (w - int k) = nat w - k"
  by (cases "0 \<le> w") (auto simp: nat_diff_distrib')

lemma output_str_text:
  "output_str s spec str prec width =
    (if fits s (str_need spec str prec width) then map_option (\<lambda>t. (emit t s, length t)) (str_text spec str prec width) else None)"
proof -
  define q where "q = (if prec < 0 then INT_MAX else prec)"
  define w where "w = length (takeWhile (\<lambda>c. c \<noteq> 0) str)"
  define L where "L = min (nat q) w"
  have q: "0 \<le> q" by (simp add: q_def INT_MAX_def)
  have t: "takeWhile (\<lambda>c. c \<noteq> 0) str = take w str" "w \<le> length str"
    unfolding w_def by (rule takeWhile_eq_take, rule length_takeWhile_le)
  have c: "str_chars str prec = take L str" "length (str_chars str prec) = L"
    unfolding str_chars_def q_def [symmetric] t(1) L_def using t(2) by simp_all
  have l: "str_len str 0 q = (if L < length str then Some L else None)"
    using str_len_scan [OF L_def [unfolded w_def]] q by simp
  have p: "nat (if width > int L then width - int L else 0) = nat width - L" by (auto simp: nat_minus_int)
  have f: "fits (emit (replicate k d) s) L \<longleftrightarrow> fits s (after k L)" for k d by (simp add: fits_emit)
  show ?thesis
  proof (cases "L < length str")
    case True
    then have "length (take L str) = L" by simp
    then show ?thesis using True
      unfolding output_str_def str_text_def str_need_def q_def [symmetric] l c Let_def pad_text_def if_P [OF True] option.case
      by (cases "fmt_has spec FMT_left") (simp_all add: write_pad_emit write_str_emit p f)
  next
    case False
    then show ?thesis unfolding output_str_def str_text_def q_def [symmetric] l c Let_def by simp
  qed
qed

definition conv_text :: "conv \<Rightarrow> nat \<Rightarrow> arg list \<Rightarrow> (byte list \<times> (u64 \<times> nat \<times> u64) list \<times> arg list) option" where
  "conv_text cv len ap =
     (let c = ctype cv; spec = cspec cv; prec = cprec cv; width = cwidth cv;
          num = (\<lambda>base. case (if fmt_has spec FMT_sign then get_signed spec ap else get_unsigned spec ap) of None \<Rightarrow> None
                 | Some (w, ap') \<Rightarrow>
                     let sp = fmt_set_base spec base in Some (int_text sp (int_value sp w) (min prec 64) width, [], ap'))
      in if c = 0x6E then map_option (\<lambda>(p, ap'). ([], [(p, store_size spec, of_nat len)], ap')) (va_num ap)
         else if c = 0x63 then map_option (\<lambda>(w, ap'). (pad_text spec False width [] [ucast w], [], ap')) (va_num ap)
         else if c = 0x73 then
           (case va_str ap of None \<Rightarrow> None
            | Some (str, ap') \<Rightarrow>
                map_option (\<lambda>t. (t, [], ap'))
                  (str_text spec (case str of None \<Rightarrow> [0x28, 0x6E, 0x75, 0x6C, 0x6C, 0x29, 0] | Some x \<Rightarrow> x) prec width))
         else if c = 0x64 \<or> c = 0x69 \<or> c = 0x75 then num FMT_dec
         else if c = 0x6F then num FMT_oct
         else if c = 0x78 \<or> c = 0x58 then num FMT_hex
         else if c = 0x62 \<or> c = 0x42 then num FMT_bin
         else if c = 0x70 then
           (case va_num ap of None \<Rightarrow> None
            | Some (p, ap') \<Rightarrow>
                if p \<noteq> 0 then
                  (let sp = fmt_set_base spec FMT_hex OR push_bit FMT_pref 1
                   in Some (int_text sp (int_value sp p) (- 1) width, [], ap'))
                else map_option (\<lambda>t. (t, [], ap')) (str_text spec [0x30, 0x78, 0x30, 0] 3 width))
         else if is_float_type c then None
         else Some ([0x25, c], [], ap))"

definition conv_need :: "conv \<Rightarrow> arg list \<Rightarrow> nat" where
  "conv_need cv ap =
     (if ctype cv = 0x73 then
        (case va_str ap of None \<Rightarrow> 0
         | Some (str, ap') \<Rightarrow>
             str_need (cspec cv) (case str of None \<Rightarrow> [0x28, 0x6E, 0x75, 0x6C, 0x6C, 0x29, 0] | Some x \<Rightarrow> x) (cprec cv) (cwidth cv))
      else if ctype cv = 0x70 then
        (case va_num ap of None \<Rightarrow> 0
         | Some (p, ap') \<Rightarrow> if p \<noteq> 0 then 0 else str_need (cspec cv) [0x30, 0x78, 0x30, 0] 3 (cwidth cv))
      else 0)"

definition emit_conv :: "sink \<Rightarrow> byte list \<times> (u64 \<times> nat \<times> u64) list \<times> arg list \<Rightarrow> sink \<times> nat \<times> arg list" where
  "emit_conv s = (\<lambda>(t, st, ap'). (emit t (s\<lparr>wstores := wstores s @ st\<rparr>), length t, ap'))"

lemma wstores_same [simp]: "s\<lparr>wstores := wstores s\<rparr> = (s :: sink)"
  by simp

lemma printf_base_text:
  "printf_base base s spec ap prec width =
    map_option (emit_conv s) (case (if fmt_has spec FMT_sign then get_signed spec ap else get_unsigned spec ap) of None \<Rightarrow> None
      | Some (w, ap') \<Rightarrow> let sp = fmt_set_base spec base in Some (int_text sp (int_value sp w) (min prec 64) width, [], ap'))"
  by (simp add: printf_base_def output_int_text emit_conv_def Let_def split: option.splits)

lemma printf_ptr_text:
  "printf_ptr s spec ap width =
    (if fits s (conv_need \<lparr>cspec = spec, cprec = prec, cwidth = width, ctype = 0x70\<rparr> ap) then map_option (emit_conv s) (case va_num ap of None \<Rightarrow> None
      | Some (p, ap') \<Rightarrow>
          if p \<noteq> 0 then
            (let sp = fmt_set_base spec FMT_hex OR push_bit FMT_pref 1 in Some (int_text sp (int_value sp p) (- 1) width, [], ap'))
          else map_option (\<lambda>t. (t, [], ap')) (str_text spec [0x30, 0x78, 0x30, 0] 3 width)) else None)"
  by (simp add: printf_ptr_def output_int_text output_str_text conv_need_def emit_conv_def Let_def option.map_comp comp_def
      split: option.splits)

lemma printf_str_text:
  "printf_str s spec ap prec width =
    (if fits s (conv_need \<lparr>cspec = spec, cprec = prec, cwidth = width, ctype = 0x73\<rparr> ap) then map_option (emit_conv s) (case va_str ap of None \<Rightarrow> None
      | Some (str, ap') \<Rightarrow>
          map_option (\<lambda>t. (t, [], ap'))
            (str_text spec (case str of None \<Rightarrow> [0x28, 0x6E, 0x75, 0x6C, 0x6C, 0x29, 0] | Some x \<Rightarrow> x) prec width)) else None)"
  by (simp add: printf_str_def output_str_text conv_need_def emit_conv_def option.map_comp comp_def split: option.splits)

lemma printf_char_text:
  "printf_char s spec ap width =
    map_option (emit_conv s) (map_option (\<lambda>(w, ap'). (pad_text spec False width [] [ucast w], [], ap')) (va_num ap))"
proof -
  have p: "nat (width - 1) = nat width - 1" using nat_minus_int [of width 1] by simp
  have e: "emit (c # replicate k d) s = emit (replicate k d) (emit [c] s)" for c k d
    using emit_append [of "[c]" "replicate k d" s] by simp
  show ?thesis unfolding printf_char_def pad_text_def emit_conv_def Let_def
    by (cases "fmt_has spec FMT_left") (auto simp: write_pad_emit write_char_emit p e split: option.splits)
qed

lemma conv_need_type: "ctype cv = c \<Longrightarrow> conv_need \<lparr>cspec = cspec cv, cprec = cprec cv, cwidth = cwidth cv, ctype = c\<rparr> ap = conv_need cv ap"
  by (cases cv) simp

lemma conv_need_other: "ctype cv \<noteq> 0x73 \<Longrightarrow> ctype cv \<noteq> 0x70 \<Longrightarrow> conv_need cv ap = 0"
  by (simp add: conv_need_def)

lemma printf_conv_text:
  "printf_conv cv s len ap = (if fits s (conv_need cv ap) then map_option (emit_conv s) (conv_text cv len ap) else None)"
proof -
  have n: "map_option (\<lambda>(s', ap'). (s', 0, ap')) (set_signed (cspec cv) ap (of_nat len) s) =
    map_option (emit_conv s) (map_option (\<lambda>(p, ap'). ([], [(p, store_size (cspec cv), of_nat len)], ap')) (va_num ap))"
    by (simp add: set_signed_def emit_conv_def split: option.splits)
  have d: "(let (s', n) = write_char c (write_char 0x25 (s, 0)) in Some (s', n, ap)) = map_option (emit_conv s) (Some ([0x25, c], [], ap))" for c
    using emit_append [of "[0x25]" "[c]" s] by (simp add: emit_conv_def write_char_emit)
  consider "ctype cv = 0x73" | "ctype cv = 0x70" | "ctype cv \<noteq> 0x73" "ctype cv \<noteq> 0x70" by blast
  then show ?thesis
  proof cases
    case 1
    then show ?thesis using conv_need_type [OF 1] by (simp add: printf_conv_def conv_text_def printf_str_text)
  next
    case 2
    then show ?thesis using conv_need_type [OF 2]
      by (simp add: printf_conv_def conv_text_def printf_ptr_text [where prec = "cprec cv"] Let_def)
  next
    case 3
    then show ?thesis
      unfolding printf_conv_def conv_text_def Let_def n d [unfolded Let_def] printf_base_text [unfolded Let_def] printf_char_text conv_need_other [OF 3]
      by (simp only: if_distrib [of "map_option (emit_conv s)"] option.map fits_0 if_True if_False)
  qed
qed

section \<open>The whole format\<close>

text \<open>The text of a format, with the stores of \<^verbatim>\<open>%n\<close> and the arguments left.\<close>

function printf_text :: "nat \<Rightarrow> byte list \<Rightarrow> arg list \<Rightarrow> (byte list \<times> (u64 \<times> nat \<times> u64) list \<times> arg list) option" where
  "printf_text len fmt ap =
     (case fmt of [] \<Rightarrow> Some ([], [], ap)
      | c # fmt1 \<Rightarrow>
          if c \<noteq> 0x25 then map_option (\<lambda>(t, st, ap'). (c # t, st, ap')) (printf_text (len + 1) fmt1 ap)
          else if cur fmt1 = 0x25 then map_option (\<lambda>(t, st, ap'). (0x25 # t, st, ap')) (printf_text (len + 1) (tl fmt1) ap)
          else (case spec_printf ap fmt1 of None \<Rightarrow> None
                | Some (cv, fmt2, ap2) \<Rightarrow>
                    (case conv_text cv len ap2 of None \<Rightarrow> None
                     | Some (u, sv, ap3) \<Rightarrow>
                         (case fmt2 of [] \<Rightarrow> None
                          | _ # fmt3 \<Rightarrow> map_option (\<lambda>(t, st, ap'). (u @ t, sv @ st, ap')) (printf_text (len + length u) fmt3 ap3)))))"
  by pat_completeness auto
termination
  by (relation "measure (\<lambda>(len, fmt, ap). length fmt)") (auto dest!: spec_printf_length simp: cur_def split: list.splits)

declare printf_text.simps [simp del]

text \<open>The room the format needs: up to the last character of its last string conversion.\<close>

function printf_need :: "nat \<Rightarrow> byte list \<Rightarrow> arg list \<Rightarrow> nat" where
  "printf_need len fmt ap =
     (case fmt of [] \<Rightarrow> 0
      | c # fmt1 \<Rightarrow>
          if c \<noteq> 0x25 then after 1 (printf_need (len + 1) fmt1 ap)
          else if cur fmt1 = 0x25 then after 1 (printf_need (len + 1) (tl fmt1) ap)
          else (case spec_printf ap fmt1 of None \<Rightarrow> 0
                | Some (cv, fmt2, ap2) \<Rightarrow>
                    (case conv_text cv len ap2 of None \<Rightarrow> 0
                     | Some (u, sv, ap3) \<Rightarrow>
                         (case fmt2 of [] \<Rightarrow> 0
                          | _ # fmt3 \<Rightarrow> max (conv_need cv ap2) (after (length u) (printf_need (len + length u) fmt3 ap3))))))"
  by pat_completeness auto
termination
  by (relation "measure (\<lambda>(len, fmt, ap). length fmt)") (auto dest!: spec_printf_length simp: cur_def split: list.splits)

declare printf_need.simps [simp del]

definition emit_all :: "sink \<Rightarrow> nat \<Rightarrow> byte list \<times> (u64 \<times> nat \<times> u64) list \<times> arg list \<Rightarrow> sink \<times> nat \<times> arg list" where
  "emit_all s len = (\<lambda>(t, st, ap'). (emit t (s\<lparr>wstores := wstores s @ st\<rparr>), len + length t, ap'))"

lemma emit_stores: "emit t (s\<lparr>wstores := w\<rparr>) = (emit t s)\<lparr>wstores := w\<rparr>" "wstores (emit t s) = wstores s"
proof -
  have 1: "emit [c] (s\<lparr>wstores := w\<rparr>) = (emit [c] s)\<lparr>wstores := w\<rparr>" "wstores (emit [c] s) = wstores s" for c and s :: sink
    by (simp_all add: emit_def write_char_def split: option.splits)
  have 2: "emit (c # t) s = emit t (emit [c] s)" for c t and s :: sink using emit_append [of "[c]" t s] by simp
  show "emit t (s\<lparr>wstores := w\<rparr>) = (emit t s)\<lparr>wstores := w\<rparr>"
    by (induction t arbitrary: s) (simp, subst 2, subst (2) 2, simp add: 1)
  show "wstores (emit t s) = wstores s" by (induction t arbitrary: s) (simp, subst 2, simp add: 1)
qed

lemma emit_all_step:
  "map_option (emit_all (emit u (s\<lparr>wstores := wstores s @ sv\<rparr>)) (len + length u)) r =
   map_option (emit_all s len) (map_option (\<lambda>(t, st, ap'). (u @ t, sv @ st, ap')) r)"
  by (cases r) (auto simp: emit_all_def emit_stores)

lemma printf_loop_text:
  "printf_loop s len fmt ap =
    (if fits s (printf_need len fmt ap) then map_option (emit_all s len) (printf_text len fmt ap) else None)"
proof (induction s len fmt ap rule: printf_loop.induct)
  case (1 s len fmt ap)
  have step: "write_char c (s, len) = (emit [c] (s\<lparr>wstores := wstores s @ []\<rparr>), len + length [c])" for c
    by (simp add: write_char_emit)
  show ?case
  proof (cases fmt)
    case Nil
    then show ?thesis by (subst printf_loop.simps, subst printf_text.simps, subst printf_need.simps) (simp add: emit_all_def)
  next
    case (Cons c f1)
    consider "c \<noteq> 0x25" | "c = 0x25" "cur f1 = 0x25" | "c = 0x25" "cur f1 \<noteq> 0x25" by blast
    then show ?thesis
    proof cases
      case 1
      have "printf_loop (emit [c] (s\<lparr>wstores := wstores s @ []\<rparr>)) (len + length [c]) f1 ap =
          (if fits s (after 1 (printf_need (len + 1) f1 ap)) then
             map_option (emit_all s len) (map_option (\<lambda>(t, st, ap'). ([c] @ t, [] @ st, ap')) (printf_text (len + length [c]) f1 ap)) else None)"
        using "1.IH"(1) [OF Cons 1 step [symmetric] refl] emit_all_step [of "[c]" s "[]" len] by (simp add: fits_emit del: emit_append)
      then show ?thesis using Cons 1
        by (subst printf_loop.simps, subst printf_text.simps, subst printf_need.simps) (simp add: step)
    next
      case 2
      have "printf_loop (emit [0x25] (s\<lparr>wstores := wstores s @ []\<rparr>)) (len + length [0x25 :: byte]) (tl f1) ap =
          (if fits s (after 1 (printf_need (len + 1) (tl f1) ap)) then
             map_option (emit_all s len) (map_option (\<lambda>(t, st, ap'). ([0x25] @ t, [] @ st, ap')) (printf_text (len + length [0x25 :: byte]) (tl f1) ap)) else None)"
        using "1.IH"(2) [OF Cons _ _ step [symmetric] refl] 2 emit_all_step [of "[0x25]" s "[]" len] by (simp add: fits_emit del: emit_append)
      then show ?thesis using Cons 2
        by (subst printf_loop.simps, subst printf_text.simps, subst printf_need.simps) (simp add: step)
    next
      case 3
      show ?thesis
      proof (cases "spec_printf ap f1")
        case None
        then show ?thesis using Cons 3 by (subst printf_loop.simps, subst printf_text.simps) simp
      next
        case (Some r)
        obtain cv f2 ap2 where r: "r = (cv, f2, ap2)" by (cases r)
        show ?thesis
        proof (cases "conv_text cv len ap2")
          case None
          then show ?thesis using Cons 3 Some r
            by (subst printf_loop.simps, subst printf_text.simps) (simp add: printf_conv_text)
        next
          case c: (Some x)
          obtain u sv ap3 where x: "x = (u, sv, ap3)" by (cases x)
          have pc: "printf_conv cv s len ap2 =
              (if fits s (conv_need cv ap2) then Some (emit u (s\<lparr>wstores := wstores s @ sv\<rparr>), length u, ap3) else None)"
            using c x by (simp add: printf_conv_text emit_conv_def)
          show ?thesis
          proof (cases "f2 = [] \<or> \<not> fits s (conv_need cv ap2)")
            case True
            then show ?thesis using Cons 3 Some r c x pc
              by (subst printf_loop.simps, subst printf_text.simps, subst printf_need.simps) (auto simp: fits_max split: list.splits)
          next
            case False
            then obtain y f3 where f2: "f2 = y # f3" by (cases f2) auto
            have pc: "printf_conv cv s len ap2 = Some (emit u (s\<lparr>wstores := wstores s @ sv\<rparr>), length u, ap3)" using pc False by simp
            have "printf_loop (emit u (s\<lparr>wstores := wstores s @ sv\<rparr>)) (len + length u) f3 ap3 =
                (if fits s (after (length u) (printf_need (len + length u) f3 ap3)) then
                   map_option (emit_all s len) (map_option (\<lambda>(t, st, ap'). (u @ t, sv @ st, ap')) (printf_text (len + length u) f3 ap3)) else None)"
              using "1.IH"(3) [OF Cons _ _ Some [unfolded r] refl refl pc refl refl f2] 3 emit_all_step [of u s sv len] by (simp add: fits_emit)
            then show ?thesis using Cons 3 Some r c x pc f2 False
              by (subst printf_loop.simps, subst printf_text.simps, subst printf_need.simps) (simp add: fits_max)
          qed
        qed
      qed
    qed
  qed
qed

section \<open>Buffers and streams\<close>

lemma vfprintf_text:
  "vfprintf cs (Some f) ap =
    map_option (\<lambda>(t, st, _). (\<lparr>wstream = Some (cs @ t), wmem = (\<lambda>_. 0), wptr = 0, wrem = 0, wstores = st\<rparr>, int (length t))) (printf_text 0 f ap)"
proof -
  have "emit t \<lparr>wstream = Some cs, wmem = m, wptr = 0, wrem = 0, wstores = st\<rparr> =
      \<lparr>wstream = Some (cs @ t), wmem = m, wptr = 0, wrem = 0, wstores = st\<rparr>" for t st m
    by (simp add: emit_stream [where cs = cs])
  moreover have "fits \<lparr>wstream = Some cs, wmem = m, wptr = p, wrem = k, wstores = st\<rparr> j" for m p k st j by (simp add: fits_def)
  ultimately show ?thesis by (simp add: vfprintf_def printf_loop_text emit_all_def Let_def split: option.splits)
qed

lemma vsnprintf_text:
  "printf_need 0 f ap \<le> (if out \<noteq> 0 then n - 1 else 0) \<Longrightarrow> vsnprintf m out n (Some f) ap =
    map_option (\<lambda>(t, st, _).
      (if out \<noteq> 0 \<and> n > 0
       then \<lparr>wstream = None, wmem = wr m out (take (n - 1) t @ [0]), wptr = out + min (n - 1) (length t),
             wrem = n - 1 - length t, wstores = st\<rparr>
       else \<lparr>wstream = None, wmem = m, wptr = out, wrem = 0, wstores = st\<rparr>, int (length t))) (printf_text 0 f ap)"
proof -
  have 1: "emit t \<lparr>wstream = None, wmem = m, wptr = out, wrem = k, wstores = st\<rparr> =
      \<lparr>wstream = None, wmem = wr m out (take k t), wptr = out + min k (length t), wrem = k - length t, wstores = st\<rparr>"
    if "out \<noteq> 0" for t st k
    using that by (simp add: emit_buffer)
  have 2: "emit t \<lparr>wstream = None, wmem = m, wptr = 0, wrem = k, wstores = st\<rparr> =
      \<lparr>wstream = None, wmem = m, wptr = 0, wrem = k, wstores = st\<rparr>" for t st k
    by (simp add: emit_null)
  assume "printf_need 0 f ap \<le> (if out \<noteq> 0 then n - 1 else 0)"
  then have "fits (printf_sink m out n) (printf_need 0 f ap)" by (auto simp: fits_def printf_sink_def split: if_splits)
  then show ?thesis
    by (cases "out = 0")
      (auto simp: vsnprintf_def printf_loop_text emit_all_def printf_sink_def 1 2 wr_append min.commute split: option.splits)
qed

text \<open>With less room than the string conversions need the call does not return; so does one that is only to measure the length.\<close>

lemma vsnprintf_hangs: "\<not> printf_need 0 f ap \<le> (if out \<noteq> 0 then n - 1 else 0) \<Longrightarrow> vsnprintf m out n (Some f) ap = None"
  by (auto simp: vsnprintf_def printf_loop_text fits_def printf_sink_def split: if_splits)

lemma measuring_hangs: "vsnprintf m 0 0 (Some [0x25, 0x2E, 0x31, 0x73]) [AStr (Some [0x61, 0])] = None"
proof -
  have "printf_need 0 [0x25, 0x2E, 0x31, 0x73] [AStr (Some [0x61, 0])] = 1" by code_simp
  then show ?thesis by (simp add: vsnprintf_hangs)
qed

lemma str_need_le: "str_text spec str prec width = Some t \<Longrightarrow> str_need spec str prec width \<le> length t"
  by (auto simp: str_text_def str_need_def pad_text_def after_def Let_def split: if_splits)

lemma conv_need_le: "conv_text cv len ap = Some (u, st, ap') \<Longrightarrow> conv_need cv ap \<le> length u"
proof -
  assume a: "conv_text cv len ap = Some (u, st, ap')"
  consider "ctype cv = 0x73" | "ctype cv = 0x70" | "ctype cv \<noteq> 0x73" "ctype cv \<noteq> 0x70" by blast
  then show ?thesis
  proof cases
    case 1
    then show ?thesis using a by (auto simp: conv_text_def conv_need_def dest!: str_need_le split: option.splits)
  next
    case 2
    then show ?thesis using a by (auto simp: conv_text_def conv_need_def Let_def dest!: str_need_le split: option.splits if_splits)
  qed (simp add: conv_need_other)
qed

lemma printf_need_le: "printf_text len fmt ap = Some (t, st, ap') \<Longrightarrow> printf_need len fmt ap \<le> length t"
proof (induction len fmt ap arbitrary: t st ap' rule: printf_need.induct)
  case (1 len fmt ap)
  show ?case
  proof (cases fmt)
    case Nil
    then show ?thesis by (subst printf_need.simps) simp
  next
    case (Cons c f1)
    consider "c \<noteq> 0x25" | "c = 0x25" "cur f1 = 0x25" | "c = 0x25" "cur f1 \<noteq> 0x25" by blast
    then show ?thesis
    proof cases
      case 1
      then obtain t1 where "printf_text (len + 1) f1 ap = Some (t1, st, ap')" "t = c # t1"
        using "1.prems" Cons by (subst (asm) printf_text.simps) auto
      then show ?thesis using "1.IH"(1) [OF Cons 1] 1 Cons by (subst printf_need.simps) (auto simp: after_def)
    next
      case 2
      then obtain t1 where "printf_text (len + 1) (tl f1) ap = Some (t1, st, ap')" "t = 0x25 # t1"
        using "1.prems" Cons by (subst (asm) printf_text.simps) auto
      then show ?thesis using "1.IH"(2) [OF Cons] 2 Cons by (subst printf_need.simps) (auto simp: after_def)
    next
      case 3
      then obtain cv f2 ap2 u sv ap3 y f3 t1 s1 where x: "spec_printf ap f1 = Some (cv, f2, ap2)" "conv_text cv len ap2 = Some (u, sv, ap3)"
          "f2 = y # f3" "printf_text (len + length u) f3 ap3 = Some (t1, s1, ap')" "t = u @ t1"
        using "1.prems" Cons by (subst (asm) printf_text.simps) (auto split: option.splits list.splits)
      have "printf_need (len + length u) f3 ap3 \<le> length t1" using "1.IH"(3) [OF Cons _ _ x(1) refl refl x(2) refl refl x(3) x(4)] 3 by simp
      then show ?thesis using conv_need_le [OF x(2)] x 3 Cons by (subst printf_need.simps) (simp add: after_def)
    qed
  qed
qed

text \<open>A format without the pointer conversion needs no room when all its arguments are numbers.\<close>

lemma spec_digits_set: "spec_digits v fmt = Some (v', fmt') \<Longrightarrow> set fmt' \<subseteq> set fmt"
  by (induction v fmt rule: spec_digits.induct) (auto simp: Let_def split: if_splits)

lemma va_num_set: "va_num ap = Some (w, ap') \<Longrightarrow> set ap' \<subseteq> set ap"
  by (auto simp: va_num_def split: list.splits arg.splits)

lemma spec_flags_set: "set (snd (spec_flags spec fmt)) \<subseteq> set fmt"
  by (induction spec fmt rule: spec_flags.induct) (auto split: prod.splits)

lemma set_tl: "set (tl xs) \<subseteq> set xs"
  by (cases xs) auto

lemma spec_value_set: "spec_value fmt ap = Some (v, fmt', ap') \<Longrightarrow> set fmt' \<subseteq> set fmt \<and> set ap' \<subseteq> set ap"
  using set_tl [of fmt] by (auto simp: spec_value_def dest!: spec_digits_set va_num_set split: if_splits option.splits)

lemma spec_prec_set: "spec_prec fmt ap = Some (v, fmt', ap') \<Longrightarrow> set fmt' \<subseteq> set fmt \<and> set ap' \<subseteq> set ap"
  using set_tl [of fmt] by (auto simp: spec_prec_def dest!: spec_value_set split: if_splits)

lemma spec_length_set: "set (snd (spec_length fmt)) \<subseteq> set fmt"
  using set_tl [of fmt] set_tl [of "tl fmt"] by (auto simp: spec_length_def Let_def)

lemma spec_printf_set:
  assumes "spec_printf ap fmt = Some (cv, fmt', ap')"
  shows "set fmt' \<subseteq> set fmt \<and> set ap' \<subseteq> set ap \<and> ctype cv = cur fmt'"
proof -
  obtain sp f1 where 1: "spec_flags 0 fmt = (sp, f1)" by force
  obtain w f2 ap2 where 2: "spec_value f1 ap = Some (w, f2, ap2)"
    using assms 1 by (auto simp: spec_printf_def split: option.splits)
  obtain q f3 ap3 where 3: "spec_prec f2 ap2 = Some (q, f3, ap3)"
    using assms 1 2 by (auto simp: spec_printf_def Let_def split: option.splits if_splits)
  have e: "fmt' = snd (spec_length f3)" "ctype cv = cur fmt'" "ap' = ap3"
    using assms 1 2 3 by (auto simp: spec_printf_def Let_def split: if_splits prod.splits)
  have "set f1 \<subseteq> set fmt" using spec_flags_set [of 0 fmt] 1 by simp
  then show ?thesis unfolding e(2) unfolding e
    using spec_value_set [OF 2] spec_prec_set [OF 3] spec_length_set [of f3] by blast
qed

definition numeric :: "arg list \<Rightarrow> bool" where
  "numeric ap \<longleftrightarrow> (\<forall>a \<in> set ap. \<exists>w. a = ANum w)"

lemma numeric_va_str: "numeric ap \<Longrightarrow> va_str ap = None"
  by (auto simp: numeric_def va_str_def split: list.splits arg.splits)

lemma numeric_mono: "set ap' \<subseteq> set ap \<Longrightarrow> numeric ap \<Longrightarrow> numeric ap'"
  by (auto simp: numeric_def)

lemma get_set: "get_signed spec ap = Some (w, ap') \<Longrightarrow> set ap' \<subseteq> set ap" "get_unsigned spec ap = Some (w, ap') \<Longrightarrow> set ap' \<subseteq> set ap"
  by (auto simp: get_signed_def get_unsigned_def dest!: va_num_set split: option.splits)

lemma conv_numeric:
  assumes "conv_text cv len ap = Some (u, st, ap')" "numeric ap" "ctype cv \<noteq> 0x70"
  shows "conv_need cv ap = 0 \<and> numeric ap'"
proof -
  have s: "ctype cv \<noteq> 0x73" using assms numeric_va_str [OF assms(2)] by (auto simp: conv_text_def)
  have "set ap' \<subseteq> set ap" using assms(1,3) s
    by (simp add: conv_text_def Let_def split: if_splits option.splits) (auto dest: get_set va_num_set)
  then show ?thesis using numeric_mono assms(2,3) conv_need_other [OF s] by blast
qed

lemma printf_need_numeric: "numeric ap \<Longrightarrow> 0x70 \<notin> set fmt \<Longrightarrow> printf_need len fmt ap = 0"
proof (induction len fmt ap rule: printf_need.induct)
  case (1 len fmt ap)
  show ?case
  proof (cases fmt)
    case Nil
    then show ?thesis by (subst printf_need.simps) simp
  next
    case (Cons c f1)
    have t: "0x70 \<notin> set (tl f1)" using "1.prems"(2) Cons set_tl [of f1] by auto
    consider "c \<noteq> 0x25" | "c = 0x25" "cur f1 = 0x25" | "c = 0x25" "cur f1 \<noteq> 0x25" by blast
    then show ?thesis
    proof cases
      case 1
      then show ?thesis using "1.IH"(1) [OF Cons 1] "1.prems" Cons by (subst printf_need.simps) (simp add: after_def)
    next
      case 2
      then show ?thesis using "1.IH"(2) [OF Cons] "1.prems" Cons t by (subst printf_need.simps) (simp add: after_def)
    next
      case 3
      have "printf_need len fmt ap = 0" if x: "spec_printf ap f1 = Some (cv, y # f3, ap2)" "conv_text cv len ap2 = Some (u, sv, ap3)"
        for cv y f3 ap2 u sv ap3
      proof -
        note sp = spec_printf_set [OF x(1)]
        have ct: "ctype cv \<noteq> 0x70" using sp "1.prems"(2) Cons by (auto simp: cur_def)
        have n: "conv_need cv ap2 = 0" "numeric ap3"
          using conv_numeric [OF x(2) numeric_mono [OF _ "1.prems"(1)] ct] sp by blast+
        have "printf_need (len + length u) f3 ap3 = 0"
          using "1.IH"(3) [OF Cons _ _ x(1) refl refl x(2) refl refl refl n(2)] 3 sp "1.prems"(2) Cons by auto
        then show ?thesis using x n 3 Cons by (subst printf_need.simps) (simp add: after_def)
      qed
      moreover have "printf_need len fmt ap = 0" if "\<nexists>cv y f3 ap2 u sv ap3. spec_printf ap f1 = Some (cv, y # f3, ap2) \<and> conv_text cv len ap2 = Some (u, sv, ap3)"
        using that 3 Cons by (subst printf_need.simps) (auto split: option.splits list.splits)
      ultimately show ?thesis by blast
    qed
  qed
qed

lemma vsnprintf_numeric:
  "numeric ap \<Longrightarrow> 0x70 \<notin> set f \<Longrightarrow> vsnprintf m out n (Some f) ap =
    map_option (\<lambda>(t, st, _).
      (if out \<noteq> 0 \<and> n > 0
       then \<lparr>wstream = None, wmem = wr m out (take (n - 1) t @ [0]), wptr = out + min (n - 1) (length t),
             wrem = n - 1 - length t, wstores = st\<rparr>
       else \<lparr>wstream = None, wmem = m, wptr = out, wrem = 0, wstores = st\<rparr>, int (length t))) (printf_text 0 f ap)"
  by (rule vsnprintf_text) (simp add: printf_need_numeric)



text \<open>
  C24: for a precision of at most 64, every integer conversion prints the digits of the number in its base, most significant first, filled with
  zeros up to the precision, behind the sign and the prefix the flags ask for, and padded to the width on the side and with the character the
  flags ask for; it returns the number of characters, with or without a destination.  Left out is the smallest value of a signed conversion,
  whose negation overflows.
\<close>

theorem integer_conversion:
  assumes "prec \<le> 64" "fmt_has spec FMT_sign \<Longrightarrow> sint val \<noteq> - (2 ^ 63)"
  shows "output_int s spec val prec width =
     (emit (int_text spec (int_value spec val) prec width) s, length (int_text spec (int_value spec val) prec width))"
  using output_int_text [of s spec val prec width] assms(1) by (simp add: min_absorb1)

theorem integer_conversion_witness:
  "output_int (printf_sink (\<lambda>_. 0) 100 10) FMT_dec 42 5 8 =
     (emit [0x20, 0x20, 0x20, 0x30, 0x30, 0x30, 0x34, 0x32] (printf_sink (\<lambda>_. 0) 100 10), 8)"
proof -
  have t: "int_text FMT_dec (int_value FMT_dec 42) 5 8 = [0x20, 0x20, 0x20, 0x30, 0x30, 0x30, 0x34, 0x32]" "int_value FMT_dec 42 = 42"
    "\<not> fmt_has FMT_dec FMT_sign" by code_simp+
  show ?thesis using integer_conversion [of 5 FMT_dec 42 "printf_sink (\<lambda>_. 0) 100 10" 8] t by simp
qed

section \<open>Deviations from the standard\<close>

text \<open>The modifiers \<^verbatim>\<open>hh\<close> and \<^verbatim>\<open>h\<close> do not convert the argument to \<^verbatim>\<open>signed char\<close> or \<^verbatim>\<open>short\<close>: 300 is printed as 300, not 44.\<close>

lemma hh_not_converted: "printf_text 0 [0x25, 0x68, 0x68, 0x64] [ANum 300] = Some ([0x33, 0x30, 0x30], [], [])"
  by code_simp

text \<open>With the alternative form, octal zero at precision zero prints nothing, and a precision that already gives a leading zero adds another.\<close>

lemma alternative_octal:
  "printf_text 0 [0x25, 0x23, 0x2E, 0x30, 0x6F] [ANum 0] = Some ([], [], [])"
  "printf_text 0 [0x25, 0x23, 0x2E, 0x33, 0x6F] [ANum 8] = Some ([0x30, 0x30, 0x31, 0x30], [], [])"
  by code_simp+

text \<open>A precision beyond 64 prints 64 digits.\<close>

lemma precision_capped: "snd (output_int s FMT_dec 7 100 0) = 64 \<and> length (int_text FMT_dec 7 100 0) = 100"
proof -
  have "length (int_text FMT_dec (int_value FMT_dec 7) (min 100 64) 0) = 64" "length (int_text FMT_dec 7 100 0) = 100" by code_simp+
  then show ?thesis by (simp add: output_int_text)
qed

text \<open>A format that ends in a per cent sign is read beyond its terminator.\<close>

lemma trailing_percent: "printf_text 0 [0x25] ap = None"
proof -
  have "spec_printf ap [] = Some (\<lparr>cspec = 0, cprec = - 1, cwidth = 0, ctype = 0\<rparr>, [], ap)"
    by (simp add: spec_printf_def spec_value_def spec_prec_def spec_length_def cur_def INT_MAX_def)
  then show ?thesis by (subst printf_text.simps) (simp add: cur_def conv_text_def is_float_type_def Let_def)
qed

text \<open>A character array that is as long as the precision and has no terminator is read beyond its end.\<close>

lemma precision_reads_on: "printf_text 0 [0x25, 0x2E, 0x32, 0x73] [AStr (Some [0x61, 0x62])] = None"
  by code_simp

end
