(* ===== verification/Scan.thy ===== *)
theory Scan
  imports Format
begin

text \<open>
  The input side of \<^verbatim>\<open>include/core/format.h\<close> on strings, and the number parsers built on it in \<^verbatim>\<open>include/core/stdlib.h\<close>:
  \<^verbatim>\<open>strtol\<close>, \<^verbatim>\<open>strtoul\<close> and \<^verbatim>\<open>atoi\<close> with their relatives, and \<^verbatim>\<open>vsscanf\<close>.  The input is the list of the characters before the
  terminator; the pointer into it is an index.  Plain \<^verbatim>\<open>char\<close> is signed, so a byte \<open>0xFF\<close> reads as \<^verbatim>\<open>EOF\<close>.  The
  floating-point conversions are not modelled.
\<close>

unbundle bit_operations_syntax

definition ERANGE :: int where "ERANGE = 34"

section \<open>Reading\<close>

record reader =
  rpos :: nat
  rread :: int

definition rd_isspace :: "int \<Rightarrow> bool" where
  "rd_isspace c \<longleftrightarrow> c = 0x20 \<or> c = 0x09 \<or> c = 0x0A \<or> c = 0x0D \<or> c = 0x0C \<or> c = 0x0B"

definition EOF :: int where "EOF = - 1"

definition read_next :: "byte list \<Rightarrow> reader \<Rightarrow> int \<times> reader" where
  "read_next str r =
     (if rpos r < length str then
        let ch = schar (str ! rpos r)
        in (ch, r\<lparr>rpos := rpos r + 1, rread := (if ch \<noteq> EOF then rread r + 1 else rread r)\<rparr>)
      else (EOF, r))"

definition read_back :: "reader \<Rightarrow> reader" where
  "read_back r = r\<lparr>rpos := rpos r - 1, rread := rread r - 1\<rparr>"

function skip_loop :: "byte list \<Rightarrow> reader \<Rightarrow> int \<times> reader" where
  "skip_loop str r =
     (let (ch, r') = read_next str r in
      if ch \<noteq> EOF \<and> rd_isspace ch then skip_loop str r' else (ch, r'))"
  by pat_completeness auto
termination
  by (relation "measure (\<lambda>(str, r). length str - rpos r)")
    (auto simp: read_next_def EOF_def Let_def split: if_splits)

declare skip_loop.simps [simp del]

definition read_skip :: "byte list \<Rightarrow> reader \<Rightarrow> reader" where
  "read_skip str r = (let (ch, r') = skip_loop str r in if ch \<noteq> EOF then read_back r' else r')"

definition digit_val :: "int \<Rightarrow> int" where
  "digit_val ch =
     (if ch \<ge> 0x30 \<and> ch \<le> 0x39 then ch - 0x30
      else if ch \<ge> 0x61 then ch - 0x61 + 10
      else if ch \<ge> 0x41 then ch - 0x41 + 10 else - 1)"

record digits_st =
  dch :: int
  dreader :: reader
  dcount :: int
  dval :: u64
  derr :: "int option"

function read_digits :: "byte list \<Rightarrow> int \<Rightarrow> int \<Rightarrow> int \<Rightarrow> digits_st \<Rightarrow> digits_st" where
  "read_digits str width limit base d =
     (if rread (dreader d) < width \<and> dch d \<noteq> EOF then
        let v = digit_val (dch d) in
        if v < 0 \<or> v \<ge> base then d
        else
          let d = (if dval d > (- 1 - of_int v) div of_int base then d\<lparr>derr := Some ERANGE, dval := - 1\<rparr>
                   else d\<lparr>dval := dval d * of_int base + of_int v\<rparr>);
              d = d\<lparr>dcount := dcount d + 1\<rparr>
          in if dcount d \<ge> limit then d
             else let (ch, r) = read_next str (dreader d) in read_digits str width limit base (d\<lparr>dch := ch, dreader := r\<rparr>)
      else d)"
  by pat_completeness auto
termination
  by (relation "measure (\<lambda>(str, width, limit, base, d). length str - rpos (dreader d) + (if dch d = EOF then 0 else 1))")
    (auto simp: read_next_def EOF_def Let_def split: if_splits)

declare read_digits.simps [simp del]

section \<open>Integers\<close>

text \<open>The width in bits of the type a length modifier names.\<close>

definition length_bits :: "nat \<Rightarrow> nat" where
  "length_bits l = (if l = 1 then 8 else if l = 2 then 16 else if l \<in> {3, 4, 5, 6, 7} then 64 else 32)"

definition clamp :: "spec \<Rightarrow> bool \<Rightarrow> u64 \<Rightarrow> int option \<Rightarrow> u64 \<times> int option" where
  "clamp spec neg val err =
     (let w = length_bits (fmt_length spec) in
      if fmt_has spec FMT_sign \<and> (fmt_base spec = FMT_dec \<or> fmt_base spec = 0) then
        if neg \<and> val > of_nat (2 ^ (w - 1)) then (of_int (- (2 ^ (w - 1))), Some ERANGE)
        else if \<not> neg \<and> val > of_nat (2 ^ (w - 1) - 1) then (of_nat (2 ^ (w - 1) - 1), Some ERANGE)
        else if neg then (- val, err)
        else (val, err)
      else if neg then (- val, err)
      else (val, err))"

text \<open>\<open>pos\<close> counts what is read after the first character; it is added to the caller's count at the end.\<close>

definition sign_step :: "byte list \<Rightarrow> int \<Rightarrow> reader \<Rightarrow> bool \<times> int \<times> reader" where
  "sign_step str ch r =
     (if ch = 0x2D then (let (ch, r) = read_next str r in (True, ch, r))
      else if ch = 0x2B then (let (ch, r) = read_next str r in (False, ch, r))
      else (False, ch, r))"

definition base_step :: "byte list \<Rightarrow> int \<Rightarrow> int \<Rightarrow> reader \<Rightarrow> int \<times> int \<times> reader" where
  "base_step str base ch r =
     (if base = 0 then
        if ch = 0x30 then
          let (ch, r) = read_next str r in
          if ch = 0x78 \<or> ch = 0x58 then (let (ch, r) = read_next str r in (16, ch, r)) else (8, ch, r)
        else (10, ch, r)
      else if base = 16 \<and> ch = 0x30 then
        let (ch, r) = read_next str r in
        if ch = 0x78 \<or> ch = 0x58 then (let (ch, r) = read_next str r in (base, ch, r))
        else (base, 0x30, read_back r)
      else (base, ch, r))"

definition input_int :: "byte list \<Rightarrow> spec \<Rightarrow> int \<Rightarrow> reader \<Rightarrow> int option \<Rightarrow> reader \<times> int option \<times> u64 option" where
  "input_int str spec width r err =
     (let (ch, r0) = read_next str r;
          (neg, ch, p) = sign_step str ch (r0\<lparr>rread := 0\<rparr>);
          (base, ch, p) = base_step str (uint (fmt_base spec)) ch p;
          d = read_digits str width width base \<lparr>dch = ch, dreader = p, dcount = 0, dval = 0, derr = err\<rparr>;
          p = (if dcount d > 0 \<and> dch d \<noteq> EOF then read_back (dreader d) else dreader d);
          (val, err) = clamp spec neg (dval d) (derr d);
          digits = (if base = 8 \<and> val = 0 then 1 else dcount d)
      in if digits > 0 then (r0\<lparr>rpos := rpos p, rread := rread r0 + rread p\<rparr>, err, Some val)
         else (r0\<lparr>rpos := rpos p\<rparr>, err, None))"

text \<open>\<open>strto_int\<close>: the value, the index \<open>endptr\<close> is set to, and \<^verbatim>\<open>errno\<close>; \<open>len\<close> is the length modifier of the type.\<close>

definition strto_int :: "nat \<Rightarrow> bool \<Rightarrow> byte list \<Rightarrow> int \<Rightarrow> u64 \<times> nat \<times> int option" where
  "strto_int len usig str base =
     (if base \<noteq> 0 \<and> (base < 2 \<or> base > 36) then (0, 0, Some EINVAL)
      else
        let spec = (if usig then of_int base else fmt_add (of_int base) FMT_sign);
            r = read_skip str \<lparr>rpos = 0, rread = 0\<rparr>;
            (r, err, res) = input_int str (fmt_set_length spec len) INT_MAX r None
        in case res of Some val \<Rightarrow> (val, rpos r, err) | None \<Rightarrow> (0, 0, err))"

definition strtol :: "byte list \<Rightarrow> int \<Rightarrow> int \<times> nat \<times> int option" where
  "strtol str base = (let (v, e, err) = strto_int 3 False str base in (sint v, e, err))"

definition strtoul :: "byte list \<Rightarrow> int \<Rightarrow> u64 \<times> nat \<times> int option" where
  "strtoul str base = strto_int 3 True str base"

definition strtoll :: "byte list \<Rightarrow> int \<Rightarrow> int \<times> nat \<times> int option" where
  "strtoll str base = (let (v, e, err) = strto_int 4 False str base in (sint v, e, err))"

definition strtoull :: "byte list \<Rightarrow> int \<Rightarrow> u64 \<times> nat \<times> int option" where
  "strtoull str base = strto_int 4 True str base"

definition ato_int :: "nat \<Rightarrow> bool \<Rightarrow> byte list \<Rightarrow> u64 \<times> int option" where
  "ato_int len usig str =
     (let spec = (if usig then 10 else fmt_add 10 FMT_sign);
          r = read_skip str \<lparr>rpos = 0, rread = 0\<rparr>;
          (r, err, res) = input_int str (fmt_set_length spec len) INT_MAX r None
      in case res of Some val \<Rightarrow> (val, err) | None \<Rightarrow> (0, err))"

definition atoi :: "byte list \<Rightarrow> int" where
  "atoi str = sint (ucast (fst (ato_int 0 False str)) :: u32)"

definition atol :: "byte list \<Rightarrow> int" where
  "atol str = sint (fst (ato_int 3 False str))"

definition atoll :: "byte list \<Rightarrow> int" where
  "atoll str = sint (fst (ato_int 4 False str))"

section \<open>Scanning\<close>

record scan =
  smem :: mem
  sread :: reader
  serr :: "int option"

primrec le_bytes :: "nat \<Rightarrow> u64 \<Rightarrow> byte list" where
  "le_bytes 0 v = []"
| "le_bytes (Suc k) v = ucast v # le_bytes k (drop_bit 8 v)"

text \<open>A store through the next pointer argument, of the size the length modifier names (\<^verbatim>\<open>__jacl_set_signed\<close>, \<^verbatim>\<open>__jacl_set_unsigned\<close>).\<close>

definition set_num :: "spec \<Rightarrow> arg list \<Rightarrow> u64 \<Rightarrow> scan \<Rightarrow> (scan \<times> arg list) option" where
  "set_num spec ap v s =
     (case va_num ap of None \<Rightarrow> None
      | Some (p, ap') \<Rightarrow> Some (s\<lparr>smem := wr (smem s) (unat p) (le_bytes (store_size spec) v)\<rparr>, ap'))"

definition spec_scanf :: "byte list \<Rightarrow> (spec \<times> int \<times> byte \<times> byte list) option" where
  "spec_scanf fmt =
     (let (spec, fmt) = (if cur fmt = 0x2A then (fmt_add 0 FMT_left, tl fmt) else (0, fmt)) in
      case spec_digits 0 fmt of None \<Rightarrow> None
      | Some (width, fmt) \<Rightarrow>
          let (l, fmt) = spec_length fmt;
              spec = spec OR push_bit 6 (of_nat l);
              c = cur fmt;
              spec = (if c \<noteq> 0x63 then fmt_add spec FMT_spad else spec);
              spec = (if c \<noteq> 0x75 then fmt_add spec FMT_sign else spec);
              spec = (if 0x41 \<le> c \<and> c < 0x41 + 26 then fmt_add spec FMT_upper else spec)
          in Some (spec, width, c, fmt))"

text \<open>Characters up to white space (or exactly as many as the width); \<open>buf\<close> is \<open>0\<close> when nothing is stored.\<close>

function str_loop :: "byte list \<Rightarrow> bool \<Rightarrow> int \<Rightarrow> ptr \<Rightarrow> nat \<Rightarrow> mem \<Rightarrow> reader \<Rightarrow> nat \<times> mem \<times> reader" where
  "str_loop str pad width buf i m r =
     (if int i < width then
        let (ch, r') = read_next str r in
        if ch = EOF \<or> pad \<and> rd_isspace ch then (i, m, r')
        else str_loop str pad width buf (i + 1) (if buf \<noteq> 0 then m(buf + i := of_int ch) else m) r'
      else (i, m, r))"
  by pat_completeness auto
termination
  by (relation "measure (\<lambda>(str, pad, width, buf, i, m, r). nat width - i)") auto

declare str_loop.simps [simp del]

definition input_str :: "byte list \<Rightarrow> spec \<Rightarrow> int \<Rightarrow> ptr \<Rightarrow> scan \<Rightarrow> scan \<times> bool" where
  "input_str str spec width buf s =
     (let pad = fmt_has spec FMT_spad;
          r = (if pad then read_skip str (sread s) else sread s);
          (i, m, r) = str_loop str pad width buf 0 (smem s) r;
          m = (if buf \<noteq> 0 \<and> pad then m(buf + i := 0) else m)
      in (s\<lparr>smem := m, sread := r\<rparr>, \<not> (pad \<and> i = 0)))"

text \<open>
  The set of a bracket expression, built by flipping bits.  A range that ends at \<open>0xFF\<close> never ends (the counter is an
  \<^verbatim>\<open>unsigned char\<close>): no result.
\<close>

definition bitflip :: "byte \<Rightarrow> (byte \<Rightarrow> bool) \<Rightarrow> byte \<Rightarrow> bool" where
  "bitflip c cset = cset(c := \<not> cset c)"

definition flip_range :: "byte \<Rightarrow> byte \<Rightarrow> (byte \<Rightarrow> bool) \<Rightarrow> byte \<Rightarrow> bool" where
  "flip_range a b cset = foldl (\<lambda>cs k. bitflip (of_nat k) cs) cset [unat a..<Suc (unat b)]"

function charset_loop :: "(byte \<Rightarrow> bool) \<Rightarrow> byte list \<Rightarrow> ((byte \<Rightarrow> bool) \<times> byte list) option" where
  "charset_loop cset fmt =
     (if cur fmt \<noteq> 0 \<and> cur fmt \<noteq> 0x5D then
        if cur (tl fmt) = 0x2D \<and> cur (tl (tl fmt)) \<noteq> 0x5D \<and> cur (tl (tl fmt)) \<noteq> 0 then
          let a = cur fmt; b = cur (tl (tl fmt)) in
          if a \<le> b \<and> b = 0xFF then None
          else charset_loop (if a \<le> b then flip_range a b cset else cset) (drop 3 fmt)
        else charset_loop (bitflip (cur fmt) cset) (tl fmt)
      else Some (cset, fmt))"
  by pat_completeness auto
termination
  by (relation "measure (\<lambda>(cset, fmt). length fmt)") (auto simp: cur_def split: list.splits)

declare charset_loop.simps [simp del]

definition charset :: "byte list \<Rightarrow> ((byte \<Rightarrow> bool) \<times> byte list) option" where
  "charset fmt =
     (let fmt = tl fmt;
          (cset, fmt) = (if cur fmt = 0x5E then ((\<lambda>_. True), tl fmt) else ((\<lambda>_. False), fmt));
          (cset, fmt) = (if cur fmt = 0x5D then (bitflip 0x5D cset, tl fmt) else (cset, fmt))
      in charset_loop cset fmt)"

function set_loop :: "byte list \<Rightarrow> (byte \<Rightarrow> bool) \<Rightarrow> int \<Rightarrow> ptr \<Rightarrow> nat \<Rightarrow> mem \<Rightarrow> reader \<Rightarrow> nat \<times> mem \<times> reader" where
  "set_loop str cset width buf i m r =
     (if int i < width then
        let (ch, r') = read_next str r in
        if ch = EOF then (i, m, r')
        else if \<not> cset (of_int ch) then (i, m, read_back r')
        else set_loop str cset width buf (i + 1) (if buf \<noteq> 0 then m(buf + i := of_int ch) else m) r'
      else (i, m, r))"
  by pat_completeness auto
termination
  by (relation "measure (\<lambda>(str, cset, width, buf, i, m, r). nat width - i)") auto

declare set_loop.simps [simp del]

definition input_scan :: "byte list \<Rightarrow> byte list \<Rightarrow> int \<Rightarrow> ptr \<Rightarrow> scan \<Rightarrow> (scan \<times> byte list \<times> bool) option" where
  "input_scan str fmt width buf s =
     (case charset fmt of None \<Rightarrow> None
      | Some (cset, fmt) \<Rightarrow>
          let r = read_skip str (sread s);
              width = (if width = 0 then INT_MAX else width);
              (i, m, r) = set_loop str cset width buf 0 (smem s) r;
              m = (if buf \<noteq> 0 then m(buf + i := 0) else m)
          in Some (s\<lparr>smem := m, sread := r\<rparr>, fmt, i > 0))"

text \<open>The pointer argument of a conversion, none with assignment suppression.\<close>

definition scan_arg :: "spec \<Rightarrow> arg list \<Rightarrow> (ptr \<times> arg list) option" where
  "scan_arg spec ap =
     (if fmt_has spec FMT_left then Some (0, ap)
      else (case va_num ap of None \<Rightarrow> None | Some (p, ap') \<Rightarrow> Some (unat p, ap')))"

definition scanf_scan :: "byte list \<Rightarrow> spec \<Rightarrow> int \<Rightarrow> byte list \<Rightarrow> arg list \<Rightarrow> scan \<Rightarrow> (scan \<times> byte list \<times> arg list \<times> bool) option" where
  "scanf_scan str spec width fmt ap s =
     (case scan_arg spec ap of None \<Rightarrow> None
      | Some (p, ap') \<Rightarrow>
          let width = (if width = 0 then INT_MAX else width)
          in map_option (\<lambda>(s', fmt', ok). (s', fmt', ap', ok)) (input_scan str fmt width p s))"

definition scanf_words :: "int \<Rightarrow> byte list \<Rightarrow> spec \<Rightarrow> int \<Rightarrow> arg list \<Rightarrow> scan \<Rightarrow> (scan \<times> arg list \<times> bool) option" where
  "scanf_words dflt str spec width ap s =
     (case scan_arg spec ap of None \<Rightarrow> None
      | Some (p, ap') \<Rightarrow>
          let (s', ok) = input_str str spec (if width = 0 then dflt else width) p s in Some (s', ap', ok))"

definition scanf_base :: "u32 \<Rightarrow> byte list \<Rightarrow> spec \<Rightarrow> int \<Rightarrow> arg list \<Rightarrow> scan \<Rightarrow> (scan \<times> arg list \<times> bool) option" where
  "scanf_base base str spec width ap s =
     (let r = read_skip str (sread s);
          width = (if width = 0 then INT_MAX else width);
          spec = fmt_set_base spec base;
          (r, err, res) = input_int str spec width r (serr s);
          s = s\<lparr>sread := r, serr := err\<rparr>
      in case res of None \<Rightarrow> Some (s, ap, False)
         | Some val \<Rightarrow>
             if fmt_has spec FMT_left then Some (s, ap, True)
             else map_option (\<lambda>(s', ap'). (s', ap', True)) (set_num spec ap val s))"

text \<open>A conversion other than \<^verbatim>\<open>%%\<close>, \<^verbatim>\<open>%n\<close> and \<^verbatim>\<open>%[\<close>.\<close>

definition scanf_conv :: "byte \<Rightarrow> byte list \<Rightarrow> spec \<Rightarrow> int \<Rightarrow> arg list \<Rightarrow> scan \<Rightarrow> (scan \<times> arg list \<times> bool) option" where
  "scanf_conv c str spec width ap s =
     (if c = 0x63 then scanf_words 1 str spec width ap s
      else if c = 0x73 then scanf_words INT_MAX str spec width ap s
      else if c = 0x69 then scanf_base 0 str spec width ap s
      else if c = 0x64 \<or> c = 0x75 then scanf_base FMT_dec str spec width ap s
      else if c = 0x6F then scanf_base FMT_oct str spec width ap s
      else if c = 0x78 \<or> c = 0x58 then scanf_base FMT_hex str spec width ap s
      else if c = 0x62 \<or> c = 0x42 then scanf_base FMT_bin str spec width ap s
      else None)"

definition known_type :: "byte \<Rightarrow> bool" where
  "known_type c \<longleftrightarrow> c \<in> set [0x63, 0x73, 0x69, 0x64, 0x75, 0x6F, 0x78, 0x58, 0x62, 0x42]"

lemma charset_loop_length: "charset_loop cset fmt = Some (cset', fmt') \<Longrightarrow> length fmt' \<le> length fmt"
proof (induction cset fmt rule: charset_loop.induct)
  case (1 cset fmt)
  note e = 1(3) [unfolded charset_loop.simps [of cset fmt]]
  show ?case
  proof (cases "cur fmt \<noteq> 0 \<and> cur fmt \<noteq> 0x5D")
    case c: True
    show ?thesis
    proof (cases "cur (tl fmt) = 0x2D \<and> cur (tl (tl fmt)) \<noteq> 0x5D \<and> cur (tl (tl fmt)) \<noteq> 0")
      case True
      then show ?thesis using 1(1) [OF c True refl refl] c e by (auto simp: Let_def split: if_splits)
    next
      case False
      then show ?thesis using 1(2) [OF c False] c e by auto
    qed
  next
    case False
    then show ?thesis using e by auto
  qed
qed

lemma spec_scanf_length: "spec_scanf fmt = Some (spec, w, c, fmt') \<Longrightarrow> length fmt' \<le> length fmt"
proof -
  assume a: "spec_scanf fmt = Some (spec, w, c, fmt')"
  define f1 where "f1 = (if cur fmt = 0x2A then tl fmt else fmt)"
  obtain w' f2 where 2: "spec_digits 0 f1 = Some (w', f2)" "fmt' = snd (spec_length f2)"
    using a by (auto simp: spec_scanf_def f1_def Let_def split: option.splits prod.splits if_splits)
  then show ?thesis using spec_digits_length [OF 2(1)] spec_length_length [of f2] by (simp add: f1_def split: if_splits)
qed

lemma charset_length: "charset fmt = Some (cset, fmt') \<Longrightarrow> length fmt' \<le> length fmt"
  by (auto simp: charset_def Let_def split: if_splits dest!: charset_loop_length)

lemma scanf_scan_length: "scanf_scan str spec w fmt ap s = Some (s', fmt', ap', ok) \<Longrightarrow> length fmt' \<le> length fmt"
  by (auto simp: scanf_scan_def input_scan_def Let_def split: option.splits prod.splits dest!: charset_length)

text \<open>
  The main loop: the number of assignments, or \<^verbatim>\<open>EOF\<close>.  A conversion whose type is the terminator, and an unclosed bracket,
  move the format pointer beyond the string: no result.
\<close>

function scanf_loop :: "byte list \<Rightarrow> scan \<Rightarrow> int \<Rightarrow> bool \<Rightarrow> byte list \<Rightarrow> arg list \<Rightarrow> (scan \<times> int) option" where
  "scanf_loop str s count matched fmt ap =
     (case fmt of [] \<Rightarrow> Some (s, count)
      | f # fmt1 \<Rightarrow>
          if f \<noteq> 0x25 then
            if rd_isspace (schar f) then scanf_loop str (s\<lparr>sread := read_skip str (sread s)\<rparr>) count matched fmt1 ap
            else
              let (ch, r) = read_next str (sread s) in
              if ch \<noteq> schar f then
                Some (s\<lparr>sread := (if ch \<noteq> EOF then read_back r else r)\<rparr>, if ch = EOF \<and> count = 0 then EOF else count)
              else scanf_loop str (s\<lparr>sread := r\<rparr>) count matched fmt1 ap
          else
            (case spec_scanf fmt1 of None \<Rightarrow> None
             | Some (spec, width, c, fmt2) \<Rightarrow>
                 if c = 0x25 then
                   let (ch, r) = read_next str (sread s) in
                   if ch \<noteq> 0x25 then Some (s\<lparr>sread := r\<rparr>, if ch = EOF \<and> \<not> matched then EOF else count)
                   else scanf_loop str (s\<lparr>sread := r\<rparr>) count matched (tl fmt2) ap
                 else if c = 0x6E then
                   if fmt_has spec FMT_left then scanf_loop str s count matched (tl fmt2) ap
                   else (case set_num spec ap (of_int (rread (sread s))) s of None \<Rightarrow> None
                         | Some (s', ap') \<Rightarrow> scanf_loop str s' count matched (tl fmt2) ap')
                 else if c = 0x5B then
                   (case scanf_scan str spec width fmt2 ap s of None \<Rightarrow> None
                    | Some (s', fmt3, ap', ok) \<Rightarrow>
                        if \<not> ok then Some (s', if matched then count else EOF)
                        else if fmt3 = [] then None
                        else scanf_loop str s' (if fmt_has spec FMT_left then count else count + 1) matched (tl fmt3) ap')
                 else if known_type c then
                   (case scanf_conv c str spec width ap s of None \<Rightarrow> None
                    | Some (s', ap', ok) \<Rightarrow>
                        if \<not> ok then Some (s', if matched then count else EOF)
                        else scanf_loop str s' (if fmt_has spec FMT_left then count else count + 1) True (tl fmt2) ap')
                 else if is_float_type c \<or> c = 0x70 \<or> fmt2 = [] then None
                 else scanf_loop str s count matched (tl fmt2) ap))"
  by pat_completeness auto
termination
  by (relation "measure (\<lambda>(str, s, count, matched, fmt, ap). length fmt)")
    (auto dest!: spec_scanf_length scanf_scan_length)

declare scanf_loop.simps [simp del]

definition vsscanf :: "mem \<Rightarrow> byte list \<Rightarrow> byte list \<Rightarrow> arg list \<Rightarrow> (scan \<times> int) option" where
  "vsscanf m str fmt ap = scanf_loop str \<lparr>smem = m, sread = \<lparr>rpos = 0, rread = 0\<rparr>, serr = None\<rparr> 0 False fmt ap"

section \<open>Reading without end-of-file bytes\<close>

text \<open>
  What the parsers promise on input without the byte \<open>0xFF\<close>: leading white space, an optional sign, then the longest run
  of digits of the base.
\<close>

definition is_space :: "byte \<Rightarrow> bool" where
  "is_space c \<longleftrightarrow> rd_isspace (schar c)"

definition is_dig :: "int \<Rightarrow> byte \<Rightarrow> bool" where
  "is_dig base c \<longleftrightarrow> 0 \<le> digit_val (schar c) \<and> digit_val (schar c) < base"

definition numeral_of :: "int \<Rightarrow> nat \<Rightarrow> byte list \<Rightarrow> nat" where
  "numeral_of base n ds = foldl (\<lambda>a c. a * nat base + nat (digit_val (schar c))) n ds"

definition saturate :: "int option \<Rightarrow> nat \<Rightarrow> u64 \<times> int option" where
  "saturate err n = (if n < 2 ^ 64 then (of_nat n, err) else (- 1, Some ERANGE))"

lemma schar_EOF: "schar c = EOF \<longleftrightarrow> c = 0xFF"
proof
  assume "schar c = EOF"
  then have s: "sint c = - 1" by (simp add: schar_def EOF_def)
  have "(of_int (sint c) :: byte) = c" by simp
  then have "c = - 1" unfolding s by simp
  then show "c = 0xFF" by simp
qed (simp add: schar_def EOF_def)

lemma not_EOF: "0xFF \<notin> set str \<Longrightarrow> i < length str \<Longrightarrow> schar (str ! i) \<noteq> EOF"
  using schar_EOF nth_mem by metis

lemma read_next_in:
  "0xFF \<notin> set str \<Longrightarrow> rpos r < length str \<Longrightarrow>
    read_next str r = (schar (str ! rpos r), r\<lparr>rpos := Suc (rpos r), rread := rread r + 1\<rparr>)"
  using not_EOF by (simp add: read_next_def Let_def)

lemma read_next_end: "length str \<le> rpos r \<Longrightarrow> read_next str r = (EOF, r)"
  by (simp add: read_next_def)

lemma not_space_EOF: "\<not> rd_isspace EOF"
  by (simp add: rd_isspace_def EOF_def)

lemma drop_nth_Cons: "i < length xs \<Longrightarrow> drop i xs = xs ! i # drop (Suc i) xs"
  by (simp add: Cons_nth_drop_Suc)

lemma read_skip_spaces:
  assumes "0xFF \<notin> set str"
  shows "read_skip str r = r\<lparr>rpos := rpos r + length (takeWhile is_space (drop (rpos r) str)),
    rread := rread r + int (length (takeWhile is_space (drop (rpos r) str)))\<rparr>"
proof (induction "length str - rpos r" arbitrary: r)
  case 0
  then have "length str \<le> rpos r" by simp
  then show ?case by (simp add: read_skip_def skip_loop.simps [of str r] read_next_end not_space_EOF)
next
  case (Suc n)
  then have i: "rpos r < length str" by simp
  define c where "c = str ! rpos r"
  define r1 where "r1 = r\<lparr>rpos := Suc (rpos r), rread := rread r + 1\<rparr>"
  have n: "read_next str r = (schar c, r1)" using read_next_in [OF assms i] by (simp add: c_def r1_def)
  have e: "schar c \<noteq> EOF" using not_EOF [OF assms i] by (simp add: c_def)
  have d: "drop (rpos r) str = c # drop (rpos r1) str" using drop_nth_Cons [OF i] by (simp add: c_def r1_def)
  show ?case
  proof (cases "is_space c")
    case True
    have "skip_loop str r = skip_loop str r1" using True n e by (subst skip_loop.simps) (simp add: is_space_def)
    then have "read_skip str r = read_skip str r1" by (simp add: read_skip_def)
    moreover have "n = length str - rpos r1" using Suc(2) by (simp add: r1_def)
    ultimately show ?thesis using Suc(1) [of r1] d True by (simp add: r1_def)
  next
    case False
    have "skip_loop str r = (schar c, r1)" using False n e by (subst skip_loop.simps) (simp add: is_space_def)
    then have "read_skip str r = read_back r1" using e by (simp add: read_skip_def)
    then show ?thesis using d False by (simp add: read_back_def r1_def)
  qed
qed

lemma digit_step:
  assumes "2 \<le> base" "base \<le> 36" "0 \<le> v" "v < base" "saturate err n = (val, e)"
  shows "(if val > (- 1 - of_int v) div of_int base then (- 1 :: u64, Some ERANGE) else (val * of_int base + of_int v, e)) =
    saturate err (n * nat base + nat v)"
proof -
  define b where "b = nat base"
  define d where "d = nat v"
  have b: "2 \<le> b" "b \<le> 36" "d < b" "(of_int base :: u64) = of_nat b" "(of_int v :: u64) = of_nat d"
    using assms by (simp_all add: b_def d_def)
  have u: "unat (of_nat b :: u64) = b" "unat (of_nat d :: u64) = d"
    using b by (simp_all add: unsigned_of_nat take_bit_nat_eq_self)
  have m1: "unat (- 1 :: u64) = 2 ^ 64 - 1" by (simp add: unsigned_minus_1_eq_mask mask_eq_exp_minus_1)
  have "unat ((- 1 :: u64) - of_nat d) = 2 ^ 64 - 1 - d"
    by (subst unat_sub) (simp_all add: m1 u word_le_nat_alt, use b in linarith)
  then have q: "unat (((- 1 :: u64) - of_nat d) div of_nat b) = (2 ^ 64 - 1 - d) div b" by (simp only: unat_div u)
  have gt: "val > (- 1 - of_nat d) div of_nat b \<longleftrightarrow> unat val * b + d \<ge> 2 ^ 64"
  proof -
    have "unat val \<le> (2 ^ 64 - 1 - d) div b \<longleftrightarrow> unat val * b \<le> 2 ^ 64 - 1 - d" using b by (simp add: less_eq_div_iff_mult_less_eq)
    moreover have "x \<le> 2 ^ 64 - 1 - d \<longleftrightarrow> \<not> 2 ^ 64 \<le> x + d" for x :: nat using b by auto
    ultimately show ?thesis by (simp only: word_less_nat_alt q not_le [symmetric] simp_thms)
  qed
  show ?thesis
  proof (cases "n < 2 ^ 64")
    case True
    then have v: "val = of_nat n" "e = err" using assms(5) by (simp_all add: saturate_def)
    moreover have "unat val = n" unfolding v(1) using True by (simp add: unsigned_of_nat take_bit_nat_eq_self)
    ultimately show ?thesis using gt unfolding b(4,5) by (simp add: saturate_def b_def [symmetric] d_def [symmetric])
  next
    case False
    then have v: "val = - 1" "e = Some ERANGE" using assms(5) by (simp_all add: saturate_def)
    have "2 ^ 64 \<le> unat val * b + d" using m1 v b by simp
    moreover have "2 ^ 64 \<le> n * b + d" using False b by (metis le_add1 le_trans linorder_not_less mult_le_mono2 mult.right_neutral one_le_numeral)
    ultimately show ?thesis using gt unfolding b(4,5) by (simp add: saturate_def b_def [symmetric] d_def [symmetric])
  qed
qed

text \<open>
  The digit loop, entered with the character at \<open>j\<close> read: it takes the longest run of digits from there, and reads one
  character beyond it.
\<close>

lemma read_digits_run:
  assumes "0xFF \<notin> set str" "2 \<le> base" "base \<le> 36" "j < length str" "rpos (dreader d) = Suc j" "dch d = schar (str ! j)"
    "rread (dreader d) + int (length str - j) \<le> width" "dcount d + int (length str - j) < limit" "(dval d, derr d) = saturate err n"
    "ds = takeWhile (is_dig base) (drop j str)"
  shows "read_digits str width limit base d =
    (let k = j + length ds; (v, e) = saturate err (numeral_of base n ds)
     in \<lparr>dch = (if k < length str then schar (str ! k) else EOF),
         dreader = (dreader d)\<lparr>rpos := (if k < length str then Suc k else k),
           rread := rread (dreader d) + int (length ds) - (if k < length str then 0 else 1)\<rparr>,
         dcount = dcount d + int (length ds), dval = v, derr = e\<rparr>)"
  using assms(4-10)
proof (induction "length str - j" arbitrary: j d n ds)
  case (Suc m)
  define c where "c = str ! j"
  have ne: "dch d \<noteq> EOF" using not_EOF [OF assms(1) Suc(3)] Suc(5) by simp
  have lt: "rread (dreader d) < width" using Suc(3,6) by linarith
  show ?case
  proof (cases "is_dig base c")
    case False
    then have "ds = []" using Suc(9) drop_nth_Cons [OF Suc(3)] by (simp add: c_def)
    moreover have "read_digits str width limit base d = d"
      using False ne lt Suc(5) by (subst read_digits.simps) (auto simp: is_dig_def c_def Let_def)
    ultimately show ?thesis using Suc(3,4,5) unfolding Suc(8) [symmetric] numeral_of_def
      by (simp add: Suc(8) [symmetric])
  next
    case True
    define v where "v = digit_val (schar c)"
    have v: "0 \<le> v" "v < base" "\<not> (v < 0 \<or> v \<ge> base)" using True by (auto simp: v_def is_dig_def)
    define n1 where "n1 = n * nat base + nat v"
    obtain v1 e1 where s1: "saturate err n1 = (v1, e1)" by force
    define d1 where "d1 = d\<lparr>dval := v1, derr := e1, dcount := dcount d + 1\<rparr>"
    obtain ds1 where ds: "ds = c # ds1" "ds1 = takeWhile (is_dig base) (drop (Suc j) str)"
      using Suc(9) True drop_nth_Cons [OF Suc(3)] by (simp add: c_def)
    have nu: "numeral_of base n ds = numeral_of base n1 ds1" by (simp add: ds(1) numeral_of_def n1_def v_def)
    have st: "(if dval d > (- 1 - of_int v) div of_int base then d\<lparr>derr := Some ERANGE, dval := - 1\<rparr>
        else d\<lparr>dval := dval d * of_int base + of_int v\<rparr>)\<lparr>dcount := dcount d + 1\<rparr> = d1"
      using digit_step [OF assms(2,3) v(1,2) Suc(8) [symmetric]] s1 by (auto simp: d1_def n1_def split: if_splits)
    have dc: "dcount (if dval d > (- 1 - of_int v) div of_int base then d\<lparr>derr := Some ERANGE, dval := - 1\<rparr>
        else d\<lparr>dval := dval d * of_int base + of_int v\<rparr>) = dcount d" by simp
    have lim: "\<not> limit \<le> dcount d1" using Suc(3,7) by (simp add: d1_def)
    have rd: "read_digits str width limit base d =
        (case read_next str (dreader d) of (ch, r) \<Rightarrow> read_digits str width limit base (d1\<lparr>dch := ch, dreader := r\<rparr>))"
      unfolding read_digits.simps [of str width limit base d] Let_def Suc(5) c_def [symmetric] v_def [symmetric] dc st
      using ne lt v(3) lim Suc(5) by (simp add: d1_def c_def v_def)
    show ?thesis
    proof (cases "Suc j < length str")
      case in_range: True
      define d2 where "d2 = d1\<lparr>dch := schar (str ! Suc j), dreader := (dreader d)\<lparr>rpos := Suc (Suc j), rread := rread (dreader d) + 1\<rparr>\<rparr>"
      have "read_digits str width limit base d = read_digits str width limit base d2"
        using rd read_next_in [OF assms(1), of "dreader d"] Suc(4) in_range by (simp add: d2_def)
      also have "\<dots> = (let k = Suc j + length ds1; (v, e) = saturate err (numeral_of base n1 ds1)
          in \<lparr>dch = (if k < length str then schar (str ! k) else EOF),
              dreader = (dreader d2)\<lparr>rpos := (if k < length str then Suc k else k),
                rread := rread (dreader d2) + int (length ds1) - (if k < length str then 0 else 1)\<rparr>,
              dcount = dcount d2 + int (length ds1), dval = v, derr = e\<rparr>)"
        using Suc(2,3,6,7) in_range s1 ds(2) by (intro Suc(1)) (simp_all add: d2_def d1_def)
      finally show ?thesis unfolding nu by (simp add: ds(1) d2_def d1_def Let_def case_prod_beta)
    next
      case False
      then have e: "Suc j = length str" using Suc(3) by simp
      have "ds1 = []" using ds(2) e by simp
      moreover have "read_digits str width limit base d = read_digits str width limit base (d1\<lparr>dch := EOF\<rparr>)"
        using rd read_next_end [of str "dreader d"] Suc(4) e by (simp add: d1_def)
      moreover have "read_digits str width limit base (d1\<lparr>dch := EOF\<rparr>) = d1\<lparr>dch := EOF\<rparr>" by (subst read_digits.simps) simp
      ultimately show ?thesis unfolding nu using e s1 Suc(4)
        by (cases "dreader d") (simp add: ds(1) d1_def Let_def numeral_of_def)
    qed
  qed
qed simp

section \<open>Integers\<close>

lemma schar_iff: "- 128 \<le> v \<Longrightarrow> v < 128 \<Longrightarrow> schar c = v \<longleftrightarrow> c = of_int v"
proof -
  assume v: "- 128 \<le> v" "v < 128"
  have c: "(of_int (sint c) :: byte) = c" by simp
  have "sint (of_int v :: byte) = v" using v by (simp add: int_word_sint)
  then show ?thesis using c by (auto simp: schar_def)
qed

lemma schar_zero: "schar c = 0x30 \<longleftrightarrow> c = 0x30"
  using schar_iff [of "0x30" c] by simp

definition sign_split :: "byte list \<Rightarrow> bool \<times> byte list" where
  "sign_split cs = (case cs of [] \<Rightarrow> (False, [])
     | c # cs' \<Rightarrow> if c = 0x2D then (True, cs') else if c = 0x2B then (False, cs') else (False, cs))"

lemma drop_tail: "drop i str = c # cs \<Longrightarrow> drop (Suc i) str = cs \<and> i < length str \<and> str ! i = c"
proof -
  assume d: "drop i str = c # cs"
  then have i: "i < length str" by (cases "i < length str") simp_all
  then show ?thesis using d drop_nth_Cons [OF i] by simp
qed

text \<open>Where the digits start, and what is read up to there.\<close>

lemma sign_step_split:
  assumes "0xFF \<notin> set str" "read_next str r = (ch, r0)" "sign_split (drop (rpos r) str) = (neg, ds)"
    "j = length str - length ds"
  shows "\<exists>p. sign_step str ch (r0\<lparr>rread := 0\<rparr>) = (neg, (if ds = [] then EOF else schar (str ! j)), p) \<and> drop j str = ds \<and>
    (ds \<noteq> [] \<longrightarrow> rpos r \<le> j \<and> j < length str \<and> rpos p = Suc j \<and> rread p = int (j - rpos r) \<and>
      rpos r0 = Suc (rpos r) \<and> rread r0 = rread r + 1)"
proof (cases "drop (rpos r) str")
  case Nil
  then have "length str \<le> rpos r" by simp
  then have "read_next str r = (EOF, r)" by (rule read_next_end)
  then show ?thesis using assms Nil by (simp add: sign_split_def sign_step_def EOF_def)
next
  case (Cons c cs)
  note d = drop_tail [OF Cons]
  have r: "ch = schar c" "r0 = r\<lparr>rpos := Suc (rpos r), rread := rread r + 1\<rparr>"
    using read_next_in [OF assms(1), of r] assms(2) d by auto
  have sc: "schar c = 0x2D \<longleftrightarrow> c = 0x2D" "schar c = 0x2B \<longleftrightarrow> c = 0x2B" using schar_iff [of "0x2D" c] schar_iff [of "0x2B" c] by simp_all
  have lc: "length str = rpos r + Suc (length cs)" using d Cons by (metis add.commute diff_add length_Cons length_drop order_less_imp_le)
  show ?thesis
  proof (cases "c = 0x2D \<or> c = 0x2B")
    case True
    then have ds: "ds = cs" "neg \<longleftrightarrow> c = 0x2D" "j = Suc (rpos r)" using assms(3,4) Cons lc by (auto simp: sign_split_def)
    show ?thesis
    proof (cases "cs = []")
      case True
      then have "read_next str (r0\<lparr>rread := 0\<rparr>) = (EOF, r0\<lparr>rread := 0\<rparr>)" using lc r by (intro read_next_end) simp
      then show ?thesis using \<open>c = 0x2D \<or> c = 0x2B\<close> ds r sc True d by (auto simp: sign_step_def)
    next
      case False
      then have "Suc (rpos r) < length str" using lc by (cases cs) auto
      then have "read_next str (r0\<lparr>rread := 0\<rparr>) = (schar (str ! j), r0\<lparr>rpos := Suc j, rread := 1\<rparr>)"
        using read_next_in [OF assms(1), of "r0\<lparr>rread := 0\<rparr>"] r ds by simp
      then show ?thesis using \<open>c = 0x2D \<or> c = 0x2B\<close> False ds r sc d \<open>Suc (rpos r) < length str\<close> by (auto simp: sign_step_def)
    qed
  next
    case False
    then have "ds = c # cs" "\<not> neg" using assms(3) Cons by (auto simp: sign_split_def)
    moreover have "j = rpos r" using assms(4) lc \<open>ds = c # cs\<close> by simp
    ultimately show ?thesis using False r sc d Cons by (simp add: sign_step_def)
  qed
qed

lemma clamp_zero: "clamp spec neg 0 err = (0, err)"
  by (simp add: clamp_def Let_def)

text \<open>
  Parsing from \<open>r\<close>: a base above \<open>1\<close> (\<open>0\<close> chooses the base by a prefix and is not covered here), and for base 16 no \<open>0x\<close> prefix.
\<close>

lemma input_int_digits:
  assumes ff: "0xFF \<notin> set str" and w: "int (length str) + 1 < width"
    and b: "b = uint (fmt_base spec)" "2 \<le> b" "b \<le> 36"
    and sp: "sign_split (drop (rpos r) str) = (neg, cs)"
    and ds: "ds = takeWhile (is_dig b) cs" "ds \<noteq> []"
    and hex: "b = 16 \<Longrightarrow> \<exists>c cs'. cs = c # cs' \<and> (c = 0x30 \<longrightarrow> cs' \<noteq> [] \<longrightarrow> hd cs' \<notin> {0x78, 0x58})"
    and k: "k = length str - length cs + length ds"
  shows "input_int str spec width r err =
    (case clamp spec neg (fst (saturate err (numeral_of b 0 ds))) (snd (saturate err (numeral_of b 0 ds))) of
       (v, e) \<Rightarrow> (r\<lparr>rpos := k, rread := rread r + int (k - rpos r)\<rparr>, e, Some v))"
proof -
  define j where "j = length str - length cs"
  obtain ch r0 where n: "read_next str r = (ch, r0)" by force
  have cs: "cs \<noteq> []" using ds by auto
  obtain p where p: "sign_step str ch (r0\<lparr>rread := 0\<rparr>) = (neg, schar (str ! j), p)" "drop j str = cs"
    "rpos r \<le> j" "j < length str" "rpos p = Suc j" "rread p = int (j - rpos r)" "rpos r0 = Suc (rpos r)" "rread r0 = rread r + 1"
    using sign_step_split [OF ff n sp j_def] cs by auto
  have r0: "r0 = r\<lparr>rpos := Suc (rpos r), rread := rread r + 1\<rparr>"
    using read_next_in [OF ff, of r] n p(3,4) by auto
  define q where "q = (if k < length str then Suc k else k)"
  obtain v e where ve: "saturate err (numeral_of b 0 ds) = (v, e)" by force
  have kj: "k = j + length ds" using k by (simp add: j_def)
  have run: "\<exists>base ch p'. base_step str b (schar (str ! j)) p = (b, ch, p') \<and>
      (let d = read_digits str width width b \<lparr>dch = ch, dreader = p', dcount = 0, dval = 0, derr = err\<rparr>
       in dcount d > 0 \<and> dch d = (if k < length str then schar (str ! k) else EOF) \<and> dval d = v \<and> derr d = e \<and>
          rpos (dreader d) = q \<and> rread (dreader d) = rread p + int (length ds) - (if k < length str then 0 else 1))"
  proof (cases "b = 16 \<and> str ! j = 0x30 \<and> Suc j = length str")
    case False
    have "base_step str b (schar (str ! j)) p = (b, schar (str ! j), p)"
    proof (cases "b = 16 \<and> str ! j = 0x30")
      case True
      then have s: "Suc j < length str" using False p(4) by simp
      obtain c cs' where "cs = c # cs'" "c = 0x30 \<longrightarrow> cs' \<noteq> [] \<longrightarrow> hd cs' \<notin> {0x78, 0x58}" using hex True by auto
      moreover from this have "c = str ! j" "cs' = drop (Suc j) str" using drop_tail [of j str] p(2) by auto
      ultimately have x: "str ! Suc j \<notin> {0x78, 0x58}" using True s by (simp add: hd_drop_conv_nth)
      then have "schar (str ! Suc j) \<noteq> 0x78" "schar (str ! Suc j) \<noteq> 0x58"
        using schar_iff [of "0x78" "str ! Suc j"] schar_iff [of "0x58" "str ! Suc j"] by auto
      moreover have "read_next str p = (schar (str ! Suc j), p\<lparr>rpos := Suc (Suc j), rread := rread p + 1\<rparr>)"
        using read_next_in [OF ff, of p] p(5) s by simp
      ultimately show ?thesis using True b(2) schar_zero p(5) by (simp add: base_step_def read_back_def)
    next
      case False
      then show ?thesis using b(2) schar_zero by (auto simp: base_step_def)
    qed
    moreover have "read_digits str width width b \<lparr>dch = schar (str ! j), dreader = p, dcount = 0, dval = 0, derr = err\<rparr> =
      (let k = j + length ds; (v, e) = saturate err (numeral_of b 0 ds)
       in \<lparr>dch = (if k < length str then schar (str ! k) else EOF),
           dreader = p\<lparr>rpos := (if k < length str then Suc k else k),
             rread := rread p + int (length ds) - (if k < length str then 0 else 1)\<rparr>,
           dcount = 0 + int (length ds), dval = v, derr = e\<rparr>)"
      using read_digits_run [OF ff b(2,3) p(4), of "\<lparr>dch = schar (str ! j), dreader = p, dcount = 0, dval = 0, derr = err\<rparr>" width width err 0 ds]
        p w ds by (simp add: saturate_def)
    ultimately show ?thesis using ve ds(2) kj by (auto simp: Let_def q_def)
  next
    case True
    define p1 where "p1 = p\<lparr>rpos := j, rread := rread p - 1\<rparr>"
    have e: "read_next str p = (EOF, p)" using True p(5) by (intro read_next_end) simp
    have bs: "base_step str b (schar (str ! j)) p = (b, 0x30, p1)"
      using True e p(5) b(2) by (auto simp: base_step_def read_back_def p1_def schar_zero EOF_def)
    define d1 where "d1 = \<lparr>dch = schar (str ! j), dreader = p, dcount = 1, dval = 0, derr = err\<rparr>"
    have "read_next str p1 = (schar (str ! j), p)"
      using read_next_in [OF ff, of p1] p(4,5) by (simp add: p1_def)
    moreover have "rread p1 < width" "(1 :: int) < width" using p w by (simp_all add: p1_def)
    ultimately have 1: "read_digits str width width b \<lparr>dch = 0x30, dreader = p1, dcount = 0, dval = 0, derr = err\<rparr> =
        read_digits str width width b d1"
      using b(2) by (subst read_digits.simps) (simp add: EOF_def digit_val_def d1_def Let_def)
    have "ds = [0x30]" using ds True drop_nth_Cons [OF p(4)] p(2) by (cases cs) (auto split: if_splits)
    then show ?thesis
      using bs 1 read_digits_run [OF ff b(2,3) p(4), of d1 width width err 0 ds] p w ds ve True kj
      by (auto simp: d1_def saturate_def Let_def q_def)
  qed
  then obtain ch' p' d where bs: "base_step str b (schar (str ! j)) p = (b, ch', p')"
    and d: "d = read_digits str width width b \<lparr>dch = ch', dreader = p', dcount = 0, dval = 0, derr = err\<rparr>"
      "dcount d > 0" "dch d = (if k < length str then schar (str ! k) else EOF)" "dval d = v" "derr d = e" "rpos (dreader d) = q"
      "rread (dreader d) = rread p + int (length ds) - (if k < length str then 0 else 1)"
    by (metis (no_types, lifting))
  have bk: "rpos (if dcount d > 0 \<and> dch d \<noteq> EOF then read_back (dreader d) else dreader d) = k"
      "rread (if dcount d > 0 \<and> dch d \<noteq> EOF then read_back (dreader d) else dreader d) = rread p + int (length ds) - 1"
    using d(2-7) not_EOF [OF ff] by (auto simp: q_def read_back_def)
  have kr: "rread r0 + (rread p + int (length ds) - 1) = rread r + int (k - rpos r)" using p(3,6,8) kj by simp
  obtain val er where c: "clamp spec neg v e = (val, er)" by force
  have dg: "(if b = 8 \<and> val = 0 then 1 else dcount d) > 0" using d(2) by simp
  show ?thesis
    unfolding input_int_def n Let_def case_prod_conv p(1) b(1) [symmetric] bs d(1) [symmetric] d(4,5) c ve fst_conv snd_conv bk kr
    using dg by (simp add: r0)
qed

lemma input_int_none:
  assumes ff: "0xFF \<notin> set str" and b: "b = uint (fmt_base spec)" "2 \<le> b" "b \<le> 36" "b \<noteq> 8"
    and sp: "sign_split (drop (rpos r) str) = (neg, cs)" and ds: "takeWhile (is_dig b) cs = []"
  shows "\<exists>r'. input_int str spec width r err = (r', err, None)"
proof -
  define j where "j = length str - length cs"
  obtain ch r0 where n: "read_next str r = (ch, r0)" by force
  define c where "c = (if cs = [] then EOF else schar (str ! j))"
  obtain p where p: "sign_step str ch (r0\<lparr>rread := 0\<rparr>) = (neg, c, p)" "drop j str = cs"
    using sign_step_split [OF ff n sp j_def] by (auto simp: c_def)
  have nd: "digit_val c < 0 \<or> b \<le> digit_val c \<or> c = EOF"
  proof (cases cs)
    case (Cons x xs)
    then have "str ! j = x" "\<not> is_dig b x" using drop_tail [of j str x xs] p(2) ds by (auto split: if_splits)
    then show ?thesis using Cons by (auto simp: c_def is_dig_def)
  qed (simp add: c_def)
  then have "c \<noteq> 0x30" using b(2) by (auto simp: digit_val_def EOF_def)
  then have bs: "base_step str b c p = (b, c, p)" using b(2) by (simp add: base_step_def)
  have "read_digits str width width b \<lparr>dch = c, dreader = p, dcount = 0, dval = 0, derr = err\<rparr> =
      \<lparr>dch = c, dreader = p, dcount = 0, dval = 0, derr = err\<rparr>"
    using nd by (subst read_digits.simps) (auto simp: Let_def)
  then show ?thesis
    unfolding input_int_def n Let_def case_prod_conv p(1) b(1) [symmetric] bs using b(4) by (simp add: clamp_zero)
qed

section \<open>The number parsers\<close>

text \<open>
  What \<^verbatim>\<open>strtol\<close> and its relatives read: the sign, the number, and the index behind it; nothing when there is no digit.
\<close>

definition strto_spec :: "int \<Rightarrow> byte list \<Rightarrow> (bool \<times> nat \<times> nat) option" where
  "strto_spec b str =
     (let cs = dropWhile is_space str; (neg, ds) = sign_split cs; digs = takeWhile (is_dig b) ds
      in if digs = [] then None else Some (neg, numeral_of b 0 digs, length str - length ds + length digs))"

lemma drop_spaces: "drop (length (takeWhile P xs)) xs = dropWhile P xs"
  by (induction xs) auto

lemma read_skip_start:
  "0xFF \<notin> set str \<Longrightarrow> \<exists>n. read_skip str \<lparr>rpos = 0, rread = 0\<rparr> = \<lparr>rpos = n, rread = int n\<rparr> \<and> drop n str = dropWhile is_space str"
  using read_skip_spaces [of str "\<lparr>rpos = 0, rread = 0\<rparr>"] drop_spaces by simp blast

lemma strto_int_spec:
  assumes "0xFF \<notin> set str" "int (length str) + 1 < INT_MAX" "2 \<le> b" "b \<le> 36" "b \<noteq> 8" "b \<noteq> 16"
    "spec = fmt_set_length (if usig then of_int b else fmt_add (of_int b) FMT_sign) len" "uint (fmt_base spec) = b"
  shows "strto_int len usig str b =
    (case strto_spec b str of None \<Rightarrow> (0, 0, None)
     | Some (neg, n, k) \<Rightarrow> (case clamp spec neg (fst (saturate None n)) (snd (saturate None n)) of (v, e) \<Rightarrow> (v, k, e)))"
proof -
  obtain i where i: "read_skip str \<lparr>rpos = 0, rread = 0\<rparr> = \<lparr>rpos = i, rread = int i\<rparr>" "drop i str = dropWhile is_space str"
    using read_skip_start [OF assms(1)] by blast
  obtain neg cs where sp: "sign_split (drop (rpos \<lparr>rpos = i, rread = int i\<rparr>) str) = (neg, cs)" by force
  define ds where "ds = takeWhile (is_dig b) cs"
  show ?thesis
  proof (cases "ds = []")
    case True
    obtain r' where "input_int str spec INT_MAX \<lparr>rpos = i, rread = int i\<rparr> None = (r', None, None)"
      using input_int_none [OF assms(1) assms(8) [symmetric] assms(3-5) sp True [unfolded ds_def], of INT_MAX None] by blast
    then show ?thesis using assms(3,4) True sp i
      by (simp add: strto_int_def Let_def assms(7) [symmetric] strto_spec_def ds_def [symmetric])
  next
    case False
    note r = input_int_digits [OF assms(1,2) assms(8) [symmetric] assms(3,4) sp ds_def False _ refl, of None]
    show ?thesis using assms(3,4,6) False sp i r
      by (simp add: strto_int_def Let_def assms(7) [symmetric] strto_spec_def ds_def [symmetric] case_prod_beta)
  qed
qed

lemma signed_ten: "uint (fmt_base (fmt_set_length (fmt_add 10 FMT_sign) 3)) = 10" "fmt_base (fmt_set_length (fmt_add 10 FMT_sign) 3) = FMT_dec"
  "fmt_has (fmt_set_length (fmt_add 10 FMT_sign) 3) FMT_sign" "fmt_length (fmt_set_length (fmt_add 10 FMT_sign) 3) = 3"
  by code_simp+

lemma sint_of_int64: "- (2 ^ 63) \<le> x \<Longrightarrow> x < 2 ^ 63 \<Longrightarrow> sint (of_int x :: u64) = x"
  by (simp add: int_word_sint)

lemma clamp_long:
  assumes "clamp (fmt_set_length (fmt_add 10 FMT_sign) 3) neg (fst (saturate None n)) (snd (saturate None n)) = (v, e)"
    "z = (if neg then - int n else int n)"
  shows "sint v = max (- (2 ^ 63)) (min (2 ^ 63 - 1) z) \<and> e = (if - (2 ^ 63) \<le> z \<and> z < 2 ^ 63 then None else Some ERANGE)"
proof -
  define w where "w = fst (saturate None n)"
  have lt: "of_nat k < w \<longleftrightarrow> k < n" if "k \<le> 2 ^ 63" for k
  proof -
    have k: "unat (of_nat k :: u64) = k" using that by (simp add: unsigned_of_nat take_bit_nat_eq_self)
    have "unat w = (if n < 2 ^ 64 then n else 2 ^ 64 - 1)"
      by (simp add: w_def saturate_def unsigned_of_nat take_bit_nat_eq_self unsigned_minus_1_eq_mask mask_eq_exp_minus_1)
    then show ?thesis using that unfolding word_less_nat_alt k by auto
  qed
  have w: "w = of_nat n" "snd (saturate None n) = None" if "n \<le> 2 ^ 63" using that by (simp_all add: w_def saturate_def)
  have L: "length_bits 3 - 1 = 63" by (simp add: length_bits_def)
  have "(if neg \<and> 2 ^ 63 < n then (of_int (- (2 ^ 63)), Some ERANGE)
      else if \<not> neg \<and> 2 ^ 63 - 1 < n then (of_nat (2 ^ 63 - 1), Some ERANGE)
      else if neg then (- w, snd (saturate None n)) else (w, snd (saturate None n))) = (v, e)"
    using assms(1) lt [of "2 ^ 63"] lt [of "2 ^ 63 - 1"] unfolding clamp_def Let_def signed_ten w_def [symmetric] L
    by (simp only: simp_thms if_True signed_ten diff_le_self)
  then have c: "(v, e) = (if neg \<and> 2 ^ 63 < n then (of_int (- (2 ^ 63)), Some ERANGE)
      else if \<not> neg \<and> 2 ^ 63 - 1 < n then (of_nat (2 ^ 63 - 1), Some ERANGE)
      else if neg then (- w, snd (saturate None n)) else (w, snd (saturate None n)))" by (rule sym)
  consider "neg" "2 ^ 63 < n" | "\<not> neg" "2 ^ 63 - 1 < n" | "neg" "n \<le> 2 ^ 63" | "\<not> neg" "n \<le> 2 ^ 63 - 1" by linarith
  then show ?thesis
  proof cases
    case 1
    then show ?thesis using c assms(2) sint_of_int64 [of "- (2 ^ 63)"] by simp
  next
    case 2
    then show ?thesis using c assms(2) sint_of_int64 [of "2 ^ 63 - 1"] by simp
  next
    case 3
    then have "v = of_int (- int n)" "e = None" using c w by simp_all
    then show ?thesis using 3 assms(2) sint_of_int64 [of "- int n"] by simp
  next
    case 4
    then have "v = of_int (int n)" "e = None" using c w by simp_all
    then show ?thesis using 4 assms(2) sint_of_int64 [of "int n"] by simp
  qed
qed

lemma strtol_value:
  assumes "0xFF \<notin> set str" "int (length str) + 1 < INT_MAX"
  shows "strtol str 10 =
    (case strto_spec 10 str of None \<Rightarrow> (0, 0, None)
     | Some (neg, n, k) \<Rightarrow>
         let z = (if neg then - int n else int n)
         in (max (- (2 ^ 63)) (min (2 ^ 63 - 1) z), k, if - (2 ^ 63) \<le> z \<and> z < 2 ^ 63 then None else Some ERANGE))"
proof (cases "strto_spec 10 str")
  case None
  then show ?thesis using strto_int_spec [OF assms, of 10 _ False 3] signed_ten by (simp add: strtol_def)
next
  case (Some x)
  obtain neg n k where x: "x = (neg, n, k)" by (cases x)
  obtain v e where c: "clamp (fmt_set_length (fmt_add 10 FMT_sign) 3) neg (fst (saturate None n)) (snd (saturate None n)) = (v, e)" by force
  then have "strtol str 10 = (sint v, k, e)"
    using strto_int_spec [OF assms, of 10 "fmt_set_length (fmt_add 10 FMT_sign) 3" False 3] signed_ten Some x by (simp add: strtol_def)
  then show ?thesis using clamp_long [OF c refl] Some x by (simp add: Let_def)
qed

text \<open>
  C22: on a string without the byte \<open>0xFF\<close> and shorter than \<^verbatim>\<open>INT_MAX - 1\<close>, \<^verbatim>\<open>strtol\<close> in base 10 skips white space, takes an optional sign and the longest run of digits, and returns their value clamped
  to the range of \<^verbatim>\<open>long\<close>, with \<^verbatim>\<open>ERANGE\<close> exactly when it does not fit; without digits it returns \<open>0\<close> and points to the start.
\<close>

theorem strtol_decimal:
  assumes "0xFF \<notin> set str" "int (length str) + 1 < INT_MAX"
  shows "strtol str 10 =
    (case strto_spec 10 str of None \<Rightarrow> (0, 0, None)
     | Some (neg, n, k) \<Rightarrow>
         let z = (if neg then - int n else int n)
         in (max (- (2 ^ 63)) (min (2 ^ 63 - 1) z), k, if - (2 ^ 63) \<le> z \<and> z < 2 ^ 63 then None else Some ERANGE))"
  by (rule strtol_value [OF assms])

theorem strtol_decimal_witness:
  "strtol [0x20, 0x2D, 0x34, 0x32, 0x61] 10 = (- 42, 4, None)"
proof -
  have "strto_spec 10 [0x20, 0x2D, 0x34, 0x32, 0x61] = Some (True, 42, 4)" by code_simp
  moreover have "(0xFF :: byte) \<notin> set [0x20, 0x2D, 0x34, 0x32, 0x61]" "int (length [0x20, 0x2D, 0x34, 0x32, 0x61 :: byte]) + 1 < INT_MAX"
    by (simp_all add: INT_MAX_def)
  ultimately show ?thesis using strtol_decimal [of "[0x20, 0x2D, 0x34, 0x32, 0x61]"] by simp
qed

section \<open>Printing and parsing\<close>

lemma digit_char_facts:
  assumes "d < 16"
  shows "digit_val (schar (digit_char up d)) = int d" "\<not> is_space (digit_char up d)"
    "digit_char up d \<notin> {0x2D, 0x2B, 0x78, 0x58, 0xFF, 0x2E, 0x3A, 0x25, 0}" "digit_char up d = 0x30 \<longleftrightarrow> d = 0"
proof -
  have "\<forall>up. \<forall>d \<in> set [0..<16]. digit_val (schar (digit_char up d)) = int d \<and> \<not> is_space (digit_char up d) \<and>
      digit_char up d \<notin> set [0x2D, 0x2B, 0x78, 0x58, 0xFF, 0x2E, 0x3A, 0x25, 0] \<and> (digit_char up d = 0x30 \<longleftrightarrow> d = 0)"
    by code_simp
  then have "digit_val (schar (digit_char up d)) = int d \<and> \<not> is_space (digit_char up d) \<and>
      digit_char up d \<notin> set [0x2D, 0x2B, 0x78, 0x58, 0xFF, 0x2E, 0x3A, 0x25, 0] \<and> (digit_char up d = 0x30 \<longleftrightarrow> d = 0)"
    using assms by (metis (no_types) atLeastLessThan_iff set_upt zero_le)
  then show "digit_val (schar (digit_char up d)) = int d" "\<not> is_space (digit_char up d)"
    "digit_char up d \<notin> {0x2D, 0x2B, 0x78, 0x58, 0xFF, 0x2E, 0x3A, 0x25, 0}" "digit_char up d = 0x30 \<longleftrightarrow> d = 0" by simp_all
qed

lemma radix_not_Nil [simp]: "radix b n \<noteq> []"
  by (subst radix.simps) simp

text \<open>The digits of a number, read back.\<close>

lemma radix_chars:
  assumes "2 \<le> b" "b \<le> 16" "c \<in> set (map (digit_char up) (radix b n))"
  shows "is_dig (int b) c" "\<not> is_space c" "c \<notin> {0x2D, 0x2B, 0x78, 0x58, 0xFF, 0x2E, 0x3A, 0x25, 0}"
proof -
  obtain d where d: "c = digit_char up d" "d \<in> set (radix b n)" using assms(3) by auto
  then have "d < b" "d < 16" using radix_less [OF assms(1)] assms(2) by fastforce+
  then show "is_dig (int b) c" "\<not> is_space c" "c \<notin> {0x2D, 0x2B, 0x78, 0x58, 0xFF, 0x2E, 0x3A, 0x25, 0}"
    using digit_char_facts [of d up] d(1) by (auto simp: is_dig_def)
qed

lemma numeral_radix:
  assumes "2 \<le> b" "b \<le> 16"
  shows "numeral_of (int b) 0 (map (digit_char up) (radix b n)) = n"
  using assms
proof (induction b n rule: radix.induct)
  case (1 b n)
  show ?case
  proof (cases "n < b")
    case True
    then show ?thesis using 1 digit_char_facts(1) [of n up] by (simp add: radix_small numeral_of_def)
  next
    case False
    have "n mod b < 16" using 1(2,3) mod_less_divisor [of b n] by linarith
    moreover have "numeral_of (int b) 0 (map (digit_char up) (radix b (n div b))) = n div b" using 1 False by simp
    ultimately show ?thesis using 1 False radix_step [of b n] digit_char_facts(1) [of "n mod b" up] by (simp add: numeral_of_def)
  qed
qed

lemma takeWhile_digits:
  assumes "2 \<le> b" "b \<le> 16" "rest = [] \<or> \<not> is_dig (int b) (hd rest)"
  shows "takeWhile (is_dig (int b)) (map (digit_char up) (radix b n) @ rest) = map (digit_char up) (radix b n)"
proof -
  have "takeWhile (is_dig (int b)) rest = []" using assms(3) by (cases rest) auto
  moreover have "x \<in> set (map (digit_char up) (radix b n)) \<Longrightarrow> is_dig (int b) x" for x
    using radix_chars(1) [OF assms(1,2)] by blast
  ultimately show ?thesis using takeWhile_append2 [of "map (digit_char up) (radix b n)" "is_dig (int b)" rest] by simp
qed

lemma radix_head:
  assumes "2 \<le> b" "b \<le> 16"
  shows "\<exists>c cs. map (digit_char up) (radix b n) @ rest = c # cs \<and> \<not> is_space c \<and> c \<noteq> 0x2D \<and> c \<noteq> 0x2B"
proof -
  obtain c cs where "map (digit_char up) (radix b n) = c # cs" by (cases "map (digit_char up) (radix b n)") auto
  moreover from this have "c \<in> set (map (digit_char up) (radix b n))" by (metis list.set_intros(1))
  ultimately show ?thesis using radix_chars(2,3) [OF assms] by (metis append_Cons insertCI)
qed

lemma strto_spec_radix:
  assumes "2 \<le> b" "b \<le> 16" "rest = [] \<or> \<not> is_dig (int b) (hd rest)"
  shows "strto_spec (int b) ((if neg then [0x2D] else []) @ map (digit_char up) (radix b n) @ rest) =
    Some (neg, n, length (if neg then [0x2D :: byte] else []) + length (radix b n))"
proof -
  obtain c cs where c: "map (digit_char up) (radix b n) @ rest = c # cs" "\<not> is_space c" "c \<noteq> 0x2D" "c \<noteq> 0x2B"
    using radix_head [OF assms(1,2)] by blast
  have m: "\<not> is_space 0x2D" by code_simp
  have t: "takeWhile (is_dig (int b)) (c # cs) = map (digit_char up) (radix b n)" using takeWhile_digits [OF assms, of up n] c(1) by simp
  have l: "length (c # cs) = length (radix b n) + length rest" using c(1) by (metis length_append length_map)
  note u = numeral_radix [OF assms(1,2), of up n]
  show ?thesis unfolding c(1) strto_spec_def Let_def
    using c(2-4) m t u l by (cases neg) (simp_all add: sign_split_def del: takeWhile.simps)
qed

lemma int_text_plain:
  assumes "\<not> fmt_has sp FMT_left" "\<not> fmt_has sp FMT_zpad" "\<not> fmt_has sp FMT_plus" "\<not> fmt_has sp FMT_spad" "\<not> fmt_has sp FMT_pref"
    "fmt_has sp FMT_sign \<or> 0 \<le> v"
  shows "int_text sp v (- 1) 0 = (if v < 0 then [0x2D] else []) @ map (digit_char (fmt_has sp FMT_upper)) (radix (base_of sp) (nat \<bar>v\<bar>))"
  using assms by (auto simp: int_text_def pad_text_def sign_text_def prefix_text_def digits_text_def Let_def)

text \<open>The specification of \<^verbatim>\<open>%ld\<close>, and that of \<^verbatim>\<open>%d\<close>.\<close>

lemma spec_ld: "spec_printf ap [0x6C, 0x64] = Some (\<lparr>cspec = 704, cprec = - 1, cwidth = 0, ctype = 0x64\<rparr>, [0x64], ap)"
  "spec_printf ap [0x64] = Some (\<lparr>cspec = 512, cprec = - 1, cwidth = 0, ctype = 0x64\<rparr>, [0x64], ap)"
  by (simp_all add: spec_printf_def spec_value_def spec_prec_def spec_length_def cur_def fmt_add_def FMT_sign_def INT_MAX_def)

lemma spec_ld_flags:
  "fmt_has 704 FMT_sign" "fmt_has 714 FMT_sign" "fmt_length 704 = 3" "fmt_set_base 704 FMT_dec = 714" "base_of 714 = 10"
  "\<not> fmt_has 714 FMT_left" "\<not> fmt_has 714 FMT_zpad" "\<not> fmt_has 714 FMT_plus" "\<not> fmt_has 714 FMT_spad" "\<not> fmt_has 714 FMT_pref"
  "fmt_has 512 FMT_sign" "fmt_has 522 FMT_sign" "fmt_length 512 = 0" "fmt_set_base 512 FMT_dec = 522" "base_of 522 = 10"
  "\<not> fmt_has 522 FMT_left" "\<not> fmt_has 522 FMT_zpad" "\<not> fmt_has 522 FMT_plus" "\<not> fmt_has 522 FMT_spad" "\<not> fmt_has 522 FMT_pref"
  by code_simp+

definition dec_text :: "int \<Rightarrow> byte list" where
  "dec_text v = (if v < 0 then [0x2D] else []) @ map (digit_char False) (radix 10 (nat \<bar>v\<bar>))"


lemma dec_text_chars: "c \<in> set (dec_text v) \<Longrightarrow> c \<noteq> 0xFF"
  using radix_chars(3) [of 10 c False "nat \<bar>v\<bar>"] by (auto simp: dec_text_def split: if_splits)

lemma dec_text_length: "\<bar>v\<bar> < 2 ^ 64 \<Longrightarrow> length (dec_text v) \<le> 65"
proof -
  assume "\<bar>v\<bar> < 2 ^ 64"
  then have "nat \<bar>v\<bar> < 2 ^ 64" by (simp add: nat_less_iff)
  then have "length (radix 10 (nat \<bar>v\<bar>)) \<le> 64" using radix_length [of 10 "nat \<bar>v\<bar>" 64] by simp
  then show ?thesis by (auto simp: dec_text_def)
qed

lemma dec_text_spec: "strto_spec 10 (dec_text v) = Some (v < 0, nat \<bar>v\<bar>, length (dec_text v))"
  using strto_spec_radix [of 10 "[]" "v < 0" False "nat \<bar>v\<bar>"] by (simp add: dec_text_def)

lemma plain_dec_text:
  "int_text 714 v (- 1) 0 = dec_text v" "int_text 522 v (- 1) 0 = dec_text v"
proof -
  have "\<not> fmt_has 714 FMT_upper" "\<not> fmt_has 522 FMT_upper" by code_simp+
  then show "int_text 714 v (- 1) 0 = dec_text v" "int_text 522 v (- 1) 0 = dec_text v"
    using int_text_plain [of 714 v] int_text_plain [of 522 v] by (simp_all add: spec_ld_flags dec_text_def)
qed

lemma ld_text: "printf_text 0 [0x25, 0x6C, 0x64] [ANum w] = Some (dec_text (sint w), [], [])"
proof -
  have "conv_text \<lparr>cspec = 704, cprec = - 1, cwidth = 0, ctype = 0x64\<rparr> 0 [ANum w] = Some (dec_text (sint w), [], [])"
    by (simp add: conv_text_def get_signed_def va_num_def spec_ld_flags plain_dec_text int_value_def Let_def)
  moreover have "printf_text k [] [] = Some ([], [], [])" for k by (subst printf_text.simps) simp
  ultimately show ?thesis by (subst printf_text.simps) (simp add: spec_ld cur_def)
qed

lemma d_text: "printf_text 0 [0x25, 0x64] [ANum w] = Some (dec_text (sint (ucast w :: u32)), [], [])"
proof -
  have "sint (scast (ucast w :: u32) :: u64) = sint (ucast w :: u32)" by (rule sint_up_scast) (simp add: is_up)
  then have "conv_text \<lparr>cspec = 512, cprec = - 1, cwidth = 0, ctype = 0x64\<rparr> 0 [ANum w] = Some (dec_text (sint (ucast w :: u32)), [], [])"
    by (simp add: conv_text_def get_signed_def va_num_def spec_ld_flags plain_dec_text int_value_def Let_def)
  moreover have "printf_text k [] [] = Some ([], [], [])" for k by (subst printf_text.simps) simp
  ultimately show ?thesis by (subst printf_text.simps) (simp add: spec_ld cur_def)
qed

text \<open>
  C15: printing any \<^verbatim>\<open>long\<close> with \<^verbatim>\<open>%ld\<close> and parsing the text with \<^verbatim>\<open>strtol\<close> in base 10 gives the number back, consumes the whole
  text and reports no error.
\<close>

theorem print_parse_round_trip:
  "\<exists>s t. vfprintf [] (Some [0x25, 0x6C, 0x64]) [ANum w] = Some (s, int (length t)) \<and> wstream s = Some t \<and>
    strtol t 10 = (sint w, length t, None)"
proof -
  define v where "v = sint w"
  have v: "- (2 ^ 63) \<le> v" "v < 2 ^ 63" using sint_range_size [of w] by (simp_all add: word_size v_def)
  have "0xFF \<notin> set (dec_text v)" using dec_text_chars by blast
  moreover have "length (dec_text v) \<le> 65" using dec_text_length [of v] v by simp
  then have "int (length (dec_text v)) + 1 < INT_MAX" by (simp add: INT_MAX_def)
  ultimately have "strtol (dec_text v) 10 = (v, length (dec_text v), None)"
    using strtol_value [of "dec_text v"] dec_text_spec [of v] v by (simp add: Let_def)
  then show ?thesis unfolding vfprintf_text ld_text v_def [symmetric] by simp
qed

lemma scan_d: "spec_scanf [0x64] = Some (16896, 0, 0x64, [0x64])"
  by (simp add: spec_scanf_def spec_length_def cur_def fmt_add_def FMT_sign_def FMT_spad_def)

lemma scan_d_flags:
  "fmt_set_base 16896 FMT_dec = 16906" "\<not> fmt_has 16906 FMT_left" "\<not> fmt_has 16896 FMT_left" "uint (fmt_base 16906) = 10"
  "fmt_base 16906 = FMT_dec" "fmt_has 16906 FMT_sign" "fmt_length 16906 = 0" "store_size 16906 = 4" "known_type 0x64"
  by code_simp+

lemma clamp_int:
  assumes "- (2 ^ 31) \<le> v" "v < 2 ^ 31"
  shows "clamp 16906 (v < 0) (fst (saturate err (nat \<bar>v\<bar>))) (snd (saturate err (nat \<bar>v\<bar>))) = (of_int v, err)"
proof -
  define n where "n = nat \<bar>v\<bar>"
  have n: "n \<le> 2 ^ 31" "\<not> v < 0 \<Longrightarrow> n \<le> 2 ^ 31 - 1" using assms by (auto simp: n_def)
  have s: "saturate err n = (of_nat n, err)" using n(1) by (simp add: saturate_def)
  have lt: "\<not> (of_nat k :: u64) < of_nat n" if "n \<le> k" "k \<le> 2 ^ 31" for k
    using that n(1) by (simp add: word_less_nat_alt unsigned_of_nat take_bit_nat_eq_self)
  have L: "length_bits 0 - 1 = 31" by (simp add: length_bits_def)
  have v: "(of_int v :: u64) = (if v < 0 then - of_nat n else of_nat n)" by (simp add: n_def)
  show ?thesis unfolding n_def [symmetric] s clamp_def Let_def scan_d_flags L fst_conv snd_conv v
    using lt [of "2 ^ 31"] lt [of "2 ^ 31 - 1"] n by auto
qed

lemma le_bytes4: "le_bytes 4 v = [ucast v, ucast (drop_bit 8 v), ucast (drop_bit 16 v), ucast (drop_bit 24 v)]"
  by (simp add: numeral_eq_Suc)

lemma le_bytes_sign: "le_bytes 4 (of_int (sint (ucast w :: u32))) = le_bytes 4 w"
proof -
  have "bit (of_int (sint (ucast w :: u32)) :: u64) n = bit w n" if "n < 32" for n
  proof -
    have "(of_int (sint (ucast w :: u32)) :: u64) = scast (ucast w :: u32)" by simp
    then show ?thesis using that by (simp add: bit_simps)
  qed
  then show ?thesis unfolding le_bytes4 by (auto intro!: bit_word_eqI simp: bit_simps)
qed

lemma scanf_dec:
  assumes "- (2 ^ 31) \<le> v" "v < 2 ^ 31"
  shows "\<exists>b. vsscanf m (dec_text v) [0x25, 0x64] [ANum p] = Some (b, 1) \<and> smem b = wr m (unat p) (le_bytes 4 (of_int v))"
proof -
  define str where "str = dec_text v"
  define r0 where "r0 = \<lparr>rpos = 0, rread = 0\<rparr>"
  have ff: "0xFF \<notin> set str" using dec_text_chars by (auto simp: str_def)
  have "length str \<le> 65" using dec_text_length [of v] assms by (simp add: str_def)
  then have w: "int (length str) + 1 < INT_MAX" by (simp add: INT_MAX_def)
  have sp: "strto_spec 10 str = Some (v < 0, nat \<bar>v\<bar>, length str)" using dec_text_spec by (simp add: str_def)
  have ns: "dropWhile is_space str = str"
  proof -
    have "\<not> is_space 0x2D" by code_simp
    then show ?thesis using radix_head [of 10 False "nat \<bar>v\<bar>" "[]"] by (auto simp: str_def dec_text_def)
  qed
  have sk: "read_skip str r0 = r0"
  proof -
    have "takeWhile is_space str = []" using ns by (metis append_self_conv2 takeWhile_dropWhile_id)
    then show ?thesis using read_skip_spaces [OF ff, of r0] by (simp add: r0_def)
  qed
  obtain neg cs where cs: "sign_split str = (neg, cs)" by force
  define ds where "ds = takeWhile (is_dig 10) cs"
  have ds: "ds \<noteq> []" "neg = (v < 0)" "numeral_of 10 0 ds = nat \<bar>v\<bar>" "length str - length cs + length ds = length str"
    using sp cs ns by (auto simp: strto_spec_def ds_def Let_def split: if_splits)
  have i: "\<exists>r'. input_int str 16906 INT_MAX r0 None = (r', None, Some (of_int v))"
    using input_int_digits [OF ff w _ _ _ _ ds_def ds(1) _ refl, of 16906 r0 neg None] cs ds scan_d_flags(4) clamp_int [OF assms, of None]
    by (auto simp: r0_def)
  then obtain r' where r': "input_int str 16906 INT_MAX r0 None = (r', None, Some (of_int v))" by blast
  have e: "scanf_loop str s c mt [] ap = Some (s, c)" for s c mt ap by (subst scanf_loop.simps) simp
  show ?thesis unfolding vsscanf_def str_def [symmetric] r0_def [symmetric]
    by (subst scanf_loop.simps)
      (simp add: scan_d scan_d_flags scanf_conv_def scanf_base_def sk r' set_num_def va_num_def e Let_def)
qed

text \<open>
  Printing any \<^verbatim>\<open>int\<close> with \<^verbatim>\<open>%d\<close> and scanning the text with \<^verbatim>\<open>%d\<close> stores the same four bytes at the argument, changes nothing
  else in memory and returns one assignment.
\<close>

theorem print_scan_round_trip:
  "\<exists>s t b. vfprintf [] (Some [0x25, 0x64]) [ANum w] = Some (s, int (length t)) \<and> wstream s = Some t \<and>
    vsscanf m t [0x25, 0x64] [ANum p] = Some (b, 1) \<and> smem b = wr m (unat p) (le_bytes 4 w)"
proof -
  define v where "v = sint (ucast w :: u32)"
  have v: "- (2 ^ 31) \<le> v" "v < 2 ^ 31" using sint_range_size [of "ucast w :: u32"] by (simp_all add: word_size v_def)
  obtain b where "vsscanf m (dec_text v) [0x25, 0x64] [ANum p] = Some (b, 1)" "smem b = wr m (unat p) (le_bytes 4 (of_int v))"
    using scanf_dec [OF v] by blast
  moreover have "le_bytes 4 (of_int v) = le_bytes 4 w" unfolding v_def by (rule le_bytes_sign)
  ultimately show ?thesis unfolding vfprintf_text d_text v_def [symmetric] by auto
qed

section \<open>Deviations from the standard\<close>

text \<open>In base 0 the character behind a single zero is swallowed: from \<^verbatim>\<open>0,5\<close> the end pointer is set behind the comma.\<close>

lemma strtol_swallows: "strtol [0x30, 0x2C, 0x35] 0 = (0, 2, None)"
proof -
  have 1: "read_skip [0x30, 0x2C, 0x35] \<lparr>rpos = 0, rread = 0\<rparr> = \<lparr>rpos = 0, rread = 0\<rparr>"
    "read_next [0x30, 0x2C, 0x35] \<lparr>rpos = 0, rread = 0\<rparr> = (48, \<lparr>rpos = 1, rread = 1\<rparr>)"
    "sign_step [0x30, 0x2C, 0x35] 48 \<lparr>rpos = 1, rread = 0\<rparr> = (False, 48, \<lparr>rpos = 1, rread = 0\<rparr>)"
    "base_step [0x30, 0x2C, 0x35] 0 48 \<lparr>rpos = 1, rread = 0\<rparr> = (8, 44, \<lparr>rpos = 2, rread = 1\<rparr>)"
    "uint (fmt_base (fmt_set_length (fmt_add 0 FMT_sign) 3)) = 0" by code_simp+
  have 2: "read_digits [0x30, 0x2C, 0x35] INT_MAX INT_MAX 8 \<lparr>dch = 44, dreader = p, dcount = 0, dval = 0, derr = None\<rparr> =
      \<lparr>dch = 44, dreader = p, dcount = 0, dval = 0, derr = None\<rparr>" for p
    by (subst read_digits.simps) (simp add: digit_val_def)
  show ?thesis using 1(3,4) by (simp add: strtol_def strto_int_def input_int_def 1 2 clamp_zero)
qed

text \<open>In base 8 a string without digits is accepted as 0, and its first character swallowed.\<close>

lemma strtol_octal_accepts: "strtol [0x78, 0x79] 8 = (0, 1, None)"
proof -
  have 1: "read_skip [0x78, 0x79] \<lparr>rpos = 0, rread = 0\<rparr> = \<lparr>rpos = 0, rread = 0\<rparr>"
    "read_next [0x78, 0x79] \<lparr>rpos = 0, rread = 0\<rparr> = (120, \<lparr>rpos = 1, rread = 1\<rparr>)"
    "sign_step [0x78, 0x79] 120 \<lparr>rpos = 1, rread = 0\<rparr> = (False, 120, \<lparr>rpos = 1, rread = 0\<rparr>)"
    "base_step [0x78, 0x79] 8 120 \<lparr>rpos = 1, rread = 0\<rparr> = (8, 120, \<lparr>rpos = 1, rread = 0\<rparr>)"
    "uint (fmt_base (fmt_set_length (fmt_add 8 FMT_sign) 3)) = 8" by code_simp+
  have 2: "read_digits [0x78, 0x79] INT_MAX INT_MAX 8 \<lparr>dch = 120, dreader = p, dcount = 0, dval = 0, derr = None\<rparr> =
      \<lparr>dch = 120, dreader = p, dcount = 0, dval = 0, derr = None\<rparr>" for p
    by (subst read_digits.simps) (simp add: digit_val_def)
  show ?thesis using 1(3,4) by (simp add: strtol_def strto_int_def input_int_def 1 2 clamp_zero)
qed

text \<open>A character named twice in a bracket expression is taken out of the set again.\<close>

lemma bracket_flips: "bitflip c (bitflip c cset) = cset"
  by (auto simp: bitflip_def)

text \<open>A range that ends at \<open>0xFF\<close> never ends.\<close>

lemma range_diverges: "a \<le> 0xFF \<Longrightarrow> a \<noteq> 0 \<Longrightarrow> a \<noteq> 0x5D \<Longrightarrow> charset_loop cset (a # 0x2D # 0xFF # fmt) = None"
  by (subst charset_loop.simps) (simp add: cur_def Let_def)

text \<open>\<^verbatim>\<open>%c\<close> at the end of the input stores nothing and reports success.\<close>

lemma char_at_end: "\<not> fmt_has spec FMT_spad \<Longrightarrow> input_str [] spec 1 buf s = (s, True)"
proof -
  assume a: "\<not> fmt_has spec FMT_spad"
  have "str_loop [] False 1 buf 0 (smem s) (sread s) = (0, smem s, sread s)" by (subst str_loop.simps) (simp add: read_next_end)
  then show ?thesis using a by (simp add: input_str_def)
qed

end
