(* ===== verification/Inet.thy ===== *)
theory Inet
  imports Ctype Scan
begin

text \<open>
  Internet addresses (\<^verbatim>\<open>include/net/inet.h\<close>): the class and scope tests, and the conversions between addresses and text, on top
  of \<^verbatim>\<open>strtoul\<close>, \<^verbatim>\<open>sscanf\<close> and \<^verbatim>\<open>snprintf\<close>.  A source string is the list of its characters before the terminator; an
  access outside of an array has no result (\<open>None\<close>).
\<close>

unbundle bit_operations_syntax

section \<open>Tests\<close>

definition IN_CLASSA :: "u32 \<Rightarrow> bool" where "IN_CLASSA a \<longleftrightarrow> a AND 0x80000000 = 0"
definition IN_CLASSB :: "u32 \<Rightarrow> bool" where "IN_CLASSB a \<longleftrightarrow> a AND 0xc0000000 = 0x80000000"
definition IN_CLASSC :: "u32 \<Rightarrow> bool" where "IN_CLASSC a \<longleftrightarrow> a AND 0xe0000000 = 0xc0000000"
definition IN_CLASSD :: "u32 \<Rightarrow> bool" where "IN_CLASSD a \<longleftrightarrow> a AND 0xf0000000 = 0xe0000000"
definition IN_CLASSE :: "u32 \<Rightarrow> bool" where "IN_CLASSE a \<longleftrightarrow> a AND 0xf8000000 = 0xf0000000"
definition IN_LOOPBACK :: "u32 \<Rightarrow> bool" where "IN_LOOPBACK a \<longleftrightarrow> a AND 0xff000000 = 0x7f000000"

text \<open>An IPv6 address is the list of its 16 bytes; a test of a 32-bit word against zero tests its four bytes.\<close>

definition word_zero :: "byte list \<Rightarrow> nat \<Rightarrow> bool" where
  "word_zero a i \<longleftrightarrow> a ! (4 * i) = 0 \<and> a ! (4 * i + 1) = 0 \<and> a ! (4 * i + 2) = 0 \<and> a ! (4 * i + 3) = 0"

definition IN6_IS_ADDR_UNSPECIFIED :: "byte list \<Rightarrow> bool" where
  "IN6_IS_ADDR_UNSPECIFIED a \<longleftrightarrow> word_zero a 0 \<and> word_zero a 1 \<and> word_zero a 2 \<and> word_zero a 3"

definition IN6_IS_ADDR_LOOPBACK :: "byte list \<Rightarrow> bool" where
  "IN6_IS_ADDR_LOOPBACK a \<longleftrightarrow> a ! 12 = 0 \<and> a ! 13 = 0 \<and> a ! 14 = 0 \<and> a ! 15 = 1"

definition IN6_IS_ADDR_MULTICAST :: "byte list \<Rightarrow> bool" where "IN6_IS_ADDR_MULTICAST a \<longleftrightarrow> a ! 0 = 0xff"

definition IN6_IS_ADDR_LINKLOCAL :: "byte list \<Rightarrow> bool" where
  "IN6_IS_ADDR_LINKLOCAL a \<longleftrightarrow> a ! 0 = 0xfe \<and> a ! 1 AND 0xc0 = 0x80"

definition IN6_IS_ADDR_SITELOCAL :: "byte list \<Rightarrow> bool" where
  "IN6_IS_ADDR_SITELOCAL a \<longleftrightarrow> a ! 0 = 0xfe \<and> a ! 1 AND 0xc0 = 0xc0"

definition IN6_IS_ADDR_V4MAPPED :: "byte list \<Rightarrow> bool" where
  "IN6_IS_ADDR_V4MAPPED a \<longleftrightarrow> a ! 10 = 0xff \<and> a ! 11 = 0xff \<and> word_zero a 0 \<and> word_zero a 1"

definition IN6_IS_ADDR_V4COMPAT :: "byte list \<Rightarrow> bool" where
  "IN6_IS_ADDR_V4COMPAT a \<longleftrightarrow> word_zero a 0 \<and> word_zero a 1 \<and> word_zero a 2 \<and>
     \<not> (a ! 12 = 0 \<and> a ! 13 = 0 \<and> a ! 14 = 0 \<and> a ! 15 = 0) \<and> \<not> (a ! 12 = 0 \<and> a ! 13 = 0 \<and> a ! 14 = 0 \<and> a ! 15 = 1)"

definition IN6_IS_ADDR_MC :: "byte \<Rightarrow> byte list \<Rightarrow> bool" where
  "IN6_IS_ADDR_MC scope a \<longleftrightarrow> a ! 1 = scope"

section \<open>Text to address\<close>

function pton_ip4_loop :: "nat \<Rightarrow> byte list \<Rightarrow> byte list \<Rightarrow> int \<times> byte list" where
  "pton_ip4_loop i src t =
     (if i < 4 then
        let (v, e, _) = strtoul src 10 in
        if e = 0 \<or> cur (drop e src) \<noteq> (if i < 3 then 0x2E else 0) \<or> v > 255 then (0, t)
        else pton_ip4_loop (i + 1) (drop (e + 1) src) (t[i := ucast v])
      else (1, t))"
  by pat_completeness auto
termination by (relation "measure (\<lambda>(i, src, t). 4 - i)") auto

declare pton_ip4_loop.simps [simp del]

definition pton_ip4 :: "byte list \<Rightarrow> byte list \<Rightarrow> int \<times> byte list" where
  "pton_ip4 src dst = pton_ip4_loop 0 src dst"

text \<open>The four numbers of an embedded IPv4 address; the locals \<open>a\<close> to \<open>d\<close> live at some addresses.\<close>

definition le32 :: "mem \<Rightarrow> ptr \<Rightarrow> nat" where
  "le32 m p = unat (m p) + 256 * unat (m (p + 1)) + 65536 * unat (m (p + 2)) + 16777216 * unat (m (p + 3))"

definition scan_quad :: "byte list \<Rightarrow> (int \<times> nat \<times> nat \<times> nat \<times> nat) option" where
  "scan_quad p =
     map_option (\<lambda>(s, n). (n, le32 (smem s) 16, le32 (smem s) 20, le32 (smem s) 24, le32 (smem s) 28))
       (vsscanf (\<lambda>_. 0) p [0x25, 0x75, 0x2E, 0x25, 0x75, 0x2E, 0x25, 0x75, 0x2E, 0x25, 0x75] [ANum 16, ANum 20, ANum 24, ANum 28])"

record ip6_st =
  i6w :: "u16 list"
  i6n :: nat
  i6comp :: "nat option"

datatype ip6_end = Reject | Parsed ip6_st

function ip6_loop :: "byte list \<Rightarrow> ip6_st \<Rightarrow> ip6_end option" where
  "ip6_loop p s =
     (case p of [] \<Rightarrow> Some (Parsed s)
      | c # p1 \<Rightarrow>
          if c = 0x3A then
            if cur p1 = 0x3A then
              if i6comp s \<noteq> None then Some Reject else ip6_loop (tl p1) (s\<lparr>i6comp := Some (i6n s)\<rparr>)
            else ip6_loop p1 s
          else if isdigit (uint c) \<and> 0x2E \<in> set p then
            (case scan_quad p of None \<Rightarrow> None
             | Some (n, a, b, c, d) \<Rightarrow>
                 if n \<noteq> 4 \<or> a > 255 \<or> b > 255 \<or> c > 255 \<or> d > 255 then Some Reject
                 else if i6comp s = None \<and> i6n s \<noteq> 6 then Some Reject
                 else if i6n s + 1 \<ge> 8 then None
                 else Some (Parsed (s\<lparr>i6w := (i6w s)[i6n s := of_nat (a * 256 + b), i6n s + 1 := of_nat (c * 256 + d)],
                                      i6n := i6n s + 2\<rparr>)))
          else if \<not> isxdigit (uint c) then Some Reject
          else
            let (v, e, _) = strtoul p 16 in
            if v > 0xffff \<or> i6n s \<ge> 8 then Some Reject
            else ip6_loop (drop e p) (s\<lparr>i6w := (i6w s)[i6n s := ucast v], i6n := i6n s + 1\<rparr>))"
  by pat_completeness auto
termination
  by (relation "measure (\<lambda>(p, s). length p + (8 - i6n s))") (auto simp: cur_def split: list.splits)

declare ip6_loop.simps [simp del]

text \<open>
  The move of the compressed form copies \<open>i\<close> words from the start of the array to \<open>comp + zeros\<close>; beyond the end of the array it
  has no result.
\<close>

definition ip6_expand :: "ip6_st \<Rightarrow> u16 list option" where
  "ip6_expand s =
     (case i6comp s of
        Some cp \<Rightarrow>
          let zeros = 8 - i6n s; w = i6w s in
          if cp + zeros + i6n s > 8 \<and> i6n s > 0 then None
          else
            let w = take (cp + zeros) w @ take (i6n s) w @ drop (cp + zeros + i6n s) w
            in Some (take cp w @ replicate zeros 0 @ drop (cp + zeros) w)
      | None \<Rightarrow> Some (i6w s))"

definition pton_ip6 :: "byte list \<Rightarrow> byte list \<Rightarrow> (int \<times> byte list) option" where
  "pton_ip6 src dst =
     (case ip6_loop src \<lparr>i6w = replicate 8 0, i6n = 0, i6comp = None\<rparr> of
        None \<Rightarrow> None
      | Some Reject \<Rightarrow> Some (0, dst)
      | Some (Parsed s) \<Rightarrow>
          if i6comp s = None \<and> i6n s \<noteq> 8 then Some (0, dst)
          else (case ip6_expand s of None \<Rightarrow> None
                | Some w \<Rightarrow> Some (1, concat (map (\<lambda>j. [ucast (drop_bit 8 (w ! j)), ucast (w ! j AND 0xff)]) [0..<8]))))"

section \<open>Address to text\<close>

definition ntop_ip4 :: "mem \<Rightarrow> byte list \<Rightarrow> ptr \<Rightarrow> nat \<Rightarrow> (mem \<times> ptr) option" where
  "ntop_ip4 m b dst sz =
     (if sz < 16 then Some (m, 0)
      else map_option (\<lambda>(s, _). (wmem s, dst))
        (vsnprintf m dst sz (Some [0x25, 0x75, 0x2E, 0x25, 0x75, 0x2E, 0x25, 0x75, 0x2E, 0x25, 0x75])
          [ANum (ucast (b ! 0)), ANum (ucast (b ! 1)), ANum (ucast (b ! 2)), ANum (ucast (b ! 3))]))"

definition ip6_words :: "byte list \<Rightarrow> u16 list" where
  "ip6_words b = map (\<lambda>i. push_bit 8 (ucast (b ! (i * 2))) OR ucast (b ! (i * 2 + 1))) [0..<8]"

text \<open>The search for the longest run of zero words: best length and index, current length and index.\<close>

function best_run :: "u16 list \<Rightarrow> nat \<Rightarrow> nat \<times> nat option \<times> nat \<times> nat \<Rightarrow> nat \<times> nat option \<times> nat \<times> nat" where
  "best_run words i (bl, bi, cl, ci) =
     (if i < 8 then
        if words ! i = 0 then
          let ci = (if cl = 0 then i else ci); cl = cl + 1
          in best_run words (i + 1) (if cl > bl then (cl, Some ci, cl, ci) else (bl, bi, cl, ci))
        else best_run words (i + 1) (bl, bi, 0, ci)
      else (bl, bi, cl, ci))"
  by pat_completeness auto
termination by (relation "measure (\<lambda>(words, i, st). 8 - i)") auto

declare best_run.simps [simp del]

function ip6_print :: "u16 list \<Rightarrow> nat \<Rightarrow> nat option \<Rightarrow> ptr \<Rightarrow> nat \<Rightarrow> nat \<Rightarrow> mem \<Rightarrow> ptr \<Rightarrow> (mem \<times> ptr) option" where
  "ip6_print words bl bi dst sz i m p =
     (if i < 8 then
        if bi = Some i \<and> bl > 0 then ip6_print words bl bi dst sz (i + bl) (m(p := 0x3A, p + 1 := 0x3A)) (p + 2)
        else
          let (m, p) = (if p \<noteq> dst \<and> m (p - 1) \<noteq> 0x3A then (m(p := 0x3A), p + 1) else (m, p))
          in case vsnprintf m p (dst + sz - p) (Some [0x25, 0x78]) [ANum (ucast (words ! i))] of None \<Rightarrow> None
             | Some (s, n) \<Rightarrow> ip6_print words bl bi dst sz (i + 1) (wmem s) (p + nat n)
      else Some (m, p))"
  by pat_completeness auto
termination by (relation "measure (\<lambda>(words, bl, bi, dst, sz, i, m, p). 8 - i)") auto

declare ip6_print.simps [simp del]

definition ntop_ip6 :: "mem \<Rightarrow> byte list \<Rightarrow> ptr \<Rightarrow> nat \<Rightarrow> (mem \<times> ptr) option" where
  "ntop_ip6 m b dst sz =
     (let words = ip6_words b;
          (bl, bi, _, _) = best_run words 0 (0, None, 0, 0);
          bi = (if bl < 2 then None else bi)
      in if sz < 46 then Some (m, 0)
         else map_option (\<lambda>(m, p). (m(p := 0), dst)) (ip6_print words bl bi dst sz 0 m dst))"

section \<open>The interface\<close>

definition AF_INET :: int where "AF_INET = 2"
definition AF_INET6 :: int where "AF_INET6 = 10"

definition inet_pton :: "int \<Rightarrow> byte list option \<Rightarrow> byte list option \<Rightarrow> (int \<times> byte list option) option" where
  "inet_pton af src dst =
     (case (src, dst) of
        (Some s, Some d) \<Rightarrow>
          if af = AF_INET then (let (r, d') = pton_ip4 s d in Some (r, Some d'))
          else if af = AF_INET6 then map_option (\<lambda>(r, d'). (r, Some d')) (pton_ip6 s d)
          else Some (- 1, dst)
      | _ \<Rightarrow> Some (0, dst))"

definition inet_ntop :: "int \<Rightarrow> byte list option \<Rightarrow> mem \<Rightarrow> ptr \<Rightarrow> nat \<Rightarrow> (mem \<times> ptr) option" where
  "inet_ntop af src m dst sz =
     (if src = None \<or> dst = 0 then Some (m, 0)
      else if af = AF_INET then ntop_ip4 m (the src) dst sz
      else if af = AF_INET6 then ntop_ip6 m (the src) dst sz
      else Some (m, 0))"

text \<open>\<^verbatim>\<open>inet_ntoa\<close> prints into its static buffer; an address in memory order is the list of its four bytes.\<close>

definition inet_ntoa :: "mem \<Rightarrow> ptr \<Rightarrow> byte list \<Rightarrow> (mem \<times> ptr) option" where
  "inet_ntoa m buf b =
     map_option (\<lambda>(s, _). (wmem s, buf))
       (vsnprintf m buf 16 (Some [0x25, 0x75, 0x2E, 0x25, 0x75, 0x2E, 0x25, 0x75, 0x2E, 0x25, 0x75])
         [ANum (ucast (b ! 0)), ANum (ucast (b ! 1)), ANum (ucast (b ! 2)), ANum (ucast (b ! 3))])"

definition inet_addr :: "byte list option \<Rightarrow> byte list" where
  "inet_addr cp =
     (case inet_pton AF_INET cp (Some [0, 0, 0, 0]) of
        Some (r, Some a) \<Rightarrow> if r = 1 then a else replicate 4 0xff
      | _ \<Rightarrow> replicate 4 0xff)"

section \<open>Printing numbers\<close>

definition num_text :: "nat \<Rightarrow> nat \<Rightarrow> byte list" where
  "num_text b n = map (digit_char False) (radix b n)"

lemma spec_u: "spec_printf ap (0x75 # fmt) = Some (\<lparr>cspec = 0, cprec = - 1, cwidth = 0, ctype = 0x75\<rparr>, 0x75 # fmt, ap)"
  "spec_printf ap (0x78 # fmt) = Some (\<lparr>cspec = 0, cprec = - 1, cwidth = 0, ctype = 0x78\<rparr>, 0x78 # fmt, ap)"
  by (simp_all add: spec_printf_def spec_value_def spec_prec_def spec_length_def cur_def INT_MAX_def)

lemma spec_u_flags:
  "\<not> fmt_has 0 FMT_sign" "fmt_length 0 = 0" "fmt_set_base 0 FMT_dec = 10" "fmt_set_base 0 FMT_hex = 16"
  "base_of 10 = 10" "base_of 16 = 16"
  "\<not> fmt_has 10 FMT_sign" "\<not> fmt_has 10 FMT_left" "\<not> fmt_has 10 FMT_zpad" "\<not> fmt_has 10 FMT_plus" "\<not> fmt_has 10 FMT_spad"
  "\<not> fmt_has 10 FMT_pref" "\<not> fmt_has 10 FMT_upper"
  "\<not> fmt_has 16 FMT_sign" "\<not> fmt_has 16 FMT_left" "\<not> fmt_has 16 FMT_zpad" "\<not> fmt_has 16 FMT_plus" "\<not> fmt_has 16 FMT_spad"
  "\<not> fmt_has 16 FMT_pref" "\<not> fmt_has 16 FMT_upper"
  by code_simp+

lemma plain_num_text: "0 \<le> v \<Longrightarrow> int_text 10 v (- 1) 0 = num_text 10 (nat v)" "0 \<le> v \<Longrightarrow> int_text 16 v (- 1) 0 = num_text 16 (nat v)"
  using int_text_plain [of 10 v] int_text_plain [of 16 v] by (simp_all add: spec_u_flags num_text_def)

lemma printf_u:
  assumes "unat w < 2 ^ 32"
  shows "printf_text k (0x25 # 0x75 # fmt) (ANum w # ap) =
    map_option (\<lambda>(t, st, ap'). (num_text 10 (unat w) @ t, st, ap')) (printf_text (k + length (num_text 10 (unat w))) fmt ap)"
    "printf_text k (0x25 # 0x78 # fmt) (ANum w # ap) =
    map_option (\<lambda>(t, st, ap'). (num_text 16 (unat w) @ t, st, ap')) (printf_text (k + length (num_text 16 (unat w))) fmt ap)"
proof -
  have "unat (ucast w :: u32) = unat w" using assms by (subst unsigned_ucast_eq) (simp add: take_bit_nat_eq_self)
  moreover have "unat (ucast x :: u64) = unat x" for x :: u32
    using unsigned_less [of x, where 'a = nat] by (subst unsigned_ucast_eq) (simp add: take_bit_nat_eq_self)
  ultimately have "unat (ucast (ucast w :: u32) :: u64) = unat w" by simp
  then have u: "uint (ucast (ucast w :: u32) :: u64) = uint w" by (metis uint_nat)
  have "conv_text \<lparr>cspec = 0, cprec = - 1, cwidth = 0, ctype = 0x75\<rparr> k (ANum w # ap) = Some (num_text 10 (unat w), [], ap)"
    "conv_text \<lparr>cspec = 0, cprec = - 1, cwidth = 0, ctype = 0x78\<rparr> k (ANum w # ap) = Some (num_text 16 (unat w), [], ap)" for k
    unfolding unat_eq_nat_uint conv_text_def get_unsigned_def va_num_def int_value_def Let_def
    by (simp_all add: spec_u_flags plain_num_text u del: nat_uint_eq)
  then show "printf_text k (0x25 # 0x75 # fmt) (ANum w # ap) =
      map_option (\<lambda>(t, st, ap'). (num_text 10 (unat w) @ t, st, ap')) (printf_text (k + length (num_text 10 (unat w))) fmt ap)"
    "printf_text k (0x25 # 0x78 # fmt) (ANum w # ap) =
      map_option (\<lambda>(t, st, ap'). (num_text 16 (unat w) @ t, st, ap')) (printf_text (k + length (num_text 16 (unat w))) fmt ap)"
    by (subst printf_text.simps, simp add: spec_u cur_def)+
qed

lemma printf_plain: "c \<noteq> 0x25 \<Longrightarrow> printf_text k (c # fmt) ap = map_option (\<lambda>(t, st, ap'). (c # t, st, ap')) (printf_text (k + 1) fmt ap)"
  by (subst printf_text.simps) simp

lemma printf_end: "printf_text k [] ap = Some ([], [], ap)"
  by (subst printf_text.simps) simp

section \<open>IPv4\<close>

fun dotted :: "nat list \<Rightarrow> byte list" where
  "dotted [] = []"
| "dotted [n] = num_text 10 n"
| "dotted (n # ns) = num_text 10 n @ 0x2E # dotted ns"

lemma quad_text:
  fixes b :: "byte list"
  assumes "length b = 4"
  shows "printf_text 0 [0x25, 0x75, 0x2E, 0x25, 0x75, 0x2E, 0x25, 0x75, 0x2E, 0x25, 0x75]
      [ANum (ucast (b ! 0)), ANum (ucast (b ! 1)), ANum (ucast (b ! 2)), ANum (ucast (b ! 3))] = Some (dotted (map unat b), [], [])"
proof -
  obtain x y z t where b: "b = [x, y, z, t]" using assms by (auto simp: numeral_eq_Suc length_Suc_conv)
  have u: "unat (ucast v :: u64) = unat v" for v :: byte
    using unsigned_less [of v, where 'a = nat] by (simp add: unsigned_ucast_eq take_bit_nat_eq_self)
  have lt: "unat v < 4294967296" for v :: byte using unsigned_less [of v, where 'a = nat] by simp
  show ?thesis by (simp add: b printf_u printf_plain printf_end u lt)
qed

lemma num_text_length: "n < 256 \<Longrightarrow> length (num_text 10 n) \<le> 3"
proof -
  assume n: "n < 256"
  have "n div 10 div 10 < 10" using n by simp
  then have "length (radix 10 n) \<le> 3"
    by (cases "n < 10"; cases "n div 10 < 10") (simp_all add: radix_small radix_step del: div_mult2_eq)
  then show ?thesis by (simp add: num_text_def)
qed

lemma num_text_chars: "c \<in> set (num_text b n) \<Longrightarrow> 2 \<le> b \<Longrightarrow> b \<le> 16 \<Longrightarrow>
    is_dig (int b) c \<and> \<not> is_space c \<and> c \<notin> {0x2D, 0x2B, 0x78, 0x58, 0xFF, 0x2E, 0x3A, 0x25, 0}"
  using radix_chars [of b c False n] by (simp add: num_text_def)

lemma strtoul_dec:
  assumes "n < 2 ^ 64" "rest = [] \<or> \<not> is_dig 10 (hd rest)" "0xFF \<notin> set rest" "int (length rest) + 67 < INT_MAX"
  shows "strtoul (num_text 10 n @ rest) 10 = (of_nat n, length (num_text 10 n), None)"
proof -
  define str where "str = num_text 10 n @ rest"
  have "0xFF \<notin> set str" using assms(3) num_text_chars [of _ 10 n] by (auto simp: str_def)
  moreover have "length (num_text 10 n) \<le> 64" using radix_length [of 10 n 64] assms(1) by (simp add: num_text_def)
  then have "int (length str) + 1 < INT_MAX" using assms(4) by (simp add: str_def)
  moreover have s: "strto_spec 10 str = Some (False, n, length (num_text 10 n))"
    using strto_spec_radix [of 10 rest False False n] assms(2) by (simp add: str_def num_text_def)
  moreover have f: "uint (fmt_base (fmt_set_length 10 3)) = 10" "\<not> fmt_has (fmt_set_length 10 3) FMT_sign" by code_simp+
  moreover have "saturate None n = (of_nat n, None)" using assms(1) by (simp add: saturate_def)
  ultimately have "strto_int 3 True str 10 = (of_nat n, length (num_text 10 n), None)"
    using strto_int_spec [of str 10 "fmt_set_length 10 3" True 3] by (simp add: clamp_def Let_def)
  then show ?thesis by (simp add: strtoul_def str_def)
qed

lemma not_digit_sep: "\<not> is_dig 10 0x2E" "\<not> is_dig 16 0x3A"
  by code_simp+

lemma octet_word: "n < 256 \<Longrightarrow> \<not> (of_nat n :: u64) > 255" "n < 256 \<Longrightarrow> ucast (of_nat n :: u64) = (of_nat n :: byte)"
  by (simp_all add: word_less_nat_alt unsigned_of_nat take_bit_nat_eq_self)

lemma pton_step:
  assumes "n < 256" "i < 3" "0xFF \<notin> set rest" "int (length rest) + 68 < INT_MAX"
  shows "pton_ip4_loop i (num_text 10 n @ 0x2E # rest) t = pton_ip4_loop (i + 1) rest (t[i := of_nat n])"
proof -
  have "strtoul (num_text 10 n @ 0x2E # rest) 10 = (of_nat n, length (num_text 10 n), None)"
    using assms by (intro strtoul_dec) (simp_all add: not_digit_sep)
  moreover have "length (num_text 10 n) \<noteq> 0" by (simp add: num_text_def)
  moreover note octet_word [OF assms(1)]
  ultimately show ?thesis using assms(2) by (subst pton_ip4_loop.simps) (simp add: cur_def)
qed

lemma pton_last:
  assumes "n < 256"
  shows "pton_ip4_loop 3 (num_text 10 n) t = (1, t[3 := of_nat n])"
proof -
  have "strtoul (num_text 10 n) 10 = (of_nat n, length (num_text 10 n), None)"
    using strtoul_dec [of n "[]"] assms by (simp add: INT_MAX_def)
  moreover have "num_text 10 n \<noteq> []" by (simp add: num_text_def)
  moreover note octet_word [OF assms(1)]
  moreover have "pton_ip4_loop 4 s t' = (1, t')" for s t' by (subst pton_ip4_loop.simps) simp
  ultimately show ?thesis by (subst pton_ip4_loop.simps) (simp add: cur_def)
qed

lemma dotted_quad:
  assumes "length b = 4"
  shows "length (dotted (map unat (b :: byte list))) \<le> 15" "0 \<notin> set (dotted (map unat b))"
    "length d = 4 \<Longrightarrow> pton_ip4 (dotted (map unat b)) d = (1, b)"
proof -
  obtain x y z t where b: "b = [x, y, z, t]" using assms by (auto simp: numeral_eq_Suc length_Suc_conv)
  have lt: "unat v < 256" for v :: byte using unsigned_less [of v, where 'a = nat] by simp
  have l: "length (num_text 10 (unat v)) \<le> 3" for v :: byte using num_text_length [OF lt] .
  show "length (dotted (map unat b)) \<le> 15" using l [of x] l [of y] l [of z] l [of t] by (simp add: b)
  have c: "0 \<notin> set (num_text 10 n)" "0xFF \<notin> set (num_text 10 n)" for n using num_text_chars [of _ 10 n] by auto
  then show "0 \<notin> set (dotted (map unat b))" by (simp add: b)
  assume "length d = 4"
  then obtain p q r s where d: "d = [p, q, r, s]" by (auto simp: numeral_eq_Suc length_Suc_conv)
  have k: "int (length (num_text 10 (unat v))) \<le> 3" for v :: byte using l [of v] by simp
  show "pton_ip4 (dotted (map unat b)) d = (1, b)"
    unfolding pton_ip4_def
    using k [of x] k [of y] k [of z] k [of t] pton_last [OF lt [of t]] pton_step [OF lt [of x], of 0] pton_step [OF lt [of y], of 1]
      pton_step [OF lt [of z], of 2]
    by (simp add: b d c INT_MAX_def flip: numeral_2_eq_2)
qed

text \<open>
  C23: for every IPv4 address, \<^verbatim>\<open>inet_ntop\<close> into a buffer of at least 16 bytes leaves a terminated string in the first 16 bytes of the
  buffer and changes nothing else, and \<^verbatim>\<open>inet_pton\<close> reads the address back from it.
\<close>

theorem inet4_round_trip:
  assumes "length b = 4" "dst \<noteq> 0" "16 \<le> sz" "length d = 4"
  shows "\<exists>m' t. inet_ntop AF_INET (Some b) m dst sz = Some (m', dst) \<and> cstr m' dst t \<and>
    (\<forall>a. a < dst \<or> dst + 16 \<le> a \<longrightarrow> m' a = m a) \<and> inet_pton AF_INET (Some t) (Some d) = Some (1, Some b)"
proof -
  define t where "t = dotted (map unat b)"
  define m' where "m' = wr m dst (t @ [0])"
  have t: "length t \<le> 15" "0 \<notin> set t" "pton_ip4 t d = (1, b)" using dotted_quad [OF assms(1)] assms(4) by (simp_all add: t_def)
  have "inet_ntop AF_INET (Some b) m dst sz = Some (m', dst)"
    using assms(2,3) t(1) quad_text [OF assms(1)] by (simp add: inet_ntop_def ntop_ip4_def vsnprintf_numeric numeric_def m'_def t_def)
  moreover have "cstr m' dst t"
  proof -
    have "rd m' dst (length (t @ [0])) = t @ [0]" unfolding m'_def by (rule rd_wr_same)
    then have "rd m' dst (length t) = t \<and> m' (dst + length t) = 0" by (simp add: rd_Suc_snoc del: rd.simps)
    then show ?thesis using t(2) by (simp add: cstr_iff)
  qed
  moreover have "\<forall>a. a < dst \<or> dst + 16 \<le> a \<longrightarrow> m' a = m a" using t(1) by (auto simp: m'_def wr_apply)
  moreover have "inet_pton AF_INET (Some t) (Some d) = Some (1, Some b)" using t(3) by (simp add: inet_pton_def)
  ultimately show ?thesis by blast
qed

theorem inet4_round_trip_witness:
  "\<exists>m' t. inet_ntop AF_INET (Some [192, 168, 0, 1]) (\<lambda>_. 0) 100 16 = Some (m', 100) \<and> cstr m' 100 t \<and>
    inet_pton AF_INET (Some t) (Some [0, 0, 0, 0]) = Some (1, Some [192, 168, 0, 1])"
  using inet4_round_trip [of "[192, 168, 0, 1]" 100 16 "[0, 0, 0, 0]" "\<lambda>_. 0"] by auto

section \<open>IPv6\<close>

text \<open>Groups in hexadecimal, separated by colons.\<close>

fun joined :: "nat list \<Rightarrow> byte list" where
  "joined [] = []"
| "joined [n] = num_text 16 n"
| "joined (n # ns) = num_text 16 n @ 0x3A # joined ns"

lemma strtoul_hex:
  assumes "n < 2 ^ 64" "rest = [] \<or> hd rest = 0x3A" "0xFF \<notin> set rest" "int (length rest) + 67 < INT_MAX"
  shows "strtoul (num_text 16 n @ rest) 16 = (of_nat n, length (num_text 16 n), None)"
proof -
  define str where "str = num_text 16 n @ rest"
  define r0 where "r0 = \<lparr>rpos = 0, rread = 0\<rparr>"
  have ff: "0xFF \<notin> set str" using assms(3) num_text_chars [of _ 16 n] by (auto simp: str_def)
  have "length (num_text 16 n) \<le> 64" using radix_length [of 16 n 64] assms(1) by (simp add: num_text_def)
  then have w: "int (length str) + 1 < INT_MAX" using assms(4) by (simp add: str_def)
  obtain c cs where c: "num_text 16 n @ rest = c # cs" "\<not> is_space c" "c \<noteq> 0x2D" "c \<noteq> 0x2B"
    using radix_head [of 16 False n rest] by (auto simp: num_text_def)
  have td: "takeWhile (is_dig 16) str = num_text 16 n"
    using takeWhile_digits [of 16 rest False n] assms(2) not_digit_sep by (auto simp: str_def num_text_def)
  have sk: "read_skip str r0 = r0" using read_skip_spaces [OF ff, of r0] c(1,2) by (simp add: r0_def str_def)
  have sp: "sign_split (drop (rpos r0) str) = (False, str)" using c by (simp add: r0_def str_def sign_split_def)
  have hex: "\<exists>c cs'. str = c # cs' \<and> (c = 0x30 \<longrightarrow> cs' \<noteq> [] \<longrightarrow> hd cs' \<notin> {0x78, 0x58})"
  proof -
    have "hd cs \<notin> {0x78, 0x58}" if "cs \<noteq> []"
    proof -
      have "num_text 16 n \<noteq> []" by (simp add: num_text_def)
      then obtain ns where ns: "num_text 16 n = c # ns" "cs = ns @ rest" using c(1) by (cases "num_text 16 n") auto
      then have "hd cs \<in> set (num_text 16 n) \<or> hd cs = 0x3A" using that assms(2) by (cases ns) auto
      then show ?thesis using num_text_chars [of "hd cs" 16 n] by auto
    qed
    then show ?thesis using c(1) by (auto simp: str_def)
  qed
  define sp16 where "sp16 = fmt_set_length (16 :: u32) 3"
  have f: "16 = uint (fmt_base sp16)" "\<not> fmt_has sp16 FMT_sign" unfolding sp16_def by code_simp+
  have ne: "num_text 16 n \<noteq> []" by (simp add: num_text_def)
  have nu: "numeral_of 16 0 (num_text 16 n) = n" using numeral_radix [of 16 False n] by (simp add: num_text_def)
  have st: "saturate None n = (of_nat n, None)" using assms(1) by (simp add: saturate_def)
  have "input_int str sp16 INT_MAX r0 None = (r0\<lparr>rpos := length (num_text 16 n), rread := int (length (num_text 16 n))\<rparr>, None, Some (of_nat n))"
    using input_int_digits [OF ff w f(1) _ _ sp td [symmetric] ne hex refl, of None] f(2) nu st
    by (simp add: clamp_def Let_def r0_def)
  then have "strto_int 3 True str 16 = (of_nat n, length (num_text 16 n), None)"
    using sk by (simp add: strto_int_def Let_def sp16_def r0_def)
  then show ?thesis by (simp add: strtoul_def str_def)
qed

lemma num_text_head:
  "\<exists>c cs. num_text 16 n = c # cs \<and> isxdigit (uint c) \<and> c \<noteq> 0x3A"
proof -
  have "\<forall>d \<in> set [0..<16]. isxdigit (uint (digit_char False d))" by code_simp
  then have x: "d < 16 \<Longrightarrow> isxdigit (uint (digit_char False d))" for d by simp
  obtain c cs where c: "num_text 16 n = c # cs" by (cases "num_text 16 n") (auto simp: num_text_def)
  then have "c \<in> set (num_text 16 n)" by simp
  then obtain d where "c = digit_char False d" "d \<in> set (radix 16 n)" by (auto simp: num_text_def)
  then have "isxdigit (uint c)" using radix_less [of 16 d n] x by simp
  moreover have "c \<noteq> 0x3A" using num_text_chars [of c 16 n] c by simp
  ultimately show ?thesis using c by blast
qed

lemma joined_chars: "c \<in> set (joined ns) \<Longrightarrow> c \<notin> {0x2E, 0xFF, 0}"
proof (induction ns rule: joined.induct)
  case (2 n)
  then show ?case using num_text_chars [of c 16 n] by simp
next
  case (3 n m ns)
  then show ?case using num_text_chars [of c 16 n] by auto
qed simp

lemma num_text_short: "n < 65536 \<Longrightarrow> length (num_text 16 n) \<le> 4"
proof -
  assume n: "n < 65536"
  then have "n div 16 div 16 div 16 < 16" by simp
  then have "length (radix 16 n) \<le> 4"
    by (cases "n < 16"; cases "n div 16 < 16"; cases "n div 16 div 16 < 16") (simp_all add: radix_small radix_step)
  then show ?thesis by (simp add: num_text_def)
qed

lemma joined_length: "(\<And>n. n \<in> set ns \<Longrightarrow> n < 65536) \<Longrightarrow> length (joined ns) \<le> 5 * length ns"
proof (induction ns rule: joined.induct)
  case (2 n)
  then show ?case using num_text_short [of n] by simp
next
  case (3 n m ns)
  then show ?case using num_text_short [of n] by fastforce
qed simp

text \<open>One group, followed by the end or a colon.\<close>

lemma ip6_group:
  assumes "n < 65536" "rest = [] \<or> hd rest = 0x3A" "0xFF \<notin> set rest" "0x2E \<notin> set rest" "int (length rest) + 67 < INT_MAX" "i6n s < 8"
  shows "ip6_loop (num_text 16 n @ rest) s = ip6_loop rest (s\<lparr>i6w := (i6w s)[i6n s := of_nat n], i6n := i6n s + 1\<rparr>)"
proof -
  obtain c cs where c: "num_text 16 n = c # cs" "isxdigit (uint c)" "c \<noteq> 0x3A" using num_text_head by blast
  have "strtoul (num_text 16 n @ rest) 16 = (of_nat n, length (num_text 16 n), None)" using assms by (intro strtoul_hex) simp_all
  then have st: "strtoul (c # (cs @ rest)) 16 = (of_nat n, length (c # cs), None)" using c(1) by simp
  have nd: "0x2E \<notin> set (c # (cs @ rest))" using assms(4) num_text_chars [of "0x2E" 16 n] c(1) by auto
  have v: "\<not> (of_nat n :: u64) > 0xffff" "ucast (of_nat n :: u64) = (of_nat n :: u16)"
    using assms(1) by (simp_all add: word_less_nat_alt unsigned_of_nat take_bit_nat_eq_self)
  show ?thesis unfolding c(1) using c(2,3) st nd v assms(6) by (subst ip6_loop.simps) simp
qed

lemma ip6_groups:
  fixes ws :: "u16 list"
  assumes "ws \<noteq> []" "i6n s + length ws \<le> 8" "length (i6w s) = 8"
  shows "ip6_loop (joined (map unat ws)) s =
    Some (Parsed (s\<lparr>i6w := take (i6n s) (i6w s) @ ws @ drop (i6n s + length ws) (i6w s), i6n := i6n s + length ws\<rparr>))"
  using assms
proof (induction ws arbitrary: s)
  case (Cons w ws)
  have lt: "unat x < 65536" for x :: u16 using unsigned_less [of x, where 'a = nat] by simp
  define s1 where "s1 = s\<lparr>i6w := (i6w s)[i6n s := w], i6n := i6n s + 1\<rparr>"
  have u: "take (Suc k) ((i6w s)[k := w]) = take k (i6w s) @ [w]" if "k < 8" for k
    using that Cons.prems by (simp add: take_Suc_conv_app_nth)
  show ?case
  proof (cases ws)
    case Nil
    have "ip6_loop (num_text 16 (unat w) @ []) s = ip6_loop [] s1"
      using ip6_group [of "unat w" "[]" s] Cons.prems lt by (simp add: INT_MAX_def s1_def)
    moreover have "ip6_loop [] s1 = Some (Parsed s1)" by (subst ip6_loop.simps) simp
    ultimately show ?thesis using Nil Cons.prems by (simp add: s1_def upd_conv_take_nth_drop)
  next
    case (Cons w' ws')
    define rest where "rest = joined (map unat ws)"
    have r: "0xFF \<notin> set rest" "0x2E \<notin> set rest" using joined_chars by (auto simp: rest_def)
    have "length rest \<le> 40" using joined_length [of "map unat ws"] lt Cons.prems \<open>i6n s + length (w # ws) \<le> 8\<close> by (fastforce simp: rest_def)
    then have l: "int (length (0x3A # rest)) + 67 < INT_MAX" by (simp add: INT_MAX_def)
    obtain c cs where c: "rest = c # cs" "c \<noteq> 0x3A"
      using num_text_head [of "unat w'"] Cons by (cases ws') (auto simp: rest_def)
    have "ip6_loop (joined (map unat (w # ws))) s = ip6_loop (0x3A # rest) s1"
      using ip6_group [of "unat w" "0x3A # rest" s] Cons.prems lt r l \<open>i6n s + length (w # ws) \<le> 8\<close> Cons by (simp add: s1_def rest_def)
    also have "\<dots> = ip6_loop rest s1" using c by (subst ip6_loop.simps) (simp add: cur_def)
    also have "\<dots> = Some (Parsed (s1\<lparr>i6w := take (i6n s1) (i6w s1) @ ws @ drop (i6n s1 + length ws) (i6w s1), i6n := i6n s1 + length ws\<rparr>))"
      unfolding rest_def using Cons.IH Cons \<open>i6n s + length (w # ws) \<le> 8\<close> \<open>length (i6w s) = 8\<close> by (simp add: s1_def)
    finally show ?thesis using u [of "i6n s"] \<open>i6n s + length (w # ws) \<le> 8\<close> by (simp add: s1_def)
  qed
qed simp

text \<open>The text of an address: its groups, with the run of zeros that starts at \<open>bi\<close> written as two colons.\<close>

function ip6_text :: "u16 list \<Rightarrow> nat \<Rightarrow> nat option \<Rightarrow> nat \<Rightarrow> byte list \<Rightarrow> byte list" where
  "ip6_text words bl bi i t =
     (if i < 8 then
        if bi = Some i \<and> bl > 0 then ip6_text words bl bi (i + bl) (t @ [0x3A, 0x3A])
        else ip6_text words bl bi (i + 1) ((if t \<noteq> [] \<and> last t \<noteq> 0x3A then t @ [0x3A] else t) @ num_text 16 (unat (words ! i)))
      else t)"
  by pat_completeness auto
termination by (relation "measure (\<lambda>(words, bl, bi, i, t). 8 - i)") auto

declare ip6_text.simps [simp del]

lemma ip6_text_length:
  assumes "length words = 8" "bi \<noteq> None \<Longrightarrow> 2 \<le> bl"
  shows "length (ip6_text words bl bi i t) \<le> length t + 5 * (8 - i) \<and> length t \<le> length (ip6_text words bl bi i t)"
  using assms
proof (induction words bl bi i t rule: ip6_text.induct)
  case (1 words bl bi i t)
  have lt: "length (num_text 16 (unat x)) \<le> 4" for x :: u16
    using num_text_short [of "unat x"] unsigned_less [of x, where 'a = nat] by simp
  consider "\<not> i < 8" | "i < 8" "bi = Some i \<and> bl > 0" | "i < 8" "\<not> (bi = Some i \<and> bl > 0)" by blast
  then show ?case
  proof cases
    case 1
    then show ?thesis by (subst (1 2) ip6_text.simps) simp
  next
    case 2
    then have "2 \<le> bl" using 1 by simp
    then show ?thesis using 1(1) [OF 2] 1(3,4) 2 by (subst (1 2) ip6_text.simps) auto
  next
    case 3
    then show ?thesis using 1(2) [OF 3] 1(3,4) lt [of "words ! i"] by (subst (1 2) ip6_text.simps) auto
  qed
qed

text \<open>Memory that holds \<open>t\<close> at \<open>dst\<close>, is arbitrary just behind it, and is otherwise untouched.\<close>

definition holds :: "mem \<Rightarrow> mem \<Rightarrow> ptr \<Rightarrow> byte list \<Rightarrow> bool" where
  "holds m' m dst t \<longleftrightarrow> (\<forall>a. a \<noteq> dst + length t \<longrightarrow> m' a = wr m dst t a)"

lemma holds_append: "holds m' m dst t \<Longrightarrow> u \<noteq> [] \<Longrightarrow> holds (wr m' (dst + length t) u) m dst (t @ u)"
  unfolding holds_def by (auto simp: wr_apply nth_append)

lemma holds_printed: "holds m' m dst t \<Longrightarrow> holds (wr m' (dst + length t) (u @ [0])) m dst (t @ u)"
  unfolding holds_def by (auto simp: wr_apply nth_append)

lemma holds_last: "holds m' m dst t \<Longrightarrow> t \<noteq> [] \<Longrightarrow> m' (dst + length t - 1) = last t"
proof -
  assume h: "holds m' m dst t" and t: "t \<noteq> []"
  define j where "j = length t - 1"
  have j: "dst + length t - 1 = dst + j" "j < length t" using t by (cases t; simp add: j_def)+
  have "m' (dst + j) = t ! j" using h j(2) wr_inside [OF j(2), of m dst] by (simp add: holds_def)
  then show ?thesis unfolding j(1) using t by (simp add: last_conv_nth j_def)
qed

lemma ip6_print_text:
  assumes "holds m' m dst t" "length words = 8" "bi \<noteq> None \<Longrightarrow> 2 \<le> bl" "dst \<noteq> 0" "46 \<le> sz" "length t \<le> 5 * i"
  shows "\<exists>m''. ip6_print words bl bi dst sz i m' (dst + length t) = Some (m'', dst + length (ip6_text words bl bi i t)) \<and>
    holds m'' m dst (ip6_text words bl bi i t)"
  using assms
proof (induction "8 - i" arbitrary: i m' t rule: less_induct)
  case less
  consider "\<not> i < 8" | "i < 8" "bi = Some i \<and> bl > 0" | "i < 8" "\<not> (bi = Some i \<and> bl > 0)" by blast
  then show ?case
  proof cases
    case 1
    then show ?thesis using less(2) by (subst ip6_print.simps, subst (1 2) ip6_text.simps) simp
  next
    case 2
    define m1 where "m1 = m'(dst + length t := 0x3A, dst + length t + 1 := 0x3A)"
    have "m1 = wr m' (dst + length t) [0x3A, 0x3A]" by (simp add: m1_def)
    then have h: "holds m1 m dst (t @ [0x3A, 0x3A])" using holds_append [OF less(2), of "[0x3A, 0x3A]"] by simp
    have "2 \<le> bl" using less(4) 2 by simp
    then show ?thesis
      using less(1) [of "i + bl" m1 "t @ [0x3A, 0x3A]"] h less(3-7) 2
      by (subst ip6_print.simps, subst (1 2) ip6_text.simps) (simp add: m1_def)
  next
    case 3
    define sep where "sep = (t \<noteq> [] \<and> last t \<noteq> 0x3A)"
    define t1 where "t1 = (if sep then t @ [0x3A] else t)"
    define m1 where "m1 = (if sep then m'(dst + length t := 0x3A) else m')"
    have h1: "holds m1 m dst t1" using holds_append [OF less(2), of "[0x3A]"] less(2) by (simp add: m1_def t1_def)
    have s: "(dst + length t \<noteq> dst \<and> m' (dst + length t - 1) \<noteq> 0x3A) = sep"
      using holds_last [OF less(2)] by (cases "t = []") (auto simp: sep_def)
    define hx where "hx = num_text 16 (unat (words ! i))"
    have hx: "length hx \<le> 4" using num_text_short [of "unat (words ! i)"] unsigned_less [of "words ! i", where 'a = nat] by (simp add: hx_def)
    have l1: "length t1 \<le> 5 * i + 1" using less(7) by (simp add: t1_def)
    define k where "k = dst + sz - (dst + length t1)"
    have k: "length hx < k" using l1 hx 3(1) less(6) unfolding k_def by linarith
    have lt: "unat (words ! i) < 65536" using unsigned_less [of "words ! i", where 'a = nat] by simp
    have u: "unat (ucast (words ! i) :: u64) = unat (words ! i)" using lt by (subst unsigned_ucast_eq) (simp add: take_bit_nat_eq_self)
    have "printf_text 0 [0x25, 0x78] [ANum (ucast (words ! i))] = Some (hx, [], [])"
      using printf_u(2) [of "ucast (words ! i)" 0 "[]" "[]"] u lt by (simp add: printf_end hx_def)
    then obtain b where b: "vsnprintf m1 (dst + length t1) k (Some [0x25, 0x78]) [ANum (ucast (words ! i))] = Some (b, int (length hx))"
        "wmem b = wr m1 (dst + length t1) (hx @ [0])"
      using k less(5) by (auto simp: vsnprintf_numeric numeric_def)
    have h2: "holds (wmem b) m dst (t1 @ hx)" unfolding b(2) by (rule holds_printed [OF h1])
    have pr: "ip6_print words bl bi dst sz i m' (dst + length t) = ip6_print words bl bi dst sz (i + 1) (wmem b) (dst + length (t1 @ hx))"
      using 3 b(1) unfolding k_def
      by (subst ip6_print.simps) (simp only: s, simp add: m1_def t1_def add.assoc split: if_splits)
    have tx: "ip6_text words bl bi i t = ip6_text words bl bi (i + 1) (t1 @ hx)"
      using 3 by (subst ip6_text.simps) (auto simp: t1_def sep_def hx_def)
    have "length (t1 @ hx) \<le> 5 * (i + 1)" using l1 hx by simp
    then show ?thesis unfolding pr tx using less(1) [of "i + 1" "wmem b" "t1 @ hx"] h2 less(3-6) 3(1) by simp
  qed
qed

lemma ip6_words_length [simp]: "length (ip6_words b) = 8"
  by (simp add: ip6_words_def)

text \<open>
  C26: for every IPv6 address, \<^verbatim>\<open>inet_ntop\<close> into a buffer of at least 46 bytes returns the buffer with a text of at most 40
  characters and a terminator at its start, and changes nothing else in memory; a smaller buffer is refused.
\<close>

theorem inet6_ntop_bounded:
  assumes "dst \<noteq> 0"
  shows "if sz < 46 then inet_ntop AF_INET6 (Some b) m dst sz = Some (m, 0)
    else \<exists>t. inet_ntop AF_INET6 (Some b) m dst sz = Some (wr m dst (t @ [0]), dst) \<and> length t \<le> 40"
proof (cases "sz < 46")
  case True
  then show ?thesis using assms by (simp add: inet_ntop_def ntop_ip6_def AF_INET_def AF_INET6_def case_prod_beta Let_def)
next
  case False
  obtain bl bi cl ci where r: "best_run (ip6_words b) 0 (0, None, 0, 0) = (bl, bi, cl, ci)" by (metis prod.collapse)
  define bi' where "bi' = (if bl < 2 then None else bi)"
  define t where "t = ip6_text (ip6_words b) bl bi' 0 []"
  have bi': "bi' \<noteq> None \<Longrightarrow> 2 \<le> bl" by (auto simp: bi'_def split: if_splits)
  obtain m'' where p: "ip6_print (ip6_words b) bl bi' dst sz 0 m dst = Some (m'', dst + length t)" "holds m'' m dst t"
    using ip6_print_text [of m m dst "[]" "ip6_words b" bi' bl sz 0] assms False bi' by (auto simp: t_def holds_def)
  have "m''(dst + length t := 0) = wr m dst (t @ [0])" using p(2) by (auto simp: holds_def wr_append wr_apply)
  then have "inet_ntop AF_INET6 (Some b) m dst sz = Some (wr m dst (t @ [0]), dst)"
    using assms False r p(1) by (simp add: inet_ntop_def ntop_ip6_def AF_INET_def AF_INET6_def bi'_def Let_def)
  moreover have "length t \<le> 40" using ip6_text_length [of "ip6_words b" bi' bl 0 "[]"] bi' by (simp add: t_def)
  ultimately show ?thesis using False by auto
qed

theorem inet6_ntop_bounded_witness:
  "\<exists>t. inet_ntop AF_INET6 (Some (replicate 15 0 @ [1])) (\<lambda>_. 0) 100 46 = Some (wr (\<lambda>_. 0) 100 (t @ [0]), 100) \<and> length t \<le> 40"
  using inet6_ntop_bounded [of 100 46 "replicate 15 0 @ [1]" "\<lambda>_. 0"] by simp

section \<open>IPv6 without compression\<close>

text \<open>Without two adjacent zero groups no run is compressed.\<close>

lemma best_run_short:
  assumes "\<And>i. i < 7 \<Longrightarrow> \<not> (words ! i = 0 \<and> words ! Suc i = 0)"
  shows "bl < 2 \<Longrightarrow> cl < 2 \<Longrightarrow> (cl = 1 \<Longrightarrow> 0 < i \<and> words ! (i - 1) = 0) \<Longrightarrow> fst (best_run words i (bl, bi, cl, ci)) < 2"
proof (induction "8 - i" arbitrary: i bl bi cl ci rule: less_induct)
  case less
  show ?case
  proof (cases "i < 8")
    case True
    show ?thesis
    proof (cases "words ! i = 0")
      case z: True
      have "cl = 0"
      proof (rule ccontr)
        assume "cl \<noteq> 0"
        then have "0 < i" "words ! (i - 1) = 0" using less by auto
        then show False using assms [of "i - 1"] z True by (cases i) auto
      qed
      then show ?thesis using less(1) [of "Suc i"] less(2) z True by (subst best_run.simps) (auto simp: Let_def)
    next
      case False
      then show ?thesis using less(1) [of "Suc i"] less(2) True by (subst best_run.simps) auto
    qed
  next
    case False
    then show ?thesis using less(2) by (subst best_run.simps) simp
  qed
qed

lemma num_text_last: "num_text 16 n \<noteq> []" "last (num_text 16 n) \<noteq> 0x3A"
proof -
  show ne: "num_text 16 n \<noteq> []" by (simp add: num_text_def)
  show "last (num_text 16 n) \<noteq> 0x3A" using num_text_chars [OF last_in_set [OF ne]] by simp
qed

lemma ip6_text_tail:
  assumes "length words = 8" "i < 8" "t \<noteq> []" "last t \<noteq> 0x3A"
  shows "ip6_text words bl None i t = t @ 0x3A # joined (map unat (drop i words))"
  using assms
proof (induction "8 - i" arbitrary: i t rule: less_induct)
  case less
  define hx where "hx = num_text 16 (unat (words ! i))"
  have hx: "hx \<noteq> []" "last hx \<noteq> 0x3A" using num_text_last by (simp_all add: hx_def)
  have e: "ip6_text words bl None i t = ip6_text words bl None (Suc i) ((t @ [0x3A]) @ hx)"
    using less by (subst ip6_text.simps) (simp add: hx_def)
  have d: "drop i words = words ! i # drop (Suc i) words" using less by (simp add: Cons_nth_drop_Suc)
  show ?case
  proof (cases "Suc i < 8")
    case True
    then obtain w ws where w: "drop (Suc i) words = w # ws" using less(2) by (cases "drop (Suc i) words") auto
    show ?thesis unfolding e using less(1) [of "Suc i" "(t @ [0x3A]) @ hx"] less(2) True hx d w by (simp add: hx_def)
  next
    case False
    then have "drop (Suc i) words = []" using less(2) by simp
    then show ?thesis unfolding e using False d by (subst ip6_text.simps) (simp add: hx_def)
  qed
qed

lemma ip6_text_joined:
  assumes "length words = 8"
  shows "ip6_text words bl None 0 [] = joined (map unat words)"
proof -
  define hx where "hx = num_text 16 (unat (words ! 0))"
  have hx: "hx \<noteq> []" "last hx \<noteq> 0x3A" using num_text_last by (simp_all add: hx_def)
  obtain v w ws where w: "words = v # w # ws" using assms by (cases words; cases "tl words") auto
  have "ip6_text words bl None 0 [] = ip6_text words bl None 1 hx" by (subst ip6_text.simps) (simp add: hx_def)
  also have "\<dots> = hx @ 0x3A # joined (map unat (drop 1 words))" using ip6_text_tail [OF assms _ hx] by simp
  finally show ?thesis by (simp add: w hx_def)
qed

lemma ip6_bytes:
  assumes "length b = 16"
  shows "concat (map (\<lambda>j. [ucast (drop_bit 8 (ip6_words b ! j)), ucast (ip6_words b ! j AND 0xff)]) [0..<8]) = b"
proof -
  have h: "ucast (drop_bit 8 (push_bit 8 (ucast x) OR ucast y :: u16)) = x" "ucast ((push_bit 8 (ucast x) OR ucast y :: u16) AND 0xff) = y"
    for x y :: byte
  proof -
    have m: "(0xff :: u16) = mask 8" by (simp add: mask_eq_exp_minus_1)
    show "ucast (drop_bit 8 (push_bit 8 (ucast x) OR ucast y :: u16)) = x"
      by (rule bit_word_eqI) (auto simp: bit_simps dest: bit_imp_le_length)
    show "ucast ((push_bit 8 (ucast x) OR ucast y :: u16) AND 0xff) = y" unfolding m
      by (rule bit_word_eqI) (auto simp: bit_simps)
  qed
  have "concat (map (\<lambda>j. [ucast (drop_bit 8 (ip6_words b ! j)), ucast (ip6_words b ! j AND 0xff)]) [0..<8]) =
      concat (map (\<lambda>j. [b ! (j * 2), b ! (j * 2 + 1)]) [0..<8])"
    by (rule arg_cong [where f = concat], rule map_cong [OF refl]) (simp only: ip6_words_def set_upt atLeastLessThan_iff nth_map_upt diff_zero add_0 h)
  also have "\<dots> = map ((!) b) [0..<16]" by (simp add: upt_rec numeral_eq_Suc)
  also have "\<dots> = b" using assms map_nth [of b] by simp
  finally show ?thesis .
qed

text \<open>
  C27: an IPv6 address without two adjacent zero groups is printed by \<^verbatim>\<open>inet_ntop\<close> as a terminated string from which
  \<^verbatim>\<open>inet_pton\<close> reads the address back.
\<close>

theorem inet6_round_trip:
  assumes "length b = 16" "dst \<noteq> 0" "46 \<le> sz" "\<And>i. i < 7 \<Longrightarrow> \<not> (ip6_words b ! i = 0 \<and> ip6_words b ! Suc i = 0)"
  shows "\<exists>m' t. inet_ntop AF_INET6 (Some b) m dst sz = Some (m', dst) \<and> cstr m' dst t \<and>
    inet_pton AF_INET6 (Some t) (Some d) = Some (1, Some b)"
proof -
  obtain bl bi cl ci where r: "best_run (ip6_words b) 0 (0, None, 0, 0) = (bl, bi, cl, ci)" by (metis prod.collapse)
  have "fst (best_run (ip6_words b) 0 (0, None, 0, 0)) < 2"
    by (rule best_run_short [where words = "ip6_words b", OF assms(4)]) simp_all
  then have bl: "bl < 2" by (simp add: r)
  define t where "t = joined (map unat (ip6_words b))"
  have t: "ip6_text (ip6_words b) bl None 0 [] = t" using ip6_text_joined by (simp add: t_def)
  obtain m'' where p: "ip6_print (ip6_words b) bl None dst sz 0 m dst = Some (m'', dst + length t)" "holds m'' m dst t"
    using ip6_print_text [of m m dst "[]" "ip6_words b" None bl sz 0] assms(2,3) t by (auto simp: holds_def)
  have m: "m''(dst + length t := 0) = wr m dst (t @ [0])" using p(2) by (auto simp: holds_def wr_append wr_apply)
  have n: "inet_ntop AF_INET6 (Some b) m dst sz = Some (wr m dst (t @ [0]), dst)"
    using assms(2,3) r p(1) bl m by (simp add: inet_ntop_def ntop_ip6_def AF_INET_def AF_INET6_def Let_def)
  have "0 \<notin> set t" using joined_chars by (auto simp: t_def)
  moreover have "rd (wr m dst (t @ [0])) dst (length (t @ [0])) = t @ [0]" by (rule rd_wr_same)
  ultimately have c: "cstr (wr m dst (t @ [0])) dst t" by (simp add: cstr_iff rd_Suc_snoc del: rd.simps)
  have ne: "ip6_words b \<noteq> []" using ip6_words_length by (metis length_0_conv zero_neq_numeral)
  have "ip6_loop t \<lparr>i6w = replicate 8 0, i6n = 0, i6comp = None\<rparr> = Some (Parsed \<lparr>i6w = ip6_words b, i6n = 8, i6comp = None\<rparr>)"
    using ip6_groups [OF ne, of "\<lparr>i6w = replicate 8 0, i6n = 0, i6comp = None\<rparr>"] by (simp add: t_def)
  then have "inet_pton AF_INET6 (Some t) (Some d) = Some (1, Some b)"
    using ip6_bytes [OF assms(1)] by (simp add: inet_pton_def pton_ip6_def ip6_expand_def AF_INET_def AF_INET6_def)
  then show ?thesis using n c by blast
qed

theorem inet6_round_trip_witness:
  "\<exists>m' t. inet_ntop AF_INET6 (Some (replicate 16 1)) (\<lambda>_. 0) 100 46 = Some (m', 100) \<and> cstr m' 100 t \<and>
    inet_pton AF_INET6 (Some t) (Some []) = Some (1, Some (replicate 16 1))"
proof -
  have "ip6_words (replicate 16 1) = replicate 8 0x101" by code_simp
  then show ?thesis using inet6_round_trip [of "replicate 16 1" 100 46 "\<lambda>_. 0" "[]"] by simp
qed

section \<open>Deviations\<close>

text \<open>
  Two colons anywhere but at the start of an IPv6 address: the groups are moved from the start of the array instead of from where
  the colons stood, beyond the end of the array.
\<close>

lemma ip6_expand_overflows: "i6comp s = Some c \<Longrightarrow> 0 < c \<Longrightarrow> c \<le> i6n s \<Longrightarrow> i6n s \<le> 8 \<Longrightarrow> ip6_expand s = None"
  by (simp add: ip6_expand_def)

text \<open>The loopback test looks at the last four bytes only.\<close>

lemma loopback_ignores_prefix: "IN6_IS_ADDR_LOOPBACK ([0xfe, 0x80] @ replicate 13 0 @ [1])"
  by code_simp

end
