(* ===== verification/Wctype.thy ===== *)
theory Wctype
  imports Ctype
begin

text \<open>
  \<^verbatim>\<open>include/wctype.h\<close>: the classes and case mappings of wide characters.  A locale is the part of \<^verbatim>\<open>__jacl_wctype_t\<close> the
  functions read: the ten digits, the tables of upper, lower and extra characters, and how many entries of each are in use.
  The tables are initialised from string literals, so the entries after the listed ones are 0.  \<^verbatim>\<open>wint_t\<close> is 32 bits wide.

  The functions of this header without the suffix \<^verbatim>\<open>_l\<close> are the same at \<^verbatim>\<open>__jacl_locale_current\<close>, which at start-up is \<open>c_locale\<close>.
\<close>

record wlocale =
  wl_d :: "u32 list"
  wl_u :: "u32 list"
  wl_l :: "u32 list"
  wl_e :: "u32 list"
  u_count :: nat
  l_count :: nat
  e_count :: nat

definition c_locale :: wlocale where
  "c_locale = \<lparr>wl_d = map of_nat [48..<58], wl_u = map of_nat [65..<91], wl_l = map of_nat [97..<123], wl_e = [],
     u_count = 26, l_count = 26, e_count = 0\<rparr>"

definition WEOF :: u32 where "WEOF = 0xFFFFFFFF"

definition entry :: "u32 list \<Rightarrow> nat \<Rightarrow> u32" where
  "entry t i = (if i < length t then t ! i else 0)"

text \<open>The loops over a table: the index of the first of the \<open>n\<close> entries from \<open>i\<close> on that equals \<open>c\<close>.\<close>

fun table_find :: "u32 list \<Rightarrow> u32 \<Rightarrow> nat \<Rightarrow> nat \<Rightarrow> nat option" where
  "table_find t c i 0 = None"
| "table_find t c i (Suc n) = (if entry t i = c then Some i else table_find t c (Suc i) n)"

definition iswcntrl_l :: "u32 \<Rightarrow> wlocale \<Rightarrow> bool" where
  "iswcntrl_l c l \<longleftrightarrow> (c \<ge> 0 \<and> c \<le> 0x1F) \<or> (c \<ge> 0x7F \<and> c \<le> 0x9F) \<or> c = 0x2028 \<or> c = 0x2029"

definition iswspace_l :: "u32 \<Rightarrow> wlocale \<Rightarrow> bool" where
  "iswspace_l c l \<longleftrightarrow> c = 32 \<or> c = 9 \<or> c = 10 \<or> c = 11 \<or> c = 12 \<or> c = 13"

definition iswblank_l :: "u32 \<Rightarrow> wlocale \<Rightarrow> bool" where
  "iswblank_l c l \<longleftrightarrow> c = 32 \<or> c = 9"

definition iswprint_l :: "u32 \<Rightarrow> wlocale \<Rightarrow> bool" where
  "iswprint_l c l \<longleftrightarrow> c \<noteq> WEOF \<and> \<not> iswcntrl_l c l"

definition iswgraph_l :: "u32 \<Rightarrow> wlocale \<Rightarrow> bool" where
  "iswgraph_l c l \<longleftrightarrow> iswprint_l c l \<and> \<not> iswspace_l c l"

definition iswxdigit_l :: "u32 \<Rightarrow> wlocale \<Rightarrow> bool" where
  "iswxdigit_l c l \<longleftrightarrow> (c \<ge> 48 \<and> c \<le> 57) \<or> (c \<ge> 65 \<and> c \<le> 70) \<or> (c \<ge> 97 \<and> c \<le> 102)"

definition iswdigit_l :: "u32 \<Rightarrow> wlocale \<Rightarrow> bool" where
  "iswdigit_l c l \<longleftrightarrow> table_find (wl_d l) c 0 10 \<noteq> None"

text \<open>The punctuation every locale has.\<close>

definition punct_core :: "u32 list" where
  "punct_core = [46, 44, 33, 63, 59, 58, 39, 34, 40, 41, 91, 93, 123, 125, 60, 62, 47, 92, 45, 95, 61, 43, 64, 35, 36, 37, 94, 38, 42, 124, 96, 126, 8211, 8212, 8230, 8216, 8217, 8220, 8221, 183, 8226, 176, 182, 167, 8224, 8225, 171, 187]"

definition iswpunct_l :: "u32 \<Rightarrow> wlocale \<Rightarrow> bool" where
  "iswpunct_l c l \<longleftrightarrow> (c \<noteq> 0 \<and> c \<in> set punct_core) \<or> table_find (wl_e l) c 0 (e_count l) \<noteq> None"

definition iswlower_l :: "u32 \<Rightarrow> wlocale \<Rightarrow> bool" where
  "iswlower_l c l \<longleftrightarrow> table_find (wl_l l) c 0 (l_count l) \<noteq> None"

definition iswupper_l :: "u32 \<Rightarrow> wlocale \<Rightarrow> bool" where
  "iswupper_l c l \<longleftrightarrow> table_find (wl_u l) c 0 (u_count l) \<noteq> None"

definition iswalpha_l :: "u32 \<Rightarrow> wlocale \<Rightarrow> bool" where
  "iswalpha_l c l \<longleftrightarrow> iswlower_l c l \<or> iswupper_l c l"

definition iswalnum_l :: "u32 \<Rightarrow> wlocale \<Rightarrow> bool" where
  "iswalnum_l c l \<longleftrightarrow> iswalpha_l c l \<or> iswdigit_l c l"

definition towupper_l :: "u32 \<Rightarrow> wlocale \<Rightarrow> u32" where
  "towupper_l c l =
     (if u_count l \<noteq> l_count l then c
      else case table_find (wl_l l) c 0 (l_count l) of Some i \<Rightarrow> entry (wl_u l) i | None \<Rightarrow> c)"

definition towlower_l :: "u32 \<Rightarrow> wlocale \<Rightarrow> u32" where
  "towlower_l c l =
     (if u_count l \<noteq> l_count l then c
      else case table_find (wl_u l) c 0 (u_count l) of Some i \<Rightarrow> entry (wl_l l) i | None \<Rightarrow> c)"

section \<open>Classes by name\<close>

datatype wctype_t =
  WCTYPE_UNKNOWN | WCTYPE_LOWER | WCTYPE_UPPER | WCTYPE_DIGIT | WCTYPE_ALPHA | WCTYPE_ALNUM | WCTYPE_SPACE | WCTYPE_CNTRL
| WCTYPE_PRINT | WCTYPE_GRAPH | WCTYPE_PUNCT | WCTYPE_BLANK | WCTYPE_XDIGIT

datatype wctrans_t = WCTRANS_UNKNOWN | WCTRANS_TOLOWER | WCTRANS_TOUPPER

text \<open>Names are byte lists without the terminator; \<open>None\<close> is the null pointer.\<close>

definition ascii :: "string \<Rightarrow> byte list" where
  "ascii s = map of_char s"

definition wctype_names :: "(byte list \<times> wctype_t) list" where
  "wctype_names =
     [(ascii ''lower'', WCTYPE_LOWER), (ascii ''upper'', WCTYPE_UPPER), (ascii ''digit'', WCTYPE_DIGIT), (ascii ''alpha'', WCTYPE_ALPHA),
      (ascii ''alnum'', WCTYPE_ALNUM), (ascii ''space'', WCTYPE_SPACE), (ascii ''cntrl'', WCTYPE_CNTRL), (ascii ''print'', WCTYPE_PRINT),
      (ascii ''graph'', WCTYPE_GRAPH), (ascii ''punct'', WCTYPE_PUNCT), (ascii ''blank'', WCTYPE_BLANK), (ascii ''xdigit'', WCTYPE_XDIGIT)]"

definition wctype_l :: "byte list option \<Rightarrow> wctype_t" where
  "wctype_l property =
     (case property of None \<Rightarrow> WCTYPE_UNKNOWN
      | Some p \<Rightarrow> (case map_of wctype_names p of Some t \<Rightarrow> t | None \<Rightarrow> WCTYPE_UNKNOWN))"

fun iswctype_l :: "u32 \<Rightarrow> wctype_t \<Rightarrow> wlocale \<Rightarrow> bool" where
  "iswctype_l c WCTYPE_UNKNOWN l = False"
| "iswctype_l c WCTYPE_LOWER l = iswlower_l c l"
| "iswctype_l c WCTYPE_UPPER l = iswupper_l c l"
| "iswctype_l c WCTYPE_DIGIT l = iswdigit_l c l"
| "iswctype_l c WCTYPE_ALPHA l = iswalpha_l c l"
| "iswctype_l c WCTYPE_ALNUM l = iswalnum_l c l"
| "iswctype_l c WCTYPE_SPACE l = iswspace_l c l"
| "iswctype_l c WCTYPE_CNTRL l = iswcntrl_l c l"
| "iswctype_l c WCTYPE_PRINT l = iswprint_l c l"
| "iswctype_l c WCTYPE_GRAPH l = iswgraph_l c l"
| "iswctype_l c WCTYPE_PUNCT l = iswpunct_l c l"
| "iswctype_l c WCTYPE_BLANK l = iswblank_l c l"
| "iswctype_l c WCTYPE_XDIGIT l = iswxdigit_l c l"

definition wctrans_l :: "byte list option \<Rightarrow> wctrans_t" where
  "wctrans_l property =
     (if property = Some (ascii ''tolower'') then WCTRANS_TOLOWER
      else if property = Some (ascii ''toupper'') then WCTRANS_TOUPPER
      else WCTRANS_UNKNOWN)"

fun towctrans_l :: "u32 \<Rightarrow> wctrans_t \<Rightarrow> wlocale \<Rightarrow> u32" where
  "towctrans_l c WCTRANS_UNKNOWN l = c"
| "towctrans_l c WCTRANS_TOLOWER l = towlower_l c l"
| "towctrans_l c WCTRANS_TOUPPER l = towupper_l c l"

section \<open>Tables\<close>

lemma table_find_Some:
  "table_find t c i n = Some j \<Longrightarrow> i \<le> j \<and> j < i + n \<and> entry t j = c"
  by (induction n arbitrary: i) (auto split: if_splits, fastforce+)

lemma table_find_None: "table_find t c i n = None \<longleftrightarrow> (\<forall>j. i \<le> j \<and> j < i + n \<longrightarrow> entry t j \<noteq> c)"
proof (induction n arbitrary: i)
  case (Suc n)
  show ?case
  proof
    assume a: "table_find t c i (Suc n) = None"
    then have "entry t i \<noteq> c" "\<forall>j. Suc i \<le> j \<and> j < Suc i + n \<longrightarrow> entry t j \<noteq> c" using Suc by (auto split: if_splits)
    then show "\<forall>j. i \<le> j \<and> j < i + Suc n \<longrightarrow> entry t j \<noteq> c" by (metis add_Suc_shift le_eq_less_or_eq Suc_leI)
  next
    assume "\<forall>j. i \<le> j \<and> j < i + Suc n \<longrightarrow> entry t j \<noteq> c"
    then show "table_find t c i (Suc n) = None" using Suc by simp
  qed
qed auto

lemma table_find_distinct:
  assumes "inj_on (entry t) {..<n}" "j < n"
  shows "table_find t (entry t j) 0 n = Some j"
proof (cases "table_find t (entry t j) 0 n")
  case None
  then show ?thesis using assms(2) by (auto simp: table_find_None)
next
  case (Some k)
  then have "k < n" "entry t k = entry t j" using table_find_Some [OF Some] by auto
  then show ?thesis using Some assms by (auto dest: inj_onD)
qed

text \<open>
  In a locale whose tables of upper and lower case characters have the same length and whose upper case table has no
  duplicates, a character \<^verbatim>\<open>iswlower\<close> accepts is mapped by \<^verbatim>\<open>towupper\<close> to one \<^verbatim>\<open>iswupper\<close> accepts, and \<^verbatim>\<open>towlower\<close> brings it back.
\<close>

theorem towlower_towupper:
  assumes "u_count l = l_count l" "inj_on (entry (wl_u l)) {..<u_count l}" "iswlower_l c l"
  shows "iswupper_l (towupper_l c l) l \<and> towlower_l (towupper_l c l) l = c"
proof -
  obtain j where j: "table_find (wl_l l) c 0 (l_count l) = Some j" using assms(3) by (auto simp: iswlower_l_def)
  then have b: "j < l_count l" "entry (wl_l l) j = c" using table_find_Some [OF j] by auto
  have u: "towupper_l c l = entry (wl_u l) j" using j assms(1) by (simp add: towupper_l_def)
  have "table_find (wl_u l) (entry (wl_u l) j) 0 (u_count l) = Some j" using assms b by (intro table_find_distinct) auto
  then show ?thesis using b assms(1) by (simp add: u iswupper_l_def towlower_l_def)
qed

theorem towlower_towupper_witness:
  "iswupper_l (towupper_l 113 c_locale) c_locale \<and> towlower_l (towupper_l 113 c_locale) c_locale = 113"
proof (rule towlower_towupper)
  show "u_count c_locale = l_count c_locale" by (simp add: c_locale_def)
  show "inj_on (entry (wl_u c_locale)) {..<u_count c_locale}"
  proof (rule inj_onI)
    fix x y assume a: "x \<in> {..<u_count c_locale}" "y \<in> {..<u_count c_locale}" "entry (wl_u c_locale) x = entry (wl_u c_locale) y"
    have "distinct (wl_u c_locale)" "length (wl_u c_locale) = u_count c_locale" by code_simp+
    then show "x = y" using a by (simp add: entry_def nth_eq_iff_index_eq)
  qed
  show "iswlower_l 113 c_locale" by code_simp
qed

end
