(* ===== verification/Match.thy ===== *)
theory Match
  imports Wctype "HOL-Library.Monad_Syntax"
begin

text \<open>
  The matching half of \<^verbatim>\<open>include/core/match.h\<close>: the arena of nodes a compiled pattern is, the primitives that
  try one node at a position, \<^verbatim>\<open>matchfind\<close>, which dispatches to them, the literal prefilter \<^verbatim>\<open>matchgate\<close>, and \<^verbatim>\<open>matchexec\<close>.

  The subject is a byte list and a pointer into it an offset; \<open>en_past\<close> is the byte at \<^verbatim>\<open>end\<close>, \<open>None\<close> when the caller does not
  own it.  The outer \<open>None\<close> of a result is a step C does not define: an index outside an array, a read of the uninitialised
  workspace of \<^verbatim>\<open>REP\<close>, a signed overflow, or a loop that does not end; \<open>Some (None, c)\<close> is the null pointer of a failed match.

  Every primitive takes \<open>mf\<close>, the \<^verbatim>\<open>matchfind\<close> it calls.  \<^verbatim>\<open>matchfind\<close> recurses on fuel; \<open>Suc MATCH_MAX_DEPTH\<close> is always
  enough, because each call raises the depth of the context and refuses to go past the limit.
\<close>

unbundle bit_operations_syntax

section \<open>Data\<close>

definition MATCH_MAX_GROUPS :: nat where "MATCH_MAX_GROUPS = 32"
definition MATCH_MAX_DEPTH :: nat where "MATCH_MAX_DEPTH = 2000"
definition MATCH_MAX_BACKTRACK :: nat where "MATCH_MAX_BACKTRACK = 255"

datatype match_tok =
  MTOK_END | MTOK_CHAR | MTOK_CLASS | MTOK_ANY | MTOK_BOL | MTOK_EOL | MTOK_CAP | MTOK_ALT | MTOK_SEQ | MTOK_REP
| MTOK_LOOK | MTOK_BACKREF | MTOK_WB | MTOK_NWB | MTOK_FLAGS | MTOK_ATOMIC | MTOK_COND | MTOK_CALL

datatype match_err =
  M_SUCCESS | M_NOMATCH | M_BADPAT | M_EESCAPE | M_ESUBMATCH | M_EBRACK | M_EPAREN | M_ECOLLATE | M_ECTYPE | M_BADBR
| M_EBRACE | M_ERANGE | M_BADRPT | M_ESPACE | M_EDEPTH | M_EFLAGS | M_EINTERNAL | M_EUNSAFE | M_ECALL | M_ECOND
| M_ELOOK | M_EVERB

definition MEXEC_ICASE :: u32 where "MEXEC_ICASE = 0x01"
definition MEXEC_NEWLINE :: u32 where "MEXEC_NEWLINE = 0x02"
definition MEXEC_NOTBOL :: u32 where "MEXEC_NOTBOL = 0x04"
definition MEXEC_NOTEOL :: u32 where "MEXEC_NOTEOL = 0x08"
definition MEXEC_DOTALL :: u32 where "MEXEC_DOTALL = 0x10"
definition MEXEC_MULTILINE :: u32 where "MEXEC_MULTILINE = 0x20"
definition MEXEC_UNGREEDY :: u32 where "MEXEC_UNGREEDY = 0x40"
definition MEXEC_LONGEST :: u32 where "MEXEC_LONGEST = 0x80"
definition MEXEC_UTF :: u32 where "MEXEC_UTF = 0x100"
definition MEXEC_UCP :: u32 where "MEXEC_UCP = 0x200"
definition MEXEC_NOSUB :: u32 where "MEXEC_NOSUB = 0x400"
definition MEXEC_PARTSOFT :: u32 where "MEXEC_PARTSOFT = 0x1000"
definition MEXEC_PARTHARD :: u32 where "MEXEC_PARTHARD = 0x2000"
definition MEXEC_NOOPTIM :: u32 where "MEXEC_NOOPTIM = 0x4000"

text \<open>The fields \<^verbatim>\<open>cap_id\<close>, \<^verbatim>\<open>min\<close> and \<^verbatim>\<open>max\<close> are bytes.\<close>

record match_node =
  n_type :: match_tok
  n_val :: u32
  n_a :: nat
  n_b :: nat
  n_neg :: bool
  n_cap :: nat
  n_min :: nat
  n_max :: nat
  n_lazy :: bool
  n_eflags :: u32

text \<open>
  The compiled pattern.  \<^verbatim>\<open>lit\<close> holds the \<^verbatim>\<open>nlit\<close> bytes in use; the class tables are arrays of 32 entries, \<open>m_nr\<close> of them in use;
  \<^verbatim>\<open>arena\<close> holds the \<^verbatim>\<open>count\<close> nodes in use.
\<close>

record matcher =
  m_nsub :: nat
  m_cflags :: u32
  m_eflags :: u32
  m_lit :: "byte list"
  m_root :: nat
  m_nr :: nat
  m_rlo :: "u32 list"
  m_rhi :: "u32 list"
  m_rcid :: "nat list"
  m_rneg :: "bool list"
  m_cname :: "byte list option list"
  m_names :: "byte list option list"
  m_groups :: "nat list"
  m_unicode :: bool
  m_arena :: "match_node list"
  m_capacity :: nat

text \<open>
  The part of \<^verbatim>\<open>match_ctx_t\<close> that does not change during a search, and the part that does.  The workspace of \<^verbatim>\<open>REP\<close> is shared by all
  contexts of a search; an entry is \<open>None\<close> until it is written.
\<close>

record menv =
  en_m :: matcher
  en_s :: "byte list"
  en_past :: "byte option"
  en_nl :: bool
  en_ef :: u32
  en_loc :: wlocale

record match_ctx =
  c_caps :: "int list"
  c_ic :: bool
  c_depth :: nat
  c_err :: match_err
  c_path :: "nat option list"
  c_cpath :: "int list option list"

abbreviation en_len :: "menv \<Rightarrow> nat" where
  "en_len e \<equiv> length (en_s e)"

type_synonym mresult = "(nat option \<times> match_ctx) option"
type_synonym mfind = "match_ctx \<Rightarrow> nat \<Rightarrow> nat \<Rightarrow> mresult"

abbreviation (input) fails :: "match_ctx \<Rightarrow> mresult" where
  "fails c \<equiv> Some (None, c)"

section \<open>Characters and classes\<close>

definition utf8_is_cont :: "byte \<Rightarrow> bool" where
  "utf8_is_cont b \<longleftrightarrow> b AND 0xC0 = 0x80"

fun utf8_tail :: "byte list \<Rightarrow> nat \<Rightarrow> nat \<Rightarrow> nat \<Rightarrow> u32 \<Rightarrow> u32 \<times> nat" where
  "utf8_tail s en 0 p cp = (cp, p)"
| "utf8_tail s en (Suc k) p cp =
     (if p < en then utf8_tail s en k (Suc p) (push_bit 6 cp OR (ucast (s ! p) AND 0x3F)) else (cp, p))"

text \<open>The code point at offset \<open>p\<close> of the range that ends at \<open>en\<close>, and the offset after it.\<close>

definition match_utf8_next :: "byte list \<Rightarrow> nat \<Rightarrow> nat \<Rightarrow> u32 \<times> nat" where
  "match_utf8_next s en p =
     (if p \<ge> en then (0xFFFD, p)
      else
        let b = s ! p in
        if b < 0x80 then (ucast b, Suc p)
        else if b AND 0xE0 = 0xC0 then utf8_tail s en 1 (Suc p) (ucast (b AND 0x1F))
        else if b AND 0xF0 = 0xE0 then utf8_tail s en 2 (Suc p) (ucast (b AND 0x0F))
        else if b AND 0xF8 = 0xF0 then utf8_tail s en 3 (Suc p) (ucast (b AND 0x07))
        else (0xFFFD, en))"

function skip_cont :: "byte list \<Rightarrow> nat \<Rightarrow> nat \<Rightarrow> nat" where
  "skip_cont s en p = (if p < en \<and> utf8_is_cont (s ! p) then skip_cont s en (Suc p) else p)"
  by pat_completeness auto
termination by (relation "measure (\<lambda>(s, en, p). en - p)") auto

declare skip_cont.simps [simp del]

text \<open>Stepping back over continuation bytes, never past the start; \<open>byte_at\<close> also reads the byte at the end.\<close>

definition byte_at :: "menv \<Rightarrow> nat \<Rightarrow> byte option" where
  "byte_at e p = (if p < en_len e then Some (en_s e ! p) else if p = en_len e then en_past e else None)"

fun back_cont :: "menv \<Rightarrow> nat \<Rightarrow> nat option" where
  "back_cont e 0 = Some 0"
| "back_cont e (Suc p) = (case byte_at e (Suc p) of None \<Rightarrow> None | Some b \<Rightarrow> if utf8_is_cont b then back_cont e p else Some (Suc p))"

lemma back_cont_le: "back_cont e p = Some q \<Longrightarrow> q \<le> p"
  by (induction e p rule: back_cont.induct) (auto split: option.splits if_splits)

definition match_is_word :: "wlocale \<Rightarrow> u32 \<Rightarrow> bool" where
  "match_is_word l cp \<longleftrightarrow> iswalnum_l cp l \<or> cp = 95"

definition match_fold :: "wlocale \<Rightarrow> u32 \<Rightarrow> u32 \<Rightarrow> bool \<Rightarrow> bool" where
  "match_fold l cp m ic \<longleftrightarrow> cp = m \<or> ic \<and> towlower_l cp l = towlower_l m l"

text \<open>\<^verbatim>\<open>__jacl_match_in_class\<close>: the loop returns \<open>(found, in_range, neg)\<close>.\<close>

fun class_loop :: "wlocale \<Rightarrow> matcher \<Rightarrow> u32 \<Rightarrow> nat \<Rightarrow> nat list \<Rightarrow> bool \<times> bool \<times> bool \<Rightarrow> bool \<times> bool \<times> bool" where
  "class_loop l m cp cid [] r = r"
| "class_loop l m cp cid (i # is) (found, in_range, neg) =
     class_loop l m cp cid is
       (if m_rcid m ! i \<noteq> cid then (found, in_range, neg)
        else
          (True,
           (case m_cname m ! i of
              Some nm \<Rightarrow> in_range \<or> wctype_l (Some nm) \<noteq> WCTYPE_UNKNOWN \<and> iswctype_l cp (wctype_l (Some nm)) l
            | None \<Rightarrow> in_range \<or> cp \<ge> m_rlo m ! i \<and> cp \<le> m_rhi m ! i),
           m_rneg m ! i))"

definition swap_case :: "u32 \<Rightarrow> u32" where
  "swap_case cp = (if cp \<ge> 65 \<and> cp \<le> 90 then cp + 32 else if cp \<ge> 97 \<and> cp \<le> 122 then cp - 32 else cp)"

definition match_in_class :: "wlocale \<Rightarrow> matcher \<Rightarrow> u32 \<Rightarrow> nat \<Rightarrow> bool \<Rightarrow> bool" where
  "match_in_class l m cp cid ic =
     (case class_loop l m cp cid [0..<m_nr m] (False, False, False) of
        (found, in_range, neg) \<Rightarrow>
          if \<not> found then False else if neg then \<not> in_range else if in_range then True
          else if ic \<and> cp < 0x80 then
            (\<exists>i \<in> set [0..<m_nr m]. m_rcid m ! i = cid \<and> m_cname m ! i = None \<and> swap_case cp \<ge> m_rlo m ! i \<and> swap_case cp \<le> m_rhi m ! i)
          else False)"

section \<open>Primitives\<close>

definition prim_CHAR :: "menv \<Rightarrow> mfind \<Rightarrow> match_ctx \<Rightarrow> match_node \<Rightarrow> nat \<Rightarrow> mresult" where
  "prim_CHAR e mf c n pos =
     (if pos \<ge> en_len e then fails c
      else if en_s e ! pos < 0x80 then
        (if match_fold (en_loc e) (ucast (en_s e ! pos)) (n_val n) (c_ic c) then mf c (n_b n) (pos + 1) else fails c)
      else
        case match_utf8_next (en_s e) (en_len e) pos of
          (cp, next_pos) \<Rightarrow> if match_fold (en_loc e) cp (n_val n) (c_ic c) then mf c (n_b n) next_pos else fails c)"

definition class_char :: "menv \<Rightarrow> nat \<Rightarrow> u32 \<times> nat" where
  "class_char e pos =
     (if \<not> m_unicode (en_m e) \<and> en_s e ! pos < 128 then (ucast (en_s e ! pos), pos + 1) else match_utf8_next (en_s e) (en_len e) pos)"

definition prim_CLASS :: "menv \<Rightarrow> mfind \<Rightarrow> match_ctx \<Rightarrow> match_node \<Rightarrow> nat \<Rightarrow> mresult" where
  "prim_CLASS e mf c n pos =
     (if pos \<ge> en_len e then fails c
      else
        case class_char e pos of
          (cp, next_pos) \<Rightarrow>
            if match_in_class (en_loc e) (en_m e) cp (unat (n_val n) mod 256) (c_ic c) then mf c (n_b n) next_pos else fails c)"

definition prim_ANY :: "menv \<Rightarrow> mfind \<Rightarrow> match_ctx \<Rightarrow> match_node \<Rightarrow> nat \<Rightarrow> mresult" where
  "prim_ANY e mf c n pos =
     (if pos \<ge> en_len e then fails c
      else if n_eflags n AND MEXEC_DOTALL = 0 \<and> en_s e ! pos = 10 then fails c
      else mf c (n_b n) (if en_s e ! pos \<ge> 0x80 then skip_cont (en_s e) (en_len e) (pos + 1) else pos + 1))"

definition prim_BOL :: "menv \<Rightarrow> mfind \<Rightarrow> match_ctx \<Rightarrow> match_node \<Rightarrow> nat \<Rightarrow> mresult" where
  "prim_BOL e mf c n pos =
     (if en_ef e AND MEXEC_NOTBOL \<noteq> 0 then fails c
      else if pos = 0 \<or> en_nl e \<and> pos > 0 \<and> en_s e ! (pos - 1) = 10 then mf c (n_b n) pos else fails c)"

definition prim_EOL :: "menv \<Rightarrow> mfind \<Rightarrow> match_ctx \<Rightarrow> match_node \<Rightarrow> nat \<Rightarrow> mresult" where
  "prim_EOL e mf c n pos =
     (if en_ef e AND MEXEC_NOTEOL \<noteq> 0 then fails c
      else if pos = en_len e \<or> en_nl e \<and> pos < en_len e \<and> en_s e ! pos = 10 then mf c (n_b n) pos else fails c)"

definition prim_CAP :: "menv \<Rightarrow> mfind \<Rightarrow> match_ctx \<Rightarrow> match_node \<Rightarrow> nat \<Rightarrow> mresult" where
  "prim_CAP e mf c n pos =
     (let idx = n_cap n * 2 in
      if idx + 1 \<ge> MATCH_MAX_GROUPS * 2 then fails (c\<lparr>c_err := M_EINTERNAL\<rparr>)
      else
        let so = c_caps c ! idx; eo = c_caps c ! (idx + 1);
            restore = (\<lambda>c. c\<lparr>c_caps := (c_caps c)[idx := so, idx + 1 := eo]\<rparr>)
        in do {
          (r, c) \<leftarrow> mf (c\<lparr>c_caps := (c_caps c)[idx := int pos]\<rparr>) (n_a n) pos;
          case r of
            None \<Rightarrow> fails (restore c)
          | Some q \<Rightarrow>
              if c_err c \<noteq> M_SUCCESS then fails (restore c)
              else do {
                (res, c) \<leftarrow> mf (c\<lparr>c_caps := (c_caps c)[idx + 1 := int q]\<rparr>) (n_b n) q;
                Some (res, if res = None then restore c else c)
              }
        })"

text \<open>
  The loop of \<^verbatim>\<open>SEQ\<close> along the second components; the first argument bounds its iterations.  After the loop the rest is matched
  from the last position.
\<close>

fun seq_loop :: "menv \<Rightarrow> mfind \<Rightarrow> nat \<Rightarrow> match_ctx \<Rightarrow> nat \<Rightarrow> nat \<Rightarrow> mresult" where
  "seq_loop e mf 0 c i pos = None"
| "seq_loop e mf (Suc k) c i pos =
     (if i = 0 then mf c i pos
      else if i \<ge> length (m_arena (en_m e)) then None
      else
        let n = m_arena (en_m e) ! i in
        if n_type n \<noteq> MTOK_SEQ then mf c i pos
        else do {
          (r, c) \<leftarrow> mf c (n_a n) pos;
          case r of
            None \<Rightarrow> fails c
          | Some q \<Rightarrow>
              if c_err c \<noteq> M_SUCCESS then fails c
              else if n_b n = 0 then seq_loop e mf k c 0 q
              else if n_b n \<ge> length (m_arena (en_m e)) then None
              else seq_loop e mf k
                     (c\<lparr>c_ic := (if n_eflags (m_arena (en_m e) ! n_b n) AND MEXEC_ICASE \<noteq> 0 then True else c_ic c)\<rparr>) (n_b n) q
        })"

definition prim_SEQ :: "menv \<Rightarrow> mfind \<Rightarrow> match_ctx \<Rightarrow> nat \<Rightarrow> nat \<Rightarrow> mresult" where
  "prim_SEQ e mf c i pos = seq_loop e mf (Suc (Suc i)) c i pos"

definition prim_ALT :: "menv \<Rightarrow> mfind \<Rightarrow> match_ctx \<Rightarrow> match_node \<Rightarrow> nat \<Rightarrow> mresult" where
  "prim_ALT e mf c n pos =
     (let sc = c_caps c in do {
        (r, c) \<leftarrow> mf c (n_a n) pos;
        case r of
          Some q \<Rightarrow> Some (Some q, c)
        | None \<Rightarrow> if c_err c = M_EDEPTH then fails c else mf (c\<lparr>c_caps := sc\<rparr>) (n_b n) pos
      })"

text \<open>
  \<^verbatim>\<open>REP\<close>: the first loop extends the path of positions while the body matches, \<open>r\<close> iterations at most; the second tries the
  continuation at the positions of the path.  Both read the shared workspace again at every step.
\<close>

fun rep_loop :: "mfind \<Rightarrow> match_node \<Rightarrow> nat \<Rightarrow> nat \<Rightarrow> match_ctx \<Rightarrow> (nat \<times> match_ctx) option" where
  "rep_loop mf n 0 k c = Some (k, c)"
| "rep_loop mf n (Suc r) k c =
     (if n_max n = 255 \<or> k < n_max n then
        do {
          p \<leftarrow> c_path c ! k;
          (res, c) \<leftarrow> mf (c\<lparr>c_cpath := (c_cpath c)[k + 1 := Some (c_caps c)]\<rparr>) (n_a n) p;
          case res of
            None \<Rightarrow> Some (k, c)
          | Some q \<Rightarrow> do {
              p \<leftarrow> c_path c ! k;
              if q = p then Some (k, c)
              else rep_loop mf n r (k + 1)
                     (c\<lparr>c_path := (c_path c)[k + 1 := Some q], c_cpath := (c_cpath c)[k + 1 := Some (c_caps c)]\<rparr>)
            }
        }
      else Some (k, c))"

fun rep_try :: "mfind \<Rightarrow> match_node \<Rightarrow> nat list \<Rightarrow> match_ctx \<Rightarrow> mresult" where
  "rep_try mf n [] c = fails c"
| "rep_try mf n (i # is) c =
     do {
       caps \<leftarrow> c_cpath c ! i;
       p \<leftarrow> c_path c ! i;
       let c = c\<lparr>c_caps := caps\<rparr>;
       (r, c) \<leftarrow> (if n_b n \<noteq> 0 then mf c (n_b n) p else Some (Some p, c));
       case r of
         Some q \<Rightarrow> Some (Some q, c)
       | None \<Rightarrow> if c_err c = M_EDEPTH then fails c else rep_try mf n is c
     }"

definition prim_REP :: "menv \<Rightarrow> mfind \<Rightarrow> match_ctx \<Rightarrow> match_node \<Rightarrow> nat \<Rightarrow> mresult" where
  "prim_REP e mf c n pos =
     do {
       (k, c) \<leftarrow> rep_loop mf n (MATCH_MAX_BACKTRACK - 1) 0
                   (c\<lparr>c_path := (c_path c)[0 := Some pos], c_cpath := (c_cpath c)[0 := Some (c_caps c)]\<rparr>);
       rep_try mf n (if n_lazy n then [n_min n..<Suc k] else rev [n_min n..<Suc k]) c
     }"

text \<open>
  \<^verbatim>\<open>LOOK\<close> runs its body in a copy of the context that shares the workspace, and the captures too when it looks behind.  The loop
  of a look-behind gives \<open>found\<close>.  Before each try of a look-behind the code means to put the captures back, but copies only the size of the
  pointer \<^verbatim>\<open>caps\<close>, one entry: the other captures are those the failed tries left behind.  After the loop all of them are restored.
\<close>

function look_loop :: "menv \<Rightarrow> mfind \<Rightarrow> nat \<Rightarrow> nat \<Rightarrow> int list \<Rightarrow> nat \<Rightarrow> match_ctx \<Rightarrow> (bool \<times> match_ctx) option" where
  "look_loop e mf a pos scap cp c =
     do {
       (r, sub) \<leftarrow> mf (c\<lparr>c_caps := (c_caps c)[0 := scap ! 0]\<rparr>) a cp;
       let c = c\<lparr>c_caps := c_caps sub, c_path := c_path sub, c_cpath := c_cpath sub\<rparr>;
       if r = Some pos then Some (True, c)
       else if cp = 0 then Some (False, c)
       else case back_cont e cp of
              None \<Rightarrow> None
            | Some cp' \<Rightarrow> if cp' = 0 then Some (False, c) else look_loop e mf a pos scap (cp' - 1) c
     }"
  by pat_completeness auto
termination by (relation "measure (\<lambda>(e, mf, a, pos, scap, cp, c). cp)") (auto dest: back_cont_le)

declare look_loop.simps [simp del]

definition prim_LOOK :: "menv \<Rightarrow> mfind \<Rightarrow> match_ctx \<Rightarrow> match_node \<Rightarrow> nat \<Rightarrow> nat \<Rightarrow> mresult" where
  "prim_LOOK e mf c n pos extra =
     (let scap = c_caps c; is_lb = odd extra; is_neg = odd (extra div 2) in do {
        (found, c) \<leftarrow>
          (if is_lb then do {
             (found, c) \<leftarrow> look_loop e mf (n_a n) pos scap pos c;
             Some (found, c\<lparr>c_caps := scap\<rparr>)
           }
           else do {
             (r, sub) \<leftarrow> mf c (n_a n) pos;
             Some (r \<noteq> None, c\<lparr>c_caps := c_caps sub, c_path := c_path sub, c_cpath := c_cpath sub\<rparr>)
           });
        if (if is_neg then \<not> found else found) then mf c (n_b n) pos else fails c
      })"

fun backref_loop :: "menv \<Rightarrow> bool \<Rightarrow> nat \<Rightarrow> nat \<Rightarrow> nat \<Rightarrow> nat \<Rightarrow> (nat \<times> nat) option" where
  "backref_loop e ic 0 ref_end r cur = Some (r, cur)"
| "backref_loop e ic (Suc k) ref_end r cur =
     (if r < ref_end \<and> cur < en_len e then
        (case match_utf8_next (en_s e) ref_end r of (x, r') \<Rightarrow>
         case match_utf8_next (en_s e) (en_len e) cur of (y, cur') \<Rightarrow>
           if match_fold (en_loc e) x y ic then backref_loop e ic k ref_end r' cur' else None)
      else Some (r, cur))"

definition prim_BACKREF :: "menv \<Rightarrow> mfind \<Rightarrow> match_ctx \<Rightarrow> match_node \<Rightarrow> nat \<Rightarrow> mresult" where
  "prim_BACKREF e mf c n pos =
     (let idx = sint (n_val n) * 2 in
      if idx \<ge> 2 ^ 31 then None
      else if idx + 1 \<ge> int MATCH_MAX_GROUPS * 2 then fails (c\<lparr>c_err := M_EINTERNAL\<rparr>)
      else if idx < 0 then None
      else
        let so = c_caps c ! nat idx; eo = c_caps c ! nat (idx + 1) in
        if so = - 1 then fails c
        else if so \<ge> eo then (if so \<noteq> eo then fails c else mf c (n_b n) pos)
        else
          case backref_loop e (c_ic c) (nat eo) (nat eo) (nat so) pos of
            None \<Rightarrow> fails c
          | Some (r, cur) \<Rightarrow> if r \<noteq> nat eo then fails c else mf c (n_b n) cur)"

definition prim_ATOMIC :: "menv \<Rightarrow> mfind \<Rightarrow> match_ctx \<Rightarrow> match_node \<Rightarrow> nat \<Rightarrow> mresult" where
  "prim_ATOMIC e mf c n pos =
     do {
       (r, c) \<leftarrow> mf c (n_a n) pos;
       case r of
         None \<Rightarrow> fails c
       | Some q \<Rightarrow> if c_err c \<noteq> M_SUCCESS then fails c else if n_b n \<noteq> 0 then mf c (n_b n) q else Some (Some q, c)
     }"

definition prim_COND :: "menv \<Rightarrow> mfind \<Rightarrow> match_ctx \<Rightarrow> match_node \<Rightarrow> nat \<Rightarrow> mresult" where
  "prim_COND e mf c n pos =
     (let idx = sint (n_val n * 2) in
      if idx < 0 then None
      else
        let matched = (idx < int MATCH_MAX_GROUPS * 2 \<and> c_caps c ! nat idx \<noteq> - 1);
            b = (if matched then n_a n else n_b n)
        in if b \<noteq> 0 then mf c b pos else Some (Some pos, c))"

text \<open>The word character before \<open>pos\<close>, which is inside the subject, and the one at \<open>pos\<close>.\<close>

definition word_before :: "menv \<Rightarrow> nat \<Rightarrow> bool" where
  "word_before e pos =
     (case back_cont e (pos - 1) of
        None \<Rightarrow> False
      | Some pp \<Rightarrow> match_is_word (en_loc e) (fst (match_utf8_next (en_s e) pos pp)))"

definition prim_WB :: "menv \<Rightarrow> mfind \<Rightarrow> match_ctx \<Rightarrow> match_node \<Rightarrow> nat \<Rightarrow> bool \<Rightarrow> mresult" where
  "prim_WB e mf c n pos neg =
     (if pos = 0 \<or> pos = en_len e then (if neg then fails c else mf c (n_b n) pos)
      else
        let prev = word_before e pos; cur = match_is_word (en_loc e) (fst (match_utf8_next (en_s e) (en_len e) pos))
        in if (if neg then prev = cur else prev \<noteq> cur) then mf c (n_b n) pos else fails c)"

definition prim_CALL :: "menv \<Rightarrow> mfind \<Rightarrow> match_ctx \<Rightarrow> match_node \<Rightarrow> nat \<Rightarrow> mresult" where
  "prim_CALL e mf c n pos =
     (if n_val n = 0 then mf c (m_root (en_m e)) pos
      else if \<not> (n_val n < 32 \<and> m_groups (en_m e) ! unat (n_val n) \<noteq> 0) then fails c
      else mf c (m_groups (en_m e) ! unat (n_val n)) pos)"

section \<open>The engine\<close>

definition look_extra :: "match_node \<Rightarrow> nat" where
  "look_extra n = n_cap n OR (if n_neg n then 2 else 0)"

definition dispatch_node :: "menv \<Rightarrow> mfind \<Rightarrow> match_ctx \<Rightarrow> nat \<Rightarrow> match_node \<Rightarrow> nat \<Rightarrow> mresult" where
  "dispatch_node e mf c i n pos =
     (case n_type n of
        MTOK_END \<Rightarrow> Some (Some pos, c)
      | MTOK_CHAR \<Rightarrow> prim_CHAR e mf c n pos
      | MTOK_CLASS \<Rightarrow> prim_CLASS e mf c n pos
      | MTOK_ANY \<Rightarrow> prim_ANY e mf c n pos
      | MTOK_BOL \<Rightarrow> prim_BOL e mf c n pos
      | MTOK_EOL \<Rightarrow> prim_EOL e mf c n pos
      | MTOK_CAP \<Rightarrow> prim_CAP e mf c n pos
      | MTOK_SEQ \<Rightarrow> prim_SEQ e mf c i pos
      | MTOK_ALT \<Rightarrow> prim_ALT e mf c n pos
      | MTOK_REP \<Rightarrow> prim_REP e mf c n pos
      | MTOK_LOOK \<Rightarrow> prim_LOOK e mf c n pos (look_extra n)
      | MTOK_BACKREF \<Rightarrow> prim_BACKREF e mf c n pos
      | MTOK_FLAGS \<Rightarrow> mf c (n_a n) pos
      | MTOK_ATOMIC \<Rightarrow> prim_ATOMIC e mf c n pos
      | MTOK_CALL \<Rightarrow> prim_CALL e mf c n pos
      | MTOK_COND \<Rightarrow> prim_COND e mf c n pos
      | MTOK_WB \<Rightarrow> prim_WB e mf c n pos False
      | MTOK_NWB \<Rightarrow> prim_WB e mf c n pos True)"

fun matchfind :: "menv \<Rightarrow> nat \<Rightarrow> mfind" where
  "matchfind e 0 c i pos = None"
| "matchfind e (Suc f) c i pos =
     (if c_depth c + 1 > MATCH_MAX_DEPTH then fails (c\<lparr>c_err := M_EDEPTH\<rparr>)
      else if i = 0 then Some (Some pos, c)
      else if i \<ge> length (m_arena (en_m e)) then None
      else dispatch_node e (matchfind e f) (c\<lparr>c_depth := c_depth c + 1\<rparr>) i (m_arena (en_m e) ! i) pos)"

text \<open>\<^verbatim>\<open>matchgate\<close>: the first place the literal prefix of the pattern occurs; its own loop when the prefix is one byte.\<close>

definition gate_fold :: "bool \<Rightarrow> byte \<Rightarrow> byte" where
  "gate_fold ic b = (if ic \<and> b \<ge> 65 \<and> b \<le> 90 then b + 32 else b)"

fun gate_one :: "byte \<Rightarrow> bool \<Rightarrow> nat \<Rightarrow> byte list \<Rightarrow> nat option" where
  "gate_one lit ic p [] = None"
| "gate_one lit ic p (x # xs) = (if gate_fold ic x = lit then Some p else gate_one lit ic (Suc p) xs)"

fun gate_here :: "bool \<Rightarrow> byte list \<Rightarrow> byte list \<Rightarrow> bool" where
  "gate_here ic [] xs = True"
| "gate_here ic (l # ls) [] = False"
| "gate_here ic (l # ls) (x # xs) = (if gate_fold ic l \<noteq> gate_fold ic x then False else gate_here ic ls xs)"

fun gate_many :: "byte list \<Rightarrow> bool \<Rightarrow> nat \<Rightarrow> byte list \<Rightarrow> nat option" where
  "gate_many lit ic p [] = (if lit = [] then Some p else None)"
| "gate_many lit ic p (x # xs) =
     (if length lit > length (x # xs) then None
      else if gate_here ic lit (x # xs) then Some p else gate_many lit ic (Suc p) xs)"

definition matchgate :: "matcher \<Rightarrow> byte list \<Rightarrow> bool \<Rightarrow> nat option" where
  "matchgate m s ic =
     (case m_lit m of
        [] \<Rightarrow> Some 0
      | [l] \<Rightarrow> gate_one (gate_fold ic l) ic 0 s
      | _ \<Rightarrow> gate_many (m_lit m) ic 0 s)"

text \<open>
  \<^verbatim>\<open>matchexec\<close>: the code, and the offsets stored through \<^verbatim>\<open>pm\<close> (\<open>None\<close> when nothing is).  \<open>nm\<close> is the number of entries of \<^verbatim>\<open>pm\<close>, 0 when
  the pointer is null.
\<close>

type_synonym mexec_result = "(match_err \<times> (int \<times> int) list option) option"

definition store_matches :: "match_ctx \<Rightarrow> nat \<Rightarrow> nat \<Rightarrow> nat \<Rightarrow> (int \<times> int) list option" where
  "store_matches c nm st r =
     (if nm > MATCH_MAX_GROUPS then None
      else Some ((int st, int r) # map (\<lambda>i. (c_caps c ! (i * 2), c_caps c ! (i * 2 + 1))) [1..<nm]))"

function exec_loop :: "menv \<Rightarrow> bool \<Rightarrow> nat \<Rightarrow> nat \<Rightarrow> match_ctx \<Rightarrow> mexec_result" where
  "exec_loop e anchored nm st c =
     (if st > en_len e then Some (if c_err c \<noteq> M_SUCCESS then c_err c else M_NOMATCH, None)
      else if c_depth c > MATCH_MAX_DEPTH then Some (M_EDEPTH, None)
      else do {
        (r, c) \<leftarrow> matchfind e (Suc MATCH_MAX_DEPTH) (c\<lparr>c_caps := replicate (MATCH_MAX_GROUPS * 2) (- 1)\<rparr>) (m_root (en_m e)) st;
        if c_err c = M_EDEPTH then Some (M_EDEPTH, None)
        else case r of
          None \<Rightarrow> if anchored then Some (if c_err c \<noteq> M_SUCCESS then c_err c else M_NOMATCH, None)
                  else exec_loop e anchored nm (Suc st) c
        | Some q \<Rightarrow> if nm > 0 then map_option (\<lambda>ms. (M_SUCCESS, Some ms)) (store_matches c nm st q) else Some (M_SUCCESS, None)
      })"
  by pat_completeness auto
termination by (relation "measure (\<lambda>(e, anchored, nm, st, c). Suc (en_len e) - st)") auto

declare exec_loop.simps [simp del]

definition match_env :: "wlocale \<Rightarrow> matcher \<Rightarrow> byte list \<Rightarrow> byte option \<Rightarrow> u32 \<Rightarrow> menv" where
  "match_env l m s past fl =
     \<lparr>en_m = m, en_s = s, en_past = past, en_nl = ((m_eflags m OR fl) AND MEXEC_NEWLINE \<noteq> 0), en_ef = fl, en_loc = l\<rparr>"

definition match_start :: "matcher \<Rightarrow> u32 \<Rightarrow> match_ctx" where
  "match_start m fl =
     \<lparr>c_caps = replicate (MATCH_MAX_GROUPS * 2) (- 1), c_ic = ((m_eflags m OR fl) AND MEXEC_ICASE \<noteq> 0), c_depth = 0,
      c_err = M_SUCCESS, c_path = replicate MATCH_MAX_BACKTRACK None, c_cpath = replicate MATCH_MAX_BACKTRACK None\<rparr>"

definition matchexec :: "wlocale \<Rightarrow> matcher \<Rightarrow> byte list \<Rightarrow> byte option \<Rightarrow> nat \<Rightarrow> u32 \<Rightarrow> mexec_result" where
  "matchexec l m s past nm fl =
     (if m_root m \<noteq> 0 \<and> m_root m \<ge> length (m_arena m) then None
      else
        let c = match_start m fl;
            anchored = (m_root m \<noteq> 0 \<and> n_type (m_arena m ! m_root m) = MTOK_BOL);
            st = (if anchored \<or> m_eflags m AND MEXEC_ICASE \<noteq> 0 then Some 0 else matchgate m s (c_ic c))
        in case st of
             None \<Rightarrow> Some (M_NOMATCH, None)
           | Some st \<Rightarrow> exec_loop (match_env l m s past fl) anchored nm st c)"

section \<open>Running the engine\<close>

text \<open>Rules to run the engine by rewriting: each fires only when the state it looks at is known.\<close>

lemma run_find_0: "c_depth c + 1 \<le> MATCH_MAX_DEPTH \<Longrightarrow> matchfind e (Suc f) c 0 pos = Some (Some pos, c)"
  by simp

lemma run_find: "c_depth c + 1 \<le> MATCH_MAX_DEPTH \<Longrightarrow> 0 < i \<Longrightarrow> i < length (m_arena (en_m e)) \<Longrightarrow>
    matchfind e (Suc f) c i pos = dispatch_node e (matchfind e f) (c\<lparr>c_depth := c_depth c + 1\<rparr>) i (m_arena (en_m e) ! i) pos"
  by simp

lemmas run_find_num = run_find_0 [where f = "pred_numeral v" for v, unfolded numeral_eq_Suc [symmetric]]
  run_find [where f = "pred_numeral v" for v, unfolded numeral_eq_Suc [symmetric]]

lemmas run_seq = seq_loop.simps(2) [where k = "pred_numeral v" for v, unfolded numeral_eq_Suc [symmetric]]

lemma run_rep: "c_path c ! k = Some p \<Longrightarrow> n_max n = 255 \<or> k < n_max n \<Longrightarrow>
    rep_loop mf n (numeral v) k c =
      do {
        (res, c) \<leftarrow> mf (c\<lparr>c_cpath := (c_cpath c)[k + 1 := Some (c_caps c)]\<rparr>) (n_a n) p;
        case res of
          None \<Rightarrow> Some (k, c)
        | Some q \<Rightarrow> do {
            p \<leftarrow> c_path c ! k;
            if q = p then Some (k, c)
            else rep_loop mf n (pred_numeral v) (k + 1)
                   (c\<lparr>c_path := (c_path c)[k + 1 := Some q], c_cpath := (c_cpath c)[k + 1 := Some (c_caps c)]\<rparr>)
          }
      }"
  by (simp add: numeral_eq_Suc)

lemma run_exec: "st \<le> en_len e \<Longrightarrow> c_depth c \<le> MATCH_MAX_DEPTH \<Longrightarrow>
    exec_loop e anchored nm st c =
      do {
        (r, c) \<leftarrow> matchfind e (Suc MATCH_MAX_DEPTH) (c\<lparr>c_caps := replicate (MATCH_MAX_GROUPS * 2) (- 1)\<rparr>) (m_root (en_m e)) st;
        if c_err c = M_EDEPTH then Some (M_EDEPTH, None)
        else case r of
          None \<Rightarrow> if anchored then Some (if c_err c \<noteq> M_SUCCESS then c_err c else M_NOMATCH, None)
                  else exec_loop e anchored nm (Suc st) c
        | Some q \<Rightarrow> if nm > 0 then map_option (\<lambda>ms. (M_SUCCESS, Some ms)) (store_matches c nm st q) else Some (M_SUCCESS, None)
      }"
  by (subst exec_loop.simps) simp

lemma run_exec_end: "en_len e < st \<Longrightarrow>
    exec_loop e anchored nm st c = Some (if c_err c \<noteq> M_SUCCESS then c_err c else M_NOMATCH, None)"
  by (subst exec_loop.simps) simp

lemmas run_engine = run_find_0 run_find run_find_num run_seq run_rep run_exec run_exec_end MATCH_MAX_DEPTH_def MATCH_MAX_GROUPS_def MATCH_MAX_BACKTRACK_def
  dispatch_node_def prim_CHAR_def prim_CLASS_def prim_ANY_def prim_BOL_def prim_EOL_def prim_CAP_def prim_SEQ_def prim_ALT_def prim_REP_def
  prim_ATOMIC_def match_fold_def match_start_def match_env_def matchgate_def store_matches_def matchexec_def Let_def

text \<open>The pattern \<^verbatim>\<open>a+b\<close>, as it is compiled.\<close>

definition leaf_node :: "match_tok \<Rightarrow> u32 \<Rightarrow> match_node" where
  "leaf_node t v = \<lparr>n_type = t, n_val = v, n_a = 0, n_b = 0, n_neg = False, n_cap = 0, n_min = 0, n_max = 255, n_lazy = False, n_eflags = 0\<rparr>"

definition demo_matcher :: matcher where
  "demo_matcher =
     \<lparr>m_nsub = 0, m_cflags = 0, m_eflags = 0, m_lit = [], m_root = 4, m_nr = 0, m_rlo = replicate 32 0, m_rhi = replicate 32 0,
      m_rcid = replicate 32 0, m_rneg = replicate 32 False, m_cname = replicate 32 None, m_names = replicate 32 None,
      m_groups = replicate 32 0, m_unicode = False,
      m_arena = [leaf_node MTOK_END 0, leaf_node MTOK_CHAR 97, (leaf_node MTOK_REP 0)\<lparr>n_a := 1, n_min := 1\<rparr>, leaf_node MTOK_CHAR 98,
                 (leaf_node MTOK_SEQ 0)\<lparr>n_a := 2, n_b := 3\<rparr>],
      m_capacity = 16\<rparr>"

lemma demo_run: "matchexec c_locale demo_matcher [120, 97, 97, 98] (Some 0) 1 0 = Some (M_SUCCESS, Some [(1, 4)])"
  by (simp add: run_engine demo_matcher_def leaf_node_def del: matchfind.simps rep_loop.simps)

end
