(* ===== verification/MatchComp.thy ===== *)
theory MatchComp
  imports Match
begin

text \<open>
  The compiling half of \<^verbatim>\<open>include/core/match.h\<close>: the recursive descent parser that turns a pattern into an arena of nodes, and
  \<^verbatim>\<open>matchcomp\<close>.

  The pattern is a byte list without its terminator; \<open>peek\<close> reads a byte ahead of the parser, 0 at the end.  Allocation is a
  parameter: \<open>pe_avail k\<close> says whether the \<open>k\<close>-th call to \<^verbatim>\<open>realloc\<close> or \<^verbatim>\<open>strdup\<close> succeeds.  \<open>p_ub\<close> records a step C does not define, a signed
  overflow of a number in the pattern or a move outside the class tables.  An assignment of the form
  \<^verbatim>\<open>arena[n].a = __jacl_match_expr(p)\<close> stores into the arena as it is after the call.

  A parsing function returns the index of a node, 0 for none.  The functions that call each other do so through an argument
  and on fuel, \<open>None\<close> meaning that it ran out.
\<close>

unbundle bit_operations_syntax

section \<open>Parser state\<close>

definition MCOMP_ANCHOR :: u32 where "MCOMP_ANCHOR = 0x01"
definition MCOMP_ALTERN :: u32 where "MCOMP_ALTERN = 0x02"
definition MCOMP_QUANT :: u32 where "MCOMP_QUANT = 0x04"
definition MCOMP_ESCAPE :: u32 where "MCOMP_ESCAPE = 0x08"
definition MCOMP_BOUNDARY :: u32 where "MCOMP_BOUNDARY = 0x10"
definition MCOMP_UNGREEDY :: u32 where "MCOMP_UNGREEDY = 0x40"
definition MCOMP_CAPTURE :: u32 where "MCOMP_CAPTURE = 0x100"
definition MCOMP_BACKREF :: u32 where "MCOMP_BACKREF = 0x200"
definition MCOMP_NAMEREF :: u32 where "MCOMP_NAMEREF = 0x400"
definition MCOMP_RECURSE :: u32 where "MCOMP_RECURSE = 0x800"
definition MCOMP_LOOKFWD :: u32 where "MCOMP_LOOKFWD = 0x1000"
definition MCOMP_LOOKBACK :: u32 where "MCOMP_LOOKBACK = 0x2000"
definition MCOMP_ATOMIC :: u32 where "MCOMP_ATOMIC = 0x4000"
definition MCOMP_COND :: u32 where "MCOMP_COND = 0x8000"
definition MCOMP_VERB :: u32 where "MCOMP_VERB = 0x20000"

record penv =
  pe_pat :: "byte list"
  pe_cflags :: u32
  pe_avail :: "nat \<Rightarrow> bool"

record match_parser =
  p_pos :: nat
  p_m :: matcher
  p_err :: match_err
  p_cap :: int
  p_nsub :: int
  p_eflags :: u32
  p_allocs :: nat
  p_ub :: bool

type_synonym pres = "nat \<times> match_parser"
type_synonym pfun = "match_parser \<Rightarrow> (nat \<times> match_parser) option"

definition peek :: "penv \<Rightarrow> match_parser \<Rightarrow> nat \<Rightarrow> byte" where
  "peek pe ps k = (if p_pos ps + k < length (pe_pat pe) then pe_pat pe ! (p_pos ps + k) else 0)"

definition adv :: "nat \<Rightarrow> match_parser \<Rightarrow> match_parser" where
  "adv k ps = ps\<lparr>p_pos := p_pos ps + k\<rparr>"

definition set_err :: "match_err \<Rightarrow> match_parser \<Rightarrow> match_parser" where
  "set_err er ps = ps\<lparr>p_err := er\<rparr>"

abbreviation (input) parse_fail :: "match_err \<Rightarrow> match_parser \<Rightarrow> pres" where
  "parse_fail er ps \<equiv> (0, set_err er ps)"

definition allows :: "penv \<Rightarrow> u32 \<Rightarrow> bool" where
  "allows pe fl \<longleftrightarrow> pe_cflags pe AND fl \<noteq> 0"

definition upd_node :: "nat \<Rightarrow> (match_node \<Rightarrow> match_node) \<Rightarrow> match_parser \<Rightarrow> match_parser" where
  "upd_node i f ps = ps\<lparr>p_m := (p_m ps)\<lparr>m_arena := (m_arena (p_m ps))[i := f (m_arena (p_m ps) ! i)]\<rparr>\<rparr>"

text \<open>\<open>try_alloc\<close> consults the allocator.\<close>

definition try_alloc :: "penv \<Rightarrow> match_parser \<Rightarrow> bool \<times> match_parser" where
  "try_alloc pe ps = (pe_avail pe (p_allocs ps), ps\<lparr>p_allocs := Suc (p_allocs ps)\<rparr>)"

definition fresh_node :: "match_tok \<Rightarrow> match_node" where
  "fresh_node t = \<lparr>n_type = t, n_val = 0, n_a = 0, n_b = 0, n_neg = False, n_cap = 0, n_min = 0, n_max = 255, n_lazy = False, n_eflags = 0\<rparr>"

definition push_node :: "match_tok \<Rightarrow> match_parser \<Rightarrow> pres" where
  "push_node t ps = (length (m_arena (p_m ps)), ps\<lparr>p_m := (p_m ps)\<lparr>m_arena := m_arena (p_m ps) @ [fresh_node t]\<rparr>\<rparr>)"

definition match_node :: "penv \<Rightarrow> match_tok \<Rightarrow> match_parser \<Rightarrow> pres" where
  "match_node pe t ps =
     (if length (m_arena (p_m ps)) \<ge> m_capacity (p_m ps) then
        let new_cap = (if m_capacity (p_m ps) \<noteq> 0 then m_capacity (p_m ps) * 2 else 16) in
        case try_alloc pe ps of
          (ok, ps) \<Rightarrow>
            if ok then push_node t (ps\<lparr>p_m := (p_m ps)\<lparr>m_capacity := new_cap\<rparr>\<rparr>) else parse_fail M_ESPACE ps
      else push_node t ps)"

text \<open>\<^verbatim>\<open>JACL_NODE_FLAGS\<close>: a node with the flags of the parser; the callers return 0 when it is 0.\<close>

definition node_flags :: "penv \<Rightarrow> match_tok \<Rightarrow> match_parser \<Rightarrow> pres" where
  "node_flags pe t ps =
     (case match_node pe t ps of (n, ps) \<Rightarrow> if n = 0 then (0, ps) else (n, upd_node n (n_eflags_update (\<lambda>_. p_eflags ps)) ps))"

definition match_rep :: "penv \<Rightarrow> nat \<Rightarrow> int \<Rightarrow> int \<Rightarrow> bool \<Rightarrow> match_parser \<Rightarrow> pres" where
  "match_rep pe body mn mx lz ps =
     (case match_node pe MTOK_REP ps of
        (n, ps) \<Rightarrow>
          if n = 0 then (0, ps)
          else
            (n, upd_node n (\<lambda>x. x\<lparr>n_a := body, n_min := nat (mn mod 256), n_max := (if mx < 0 then 255 else nat (mx mod 256)),
                                 n_lazy := lz, n_eflags := n_eflags (m_arena (p_m ps) ! body)\<rparr>) ps))"

definition zero_matcher :: matcher where
  "zero_matcher =
     \<lparr>m_nsub = 0, m_cflags = 0, m_eflags = 0, m_lit = [], m_root = 0, m_nr = 0, m_rlo = replicate 32 0, m_rhi = replicate 32 0,
      m_rcid = replicate 32 0, m_rneg = replicate 32 False, m_cname = replicate 32 None, m_names = replicate 32 None,
      m_groups = replicate 32 0, m_unicode = False, m_arena = [], m_capacity = 0\<rparr>"

section \<open>Class tables\<close>

text \<open>
  The merging loop of \<^verbatim>\<open>__jacl_match_add_range\<close>.  The \<^verbatim>\<open>memmove\<close> shifts only \<^verbatim>\<open>rlo\<close>, by 16 bytes for every entry after \<open>i\<close>; when that leaves the
  array the step is not defined.
\<close>

definition shift_rlo :: "nat \<Rightarrow> nat \<Rightarrow> u32 list \<Rightarrow> u32 list" where
  "shift_rlo i k xs = take i xs @ take k (drop (Suc i) xs) @ drop (i + k) xs"

function range_loop :: "nat \<Rightarrow> nat \<Rightarrow> matcher \<times> u32 \<times> u32 \<times> bool \<Rightarrow> matcher \<times> u32 \<times> u32 \<times> bool" where
  "range_loop cid i (m, lo, hi, ub) =
     (if i \<ge> m_nr m then (m, lo, hi, ub)
      else if m_rcid m ! i \<noteq> cid \<or> lo > m_rhi m ! i + 1 \<or> hi < m_rlo m ! i - 1 then range_loop cid (Suc i) (m, lo, hi, ub)
      else
        let k = 4 * (m_nr m - 1 - i); bad = (Suc i + k > 32) in
        range_loop cid i
          (m\<lparr>m_rlo := (if bad then m_rlo m else shift_rlo i k (m_rlo m)), m_nr := m_nr m - 1\<rparr>,
           min lo (m_rlo m ! i), max hi (m_rhi m ! i), ub \<or> bad \<or> m_cname m ! i \<noteq> None))"
  by pat_completeness auto
termination by (relation "measure (\<lambda>(cid, i, m, lo, hi, ub). m_nr m - i)") auto

declare range_loop.simps [simp del]

definition put_range :: "u32 \<Rightarrow> u32 \<Rightarrow> nat \<Rightarrow> bool \<Rightarrow> byte list option \<Rightarrow> matcher \<Rightarrow> matcher" where
  "put_range lo hi cid neg nm m =
     (let i = m_nr m in
      m\<lparr>m_rlo := (m_rlo m)[i := lo], m_rhi := (m_rhi m)[i := hi], m_rcid := (m_rcid m)[i := cid], m_rneg := (m_rneg m)[i := neg],
        m_cname := (m_cname m)[i := nm], m_nr := Suc i\<rparr>)"

definition match_add_range :: "u32 \<Rightarrow> u32 \<Rightarrow> nat \<Rightarrow> bool \<Rightarrow> match_parser \<Rightarrow> match_parser" where
  "match_add_range lo hi cid neg ps =
     (if lo > hi \<or> m_nr (p_m ps) \<ge> 32 then ps
      else
        let m = (p_m ps)\<lparr>m_unicode := (m_unicode (p_m ps) \<or> lo \<ge> 128)\<rparr> in
        case range_loop cid 0 (m, lo, hi, False) of
          (m, lo, hi, ub) \<Rightarrow> ps\<lparr>p_m := put_range lo hi cid neg None m, p_ub := (p_ub ps \<or> ub)\<rparr>)"

definition add_named :: "penv \<Rightarrow> byte list \<Rightarrow> nat \<Rightarrow> bool \<Rightarrow> match_parser \<Rightarrow> match_parser" where
  "add_named pe nm cid neg ps =
     (if m_nr (p_m ps) < 32 then
        case try_alloc pe ps of
          (ok, ps) \<Rightarrow> ps\<lparr>p_m := (put_range 0 0 cid neg (if ok then Some nm else None) (p_m ps))\<lparr>m_unicode := True\<rparr>\<rparr>
      else ps)"

section \<open>Names and numbers in a pattern\<close>

text \<open>The bytes from the parser on up to the terminator or the first that satisfies \<open>stop\<close>.\<close>

definition run_until :: "penv \<Rightarrow> match_parser \<Rightarrow> (byte \<Rightarrow> bool) \<Rightarrow> byte list" where
  "run_until pe ps stop = takeWhile (\<lambda>b. b \<noteq> 0 \<and> \<not> stop b) (drop (p_pos ps) (pe_pat pe))"

text \<open>\<^verbatim>\<open>JACL_PARSE_NAME\<close>: at most 31 bytes.\<close>

definition parse_name :: "penv \<Rightarrow> byte \<Rightarrow> match_parser \<Rightarrow> byte list \<times> match_parser" where
  "parse_name pe close ps = (let nm = take 31 (run_until pe ps (\<lambda>b. b = close)) in (nm, adv (length nm) ps))"

definition parse_paren :: "penv \<Rightarrow> nat \<Rightarrow> match_parser \<Rightarrow> pres" where
  "parse_paren pe n ps = (if peek pe ps 0 = 41 then (n, adv 1 ps) else parse_fail M_EPAREN ps)"

definition is_dec :: "byte \<Rightarrow> bool" where
  "is_dec b \<longleftrightarrow> b \<ge> 48 \<and> b \<le> 57"

definition parse_number :: "penv \<Rightarrow> match_parser \<Rightarrow> int \<times> match_parser" where
  "parse_number pe ps =
     (let ds = run_until pe ps (\<lambda>b. \<not> is_dec b); v = foldl (\<lambda>v b. v * 10 + (uint b - 48)) 0 ds
      in (v, (adv (length ds) ps)\<lparr>p_ub := (p_ub ps \<or> v \<ge> 2 ^ 31)\<rparr>))"

definition find_name :: "matcher \<Rightarrow> byte list \<Rightarrow> nat option" where
  "find_name m nm = List.find (\<lambda>k. m_names m ! k = Some nm) [1..<32]"

section \<open>Brackets\<close>

text \<open>\<^verbatim>\<open>__jacl_parse_collating\<close> and \<^verbatim>\<open>__jacl_parse_equivalence\<close>, which differ in the delimiter \<open>d\<close>: the first byte of the name is the element.\<close>

definition parse_element :: "penv \<Rightarrow> byte \<Rightarrow> nat \<Rightarrow> bool \<Rightarrow> match_parser \<Rightarrow> match_parser" where
  "parse_element pe d cid neg ps =
     (let ps = adv 2 ps; nm = run_until pe ps (\<lambda>b. b = d \<or> b = 93); ps = adv (length nm) ps in
      if peek pe ps 0 \<noteq> d \<or> peek pe ps 1 \<noteq> 93 then set_err M_ECOLLATE ps
      else if nm = [] then set_err M_ECOLLATE ps
      else match_add_range (ucast (hd nm)) (ucast (hd nm)) cid neg (adv 2 ps))"

definition parse_posix_class :: "penv \<Rightarrow> nat \<Rightarrow> bool \<Rightarrow> match_parser \<Rightarrow> match_parser" where
  "parse_posix_class pe cid neg ps =
     (let ps = adv 2 ps; nm = run_until pe ps (\<lambda>b. b = 58 \<or> b = 93); ps = adv (length nm) ps in
      if peek pe ps 0 \<noteq> 58 \<or> peek pe ps 1 \<noteq> 93 then set_err M_ECTYPE ps
      else
        let ps = adv 2 ps in
        if wctype_l (Some (take 15 nm)) = WCTYPE_UNKNOWN then set_err M_ECTYPE ps
        else add_named pe (take 15 nm) cid neg ps)"

definition next_char :: "penv \<Rightarrow> match_parser \<Rightarrow> u32 \<times> match_parser" where
  "next_char pe ps = (case match_utf8_next (pe_pat pe) (length (pe_pat pe)) (p_pos ps) of (cp, q) \<Rightarrow> (cp, ps\<lparr>p_pos := q\<rparr>))"

definition class_range :: "penv \<Rightarrow> nat \<Rightarrow> bool \<Rightarrow> match_parser \<Rightarrow> match_parser" where
  "class_range pe cid neg ps =
     (let ps = (if peek pe ps 0 = 92 \<and> peek pe ps 1 \<noteq> 0 then adv 1 ps else ps) in
      case next_char pe ps of (lo, ps) \<Rightarrow>
        case (if peek pe ps 0 = 45 \<and> peek pe ps 1 \<noteq> 93 then next_char pe (adv 1 ps) else (lo, ps)) of
          (hi, ps) \<Rightarrow> match_add_range lo hi cid neg ps)"

fun class_items :: "penv \<Rightarrow> nat \<Rightarrow> bool \<Rightarrow> nat \<Rightarrow> match_parser \<Rightarrow> match_parser option" where
  "class_items pe cid neg 0 ps = None"
| "class_items pe cid neg (Suc k) ps =
     (let b = peek pe ps 0; b1 = peek pe ps 1 in
      if b = 0 \<or> b = 93 then Some ps
      else class_items pe cid neg k
             (if b = 91 \<and> b1 = 58 then parse_posix_class pe cid neg ps
              else if b = 91 \<and> b1 = 46 then parse_element pe 46 cid neg ps
              else if b = 91 \<and> b1 = 61 then parse_element pe 61 cid neg ps
              else class_range pe cid neg ps))"

definition atom_bracket :: "penv \<Rightarrow> pfun" where
  "atom_bracket pe ps =
     (let ps = adv 1 ps; neg = (peek pe ps 0 = 94); ps = (if neg then adv 1 ps else ps); cid = m_nr (p_m ps) mod 256 in do {
        ps \<leftarrow> class_items pe cid neg (Suc (length (pe_pat pe))) ps;
        Some (if peek pe ps 0 \<noteq> 93 then parse_fail M_EBRACK ps
              else case node_flags pe MTOK_CLASS (adv 1 ps) of
                     (n, ps) \<Rightarrow> if n = 0 then (0, ps) else (n, upd_node n (\<lambda>x. x\<lparr>n_val := of_nat cid, n_neg := neg\<rparr>) ps))
      })"

section \<open>Groups\<close>

text \<open>\<open>ex\<close> and \<open>tm\<close> are \<^verbatim>\<open>__jacl_match_expr\<close> and \<^verbatim>\<open>__jacl_match_term\<close>.\<close>

definition paren_body :: "penv \<Rightarrow> pfun \<Rightarrow> nat \<Rightarrow> pfun" where
  "paren_body pe ex n ps = do { (a, ps) \<leftarrow> ex ps; Some (parse_paren pe n (upd_node n (n_a_update (\<lambda>_. a)) ps)) }"

definition paren_look :: "penv \<Rightarrow> pfun \<Rightarrow> bool \<Rightarrow> bool \<Rightarrow> pfun" where
  "paren_look pe ex is_lb is_neg ps =
     (if \<not> allows pe (if is_lb then MCOMP_LOOKBACK else MCOMP_LOOKFWD) then Some (parse_fail M_BADPAT ps)
      else case node_flags pe MTOK_LOOK ps of
             (n, ps) \<Rightarrow>
               if n = 0 then Some (0, ps)
               else paren_body pe ex n
                      (adv (if is_lb then 2 else 1) (upd_node n (\<lambda>x. x\<lparr>n_cap := (if is_lb then 1 else 0), n_neg := is_neg\<rparr>) ps)))"

definition call_node :: "penv \<Rightarrow> nat \<Rightarrow> match_parser \<Rightarrow> pres" where
  "call_node pe gid ps =
     (case node_flags pe MTOK_CALL ps of (n, ps) \<Rightarrow> if n = 0 then (0, ps) else (n, upd_node n (n_val_update (\<lambda>_. of_nat gid)) ps))"

definition paren_call :: "penv \<Rightarrow> bool \<Rightarrow> match_parser \<Rightarrow> pres" where
  "paren_call pe is_named ps =
     (let ps = adv 1 ps in
      if is_named then
        (case parse_name pe 41 ps of (nm, ps) \<Rightarrow>
          if peek pe ps 0 \<noteq> 41 then parse_fail M_EPAREN ps
          else
            let ps = adv 1 ps in
            case find_name (p_m ps) nm of None \<Rightarrow> parse_fail M_ESUBMATCH ps | Some k \<Rightarrow> call_node pe k ps)
      else
        (case parse_number pe ps of (v, ps) \<Rightarrow>
          if peek pe ps 0 \<noteq> 41 then parse_fail M_EPAREN ps else call_node pe (nat v) (adv 1 ps)))"

definition cond_ref :: "penv \<Rightarrow> match_parser \<Rightarrow> int \<times> match_parser" where
  "cond_ref pe ps =
     (let b = peek pe ps 0 in
      if is_dec b then parse_number pe ps
      else if b = 60 \<or> b = 39 then
        (case parse_name pe (if b = 60 then 62 else b) (adv 1 ps) of
           (nm, ps) \<Rightarrow>
             let ps = (if peek pe ps 0 = b \<or> peek pe ps 0 = 62 then adv 1 ps else ps)
             in (case find_name (p_m ps) nm of Some k \<Rightarrow> int k | None \<Rightarrow> 0, ps))
      else (0, ps))"

definition paren_cond :: "penv \<Rightarrow> pfun \<Rightarrow> pfun" where
  "paren_cond pe tm ps =
     (if \<not> allows pe MCOMP_COND then Some (parse_fail M_BADPAT ps)
      else case cond_ref pe (adv 1 ps) of
        (gid, ps) \<Rightarrow>
          if peek pe ps 0 \<noteq> 41 then Some (parse_fail M_EPAREN ps)
          else do {
            (yes, ps) \<leftarrow> tm (adv 1 ps);
            (no, ps) \<leftarrow> (if peek pe ps 0 = 124 then tm (adv 1 ps) else Some (match_node pe MTOK_END ps));
            Some (case node_flags pe MTOK_COND ps of
                    (n, ps) \<Rightarrow>
                      if n = 0 then (0, ps)
                      else parse_paren pe n
                             ((upd_node n (\<lambda>x. x\<lparr>n_val := word_of_int gid, n_a := yes, n_b := no\<rparr>) ps)
                                \<lparr>p_cap := p_cap ps - 1, p_nsub := p_nsub ps - 1\<rparr>))
          })"

definition pair_node :: "penv \<Rightarrow> match_tok \<Rightarrow> nat \<Rightarrow> nat \<Rightarrow> match_parser \<Rightarrow> pres" where
  "pair_node pe t a b ps =
     (case node_flags pe t ps of (n, ps) \<Rightarrow> if n = 0 then (0, ps) else (n, upd_node n (\<lambda>x. x\<lparr>n_a := a, n_b := b\<rparr>) ps))"

fun reset_loop :: "penv \<Rightarrow> pfun \<Rightarrow> nat \<Rightarrow> int \<Rightarrow> int \<Rightarrow> nat option \<Rightarrow> pfun" where
  "reset_loop pe tm 0 reset max_cap head ps = None"
| "reset_loop pe tm (Suc k) reset max_cap head ps =
     do {
       (t, ps) \<leftarrow> tm (ps\<lparr>p_cap := reset\<rparr>);
       if p_err ps \<noteq> M_SUCCESS then Some (0, ps)
       else
         let max_cap = max max_cap (p_cap ps) in
         case (case head of None \<Rightarrow> (t, True, ps) | Some h \<Rightarrow> (case pair_node pe MTOK_ALT h t ps of (n, ps) \<Rightarrow> (n, n \<noteq> 0, ps))) of
           (h, ok, ps) \<Rightarrow>
             if \<not> ok then Some (0, ps)
             else if peek pe ps 0 = 124 \<and> p_err ps = M_SUCCESS then reset_loop pe tm k reset max_cap (Some h) (adv 1 ps)
             else Some (parse_paren pe h (ps\<lparr>p_cap := max_cap\<rparr>))
     }"

definition paren_branch_reset :: "penv \<Rightarrow> pfun \<Rightarrow> pfun" where
  "paren_branch_reset pe tm ps =
     (let reset = p_cap ps - 1 in reset_loop pe tm (Suc (length (pe_pat pe))) reset reset None (adv 1 (ps\<lparr>p_cap := reset\<rparr>)))"

definition set_group :: "int \<Rightarrow> nat \<Rightarrow> match_parser \<Rightarrow> match_parser" where
  "set_group cap n ps = (if cap < 32 then ps\<lparr>p_m := (p_m ps)\<lparr>m_groups := (m_groups (p_m ps))[nat cap := n]\<rparr>\<rparr> else ps)"

text \<open>The end of \<^verbatim>\<open>__jacl_paren_capture\<close> and \<^verbatim>\<open>__jacl_paren_named_cap\<close>.\<close>

definition capture_group :: "penv \<Rightarrow> pfun \<Rightarrow> int \<Rightarrow> pfun" where
  "capture_group pe ex cap ps =
     (case node_flags pe MTOK_CAP ps of
        (n, ps) \<Rightarrow>
          if n = 0 then Some (0, ps)
          else paren_body pe ex n (upd_node n (n_cap_update (\<lambda>_. nat (cap mod 256))) (set_group cap n ps)))"

definition paren_named_cap :: "penv \<Rightarrow> pfun \<Rightarrow> int \<Rightarrow> pfun" where
  "paren_named_cap pe ex cap ps =
     (if \<not> allows pe MCOMP_NAMEREF then Some (parse_fail M_BADPAT ps)
      else case parse_name pe 62 (adv 1 ps) of
        (nm, ps) \<Rightarrow>
          let ps = (if peek pe ps 0 = 62 then adv 1 ps else ps);
              ps = (if cap < 32 then
                      case try_alloc pe ps of
                        (ok, ps) \<Rightarrow> ps\<lparr>p_m := (p_m ps)\<lparr>m_names := (m_names (p_m ps))[nat cap := (if ok then Some nm else None)]\<rparr>\<rparr>
                    else ps)
          in capture_group pe ex cap ps)"

definition paren_atomic :: "penv \<Rightarrow> pfun \<Rightarrow> pfun" where
  "paren_atomic pe ex ps =
     (if \<not> allows pe MCOMP_ATOMIC then Some (parse_fail M_BADPAT ps)
      else do {
        (inner, ps) \<leftarrow> ex (adv 1 ps);
        Some (if inner = 0 then (0, ps)
              else case node_flags pe MTOK_ATOMIC ps of
                     (n, ps) \<Rightarrow> if n = 0 then (0, ps) else parse_paren pe n (upd_node n (n_a_update (\<lambda>_. inner)) ps))
      })"

definition paren_recursion :: "penv \<Rightarrow> match_parser \<Rightarrow> pres" where
  "paren_recursion pe ps =
     (if \<not> allows pe MCOMP_RECURSE then parse_fail M_BADPAT ps
      else if peek pe ps 1 = 41 \<or> peek pe ps 1 = 48 then call_node pe 0 (adv 2 ps)
      else parse_fail M_BADPAT ps)"

text \<open>The flag letters: \<open>Some scope\<close> when the loop ends at a colon (\<open>True\<close>) or at the end of the group; \<open>None\<close> after \<^verbatim>\<open>M_BADPAT\<close>.\<close>

fun flags_loop :: "penv \<Rightarrow> nat \<Rightarrow> u32 \<Rightarrow> match_parser \<Rightarrow> (bool option \<times> u32 \<times> match_parser) option" where
  "flags_loop pe 0 fl ps = None"
| "flags_loop pe (Suc k) fl ps =
     (let c = peek pe ps 0 in
      if c = 105 \<or> c = 73 then flags_loop pe k (fl OR MEXEC_ICASE) (adv 1 ps)
      else if c = 115 \<or> c = 83 then flags_loop pe k (fl OR MEXEC_DOTALL) (adv 1 ps)
      else if c = 45 then
        (let ps = adv 1 ps in
         if peek pe ps 0 = 105 then flags_loop pe k (fl AND NOT MEXEC_ICASE) (adv 1 ps)
         else if peek pe ps 0 = 115 then flags_loop pe k (fl AND NOT MEXEC_DOTALL) (adv 1 ps)
         else Some (None, fl, set_err M_BADPAT ps))
      else if c = 58 then Some (Some True, fl, adv 1 ps)
      else if c = 41 \<or> c = 0 then Some (Some False, fl, if c = 41 then adv 1 ps else ps)
      else Some (None, fl, set_err M_BADPAT ps))"

definition paren_flags :: "penv \<Rightarrow> pfun \<Rightarrow> pfun" where
  "paren_flags pe ex ps =
     do {
       (r, fl, ps) \<leftarrow> flags_loop pe (Suc (length (pe_pat pe))) (p_eflags ps AND 0xFF) ps;
       case r of
         None \<Rightarrow> Some (0, ps)
       | Some scope \<Rightarrow>
           if p_err ps \<noteq> M_SUCCESS then Some (0, ps)
           else if scope then do {
             (n, ps') \<leftarrow> ex (ps\<lparr>p_eflags := fl\<rparr>);
             if p_err ps' \<noteq> M_SUCCESS then Some (0, ps'\<lparr>p_eflags := p_eflags ps\<rparr>)
             else Some (parse_paren pe n (ps'\<lparr>p_eflags := p_eflags ps\<rparr>))
           }
           else Some (match_node pe MTOK_END (ps\<lparr>p_eflags := fl\<rparr>))
     }"

definition paren_capture :: "penv \<Rightarrow> pfun \<Rightarrow> int \<Rightarrow> pfun" where
  "paren_capture pe ex cap ps =
     (if \<not> allows pe MCOMP_CAPTURE then Some (parse_fail M_BADPAT ps) else capture_group pe ex cap ps)"

definition atom_paren :: "penv \<Rightarrow> pfun \<Rightarrow> pfun \<Rightarrow> pfun" where
  "atom_paren pe ex tm ps =
     (let cap = p_cap ps + 1; ps = adv 1 (ps\<lparr>p_cap := cap, p_nsub := p_nsub ps + 1\<rparr>) in
      if peek pe ps 0 \<noteq> 63 then paren_capture pe ex cap ps
      else
        let ps = adv 1 ps; b = peek pe ps 0; b1 = peek pe ps 1 in
        if b = 38 then Some (paren_call pe True ps)
        else if b \<ge> 49 \<and> b \<le> 57 then Some (paren_call pe False ps)
        else if b = 40 then paren_cond pe tm ps
        else if b = 124 then paren_branch_reset pe tm ps
        else if b = 60 then
          (if b1 = 61 \<or> b1 = 33 then paren_look pe ex True (b1 = 33) ps else paren_named_cap pe ex cap ps)
        else if b = 62 then paren_atomic pe ex ps
        else if b = 61 then paren_look pe ex False False ps
        else if b = 33 then paren_look pe ex False True ps
        else if b = 82 \<or> b = 48 then Some (paren_recursion pe ps)
        else paren_flags pe ex ps)"

section \<open>Escapes and single characters\<close>

definition backref_node :: "penv \<Rightarrow> int \<Rightarrow> match_parser \<Rightarrow> pres" where
  "backref_node pe gid ps =
     (case match_node pe MTOK_BACKREF ps of
        (n, ps) \<Rightarrow> if n = 0 then (0, ps) else (n, upd_node n (\<lambda>x. x\<lparr>n_eflags := p_eflags ps, n_val := word_of_int gid\<rparr>) ps))"

definition escape_name :: "penv \<Rightarrow> match_parser \<Rightarrow> pres" where
  "escape_name pe ps =
     (if \<not> allows pe (MCOMP_BACKREF OR MCOMP_NAMEREF) then parse_fail M_BADPAT ps
      else
        let ps = adv 1 ps; d = peek pe ps 0 in
        if d \<noteq> 60 \<and> d \<noteq> 39 then parse_fail M_BADPAT ps
        else case parse_name pe (if d = 60 then 62 else d) (adv 1 ps) of
          (nm, ps) \<Rightarrow>
            let ps = (if peek pe ps 0 = d \<or> d = 60 \<and> peek pe ps 0 = 62 then adv 1 ps else ps) in
            case find_name (p_m ps) nm of None \<Rightarrow> parse_fail M_ESUBMATCH ps | Some k \<Rightarrow> backref_node pe (int k) ps)"

definition boundary_node :: "penv \<Rightarrow> match_tok \<Rightarrow> match_parser \<Rightarrow> pres" where
  "boundary_node pe t ps =
     (if \<not> allows pe MCOMP_BOUNDARY then parse_fail M_BADPAT ps
      else case node_flags pe t ps of (n, ps) \<Rightarrow> if n = 0 then (0, ps) else (n, adv 1 ps))"

definition escape_class :: "penv \<Rightarrow> (u32 \<times> u32) list \<Rightarrow> match_parser \<Rightarrow> pres" where
  "escape_class pe rs ps =
     (if \<not> allows pe MCOMP_ESCAPE then parse_fail M_BADPAT ps
      else case match_node pe MTOK_CLASS ps of
        (n, ps) \<Rightarrow>
          if n = 0 then (0, adv 1 ps)
          else
            let cid = m_nr (p_m ps) mod 256;
                ps = fold (\<lambda>(lo, hi). match_add_range lo hi cid False) rs ps
            in (n, adv 1 (upd_node n (n_val_update (\<lambda>_. of_nat cid)) ps)))"

text \<open>A literal character: \<^verbatim>\<open>val\<close> is read from the pattern after the node is made.\<close>

definition char_node :: "penv \<Rightarrow> match_parser \<Rightarrow> pres" where
  "char_node pe ps =
     (case node_flags pe MTOK_CHAR ps of
        (n, ps) \<Rightarrow>
          if n = 0 then (0, ps)
          else case next_char pe ps of
            (cp, ps) \<Rightarrow>
              let ps = upd_node n (n_val_update (\<lambda>_. cp)) ps
              in (n, ps\<lparr>p_m := (p_m ps)\<lparr>m_unicode := (m_unicode (p_m ps) \<or> cp \<ge> 128)\<rparr>\<rparr>))"

definition atom_escape :: "penv \<Rightarrow> match_parser \<Rightarrow> pres" where
  "atom_escape pe ps =
     (let ps = adv 1 ps; b = peek pe ps 0 in
      if b = 107 then escape_name pe ps
      else if b \<ge> 49 \<and> b \<le> 57 then
        (if \<not> allows pe MCOMP_BACKREF then parse_fail M_BADPAT ps
         else case parse_number pe ps of (v, ps) \<Rightarrow> backref_node pe v ps)
      else if b = 98 then boundary_node pe MTOK_WB ps
      else if b = 66 then boundary_node pe MTOK_NWB ps
      else if b = 115 then escape_class pe [(0x20, 0x20), (0x09, 0x09), (0x0A, 0x0A), (0x0D, 0x0D)] ps
      else if b = 100 then escape_class pe [(48, 57)] ps
      else if b = 119 then escape_class pe [(48, 57), (65, 90), (97, 122), (95, 95)] ps
      else char_node pe ps)"

definition simple_node :: "penv \<Rightarrow> match_tok \<Rightarrow> u32 \<Rightarrow> match_parser \<Rightarrow> pres" where
  "simple_node pe t v ps =
     (case node_flags pe t ps of (n, ps) \<Rightarrow> if n = 0 then (0, ps) else (n, adv 1 (upd_node n (n_val_update (\<lambda>_. v)) ps)))"

definition atom_simple :: "penv \<Rightarrow> match_parser \<Rightarrow> pres" where
  "atom_simple pe ps =
     (let b = peek pe ps 0 in
      if b = 46 then simple_node pe MTOK_ANY 0 ps
      else if b = 94 then (if \<not> allows pe MCOMP_ANCHOR then parse_fail M_BADPAT ps else simple_node pe MTOK_BOL 0 ps)
      else if b = 36 then (if \<not> allows pe MCOMP_ANCHOR then parse_fail M_BADPAT ps else simple_node pe MTOK_EOL 0 ps)
      else if b = 124 \<and> \<not> allows pe MCOMP_ALTERN then simple_node pe MTOK_CHAR 124 ps
      else if b = 41 \<or> b = 0 \<or> b = 124 then (0, ps)
      else char_node pe ps)"

section \<open>Quantifiers, atoms, terms and expressions\<close>

text \<open>The bounds of a quantifier: \<open>None\<close> when there is none.\<close>

definition quant_bounds :: "penv \<Rightarrow> match_parser \<Rightarrow> (int \<times> int) option \<times> match_parser" where
  "quant_bounds pe ps =
     (let q = peek pe ps 0 in
      if q = 42 \<or> q = 63 \<or> q = 43 then (Some (if q = 43 then 1 else 0, if q = 63 then 1 else 255), adv 1 ps)
      else if q = 123 then
        (case parse_number pe (adv 1 ps) of
           (mn, ps) \<Rightarrow>
             case (if peek pe ps 0 = 44 then
                     (let ps = adv 1 ps in if peek pe ps 0 = 125 then (255, ps) else parse_number pe ps)
                   else (mn, ps)) of
               (mx, ps) \<Rightarrow> if peek pe ps 0 \<noteq> 125 then (None, set_err M_EBRACE ps) else (Some (mn, mx), adv 1 ps))
      else (None, ps))"

definition quant_wrap :: "penv \<Rightarrow> nat \<Rightarrow> int \<Rightarrow> int \<Rightarrow> bool \<Rightarrow> match_parser \<Rightarrow> pres" where
  "quant_wrap pe n mn mx lz ps =
     (case match_rep pe n mn mx lz ps of
        (rp, ps) \<Rightarrow>
          if peek pe ps 0 = 43 then
            (case match_node pe MTOK_ATOMIC (adv 1 ps) of
               (at, ps) \<Rightarrow>
                 if at \<noteq> 0 then (at, upd_node at (\<lambda>x. x\<lparr>n_a := rp, n_eflags := n_eflags (m_arena (p_m ps) ! rp)\<rparr>) ps) else (n, ps))
          else (rp, ps))"

definition match_quant :: "penv \<Rightarrow> nat \<Rightarrow> match_parser \<Rightarrow> pres" where
  "match_quant pe n ps =
     (if \<not> allows pe MCOMP_QUANT then (n, set_err M_BADPAT ps)
      else case quant_bounds pe ps of
        (None, ps) \<Rightarrow> (n, ps)
      | (Some (mn, mx), ps) \<Rightarrow>
          if peek pe ps 0 = 63 then
            (if \<not> allows pe MCOMP_UNGREEDY then (n, set_err M_BADPAT ps)
             else quant_wrap pe n mn mx True (adv 1 (ps\<lparr>p_eflags := p_eflags ps OR MEXEC_UNGREEDY\<rparr>)))
          else quant_wrap pe n mn mx False ps)"

fun term_loop :: "penv \<Rightarrow> pfun \<Rightarrow> nat \<Rightarrow> nat \<Rightarrow> pfun" where
  "term_loop pe atom 0 a ps = None"
| "term_loop pe atom (Suc k) a ps =
     (let b = peek pe ps 0 in
      if b = 0 \<or> b = 41 \<or> p_err ps \<noteq> M_SUCCESS then Some (a, ps)
      else if allows pe MCOMP_ALTERN \<and> b = 124 \<or> b \<in> {42, 63, 43, 123} then Some (a, ps)
      else do {
        (nb, ps) \<leftarrow> atom ps;
        if nb = 0 then Some (a, ps)
        else case pair_node pe MTOK_SEQ a nb ps of (n, ps) \<Rightarrow> if n = 0 then Some (0, ps) else term_loop pe atom k n ps
      })"

definition match_term :: "penv \<Rightarrow> pfun \<Rightarrow> pfun" where
  "match_term pe atom ps = do { (a, ps) \<leftarrow> atom ps; term_loop pe atom (Suc (length (pe_pat pe))) a ps }"

fun expr_loop :: "penv \<Rightarrow> pfun \<Rightarrow> nat \<Rightarrow> nat \<Rightarrow> pfun" where
  "expr_loop pe tm 0 a ps = None"
| "expr_loop pe tm (Suc k) a ps =
     (if peek pe ps 0 \<noteq> 124 \<or> p_err ps \<noteq> M_SUCCESS then Some (a, ps)
      else do {
        (b, ps) \<leftarrow> tm (adv 1 ps);
        if b = 0 then Some (a, ps)
        else case pair_node pe MTOK_ALT a b ps of (n, ps) \<Rightarrow> if n = 0 then Some (0, ps) else expr_loop pe tm k n ps
      })"

definition match_expr :: "penv \<Rightarrow> pfun \<Rightarrow> pfun" where
  "match_expr pe tm ps =
     do { (a, ps) \<leftarrow> tm ps; if \<not> allows pe MCOMP_ALTERN then Some (a, ps) else expr_loop pe tm (Suc (length (pe_pat pe))) a ps }"

fun match_atom :: "penv \<Rightarrow> nat \<Rightarrow> pfun" where
  "match_atom pe 0 ps = None"
| "match_atom pe (Suc f) ps =
     do {
       (n, ps) \<leftarrow>
         (let b = peek pe ps 0; tm = match_term pe (match_atom pe f) in
          if b = 91 then atom_bracket pe ps
          else if b = 40 then atom_paren pe (match_expr pe tm) tm ps
          else if b = 92 then Some (atom_escape pe ps)
          else Some (atom_simple pe ps));
       Some (if n \<noteq> 0 then match_quant pe n ps else (n, ps))
     }"

section \<open>Compiling\<close>

text \<open>The literal prefix: at most 31 bytes, none when a quantifier follows.\<close>

definition lit_stop :: "byte \<Rightarrow> bool" where
  "lit_stop b \<longleftrightarrow> b \<in> {0, 46, 91, 40, 124, 41, 42, 43, 63, 123, 92, 36}"

definition lit_prefix :: "byte list \<Rightarrow> byte list" where
  "lit_prefix pat =
     (let pp = (case pat of b # r \<Rightarrow> if b = 94 then r else pat | [] \<Rightarrow> []);
          lit = take 31 (takeWhile (\<lambda>b. \<not> lit_stop b) pp);
          nx = (case drop (length lit) pp of [] \<Rightarrow> 0 | b # _ \<Rightarrow> b)
      in if nx \<in> {42, 63, 43, 123} then [] else lit)"

definition parser_start :: "u32 \<Rightarrow> match_parser" where
  "parser_start fl =
     \<lparr>p_pos = 0, p_m = zero_matcher\<lparr>m_cflags := fl\<rparr>, p_err = M_SUCCESS, p_cap = 0, p_nsub = 0, p_eflags = 0, p_allocs = 0, p_ub = False\<rparr>"

text \<open>The parser after \<^verbatim>\<open>__jacl_match_expr\<close>, and the result: the error code and the matcher, and whether a step was not defined.\<close>

definition parse_pattern :: "penv \<Rightarrow> (nat \<times> match_parser) option" where
  "parse_pattern pe =
     match_expr pe (match_term pe (match_atom pe (Suc (length (pe_pat pe))))) (snd (match_node pe MTOK_END (parser_start (pe_cflags pe))))"

definition finish_matcher :: "byte list \<Rightarrow> nat \<Rightarrow> match_parser \<Rightarrow> matcher" where
  "finish_matcher pat root ps =
     (p_m ps)\<lparr>m_root := root, m_nsub := nat (p_cap ps), m_eflags := p_eflags ps,
              m_lit := (if root \<noteq> 0 \<and> n_type (m_arena (p_m ps) ! root) = MTOK_ALT then [] else lit_prefix pat)\<rparr>"

definition matchcomp :: "penv \<Rightarrow> (match_err \<times> matcher \<times> bool) option" where
  "matchcomp pe =
     (case parse_pattern pe of
        None \<Rightarrow> None
      | Some (root, ps) \<Rightarrow>
          Some (if p_err ps \<noteq> M_SUCCESS then (p_err ps, zero_matcher, p_ub ps)
                else (M_SUCCESS, finish_matcher (pe_pat pe) root ps, p_ub ps)))"

end
