(* ===== verification/MatchSafe.thy ===== *)
theory MatchSafe
  imports Match
begin

text \<open>
  The matcher never leaves its data and always answers.  The invariant of a context is that the captures lie inside the subject and that the
  written entries of the repetition workspace do; a locale states it of any engine from some depth on, the primitives keep it for every
  such engine, and fuel for the rest of the depth limit is enough.
\<close>

section \<open>Safety\<close>

text \<open>
  What a compiled pattern has to satisfy: indices stay inside the arena, a sequence continues with a node made before it, and
  the group numbers of back-references and conditions are small enough to be doubled.
\<close>

definition wf_node :: "nat \<Rightarrow> nat \<Rightarrow> match_node \<Rightarrow> bool" where
  "wf_node k i n \<longleftrightarrow> n_a n < k \<and> n_b n < k \<and> (n_type n = MTOK_SEQ \<longrightarrow> n_b n < i \<or> n_b n = 0) \<and> n_min n < 256 \<and> n_max n < 256"

definition wf_matcher :: "matcher \<Rightarrow> bool" where
  "wf_matcher m \<longleftrightarrow>
     m_root m < length (m_arena m) \<and> length (m_groups m) = 32 \<and> (\<forall>g \<in> set (m_groups m). g < length (m_arena m)) \<and>
     (\<forall>i < length (m_arena m). wf_node (length (m_arena m)) i (m_arena m ! i)) \<and>
     length (m_rlo m) = 32 \<and> length (m_rhi m) = 32 \<and> length (m_rcid m) = 32 \<and> length (m_rneg m) = 32 \<and> length (m_cname m) = 32 \<and> m_nr m \<le> 32"

definition small_refs :: "matcher \<Rightarrow> bool" where
  "small_refs m \<longleftrightarrow> (\<forall>n \<in> set (m_arena m). n_type n = MTOK_BACKREF \<or> n_type n = MTOK_COND \<longrightarrow> n_val n < 2 ^ 30)"

definition looks_back :: "matcher \<Rightarrow> bool" where
  "looks_back m \<longleftrightarrow> (\<exists>n \<in> set (m_arena m). n_type n = MTOK_LOOK \<and> odd (look_extra n))"

definition wf_env :: "menv \<Rightarrow> bool" where
  "wf_env e \<longleftrightarrow> wf_matcher (en_m e) \<and> small_refs (en_m e) \<and> (looks_back (en_m e) \<longrightarrow> en_past e \<noteq> None)"

definition caps_ok :: "menv \<Rightarrow> int list \<Rightarrow> bool" where
  "caps_ok e cs \<longleftrightarrow> length cs = 64 \<and> (\<forall>x \<in> set cs. - 1 \<le> x \<and> x \<le> int (en_len e))"

definition ctx_ok :: "menv \<Rightarrow> match_ctx \<Rightarrow> bool" where
  "ctx_ok e c \<longleftrightarrow>
     caps_ok e (c_caps c) \<and> length (c_path c) = 255 \<and> length (c_cpath c) = 255 \<and>
     (\<forall>p. Some p \<in> set (c_path c) \<longrightarrow> p \<le> en_len e) \<and> (\<forall>cs. Some cs \<in> set (c_cpath c) \<longrightarrow> caps_ok e cs)"

text \<open>The workspace only gains written entries, and the depth never falls.\<close>

definition ext :: "match_ctx \<Rightarrow> match_ctx \<Rightarrow> bool" where
  "ext c c' \<longleftrightarrow> c_depth c \<le> c_depth c' \<and>
     (\<forall>i < 255. (c_path c ! i \<noteq> None \<longrightarrow> c_path c' ! i \<noteq> None) \<and> (c_cpath c ! i \<noteq> None \<longrightarrow> c_cpath c' ! i \<noteq> None))"

definition post :: "menv \<Rightarrow> match_ctx \<Rightarrow> mresult \<Rightarrow> bool" where
  "post e c res \<longleftrightarrow> (\<exists>r c'. res = Some (r, c') \<and> ctx_ok e c' \<and> ext c c' \<and> (\<forall>p. r = Some p \<longrightarrow> p \<le> en_len e))"

lemma ext_refl [simp]: "ext c c"
  by (simp add: ext_def)

lemma ext_trans: "ext c d \<Longrightarrow> ext d f \<Longrightarrow> ext c f"
  by (auto simp: ext_def)

lemma ext_same: "c_depth c \<le> c_depth d \<Longrightarrow> c_path d = c_path c \<Longrightarrow> c_cpath d = c_cpath c \<Longrightarrow> ext c d"
  by (simp add: ext_def)

lemma post_fail [simp]: "post e c (Some (None, c')) \<longleftrightarrow> ctx_ok e c' \<and> ext c c'"
  by (auto simp: post_def)

lemma post_Some [simp]: "post e c (Some (Some p, c')) \<longleftrightarrow> ctx_ok e c' \<and> ext c c' \<and> p \<le> en_len e"
  by (auto simp: post_def)

lemma post_ext: "post e d res \<Longrightarrow> ext c d \<Longrightarrow> post e c res"
  by (auto simp: post_def intro: ext_trans)

lemma ext_caps [simp]: "ext c (d\<lparr>c_caps := x\<rparr>) = ext c d" "ext (c\<lparr>c_caps := x\<rparr>) d = ext c d"
  by (simp_all add: ext_def)

lemma ext_ic [simp]: "ext c (d\<lparr>c_ic := y\<rparr>) = ext c d" "ext (c\<lparr>c_ic := y\<rparr>) d = ext c d"
  by (simp_all add: ext_def)

lemma ext_err [simp]: "ext c (d\<lparr>c_err := z\<rparr>) = ext c d" "ext (c\<lparr>c_err := z\<rparr>) d = ext c d"
  by (simp_all add: ext_def)

lemma post_caps [simp]: "post e (c\<lparr>c_caps := x\<rparr>) = post e c" "post e (c\<lparr>c_ic := y\<rparr>) = post e c"
  by (auto simp: post_def)

lemma post_bind:
  assumes "post e c res"
    and "\<And>r d. ctx_ok e d \<Longrightarrow> ext c d \<Longrightarrow> (\<And>p. r = Some p \<Longrightarrow> p \<le> en_len e) \<Longrightarrow> post e d (k r d)"
  shows "post e c (res \<bind> (\<lambda>(r, d). k r d))"
proof -
  obtain r d where *: "res = Some (r, d)" "ctx_ok e d" "ext c d" "\<forall>p. r = Some p \<longrightarrow> p \<le> en_len e"
    using assms(1) by (auto simp: post_def)
  then have "post e d (k r d)" by (intro assms(2)) auto
  then show ?thesis using * post_ext by auto
qed

lemma caps_ok_update: "caps_ok e cs \<Longrightarrow> - 1 \<le> x \<Longrightarrow> x \<le> int (en_len e) \<Longrightarrow> caps_ok e (cs[i := x])"
  by (auto simp: caps_ok_def dest: set_update_subset_insert [THEN subsetD])

lemma caps_ok_nth: "caps_ok e cs \<Longrightarrow> i < 64 \<Longrightarrow> - 1 \<le> cs ! i \<and> cs ! i \<le> int (en_len e)"
  by (auto simp: caps_ok_def)

lemma ctx_ok_caps: "ctx_ok e c \<Longrightarrow> caps_ok e cs \<Longrightarrow> ctx_ok e (c\<lparr>c_caps := cs\<rparr>)"
  by (simp add: ctx_ok_def)

lemma ctx_ok_err [simp]: "ctx_ok e (c\<lparr>c_err := x\<rparr>) = ctx_ok e c"
  by (simp add: ctx_ok_def)

lemma ctx_ok_depth [simp]: "ctx_ok e (c\<lparr>c_depth := x\<rparr>) = ctx_ok e c"
  by (simp add: ctx_ok_def)

lemma ctx_ok_ic [simp]: "ctx_ok e (c\<lparr>c_ic := x\<rparr>) = ctx_ok e c"
  by (simp add: ctx_ok_def)

lemma ctx_ok_path: "ctx_ok e c \<Longrightarrow> p \<le> en_len e \<Longrightarrow> ctx_ok e (c\<lparr>c_path := (c_path c)[i := Some p]\<rparr>)"
  by (auto simp: ctx_ok_def dest: set_update_subset_insert [THEN subsetD])

lemma ctx_ok_cpath: "ctx_ok e c \<Longrightarrow> caps_ok e cs \<Longrightarrow> ctx_ok e (c\<lparr>c_cpath := (c_cpath c)[i := Some cs]\<rparr>)"
  by (auto simp: ctx_ok_def dest: set_update_subset_insert [THEN subsetD])

lemma ctx_ok_capsD: "ctx_ok e c \<Longrightarrow> caps_ok e (c_caps c)"
  by (simp add: ctx_ok_def)

lemma ctx_ok_pathD: "ctx_ok e c \<Longrightarrow> i < 255 \<Longrightarrow> c_path c ! i = Some p \<Longrightarrow> p \<le> en_len e"
  by (metis ctx_ok_def nth_mem)

lemma ctx_ok_cpathD: "ctx_ok e c \<Longrightarrow> i < 255 \<Longrightarrow> c_cpath c ! i = Some cs \<Longrightarrow> caps_ok e cs"
  by (metis ctx_ok_def nth_mem)

lemma utf8_tail_bounds: "p \<le> en \<Longrightarrow> p \<le> snd (utf8_tail s en k p cp) \<and> snd (utf8_tail s en k p cp) \<le> en"
  by (induction s en k p cp rule: utf8_tail.induct) (auto intro: Suc_leI)

lemma match_utf8_next_bounds: "p < en \<Longrightarrow> p < snd (match_utf8_next s en p) \<and> snd (match_utf8_next s en p) \<le> en"
proof -
  assume p: "p < en"
  then have t: "p < snd (utf8_tail s en k (Suc p) cp) \<and> snd (utf8_tail s en k (Suc p) cp) \<le> en" for k cp
    using utf8_tail_bounds [of "Suc p" en s k cp] by (simp add: Suc_le_eq)
  have z: "p < Suc p \<and> Suc p \<le> en" "p < en \<and> en \<le> en" using p by auto
  show ?thesis
    unfolding match_utf8_next_def Let_def using p by (simp only: not_le if_False if_not_P split: if_split) (simp only: t z snd_conv simp_thms)
qed

lemma skip_cont_bounds: "p \<le> en \<Longrightarrow> p \<le> skip_cont s en p \<and> skip_cont s en p \<le> en"
proof (induction s en p rule: skip_cont.induct)
  case (1 s en p)
  then show ?case by (auto simp: skip_cont.simps [of s en p] Suc_le_eq)
qed

lemma sint_small: "uint (x :: u32) < 2 ^ 31 \<Longrightarrow> sint x = uint x"
  by (simp add: sint_uint signed_take_bit_eq_if_positive signed_take_bit_def bit_iff_odd take_bit_int_eq_self)

lemma back_cont_Some: "p \<le> en_len e \<Longrightarrow> p < en_len e \<or> en_past e \<noteq> None \<Longrightarrow> \<exists>q. back_cont e p = Some q"
  by (induction e p rule: back_cont.induct) (auto simp: byte_at_def split: option.splits)

section \<open>What the primitives keep, for any engine that keeps it\<close>

text \<open>An engine that is safe from depth \<open>D\<close> on.\<close>

locale engine =
  fixes e :: menv and mf :: mfind and D :: nat
  assumes mf_post: "wf_env e \<Longrightarrow> ctx_ok e c \<Longrightarrow> D \<le> c_depth c \<Longrightarrow> i < length (m_arena (en_m e)) \<Longrightarrow> pos \<le> en_len e \<Longrightarrow> post e c (mf c i pos)"
begin

lemma mf_post_ext:
  "wf_env e \<Longrightarrow> ctx_ok e d \<Longrightarrow> D \<le> c_depth c \<Longrightarrow> i < length (m_arena (en_m e)) \<Longrightarrow> pos \<le> en_len e \<Longrightarrow> ext c d \<Longrightarrow> post e c (mf d i pos)"
  by (rule post_ext [where d = d]) (auto intro: mf_post simp: ext_def)

lemma prim_CAP_post:
  assumes "wf_env e" "ctx_ok e c" "D \<le> c_depth c" "wf_node (length (m_arena (en_m e))) i n" "pos \<le> en_len e"
  shows "post e c (prim_CAP e mf c n pos)"
proof (cases "n_cap n * 2 + 1 \<ge> MATCH_MAX_GROUPS * 2")
  case True
  then show ?thesis using assms by (simp add: prim_CAP_def Let_def ext_def)
next
  case False
  let ?i = "n_cap n * 2"
  have i: "?i < 64" "?i + 1 < 64" using False by (simp_all add: MATCH_MAX_GROUPS_def)
  note ok = caps_ok_nth [OF ctx_ok_capsD [OF assms(2)] i(1)] caps_ok_nth [OF ctx_ok_capsD [OF assms(2)] i(2)]
  have r: "ctx_ok e (d\<lparr>c_caps := (c_caps d)[?i := c_caps c ! ?i, ?i + 1 := c_caps c ! (?i + 1)]\<rparr>)" if "ctx_ok e d" for d
    using that ok by (intro ctx_ok_caps caps_ok_update) (auto simp: ctx_ok_capsD)
  have s: "ctx_ok e (d\<lparr>c_caps := (c_caps d)[j := int q]\<rparr>)" if "ctx_ok e d" "q \<le> en_len e" for d j q
    using that by (intro ctx_ok_caps caps_ok_update) (auto simp: ctx_ok_capsD)
  have n: "n_a n < length (m_arena (en_m e))" "n_b n < length (m_arena (en_m e))" using assms(4) by (auto simp: wf_node_def)
  have tail: "post e d (mf (d\<lparr>c_caps := (c_caps d)[?i + 1 := int q]\<rparr>) (n_b n) q \<bind>
      (\<lambda>(res, c'). Some (res, if res = None then c'\<lparr>c_caps := (c_caps c')[?i := c_caps c ! ?i, ?i + 1 := c_caps c ! (?i + 1)]\<rparr> else c')))"
    if d: "ctx_ok e d" "ext c d" and q: "q \<le> en_len e" for d q
  proof (rule post_bind)
    show "post e d (mf (d\<lparr>c_caps := (c_caps d)[?i + 1 := int q]\<rparr>) (n_b n) q)"
      using mf_post [OF assms(1) s [OF d(1) q, of "?i + 1"] _ n(2) q] d assms(3) by (simp add: ext_def)
  qed (auto simp: post_def r [simplified])
  have "post e c (mf (c\<lparr>c_caps := (c_caps c)[?i := int pos]\<rparr>) (n_a n) pos)"
    using mf_post [OF assms(1) s [OF assms(2,5), of ?i] _ n(1) assms(5)] assms(3) by simp
  then show ?thesis
    unfolding prim_CAP_def Let_def using False
    by simp (rule post_bind, assumption, auto split: option.split intro!: tail [simplified] simp: r [simplified])
qed

lemma prim_CHAR_post:
  assumes "wf_env e" "ctx_ok e c" "D \<le> c_depth c" "wf_node (length (m_arena (en_m e))) i n" "pos \<le> en_len e"
  shows "post e c (prim_CHAR e mf c n pos)"
proof (cases "pos < en_len e")
  case True
  then have "post e c (mf c (n_b n) (pos + 1))" "post e c (mf c (n_b n) (snd (match_utf8_next (en_s e) (en_len e) pos)))"
    using assms match_utf8_next_bounds [OF True, of "en_s e"] by (auto intro!: mf_post simp: wf_node_def)
  then show ?thesis using assms(2) by (auto simp: prim_CHAR_def split: prod.split)
qed (use assms in \<open>simp add: prim_CHAR_def\<close>)

lemma prim_CLASS_post:
  assumes "wf_env e" "ctx_ok e c" "D \<le> c_depth c" "wf_node (length (m_arena (en_m e))) i n" "pos \<le> en_len e"
  shows "post e c (prim_CLASS e mf c n pos)"
proof (cases "pos < en_len e")
  case True
  then have "snd (class_char e pos) \<le> en_len e"
    using match_utf8_next_bounds [OF True, of "en_s e"] by (auto simp: class_char_def)
  then have "post e c (mf c (n_b n) (snd (class_char e pos)))" using assms by (auto intro!: mf_post simp: wf_node_def)
  then show ?thesis using assms(2) by (auto simp: prim_CLASS_def split: prod.split)
qed (use assms in \<open>simp add: prim_CLASS_def\<close>)

lemma prim_ANY_post:
  assumes "wf_env e" "ctx_ok e c" "D \<le> c_depth c" "wf_node (length (m_arena (en_m e))) i n" "pos \<le> en_len e"
  shows "post e c (prim_ANY e mf c n pos)"
proof (cases "pos < en_len e")
  case True
  then have "post e c (mf c (n_b n) (pos + 1))" "post e c (mf c (n_b n) (skip_cont (en_s e) (en_len e) (pos + 1)))"
    using assms skip_cont_bounds [of "pos + 1" "en_len e" "en_s e"] by (auto intro!: mf_post simp: wf_node_def)
  then show ?thesis using assms(2) by (auto simp: prim_ANY_def)
qed (use assms in \<open>simp add: prim_ANY_def\<close>)

lemma prim_zero_width_post:
  assumes "wf_env e" "ctx_ok e c" "D \<le> c_depth c" "wf_node (length (m_arena (en_m e))) i n" "pos \<le> en_len e"
  shows "post e c (prim_BOL e mf c n pos)" "post e c (prim_EOL e mf c n pos)" "post e c (prim_WB e mf c n pos neg)"
proof -
  have "post e c (mf c (n_b n) pos)" using assms by (auto intro!: mf_post simp: wf_node_def)
  then show "post e c (prim_BOL e mf c n pos)" "post e c (prim_EOL e mf c n pos)" "post e c (prim_WB e mf c n pos neg)"
    using assms(2) by (auto simp: prim_BOL_def prim_EOL_def prim_WB_def Let_def)
qed

lemma seq_loop_post:
  assumes "wf_env e" "ctx_ok e c" "D \<le> c_depth c" "i < length (m_arena (en_m e))" "pos \<le> en_len e" "i < k"
  shows "post e c (seq_loop e mf k c i pos)"
  using assms(2-)
proof (induction k arbitrary: c i pos)
  case (Suc k)
  let ?n = "m_arena (en_m e) ! i"
  have w: "wf_node (length (m_arena (en_m e))) i ?n" using assms(1) Suc.prems(3) by (simp add: wf_env_def wf_matcher_def)
  then have n: "n_a ?n < length (m_arena (en_m e))" "n_b ?n < length (m_arena (en_m e))" by (auto simp: wf_node_def)
  show ?case
  proof (cases "i = 0 \<or> n_type ?n \<noteq> MTOK_SEQ")
    case True
    then show ?thesis using Suc.prems assms(1) by (auto intro: mf_post)
  next
    case False
    then have b: "n_b ?n < i" using w by (auto simp: wf_node_def)
    have k: "n_b ?n < k" using b Suc.prems(5) by simp
    have z: "(0::nat) < length (m_arena (en_m e))" using Suc.prems(3) by linarith
    have "post e c (mf c (n_a ?n) pos)" using Suc.prems assms(1) n by (auto intro: mf_post)
    moreover have "post e d (seq_loop e mf k d 0 q)" "post e d (seq_loop e mf k d (n_b ?n) q)"
        "post e d (seq_loop e mf k (d\<lparr>c_ic := x\<rparr>) (n_b ?n) q)"
      if "ctx_ok e d" "ext c d" "q \<le> en_len e" for d q x
    proof -
      have d: "D \<le> c_depth d" using that Suc.prems(2) by (simp add: ext_def)
      show "post e d (seq_loop e mf k d 0 q)" using Suc.IH [OF that(1) d z that(3)] k by simp
      show "post e d (seq_loop e mf k d (n_b ?n) q)" using Suc.IH [OF that(1) d n(2) that(3) k] .
      show "post e d (seq_loop e mf k (d\<lparr>c_ic := x\<rparr>) (n_b ?n) q)" using Suc.IH [of "d\<lparr>c_ic := x\<rparr>" "n_b ?n" q] that d n k by simp
    qed
    ultimately show ?thesis using False Suc.prems n
      by (simp add: Let_def) (rule post_bind, assumption, auto split: option.split)
  qed
qed simp

lemma prim_ALT_post:
  assumes "wf_env e" "ctx_ok e c" "D \<le> c_depth c" "wf_node (length (m_arena (en_m e))) i n" "pos \<le> en_len e"
  shows "post e c (prim_ALT e mf c n pos)"
proof -
  have "post e c (mf c (n_a n) pos)" using assms by (auto intro!: mf_post simp: wf_node_def)
  moreover have "post e d (mf (d\<lparr>c_caps := c_caps c\<rparr>) (n_b n) pos)" if "ctx_ok e d" "ext c d" for d
    using mf_post [of "d\<lparr>c_caps := c_caps c\<rparr>" "n_b n" pos] assms that
    by (auto simp: wf_node_def ext_def intro: ctx_ok_caps ctx_ok_capsD)
  ultimately show ?thesis unfolding prim_ALT_def Let_def
    by (rule_tac post_bind) (auto split: option.split)
qed

lemma prim_ATOMIC_post:
  assumes "wf_env e" "ctx_ok e c" "D \<le> c_depth c" "wf_node (length (m_arena (en_m e))) i n" "pos \<le> en_len e"
  shows "post e c (prim_ATOMIC e mf c n pos)"
proof -
  have "post e c (mf c (n_a n) pos)" using assms by (auto intro!: mf_post simp: wf_node_def)
  moreover have "post e d (mf d (n_b n) q)" if "ctx_ok e d" "ext c d" "q \<le> en_len e" for d q
    using mf_post [of d "n_b n" q] assms that by (auto simp: wf_node_def ext_def)
  ultimately show ?thesis unfolding prim_ATOMIC_def by (rule_tac post_bind) (auto split: option.split)
qed

lemma rep_loop_post:
  assumes "wf_env e" "ctx_ok e c" "D \<le> c_depth c" "wf_node (length (m_arena (en_m e))) i n" "k + r = 254"
    "\<forall>j \<le> k. c_path c ! j \<noteq> None \<and> c_cpath c ! j \<noteq> None"
  shows "\<exists>k' c'. rep_loop mf n r k c = Some (k', c') \<and> ctx_ok e c' \<and> ext c c' \<and> k' \<le> 254 \<and>
      (\<forall>j \<le> k'. c_path c' ! j \<noteq> None \<and> c_cpath c' ! j \<noteq> None)"
  using assms(2,3,5,6)
proof (induction r arbitrary: c k)
  case 0
  then show ?case by simp
next
  case (Suc r)
  let ?c = "c\<lparr>c_cpath := (c_cpath c)[k + 1 := Some (c_caps c)]\<rparr>"
  have k: "k < 255" "k + 1 < 255" using Suc.prems(3) by auto
  obtain p where p: "c_path c ! k = Some p" using Suc.prems(4) by auto
  have pl: "p \<le> en_len e" using ctx_ok_pathD [OF Suc.prems(1) k(1) p] .
  have c1: "ctx_ok e ?c" using Suc.prems(1) by (intro ctx_ok_cpath ctx_ok_capsD)
  have e1: "ext c ?c" by (auto simp: ext_def nth_list_update split: if_splits) (metis Suc.prems(1) ctx_ok_def nth_list_update_eq nth_list_update_neq option.distinct(1))
  have a: "n_a n < length (m_arena (en_m e))" using assms(4) by (simp add: wf_node_def)
  have "post e ?c (mf ?c (n_a n) p)" using mf_post [OF assms(1) c1 _ a pl] Suc.prems(2) by simp
  then obtain res d where d: "mf ?c (n_a n) p = Some (res, d)" "ctx_ok e d" "ext ?c d" "\<forall>q. res = Some q \<longrightarrow> q \<le> en_len e"
    by (auto simp: post_def)
  have ed: "ext c d" using e1 d(3) by (rule ext_trans)
  have init: "\<forall>j \<le> k. c_path d ! j \<noteq> None \<and> c_cpath d ! j \<noteq> None"
    using Suc.prems(4) ed k by (auto simp: ext_def)
  obtain p' where p': "c_path d ! k = Some p'" using init by auto
  show ?case
  proof (cases "(n_max n = 255 \<or> k < n_max n) \<and> (\<exists>q. res = Some q \<and> q \<noteq> p')")
    case False
    then show ?thesis using Suc.prems p p' d ed init k by (auto split: option.split)
  next
    case True
    then obtain q where q: "res = Some q" "q \<noteq> p'" by auto
    let ?d = "d\<lparr>c_path := (c_path d)[k + 1 := Some q], c_cpath := (c_cpath d)[k + 1 := Some (c_caps d)]\<rparr>"
    have l: "length (c_path d) = 255" "length (c_cpath d) = 255" using d(2) by (auto simp: ctx_ok_def)
    have "ctx_ok e (d\<lparr>c_path := (c_path d)[k + 1 := Some q]\<rparr>)" using ctx_ok_path [OF d(2)] d(4) q(1) by auto
    then have ok: "ctx_ok e ?d" using ctx_ok_cpath [of e "d\<lparr>c_path := (c_path d)[k + 1 := Some q]\<rparr>" "c_caps d" "k + 1"] d(2)
      by (simp add: ctx_ok_capsD)
    have ex: "ext d ?d" using l k by (auto simp: ext_def nth_list_update)
    then have "ext c ?d" using ed by (rule_tac ext_trans)
    moreover have "\<forall>j \<le> k + 1. c_path ?d ! j \<noteq> None \<and> c_cpath ?d ! j \<noteq> None" using init l k by (auto simp: nth_list_update le_Suc_eq)
    moreover have "D \<le> c_depth ?d" using \<open>ext c ?d\<close> Suc.prems(2) by (simp add: ext_def)
    ultimately obtain k' c' where "rep_loop mf n r (k + 1) ?d = Some (k', c')" "ctx_ok e c'" "ext ?d c'" "k' \<le> 254"
        "\<forall>j \<le> k'. c_path c' ! j \<noteq> None \<and> c_cpath c' ! j \<noteq> None"
      using Suc.IH [of ?d "k + 1"] ok Suc.prems(3) by auto
    then show ?thesis using True p p' d q \<open>ext c ?d\<close> by (auto intro: ext_trans)
  qed
qed

lemma rep_try_post:
  assumes "wf_env e" "ctx_ok e c" "D \<le> c_depth c" "wf_node (length (m_arena (en_m e))) i n"
    "\<forall>j \<in> set is. j < 255 \<and> c_path c ! j \<noteq> None \<and> c_cpath c ! j \<noteq> None"
  shows "post e c (rep_try mf n is c)"
  using assms(2,3,5)
proof (induction "is" arbitrary: c)
  case (Cons j js)
  obtain p cs where p: "c_path c ! j = Some p" "c_cpath c ! j = Some cs" "j < 255" using Cons.prems(3) by auto
  have pl: "p \<le> en_len e" using ctx_ok_pathD [OF Cons.prems(1) p(3,1)] .
  have c1: "ctx_ok e (c\<lparr>c_caps := cs\<rparr>)" using Cons.prems(1) ctx_ok_cpathD [OF Cons.prems(1) p(3,2)] by (rule ctx_ok_caps)
  have "post e c (if n_b n \<noteq> 0 then mf (c\<lparr>c_caps := cs\<rparr>) (n_b n) p else Some (Some p, c\<lparr>c_caps := cs\<rparr>))"
    using mf_post [OF assms(1) c1, of "n_b n" p] Cons.prems assms(4) pl c1 by (simp add: wf_node_def)
  moreover have "post e d (rep_try mf n js d)" if "ctx_ok e d" "ext c d" for d
    using Cons.IH [of d] Cons.prems that by (auto simp: ext_def)
  ultimately have "post e c ((if n_b n \<noteq> 0 then mf (c\<lparr>c_caps := cs\<rparr>) (n_b n) p else Some (Some p, c\<lparr>c_caps := cs\<rparr>)) \<bind>
      (\<lambda>(r, d). case r of Some q \<Rightarrow> Some (Some q, d) | None \<Rightarrow> if c_err d = M_EDEPTH then Some (None, d) else rep_try mf n js d))"
    by (rule_tac post_bind) (auto split: option.split)
  then show ?case using p by (simp add: Let_def)
qed simp

lemma prim_REP_post:
  assumes "wf_env e" "ctx_ok e c" "D \<le> c_depth c" "wf_node (length (m_arena (en_m e))) i n" "pos \<le> en_len e"
  shows "post e c (prim_REP e mf c n pos)"
proof -
  let ?c = "c\<lparr>c_path := (c_path c)[0 := Some pos], c_cpath := (c_cpath c)[0 := Some (c_caps c)]\<rparr>"
  have l: "length (c_path c) = 255" "length (c_cpath c) = 255" using assms(2) by (auto simp: ctx_ok_def)
  have "ctx_ok e (c\<lparr>c_path := (c_path c)[0 := Some pos]\<rparr>)" using assms by (auto intro: ctx_ok_path)
  then have ok: "ctx_ok e ?c" using ctx_ok_cpath [of e "c\<lparr>c_path := (c_path c)[0 := Some pos]\<rparr>" "c_caps c" 0] assms(2)
    by (simp add: ctx_ok_capsD)
  have ex: "ext c ?c" using l by (auto simp: ext_def nth_list_update)
  have init: "\<forall>j \<le> 0. c_path ?c ! j \<noteq> None \<and> c_cpath ?c ! j \<noteq> None" using l by simp
  obtain k d where d: "rep_loop mf n 254 0 ?c = Some (k, d)" "ctx_ok e d" "ext ?c d" "k \<le> 254"
      "\<forall>j \<le> k. c_path d ! j \<noteq> None \<and> c_cpath d ! j \<noteq> None"
    using rep_loop_post [OF assms(1) ok _ assms(4) _ init, of 254] assms(3) by auto
  have "post e d (rep_try mf n (if n_lazy n then [n_min n..<Suc k] else rev [n_min n..<Suc k]) d)"
    using d assms(3) by (intro rep_try_post [OF assms(1) d(2) _ assms(4)]) (auto simp: ext_def)
  then have "post e c (rep_try mf n (if n_lazy n then [n_min n..<Suc k] else rev [n_min n..<Suc k]) d)"
    using ext_trans [OF ex d(3)] by (rule post_ext)
  then show ?thesis using d(1) by (simp add: prim_REP_def MATCH_MAX_BACKTRACK_def del: upt_Suc rep_loop.simps)
qed

text \<open>Running a body in a copy of the context and taking back the captures and the workspace.\<close>

lemma sub_post:
  assumes "post e c res"
  obtains r s where "res = Some (r, s)"
    "ctx_ok e (c\<lparr>c_caps := c_caps s, c_path := c_path s, c_cpath := c_cpath s\<rparr>)"
    "ext c (c\<lparr>c_caps := c_caps s, c_path := c_path s, c_cpath := c_cpath s\<rparr>)"
  using assms by (auto simp: post_def ctx_ok_def ext_def)

lemma look_loop_post:
  assumes "wf_env e" "en_past e \<noteq> None" "a < length (m_arena (en_m e))" "caps_ok e scap"
    "ctx_ok e c" "D \<le> c_depth c" "cp \<le> en_len e"
  shows "\<exists>found d. look_loop e mf a pos scap cp c = Some (found, d) \<and> ctx_ok e d \<and> ext c d"
  using assms(5-)
proof (induction cp arbitrary: c rule: less_induct)
  case (less cp)
  let ?c = "c\<lparr>c_caps := (c_caps c)[0 := scap ! 0]\<rparr>"
  have "caps_ok e ((c_caps c)[0 := scap ! 0])"
    using caps_ok_nth [OF assms(4), of 0] by (intro caps_ok_update ctx_ok_capsD [OF less.prems(1)]) simp_all
  with less.prems(1) have "ctx_ok e ?c" by (rule ctx_ok_caps)
  then have "post e ?c (mf ?c a cp)" using less.prems assms by (intro mf_post) auto
  then obtain r s where s: "mf ?c a cp = Some (r, s)" "ctx_ok e (?c\<lparr>c_caps := c_caps s, c_path := c_path s, c_cpath := c_cpath s\<rparr>)"
    "ext ?c (?c\<lparr>c_caps := c_caps s, c_path := c_path s, c_cpath := c_cpath s\<rparr>)" by (rule sub_post)
  let ?d = "c\<lparr>c_caps := c_caps s, c_path := c_path s, c_cpath := c_cpath s\<rparr>"
  have d: "ctx_ok e ?d" "ext c ?d" using s(2,3) by (simp_all add: ext_def)
  obtain q where q: "back_cont e cp = Some q" using back_cont_Some [of cp e] less.prems(3) assms(2) by auto
  show ?case
  proof (cases "r = Some pos \<or> cp = 0 \<or> q = 0")
    case True
    then show ?thesis using s(1) q d by (auto simp: look_loop.simps [of e mf a pos scap cp] Let_def)
  next
    case False
    have "q - 1 < cp" "q - 1 \<le> en_len e" using back_cont_le [OF q] False less.prems(3) by auto
    moreover have "D \<le> c_depth ?d" using less.prems(2) by simp
    ultimately obtain found d' where "look_loop e mf a pos scap (q - 1) ?d = Some (found, d')" "ctx_ok e d'" "ext ?d d'"
      using less.IH [of "q - 1" ?d] d(1) by blast
    then show ?thesis using False s(1) q ext_trans [OF d(2)] by (auto simp: look_loop.simps [of e mf a pos scap cp] Let_def)
  qed
qed

lemma prim_LOOK_post:
  assumes "wf_env e" "ctx_ok e c" "D \<le> c_depth c" "wf_node (length (m_arena (en_m e))) i n" "pos \<le> en_len e"
    "odd extra \<longrightarrow> en_past e \<noteq> None"
  shows "post e c (prim_LOOK e mf c n pos extra)"
proof -
  have n: "n_a n < length (m_arena (en_m e))" "n_b n < length (m_arena (en_m e))" using assms(4) by (auto simp: wf_node_def)
  have after: "post e c (if (if neg then \<not> found else found) then mf d (n_b n) pos else Some (None, d))" if "ctx_ok e d" "ext c d" for found d neg
    using mf_post [OF assms(1) that(1) _ n(2) assms(5)] that assms(3) by (auto simp: ext_def intro: post_ext)
  show ?thesis
  proof (cases "odd extra")
    case True
    then obtain found d where d: "look_loop e mf (n_a n) pos (c_caps c) pos c = Some (found, d)" "ctx_ok e d" "ext c d"
      using look_loop_post [OF assms(1) _ n(1) ctx_ok_capsD [OF assms(2)] assms(2,3,5), of pos] assms(6) by auto
    then have "ctx_ok e (d\<lparr>c_caps := c_caps c\<rparr>)" using assms(2) by (intro ctx_ok_caps ctx_ok_capsD)
    then show ?thesis using True d after [of "d\<lparr>c_caps := c_caps c\<rparr>"] by (simp add: prim_LOOK_def Let_def)
  next
    case False
    have "post e c (mf c (n_a n) pos)" using mf_post assms n by auto
    then obtain r s where s: "mf c (n_a n) pos = Some (r, s)" "ctx_ok e (c\<lparr>c_caps := c_caps s, c_path := c_path s, c_cpath := c_cpath s\<rparr>)"
      "ext c (c\<lparr>c_caps := c_caps s, c_path := c_path s, c_cpath := c_cpath s\<rparr>)" by (rule sub_post)
    then show ?thesis using False after [OF s(2,3)] by (simp add: prim_LOOK_def Let_def)
  qed
qed

lemma backref_loop_bounds:
  "backref_loop e ic k r_end r cur = Some (r', cur') \<Longrightarrow> cur \<le> en_len e \<Longrightarrow> cur' \<le> en_len e"
proof (induction k arbitrary: r cur)
  case (Suc k)
  then show ?case
    using match_utf8_next_bounds [of cur "en_len e" "en_s e"] by (fastforce split: if_splits prod.splits)
qed simp

lemma prim_BACKREF_post:
  assumes "wf_env e" "ctx_ok e c" "D \<le> c_depth c" "wf_node (length (m_arena (en_m e))) i n" "pos \<le> en_len e"
    "n_val n < 2 ^ 30"
  shows "post e c (prim_BACKREF e mf c n pos)"
proof -
  have u: "uint (n_val n) < 2 ^ 30" using assms(6) by (simp add: word_less_def)
  then have v: "sint (n_val n) = uint (n_val n)" by (simp add: sint_small)
  have m: "post e c (mf c (n_b n) q)" if "q \<le> en_len e" for q using mf_post that assms by (auto simp: wf_node_def)
  show ?thesis using assms(2,5) u m unfolding prim_BACKREF_def v Let_def
    by (auto simp: MATCH_MAX_GROUPS_def ext_def dest: backref_loop_bounds split: option.split)
qed

lemma prim_COND_post:
  assumes "wf_env e" "ctx_ok e c" "D \<le> c_depth c" "wf_node (length (m_arena (en_m e))) i n" "pos \<le> en_len e"
    "n_val n < 2 ^ 30"
  shows "post e c (prim_COND e mf c n pos)"
proof -
  have "uint (n_val n) < 2 ^ 30" using assms(6) by (simp add: word_less_def)
  then have u: "uint (n_val n * 2) < 2 ^ 31" by (simp add: uint_word_ariths)
  then have v: "\<not> sint (n_val n * 2) < 0" by (simp add: sint_small)
  have "post e c (mf c j pos)" if "j < length (m_arena (en_m e))" for j using mf_post that assms by auto
  then show ?thesis using assms(2,4,5) v unfolding prim_COND_def Let_def by (auto simp: wf_node_def)
qed

lemma prim_CALL_post:
  assumes "wf_env e" "ctx_ok e c" "D \<le> c_depth c" "pos \<le> en_len e"
  shows "post e c (prim_CALL e mf c n pos)"
proof -
  have m: "post e c (mf c j pos)" if "j < length (m_arena (en_m e))" for j using mf_post that assms by auto
  have "m_groups (en_m e) ! unat v < length (m_arena (en_m e))" if "v < 32" for v :: u32
  proof -
    have "unat v < 32" using that by (simp add: word_less_nat_alt)
    then show ?thesis using assms(1) by (simp add: wf_env_def wf_matcher_def)
  qed
  then show ?thesis using assms(1,2) m by (auto simp: prim_CALL_def wf_env_def wf_matcher_def)
qed

lemma dispatch_node_post:
  assumes "wf_env e" "ctx_ok e c" "D \<le> c_depth c" "i < length (m_arena (en_m e))" "pos \<le> en_len e"
  shows "post e c (dispatch_node e mf c i (m_arena (en_m e) ! i) pos)"
proof -
  let ?n = "m_arena (en_m e) ! i"
  have w: "wf_node (length (m_arena (en_m e))) i ?n" using assms(1,4) by (simp add: wf_env_def wf_matcher_def)
  have v: "n_val ?n < 2 ^ 30" if "n_type ?n = MTOK_BACKREF \<or> n_type ?n = MTOK_COND"
    using assms(1,4) that unfolding wf_env_def small_refs_def by (metis nth_mem)
  have l: "odd (look_extra ?n) \<longrightarrow> en_past e \<noteq> None" if "n_type ?n = MTOK_LOOK"
    using assms(1,4) that unfolding wf_env_def looks_back_def by (metis nth_mem)
  note a = assms(1-3)
  show ?thesis
    using prim_CHAR_post [OF a w assms(5)] prim_CLASS_post [OF a w assms(5)] prim_ANY_post [OF a w assms(5)]
      prim_zero_width_post [OF a w assms(5)] prim_CAP_post [OF a w assms(5)] prim_ALT_post [OF a w assms(5)]
      prim_REP_post [OF a w assms(5)] prim_ATOMIC_post [OF a w assms(5)] prim_CALL_post [OF a assms(5)]
      prim_LOOK_post [OF a w assms(5)] prim_BACKREF_post [OF a w assms(5)] prim_COND_post [OF a w assms(5)]
      seq_loop_post [OF a assms(4,5), of "Suc (Suc i)"] mf_post [OF a(1,2,3) _ assms(5), of "n_a ?n"] v l w a(2) assms(5)
    by (cases "n_type ?n") (simp_all add: dispatch_node_def prim_SEQ_def wf_node_def)
qed

end

text \<open>Fuel is what is left of the depth limit.\<close>

lemma matchfind_engine: "engine e (matchfind e (Suc f)) (MATCH_MAX_DEPTH - f)"
proof (induction f)
  case 0
  show ?case by (unfold_locales) (simp add: ext_def)
next
  case (Suc f)
  show ?case
  proof
    fix c i pos
    assume a: "wf_env e" "ctx_ok e c" "MATCH_MAX_DEPTH - Suc f \<le> c_depth c" "i < length (m_arena (en_m e))" "pos \<le> en_len e"
    show "post e c (matchfind e (Suc (Suc f)) c i pos)"
    proof (cases "c_depth c + 1 > MATCH_MAX_DEPTH \<or> i = 0")
      case True
      then show ?thesis using a by (auto simp del: matchfind.simps simp: matchfind.simps(2) [of e "Suc f"])
    next
      case False
      let ?c = "c\<lparr>c_depth := c_depth c + 1\<rparr>"
      have "post e ?c (dispatch_node e (matchfind e (Suc f)) ?c i (m_arena (en_m e) ! i) pos)"
        using a False by (intro engine.dispatch_node_post [OF Suc.IH]) auto
      then have "post e c (dispatch_node e (matchfind e (Suc f)) ?c i (m_arena (en_m e) ! i) pos)"
        by (rule post_ext) (simp add: ext_def)
      then show ?thesis using False a(4) by (simp del: matchfind.simps add: matchfind.simps(2) [of e "Suc f"])
    qed
  qed
qed

interpretation matcher_engine: engine e "matchfind e (Suc MATCH_MAX_DEPTH)" 0 for e
  using matchfind_engine [of e MATCH_MAX_DEPTH] by simp

lemma gate_one_bounds: "gate_one l ic p xs = Some q \<Longrightarrow> q \<le> p + length xs"
  by (induction l ic p xs rule: gate_one.induct) (auto split: if_splits)

lemma gate_many_bounds: "gate_many l ic p xs = Some q \<Longrightarrow> q \<le> p + length xs"
  by (induction l ic p xs rule: gate_many.induct) (auto split: if_splits)

lemma matchgate_bounds: "matchgate m s ic = Some q \<Longrightarrow> q \<le> length s"
  by (auto simp: matchgate_def dest: gate_one_bounds gate_many_bounds split: list.splits)

text \<open>The answer of a search: an error code, or offsets inside the subject.\<close>

definition answer_ok :: "nat \<Rightarrow> nat \<Rightarrow> mexec_result \<Rightarrow> bool" where
  "answer_ok len nm r \<longleftrightarrow>
     (case r of None \<Rightarrow> False
      | Some (er, None) \<Rightarrow> True
      | Some (er, Some ms) \<Rightarrow> er = M_SUCCESS \<and> length ms = nm \<and> (\<forall>(so, eo) \<in> set ms. - 1 \<le> so \<and> so \<le> int len \<and> - 1 \<le> eo \<and> eo \<le> int len) \<and>
           0 \<le> fst (hd ms) \<and> 0 \<le> snd (hd ms))"

lemma exec_loop_ok:
  assumes "wf_env e" "ctx_ok e c" "nm \<le> MATCH_MAX_GROUPS"
  shows "answer_ok (en_len e) nm (exec_loop e anchored nm st c)"
  using assms(2)
proof (induction "Suc (en_len e) - st" arbitrary: st c rule: less_induct)
  case less
  let ?c = "c\<lparr>c_caps := replicate (MATCH_MAX_GROUPS * 2) (- 1)\<rparr>"
  show ?case
  proof (cases "st > en_len e \<or> c_depth c > MATCH_MAX_DEPTH")
    case True
    then show ?thesis by (auto simp: exec_loop.simps [of e anchored nm st c] answer_ok_def)
  next
    case False
    have "ctx_ok e ?c" using less.prems by (rule ctx_ok_caps) (simp add: caps_ok_def MATCH_MAX_GROUPS_def)
    then have "post e ?c (matchfind e (Suc MATCH_MAX_DEPTH) ?c (m_root (en_m e)) st)"
      using assms(1) False by (intro matcher_engine.mf_post) (auto simp: wf_env_def wf_matcher_def)
    then obtain r d where d: "matchfind e (Suc MATCH_MAX_DEPTH) ?c (m_root (en_m e)) st = Some (r, d)" "ctx_ok e d"
      "\<forall>p. r = Some p \<longrightarrow> p \<le> en_len e" by (auto simp: post_def)
    have "answer_ok (en_len e) nm (exec_loop e anchored nm (Suc st) d)" using less.hyps [of "Suc st" d] d(2) False by (simp add: Suc_diff_le)
    moreover have "answer_ok (en_len e) nm (map_option (\<lambda>ms. (M_SUCCESS, Some ms)) (store_matches d nm st q))" if "r = Some q" "nm > 0" for q
      using that d False assms(3) caps_ok_nth [OF ctx_ok_capsD [OF d(2)]]
      by (auto simp: answer_ok_def store_matches_def MATCH_MAX_GROUPS_def)
    ultimately show ?thesis using False d(1)
      by (subst exec_loop.simps) (auto simp: answer_ok_def split: option.split)
  qed
qed

lemma match_start_ok: "ctx_ok (match_env l m s past fl) (match_start m fl)"
  by (simp add: ctx_ok_def caps_ok_def match_start_def MATCH_MAX_GROUPS_def MATCH_MAX_BACKTRACK_def)

text \<open>
  A search with a well-formed matcher is safe and always answers: whatever the subject and the flags, \<^verbatim>\<open>matchexec\<close> stays inside the arena,
  the captures and the subject, never reads an entry of the repetition workspace before writing it, and ends within the depth limit;
  its answer is a code, or \<^verbatim>\<open>M_SUCCESS\<close> with exactly the requested number of offset pairs, all inside the subject.
\<close>

lemma matchexec_safe:
  assumes "wf_matcher m" "small_refs m" "looks_back m \<longrightarrow> past \<noteq> None" "nm \<le> MATCH_MAX_GROUPS"
  shows "answer_ok (length s) nm (matchexec l m s past nm fl)"
proof -
  let ?e = "match_env l m s past fl"
  have w: "wf_env ?e" using assms by (simp add: wf_env_def match_env_def)
  have "answer_ok (length s) nm (exec_loop ?e anchored nm st (match_start m fl))" for anchored st
    using exec_loop_ok [OF w match_start_ok assms(4)] by (simp add: match_env_def)
  moreover have "m_root m < length (m_arena m)" using assms(1) by (simp add: wf_matcher_def)
  moreover have "answer_ok (length s) nm (Some (M_NOMATCH, None))" by (simp add: answer_ok_def)
  ultimately show ?thesis by (simp add: matchexec_def Let_def split: option.split)
qed

section \<open>The search window\<close>

text \<open>Every try of a pattern that has a node raises the depth, which nothing lowers again before the search ends.\<close>

lemma matchfind_depth:
  assumes "wf_env e" "ctx_ok e c" "i \<noteq> 0" "i < length (m_arena (en_m e))" "pos \<le> en_len e"
    "matchfind e (Suc MATCH_MAX_DEPTH) c i pos = Some (r, d)"
  shows "c_err d = M_EDEPTH \<or> c_depth c < c_depth d \<and> c_depth c < MATCH_MAX_DEPTH"
proof (cases "c_depth c < MATCH_MAX_DEPTH")
  case True
  let ?c = "c\<lparr>c_depth := c_depth c + 1\<rparr>"
  have f: "engine e (matchfind e MATCH_MAX_DEPTH) 1"
    using matchfind_engine [of e "MATCH_MAX_DEPTH - 1"] by (simp add: MATCH_MAX_DEPTH_def del: matchfind.simps)
  have "post e ?c (dispatch_node e (matchfind e MATCH_MAX_DEPTH) ?c i (m_arena (en_m e) ! i) pos)"
    using assms by (intro engine.dispatch_node_post [OF f]) auto
  moreover have "dispatch_node e (matchfind e MATCH_MAX_DEPTH) ?c i (m_arena (en_m e) ! i) pos = Some (r, d)"
    using assms(3,4,6) True by simp
  ultimately show ?thesis using True by (auto simp: post_def ext_def)
next
  case False
  then show ?thesis using assms(6) by auto
qed

lemma exec_loop_window:
  assumes "wf_env e" "ctx_ok e c" "m_root (en_m e) \<noteq> 0" "exec_loop e anchored nm st c = Some (er, Some ms)"
  shows "int st \<le> fst (hd ms) \<and> fst (hd ms) + int (c_depth c) < int (st + MATCH_MAX_DEPTH)"
  using assms(2,4)
proof (induction "Suc (en_len e) - st" arbitrary: st c rule: less_induct)
  case less
  let ?c = "c\<lparr>c_caps := replicate (MATCH_MAX_GROUPS * 2) (- 1)\<rparr>"
  have st: "st \<le> en_len e" "\<not> c_depth c > MATCH_MAX_DEPTH"
    using less.prems(2) by (auto simp: exec_loop.simps [of e anchored nm st c] split: if_splits)
  have ok: "ctx_ok e ?c" using less.prems(1) by (rule ctx_ok_caps) (simp add: caps_ok_def MATCH_MAX_GROUPS_def)
  have rt: "m_root (en_m e) < length (m_arena (en_m e))" using assms(1) by (simp add: wf_env_def wf_matcher_def)
  have "post e ?c (matchfind e (Suc MATCH_MAX_DEPTH) ?c (m_root (en_m e)) st)"
    using assms(1) ok rt st by (intro matcher_engine.mf_post) auto
  then obtain r d where d: "matchfind e (Suc MATCH_MAX_DEPTH) ?c (m_root (en_m e)) st = Some (r, d)" "ctx_ok e d" by (auto simp: post_def)
  have dep: "c_err d = M_EDEPTH \<or> c_depth c < c_depth d \<and> c_depth c < MATCH_MAX_DEPTH"
    using matchfind_depth [OF assms(1) ok assms(3) rt st(1) d(1)] by simp
  note eq = less.prems(2) [unfolded exec_loop.simps [of e anchored nm st c]]
  show ?case
  proof (cases r)
    case None
    then have nx: "exec_loop e anchored nm (Suc st) d = Some (er, Some ms)" "c_err d \<noteq> M_EDEPTH"
      using eq st d(1) by (auto split: if_splits)
    have "Suc (en_len e) - Suc st < Suc (en_len e) - st" using st by simp
    then have "int (Suc st) \<le> fst (hd ms) \<and> fst (hd ms) + int (c_depth d) < int (Suc st + MATCH_MAX_DEPTH)"
      using less.hyps d(2) nx(1) by blast
    then show ?thesis using dep nx(2) by auto
  next
    case (Some q)
    then have "fst (hd ms) = int st" "c_err d \<noteq> M_EDEPTH"
      using eq st d(1) by (auto simp: store_matches_def split: if_splits)
    then show ?thesis using dep by simp
  qed
qed

text \<open>
  C25: The depth counter is one budget for a whole search, not the depth of a recursion: for a pattern with at least one node, a reported match
  starts fewer than \<^verbatim>\<open>MATCH_MAX_DEPTH\<close> bytes after the place the search began, the first occurrence of the literal prefix.
\<close>

theorem matchexec_window:
  assumes "wf_matcher m" "small_refs m" "looks_back m \<longrightarrow> past \<noteq> None" "m_root m \<noteq> 0"
    "matchexec l m s past nm fl = Some (er, Some ms)"
  shows "\<exists>g. (g = 0 \<or> matchgate m s (c_ic (match_start m fl)) = Some g) \<and> int g \<le> fst (hd ms) \<and> fst (hd ms) < int (g + MATCH_MAX_DEPTH)"
proof -
  let ?e = "match_env l m s past fl"
  have w: "wf_env ?e" "m_root (en_m ?e) \<noteq> 0" using assms by (simp_all add: wf_env_def match_env_def)
  obtain g anchored where g: "g = 0 \<or> matchgate m s (c_ic (match_start m fl)) = Some g"
    "exec_loop ?e anchored nm g (match_start m fl) = Some (er, Some ms)"
    using assms(5) by (auto simp: matchexec_def Let_def split: if_splits option.splits)
  have "int g \<le> fst (hd ms) \<and> fst (hd ms) < int (g + MATCH_MAX_DEPTH)"
    using exec_loop_window [OF w(1) match_start_ok w(2) g(2)] by (simp add: match_start_def)
  then show ?thesis using g(1) by blast
qed

lemma demo_wf: "wf_matcher demo_matcher" "small_refs demo_matcher" "\<not> looks_back demo_matcher"
  by code_simp+

theorem matchexec_window_witness:
  "\<exists>g. (g = 0 \<or> matchgate demo_matcher [120, 97, 97, 98] (c_ic (match_start demo_matcher 0)) = Some g) \<and> int g \<le> (1 :: int) \<and> (1 :: int) < int (g + MATCH_MAX_DEPTH)"
proof -
  have "m_root demo_matcher \<noteq> 0" by (simp add: demo_matcher_def)
  then show ?thesis using matchexec_window [OF demo_wf(1,2) _ _ demo_run] demo_wf(3) by simp
qed

end
