(* ===== verification/MatchWf.thy ===== *)
theory MatchWf
  imports MatchComp MatchSafe
begin

text \<open>
  The compiler ends on every pattern and what it compiles is well-formed.  The invariant of the parser covers the arena, the groups and the class
  tables; a locale states it of the parsers of nested expressions, the group parsers keep it for all such parsers, and the parser of
  a pattern is an instance, since every group consumes a byte of the pattern.
\<close>

section \<open>The invariant of the parser\<close>

abbreviation cnt :: "match_parser \<Rightarrow> nat" where
  "cnt ps \<equiv> length (m_arena (p_m ps))"

definition tables_ok :: "matcher \<Rightarrow> bool" where
  "tables_ok m \<longleftrightarrow> length (m_rlo m) = 32 \<and> length (m_rhi m) = 32 \<and> length (m_rcid m) = 32 \<and> length (m_rneg m) = 32 \<and> length (m_cname m) = 32 \<and> m_nr m \<le> 32"

definition pok :: "penv \<Rightarrow> match_parser \<Rightarrow> bool" where
  "pok pe ps \<longleftrightarrow>
     p_pos ps \<le> length (pe_pat pe) \<and> tables_ok (p_m ps) \<and>
     length (m_groups (p_m ps)) = 32 \<and> (\<forall>g \<in> set (m_groups (p_m ps)). g = 0 \<or> g < cnt ps) \<and>
     (\<forall>i < cnt ps. wf_node (cnt ps) i (m_arena (p_m ps) ! i)) \<and> (p_err ps = M_SUCCESS \<longrightarrow> 0 < cnt ps)"

text \<open>The parser moves forward, keeps its nodes and never forgets an error.\<close>

definition grows :: "match_parser \<Rightarrow> match_parser \<Rightarrow> bool" where
  "grows ps ps' \<longleftrightarrow> p_pos ps \<le> p_pos ps' \<and> cnt ps \<le> cnt ps' \<and> (p_err ps \<noteq> M_SUCCESS \<longrightarrow> p_err ps' \<noteq> M_SUCCESS)"

definition good :: "penv \<Rightarrow> match_parser \<Rightarrow> pres \<Rightarrow> bool" where
  "good pe ps r \<longleftrightarrow> pok pe (snd r) \<and> grows ps (snd r) \<and> (fst r = 0 \<or> fst r < cnt (snd r))"

lemma grows_refl [simp]: "grows ps ps"
  by (simp add: grows_def)

lemma grows_trans: "grows a b \<Longrightarrow> grows b c \<Longrightarrow> grows a c"
  by (auto simp: grows_def)

lemma good_trans: "good pe b r \<Longrightarrow> grows a b \<Longrightarrow> good pe a r"
  by (auto simp: good_def intro: grows_trans)

lemma good_zero: "pok pe ps' \<Longrightarrow> grows ps ps' \<Longrightarrow> good pe ps (0, ps')"
  by (simp add: good_def)

lemma wf_node_mono: "wf_node k i n \<Longrightarrow> k \<le> k' \<Longrightarrow> wf_node k' i n"
  by (auto simp: wf_node_def)

lemma peek_pos: "peek pe ps k \<noteq> 0 \<Longrightarrow> p_pos ps + k < length (pe_pat pe)"
  by (auto simp: peek_def split: if_splits)

lemma pok_adv: "pok pe ps \<Longrightarrow> p_pos ps + k \<le> length (pe_pat pe) \<Longrightarrow> pok pe (adv k ps)"
  by (simp add: pok_def adv_def)

lemma pok_adv1: "pok pe ps \<Longrightarrow> peek pe ps 0 \<noteq> 0 \<Longrightarrow> pok pe (adv 1 ps)"
  by (rule pok_adv) (use peek_pos [of pe ps 0] in auto)

lemma pok_adv2: "pok pe ps \<Longrightarrow> peek pe ps 1 \<noteq> 0 \<Longrightarrow> pok pe (adv 2 ps)"
  by (rule pok_adv) (use peek_pos [of pe ps 1] in auto)

lemma grows_adv [simp]: "grows ps (adv k ps') \<longleftrightarrow> p_pos ps \<le> p_pos ps' + k \<and> cnt ps \<le> cnt ps' \<and> (p_err ps \<noteq> M_SUCCESS \<longrightarrow> p_err ps' \<noteq> M_SUCCESS)"
  by (simp add: grows_def adv_def)

lemma adv_sel [simp]: "p_pos (adv k ps) = p_pos ps + k" "p_m (adv k ps) = p_m ps" "p_err (adv k ps) = p_err ps" "p_cap (adv k ps) = p_cap ps"
  "p_eflags (adv k ps) = p_eflags ps" "p_ub (adv k ps) = p_ub ps"
  by (simp_all add: adv_def)

lemma pok_err: "pok pe ps \<Longrightarrow> er \<noteq> M_SUCCESS \<Longrightarrow> pok pe (set_err er ps)"
  by (simp add: pok_def set_err_def)

lemma good_fail: "pok pe ps' \<Longrightarrow> grows ps ps' \<Longrightarrow> er \<noteq> M_SUCCESS \<Longrightarrow> good pe ps (0, set_err er ps')"
  by (auto simp: good_def pok_err) (simp add: grows_def set_err_def)

text \<open>Fields the invariant does not look at.\<close>

lemma pok_fields [simp]:
  "pok pe (ps\<lparr>p_cap := x\<rparr>) = pok pe ps" "pok pe (ps\<lparr>p_nsub := x\<rparr>) = pok pe ps" "pok pe (ps\<lparr>p_eflags := f\<rparr>) = pok pe ps"
  "pok pe (ps\<lparr>p_allocs := a\<rparr>) = pok pe ps" "pok pe (ps\<lparr>p_ub := u\<rparr>) = pok pe ps"
  by (simp_all add: pok_def)

lemma grows_fields [simp]:
  "grows ps (qs\<lparr>p_cap := x\<rparr>) = grows ps qs" "grows ps (qs\<lparr>p_nsub := x\<rparr>) = grows ps qs" "grows ps (qs\<lparr>p_eflags := f\<rparr>) = grows ps qs"
  "grows ps (qs\<lparr>p_allocs := a\<rparr>) = grows ps qs" "grows ps (qs\<lparr>p_ub := u\<rparr>) = grows ps qs"
  "grows (ps\<lparr>p_cap := x\<rparr>) qs = grows ps qs" "grows (ps\<lparr>p_nsub := x\<rparr>) qs = grows ps qs" "grows (ps\<lparr>p_eflags := f\<rparr>) qs = grows ps qs"
  "grows (ps\<lparr>p_allocs := a\<rparr>) qs = grows ps qs" "grows (ps\<lparr>p_ub := u\<rparr>) qs = grows ps qs"
  by (simp_all add: grows_def)

lemma peek_fields [simp]: "peek pe (ps\<lparr>p_cap := x\<rparr>) k = peek pe ps k" "peek pe (ps\<lparr>p_nsub := x\<rparr>) k = peek pe ps k"
  "peek pe (ps\<lparr>p_eflags := f\<rparr>) k = peek pe ps k"
  by (simp_all add: peek_def)

section \<open>Nodes\<close>

lemma pok_push:
  assumes "pok pe ps"
  shows "pok pe (snd (push_node t ps))"
proof -
  have "wf_node (Suc (cnt ps)) i ((m_arena (p_m ps) @ [fresh_node t]) ! i)" if "i < Suc (cnt ps)" for i
  proof (cases "i < cnt ps")
    case True
    then show ?thesis using assms by (auto simp: pok_def nth_append intro: wf_node_mono)
  next
    case False
    then have "i = cnt ps" using that by simp
    then show ?thesis by (auto simp: fresh_node_def wf_node_def nth_append)
  qed
  then show ?thesis using assms by (auto simp: pok_def push_node_def tables_ok_def)
qed

text \<open>What \<^verbatim>\<open>__jacl_match_node\<close> does: it fails with an error, or the new node is the last one.\<close>

lemma match_node_cases:
  assumes "pok pe ps" "match_node pe t ps = (n, ps')"
  shows "pok pe ps'" "p_pos ps' = p_pos ps" "grows ps ps'" "n \<noteq> 0 \<longrightarrow> n = cnt ps \<and> cnt ps' = Suc n \<and> m_arena (p_m ps') ! n = fresh_node t"
    "p_eflags ps' = p_eflags ps" "n = 0 \<or> n < cnt ps'" "p_cap ps' = p_cap ps"
proof -
  let ?ps = "snd (try_alloc pe ps)\<lparr>p_m := (p_m ps)\<lparr>m_capacity := (if m_capacity (p_m ps) \<noteq> 0 then m_capacity (p_m ps) * 2 else 16)\<rparr>\<rparr>"
  have a: "pok pe ?ps" "pok pe (set_err M_ESPACE (snd (try_alloc pe ps)))"
    using assms(1) by (auto simp: try_alloc_def pok_def tables_ok_def set_err_def)
  have "ps' = snd (push_node t ps) \<and> n = cnt ps \<or> ps' = snd (push_node t ?ps) \<and> n = cnt ps \<or> ps' = set_err M_ESPACE (snd (try_alloc pe ps)) \<and> n = 0"
    using assms(2) by (auto simp: match_node_def try_alloc_def push_node_def Let_def split: if_splits)
  then show "pok pe ps'" "p_pos ps' = p_pos ps" "grows ps ps'" "n \<noteq> 0 \<longrightarrow> n = cnt ps \<and> cnt ps' = Suc n \<and> m_arena (p_m ps') ! n = fresh_node t"
    "p_eflags ps' = p_eflags ps" "n = 0 \<or> n < cnt ps'" "p_cap ps' = p_cap ps"
    using pok_push [OF assms(1), of t] pok_push [OF a(1), of t] a(2)
    by (auto simp: push_node_def try_alloc_def grows_def set_err_def)
qed

lemma upd_node_sel [simp]: "cnt (upd_node n f ps) = cnt ps" "p_pos (upd_node n f ps) = p_pos ps" "p_err (upd_node n f ps) = p_err ps"
  "p_eflags (upd_node n f ps) = p_eflags ps" "p_cap (upd_node n f ps) = p_cap ps" "grows ps' (upd_node n f ps) = grows ps' ps"
  by (simp_all add: upd_node_def grows_def)

lemma upd_node_nth: "n < cnt ps \<Longrightarrow> m_arena (p_m (upd_node n f ps)) ! n = f (m_arena (p_m ps) ! n)"
  by (simp add: upd_node_def)

lemma pok_upd:
  assumes "pok pe ps" "wf_node (cnt ps) n (m_arena (p_m ps) ! n) \<Longrightarrow> wf_node (cnt ps) n (f (m_arena (p_m ps) ! n))"
  shows "pok pe (upd_node n f ps)"
proof (cases "n < cnt ps")
  case True
  then have "wf_node (cnt ps) n (f (m_arena (p_m ps) ! n))" using assms by (auto simp: pok_def)
  then show ?thesis using assms(1) True by (auto simp: pok_def upd_node_def tables_ok_def nth_list_update)
next
  case False
  then have "upd_node n f ps = ps" using list_update_beyond [of "m_arena (p_m ps)" n] by (simp add: upd_node_def)
  then show ?thesis using assms(1) by simp
qed

lemma node_flags_cases:
  assumes "pok pe ps" "node_flags pe t ps = (n, ps')"
  shows "pok pe ps'" "p_pos ps' = p_pos ps" "grows ps ps'" "n \<noteq> 0 \<longrightarrow> n = cnt ps \<and> cnt ps' = Suc n" "n = 0 \<or> n < cnt ps'" "p_cap ps' = p_cap ps"
    "n \<noteq> 0 \<longrightarrow> n_type (m_arena (p_m ps') ! n) = t"
proof -
  obtain k qs where m: "match_node pe t ps = (k, qs)" by fastforce
  note c = match_node_cases [OF assms(1) m]
  have "pok pe (upd_node k (n_eflags_update (\<lambda>_. p_eflags qs)) qs)" using c(1) by (rule pok_upd) (simp add: wf_node_def)
  then show "pok pe ps'" "p_pos ps' = p_pos ps" "grows ps ps'" "n \<noteq> 0 \<longrightarrow> n = cnt ps \<and> cnt ps' = Suc n" "n = 0 \<or> n < cnt ps'" "p_cap ps' = p_cap ps"
    "n \<noteq> 0 \<longrightarrow> n_type (m_arena (p_m ps') ! n) = t"
    using assms(2) m c by (auto simp: node_flags_def upd_node_nth fresh_node_def split: if_splits)
qed

text \<open>A node that is made and then filled in; it is not a sequence unless the second index is older.\<close>

lemma good_node_upd:
  assumes "pok pe ps" "r = match_node pe t ps \<or> r = node_flags pe t ps"
    "\<And>k x qs. wf_node k (cnt ps) x \<Longrightarrow> n_type x = t \<Longrightarrow> cnt ps < k \<Longrightarrow> wf_node k (cnt ps) (f qs x)"
  shows "good pe ps (case r of (n, ps) \<Rightarrow> if n = 0 then (0, ps) else (n, upd_node n (f ps) ps))"
    and "p_pos (snd (case r of (n, ps) \<Rightarrow> if n = 0 then (0, ps) else (n, upd_node n (f ps) ps))) = p_pos ps"
proof -
  obtain n qs where r: "r = (n, qs)" by fastforce
  have c: "pok pe qs" "p_pos qs = p_pos ps" "grows ps qs" "n \<noteq> 0 \<longrightarrow> n = cnt ps \<and> cnt qs = Suc n" "n \<noteq> 0 \<longrightarrow> n_type (m_arena (p_m qs) ! n) = t"
    using assms(2) match_node_cases [OF assms(1), of t n qs] node_flags_cases [OF assms(1), of t n qs] r by (auto simp: fresh_node_def)
  have "pok pe (upd_node n (f qs) qs)" if "n \<noteq> 0" using c(1) by (rule pok_upd) (use assms(3) c that in auto)
  then show "good pe ps (case r of (n, ps) \<Rightarrow> if n = 0 then (0, ps) else (n, upd_node n (f ps) ps))"
    "p_pos (snd (case r of (n, ps) \<Rightarrow> if n = 0 then (0, ps) else (n, upd_node n (f ps) ps))) = p_pos ps" using r c by (auto simp: good_def)
qed

lemma pair_node_good:
  assumes "pok pe ps" "a = 0 \<or> a < cnt ps" "b = 0 \<or> b < cnt ps"
  shows "good pe ps (pair_node pe t a b ps)" "p_pos (snd (pair_node pe t a b ps)) = p_pos ps"
  unfolding pair_node_def using assms by (intro good_node_upd [where t = t]; auto simp: wf_node_def)+

lemma match_rep_good:
  assumes "pok pe ps" "body = 0 \<or> body < cnt ps"
  shows "good pe ps (match_rep pe body mn mx lz ps)"
proof -
  obtain n qs where m: "match_node pe MTOK_REP ps = (n, qs)" by fastforce
  note c = match_node_cases [OF assms(1) m]
  have "nat (mn mod 256) < 256" "nat (mx mod 256) < 256" by (simp_all add: nat_less_iff)
  then have "pok pe (upd_node n (\<lambda>x. x\<lparr>n_a := body, n_min := nat (mn mod 256), n_max := (if mx < 0 then 255 else nat (mx mod 256)),
        n_lazy := lz, n_eflags := n_eflags (m_arena (p_m qs) ! body)\<rparr>) qs)" if "n \<noteq> 0"
    using c that assms(2) by (intro pok_upd) (auto simp: wf_node_def)
  then show ?thesis using m c by (auto simp: match_rep_def good_def)
qed

section \<open>Classes, names and numbers\<close>

lemma range_loop_ok:
  "tables_ok m \<Longrightarrow> range_loop cid i (m, lo, hi, ub) = (m', lo', hi', ub') \<Longrightarrow> m_nr m < 32 \<Longrightarrow>
   tables_ok m' \<and> m_nr m' < 32 \<and> m_arena m' = m_arena m \<and> m_groups m' = m_groups m"
proof (induction cid i "(m, lo, hi, ub)" arbitrary: m lo hi ub rule: range_loop.induct)
  case (1 cid i m lo hi ub)
  let ?k = "4 * (m_nr m - 1 - i)"
  have s: "tables_ok (m\<lparr>m_rlo := (if Suc i + ?k > 32 then m_rlo m else shift_rlo i ?k (m_rlo m)), m_nr := m_nr m - 1\<rparr>)"
    using "1.prems"(1) by (auto simp: tables_ok_def shift_rlo_def)
  show ?case
  proof (cases "i \<ge> m_nr m")
    case True
    then show ?thesis using "1.prems" by (simp add: range_loop.simps [of cid i m])
  next
    case False
    show ?thesis
    proof (cases "m_rcid m ! i \<noteq> cid \<or> lo > m_rhi m ! i + 1 \<or> hi < m_rlo m ! i - 1")
      case True
      then have "range_loop cid (Suc i) (m, lo, hi, ub) = (m', lo', hi', ub')" using "1.prems"(2) False
        by (simp only: range_loop.simps [of cid i m] if_False if_True simp_thms)
      then show ?thesis using "1.hyps"(1) [OF False True] "1.prems" by blast
    next
      case F: False
      then show ?thesis using "1.hyps"(2) [OF False F refl refl] s "1.prems"
        by (simp only: range_loop.simps [of cid i m] Let_def if_False False) simp
    qed
  qed
qed

lemma put_range_ok: "tables_ok m \<Longrightarrow> m_nr m < 32 \<Longrightarrow> tables_ok (put_range lo hi cid neg nm m)"
  "m_arena (put_range lo hi cid neg nm m) = m_arena m" "m_groups (put_range lo hi cid neg nm m) = m_groups m"
  by (auto simp: tables_ok_def put_range_def Let_def)

lemma match_add_range_ok:
  assumes "pok pe ps"
  shows "pok pe (match_add_range lo hi cid neg ps)" "p_pos (match_add_range lo hi cid neg ps) = p_pos ps" "grows ps (match_add_range lo hi cid neg ps)"
proof -
  let ?m = "(p_m ps)\<lparr>m_unicode := (m_unicode (p_m ps) \<or> lo \<ge> 128)\<rparr>"
  obtain m lo' hi' ub where r: "range_loop cid 0 (?m, lo, hi, False) = (m, lo', hi', ub)" by (metis prod.exhaust)
  have "tables_ok ?m" using assms by (simp add: pok_def tables_ok_def)
  then have "m_nr (p_m ps) < 32 \<longrightarrow> tables_ok (put_range lo' hi' cid neg None m) \<and> m_arena m = m_arena (p_m ps) \<and> m_groups m = m_groups (p_m ps)"
    using range_loop_ok [OF _ r] put_range_ok(1) by auto
  then show "pok pe (match_add_range lo hi cid neg ps)" "p_pos (match_add_range lo hi cid neg ps) = p_pos ps" "grows ps (match_add_range lo hi cid neg ps)"
    using assms r by (auto simp: match_add_range_def Let_def pok_def grows_def put_range_ok)
qed

lemma add_named_ok:
  assumes "pok pe ps"
  shows "pok pe (add_named pe nm cid neg ps)" "p_pos (add_named pe nm cid neg ps) = p_pos ps" "grows ps (add_named pe nm cid neg ps)"
proof -
  have "tables_ok (p_m ps)" using assms by (simp add: pok_def)
  then have "m_nr (p_m ps) < 32 \<longrightarrow> tables_ok ((put_range 0 0 cid neg x (p_m ps))\<lparr>m_unicode := True\<rparr>)" for x
    using put_range_ok(1) [of "p_m ps" 0 0 cid neg x] by (auto simp: tables_ok_def)
  then show "pok pe (add_named pe nm cid neg ps)" "p_pos (add_named pe nm cid neg ps) = p_pos ps" "grows ps (add_named pe nm cid neg ps)"
    using assms by (auto simp: add_named_def try_alloc_def pok_def grows_def put_range_ok)
qed

lemma run_until_length: "p_pos ps \<le> length (pe_pat pe) \<Longrightarrow> p_pos ps + length (run_until pe ps stop) \<le> length (pe_pat pe)"
  using length_takeWhile_le [of "\<lambda>b. b \<noteq> 0 \<and> \<not> stop b" "drop (p_pos ps) (pe_pat pe)"] by (simp add: run_until_def)

lemma pok_run: "pok pe ps \<Longrightarrow> pok pe (adv (length (run_until pe ps stop)) ps)"
  by (rule pok_adv) (auto simp: pok_def intro: run_until_length)

lemma parse_name_ok:
  assumes "pok pe ps" "parse_name pe close ps = (nm, ps')"
  shows "pok pe ps'" "grows ps ps'"
  using assms run_until_length [of ps pe "\<lambda>b. b = close"]
  by (auto simp: parse_name_def Let_def pok_def intro!: pok_adv [unfolded pok_def])

lemma parse_number_ok:
  assumes "pok pe ps" "parse_number pe ps = (v, ps')"
  shows "pok pe ps'" "grows ps ps'" "0 \<le> v"
proof -
  have "0 \<le> acc \<Longrightarrow> 0 \<le> foldl (\<lambda>v b. v * 10 + (uint b - 48)) acc ds" if "\<forall>b \<in> set ds. is_dec b" for acc :: int and ds :: "byte list"
    using that by (induction ds arbitrary: acc) (auto simp: is_dec_def word_le_def)
  moreover have "\<forall>b \<in> set (run_until pe ps (\<lambda>b. \<not> is_dec b)). is_dec b" by (auto simp: run_until_def dest: set_takeWhileD)
  ultimately show "pok pe ps'" "grows ps ps'" "0 \<le> v"
    using assms pok_run [of pe ps] by (auto simp: parse_number_def Let_def)
qed

lemma parse_paren_good: "pok pe ps \<Longrightarrow> n = 0 \<or> n < cnt ps \<Longrightarrow> good pe ps (parse_paren pe n ps)"
  using pok_adv1 [of pe ps] by (auto simp: parse_paren_def good_def pok_err) (simp_all add: grows_def set_err_def)

lemma next_char_ok:
  assumes "pok pe ps" "next_char pe ps = (cp, ps')"
  shows "pok pe ps'" "grows ps ps'" "peek pe ps 0 \<noteq> 0 \<longrightarrow> p_pos ps < p_pos ps'" "p_m ps' = p_m ps" "cnt ps' = cnt ps"
proof -
  have "p_pos ps < length (pe_pat pe) \<Longrightarrow> p_pos ps < p_pos ps' \<and> p_pos ps' \<le> length (pe_pat pe)"
    using assms(2) match_utf8_next_bounds [of "p_pos ps" "length (pe_pat pe)" "pe_pat pe"] by (auto simp: next_char_def split: prod.splits)
  moreover have "\<not> p_pos ps < length (pe_pat pe) \<Longrightarrow> p_pos ps' = p_pos ps" using assms(2) by (auto simp: next_char_def match_utf8_next_def)
  moreover have f: "p_m ps' = p_m ps" "p_err ps' = p_err ps" using assms(2) by (auto simp: next_char_def split: prod.splits)
  ultimately show "pok pe ps'" "grows ps ps'" "peek pe ps 0 \<noteq> 0 \<longrightarrow> p_pos ps < p_pos ps'" "p_m ps' = p_m ps" "cnt ps' = cnt ps"
    using assms(1) peek_pos [of pe ps 0] by (fastforce simp: pok_def grows_def)+
qed

text \<open>\<open>moves\<close>: the invariant is kept and the parser has moved on.\<close>

definition moves :: "penv \<Rightarrow> match_parser \<Rightarrow> match_parser \<Rightarrow> bool" where
  "moves pe ps ps' \<longleftrightarrow> pok pe ps' \<and> grows ps ps' \<and> p_pos ps < p_pos ps'"

lemma moves_err: "moves pe ps ps' \<Longrightarrow> er \<noteq> M_SUCCESS \<Longrightarrow> moves pe ps (set_err er ps')"
  by (auto simp: moves_def pok_err) (simp_all add: grows_def set_err_def)

lemma moves_grows: "moves pe ps ps' \<Longrightarrow> pok pe ps'' \<Longrightarrow> grows ps' ps'' \<Longrightarrow> moves pe ps ps''"
  by (auto simp: moves_def intro: grows_trans) (auto simp: grows_def)

lemma moves_adv: "pok pe ps \<Longrightarrow> p_pos ps + k \<le> length (pe_pat pe) \<Longrightarrow> 0 < k \<Longrightarrow> moves pe ps (adv k ps)"
  by (simp add: moves_def pok_adv)

lemma moves_adv_run:
  assumes "pok pe ps" "peek pe ps 1 \<noteq> 0"
  shows "moves pe ps (adv (length (run_until pe (adv 2 ps) stop)) (adv 2 ps))"
proof -
  have "moves pe ps (adv 2 ps)" using assms peek_pos [of pe ps 1] by (intro moves_adv) auto
  then show ?thesis by (rule moves_grows) (use pok_run [OF pok_adv2 [OF assms]] in auto)
qed

lemma moves_adv2: "moves pe ps ps' \<Longrightarrow> peek pe ps' 1 \<noteq> 0 \<Longrightarrow> moves pe ps (adv 2 ps')"
  by (rule moves_grows) (auto simp: moves_def intro: pok_adv2)

lemma moves_add:
  "moves pe ps qs \<Longrightarrow> moves pe ps (match_add_range lo hi cid neg qs)" "moves pe ps qs \<Longrightarrow> moves pe ps (add_named pe nm cid neg qs)"
  using match_add_range_ok [of pe qs] add_named_ok [of pe qs] by (auto simp: moves_def intro: grows_trans)

lemma parse_element_moves:
  assumes "pok pe ps" "peek pe ps 1 \<noteq> 0"
  shows "moves pe ps (parse_element pe d cid neg ps)"
proof -
  let ?qs = "adv (length (run_until pe (adv 2 ps) (\<lambda>b. b = d \<or> b = 93))) (adv 2 ps)"
  have m: "moves pe ps ?qs" using moves_adv_run [OF assms] .
  have "moves pe ps (match_add_range x x cid neg (adv 2 ?qs))" if "peek pe ?qs 1 = 93" for x
    using m that by (intro moves_add moves_adv2) auto
  then show ?thesis using moves_err [OF m]
    by (cases "run_until pe (adv 2 ps) (\<lambda>b. b = d \<or> b = 93) = []") (simp_all add: parse_element_def Let_def)
qed

lemma parse_posix_class_moves:
  assumes "pok pe ps" "peek pe ps 1 \<noteq> 0"
  shows "moves pe ps (parse_posix_class pe cid neg ps)"
proof -
  let ?qs = "adv (length (run_until pe (adv 2 ps) (\<lambda>b. b = 58 \<or> b = 93))) (adv 2 ps)"
  have m: "moves pe ps ?qs" using moves_adv_run [OF assms] .
  have "moves pe ps (adv 2 ?qs) \<and> moves pe ps (add_named pe nm cid neg (adv 2 ?qs))" if "peek pe ?qs 1 = 93" for nm
    using m that by (auto intro!: moves_add moves_adv2)
  then show ?thesis using moves_err [OF m] moves_err by (simp add: parse_posix_class_def Let_def)
qed

lemma class_range_moves:
  assumes "pok pe ps" "peek pe ps 0 \<noteq> 0"
  shows "moves pe ps (class_range pe cid neg ps)"
proof -
  let ?ps = "if peek pe ps 0 = 92 \<and> peek pe ps 1 \<noteq> 0 then adv 1 ps else ps"
  have p: "pok pe ?ps" "grows ps ?ps" using assms pok_adv1 by auto
  have nz: "peek pe ?ps 0 \<noteq> 0" using assms(2) by (auto simp: peek_def split: if_splits)
  obtain lo qs where q: "next_char pe ?ps = (lo, qs)" by fastforce
  note c = next_char_ok [OF p(1) q]
  have mq: "moves pe ps qs" using c nz p(2) by (auto simp: moves_def intro: grows_trans) (simp add: grows_def)
  let ?r = "if peek pe qs 0 = 45 \<and> peek pe qs 1 \<noteq> 93 then next_char pe (adv 1 qs) else (lo, qs)"
  obtain hi rs where r: "?r = (hi, rs)" by fastforce
  have "pok pe rs \<and> grows qs rs"
  proof (cases "peek pe qs 0 = 45 \<and> peek pe qs 1 \<noteq> 93")
    case True
    then have "pok pe (adv 1 qs)" using c(1) by (intro pok_adv1) auto
    then show ?thesis using True r next_char_ok [of pe "adv 1 qs" hi rs] by (auto intro: grows_trans [where b = "adv 1 qs"])
  qed (use r c in auto)
  then have "moves pe ps rs" using mq by (auto intro: moves_grows)
  then have "moves pe ps (match_add_range lo hi cid neg rs)" by (rule moves_add)
  then show ?thesis unfolding class_range_def Let_def using q r by simp
qed

lemma class_items_ok:
  "pok pe ps \<Longrightarrow> length (pe_pat pe) - p_pos ps < k \<Longrightarrow> \<exists>ps'. class_items pe cid neg k ps = Some ps' \<and> pok pe ps' \<and> grows ps ps'"
proof (induction k arbitrary: ps)
  case (Suc k)
  let ?b = "peek pe ps 0" and ?b1 = "peek pe ps 1"
  let ?q = "if ?b = 91 \<and> ?b1 = 58 then parse_posix_class pe cid neg ps
      else if ?b = 91 \<and> ?b1 = 46 then parse_element pe 46 cid neg ps
      else if ?b = 91 \<and> ?b1 = 61 then parse_element pe 61 cid neg ps else class_range pe cid neg ps"
  show ?case
  proof (cases "?b = 0 \<or> ?b = 93")
    case True
    then show ?thesis using Suc.prems by (auto simp: Let_def)
  next
    case False
    define q where "q = ?q"
    have m: "moves pe ps q"
      using Suc.prems(1) False parse_posix_class_moves [of pe ps] parse_element_moves [of pe ps] class_range_moves [of pe ps] by (simp add: q_def)
    have "p_pos ps < length (pe_pat pe)" using peek_pos [of pe ps 0] False by simp
    then have "length (pe_pat pe) - p_pos q < k" using m Suc.prems(2) unfolding moves_def by linarith
    then obtain ps' where "class_items pe cid neg k q = Some ps'" "pok pe ps'" "grows q ps'" using Suc.IH [of q] m by (auto simp: moves_def)
    moreover have "class_items pe cid neg (Suc k) ps = class_items pe cid neg k q" using False by (simp add: Let_def q_def)
    ultimately show ?thesis using m grows_trans by (auto simp: moves_def)
  qed
qed simp

text \<open>What a parsing function that makes an atom gives: the invariant, and a step forward when there is a node.\<close>

definition atom_good :: "penv \<Rightarrow> match_parser \<Rightarrow> pres \<Rightarrow> bool" where
  "atom_good pe ps r \<longleftrightarrow> good pe ps r \<and> (fst r \<noteq> 0 \<longrightarrow> p_pos ps < p_pos (snd r))"

lemma atom_good_moves: "moves pe ps qs \<Longrightarrow> good pe qs r \<Longrightarrow> atom_good pe ps r"
  by (auto simp: atom_good_def moves_def intro: good_trans) (auto simp: good_def grows_def)

lemma atom_good_fail: "pok pe qs \<Longrightarrow> grows ps qs \<Longrightarrow> er \<noteq> M_SUCCESS \<Longrightarrow> atom_good pe ps (0, set_err er qs)"
  by (simp add: atom_good_def good_fail)

lemma atom_bracket_good:
  assumes "pok pe ps" "peek pe ps 0 \<noteq> 0"
  shows "\<exists>r. atom_bracket pe ps = Some r \<and> atom_good pe ps r"
proof -
  let ?a = "adv 1 ps"
  let ?neg = "peek pe ?a 0 = 94"
  let ?ps = "if ?neg then adv 1 ?a else ?a"
  have a: "pok pe ?a" using pok_adv1 [OF assms] .
  have p: "pok pe ?ps" using a pok_adv1 [OF a] by simp
  have m: "moves pe ps ?ps" using p by (auto simp: moves_def)
  let ?cid = "m_nr (p_m ?ps) mod 256"
  have "length (pe_pat pe) - p_pos ?ps < Suc (length (pe_pat pe))" by linarith
  then obtain qs where q: "class_items pe ?cid ?neg (Suc (length (pe_pat pe))) ?ps = Some qs" "pok pe qs" "grows ?ps qs"
    using class_items_ok [OF p] by blast
  have mq: "moves pe ps qs" using m q(2,3) by (rule moves_grows)
  let ?r = "case node_flags pe MTOK_CLASS (adv 1 qs) of (n, ps) \<Rightarrow> if n = 0 then (0, ps) else (n, upd_node n (\<lambda>x. x\<lparr>n_val := of_nat ?cid, n_neg := ?neg\<rparr>) ps)"
  have "atom_good pe ps ?r" if "peek pe qs 0 = 93"
  proof (rule atom_good_moves)
    show "moves pe ps (adv 1 qs)" using mq pok_adv1 [OF q(2)] that by (auto intro: moves_grows)
    show "good pe (adv 1 qs) ?r" using pok_adv1 [OF q(2)] that by (intro good_node_upd(1) [where t = MTOK_CLASS]) (auto simp: wf_node_def)
  qed
  moreover have "atom_good pe ps (parse_fail M_EBRACK qs)" using mq by (intro atom_good_fail) (auto simp: moves_def)
  ultimately show ?thesis unfolding atom_bracket_def Let_def using q(1) by simp
qed

section \<open>Atoms without a nested expression\<close>

lemma good_pok: "good pe ps (n, ps') \<Longrightarrow> pok pe ps'" and good_grows: "good pe ps (n, ps') \<Longrightarrow> grows ps ps'"
  by (simp_all add: good_def)

lemma good_adv1:
  assumes "good pe ps r" "p_pos (snd r) = p_pos ps" "peek pe ps 0 \<noteq> 0"
  shows "good pe ps (fst r, adv 1 (snd r))" "atom_good pe ps (fst r, adv 1 (snd r))"
proof -
  have "pok pe (adv 1 (snd r))" using assms peek_pos [of pe ps 0] by (intro pok_adv) (auto simp: good_def)
  then show "good pe ps (fst r, adv 1 (snd r))" "atom_good pe ps (fst r, adv 1 (snd r))"
    using assms by (auto simp: good_def atom_good_def grows_def)
qed

lemma call_node_good: "pok pe ps \<Longrightarrow> good pe ps (call_node pe gid ps)"
  unfolding call_node_def by (rule good_node_upd(1) [where t = MTOK_CALL]) (auto simp: wf_node_def)

lemma backref_node_good: "pok pe ps \<Longrightarrow> good pe ps (backref_node pe gid ps)"
  unfolding backref_node_def by (rule good_node_upd(1) [where t = MTOK_BACKREF]) (auto simp: wf_node_def)

lemma paren_call_good:
  assumes "pok pe ps" "peek pe ps 0 \<noteq> 0"
  shows "good pe ps (paren_call pe is_named ps)"
proof -
  let ?a = "adv 1 ps"
  have a: "pok pe ?a" "grows ps ?a" using pok_adv1 [OF assms] by simp_all
  have close: "good pe ps (if peek pe qs 0 \<noteq> 41 then parse_fail M_EPAREN qs else F (adv 1 qs))"
    if p: "pok pe qs" and gq: "grows ?a qs" and F: "\<And>rs. pok pe rs \<Longrightarrow> good pe rs (F rs)" for qs F
  proof -
    have g: "grows ps qs" using a(2) gq by (rule grows_trans)
    then have h: "grows ps (adv 1 qs)" by (simp add: grows_def)
    have "good pe ps (F (adv 1 qs))" if z: "peek pe qs 0 = 41"
    proof (rule good_trans [OF _ h])
      show "good pe (adv 1 qs) (F (adv 1 qs))" using p z by (intro F pok_adv1) auto
    qed
    then show ?thesis using good_fail [OF p g] by simp
  qed
  obtain nm qs where q: "parse_name pe 41 ?a = (nm, qs)" by fastforce
  obtain v rs where r: "parse_number pe ?a = (v, rs)" by fastforce
  have "good pe xs (case find_name (p_m xs) nm of None \<Rightarrow> parse_fail M_ESUBMATCH xs | Some k \<Rightarrow> call_node pe k xs)" if "pok pe xs" for xs
    using that by (auto split: option.split intro: good_fail call_node_good)
  note named = close [OF parse_name_ok [OF a(1) q] this] and numbered = close [OF parse_number_ok(1,2) [OF a(1) r], of "call_node pe (nat v)", OF call_node_good]
  show ?thesis unfolding paren_call_def Let_def q r prod.case using named numbered by (cases is_named) (simp_all only: if_True if_False)
qed

lemma close_name:
  assumes "parse_name pe close (adv 1 ps) = (nm, qs)" "pok pe ps" "peek pe ps 0 \<noteq> 0" "b \<Longrightarrow> peek pe qs 0 \<noteq> 0"
  shows "pok pe (if b then adv 1 qs else qs)" "grows ps (if b then adv 1 qs else qs)"
proof -
  have a: "pok pe (adv 1 ps)" using pok_adv1 [OF assms(2,3)] .
  note n = parse_name_ok [OF a assms(1)]
  have "grows ps qs" using n(2) by (rule grows_trans [rotated]) simp
  then show "pok pe (if b then adv 1 qs else qs)" "grows ps (if b then adv 1 qs else qs)"
    using n(1) pok_adv1 assms(4) by (auto simp: grows_def)
qed

lemma cond_ref_ok:
  assumes "pok pe ps" "cond_ref pe ps = (gid, ps')"
  shows "pok pe ps'" "grows ps ps'"
proof -
  let ?b = "peek pe ps 0"
  obtain nm qs where q: "parse_name pe (if ?b = 60 then 62 else ?b) (adv 1 ps) = (nm, qs)" by fastforce
  let ?qs = "if peek pe qs 0 = ?b \<or> peek pe qs 0 = 62 then adv 1 qs else qs"
  have "pok pe ?qs \<and> grows ps ?qs" if "?b = 60 \<or> ?b = 39"
    using close_name [OF q assms(1), of "peek pe qs 0 = ?b \<or> peek pe qs 0 = 62"] that by auto
  moreover obtain v rs where "parse_number pe ps = (v, rs)" "pok pe rs" "grows ps rs" using parse_number_ok [OF assms(1)] by (metis prod.exhaust)
  ultimately show "pok pe ps'" "grows ps ps'" using assms q by (auto simp: cond_ref_def Let_def split: if_splits)
qed

lemma escape_name_good:
  assumes "pok pe ps" "peek pe ps 0 \<noteq> 0"
  shows "good pe ps (escape_name pe ps)"
proof -
  let ?a = "adv 1 ps"
  let ?d = "peek pe ?a 0"
  have a: "pok pe ?a" "grows ps ?a" using pok_adv1 [OF assms] by simp_all
  obtain nm qs where q: "parse_name pe (if ?d = 60 then 62 else ?d) (adv 1 ?a) = (nm, qs)" by fastforce
  let ?qs = "if peek pe qs 0 = ?d \<or> ?d = 60 \<and> peek pe qs 0 = 62 then adv 1 qs else qs"
  have "good pe ps (case find_name (p_m ?qs) nm of None \<Rightarrow> parse_fail M_ESUBMATCH ?qs | Some k \<Rightarrow> backref_node pe (int k) ?qs)" if "?d = 60 \<or> ?d = 39"
  proof -
    have nz: "?d \<noteq> 0" using that by auto
    have z: "peek pe qs 0 = ?d \<or> ?d = 60 \<and> peek pe qs 0 = 62 \<Longrightarrow> peek pe qs 0 \<noteq> 0" using that by auto
    have "pok pe ?qs" "grows ?a ?qs" using close_name [OF q a(1) nz z] by blast+
    then have "good pe ?a (case find_name (p_m ?qs) nm of None \<Rightarrow> parse_fail M_ESUBMATCH ?qs | Some k \<Rightarrow> backref_node pe (int k) ?qs)"
      by (auto split: option.split intro: good_fail good_trans [OF backref_node_good])
    then show ?thesis using a(2) by (rule good_trans)
  qed
  moreover have "escape_name pe ps = (case find_name (p_m ?qs) nm of None \<Rightarrow> parse_fail M_ESUBMATCH ?qs | Some k \<Rightarrow> backref_node pe (int k) ?qs)"
    if "allows pe (MCOMP_BACKREF OR MCOMP_NAMEREF)" "?d = 60 \<or> ?d = 39"
  proof -
    have "\<not> (?d \<noteq> 60 \<and> ?d \<noteq> 39)" using that(2) by blast
    then show ?thesis unfolding escape_name_def Let_def q using that(1) by (simp only: not_True_eq_False if_False prod.case)
  qed
  moreover have "escape_name pe ps = parse_fail M_BADPAT ps \<or> escape_name pe ps = parse_fail M_BADPAT ?a"
    if "\<not> (allows pe (MCOMP_BACKREF OR MCOMP_NAMEREF) \<and> (?d = 60 \<or> ?d = 39))"
    using that by (auto simp: escape_name_def Let_def)
  ultimately show ?thesis using good_fail [OF assms(1) grows_refl, of M_BADPAT] good_fail [OF a, of M_BADPAT] by (metis match_err.distinct(3))
qed

lemma boundary_node_good:
  assumes "pok pe ps" "peek pe ps 0 \<noteq> 0"
  shows "good pe ps (boundary_node pe t ps)"
proof -
  obtain n qs where n: "node_flags pe t ps = (n, qs)" by fastforce
  note c = node_flags_cases [OF assms(1) n]
  then have "good pe ps (n, qs)" by (simp add: good_def)
  then show ?thesis using good_adv1(1) [of pe ps "(n, qs)"] assms c n by (auto simp: boundary_node_def intro: good_fail)
qed

lemma fold_add_range_ok:
  assumes "pok pe ps"
  shows "pok pe (fold (\<lambda>(lo, hi). match_add_range lo hi cid False) rs ps) \<and> grows ps (fold (\<lambda>(lo, hi). match_add_range lo hi cid False) rs ps) \<and>
     p_pos (fold (\<lambda>(lo, hi). match_add_range lo hi cid False) rs ps) = p_pos ps"
  using assms
proof (induction rs arbitrary: ps)
  case (Cons r rs)
  obtain lo hi where r: "r = (lo, hi)" by fastforce
  note m = match_add_range_ok [OF Cons.prems, of lo hi cid False]
  show ?case using Cons.IH [OF m(1)] m r grows_trans by auto
qed simp

lemma escape_class_good:
  assumes "pok pe ps" "peek pe ps 0 \<noteq> 0"
  shows "good pe ps (escape_class pe rs ps)"
proof -
  obtain n qs where n: "match_node pe MTOK_CLASS ps = (n, qs)" by fastforce
  note c = match_node_cases [OF assms(1) n]
  let ?cid = "m_nr (p_m qs) mod 256"
  let ?rs = "fold (\<lambda>(lo, hi). match_add_range lo hi ?cid False) rs qs"
  note f = fold_add_range_ok [OF c(1), of ?cid rs]
  have "pok pe (upd_node n (n_val_update (\<lambda>_. of_nat ?cid)) ?rs)" using f by (intro pok_upd) (auto simp: wf_node_def)
  moreover have "grows ps ?rs" "n = 0 \<or> n < cnt ?rs" using c f by (auto simp: grows_def)
  ultimately have "good pe ps (n, upd_node n (n_val_update (\<lambda>_. of_nat ?cid)) ?rs)" by (simp add: good_def)
  moreover have "good pe ps (0, qs)" using c by (intro good_zero)
  ultimately show ?thesis
    using good_adv1(1) [of pe ps "(n, upd_node n (n_val_update (\<lambda>_. of_nat ?cid)) ?rs)"] good_adv1(1) [of pe ps "(0, qs)"] assms f c n
    by (auto simp: escape_class_def Let_def intro: good_fail)
qed

lemma char_node_good:
  assumes "pok pe ps"
  shows "good pe ps (char_node pe ps)" "peek pe ps 0 \<noteq> 0 \<Longrightarrow> atom_good pe ps (char_node pe ps)"
proof -
  obtain n qs where n: "node_flags pe MTOK_CHAR ps = (n, qs)" by fastforce
  note c = node_flags_cases [OF assms n]
  obtain cp rs where r: "next_char pe qs = (cp, rs)" by fastforce
  note d = next_char_ok [OF c(1) r]
  let ?u = "upd_node n (n_val_update (\<lambda>_. cp)) rs"
  have "pok pe ?u" using d(1) by (intro pok_upd) (auto simp: wf_node_def)
  then have "pok pe (?u\<lparr>p_m := (p_m ?u)\<lparr>m_unicode := (m_unicode (p_m ?u) \<or> cp \<ge> 128)\<rparr>\<rparr>)" by (simp add: pok_def tables_ok_def)
  moreover have "grows ps rs" using c(3) d(2) by (rule grows_trans)
  ultimately have g: "good pe ps (n, ?u\<lparr>p_m := (p_m ?u)\<lparr>m_unicode := (m_unicode (p_m ?u) \<or> cp \<ge> 128)\<rparr>\<rparr>)"
    using c d(5) by (auto simp: good_def) (simp_all add: grows_def)
  have z: "good pe ps (0, qs)" using c by (intro good_zero)
  show "good pe ps (char_node pe ps)" using g z n r by (simp add: char_node_def Let_def)
  have "peek pe qs 0 = peek pe ps 0" using c(2) by (simp add: peek_def)
  then show "atom_good pe ps (char_node pe ps)" if "peek pe ps 0 \<noteq> 0"
    using g z n r that c(2) d(3) by (simp add: char_node_def Let_def atom_good_def)
qed

lemma atom_escape_good:
  assumes "pok pe ps" "peek pe ps 0 \<noteq> 0"
  shows "atom_good pe ps (atom_escape pe ps)"
proof -
  let ?a = "adv 1 ps"
  have m: "moves pe ps ?a" using pok_adv1 [OF assms] by (simp add: moves_def)
  then have a: "pok pe ?a" by (simp add: moves_def)
  obtain v rs where r: "parse_number pe ?a = (v, rs)" by fastforce
  have "good pe ?a (backref_node pe v rs)"
    using parse_number_ok [OF a r] backref_node_good good_trans by blast
  then have "good pe ?a (atom_escape pe ps)"
    using good_fail [OF a grows_refl] escape_name_good [OF a] boundary_node_good [OF a] escape_class_good [OF a] char_node_good(1) [OF a] r
    unfolding atom_escape_def Let_def by auto
  then show ?thesis using m by (rule_tac atom_good_moves)
qed

lemma simple_node_good:
  assumes "pok pe ps" "peek pe ps 0 \<noteq> 0"
  shows "atom_good pe ps (simple_node pe t v ps)"
proof -
  obtain n qs where n: "node_flags pe t ps = (n, qs)" by fastforce
  note c = node_flags_cases [OF assms(1) n]
  have "pok pe (upd_node n (n_val_update (\<lambda>_. v)) qs)" using c(1) by (rule pok_upd) (simp add: wf_node_def)
  then have "good pe ps (n, upd_node n (n_val_update (\<lambda>_. v)) qs)" "good pe ps (0, qs)" using c by (auto simp: good_def)
  then show ?thesis using good_adv1(2) [of pe ps "(n, upd_node n (n_val_update (\<lambda>_. v)) qs)"] assms c n
    by (auto simp: simple_node_def atom_good_def)
qed

lemma atom_simple_good:
  assumes "pok pe ps"
  shows "atom_good pe ps (atom_simple pe ps)"
  using simple_node_good [OF assms] char_node_good(2) [OF assms] atom_good_fail [OF assms grows_refl] assms
  by (auto simp: atom_simple_def Let_def atom_good_def good_zero)

section \<open>Groups, for any parser of the nested expressions that keeps the invariant\<close>

definition room :: "penv \<Rightarrow> nat \<Rightarrow> match_parser \<Rightarrow> bool" where
  "room pe R ps \<longleftrightarrow> pok pe ps \<and> length (pe_pat pe) - p_pos ps < R"

lemma room_grows: "room pe R ps \<Longrightarrow> grows ps qs \<Longrightarrow> pok pe qs \<Longrightarrow> room pe R qs"
  by (auto simp: room_def grows_def)

lemma room_pok: "room pe R ps \<Longrightarrow> pok pe ps"
  by (simp add: room_def)

lemma room_adv1: "room pe R ps \<Longrightarrow> peek pe ps 0 \<noteq> 0 \<Longrightarrow> room pe R (adv 1 ps)"
  using room_grows [of pe R ps "adv 1 ps"] pok_adv1 [of pe ps] by (simp add: room_def)

text \<open>\<open>gives\<close>: a parsing function ends and keeps the invariant.\<close>

definition gives :: "penv \<Rightarrow> match_parser \<Rightarrow> (nat \<times> match_parser) option \<Rightarrow> bool" where
  "gives pe ps res \<longleftrightarrow> (\<exists>r. res = Some r \<and> good pe ps r)"

lemma gives_Some [simp]: "gives pe ps (Some r) \<longleftrightarrow> good pe ps r"
  by (simp add: gives_def)

lemma gives_trans: "gives pe b res \<Longrightarrow> grows a b \<Longrightarrow> gives pe a res"
  by (auto simp: gives_def intro: good_trans)

lemma gives_bind:
  assumes "gives pe ps res" "\<And>n qs. pok pe qs \<Longrightarrow> grows ps qs \<Longrightarrow> n = 0 \<or> n < cnt qs \<Longrightarrow> gives pe qs (k n qs)"
  shows "gives pe ps (res \<bind> (\<lambda>(n, qs). k n qs))"
proof -
  obtain n qs where r: "res = Some (n, qs)" "good pe ps (n, qs)" using assms(1) by (auto simp: gives_def)
  then have "gives pe qs (k n qs)" using assms(2) by (auto simp: good_def)
  then show ?thesis using r by (auto intro: gives_trans simp: good_def)
qed

locale sub_parser =
  fixes pe :: penv and tm :: pfun and ex :: pfun and R :: nat
  assumes tm_gives: "room pe R ps \<Longrightarrow> gives pe ps (tm ps)"
    and ex_gives: "room pe R ps \<Longrightarrow> gives pe ps (ex ps)"
begin

lemma paren_body_gives:
  assumes "room pe R ps" "n < cnt ps"
  shows "gives pe ps (paren_body pe ex n ps)"
  unfolding paren_body_def
proof (rule gives_bind [OF ex_gives [OF assms(1)]])
  fix a qs
  assume q: "pok pe qs" "grows ps qs" "a = 0 \<or> a < cnt qs"
  have n: "n < cnt qs" using assms(2) q(2) by (simp add: grows_def)
  have "pok pe (upd_node n (n_a_update (\<lambda>_. a)) qs)" using q(1) by (rule pok_upd) (use q(3) n in \<open>auto simp: wf_node_def\<close>)
  then have "good pe (upd_node n (n_a_update (\<lambda>_. a)) qs) (parse_paren pe n (upd_node n (n_a_update (\<lambda>_. a)) qs))"
    using n by (intro parse_paren_good) auto
  then show "gives pe qs (Some (parse_paren pe n (upd_node n (n_a_update (\<lambda>_. a)) qs)))" by (auto intro: good_trans)
qed

lemma paren_look_gives:
  assumes "room pe R ps" "peek pe ps 0 \<noteq> 0" "is_lb \<longrightarrow> peek pe ps 1 \<noteq> 0"
  shows "gives pe ps (paren_look pe ex is_lb is_neg ps)"
proof -
  have p: "pok pe ps" using assms(1) by (rule room_pok)
  obtain n qs where n: "node_flags pe MTOK_LOOK ps = (n, qs)" by fastforce
  note c = node_flags_cases [OF p n]
  let ?u = "upd_node n (\<lambda>x. x\<lparr>n_cap := (if is_lb then 1 else 0), n_neg := is_neg\<rparr>) qs"
  let ?k = "if is_lb then 2 else 1 :: nat"
  have u: "pok pe ?u" using c(1) by (rule pok_upd) (simp add: wf_node_def)
  have "p_pos ps + ?k \<le> length (pe_pat pe)" using assms(2,3) peek_pos [of pe ps 0] peek_pos [of pe ps 1] by (auto split: if_splits)
  then have a: "pok pe (adv ?k ?u)" using u c(2) by (intro pok_adv) simp_all
  have g: "grows ps (adv ?k ?u)" using c(3) by (simp add: grows_def)
  have "gives pe ps (paren_body pe ex n (adv ?k ?u))" if "n \<noteq> 0"
    using room_grows [OF assms(1) g a] that c(5) by (intro gives_trans [OF paren_body_gives g]) auto
  then show ?thesis using good_fail [OF p grows_refl, of M_BADPAT] good_zero [OF c(1,3)] n
    by (cases "allows pe (if is_lb then MCOMP_LOOKBACK else MCOMP_LOOKFWD)") (simp_all add: paren_look_def)
qed

lemma paren_cond_gives:
  assumes "room pe R ps" "peek pe ps 0 \<noteq> 0"
  shows "gives pe ps (paren_cond pe tm ps)"
proof -
  have p: "pok pe ps" using assms(1) by (rule room_pok)
  have a: "room pe R (adv 1 ps)" using room_adv1 [OF assms] .
  obtain gid qs where q: "cond_ref pe (adv 1 ps) = (gid, qs)" by fastforce
  note c = cond_ref_ok [OF room_pok [OF a] q]
  have gq: "grows ps qs" using c(2) by (rule grows_trans [rotated]) simp
  have rq: "room pe R qs" using room_grows [OF assms(1) gq c(1)] .
  let ?cond = "\<lambda>yes no ps. case node_flags pe MTOK_COND ps of (n, ps) \<Rightarrow> if n = 0 then (0, ps)
      else parse_paren pe n ((upd_node n (\<lambda>x. x\<lparr>n_val := word_of_int gid, n_a := yes, n_b := no\<rparr>) ps)\<lparr>p_cap := p_cap ps - 1, p_nsub := p_nsub ps - 1\<rparr>)"
  have cond: "good pe xs (?cond yes no xs)" if x: "pok pe xs" "yes = 0 \<or> yes < cnt xs" "no = 0 \<or> no < cnt xs" for xs yes no
  proof -
    obtain n ys where n: "node_flags pe MTOK_COND xs = (n, ys)" by fastforce
    note d = node_flags_cases [OF x(1) n]
    let ?u = "(upd_node n (\<lambda>x. x\<lparr>n_val := word_of_int gid, n_a := yes, n_b := no\<rparr>) ys)\<lparr>p_cap := p_cap ys - 1, p_nsub := p_nsub ys - 1\<rparr>"
    have "pok pe (upd_node n (\<lambda>x. x\<lparr>n_val := word_of_int gid, n_a := yes, n_b := no\<rparr>) ys)" if "n \<noteq> 0"
      using d(1) by (rule pok_upd) (use x d that in \<open>auto simp: wf_node_def\<close>)
    then have "good pe ?u (parse_paren pe n ?u)" if "n \<noteq> 0" using that d by (intro parse_paren_good) auto
    then have "good pe xs (parse_paren pe n ?u)" if "n \<noteq> 0" using that d(3) by (auto intro: good_trans)
    then show ?thesis using n d by (auto simp: good_def)
  qed
  have rest: "gives pe (adv 1 qs) (do {
            (yes, ps) \<leftarrow> tm (adv 1 qs);
            (no, ps) \<leftarrow> (if peek pe ps 0 = 124 then tm (adv 1 ps) else Some (match_node pe MTOK_END ps));
            Some (?cond yes no ps)
          })" if z: "peek pe qs 0 = 41"
  proof (rule gives_bind [OF tm_gives])
    show r1: "room pe R (adv 1 qs)" using room_adv1 [OF rq] z by simp
    fix yes xs
    assume x: "pok pe xs" "grows (adv 1 qs) xs" "yes = 0 \<or> yes < cnt xs"
    have rx: "room pe R xs" using room_grows [OF r1 x(2,1)] .
    show "gives pe xs (do {
            (no, ps) \<leftarrow> (if peek pe xs 0 = 124 then tm (adv 1 xs) else Some (match_node pe MTOK_END xs));
            Some (?cond yes no ps)
          })"
    proof (rule gives_bind)
      obtain n ys where n: "match_node pe MTOK_END xs = (n, ys)" by fastforce
      note d = match_node_cases [OF x(1) n]
      have "gives pe xs (tm (adv 1 xs))" if "peek pe xs 0 = 124"
        using gives_trans [OF tm_gives [OF room_adv1 [OF rx]], of xs] that by simp
      then show "gives pe xs (if peek pe xs 0 = 124 then tm (adv 1 xs) else Some (match_node pe MTOK_END xs))"
        using n d by (auto simp: good_def)
      fix no ys
      assume "pok pe ys" "grows xs ys" "no = 0 \<or> no < cnt ys"
      then show "gives pe ys (Some (?cond yes no ys))" using cond x(3) by (auto simp: grows_def)
    qed
  qed
  have "grows ps (adv 1 qs)" using gq by (simp add: grows_def)
  then show ?thesis unfolding paren_cond_def q using rest [THEN gives_trans] good_fail [OF p grows_refl] good_fail [OF c(1) gq] by auto
qed

lemma reset_loop_gives:
  "room pe R ps \<Longrightarrow> length (pe_pat pe) - p_pos ps < k \<Longrightarrow> (\<And>h. head = Some h \<Longrightarrow> h = 0 \<or> h < cnt ps) \<Longrightarrow>
   gives pe ps (reset_loop pe tm k reset mc head ps)"
proof (induction k arbitrary: ps mc head)
  case (Suc k)
  have "room pe R (ps\<lparr>p_cap := reset\<rparr>)" using Suc.prems(1) by (simp add: room_def)
  then have t: "gives pe ps (tm (ps\<lparr>p_cap := reset\<rparr>))" using gives_trans [OF tm_gives, of "ps\<lparr>p_cap := reset\<rparr>" ps] by simp
  have "gives pe xs (if p_err xs \<noteq> M_SUCCESS then Some (0, xs)
       else
         let max_cap = max mc (p_cap xs) in
         case (case head of None \<Rightarrow> (t, True, xs) | Some h \<Rightarrow> (case pair_node pe MTOK_ALT h t xs of (n, ps) \<Rightarrow> (n, n \<noteq> 0, ps))) of
           (h, ok, ps) \<Rightarrow>
             if \<not> ok then Some (0, ps)
             else if peek pe ps 0 = 124 \<and> p_err ps = M_SUCCESS then reset_loop pe tm k reset max_cap (Some h) (adv 1 ps)
             else Some (parse_paren pe h (ps\<lparr>p_cap := max_cap\<rparr>)))"
    if x: "pok pe xs" "grows ps xs" "t = 0 \<or> t < cnt xs" for t xs
  proof -
    define r where "r = (case head of None \<Rightarrow> (t, True, xs) | Some h \<Rightarrow> (case pair_node pe MTOK_ALT h t xs of (n, ps) \<Rightarrow> (n, n \<noteq> 0, ps)))"
    obtain h ok ys where r: "r = (h, ok, ys)" by (metis prod.exhaust)
    have "good pe xs (h, ys)"
    proof (cases head)
      case None
      then show ?thesis using r x by (simp add: r_def good_def)
    next
      case (Some g)
      then have "g = 0 \<or> g < cnt xs" using Suc.prems(3) [of g] x(2) by (auto simp: grows_def)
      then show ?thesis using r Some pair_node_good(1) [OF x(1) _ x(3), of g MTOK_ALT] by (auto simp: r_def split: prod.splits)
    qed
    then have y: "pok pe ys" "grows xs ys" "h = 0 \<or> h < cnt ys" by (auto simp: good_def)
    have gy: "grows ps ys" using x(2) y(2) by (rule grows_trans)
    have ry: "room pe R ys" using room_grows [OF Suc.prems(1) gy y(1)] .
    have "gives pe xs (reset_loop pe tm k reset mc' (Some h) (adv 1 ys))" if b: "peek pe ys 0 = 124" for mc'
    proof (rule gives_trans)
      have "p_pos ys < length (pe_pat pe)" using peek_pos [of pe ys 0] b by simp
      then have "length (pe_pat pe) - p_pos (adv 1 ys) < k" using Suc.prems(2) gy by (auto simp: grows_def)
      then show "gives pe (adv 1 ys) (reset_loop pe tm k reset mc' (Some h) (adv 1 ys))"
        using room_adv1 [OF ry] b y(3) by (intro Suc.IH) auto
      show "grows xs (adv 1 ys)" using y(2) by (simp add: grows_def)
    qed
    moreover have "good pe xs (parse_paren pe h (ys\<lparr>p_cap := mc'\<rparr>))" for mc'
      using good_trans [OF parse_paren_good [of pe "ys\<lparr>p_cap := mc'\<rparr>" h], of xs] y by simp
    moreover have "good pe xs (0, xs)" "good pe xs (0, ys)" using good_zero x(1) y(1,2) by auto
    ultimately show ?thesis unfolding r_def [symmetric] r Let_def prod.case by simp
  qed
  then show ?case unfolding reset_loop.simps by (rule gives_bind [OF t])
qed simp

lemma paren_branch_reset_gives:
  assumes "room pe R ps" "peek pe ps 0 \<noteq> 0"
  shows "gives pe ps (paren_branch_reset pe tm ps)"
proof -
  let ?qs = "adv 1 (ps\<lparr>p_cap := p_cap ps - 1\<rparr>)"
  have "room pe R (ps\<lparr>p_cap := p_cap ps - 1\<rparr>)" "peek pe (ps\<lparr>p_cap := p_cap ps - 1\<rparr>) 0 \<noteq> 0" using assms by (simp_all add: room_def)
  then have r: "room pe R ?qs" by (rule room_adv1)
  have "length (pe_pat pe) - p_pos ?qs < Suc (length (pe_pat pe))" by linarith
  then have "gives pe ?qs (reset_loop pe tm (Suc (length (pe_pat pe))) (p_cap ps - 1) (p_cap ps - 1) None ?qs)"
    using r by (intro reset_loop_gives) auto
  then show ?thesis unfolding paren_branch_reset_def Let_def by (rule gives_trans) simp
qed

lemma capture_group_gives:
  assumes "room pe R ps"
  shows "gives pe ps (capture_group pe ex cap ps)"
proof -
  have p: "pok pe ps" using assms by (rule room_pok)
  obtain n qs where n: "node_flags pe MTOK_CAP ps = (n, qs)" by fastforce
  note c = node_flags_cases [OF p n]
  let ?g = "set_group cap n qs"
  have g: "pok pe ?g" "grows ps ?g" "cnt ?g = cnt qs" if "n \<noteq> 0"
    using c that by (auto simp: set_group_def pok_def tables_ok_def grows_def dest: set_update_subset_insert [THEN subsetD])
  let ?u = "upd_node n (n_cap_update (\<lambda>_. nat (cap mod 256))) ?g"
  have u: "pok pe ?u" if "n \<noteq> 0" using g(1) [OF that] by (rule pok_upd) (simp add: wf_node_def)
  have "gives pe ps (paren_body pe ex n ?u)" if "n \<noteq> 0"
  proof (rule gives_trans [OF paren_body_gives])
    show "grows ps ?u" using g(2) [OF that] by simp
    then show "room pe R ?u" using room_grows [OF assms _ u [OF that]] by simp
    show "n < cnt ?u" using c(5) g(3) that by simp
  qed
  then show ?thesis using n good_zero [OF c(1,3)] by (simp add: capture_group_def)
qed

lemma paren_named_cap_gives:
  assumes "room pe R ps" "peek pe ps 0 \<noteq> 0"
  shows "gives pe ps (paren_named_cap pe ex cap ps)"
proof -
  have p: "pok pe ps" using assms(1) by (rule room_pok)
  obtain nm qs where q: "parse_name pe 62 (adv 1 ps) = (nm, qs)" by fastforce
  let ?qs = "if peek pe qs 0 = 62 then adv 1 qs else qs"
  have a: "pok pe ?qs" "grows ps ?qs" using close_name [OF q p assms(2), of "peek pe qs 0 = 62"] by auto
  let ?rs = "if cap < 32 then case try_alloc pe ?qs of
        (ok, ps) \<Rightarrow> ps\<lparr>p_m := (p_m ps)\<lparr>m_names := (m_names (p_m ps))[nat cap := (if ok then Some nm else None)]\<rparr>\<rparr> else ?qs"
  have r: "pok pe ?rs" "grows ps ?rs" using a by (auto simp: try_alloc_def pok_def tables_ok_def grows_def)
  have "gives pe ps (capture_group pe ex cap ?rs)" by (rule gives_trans [OF capture_group_gives r(2)]) (rule room_grows [OF assms(1) r(2,1)])
  then show ?thesis using good_fail [OF p grows_refl, of M_BADPAT] unfolding paren_named_cap_def q Let_def prod.case by simp
qed

lemma paren_atomic_gives:
  assumes "room pe R ps" "peek pe ps 0 \<noteq> 0"
  shows "gives pe ps (paren_atomic pe ex ps)"
proof -
  have p: "pok pe ps" using assms(1) by (rule room_pok)
  let ?wrap = "\<lambda>inner ps. if inner = 0 then (0, ps) else case node_flags pe MTOK_ATOMIC ps of
      (n, ps) \<Rightarrow> if n = 0 then (0, ps) else parse_paren pe n (upd_node n (n_a_update (\<lambda>_. inner)) ps)"
  have "good pe xs (?wrap inner xs)" if x: "pok pe xs" "inner = 0 \<or> inner < cnt xs" for inner xs
  proof -
    obtain n ys where n: "node_flags pe MTOK_ATOMIC xs = (n, ys)" by fastforce
    note d = node_flags_cases [OF x(1) n]
    let ?u = "upd_node n (n_a_update (\<lambda>_. inner)) ys"
    have "pok pe ?u" if "n \<noteq> 0" using d(1) by (rule pok_upd) (use x d that in \<open>auto simp: wf_node_def\<close>)
    then have "good pe ?u (parse_paren pe n ?u)" if "n \<noteq> 0" using that d by (intro parse_paren_good) auto
    then have "good pe xs (parse_paren pe n ?u)" if "n \<noteq> 0" using that d(3) by (auto intro: good_trans)
    then show ?thesis using n good_zero [OF d(1,3)] good_zero [OF x(1) grows_refl] by simp
  qed
  then have "gives pe (adv 1 ps) (do { (inner, ps) \<leftarrow> ex (adv 1 ps); Some (?wrap inner ps) })"
    by (intro gives_bind [OF ex_gives [OF room_adv1 [OF assms]]]) auto
  then have "gives pe ps (do { (inner, ps) \<leftarrow> ex (adv 1 ps); Some (?wrap inner ps) })" by (rule gives_trans) simp
  then show ?thesis using good_fail [OF p grows_refl, of M_BADPAT] unfolding paren_atomic_def by simp
qed

lemma flags_loop_gives:
  "pok pe ps \<Longrightarrow> length (pe_pat pe) - p_pos ps < k \<Longrightarrow>
   \<exists>r fl' qs. flags_loop pe k fl ps = Some (r, fl', qs) \<and> pok pe qs \<and> grows ps qs"
proof (induction k arbitrary: fl ps)
  case (Suc k)
  have one: "\<exists>r fl' qs. flags_loop pe k x (adv 1 ys) = Some (r, fl', qs) \<and> pok pe qs \<and> grows ps qs"
    if y: "pok pe ys" "grows ps ys" "peek pe ys 0 \<noteq> 0" for x ys
  proof -
    have "p_pos ys < length (pe_pat pe)" using peek_pos [of pe ys 0] y(3) by simp
    then have "length (pe_pat pe) - p_pos (adv 1 ys) < k" using Suc.prems(2) y(2) by (auto simp: grows_def)
    then obtain r fl' qs where "flags_loop pe k x (adv 1 ys) = Some (r, fl', qs)" "pok pe qs" "grows (adv 1 ys) qs"
      using Suc.IH pok_adv1 [OF y(1,3)] by blast
    moreover have "grows ps (adv 1 ys)" using y(2) by (simp add: grows_def)
    ultimately show ?thesis using grows_trans by blast
  qed
  have fl: "pok pe (set_err M_BADPAT ys) \<and> grows ps (set_err M_BADPAT ys)" if "pok pe ys" "grows ps ys" for ys
    using that good_fail [OF that, of M_BADPAT] by (auto simp: good_def)
  let ?c = "peek pe ps 0" and ?a = "adv 1 ps"
  have a: "?c \<noteq> 0 \<Longrightarrow> pok pe ?a" "grows ps ?a" using pok_adv1 [OF Suc.prems(1)] by auto
  consider "?c = 105 \<or> ?c = 73" | "?c = 115 \<or> ?c = 83" | "?c = 45" | "?c \<notin> {105, 73, 115, 83, 45}" by blast
  then show ?case
  proof cases
    case 3
    then have "pok pe ?a" using a(1) by simp
    then show ?thesis using 3 one [of ?a] fl [of ?a] by (cases "peek pe ?a 0 = 105 \<or> peek pe ?a 0 = 115") (auto simp: Let_def)
  qed (use one [OF Suc.prems(1) grows_refl] fl [OF Suc.prems(1) grows_refl] Suc.prems(1) a in \<open>auto simp: Let_def\<close>)
qed simp

lemma paren_flags_gives:
  assumes "room pe R ps"
  shows "gives pe ps (paren_flags pe ex ps)"
proof -
  have p: "pok pe ps" using assms by (rule room_pok)
  have "length (pe_pat pe) - p_pos ps < Suc (length (pe_pat pe))" by linarith
  then obtain r fl qs where q: "flags_loop pe (Suc (length (pe_pat pe))) (p_eflags ps AND 0xFF) ps = Some (r, fl, qs)" "pok pe qs" "grows ps qs"
    using flags_loop_gives [OF p] by blast
  have rq: "room pe R (qs\<lparr>p_eflags := fl\<rparr>)" using room_grows [OF assms q(3,2)] by (simp add: room_def)
  let ?close = "\<lambda>n ps'. if p_err ps' \<noteq> M_SUCCESS then Some (0, ps'\<lparr>p_eflags := p_eflags qs\<rparr>) else Some (parse_paren pe n (ps'\<lparr>p_eflags := p_eflags qs\<rparr>))"
  have "gives pe xs (?close n xs)" if x: "pok pe xs" "n = 0 \<or> n < cnt xs" for n xs
    using x good_trans [OF parse_paren_good [of pe "xs\<lparr>p_eflags := p_eflags qs\<rparr>" n], of xs] by (auto simp: good_def)
  then have "gives pe (qs\<lparr>p_eflags := fl\<rparr>) (ex (qs\<lparr>p_eflags := fl\<rparr>) \<bind> (\<lambda>(n, ps'). ?close n ps'))"
    by (intro gives_bind [OF ex_gives [OF rq]]) auto
  then have s: "gives pe ps (ex (qs\<lparr>p_eflags := fl\<rparr>) \<bind> (\<lambda>(n, ps'). ?close n ps'))" by (rule gives_trans) (simp add: q(3))
  obtain n ys where n: "match_node pe MTOK_END (qs\<lparr>p_eflags := fl\<rparr>) = (n, ys)" by fastforce
  have qf: "pok pe (qs\<lparr>p_eflags := fl\<rparr>)" using q(2) by simp
  note d = match_node_cases [OF qf n]
  have "good pe ps (n, ys)" using d q(3) by (auto simp: good_def intro: grows_trans)
  then show ?thesis using q(1) s n good_zero [OF q(2,3)]
    by (auto simp: paren_flags_def simp del: flags_loop.simps split: option.split)
qed

lemma atom_paren_good:
  assumes "pok pe ps" "peek pe ps 0 \<noteq> 0" "length (pe_pat pe) - p_pos ps \<le> R"
  shows "\<exists>r. atom_paren pe ex tm ps = Some r \<and> atom_good pe ps r"
proof -
  let ?ps = "ps\<lparr>p_cap := p_cap ps + 1, p_nsub := p_nsub ps + 1\<rparr>"
  let ?a = "adv 1 ?ps"
  have a: "pok pe ?a" using pok_adv1 [of pe ?ps] assms(1,2) by simp
  have m: "moves pe ps ?a" using a by (simp add: moves_def)
  have "p_pos ps < length (pe_pat pe)" using peek_pos [of pe ps 0] assms(2) by simp
  then have ra: "room pe R ?a" using a assms(3) by (simp add: room_def)
  note f = good_fail [OF a grows_refl, of M_BADPAT]
  have "gives pe ?a (atom_paren pe ex tm ps)"
  proof (cases "peek pe ?a 0 = 63")
    case False
    then show ?thesis using capture_group_gives [OF ra] f by (simp add: atom_paren_def Let_def paren_capture_def)
  next
    case True
    let ?b = "adv 1 ?a"
    have rb: "room pe R ?b" using room_adv1 [OF ra] True by simp
    note pb = room_pok [OF rb]
    have rec: "good pe ?b (paren_recursion pe ?b)"
    proof (cases "allows pe MCOMP_RECURSE \<and> (peek pe ?b 1 = 41 \<or> peek pe ?b 1 = 48)")
      case True
      then have "pok pe (adv 2 ?b)" using pok_adv2 [OF pb] by auto
      then have "good pe ?b (call_node pe 0 (adv 2 ?b))" using call_node_good good_trans [of pe "adv 2 ?b" _ ?b] by simp
      then show ?thesis using True by (simp add: paren_recursion_def)
    next
      case False
      then show ?thesis using good_fail [OF pb grows_refl, of M_BADPAT] by (auto simp: paren_recursion_def)
    qed
    have look: "gives pe ?b (paren_look pe ex True neg ?b)" if "peek pe ?b 0 = 60" "peek pe ?b 1 = 61 \<or> peek pe ?b 1 = 33" for neg
      using paren_look_gives [OF rb, of True neg] that by auto
    have call: "good pe ?b (paren_call pe False ?b)" if "49 \<le> peek pe ?b 0"
    proof (rule paren_call_good [OF pb])
      show "peek pe ?b 0 \<noteq> 0" using that by (intro notI) simp
    qed
    have "gives pe ?b (atom_paren pe ex tm ps)"
      using True rec look call paren_call_good [OF pb] paren_cond_gives [OF rb] paren_branch_reset_gives [OF rb] paren_named_cap_gives [OF rb]
        paren_atomic_gives [OF rb] paren_look_gives [OF rb, of False] paren_flags_gives [OF rb]
      unfolding atom_paren_def Let_def by simp
    then show ?thesis by (rule gives_trans) simp
  qed
  then show ?thesis using atom_good_moves [OF m] by (auto simp: gives_def)
qed

end

section \<open>Quantifiers, atoms, terms, expressions\<close>

lemma quant_bounds_ok:
  assumes "pok pe ps" "quant_bounds pe ps = (b, ps')"
  shows "pok pe ps'" "grows ps ps'"
proof -
  have a: "pok pe (adv 1 ps)" if "peek pe ps 0 \<noteq> 0" using pok_adv1 [OF assms(1) that] .
  obtain mn qs where q: "parse_number pe (adv 1 ps) = (mn, qs)" by fastforce
  let ?r = "if peek pe qs 0 = 44 then (let ps = adv 1 qs in if peek pe ps 0 = 125 then (255, ps) else parse_number pe ps) else (mn, qs)"
  obtain mx rs where r: "?r = (mx, rs)" by fastforce
  have "pok pe rs \<and> grows ps rs" if z: "peek pe ps 0 = 123"
  proof -
    have q2: "pok pe qs" "grows (adv 1 ps) qs" using parse_number_ok [OF a q] z by auto
    have "pok pe rs \<and> grows qs rs"
    proof (cases "peek pe qs 0 = 44")
      case True
      then have p1: "pok pe (adv 1 qs)" using pok_adv1 [OF q2(1)] by simp
      show ?thesis
      proof (cases "peek pe (adv 1 qs) 0 = 125")
        case False
        then have "parse_number pe (adv 1 qs) = (mx, rs)" using True r by (simp add: Let_def)
        then have "pok pe rs" "grows (adv 1 qs) rs" using parse_number_ok [OF p1] by auto
        then show ?thesis by (auto intro: grows_trans [where b = "adv 1 qs"])
      qed (use True r p1 in \<open>auto simp: Let_def\<close>)
    qed (use r q2 in auto)
    moreover have "grows ps (adv 1 ps)" by simp
    ultimately show ?thesis using q2(2) grows_trans by blast
  qed
  moreover have "pok pe (adv 1 rs) \<and> grows ps (adv 1 rs)" if "peek pe ps 0 = 123" "peek pe rs 0 = 125"
    using calculation [OF that(1)] pok_adv1 [of pe rs] that(2) by (auto simp: grows_def)
  moreover have "pok pe (set_err M_EBRACE rs) \<and> grows ps (set_err M_EBRACE rs)" if "peek pe ps 0 = 123"
    using calculation(1) [OF that] good_fail [of pe rs ps M_EBRACE] by (auto simp: good_def)
  ultimately show "pok pe ps'" "grows ps ps'"
    using assms a q r by (auto simp: quant_bounds_def Let_def split: if_splits)
qed

lemma quant_wrap_good:
  assumes "pok pe ps" "n < cnt ps"
  shows "good pe ps (quant_wrap pe n mn mx lz ps)"
proof -
  obtain rp qs where r: "match_rep pe n mn mx lz ps = (rp, qs)" by fastforce
  have g: "good pe ps (rp, qs)" using match_rep_good [OF assms(1), of n mn mx lz] assms(2) r by simp
  then have q: "pok pe qs" "grows ps qs" "rp = 0 \<or> rp < cnt qs" by (auto simp: good_def)
  have "good pe ps (case match_node pe MTOK_ATOMIC (adv 1 qs) of (at, xs) \<Rightarrow>
      if at \<noteq> 0 then (at, upd_node at (\<lambda>x. x\<lparr>n_a := rp, n_eflags := n_eflags (m_arena (p_m xs) ! rp)\<rparr>) xs) else (n, xs))" if "peek pe qs 0 = 43"
  proof -
    have a: "pok pe (adv 1 qs)" "grows ps (adv 1 qs)" using pok_adv1 [OF q(1)] that q(2) by (auto simp: grows_def)
    obtain at xs where n: "match_node pe MTOK_ATOMIC (adv 1 qs) = (at, xs)" by fastforce
    note d = match_node_cases [OF a(1) n]
    have "pok pe (upd_node at (\<lambda>x. x\<lparr>n_a := rp, n_eflags := n_eflags (m_arena (p_m xs) ! rp)\<rparr>) xs)" if "at \<noteq> 0"
      using d(1) by (rule pok_upd) (use d q(3) that in \<open>auto simp: wf_node_def\<close>)
    moreover have "grows ps xs" using a(2) d(3) by (rule grows_trans)
    ultimately show ?thesis using n d assms(2) by (auto simp: good_def grows_def)
  qed
  then show ?thesis using r g by (simp add: quant_wrap_def)
qed

lemma match_quant_good:
  assumes "pok pe ps" "n < cnt ps"
  shows "good pe ps (match_quant pe n ps)"
proof -
  have fail: "good pe ps (n, set_err M_BADPAT qs)" if "pok pe qs" "grows ps qs" for qs
    using good_fail [OF that, of M_BADPAT] assms(2) by (auto simp: good_def grows_def)
  obtain b qs where b: "quant_bounds pe ps = (b, qs)" by fastforce
  note q = quant_bounds_ok [OF assms(1) b]
  have nq: "n < cnt qs" using q(2) assms(2) by (simp add: grows_def)
  have wrap: "good pe ps (quant_wrap pe n mn mx lz rs)" if "pok pe rs" "grows qs rs" for mn mx lz rs
  proof (rule good_trans [OF quant_wrap_good])
    show "n < cnt rs" using nq that(2) by (simp add: grows_def)
    show "grows ps rs" using q(2) that(2) by (rule grows_trans)
  qed (rule that(1))
  let ?l = "adv 1 (qs\<lparr>p_eflags := p_eflags qs OR MEXEC_UNGREEDY\<rparr>)"
  have "pok pe ?l" if "peek pe qs 0 = 63" using pok_adv1 [of pe "qs\<lparr>p_eflags := p_eflags qs OR MEXEC_UNGREEDY\<rparr>"] q(1) that by simp
  then have lz: "good pe ps (quant_wrap pe n mn mx True ?l)" if "peek pe qs 0 = 63" for mn mx using wrap that by simp
  have "good pe ps (n, qs)" using q nq by (simp add: good_def)
  then show ?thesis using b fail [OF assms(1) grows_refl] fail [OF q] lz wrap [OF q(1) grows_refl]
    by (auto simp: match_quant_def split: option.split)
qed

definition atom_ok :: "penv \<Rightarrow> nat \<Rightarrow> pfun \<Rightarrow> bool" where
  "atom_ok pe F at \<longleftrightarrow> (\<forall>ps. room pe F ps \<longrightarrow> (\<exists>r. at ps = Some r \<and> atom_good pe ps r))"

lemma atom_okD: "atom_ok pe F at \<Longrightarrow> room pe F ps \<Longrightarrow> \<exists>n qs. at ps = Some (n, qs) \<and> good pe ps (n, qs) \<and> (n \<noteq> 0 \<longrightarrow> p_pos ps < p_pos qs)"
  by (fastforce simp: atom_ok_def atom_good_def)

lemma term_loop_gives:
  assumes "atom_ok pe F at"
  shows "room pe F ps \<Longrightarrow> length (pe_pat pe) - p_pos ps < k \<Longrightarrow> a = 0 \<or> a < cnt ps \<Longrightarrow> gives pe ps (term_loop pe at k a ps)"
proof (induction k arbitrary: a ps)
  case (Suc k)
  let ?b = "peek pe ps 0"
  have z: "good pe ps (a, ps)" using Suc.prems by (simp add: good_def room_def)
  show ?case
  proof (cases "?b = 0 \<or> ?b = 41 \<or> p_err ps \<noteq> M_SUCCESS \<or> allows pe MCOMP_ALTERN \<and> ?b = 124 \<or> ?b \<in> {42, 63, 43, 123}")
    case True
    then show ?thesis using z by (auto simp: Let_def)
  next
    case False
    obtain n qs where n: "at ps = Some (n, qs)" "good pe ps (n, qs)" "n \<noteq> 0 \<longrightarrow> p_pos ps < p_pos qs" using atom_okD [OF assms Suc.prems(1)] by blast
    have q: "pok pe qs" "grows ps qs" using n(2) by (auto simp: good_def)
    have aq: "a = 0 \<or> a < cnt qs" using Suc.prems(3) q(2) by (auto simp: grows_def)
    obtain m rs where m: "pair_node pe MTOK_SEQ a n qs = (m, rs)" by fastforce
    have g: "good pe qs (m, rs)" "p_pos rs = p_pos qs" using pair_node_good [OF q(1) aq, of n MTOK_SEQ] n(2) m by (auto simp: good_def)
    then have r: "pok pe rs" "grows ps rs" using q(2) by (auto simp: good_def intro: grows_trans)
    have "gives pe ps (term_loop pe at k m rs)" if "n \<noteq> 0"
    proof (rule gives_trans [OF Suc.IH r(2)])
      show "room pe F rs" using room_grows [OF Suc.prems(1) r(2,1)] .
      have "p_pos rs \<le> length (pe_pat pe)" using r(1) by (simp add: pok_def)
      moreover have "p_pos ps < p_pos rs" using n(3) that g(2) by simp
      ultimately show "length (pe_pat pe) - p_pos rs < k" using Suc.prems(2) by linarith
      show "m = 0 \<or> m < cnt rs" using g(1) by (simp add: good_def)
    qed
    moreover have "good pe ps (a, qs)" "good pe ps (0, rs)" using aq q r by (auto simp: good_def)
    moreover have "term_loop pe at (Suc k) a ps = (if n = 0 then Some (a, qs) else if m = 0 then Some (0, rs) else term_loop pe at k m rs)"
      using False n(1) m by (auto simp: Let_def)
    ultimately show ?thesis by simp
  qed
qed simp

lemma match_term_gives:
  assumes "atom_ok pe F at" "room pe F ps"
  shows "gives pe ps (match_term pe at ps)"
proof -
  obtain n qs where n: "at ps = Some (n, qs)" "good pe ps (n, qs)" using atom_okD [OF assms] by blast
  then have q: "pok pe qs" "grows ps qs" "n = 0 \<or> n < cnt qs" by (auto simp: good_def)
  have "length (pe_pat pe) - p_pos qs < Suc (length (pe_pat pe))" by linarith
  then have "gives pe qs (term_loop pe at (Suc (length (pe_pat pe))) n qs)"
    using term_loop_gives [OF assms(1) room_grows [OF assms(2) q(2,1)]] q(3) by blast
  then have "gives pe ps (term_loop pe at (Suc (length (pe_pat pe))) n qs)" using q(2) by (rule gives_trans)
  then show ?thesis using n(1) by (simp add: match_term_def del: term_loop.simps)
qed

lemma expr_loop_gives:
  assumes "\<And>ps. room pe F ps \<Longrightarrow> gives pe ps (tm ps)"
  shows "room pe F ps \<Longrightarrow> length (pe_pat pe) - p_pos ps < k \<Longrightarrow> a = 0 \<or> a < cnt ps \<Longrightarrow> gives pe ps (expr_loop pe tm k a ps)"
proof (induction k arbitrary: a ps)
  case (Suc k)
  show ?case
  proof (cases "peek pe ps 0 = 124 \<and> p_err ps = M_SUCCESS")
    case False
    then show ?thesis using Suc.prems by (auto simp: good_def room_def)
  next
    case True
    have r1: "room pe F (adv 1 ps)" using room_adv1 [OF Suc.prems(1)] True by simp
    have "p_pos ps < length (pe_pat pe)" using peek_pos [of pe ps 0] True by simp
    then have k: "length (pe_pat pe) - p_pos (adv 1 ps) < k" using Suc.prems(2) by simp
    have "gives pe (adv 1 ps) (tm (adv 1 ps) \<bind> (\<lambda>(b, ps). if b = 0 then Some (a, ps)
        else case pair_node pe MTOK_ALT a b ps of (n, ps) \<Rightarrow> if n = 0 then Some (0, ps) else expr_loop pe tm k n ps))"
    proof (rule gives_bind [OF assms [OF r1]])
      fix b qs
      assume q: "pok pe qs" "grows (adv 1 ps) qs" "b = 0 \<or> b < cnt qs"
      have aq: "a = 0 \<or> a < cnt qs" using Suc.prems(3) q(2) by (auto simp: grows_def)
      obtain m rs where m: "pair_node pe MTOK_ALT a b qs = (m, rs)" by fastforce
      have g: "good pe qs (m, rs)" "p_pos rs = p_pos qs" using pair_node_good [OF q(1) aq q(3), of MTOK_ALT] m by auto
      then have r: "pok pe rs" "grows qs rs" "m = 0 \<or> m < cnt rs" by (auto simp: good_def)
      have "gives pe qs (expr_loop pe tm k m rs)"
      proof (rule gives_trans [OF Suc.IH r(2)])
        show "room pe F rs" using room_grows [OF r1 grows_trans [OF q(2) r(2)] r(1)] .
        show "length (pe_pat pe) - p_pos rs < k" using k q(2) g(2) unfolding grows_def by linarith
      qed (rule r(3))
      moreover have "good pe qs (a, qs)" "good pe qs (0, rs)" using aq q r by (auto simp: good_def)
      ultimately show "gives pe qs (if b = 0 then Some (a, qs)
          else case pair_node pe MTOK_ALT a b qs of (n, ps) \<Rightarrow> if n = 0 then Some (0, ps) else expr_loop pe tm k n ps)"
        using m by simp
    qed
    then have "gives pe ps (tm (adv 1 ps) \<bind> (\<lambda>(b, ps). if b = 0 then Some (a, ps)
        else case pair_node pe MTOK_ALT a b ps of (n, ps) \<Rightarrow> if n = 0 then Some (0, ps) else expr_loop pe tm k n ps))"
      by (rule gives_trans) simp
    then show ?thesis using True by simp
  qed
qed simp

lemma match_expr_gives:
  assumes "\<And>ps. room pe F ps \<Longrightarrow> gives pe ps (tm ps)" "room pe F ps"
  shows "gives pe ps (match_expr pe tm ps)"
  unfolding match_expr_def
proof (rule gives_bind [OF assms(1) [OF assms(2)]])
  fix a qs
  assume q: "pok pe qs" "grows ps qs" "a = 0 \<or> a < cnt qs"
  have "length (pe_pat pe) - p_pos qs < Suc (length (pe_pat pe))" by linarith
  then have "gives pe qs (expr_loop pe tm (Suc (length (pe_pat pe))) a qs)"
    using expr_loop_gives [OF assms(1) room_grows [OF assms(2) q(2,1)]] q(3) by blast
  then show "gives pe qs (if \<not> allows pe MCOMP_ALTERN then Some (a, qs) else expr_loop pe tm (Suc (length (pe_pat pe))) a qs)"
    using q by (simp add: good_def del: expr_loop.simps)
qed

text \<open>The nested parsers keep the invariant on the part of the pattern that is left.\<close>

lemma sub_parser_of:
  assumes "atom_ok pe F at"
  shows "sub_parser pe (match_term pe at) (match_expr pe (match_term pe at)) F"
  using match_term_gives [OF assms] match_expr_gives [of pe F "match_term pe at"] by unfold_locales auto

lemma match_atom_ok: "atom_ok pe f (match_atom pe f)"
proof (induction f)
  case 0
  show ?case by (simp add: atom_ok_def room_def)
next
  case (Suc f)
  let ?tm = "match_term pe (match_atom pe f)"
  show ?case unfolding atom_ok_def
  proof (intro allI impI)
    fix ps
    assume r: "room pe (Suc f) ps"
    let ?b = "peek pe ps 0"
    let ?x = "if ?b = 91 then atom_bracket pe ps else if ?b = 40 then atom_paren pe (match_expr pe ?tm) ?tm ps
        else if ?b = 92 then Some (atom_escape pe ps) else Some (atom_simple pe ps)"
    have p: "pok pe ps" "length (pe_pat pe) - p_pos ps \<le> f" using r by (auto simp: room_def)
    have "\<exists>r. ?x = Some r \<and> atom_good pe ps r"
      using atom_bracket_good [OF p(1)] sub_parser.atom_paren_good [OF sub_parser_of [OF Suc.IH] p(1) _ p(2)] atom_escape_good [OF p(1)] atom_simple_good [OF p(1)]
      by (simp del: split_paired_Ex)
    then obtain n qs where n: "?x = Some (n, qs)" "atom_good pe ps (n, qs)" by (metis prod.exhaust)
    have q: "pok pe qs" "grows ps qs" "n \<noteq> 0 \<longrightarrow> n < cnt qs \<and> p_pos ps < p_pos qs" using n(2) by (auto simp: atom_good_def good_def)
    have "atom_good pe ps (if n \<noteq> 0 then match_quant pe n qs else (n, qs))"
    proof (cases "n = 0")
      case False
      then have "moves pe ps qs" "good pe qs (match_quant pe n qs)" using q match_quant_good by (auto simp: moves_def)
      then show ?thesis using False atom_good_moves by simp
    qed (use n(2) in simp)
    then show "\<exists>r. match_atom pe (Suc f) ps = Some r \<and> atom_good pe ps r" using n(1) by (simp only: match_atom.simps Let_def bind.simps prod.case) blast
  qed
qed

interpretation pattern_parser: sub_parser pe "match_term pe (match_atom pe (Suc (length (pe_pat pe))))"
  "match_expr pe (match_term pe (match_atom pe (Suc (length (pe_pat pe)))))" "Suc (length (pe_pat pe))" for pe
  by (rule sub_parser_of [OF match_atom_ok])

lemma parser_start_ok: "pok pe (snd (match_node pe MTOK_END (parser_start fl)))"
  by (auto simp: match_node_def try_alloc_def push_node_def parser_start_def zero_matcher_def pok_def tables_ok_def set_err_def fresh_node_def wf_node_def)

lemma parse_pattern_gives: "\<exists>root ps. parse_pattern pe = Some (root, ps) \<and> pok pe ps \<and> (root = 0 \<or> root < cnt ps)"
proof -
  let ?s = "snd (match_node pe MTOK_END (parser_start (pe_cflags pe)))"
  have "room pe (Suc (length (pe_pat pe))) ?s" using parser_start_ok by (simp add: room_def less_Suc_eq_le)
  then have "gives pe ?s (parse_pattern pe)" unfolding parse_pattern_def by (rule pattern_parser.ex_gives)
  then show ?thesis by (auto simp: gives_def good_def)
qed

text \<open>
  Compiling always answers, whatever the pattern, the flags and the outcome of the allocations, and a pattern that compiles gives a
  well-formed matcher: every index in the arena, the group table and the class tables is in range.
\<close>

lemma matchcomp_wf: "\<exists>er m ub. matchcomp pe = Some (er, m, ub) \<and> (er = M_SUCCESS \<longrightarrow> wf_matcher m)"
proof -
  obtain root ps where p: "parse_pattern pe = Some (root, ps)" "pok pe ps" "root = 0 \<or> root < cnt ps" using parse_pattern_gives by blast
  have "wf_matcher (finish_matcher (pe_pat pe) root ps)" if "p_err ps = M_SUCCESS"
    using p that by (auto simp: pok_def tables_ok_def wf_matcher_def finish_matcher_def)
  then show ?thesis using p(1) by (auto simp: matchcomp_def)
qed

end
