(* ===== verification/MatchLang.thy ===== *)
theory MatchLang
  imports MatchSafe
begin

text \<open>
  The regular expression a compiled pattern stands for, and the proof that a reported match is one of that expression.

  The language is defined on the arena itself: \<open>den e ic i p q\<close> says that the bytes of the subject from \<open>p\<close> to \<open>q\<close> match the node \<open>i\<close>.  It
  covers the nodes of regular expressions; \<open>plain\<close> says that a pattern has no others (no look-around, back-reference, condition, call
  or inline flag) and no repetition inside a repetition, the case in which the shared workspace of the engine is overwritten.
\<close>

section \<open>The language\<close>

fun leaf_match :: "menv \<Rightarrow> bool \<Rightarrow> match_node \<Rightarrow> match_tok \<Rightarrow> nat \<Rightarrow> nat \<Rightarrow> bool" where
  "leaf_match e ic n MTOK_END p q \<longleftrightarrow> q = p"
| "leaf_match e ic n MTOK_CHAR p q \<longleftrightarrow>
     p < en_len e \<and> (case match_utf8_next (en_s e) (en_len e) p of (cp, r) \<Rightarrow> q = r \<and> match_fold (en_loc e) cp (n_val n) ic)"
| "leaf_match e ic n MTOK_CLASS p q \<longleftrightarrow>
     p < en_len e \<and>
     (case match_utf8_next (en_s e) (en_len e) p of (cp, r) \<Rightarrow> q = r \<and> match_in_class (en_loc e) (en_m e) cp (unat (n_val n) mod 256) ic)"
| "leaf_match e ic n MTOK_ANY p q \<longleftrightarrow>
     p < en_len e \<and> (n_eflags n AND MEXEC_DOTALL \<noteq> 0 \<or> en_s e ! p \<noteq> 10) \<and>
     q = (if en_s e ! p \<ge> 0x80 then skip_cont (en_s e) (en_len e) (p + 1) else p + 1)"
| "leaf_match e ic n MTOK_BOL p q \<longleftrightarrow>
     q = p \<and> en_ef e AND MEXEC_NOTBOL = 0 \<and> (p = 0 \<or> en_nl e \<and> p > 0 \<and> en_s e ! (p - 1) = 10)"
| "leaf_match e ic n MTOK_EOL p q \<longleftrightarrow>
     q = p \<and> en_ef e AND MEXEC_NOTEOL = 0 \<and> (p = en_len e \<or> en_nl e \<and> p < en_len e \<and> en_s e ! p = 10)"
| "leaf_match e ic n MTOK_WB p q \<longleftrightarrow>
     q = p \<and> (p = 0 \<or> p = en_len e \<or> word_before e p \<noteq> match_is_word (en_loc e) (fst (match_utf8_next (en_s e) (en_len e) p)))"
| "leaf_match e ic n MTOK_NWB p q \<longleftrightarrow>
     q = p \<and> p \<noteq> 0 \<and> p \<noteq> en_len e \<and> word_before e p = match_is_word (en_loc e) (fst (match_utf8_next (en_s e) (en_len e) p))"
| "leaf_match e ic n _ p q \<longleftrightarrow> False"

inductive den :: "menv \<Rightarrow> bool \<Rightarrow> nat \<Rightarrow> nat \<Rightarrow> nat \<Rightarrow> bool"
  and den_rep :: "menv \<Rightarrow> bool \<Rightarrow> nat \<Rightarrow> nat \<Rightarrow> nat \<Rightarrow> nat \<Rightarrow> bool"
  for e :: menv and ic :: bool where
  den_nothing: "den e ic 0 p p"
| den_leaf: "i \<noteq> 0 \<Longrightarrow> leaf_match e ic (m_arena (en_m e) ! i) (n_type (m_arena (en_m e) ! i)) p q \<Longrightarrow> den e ic i p q"
| den_seq: "i \<noteq> 0 \<Longrightarrow> n_type (m_arena (en_m e) ! i) = MTOK_SEQ \<Longrightarrow> den e ic (n_a (m_arena (en_m e) ! i)) p r \<Longrightarrow>
    den e ic (n_b (m_arena (en_m e) ! i)) r q \<Longrightarrow> den e ic i p q"
| den_alt_left: "i \<noteq> 0 \<Longrightarrow> n_type (m_arena (en_m e) ! i) = MTOK_ALT \<Longrightarrow> den e ic (n_a (m_arena (en_m e) ! i)) p q \<Longrightarrow> den e ic i p q"
| den_alt_right: "i \<noteq> 0 \<Longrightarrow> n_type (m_arena (en_m e) ! i) = MTOK_ALT \<Longrightarrow> den e ic (n_b (m_arena (en_m e) ! i)) p q \<Longrightarrow> den e ic i p q"
| den_group: "i \<noteq> 0 \<Longrightarrow> n_type (m_arena (en_m e) ! i) \<in> {MTOK_CAP, MTOK_ATOMIC} \<Longrightarrow> den e ic (n_a (m_arena (en_m e) ! i)) p q \<Longrightarrow> den e ic i p q"
| den_repeat: "i \<noteq> 0 \<Longrightarrow> n_type (m_arena (en_m e) ! i) = MTOK_REP \<Longrightarrow> den_rep e ic (n_a (m_arena (en_m e) ! i)) k p q \<Longrightarrow>
    n_min (m_arena (en_m e) ! i) \<le> k \<Longrightarrow> n_max (m_arena (en_m e) ! i) = 255 \<or> k \<le> n_max (m_arena (en_m e) ! i) \<Longrightarrow> den e ic i p q"
| den_rep_zero: "den_rep e ic a 0 p p"
| den_rep_step: "den_rep e ic a k p r \<Longrightarrow> den e ic a r q \<Longrightarrow> den_rep e ic a (Suc k) p q"

definition leaf_toks :: "match_tok set" where
  "leaf_toks = {MTOK_END, MTOK_CHAR, MTOK_CLASS, MTOK_ANY, MTOK_BOL, MTOK_EOL, MTOK_WB, MTOK_NWB}"

text \<open>No repetition below a node, looking at most \<open>k\<close> levels deep.\<close>

fun flat :: "matcher \<Rightarrow> nat \<Rightarrow> nat \<Rightarrow> bool" where
  "flat m 0 i = False"
| "flat m (Suc k) i =
     (i = 0 \<or>
      (case n_type (m_arena m ! i) of
         MTOK_REP \<Rightarrow> False
       | MTOK_SEQ \<Rightarrow> flat m k (n_a (m_arena m ! i)) \<and> flat m k (n_b (m_arena m ! i))
       | MTOK_ALT \<Rightarrow> flat m k (n_a (m_arena m ! i)) \<and> flat m k (n_b (m_arena m ! i))
       | MTOK_CAP \<Rightarrow> flat m k (n_a (m_arena m ! i))
       | MTOK_ATOMIC \<Rightarrow> flat m k (n_a (m_arena m ! i))
       | _ \<Rightarrow> True))"

definition plain_node :: "matcher \<Rightarrow> match_node \<Rightarrow> bool" where
  "plain_node m n \<longleftrightarrow>
     n_type n \<in> leaf_toks \<union> {MTOK_CAP, MTOK_SEQ, MTOK_ALT, MTOK_REP, MTOK_ATOMIC} \<and>
     (n_type n \<notin> {MTOK_SEQ, MTOK_ALT} \<longrightarrow> n_b n = 0) \<and> n_eflags n AND MEXEC_ICASE = 0 \<and>
     (n_type n = MTOK_REP \<longrightarrow> flat m (length (m_arena m)) (n_a n))"

definition plain :: "matcher \<Rightarrow> bool" where
  "plain m \<longleftrightarrow> (\<forall>n \<in> set (m_arena m). plain_node m n)"

section \<open>Soundness\<close>

definition sound :: "menv \<Rightarrow> match_ctx \<Rightarrow> nat \<Rightarrow> nat \<Rightarrow> mresult \<Rightarrow> bool" where
  "sound e c i pos res \<longleftrightarrow> (\<forall>r d. res = Some (r, d) \<longrightarrow> c_ic d = c_ic c \<and> (\<forall>q. r = Some q \<longrightarrow> den e (c_ic c) i pos q))"

definition keeps :: "match_ctx \<Rightarrow> mresult \<Rightarrow> bool" where
  "keeps c res \<longleftrightarrow> (\<forall>r d. res = Some (r, d) \<longrightarrow> c_path d = c_path c \<and> c_cpath d = c_cpath c)"

lemma keeps_fail [simp]: "keeps c (Some (r, d)) \<longleftrightarrow> c_path d = c_path c \<and> c_cpath d = c_cpath c"
  by (auto simp: keeps_def)

lemma keeps_None [simp]: "keeps c None"
  by (simp add: keeps_def)

lemma keeps_bind:
  assumes "keeps c res" "\<And>r d. c_path d = c_path c \<Longrightarrow> c_cpath d = c_cpath c \<Longrightarrow> keeps d (k r d)"
  shows "keeps c (res \<bind> (\<lambda>(r, d). k r d))"
proof (cases res)
  case (Some x)
  obtain r d where x: "x = (r, d)" by (cases x)
  then have "c_path d = c_path c" "c_cpath d = c_cpath c" using assms(1) Some by (auto simp: keeps_def)
  then show ?thesis using assms(2) [of d r] Some x by (simp add: keeps_def)
qed simp

lemma matchfind_0: "keeps c (matchfind e f c 0 p)" "sound e c 0 p (matchfind e f c 0 p)"
  by (cases f; auto simp: sound_def keeps_def intro: den_nothing)+

lemma seq_loop_keeps:
  assumes "\<And>c j q. j = 0 \<or> (\<exists>k. flat (en_m e) k j) \<Longrightarrow> keeps c (mf c j q)" "flat (en_m e) k i"
  shows "keeps c (seq_loop e mf m c i pos)"
  using assms(2)
proof (induction m arbitrary: c i k pos)
  case (Suc m)
  show ?case
  proof (cases "i = 0 \<or> i \<ge> length (m_arena (en_m e)) \<or> n_type (m_arena (en_m e) ! i) \<noteq> MTOK_SEQ")
    case True
    then show ?thesis using assms(1) Suc.prems by (auto simp: Let_def)
  next
    case False
    then obtain k' where k: "flat (en_m e) k' (n_a (m_arena (en_m e) ! i))" "flat (en_m e) k' (n_b (m_arena (en_m e) ! i))"
      using Suc.prems by (cases k) auto
    have "keeps d (seq_loop e mf m d 0 q)" for d q using Suc.IH [of 1 0 d q] by simp
    moreover have "keeps d (seq_loop e mf m (d\<lparr>c_ic := x\<rparr>) (n_b (m_arena (en_m e) ! i)) q)" for d x q
      using Suc.IH [OF k(2), of "d\<lparr>c_ic := x\<rparr>" q] by (simp add: keeps_def)
    moreover have "keeps d (seq_loop e mf m d (n_b (m_arena (en_m e) ! i)) q)" for d q using Suc.IH [OF k(2)] .
    moreover have "keeps c (mf c (n_a (m_arena (en_m e) ! i)) pos)" using assms(1) k(1) by blast
    ultimately show ?thesis using False
      by (simp add: Let_def) (rule keeps_bind, assumption, auto split: option.split)
  qed
qed simp

lemma matchfind_keeps: "plain (en_m e) \<Longrightarrow> flat (en_m e) k i \<Longrightarrow> keeps c (matchfind e f c i pos)"
proof (induction f arbitrary: k c i pos)
  case (Suc f)
  let ?n = "m_arena (en_m e) ! i" and ?c = "c\<lparr>c_depth := c_depth c + 1\<rparr>"
  show ?case
  proof (cases "c_depth c + 1 > MATCH_MAX_DEPTH \<or> i = 0 \<or> i \<ge> length (m_arena (en_m e))")
    case True
    then show ?thesis by (auto simp: keeps_def)
  next
    case False
    have pn: "plain_node (en_m e) ?n" using Suc.prems(1) False by (simp add: plain_def)
    have IH: "keeps c (matchfind e f c j q)" if "j = 0 \<or> (\<exists>k. flat (en_m e) k j)" for c j q
      using Suc.IH Suc.prems(1) that matchfind_0(1) by blast
    have fl: "n_type ?n \<noteq> MTOK_REP" "n_type ?n \<in> {MTOK_CAP, MTOK_ATOMIC, MTOK_SEQ, MTOK_ALT} \<Longrightarrow> \<exists>k. flat (en_m e) k (n_a ?n)"
      "n_type ?n \<in> {MTOK_SEQ, MTOK_ALT} \<Longrightarrow> \<exists>k. flat (en_m e) k (n_b ?n)"
      using Suc.prems(2) False by (cases k; auto)+
    have "keeps ?c (dispatch_node e (matchfind e f) ?c i ?n pos)"
    proof (cases "n_type ?n \<in> {MTOK_CAP, MTOK_ATOMIC, MTOK_SEQ, MTOK_ALT}")
      case True
      have "keeps ?c (prim_SEQ e (matchfind e f) ?c i pos)" unfolding prim_SEQ_def using IH Suc.prems(2) by (rule seq_loop_keeps)
      moreover have "keeps ?c (prim_ALT e (matchfind e f) ?c ?n pos)" if "n_type ?n = MTOK_ALT"
        unfolding prim_ALT_def Let_def using that fl(2,3) IH [of "n_a ?n" ?c pos] IH [of "n_b ?n" "_\<lparr>c_caps := c_caps c\<rparr>" pos]
        by (intro keeps_bind) (auto split: option.split simp: keeps_def)
      moreover have "keeps ?c (prim_ATOMIC e (matchfind e f) ?c ?n pos)" if "n_type ?n = MTOK_ATOMIC"
        unfolding prim_ATOMIC_def using that fl(2) IH [of "n_a ?n" ?c pos] pn
        by (intro keeps_bind) (auto split: option.split simp: plain_node_def)
      moreover have "keeps ?c (prim_CAP e (matchfind e f) ?c ?n pos)" if "n_type ?n = MTOK_CAP"
      proof -
        have a: "keeps ?c (matchfind e f (?c\<lparr>c_caps := x\<rparr>) (n_a ?n) pos)" for x
          using that fl(2) IH [of "n_a ?n" "?c\<lparr>c_caps := x\<rparr>" pos] by (simp add: keeps_def)
        have b: "keeps d (matchfind e f (d\<lparr>c_caps := x\<rparr>) 0 q)" for d x q
          using matchfind_0(1) [of "d\<lparr>c_caps := x\<rparr>" e f q] by (simp add: keeps_def)
        have "n_b ?n = 0" using pn that by (simp add: plain_node_def)
        then show ?thesis unfolding prim_CAP_def Let_def using a b
          by (auto intro!: keeps_bind split: option.split)
      qed
      ultimately show ?thesis using True by (auto simp: dispatch_node_def)
    next
      case F: False
      then have "n_type ?n \<in> leaf_toks" "n_b ?n = 0" using pn fl(1) by (auto simp: plain_node_def)
      then show ?thesis using matchfind_0(1)
        by (auto simp: leaf_toks_def dispatch_node_def prim_CHAR_def prim_CLASS_def prim_ANY_def prim_BOL_def prim_EOL_def prim_WB_def Let_def
            split: prod.split)
    qed
    then show ?thesis using False by (simp add: keeps_def)
  qed
qed simp

inductive_cases den_nothingE: "den e ic 0 p q"

lemma sound_fail [simp]: "sound e c i pos (Some (None, d)) \<longleftrightarrow> c_ic d = c_ic c"
  by (simp add: sound_def)

lemma sound_bind:
  assumes "res = None \<or> (\<exists>r d. res = Some (r, d) \<and> c_ic d = c_ic c \<and> sound e d i pos (k r d))"
  shows "sound e c i pos (res \<bind> (\<lambda>(r, d). k r d))"
  using assms by (auto simp: sound_def)

locale sound_engine = engine +
  assumes mf_sound: "wf_env e \<Longrightarrow> plain (en_m e) \<Longrightarrow> ctx_ok e c \<Longrightarrow> D \<le> c_depth c \<Longrightarrow> i < length (m_arena (en_m e)) \<Longrightarrow>
      pos \<le> en_len e \<Longrightarrow> sound e c i pos (mf c i pos)"
    and mf_keeps: "plain (en_m e) \<Longrightarrow> flat (en_m e) k i \<Longrightarrow> keeps c (mf c i pos)"
begin

text \<open>One call: what safety, soundness and the workspace lemma say of it together.\<close>

lemma mf_step:
  assumes "wf_env e" "plain (en_m e)" "ctx_ok e c" "D \<le> c_depth c" "i < length (m_arena (en_m e))" "pos \<le> en_len e"
  shows "\<exists>r d. mf c i pos = Some (r, d) \<and> ctx_ok e d \<and> D \<le> c_depth d \<and> c_ic d = c_ic c \<and>
    (\<forall>q. r = Some q \<longrightarrow> q \<le> en_len e \<and> den e (c_ic c) i pos q)"
proof -
  have "post e c (mf c i pos)" using assms by (intro mf_post)
  then obtain r d where d: "mf c i pos = Some (r, d)" "ctx_ok e d" "ext c d" "\<forall>q. r = Some q \<longrightarrow> q \<le> en_len e" by (auto simp: post_def)
  moreover have "sound e c i pos (mf c i pos)" using assms by (intro mf_sound)
  ultimately show ?thesis using assms(4) by (auto simp: sound_def ext_def)
qed

lemma mf_zero:
  assumes "wf_env e" "plain (en_m e)" "ctx_ok e c" "D \<le> c_depth c" "pos \<le> en_len e"
  shows "\<exists>r d. mf c 0 pos = Some (r, d) \<and> c_ic d = c_ic c \<and> (\<forall>q. r = Some q \<longrightarrow> q = pos)"
proof -
  have "0 < length (m_arena (en_m e))" using assms(1) by (auto simp: wf_env_def wf_matcher_def)
  then show ?thesis using mf_step [OF assms(1-4) _ assms(5), of 0] den_nothingE by blast
qed

lemma leaf_sound:
  assumes "wf_env e" "plain (en_m e)" "ctx_ok e c" "D \<le> c_depth c" "i \<noteq> 0" "i < length (m_arena (en_m e))" "pos \<le> en_len e"
    "n_type (m_arena (en_m e) ! i) \<in> leaf_toks"
  shows "sound e c i pos (dispatch_node e mf c i (m_arena (en_m e) ! i) pos)"
proof -
  let ?n = "m_arena (en_m e) ! i"
  have b: "n_b ?n = 0" using assms(2,6,8) by (auto simp: plain_def plain_node_def leaf_toks_def)
  have to: "sound e c i pos (mf c (n_b ?n) q)" if lm: "leaf_match e (c_ic c) ?n (n_type ?n) pos q" and le: "q \<le> en_len e" for q
  proof -
    obtain r d where rd: "mf c 0 q = Some (r, d)" "c_ic d = c_ic c" "\<forall>p. r = Some p \<longrightarrow> p = q"
      using mf_zero [OF assms(1-4) le] by blast
    have "den e (c_ic c) i pos q" using assms(5) lm by (intro den_leaf)
    then show ?thesis using b rd by (auto simp: sound_def)
  qed
  have asc: "match_utf8_next (en_s e) (en_len e) pos = (ucast (en_s e ! pos), pos + 1)" if "pos < en_len e" "en_s e ! pos < 0x80"
    using that by (simp add: match_utf8_next_def)
  have cc: "class_char e pos = match_utf8_next (en_s e) (en_len e) pos" if "pos < en_len e"
    using asc that by (auto simp: class_char_def)
  have bd: "snd (match_utf8_next (en_s e) (en_len e) pos) \<le> en_len e" if "pos < en_len e"
    using match_utf8_next_bounds [OF that] by auto
  have bs: "skip_cont (en_s e) (en_len e) (Suc pos) \<le> en_len e" if "pos < en_len e"
    using skip_cont_bounds [of "Suc pos" "en_len e" "en_s e"] that by auto
  have "sound e c i pos (prim_CHAR e mf c ?n pos)" if t: "n_type ?n = MTOK_CHAR"
    using to asc bd unfolding prim_CHAR_def t by (auto split: prod.split)
  moreover have "sound e c i pos (prim_CLASS e mf c ?n pos)" if t: "n_type ?n = MTOK_CLASS"
    using to cc bd unfolding prim_CLASS_def t by (auto split: prod.split)
  moreover have "sound e c i pos (prim_ANY e mf c ?n pos)" if t: "n_type ?n = MTOK_ANY"
    using to bs unfolding prim_ANY_def t by auto
  moreover have "sound e c i pos (prim_BOL e mf c ?n pos)" if t: "n_type ?n = MTOK_BOL"
    using to assms(7) unfolding prim_BOL_def t by auto
  moreover have "sound e c i pos (prim_EOL e mf c ?n pos)" if t: "n_type ?n = MTOK_EOL"
    using to assms(7) unfolding prim_EOL_def t by auto
  moreover have "sound e c i pos (prim_WB e mf c ?n pos False)" if t: "n_type ?n = MTOK_WB"
    using to [of pos] assms(7) unfolding prim_WB_def t Let_def by auto
  moreover have "sound e c i pos (prim_WB e mf c ?n pos True)" if t: "n_type ?n = MTOK_NWB"
    using to [of pos] assms(7) unfolding prim_WB_def t Let_def by auto
  moreover have "sound e c i pos (Some (Some pos, c))" if t: "n_type ?n = MTOK_END"
    using assms(5) t by (auto simp: sound_def intro: den_leaf)
  ultimately show ?thesis using assms(8) by (auto simp: leaf_toks_def dispatch_node_def)
qed

lemma seq_loop_sound:
  assumes "wf_env e" "plain (en_m e)" "ctx_ok e c" "D \<le> c_depth c" "i < length (m_arena (en_m e))" "pos \<le> en_len e"
  shows "sound e c i pos (seq_loop e mf k c i pos)"
  using assms(3-)
proof (induction k arbitrary: c i pos)
  case (Suc k)
  let ?n = "m_arena (en_m e) ! i"
  show ?case
  proof (cases "i = 0 \<or> n_type ?n \<noteq> MTOK_SEQ")
    case True
    then show ?thesis using Suc.prems assms(1,2) mf_sound by (auto simp: Let_def)
  next
    case False
    have w: "n_a ?n < length (m_arena (en_m e))" "n_b ?n < length (m_arena (en_m e))"
      using assms(1) Suc.prems(3) by (auto simp: wf_env_def wf_matcher_def wf_node_def)
    have ic: "n_eflags (m_arena (en_m e) ! n_b ?n) AND MEXEC_ICASE = 0" using assms(2) w(2) by (auto simp: plain_def plain_node_def)
    obtain r d where d: "mf c (n_a ?n) pos = Some (r, d)" "ctx_ok e d" "D \<le> c_depth d" "c_ic d = c_ic c"
      "\<forall>q. r = Some q \<longrightarrow> q \<le> en_len e \<and> den e (c_ic c) (n_a ?n) pos q"
      using mf_step [OF assms(1,2) Suc.prems(1,2) w(1) Suc.prems(4)] by blast
    show ?thesis
    proof (cases "r \<noteq> None \<and> c_err d = M_SUCCESS")
      case True
      then obtain q where q: "r = Some q" by auto
      have "sound e d (n_b ?n) q (seq_loop e mf k d (n_b ?n) q)" using Suc.IH [OF d(2,3) w(2)] d(5) q by simp
      then have "sound e c i pos (seq_loop e mf k d (n_b ?n) q)"
        using d(4) d(5) q False by (auto simp: sound_def intro: den_seq)
      then show ?thesis using False Suc.prems w d(1) ic q True by (cases "n_b ?n = 0") (simp_all add: Let_def)
    qed (use False Suc.prems d in \<open>auto simp: Let_def split: option.split\<close>)
  qed
qed (simp add: sound_def)

lemma group_sound:
  assumes "wf_env e" "plain (en_m e)" "ctx_ok e c" "D \<le> c_depth c" "i \<noteq> 0" "i < length (m_arena (en_m e))" "pos \<le> en_len e"
  shows "n_type (m_arena (en_m e) ! i) = MTOK_CAP \<Longrightarrow> sound e c i pos (prim_CAP e mf c (m_arena (en_m e) ! i) pos)"
    and "n_type (m_arena (en_m e) ! i) = MTOK_ATOMIC \<Longrightarrow> sound e c i pos (prim_ATOMIC e mf c (m_arena (en_m e) ! i) pos)"
proof -
  let ?n = "m_arena (en_m e) ! i"
  have w: "n_a ?n < length (m_arena (en_m e))" using assms(1,6) by (auto simp: wf_env_def wf_matcher_def wf_node_def)
  { assume t: "n_type ?n = MTOK_CAP"
    then have b: "n_b ?n = 0" using assms(2,6) by (auto simp: plain_def plain_node_def)
    let ?i = "n_cap ?n * 2"
    show "sound e c i pos (prim_CAP e mf c ?n pos)"
    proof (cases "?i + 1 \<ge> MATCH_MAX_GROUPS * 2")
      case True
      then show ?thesis by (simp add: prim_CAP_def Let_def)
    next
      case False
      let ?c = "c\<lparr>c_caps := (c_caps c)[?i := int pos]\<rparr>"
      have "ctx_ok e ?c" using assms(3,7) by (intro ctx_ok_caps caps_ok_update) (auto simp: ctx_ok_capsD)
      then obtain r d where d: "mf ?c (n_a ?n) pos = Some (r, d)" "ctx_ok e d" "D \<le> c_depth d" "c_ic d = c_ic c"
        "\<forall>q. r = Some q \<longrightarrow> q \<le> en_len e \<and> den e (c_ic c) (n_a ?n) pos q"
        using mf_step [OF assms(1,2) _ _ w assms(7), of ?c] assms(4) by auto
      have tail: "sound e c i pos (mf (d\<lparr>c_caps := (c_caps d)[?i + 1 := int q]\<rparr>) 0 q \<bind>
          (\<lambda>(res, c'). Some (res, if res = None then c'\<lparr>c_caps := (c_caps c')[?i := x, ?i + 1 := y]\<rparr> else c')))" if q: "r = Some q" for q x y
      proof -
        have dq: "q \<le> en_len e" "den e (c_ic c) (n_a ?n) pos q" using d(5) q by auto
        then have "ctx_ok e (d\<lparr>c_caps := (c_caps d)[?i + 1 := int q]\<rparr>)" using d(2) by (intro ctx_ok_caps caps_ok_update) (auto simp: ctx_ok_capsD)
        then obtain r' d' where "mf (d\<lparr>c_caps := (c_caps d)[?i + 1 := int q]\<rparr>) 0 q = Some (r', d')" "c_ic d' = c_ic c" "\<forall>p. r' = Some p \<longrightarrow> p = q"
          using mf_zero [OF assms(1,2), of "d\<lparr>c_caps := (c_caps d)[?i + 1 := int q]\<rparr>" q] d(3,4) dq(1) by auto
        moreover have "den e (c_ic c) i pos q" using den_group [OF assms(5) _ dq(2)] t by simp
        ultimately show ?thesis by (auto simp: sound_def)
      qed
      show ?thesis
      proof (cases "r = None \<or> c_err d \<noteq> M_SUCCESS")
        case True
        then show ?thesis using False d(1,4) by (auto simp: prim_CAP_def Let_def split: option.split)
      next
        case ok: False
        then obtain q where q: "r = Some q" by auto
        show ?thesis using False d(1) b ok q tail [OF q] by (simp add: prim_CAP_def Let_def del: One_nat_def add_Suc_right)
      qed
    qed }
  { assume t: "n_type ?n = MTOK_ATOMIC"
    then have b: "n_b ?n = 0" using assms(2,6) by (auto simp: plain_def plain_node_def)
    obtain r d where d: "mf c (n_a ?n) pos = Some (r, d)" "c_ic d = c_ic c" "\<forall>q. r = Some q \<longrightarrow> den e (c_ic c) (n_a ?n) pos q"
      using mf_step [OF assms(1-4) w assms(7)] by blast
    then have "\<forall>q. r = Some q \<longrightarrow> den e (c_ic c) i pos q" using den_group [OF assms(5)] t by simp
    then show "sound e c i pos (prim_ATOMIC e mf c ?n pos)"
      using d b by (auto simp: prim_ATOMIC_def sound_def split: option.splits if_splits) }
qed

lemma prim_ALT_sound:
  assumes "wf_env e" "plain (en_m e)" "ctx_ok e c" "D \<le> c_depth c" "i \<noteq> 0" "i < length (m_arena (en_m e))" "pos \<le> en_len e"
    "n_type (m_arena (en_m e) ! i) = MTOK_ALT"
  shows "sound e c i pos (prim_ALT e mf c (m_arena (en_m e) ! i) pos)"
proof -
  let ?n = "m_arena (en_m e) ! i"
  have w: "n_a ?n < length (m_arena (en_m e))" "n_b ?n < length (m_arena (en_m e))"
    using assms(1,6) by (auto simp: wf_env_def wf_matcher_def wf_node_def)
  obtain r d where d: "mf c (n_a ?n) pos = Some (r, d)" "ctx_ok e d" "D \<le> c_depth d" "c_ic d = c_ic c"
    "\<forall>q. r = Some q \<longrightarrow> den e (c_ic c) (n_a ?n) pos q" using mf_step [OF assms(1-4) w(1) assms(7)] by blast
  let ?d = "d\<lparr>c_caps := c_caps c\<rparr>"
  have "ctx_ok e ?d" using d(2) assms(3) by (intro ctx_ok_caps ctx_ok_capsD)
  then have "sound e ?d (n_b ?n) pos (mf ?d (n_b ?n) pos)" using assms(1,2,7) w d(3) by (intro mf_sound) auto
  then have "sound e c i pos (mf ?d (n_b ?n) pos)" using d(4) assms(5,8) by (auto simp: sound_def intro: den_alt_right)
  then show ?thesis using d assms(5,8) by (auto simp: prim_ALT_def Let_def sound_def intro: den_alt_left split: option.split)
qed

lemma rep_loop_sound:
  assumes "wf_env e" "plain (en_m e)" "ctx_ok e c" "D \<le> c_depth c" "n_a n < length (m_arena (en_m e))"
    "flat (en_m e) f (n_a n)" "k + r = 254" "n_max n = 255 \<or> k \<le> n_max n"
    "\<forall>j \<le> k. \<exists>p. c_path c ! j = Some p \<and> den_rep e (c_ic c) (n_a n) j pos p" "rep_loop mf n r k c = Some (k', c')"
  shows "c_ic c' = c_ic c \<and> k' \<le> 254 \<and> (n_max n = 255 \<or> k' \<le> n_max n) \<and>
    (\<forall>j \<le> k'. \<exists>p. c_path c' ! j = Some p \<and> den_rep e (c_ic c) (n_a n) j pos p)"
  using assms(3,4,7-)
proof (induction r arbitrary: c k)
  case 0
  then show ?case by simp
next
  case (Suc r)
  let ?c = "c\<lparr>c_cpath := (c_cpath c)[k + 1 := Some (c_caps c)]\<rparr>"
  obtain p where p: "c_path c ! k = Some p" "den_rep e (c_ic c) (n_a n) k pos p" using Suc.prems(5) by auto
  have pl: "p \<le> en_len e" using ctx_ok_pathD [OF Suc.prems(1) _ p(1)] Suc.prems(3) by simp
  have "ctx_ok e ?c" using Suc.prems(1) by (intro ctx_ok_cpath ctx_ok_capsD)
  then obtain res d where d: "mf ?c (n_a n) p = Some (res, d)" "ctx_ok e d" "D \<le> c_depth d" "c_ic d = c_ic c"
    "\<forall>q. res = Some q \<longrightarrow> q \<le> en_len e \<and> den e (c_ic c) (n_a n) p q"
    using mf_step [OF assms(1,2) _ _ assms(5) pl, of ?c] Suc.prems(2) by auto
  have pd: "c_path d = c_path c" using mf_keeps [OF assms(2,6), of ?c p] d(1) by simp
  note eq = Suc.prems(6) [unfolded rep_loop.simps]
  show ?case
  proof (cases "(n_max n = 255 \<or> k < n_max n) \<and> (\<exists>q. res = Some q \<and> q \<noteq> p)")
    case False
    then have "k' = k" "c_ic c' = c_ic c" "c_path c' = c_path c" using eq p(1) d(1,4) pd by (auto split: if_splits option.splits)
    then show ?thesis using Suc.prems(3,4,5) by simp
  next
    case True
    then obtain q where q: "res = Some q" "q \<noteq> p" "q \<le> en_len e" "den e (c_ic c) (n_a n) p q" using d(5) by auto
    let ?d = "d\<lparr>c_path := (c_path d)[k + 1 := Some q], c_cpath := (c_cpath d)[k + 1 := Some (c_caps d)]\<rparr>"
    have l: "length (c_path c) = 255" using Suc.prems(1) by (simp add: ctx_ok_def)
    have "ctx_ok e (d\<lparr>c_path := (c_path d)[k + 1 := Some q]\<rparr>)" using ctx_ok_path [OF d(2) q(3)] .
    then have ok: "ctx_ok e ?d" using ctx_ok_cpath [of e "d\<lparr>c_path := (c_path d)[k + 1 := Some q]\<rparr>" "c_caps d" "k + 1"] d(2)
      by (simp add: ctx_ok_capsD)
    have "den_rep e (c_ic c) (n_a n) (Suc k) pos q" using p(2) q(4) by (rule den_rep_step)
    then have init: "\<forall>j \<le> k + 1. \<exists>p. c_path ?d ! j = Some p \<and> den_rep e (c_ic ?d) (n_a n) j pos p"
      using Suc.prems(3,5) l pd d(4) by (auto simp: nth_list_update le_Suc_eq)
    have "rep_loop mf n r (k + 1) ?d = Some (k', c')" using eq p(1) d(1) pd q True by auto
    then show ?thesis using Suc.IH [OF ok _ _ _ init] d(3,4) Suc.prems(3) True by auto
  qed
qed

lemma prim_REP_sound:
  assumes "wf_env e" "plain (en_m e)" "ctx_ok e c" "D \<le> c_depth c" "i \<noteq> 0" "i < length (m_arena (en_m e))" "pos \<le> en_len e"
    "n_type (m_arena (en_m e) ! i) = MTOK_REP"
  shows "sound e c i pos (prim_REP e mf c (m_arena (en_m e) ! i) pos)"
proof -
  let ?n = "m_arena (en_m e) ! i"
  let ?c = "c\<lparr>c_path := (c_path c)[0 := Some pos], c_cpath := (c_cpath c)[0 := Some (c_caps c)]\<rparr>"
  have w: "n_a ?n < length (m_arena (en_m e))" using assms(1,6) by (auto simp: wf_env_def wf_matcher_def wf_node_def)
  have b: "n_b ?n = 0" "flat (en_m e) (length (m_arena (en_m e))) (n_a ?n)" using assms(2,6,8) by (auto simp: plain_def plain_node_def)
  have l: "length (c_path c) = 255" using assms(3) by (simp add: ctx_ok_def)
  have "ctx_ok e (c\<lparr>c_path := (c_path c)[0 := Some pos]\<rparr>)" using assms(3,7) by (rule ctx_ok_path)
  then have ok: "ctx_ok e ?c" using ctx_ok_cpath [of e "c\<lparr>c_path := (c_path c)[0 := Some pos]\<rparr>" "c_caps c" 0] assms(3)
    by (simp add: ctx_ok_capsD)
  have init: "\<forall>j \<le> 0. \<exists>p. c_path ?c ! j = Some p \<and> den_rep e (c_ic ?c) (n_a ?n) j pos p" using l by (auto intro: den_rep_zero)
  have try_sound: "sound e c i pos (rep_try mf ?n is d)"
    if "c_ic d = c_ic c" "\<forall>j \<in> set is. \<exists>p. c_path d ! j = Some p \<and> den e (c_ic c) i pos p" for "is" d
    using that by (cases "is") (auto simp: b(1) sound_def Let_def bind_eq_Some_conv)
  show ?thesis
  proof (cases "rep_loop mf ?n 254 0 ?c")
    case None
    then show ?thesis by (simp add: prim_REP_def MATCH_MAX_BACKTRACK_def sound_def del: rep_loop.simps)
  next
    case (Some x)
    obtain k d where x: "x = (k, d)" by (cases x)
    have R: "c_ic d = c_ic c" "n_max ?n = 255 \<or> k \<le> n_max ?n" "\<forall>j \<le> k. \<exists>p. c_path d ! j = Some p \<and> den_rep e (c_ic c) (n_a ?n) j pos p"
      using rep_loop_sound [OF assms(1,2) ok _ w b(2) _ _ init Some [unfolded x]] assms(4) by auto
    have "\<exists>p. c_path d ! j = Some p \<and> den e (c_ic c) i pos p" if j: "n_min ?n \<le> j" "j \<le> k" for j
    proof -
      obtain p where "c_path d ! j = Some p" "den_rep e (c_ic c) (n_a ?n) j pos p" using R(3) j(2) by auto
      moreover have "n_max ?n = 255 \<or> j \<le> n_max ?n" using R(2) j(2) by auto
      ultimately show ?thesis using den_repeat [OF assms(5,8) _ j(1)] by blast
    qed
    then have "sound e c i pos (rep_try mf ?n (if n_lazy ?n then [n_min ?n..<Suc k] else rev [n_min ?n..<Suc k]) d)"
      by (intro try_sound R(1)) auto
    then show ?thesis using Some x by (simp add: prim_REP_def MATCH_MAX_BACKTRACK_def del: rep_loop.simps upt_Suc)
  qed
qed

lemma dispatch_node_sound:
  assumes "wf_env e" "plain (en_m e)" "ctx_ok e c" "D \<le> c_depth c" "i \<noteq> 0" "i < length (m_arena (en_m e))" "pos \<le> en_len e"
  shows "sound e c i pos (dispatch_node e mf c i (m_arena (en_m e) ! i) pos)"
proof -
  let ?n = "m_arena (en_m e) ! i"
  have "n_type ?n \<in> leaf_toks \<union> {MTOK_CAP, MTOK_SEQ, MTOK_ALT, MTOK_REP, MTOK_ATOMIC}"
    using assms(2,6) by (auto simp: plain_def plain_node_def)
  then show ?thesis
    using leaf_sound [OF assms] group_sound [OF assms] prim_ALT_sound [OF assms] prim_REP_sound [OF assms]
      seq_loop_sound [OF assms(1-4,6,7), of "Suc (Suc i)"]
    by (auto simp: dispatch_node_def prim_SEQ_def simp del: seq_loop.simps)
qed

end

lemma matchfind_sound_engine: "sound_engine e (matchfind e (Suc f)) (MATCH_MAX_DEPTH - f)"
proof (induction f)
  case 0
  show ?case
  proof (rule sound_engine.intro [OF matchfind_engine], unfold_locales)
    show "keeps c (matchfind e (Suc 0) c i pos)" if "plain (en_m e)" "flat (en_m e) k i" for k i c pos using that by (rule matchfind_keeps)
  qed (auto simp: sound_def)
next
  case (Suc f)
  show ?case
  proof (rule sound_engine.intro [OF matchfind_engine], unfold_locales)
    show "keeps c (matchfind e (Suc (Suc f)) c i pos)" if "plain (en_m e)" "flat (en_m e) k i" for k i c pos using that by (rule matchfind_keeps)
  next
    fix c i pos
    assume a: "wf_env e" "plain (en_m e)" "ctx_ok e c" "MATCH_MAX_DEPTH - Suc f \<le> c_depth c" "i < length (m_arena (en_m e))" "pos \<le> en_len e"
    show "sound e c i pos (matchfind e (Suc (Suc f)) c i pos)"
    proof (cases "c_depth c + 1 > MATCH_MAX_DEPTH \<or> i = 0")
      case True
      then show ?thesis using matchfind_0(2) [of e c pos "Suc (Suc f)"] by (auto simp del: matchfind.simps simp: matchfind.simps(2) [of e "Suc f"])
    next
      case False
      let ?c = "c\<lparr>c_depth := c_depth c + 1\<rparr>"
      have "sound e ?c i pos (dispatch_node e (matchfind e (Suc f)) ?c i (m_arena (en_m e) ! i) pos)"
        using a False by (intro sound_engine.dispatch_node_sound [OF Suc.IH]) auto
      then show ?thesis using False a(5) by (simp add: sound_def del: matchfind.simps(2) add: matchfind.simps(2) [of e "Suc f"])
    qed
  qed
qed

interpretation matcher_sound: sound_engine e "matchfind e (Suc MATCH_MAX_DEPTH)" 0 for e
  using matchfind_sound_engine [of e MATCH_MAX_DEPTH] by simp

section \<open>Searches\<close>

lemma den_mono:
  "den e ic i p q \<Longrightarrow> p \<le> en_len e \<Longrightarrow> p \<le> q \<and> q \<le> en_len e"
  "den_rep e ic a k p q \<Longrightarrow> p \<le> en_len e \<Longrightarrow> p \<le> q \<and> q \<le> en_len e"
proof (induction rule: den_den_rep.inducts)
  case (den_leaf i p q)
  have "p < en_len e \<Longrightarrow> p < snd (match_utf8_next (en_s e) (en_len e) p) \<and> snd (match_utf8_next (en_s e) (en_len e) p) \<le> en_len e"
    using match_utf8_next_bounds .
  moreover have "p < en_len e \<Longrightarrow> Suc p \<le> skip_cont (en_s e) (en_len e) (Suc p) \<and> skip_cont (en_s e) (en_len e) (Suc p) \<le> en_len e"
    using skip_cont_bounds [of "Suc p"] by simp
  ultimately show ?case using den_leaf
    by (cases "n_type (m_arena (en_m e) ! i)") (auto split: prod.splits if_splits)
qed auto

lemma exec_loop_sound:
  assumes "wf_env e" "plain (en_m e)" "ctx_ok e c" "exec_loop e anchored nm st c = Some (er, Some ms)"
  shows "\<exists>so eo rest. ms = (int so, int eo) # rest \<and> so \<le> en_len e \<and> den e (c_ic c) (m_root (en_m e)) so eo"
  using assms(3,4)
proof (induction "Suc (en_len e) - st" arbitrary: st c rule: less_induct)
  case less
  let ?c = "c\<lparr>c_caps := replicate (MATCH_MAX_GROUPS * 2) (- 1)\<rparr>"
  have st: "st \<le> en_len e" "\<not> c_depth c > MATCH_MAX_DEPTH"
    using less.prems(2) by (auto simp: exec_loop.simps [of e anchored nm st c] split: if_splits)
  have ok: "ctx_ok e ?c" using less.prems(1) by (rule ctx_ok_caps) (simp add: caps_ok_def MATCH_MAX_GROUPS_def)
  have rt: "m_root (en_m e) < length (m_arena (en_m e))" using assms(1) by (simp add: wf_env_def wf_matcher_def)
  obtain r d where d: "matchfind e (Suc MATCH_MAX_DEPTH) ?c (m_root (en_m e)) st = Some (r, d)" "ctx_ok e d" "c_ic d = c_ic c"
    "\<forall>q. r = Some q \<longrightarrow> den e (c_ic c) (m_root (en_m e)) st q"
    using matcher_sound.mf_step [OF assms(1,2) ok _ rt st(1)] by auto
  note eq = less.prems(2) [unfolded exec_loop.simps [of e anchored nm st c]]
  show ?case
  proof (cases r)
    case None
    then have nx: "exec_loop e anchored nm (Suc st) d = Some (er, Some ms)" using eq st d(1) by (auto split: if_splits)
    have "Suc (en_len e) - Suc st < Suc (en_len e) - st" using st by simp
    then show ?thesis using less.hyps [OF _ d(2) nx] d(3) by simp
  next
    case (Some q)
    then have "\<exists>rest. ms = (int st, int q) # rest" using eq st d(1) by (auto simp: store_matches_def split: if_splits)
    then show ?thesis using d(4) Some st(1) by blast
  qed
qed

lemma plain_refs: "plain m \<Longrightarrow> small_refs m \<and> \<not> looks_back m"
  by (auto simp: plain_def plain_node_def leaf_toks_def small_refs_def looks_back_def)

text \<open>
  C6: A reported match is a match: when \<^verbatim>\<open>matchexec\<close> answers with offsets for a plain pattern, the first pair is an interval of the subject that the
  regular expression of the pattern matches.
\<close>

theorem matchexec_sound:
  assumes "wf_matcher m" "plain m" "matchexec l m s past nm fl = Some (er, Some ms)"
  shows "\<exists>so eo rest. ms = (int so, int eo) # rest \<and> so \<le> eo \<and> eo \<le> length s \<and>
    den (match_env l m s past fl) (c_ic (match_start m fl)) (m_root m) so eo"
proof -
  let ?e = "match_env l m s past fl"
  have w: "wf_env ?e" using assms(1) plain_refs [OF assms(2)] by (simp add: wf_env_def match_env_def)
  have p: "plain (en_m ?e)" using assms(2) by (simp add: match_env_def)
  obtain g anchored where "exec_loop ?e anchored nm g (match_start m fl) = Some (er, Some ms)"
    using assms(3) by (auto simp: matchexec_def Let_def split: if_splits option.splits)
  then obtain so eo rest where "ms = (int so, int eo) # rest" "so \<le> en_len ?e" "den ?e (c_ic (match_start m fl)) (m_root (en_m ?e)) so eo"
    using exec_loop_sound [OF w p match_start_ok] by blast
  then show ?thesis using den_mono(1) [of ?e _ _ so eo] by (auto simp: match_env_def)
qed

lemma demo_plain: "plain demo_matcher"
  by code_simp

theorem matchexec_sound_witness:
  "\<exists>so eo rest. [(1, 4)] = (int so, int eo) # rest \<and> so \<le> eo \<and> eo \<le> length [120, 97, 97, 98 :: byte] \<and>
    den (match_env c_locale demo_matcher [120, 97, 97, 98] (Some 0) 0) (c_ic (match_start demo_matcher 0)) (m_root demo_matcher) so eo"
  using matchexec_sound [OF demo_wf(1) demo_plain demo_run] .

end
