(* ===== verification/Regex.thy ===== *)
theory Regex
  imports MatchWf MatchLang
begin

text \<open>
  \<^verbatim>\<open>include/regex.h\<close>: the POSIX, PCRE2 and RE2 interfaces over the compiler and the matcher, and what they add up to.

  Pointers that may be null are options, \<^verbatim>\<open>pm\<close> is the number of its entries.  The subject of \<^verbatim>\<open>regexec\<close> is a C string, so the byte at its
  end is the terminator; the other interfaces take a length, and \<open>past\<close> is the byte after it, if there is one.  An outer \<open>None\<close> is a step C
  does not define.
\<close>

unbundle bit_operations_syntax

section \<open>Flags\<close>

definition REG_EXTENDED :: u32 where "REG_EXTENDED = 0x0001"
definition REG_PCRE2 :: u32 where "REG_PCRE2 = 0x0002"
definition REG_RE2 :: u32 where "REG_RE2 = 0x0004"
definition REG_ICASE :: u32 where "REG_ICASE = 0x0010"
definition REG_NEWLINE :: u32 where "REG_NEWLINE = 0x0020"
definition REG_NOTBOL :: u32 where "REG_NOTBOL = 0x0040"
definition REG_NOTEOL :: u32 where "REG_NOTEOL = 0x0080"
definition REG_DOTALL :: u32 where "REG_DOTALL = 0x0100"
definition REG_NOSUB :: u32 where "REG_NOSUB = 0x0200"
definition REG_UTF :: u32 where "REG_UTF = 0x0400"
definition REG_UCP :: u32 where "REG_UCP = 0x0800"

definition MCOMP_RE2 :: u32 where
  "MCOMP_RE2 = MCOMP_ANCHOR OR MCOMP_ALTERN OR MCOMP_QUANT OR MCOMP_ESCAPE OR MCOMP_BOUNDARY"
definition MCOMP_BASIC :: u32 where
  "MCOMP_BASIC = MCOMP_RE2 OR MCOMP_CAPTURE OR MCOMP_BACKREF OR MCOMP_UNGREEDY"
definition MCOMP_EXTENDED :: u32 where
  "MCOMP_EXTENDED = MCOMP_RE2 OR MCOMP_CAPTURE OR MCOMP_UNGREEDY"
definition MCOMP_PCRE2 :: u32 where
  "MCOMP_PCRE2 = MCOMP_BASIC OR MCOMP_NAMEREF OR MCOMP_LOOKFWD OR MCOMP_LOOKBACK OR MCOMP_ATOMIC OR MCOMP_COND OR MCOMP_RECURSE OR MCOMP_VERB"
definition MEXEC_RE2 :: u32 where "MEXEC_RE2 = MEXEC_UTF OR MEXEC_NOOPTIM"
definition MEXEC_POSIX :: u32 where "MEXEC_POSIX = MEXEC_LONGEST"
definition MEXEC_PCRE2 :: u32 where "MEXEC_PCRE2 = MEXEC_DOTALL OR MEXEC_UNGREEDY OR MEXEC_UTF OR MEXEC_UCP"

definition reg_to_mcomp :: "u32 \<Rightarrow> u32" where
  "reg_to_mcomp fl =
     (let md = fl AND (REG_EXTENDED OR REG_PCRE2 OR REG_RE2) in
      if md = REG_PCRE2 then MCOMP_PCRE2
      else if md = REG_EXTENDED then MCOMP_EXTENDED
      else if md = REG_RE2 then MCOMP_RE2
      else MCOMP_BASIC)"

text \<open>\<open>with_flag fl f k e\<close>: \<open>k\<close> is added to \<open>e\<close> when \<open>fl\<close> has \<open>f\<close>.\<close>

definition with_flag :: "u32 \<Rightarrow> u32 \<Rightarrow> u32 \<Rightarrow> u32 \<Rightarrow> u32" where
  "with_flag fl f k e = (if fl AND f \<noteq> 0 then e OR k else e)"

definition reg_to_mexec :: "u32 \<Rightarrow> u32" where
  "reg_to_mexec fl =
     with_flag fl REG_UCP MEXEC_UCP (with_flag fl REG_UTF MEXEC_UTF (with_flag fl REG_NOSUB MEXEC_NOSUB
       (with_flag fl REG_DOTALL MEXEC_DOTALL (with_flag fl REG_NOTEOL MEXEC_NOTEOL (with_flag fl REG_NOTBOL MEXEC_NOTBOL
         (with_flag fl REG_NEWLINE MEXEC_NEWLINE (with_flag fl REG_ICASE MEXEC_ICASE
           (if fl AND REG_RE2 \<noteq> 0 then MEXEC_RE2 else if fl AND REG_PCRE2 \<noteq> 0 then MEXEC_PCRE2 else MEXEC_POSIX))))))))"

definition PCRE2_CASELESS :: u32 where "PCRE2_CASELESS = 0x001"
definition PCRE2_MULTILINE :: u32 where "PCRE2_MULTILINE = 0x002"
definition PCRE2_DOTALL :: u32 where "PCRE2_DOTALL = 0x004"
definition PCRE2_UTF :: u32 where "PCRE2_UTF = 0x008"
definition PCRE2_UCP :: u32 where "PCRE2_UCP = 0x010"
definition PCRE2_NOTBOL :: u32 where "PCRE2_NOTBOL = 0x400"
definition PCRE2_NOTEOL :: u32 where "PCRE2_NOTEOL = 0x800"
definition PCRE2_PARTIAL_SOFT :: u32 where "PCRE2_PARTIAL_SOFT = 0x1000"
definition PCRE2_PARTIAL_HARD :: u32 where "PCRE2_PARTIAL_HARD = 0x2000"

definition pcre2_to_mexec :: "u32 \<Rightarrow> u32" where
  "pcre2_to_mexec opts =
     with_flag opts PCRE2_PARTIAL_HARD MEXEC_PARTHARD (with_flag opts PCRE2_PARTIAL_SOFT MEXEC_PARTSOFT (with_flag opts PCRE2_NOTEOL MEXEC_NOTEOL
       (with_flag opts PCRE2_NOTBOL MEXEC_NOTBOL (with_flag opts PCRE2_UCP MEXEC_UCP (with_flag opts PCRE2_UTF MEXEC_UTF
         (with_flag opts PCRE2_DOTALL MEXEC_DOTALL (with_flag opts PCRE2_MULTILINE MEXEC_MULTILINE
           (with_flag opts PCRE2_CASELESS MEXEC_ICASE MEXEC_PCRE2))))))))"

section \<open>Basic regular expressions\<close>

definition REGEX_MAX_PATTERN :: nat where "REGEX_MAX_PATTERN = 4096"

definition bre_specials :: "byte list" where
  "bre_specials = [46, 63, 42, 43, 123, 125, 124, 40, 41, 94, 36, 92]"

text \<open>The bytes the loop writes, \<open>k\<close> of them being written already.\<close>

fun bre_loop :: "nat \<Rightarrow> nat \<Rightarrow> byte list \<Rightarrow> byte list" where
  "bre_loop max_len k [] = []"
| "bre_loop max_len k (c # cs) =
     (if \<not> k < max_len - 1 then []
      else if c = 92 then
        (case cs of
           [] \<Rightarrow> [92]
         | d # ds \<Rightarrow> if d \<in> set bre_specials then d # bre_loop max_len (k + 1) ds else 92 # d # bre_loop max_len (k + 2) ds)
      else if c \<in> set bre_specials then 92 # c # bre_loop max_len (k + 2) cs
      else c # bre_loop max_len (k + 1) cs)"

definition bre_trans :: "byte list \<Rightarrow> nat \<Rightarrow> byte list option" where
  "bre_trans bre max_len = (let ere = bre_loop max_len 0 bre in if length ere < max_len then Some ere else None)"

section \<open>POSIX\<close>

definition regcomp :: "(nat \<Rightarrow> bool) \<Rightarrow> bool \<Rightarrow> byte list option \<Rightarrow> u32 \<Rightarrow> (match_err \<times> matcher \<times> bool) option" where
  "regcomp avail re pat fl =
     (case pat of
        None \<Rightarrow> Some (M_BADPAT, zero_matcher, False)
      | Some pat \<Rightarrow>
          if \<not> re then Some (M_BADPAT, zero_matcher, False)
          else do {
            pat \<leftarrow> (if fl AND (REG_EXTENDED OR REG_PCRE2 OR REG_RE2) = 0 then bre_trans pat REGEX_MAX_PATTERN else Some pat);
            (er, m, ub) \<leftarrow> matchcomp \<lparr>pe_pat = pat, pe_cflags = reg_to_mcomp fl, pe_avail = avail\<rparr>;
            Some (if er \<noteq> M_SUCCESS then (er, m, ub) else (M_SUCCESS, m\<lparr>m_eflags := m_eflags m OR reg_to_mexec fl\<rparr>, ub))
          })"

definition regexec :: "wlocale \<Rightarrow> matcher option \<Rightarrow> byte list option \<Rightarrow> nat \<Rightarrow> u32 \<Rightarrow> mexec_result" where
  "regexec l re s nm ef =
     (case re of
        None \<Rightarrow> Some (M_BADPAT, None)
      | Some m \<Rightarrow> (case s of None \<Rightarrow> Some (M_BADPAT, None) | Some s \<Rightarrow> matchexec l m s (Some 0) nm (m_eflags m OR reg_to_mexec ef)))"

definition regerror_msgs :: "byte list option list" where
  "regerror_msgs =
     [Some (ascii ''Success''), Some (ascii ''No match''), Some (ascii ''Bad pattern''), None, None, Some (ascii ''Bad escape''), Some (ascii ''Bad sub''),
      Some (ascii ''Bad bracket''), Some (ascii ''Unmatched paren''), Some (ascii ''Bad collation''), Some (ascii ''Bad class''), Some (ascii ''Bad repeat''),
      Some (ascii ''Unmatched brace''), Some (ascii ''Bad range''), Some (ascii ''Bad repeat''), Some (ascii ''Memory exhausted''),
      Some (ascii ''Recursion depth exceeded''), Some (ascii ''Invalid flags''), Some (ascii ''Internal error''), Some (ascii ''Unsafe pattern''),
      Some (ascii ''Invalid call''), Some (ascii ''Invalid conditional''), Some (ascii ''Invalid lookaround''), Some (ascii ''Invalid verb'')]"

text \<open>The returned length, and the \<open>sz\<close> bytes left in the buffer when there is one: \<^verbatim>\<open>strncpy\<close> pads with zeros.\<close>

definition regerror :: "int \<Rightarrow> bool \<Rightarrow> nat \<Rightarrow> nat \<times> byte list option" where
  "regerror ec buf sz =
     (let msg = (if ec \<ge> 0 \<and> ec < 24 then (case regerror_msgs ! nat ec of Some t \<Rightarrow> t | None \<Rightarrow> ascii ''Unknown error'') else ascii ''Unknown error'')
      in (length msg + 1, if buf \<and> sz > 0 then Some (take (sz - 1) msg @ replicate (sz - 1 - length msg) 0 @ [0]) else None))"

definition regfree :: "matcher \<Rightarrow> matcher" where
  "regfree m = zero_matcher"

section \<open>PCRE2 and RE2\<close>

definition PCRE2_ERROR_NOMATCH :: int where "PCRE2_ERROR_NOMATCH = - 1"
definition PCRE2_ERROR_BADDATA :: int where "PCRE2_ERROR_BADDATA = - 2"
definition PCRE2_ERROR_NOMEMORY :: int where "PCRE2_ERROR_NOMEMORY = - 4"

fun err_code :: "match_err \<Rightarrow> int" where
  "err_code M_SUCCESS = 0" | "err_code M_NOMATCH = 1" | "err_code M_BADPAT = 2" | "err_code M_EESCAPE = 5" | "err_code M_ESUBMATCH = 6"
| "err_code M_EBRACK = 7" | "err_code M_EPAREN = 8" | "err_code M_ECOLLATE = 9" | "err_code M_ECTYPE = 10" | "err_code M_BADBR = 11"
| "err_code M_EBRACE = 12" | "err_code M_ERANGE = 13" | "err_code M_BADRPT = 14" | "err_code M_ESPACE = 15" | "err_code M_EDEPTH = 16"
| "err_code M_EFLAGS = 17" | "err_code M_EINTERNAL = 18" | "err_code M_EUNSAFE = 19" | "err_code M_ECALL = 20" | "err_code M_ECOND = 21"
| "err_code M_ELOOK = 22" | "err_code M_EVERB = 23"

text \<open>
  The matcher, and what is stored through \<^verbatim>\<open>errcode\<close> and \<^verbatim>\<open>erroffset\<close> where these are given; \<open>got\<close> says whether \<^verbatim>\<open>calloc\<close>
  succeeds.  The length argument is not used.
\<close>

definition pcre2_compile :: "(nat \<Rightarrow> bool) \<Rightarrow> bool \<Rightarrow> byte list option \<Rightarrow> u32 \<Rightarrow> (matcher option \<times> int option \<times> nat option) option" where
  "pcre2_compile avail got pattern opts =
     (case pattern of
        None \<Rightarrow> Some (None, Some PCRE2_ERROR_BADDATA, None)
      | Some pat \<Rightarrow>
          if \<not> got then Some (None, Some PCRE2_ERROR_NOMEMORY, None)
          else map_option (\<lambda>(er, m, ub). if er \<noteq> M_SUCCESS then (None, Some (err_code er), Some 0)
                                       else (Some (m\<lparr>m_eflags := pcre2_to_mexec opts\<rparr>), None, None))
                 (matchcomp \<lparr>pe_pat = pat, pe_cflags = MCOMP_PCRE2, pe_avail = avail\<rparr>))"

text \<open>The returned value and, on success, the match data.\<close>

definition pcre2_match :: "wlocale \<Rightarrow> matcher option \<Rightarrow> byte list option \<Rightarrow> byte option \<Rightarrow> nat \<Rightarrow> u32 \<Rightarrow> bool \<Rightarrow>
    (int \<times> (int \<times> int) list option) option" where
  "pcre2_match l re subject past startoffset opts md =
     (case re of None \<Rightarrow> Some (PCRE2_ERROR_BADDATA, None) | Some m \<Rightarrow>
      case subject of None \<Rightarrow> Some (PCRE2_ERROR_BADDATA, None) | Some s \<Rightarrow>
        if \<not> md then Some (PCRE2_ERROR_BADDATA, None)
        else if startoffset > length s then None
        else map_option (\<lambda>(er, ms). if er = M_SUCCESS then (int (m_nsub m) + 1, ms) else (PCRE2_ERROR_NOMATCH, None))
               (matchexec l m (drop startoffset s) past MATCH_MAX_GROUPS (pcre2_to_mexec opts)))"

definition re2comp :: "(nat \<Rightarrow> bool) \<Rightarrow> bool \<Rightarrow> byte list option \<Rightarrow> matcher option option" where
  "re2comp avail got pattern =
     (case pattern of
        None \<Rightarrow> Some None
      | Some pat \<Rightarrow>
          if \<not> got then Some None
          else map_option (\<lambda>(er, m, ub). if er \<noteq> M_SUCCESS then None else Some (m\<lparr>m_eflags := MEXEC_RE2\<rparr>))
                 (matchcomp \<lparr>pe_pat = pat, pe_cflags = MCOMP_RE2, pe_avail = avail\<rparr>))"

definition re2match :: "wlocale \<Rightarrow> matcher option \<Rightarrow> byte list option \<Rightarrow> byte option \<Rightarrow> int option" where
  "re2match l re text past =
     (case re of None \<Rightarrow> Some 0 | Some m \<Rightarrow>
      case text of None \<Rightarrow> Some 0 | Some s \<Rightarrow>
        map_option (\<lambda>(er, ms). if er = M_SUCCESS then 1 else 0) (matchexec l m s past 1 (m_eflags m)))"

definition re2fullmatch :: "wlocale \<Rightarrow> matcher option \<Rightarrow> byte list option \<Rightarrow> byte option \<Rightarrow> int option" where
  "re2fullmatch l re text past =
     (case re of None \<Rightarrow> Some 0 | Some m \<Rightarrow>
      case text of None \<Rightarrow> Some 0 | Some s \<Rightarrow>
        map_option (\<lambda>(er, ms). case ms of Some ((so, eo) # _) \<Rightarrow> if er = M_SUCCESS \<and> so = 0 \<and> eo = int (length s) then 1 else 0 | _ \<Rightarrow> 0)
          (matchexec l m s past 1 (m_eflags m)))"

section \<open>Safety of the interface\<close>

lemma bre_loop_length: "length (bre_loop m k bre) \<le> 2 * length bre"
proof (induction "length bre" arbitrary: k bre rule: less_induct)
  case less
  have IH: "length (bre_loop m j ds) \<le> 2 * length ds" if "length ds < length bre" for j ds
    using less that by blast
  show ?case
  proof (cases bre)
    case (Cons c cs)
    show ?thesis
    proof (cases cs)
      case Nil
      then show ?thesis using Cons by simp
    next
      case (Cons d ds)
      then show ?thesis using \<open>bre = c # cs\<close> IH [of cs "k + 1"] IH [of cs "k + 2"] IH [of ds "k + 1"] IH [of ds "k + 2"] by (simp del: bre_loop.simps add: bre_loop.simps(2) [of m k c])
    qed
  qed simp
qed

lemma regcomp_wf_eflags: "wf_matcher (m\<lparr>m_eflags := f\<rparr>) = wf_matcher m"
  by (simp add: wf_matcher_def)

lemma regcomp_wf:
  assumes "regcomp avail True (Some pat) fl = Some (M_SUCCESS, re, ub)"
  shows "wf_matcher re"
proof -
  obtain ere m where m: "matchcomp \<lparr>pe_pat = ere, pe_cflags = reg_to_mcomp fl, pe_avail = avail\<rparr> = Some (M_SUCCESS, m, ub)"
    "re = m\<lparr>m_eflags := m_eflags m OR reg_to_mexec fl\<rparr>"
    using assms by (auto simp: regcomp_def bind_eq_Some_conv split: if_splits)
  then show ?thesis using matchcomp_wf [of "\<lparr>pe_pat = ere, pe_cflags = reg_to_mcomp fl, pe_avail = avail\<rparr>"] by (simp add: regcomp_wf_eflags)
qed




text \<open>The pattern of one back-reference, \<^verbatim>\<open>(a)\1\<close>.\<close>

definition backref_pattern :: "byte list" where
  "backref_pattern = [40, 97, 41, 92, 49]"

lemma backref_compiled:
  "\<exists>re. regcomp (\<lambda>_. True) True (Some backref_pattern) REG_PCRE2 = Some (M_SUCCESS, re, False) \<and> small_refs re"
proof -
  have "case regcomp (\<lambda>_. True) True (Some backref_pattern) REG_PCRE2 of Some (er, re, ub) \<Rightarrow> er = M_SUCCESS \<and> \<not> ub \<and> small_refs re | None \<Rightarrow> False" by code_simp
  then show ?thesis by (auto split: option.splits prod.splits)
qed


section \<open>Literal patterns\<close>

definition lit_byte :: "byte \<Rightarrow> bool" where
  "lit_byte b \<longleftrightarrow> b \<noteq> 0 \<and> b < 0x80 \<and> b \<notin> set bre_specials \<and> b \<noteq> 91"

text \<open>The reference: the first offset at which a string occurs in another.\<close>

fun first_at :: "nat \<Rightarrow> byte list \<Rightarrow> byte list \<Rightarrow> nat option" where
  "first_at p w [] = (if w = [] then Some p else None)"
| "first_at p w (x # xs) = (if take (length w) (x # xs) = w then Some p else first_at (Suc p) w xs)"

lemma gate_here_iff: "gate_here False w xs \<longleftrightarrow> take (length w) xs = w"
proof (induction w arbitrary: xs)
  case (Cons a w)
  then show ?case by (cases xs) (auto simp: gate_fold_def)
qed simp

lemma first_at_short: "length xs < length w \<Longrightarrow> first_at p w xs = None"
proof (induction xs arbitrary: p)
  case (Cons x xs)
  have "length (take (length w) (x # xs)) < length w" using Cons.prems by simp
  then have "take (length w) (x # xs) \<noteq> w" by (metis less_irrefl)
  then show ?case using Cons by simp
qed auto

lemma gate_many_first: "gate_many w False p xs = first_at p w xs"
proof (induction w False p xs rule: gate_many.induct)
  case (2 lit p x xs)
  show ?case
  proof (cases "length lit > length (x # xs)")
    case True
    then show ?thesis using first_at_short [OF True] by (simp del: first_at.simps)
  next
    case False
    then show ?thesis using 2 by (simp add: gate_here_iff)
  qed
qed simp

lemma gate_one_first: "gate_one l False p xs = first_at p [l] xs"
  by (induction l False p xs rule: gate_one.induct) (auto simp: gate_fold_def)

lemma matchgate_first: "m_lit m \<noteq> [] \<Longrightarrow> matchgate m s False = first_at 0 (m_lit m) s"
  by (auto simp: matchgate_def gate_many_first gate_one_first gate_fold_def split: list.split)

lemma first_at_Some: "first_at p w xs = Some q \<Longrightarrow> p \<le> q \<and> take (length w) (drop (q - p) xs) = w \<and> q - p + length w \<le> length xs"
proof (induction p w xs rule: first_at.induct)
  case (2 p w x xs)
  show ?case
  proof (cases "take (length w) (x # xs) = w")
    case True
    then have "length w \<le> length (x # xs)" by (metis length_take min.cobounded1)
    then show ?thesis using True 2 by auto
  next
    case False
    then have "Suc p \<le> q \<and> take (length w) (drop (q - Suc p) xs) = w \<and> q - Suc p + length w \<le> length xs" using 2 by auto
    moreover have "q - p = Suc (q - Suc p)" using calculation by auto
    ultimately show ?thesis by auto
  qed
qed (auto split: if_splits)

text \<open>The node of a literal: its characters one after the other.\<close>

inductive lit_node :: "match_node list \<Rightarrow> nat \<Rightarrow> byte list \<Rightarrow> bool" for ar :: "match_node list" where
  lit_one: "i \<noteq> 0 \<Longrightarrow> i < length ar \<Longrightarrow> n_type (ar ! i) = MTOK_CHAR \<Longrightarrow> n_val (ar ! i) = ucast b \<Longrightarrow> n_b (ar ! i) = 0 \<Longrightarrow>
    n_eflags (ar ! i) = 0 \<Longrightarrow> b < 0x80 \<Longrightarrow> lit_node ar i [b]"
| lit_more: "i \<noteq> 0 \<Longrightarrow> i < length ar \<Longrightarrow> n_type (ar ! i) = MTOK_SEQ \<Longrightarrow> lit_node ar (n_a (ar ! i)) w \<Longrightarrow>
    lit_node ar (n_b (ar ! i)) [b] \<Longrightarrow> n_type (ar ! n_b (ar ! i)) = MTOK_CHAR \<Longrightarrow> lit_node ar i (w @ [b])"

lemma lit_node_append: "lit_node ar i w \<Longrightarrow> lit_node (ar @ xs) i w"
proof (induction rule: lit_node.induct)
  case (lit_one i b)
  then show ?case by (intro lit_node.lit_one) (auto simp: nth_append)
next
  case (lit_more i w b)
  have "n_b (ar ! i) < length ar" using lit_more.hyps(5) by (auto elim: lit_node.cases)
  then show ?case using lit_more by (intro lit_node.lit_more) (auto simp: nth_append)
qed

lemma lit_node_props: "lit_node ar i w \<Longrightarrow> w \<noteq> [] \<and> i \<noteq> 0 \<and> i < length ar \<and> n_type (ar ! i) \<in> {MTOK_CHAR, MTOK_SEQ}"
  by (induction rule: lit_node.induct) auto

text \<open>One call of the engine for each node: \<open>2 n - 1\<close> of them for \<open>n\<close> characters.\<close>

lemma lit_node_matches:
  assumes "lit_node (m_arena (en_m e)) i w"
  shows "take (length w) (drop pos (en_s e)) = w \<Longrightarrow> c_err c = M_SUCCESS \<Longrightarrow>
    c_depth c + (2 * length w - 1) < MATCH_MAX_DEPTH \<Longrightarrow> 2 * length w \<le> f \<Longrightarrow>
    matchfind e (Suc f) c i pos = Some (Some (pos + length w), c\<lparr>c_depth := c_depth c + (2 * length w - 1)\<rparr>)"
  using assms
proof (induction arbitrary: pos c f rule: lit_node.induct)
  case (lit_one i b)
  let ?c = "c\<lparr>c_depth := c_depth c + 1\<rparr>"
  have d: "take 1 (drop pos (en_s e)) = [b]" using lit_one.prems(1) by simp
  then have p: "pos < en_len e" by (cases "pos < en_len e") auto
  then have "en_s e ! pos = b" using d by (simp add: Cons_nth_drop_Suc [symmetric])
  note p = p this
  obtain f' where f: "f = Suc f'" using lit_one.prems(4) by (cases f) auto
  have "matchfind e f ?c 0 (pos + 1) = Some (Some (pos + 1), ?c)" using lit_one.prems(3) f by simp
  then have "prim_CHAR e (matchfind e f) ?c (m_arena (en_m e) ! i) pos = Some (Some (pos + 1), ?c)"
    using p lit_one.hyps by (simp add: prim_CHAR_def match_fold_def)
  then show ?case using lit_one by (simp add: dispatch_node_def)
next
  case (lit_more i w b)
  let ?n = "m_arena (en_m e) ! i" and ?ar = "m_arena (en_m e)"
  let ?c = "c\<lparr>c_depth := c_depth c + 1\<rparr>" and ?d = "c\<lparr>c_depth := c_depth c + 2 * length w\<rparr>"
  have w: "0 < length w" using lit_node_props [OF lit_more.hyps(4)] by simp
  have x: "take (length w + 1) (drop pos (en_s e)) = w @ [b]" using lit_more.prems(1) by simp
  have t: "take (length w) (drop pos (en_s e)) = w" "take 1 (drop (pos + length w) (en_s e)) = [b]"
    using arg_cong [OF x, of "take (length w)"] arg_cong [OF x, of "drop (length w)"] by (simp_all add: drop_take add.commute min_def)
  obtain g where g: "f = Suc g" "2 * length w \<le> g" "2 \<le> g" using lit_more.prems(4) w by (cases f) auto
  have "matchfind e (Suc g) ?c (n_a ?n) pos = Some (Some (pos + length w), ?d)"
    using lit_more.IH(1) [OF t(1), of ?c g] lit_more.prems w g(2) by (simp del: matchfind.simps)
  moreover have "matchfind e (Suc g) ?d (n_b ?n) (pos + length w) = Some (Some (pos + length w + 1), ?d\<lparr>c_depth := c_depth c + 2 * length w + 1\<rparr>)"
    using lit_more.IH(2) [of "pos + length w" ?d g] t(2) lit_more.prems g(3) by (simp del: matchfind.simps)
  moreover have b: "n_b ?n \<noteq> 0" "n_b ?n < length ?ar" "n_eflags (?ar ! n_b ?n) = 0"
    using lit_more.hyps(5,6) by (auto elim: lit_node.cases)
  ultimately have "seq_loop e (matchfind e f) (Suc (Suc i)) ?c i pos = Some (Some (pos + length w + 1), ?d\<lparr>c_depth := c_depth c + 2 * length w + 1\<rparr>)"
    using lit_more.hyps lit_more.prems(2) g(1) by (simp add: Let_def del: matchfind.simps)
  then show ?case using lit_more.hyps lit_more.prems(3) by (simp add: dispatch_node_def prim_SEQ_def del: seq_loop.simps)
qed

text \<open>What the parser does with a literal pattern when memory suffices.\<close>

definition same_flags :: "match_parser \<Rightarrow> match_parser \<Rightarrow> bool" where
  "same_flags ps ps' \<longleftrightarrow> p_err ps' = p_err ps \<and> p_eflags ps' = p_eflags ps \<and> p_cap ps' = p_cap ps \<and> p_ub ps' = p_ub ps"

lemma match_node_adds:
  assumes "\<And>k. pe_avail pe k"
  obtains ps' where "match_node pe t ps = (cnt ps, ps')" "m_arena (p_m ps') = m_arena (p_m ps) @ [fresh_node t]" "p_pos ps' = p_pos ps" "same_flags ps ps'"
proof -
  let ?g = "ps\<lparr>p_allocs := Suc (p_allocs ps), p_m := (p_m ps)\<lparr>m_capacity := (if m_capacity (p_m ps) \<noteq> 0 then m_capacity (p_m ps) * 2 else 16)\<rparr>\<rparr>"
  let ?ps = "if cnt ps \<ge> m_capacity (p_m ps) then ?g else ps"
  have "match_node pe t ps = (cnt ps, snd (push_node t ?ps))" using assms by (simp add: match_node_def try_alloc_def push_node_def Let_def)
  then show thesis by (rule that) (simp_all add: push_node_def same_flags_def)
qed

lemma node_flags_adds:
  assumes "\<And>k. pe_avail pe k" "0 < cnt ps"
  obtains ps' where "node_flags pe t ps = (cnt ps, ps')"
    "m_arena (p_m ps') = m_arena (p_m ps) @ [(fresh_node t)\<lparr>n_eflags := p_eflags ps\<rparr>]" "p_pos ps' = p_pos ps" "same_flags ps ps'"
proof -
  obtain qs where q: "match_node pe t ps = (cnt ps, qs)" "m_arena (p_m qs) = m_arena (p_m ps) @ [fresh_node t]" "p_pos qs = p_pos ps" "same_flags ps qs"
    using match_node_adds [OF assms(1)] by blast
  show thesis
    by (rule that [of "upd_node (cnt ps) (n_eflags_update (\<lambda>_. p_eflags qs)) qs"])
      (use q assms(2) in \<open>auto simp: node_flags_def upd_node_def same_flags_def nth_append\<close>)
qed

definition quant_byte :: "byte \<Rightarrow> bool" where
  "quant_byte b \<longleftrightarrow> b \<in> {42, 63, 43, 123}"

lemma lit_byte_simple: "lit_byte b \<Longrightarrow> b \<notin> {0, 91, 40, 92, 46, 94, 36, 124, 41, 42, 63, 43, 123, 125}"
  by (auto simp: lit_byte_def bre_specials_def)

lemma lit_atom:
  assumes av: "\<And>k. pe_avail pe k" and "0 < cnt ps" "lit_byte (peek pe ps 0)" "\<not> quant_byte (peek pe ps 1)" "p_eflags ps = 0" "allows pe MCOMP_QUANT"
  obtains ps' where "match_atom pe (Suc f) ps = Some (cnt ps, ps')" "p_pos ps' = Suc (p_pos ps)" "same_flags ps ps'"
    "m_arena (p_m ps') = m_arena (p_m ps) @ [(fresh_node MTOK_CHAR)\<lparr>n_val := ucast (peek pe ps 0)\<rparr>]"
proof -
  let ?b = "peek pe ps 0"
  have b: "?b \<notin> {0, 91, 40, 92, 46, 94, 36, 124, 41}" using lit_byte_simple [OF assms(3)] by auto
  obtain qs where q: "node_flags pe MTOK_CHAR ps = (cnt ps, qs)"
    "m_arena (p_m qs) = m_arena (p_m ps) @ [(fresh_node MTOK_CHAR)\<lparr>n_eflags := p_eflags ps\<rparr>]" "p_pos qs = p_pos ps" "same_flags ps qs"
    using node_flags_adds [OF av assms(2)] by blast
  have pl: "p_pos ps < length (pe_pat pe)" "?b = pe_pat pe ! p_pos ps" using peek_pos [of pe ps 0] b by (auto simp: peek_def)
  have "?b < 0x80" using assms(3) by (simp add: lit_byte_def)
  then have nc: "next_char pe qs = (ucast ?b, qs\<lparr>p_pos := Suc (p_pos ps)\<rparr>)"
    using pl q(3) by (simp add: next_char_def match_utf8_next_def)
  let ?u = "upd_node (cnt ps) (n_val_update (\<lambda>_. ucast ?b)) (qs\<lparr>p_pos := Suc (p_pos ps)\<rparr>)"
  let ?r = "?u\<lparr>p_m := (p_m ?u)\<lparr>m_unicode := (m_unicode (p_m ?u) \<or> (ucast ?b :: u32) \<ge> 128)\<rparr>\<rparr>"
  have "char_node pe ps = (cnt ps, ?r)" using q(1) nc assms(2) by (simp add: char_node_def Let_def)
  then have "atom_simple pe ps = (cnt ps, ?r)" using b by (simp add: atom_simple_def Let_def)
  moreover have "peek pe ?r 0 = peek pe ps 1" by (simp add: peek_def)
  then have "quant_bounds pe ?r = (None, ?r)" using assms(4) by (simp add: quant_bounds_def quant_byte_def Let_def)
  then have "match_quant pe (cnt ps) ?r = (cnt ps, ?r)" using assms(6) by (simp add: match_quant_def)
  ultimately have "match_atom pe (Suc f) ps = Some (cnt ps, ?r)" using b assms(2) by (simp add: Let_def)
  moreover have "m_arena (p_m ?r) = m_arena (p_m ps) @ [(fresh_node MTOK_CHAR)\<lparr>n_val := ucast ?b\<rparr>]"
    using q(2) assms(5) by (simp add: upd_node_def nth_append fresh_node_def)
  moreover have "same_flags ps ?r" using q(4) by (simp add: same_flags_def upd_node_def)
  ultimately show thesis by (intro that [of ?r]) auto
qed

lemma lit_pair:
  assumes av: "\<And>k. pe_avail pe k" and "0 < cnt ps" "p_eflags ps = 0"
  obtains ps' where "pair_node pe MTOK_SEQ a b ps = (cnt ps, ps')" "p_pos ps' = p_pos ps" "same_flags ps ps'"
    "m_arena (p_m ps') = m_arena (p_m ps) @ [(fresh_node MTOK_SEQ)\<lparr>n_a := a, n_b := b\<rparr>]"
proof -
  obtain qs where q: "node_flags pe MTOK_SEQ ps = (cnt ps, qs)"
    "m_arena (p_m qs) = m_arena (p_m ps) @ [(fresh_node MTOK_SEQ)\<lparr>n_eflags := p_eflags ps\<rparr>]" "p_pos qs = p_pos ps" "same_flags ps qs"
    using node_flags_adds [OF av assms(2)] by blast
  show thesis
    by (rule that [of "upd_node (cnt ps) (\<lambda>x. x\<lparr>n_a := a, n_b := b\<rparr>) qs"])
      (use q assms(2,3) in \<open>auto simp: pair_node_def upd_node_def same_flags_def nth_append fresh_node_def\<close>)
qed

lemma lit_term_loop:
  assumes av: "\<And>k. pe_avail pe k" and "\<forall>b \<in> set (pe_pat pe). lit_byte b" "allows pe MCOMP_QUANT"
  shows "lit_node (m_arena (p_m ps)) a (take (p_pos ps) (pe_pat pe)) \<Longrightarrow> p_err ps = M_SUCCESS \<Longrightarrow> p_eflags ps = 0 \<Longrightarrow>
    p_pos ps \<le> length (pe_pat pe) \<Longrightarrow> length (pe_pat pe) - p_pos ps < k \<Longrightarrow>
    \<exists>n ps'. term_loop pe (match_atom pe (Suc f)) k a ps = Some (n, ps') \<and> lit_node (m_arena (p_m ps')) n (pe_pat pe) \<and> same_flags ps ps' \<and>
      p_pos ps' = length (pe_pat pe)"
proof (induction k arbitrary: a ps)
  case (Suc k)
  let ?pat = "pe_pat pe" and ?p = "p_pos ps" and ?ar = "m_arena (p_m ps)"
  show ?case
  proof (cases "?p = length ?pat")
    case True
    then have "peek pe ps 0 = 0" by (simp add: peek_def)
    then show ?thesis using Suc.prems True by (simp add: same_flags_def del: match_atom.simps)
  next
    case False
    then have pl: "?p < length ?pat" using Suc.prems(4) by simp
    then have pk: "peek pe ps 0 = ?pat ! ?p" by (simp add: peek_def)
    have lb: "lit_byte (peek pe ps 0)" using pk pl assms(2) by simp
    have "peek pe ps 1 = 0 \<or> lit_byte (peek pe ps 1)" using assms(2) by (simp add: peek_def)
    then have nq: "\<not> quant_byte (peek pe ps 1)" using lit_byte_simple by (fastforce simp: quant_byte_def)
    have c0: "0 < cnt ps" using lit_node_props [OF Suc.prems(1)] by linarith
    obtain qs where q: "match_atom pe (Suc f) ps = Some (cnt ps, qs)" "p_pos qs = Suc ?p" "same_flags ps qs"
      "m_arena (p_m qs) = ?ar @ [(fresh_node MTOK_CHAR)\<lparr>n_val := ucast (peek pe ps 0)\<rparr>]"
      using lit_atom [OF av c0 lb nq Suc.prems(3) assms(3)] by blast
    have q2: "0 < cnt qs" "p_eflags qs = 0" using q(3,4) Suc.prems(3) by (auto simp: same_flags_def)
    obtain rs where r: "pair_node pe MTOK_SEQ a (cnt ps) qs = (cnt qs, rs)" "p_pos rs = p_pos qs" "same_flags qs rs"
      "m_arena (p_m rs) = m_arena (p_m qs) @ [(fresh_node MTOK_SEQ)\<lparr>n_a := a, n_b := cnt ps\<rparr>]"
      using lit_pair [OF av q2] by blast
    let ?ar2 = "m_arena (p_m rs)"
    have la: "lit_node ?ar2 a (take ?p ?pat)" unfolding r(4) q(4) by (intro lit_node_append Suc.prems(1))
    have nb: "?ar2 ! cnt ps = (fresh_node MTOK_CHAR)\<lparr>n_val := ucast (peek pe ps 0)\<rparr>" "cnt ps < length ?ar2" "cnt qs = Suc (cnt ps)"
      unfolding r(4) q(4) by (simp_all add: nth_append)
    have lb2: "lit_node ?ar2 (cnt ps) [peek pe ps 0]"
      using nb c0 lb by (intro lit_one) (auto simp: fresh_node_def lit_byte_def)
    have ns: "?ar2 ! cnt qs = (fresh_node MTOK_SEQ)\<lparr>n_a := a, n_b := cnt ps\<rparr>" unfolding r(4) by (simp add: nth_append)
    have "lit_node ?ar2 (cnt qs) (take ?p ?pat @ [peek pe ps 0])"
      using la lb2 nb ns r(4) by (intro lit_more) (auto simp: fresh_node_def)
    then have ln: "lit_node ?ar2 (cnt qs) (take (p_pos rs) ?pat)" using r(2) q(2) pk pl by (simp add: take_Suc_conv_app_nth)
    have s: "same_flags ps rs" using q(3) r(3) by (simp add: same_flags_def)
    obtain n ps' where n: "term_loop pe (match_atom pe (Suc f)) k (cnt qs) rs = Some (n, ps')" "lit_node (m_arena (p_m ps')) n ?pat" "same_flags rs ps'"
      "p_pos ps' = length ?pat"
    proof -
      have "p_err rs = M_SUCCESS" "p_eflags rs = 0" using s Suc.prems(2,3) by (simp_all add: same_flags_def)
      moreover have "p_pos rs \<le> length ?pat" "length ?pat - p_pos rs < k" using r(2) q(2) pl Suc.prems(5) by auto
      ultimately show thesis using Suc.IH [OF ln] that by blast
    qed
    have b: "peek pe ps 0 \<notin> {0, 41, 124, 42, 63, 43, 123}" using lit_byte_simple [OF lb] by auto
    have "term_loop pe (match_atom pe (Suc f)) (Suc k) a ps = term_loop pe (match_atom pe (Suc f)) k (cnt qs) rs"
      using b q(1) r(1) c0 q2(1) Suc.prems(2) by (auto simp: Let_def simp del: match_atom.simps)
    then have "term_loop pe (match_atom pe (Suc f)) (Suc k) a ps = Some (n, ps')" using n(1) by (rule trans)
    moreover have "same_flags ps ps'" using n(3) s by (simp add: same_flags_def)
    ultimately show ?thesis using n(2,4) by blast
  qed
qed simp

lemma lit_parse:
  assumes av: "\<And>k. pe_avail pe k" and "\<forall>b \<in> set (pe_pat pe). lit_byte b" "pe_pat pe \<noteq> []" "allows pe MCOMP_QUANT"
  shows "\<exists>n ps. parse_pattern pe = Some (n, ps) \<and> lit_node (m_arena (p_m ps)) n (pe_pat pe) \<and> p_err ps = M_SUCCESS \<and> p_eflags ps = 0 \<and> p_ub ps = False"
proof -
  let ?s = "snd (match_node pe MTOK_END (parser_start (pe_cflags pe)))" and ?pat = "pe_pat pe"
  have s: "cnt ?s = 1" "p_pos ?s = 0" "p_err ?s = M_SUCCESS" "p_eflags ?s = 0" "p_ub ?s = False"
    using av by (auto simp: match_node_def try_alloc_def push_node_def parser_start_def zero_matcher_def)
  have pk: "peek pe ?s 0 = hd ?pat" using assms(3) s(2) by (simp add: peek_def hd_conv_nth)
  have lb: "lit_byte (peek pe ?s 0)" using pk assms(2,3) by simp
  have "peek pe ?s 1 = 0 \<or> lit_byte (peek pe ?s 1)" using assms(2) s(2) by (simp add: peek_def)
  then have nq: "\<not> quant_byte (peek pe ?s 1)" using lit_byte_simple by (fastforce simp: quant_byte_def)
  have c0: "0 < cnt ?s" using s(1) by simp
  obtain qs where q: "match_atom pe (Suc (length ?pat)) ?s = Some (cnt ?s, qs)" "p_pos qs = Suc (p_pos ?s)" "same_flags ?s qs"
    "m_arena (p_m qs) = m_arena (p_m ?s) @ [(fresh_node MTOK_CHAR)\<lparr>n_val := ucast (peek pe ?s 0)\<rparr>]"
    using lit_atom [OF av c0 lb nq s(4) assms(4)] by blast
  have "m_arena (p_m qs) ! 1 = (fresh_node MTOK_CHAR)\<lparr>n_val := ucast (peek pe ?s 0)\<rparr>" "cnt qs = 2" unfolding q(4) using s(1) by (simp_all add: nth_append)
  then have "lit_node (m_arena (p_m qs)) 1 [peek pe ?s 0]" using lb by (intro lit_one) (auto simp: fresh_node_def lit_byte_def)
  then have "lit_node (m_arena (p_m qs)) 1 (take (p_pos qs) ?pat)" using pk q(2) s(2) assms(3) by (cases ?pat) simp_all
  moreover have "p_pos qs \<le> length ?pat" "length ?pat - p_pos qs < Suc (length ?pat)" using q(2) s(2) assms(3) by (cases ?pat; simp)+
  moreover have "p_err qs = M_SUCCESS" "p_eflags qs = 0" using q(3) s(3,4) by (simp_all add: same_flags_def)
  ultimately obtain n ps where n: "term_loop pe (match_atom pe (Suc (length ?pat))) (Suc (length ?pat)) 1 qs = Some (n, ps)"
    "lit_node (m_arena (p_m ps)) n ?pat" "same_flags qs ps" "p_pos ps = length ?pat"
    using lit_term_loop [OF av assms(2,4), of qs 1] by blast
  have "peek pe ps 0 = 0" using n(4) by (simp add: peek_def)
  then have "parse_pattern pe = Some (n, ps)"
    unfolding parse_pattern_def match_expr_def match_term_def using q(1) n(1) s(1) by (simp del: term_loop.simps match_atom.simps)
  then show ?thesis using n q(3) s by (auto simp: same_flags_def)
qed

lemma with_flag_and: "k AND x = 0 \<Longrightarrow> with_flag fl f k e AND x = e AND x"
  by (simp add: with_flag_def bit.conj_disj_distrib2)

lemma reg_to_mexec_icase: "fl AND REG_ICASE = 0 \<Longrightarrow> reg_to_mexec fl AND MEXEC_ICASE = 0"
proof -
  assume a: "fl AND REG_ICASE = 0"
  have "reg_to_mexec fl AND MEXEC_ICASE =
      with_flag fl REG_ICASE MEXEC_ICASE (if fl AND REG_RE2 \<noteq> 0 then MEXEC_RE2 else if fl AND REG_PCRE2 \<noteq> 0 then MEXEC_PCRE2 else MEXEC_POSIX) AND MEXEC_ICASE"
    unfolding reg_to_mexec_def
    by (simp only: with_flag_and MEXEC_ICASE_def MEXEC_NEWLINE_def MEXEC_NOTBOL_def MEXEC_NOTEOL_def MEXEC_DOTALL_def MEXEC_NOSUB_def MEXEC_UTF_def MEXEC_UCP_def)
      (simp add: with_flag_and)
  also have "\<dots> = 0"
    using a by (simp add: with_flag_def MEXEC_ICASE_def MEXEC_RE2_def MEXEC_PCRE2_def MEXEC_POSIX_def MEXEC_UTF_def MEXEC_NOOPTIM_def MEXEC_DOTALL_def
        MEXEC_UNGREEDY_def MEXEC_UCP_def MEXEC_LONGEST_def)
  finally show ?thesis .
qed

lemma reg_to_mcomp_quant: "reg_to_mcomp fl AND MCOMP_QUANT \<noteq> 0"
  by (simp add: reg_to_mcomp_def Let_def MCOMP_PCRE2_def MCOMP_EXTENDED_def MCOMP_RE2_def MCOMP_BASIC_def MCOMP_ANCHOR_def MCOMP_ALTERN_def MCOMP_QUANT_def
      MCOMP_ESCAPE_def MCOMP_BOUNDARY_def MCOMP_CAPTURE_def MCOMP_BACKREF_def MCOMP_UNGREEDY_def MCOMP_NAMEREF_def MCOMP_LOOKFWD_def MCOMP_LOOKBACK_def
      MCOMP_ATOMIC_def MCOMP_COND_def MCOMP_RECURSE_def MCOMP_VERB_def)

lemma bre_loop_lit: "\<forall>b \<in> set w. lit_byte b \<Longrightarrow> k + length w < max_len \<Longrightarrow> bre_loop max_len k w = w"
proof (induction w arbitrary: k)
  case (Cons c w)
  have "c \<noteq> 92" "c \<notin> set bre_specials" using Cons.prems(1) by (auto simp: lit_byte_def bre_specials_def)
  then show ?case using Cons by simp
qed simp

lemma lit_prefix_lit: "w \<noteq> [] \<Longrightarrow> length w \<le> 31 \<Longrightarrow> \<forall>b \<in> set w. lit_byte b \<Longrightarrow> lit_prefix w = w"
proof -
  assume a: "w \<noteq> []" "length w \<le> 31" "\<forall>b \<in> set w. lit_byte b"
  have "hd w \<noteq> 94" using lit_byte_simple [of "hd w"] a(1,3) by auto
  then have h: "(case w of b # r \<Rightarrow> if b = 94 then r else w | [] \<Rightarrow> []) = w" using a(1) by (cases w) auto
  have "\<forall>b \<in> set w. \<not> lit_stop b"
  proof
    fix b assume "b \<in> set w"
    then have "b \<notin> {0, 91, 40, 92, 46, 94, 36, 124, 41, 42, 63, 43, 123, 125}" using lit_byte_simple a(3) by blast
    then show "\<not> lit_stop b" by (simp add: lit_stop_def)
  qed
  then have tw: "takeWhile (\<lambda>b. \<not> lit_stop b) w = w" by (simp add: takeWhile_eq_all_conv)
  show ?thesis unfolding lit_prefix_def Let_def h tw using a(2) by simp
qed

lemma regcomp_lit:
  assumes "pat \<noteq> []" "length pat \<le> 31" "\<forall>b \<in> set pat. lit_byte b" "fl AND REG_ICASE = 0"
  shows "\<exists>re. regcomp (\<lambda>_. True) True (Some pat) fl = Some (M_SUCCESS, re, False) \<and> lit_node (m_arena re) (m_root re) pat \<and> m_lit re = pat \<and>
    m_eflags re AND MEXEC_ICASE = 0"
proof -
  let ?pe = "\<lparr>pe_pat = pat, pe_cflags = reg_to_mcomp fl, pe_avail = (\<lambda>_. True)\<rparr>"
  have "allows ?pe MCOMP_QUANT" using reg_to_mcomp_quant by (simp add: allows_def)
  then obtain n ps where p: "parse_pattern ?pe = Some (n, ps)" "lit_node (m_arena (p_m ps)) n pat" "p_err ps = M_SUCCESS" "p_eflags ps = 0" "p_ub ps = False"
    using lit_parse [of ?pe] assms by auto
  let ?m = "finish_matcher pat n ps"
  have t: "n_type (m_arena (p_m ps) ! n) \<noteq> MTOK_ALT" using lit_node_props [OF p(2)] by auto
  have m: "matchcomp ?pe = Some (M_SUCCESS, ?m, False)" using p by (simp add: matchcomp_def)
  have "bre_trans pat REGEX_MAX_PATTERN = Some pat"
    using bre_loop_lit [OF assms(3), of 0 REGEX_MAX_PATTERN] assms(2) by (simp add: bre_trans_def REGEX_MAX_PATTERN_def)
  then have "regcomp (\<lambda>_. True) True (Some pat) fl = Some (M_SUCCESS, ?m\<lparr>m_eflags := m_eflags ?m OR reg_to_mexec fl\<rparr>, False)"
    using m by (simp add: regcomp_def)
  moreover have "m_eflags ?m = 0" "m_lit ?m = pat" "m_root ?m = n" "m_arena ?m = m_arena (p_m ps)"
    using p(4) t lit_prefix_lit [OF assms(1-3)] by (simp_all add: finish_matcher_def)
  ultimately show ?thesis using p(2) reg_to_mexec_icase [OF assms(4)] by simp
qed

lemma regexec_lit:
  assumes "lit_node (m_arena re) (m_root re) pat" "m_lit re = pat" "m_eflags re AND MEXEC_ICASE = 0" "ef AND REG_ICASE = 0" "length pat \<le> 31"
  shows "regexec l (Some re) (Some s) 1 ef =
    (case first_at 0 pat s of None \<Rightarrow> Some (M_NOMATCH, None) | Some p \<Rightarrow> Some (M_SUCCESS, Some [(int p, int (p + length pat))]))"
proof -
  let ?fl = "m_eflags re OR reg_to_mexec ef"
  let ?e = "match_env l re s (Some 0) ?fl" and ?c = "match_start re ?fl"
  note lp = lit_node_props [OF assms(1)]
  have i: "(m_eflags re OR ?fl) AND MEXEC_ICASE = 0"
    using assms(3) reg_to_mexec_icase [OF assms(4)] by (simp add: bit.conj_disj_distrib2)
  then have g: "matchgate re s (c_ic ?c) = first_at 0 pat s" using matchgate_first [of re s] assms(2) lp by (simp add: match_start_def)
  have "exec_loop ?e False 1 p ?c = Some (M_SUCCESS, Some [(int p, int (p + length pat))])" if p: "first_at 0 pat s = Some p" for p
  proof -
    have f: "take (length pat) (drop p s) = pat" "p \<le> length s" using first_at_Some [OF p] by auto
    let ?c0 = "?c\<lparr>c_caps := replicate (MATCH_MAX_GROUPS * 2) (- 1)\<rparr>"
    have "lit_node (m_arena (en_m ?e)) (m_root (en_m ?e)) pat" "take (length pat) (drop p (en_s ?e)) = pat" using assms(1) f by (simp_all add: match_env_def)
    then have "matchfind ?e (Suc MATCH_MAX_DEPTH) ?c0 (m_root (en_m ?e)) p =
        Some (Some (p + length pat), ?c0\<lparr>c_depth := c_depth ?c0 + (2 * length pat - 1)\<rparr>)"
      using assms(5) by (intro lit_node_matches) (auto simp: match_start_def MATCH_MAX_DEPTH_def)
    then show ?thesis using f(2) by (subst exec_loop.simps)
        (simp add: match_env_def match_start_def store_matches_def MATCH_MAX_GROUPS_def del: matchfind.simps)
  qed
  moreover have "m_root re < length (m_arena re)" "n_type (m_arena re ! m_root re) \<noteq> MTOK_BOL" using lp by auto
  ultimately show ?thesis using g assms(3) by (auto simp: regexec_def matchexec_def Let_def split: option.split)
qed

text \<open>
  C12: Searching for a literal is searching for a string: a non-empty pattern of at most 31 ASCII characters without special meaning compiles in every syntax when memory
  suffices and case matters, and \<^verbatim>\<open>regexec\<close>, asked for one pair, then reports exactly the first occurrence of the pattern in the subject, or \<^verbatim>\<open>REG_NOMATCH\<close> when there is none.
\<close>

theorem literal_search:
  assumes "pat \<noteq> []" "length pat \<le> 31" "\<forall>b \<in> set pat. lit_byte b" "fl AND REG_ICASE = 0" "ef AND REG_ICASE = 0"
  shows "\<exists>re. regcomp (\<lambda>_. True) True (Some pat) fl = Some (M_SUCCESS, re, False) \<and>
    (\<forall>s. regexec l (Some re) (Some s) 1 ef =
      (case first_at 0 pat s of None \<Rightarrow> Some (M_NOMATCH, None) | Some p \<Rightarrow> Some (M_SUCCESS, Some [(int p, int (p + length pat))])))"
  using regcomp_lit [OF assms(1-4)] regexec_lit [OF _ _ _ assms(5,2)] by blast

theorem literal_search_witness:
  "\<exists>re. regcomp (\<lambda>_. True) True (Some [97, 98]) REG_EXTENDED = Some (M_SUCCESS, re, False) \<and>
    regexec c_locale (Some re) (Some [97, 97, 98, 97, 98]) 1 0 = Some (M_SUCCESS, Some [(1, 3)])"
proof -
  have "\<forall>b \<in> set [97, 98]. lit_byte b" "REG_EXTENDED AND REG_ICASE = 0" "0 AND REG_ICASE = 0" by code_simp+
  then obtain re where "regcomp (\<lambda>_. True) True (Some [97, 98]) REG_EXTENDED = Some (M_SUCCESS, re, False)"
    "\<forall>s. regexec c_locale (Some re) (Some s) 1 0 =
      (case first_at 0 [97, 98] s of None \<Rightarrow> Some (M_NOMATCH, None) | Some p \<Rightarrow> Some (M_SUCCESS, Some [(int p, int (p + length [97, 98 :: byte]))]))"
    using literal_search [of "[97, 98]" REG_EXTENDED 0 c_locale] by auto
  moreover have "first_at 0 [97, 98] [97, 97, 98, 97, 98] = Some 1" by code_simp
  ultimately show ?thesis by auto
qed

section \<open>Where the engine departs from POSIX\<close>

definition compiled :: "byte list \<Rightarrow> u32 \<Rightarrow> matcher" where
  "compiled pat fl = (case regcomp (\<lambda>_. True) True (Some pat) fl of Some (er, m, ub) \<Rightarrow> m | None \<Rightarrow> zero_matcher)"

definition base_matcher :: "match_node list \<Rightarrow> nat \<Rightarrow> matcher" where
  "base_matcher ar root = zero_matcher\<lparr>m_cflags := 351, m_eflags := 128, m_root := root, m_arena := ar, m_capacity := 16\<rparr>"

lemmas run_posix = run_engine regexec_def base_matcher_def zero_matcher_def leaf_node_def ascii_def reg_to_mexec_def with_flag_def
    REG_RE2_def REG_PCRE2_def MEXEC_POSIX_def MEXEC_LONGEST_def MEXEC_ICASE_def MEXEC_NEWLINE_def MEXEC_DOTALL_def

lemma compiled_nested:
  "compiled (ascii ''(a*b)*'') REG_EXTENDED =
   (base_matcher [leaf_node MTOK_END 0, (leaf_node MTOK_CAP 0)\<lparr>n_a := 5, n_cap := 1\<rparr>, leaf_node MTOK_CHAR 97, (leaf_node MTOK_REP 0)\<lparr>n_a := 2\<rparr>,
      leaf_node MTOK_CHAR 98, (leaf_node MTOK_SEQ 0)\<lparr>n_a := 3, n_b := 4\<rparr>, (leaf_node MTOK_REP 0)\<lparr>n_a := 1\<rparr>] 6)
     \<lparr>m_nsub := 1, m_groups := 0 # 1 # replicate 30 0\<rparr>"
  by code_simp

text \<open>A repetition inside a repetition overwrites the path of the outer one: \<^verbatim>\<open>(a*b)*\<close> matches \<^verbatim>\<open>aaba\<close> in \<^verbatim>\<open>aabaac\<close>, which it does not describe.\<close>

lemma nested_repetition_overruns:
  "regexec c_locale (Some (compiled (ascii ''(a*b)*'') REG_EXTENDED)) (Some (ascii ''aabaac'')) 1 0 = Some (M_SUCCESS, Some [(0, 4)])"
  unfolding compiled_nested
  by (simp add: run_posix del: matchfind.simps rep_loop.simps)

lemma compiled_greedy:
  "compiled (ascii ''a*ab'') REG_EXTENDED =
   base_matcher [leaf_node MTOK_END 0, leaf_node MTOK_CHAR 97, (leaf_node MTOK_REP 0)\<lparr>n_a := 1\<rparr>, leaf_node MTOK_CHAR 97,
      (leaf_node MTOK_SEQ 0)\<lparr>n_a := 2, n_b := 3\<rparr>, leaf_node MTOK_CHAR 98, (leaf_node MTOK_SEQ 0)\<lparr>n_a := 4, n_b := 5\<rparr>] 6"
  by code_simp

text \<open>What follows a repetition in a sequence does not make it give back: \<^verbatim>\<open>a*ab\<close> does not match \<^verbatim>\<open>aab\<close>.\<close>

lemma no_backtracking_in_sequence:
  "regexec c_locale (Some (compiled (ascii ''a*ab'') REG_EXTENDED)) (Some (ascii ''aab'')) 1 0 = Some (M_NOMATCH, None)"
  unfolding compiled_greedy
  by (simp add: run_posix del: matchfind.simps rep_loop.simps)

text \<open>Merging two ranges of a class moves only one of the five tables, so \<^verbatim>\<open>[acb]\<close> does not contain \<^verbatim>\<open>c\<close>.\<close>

lemma class_merge_loses_member: "\<not> match_in_class c_locale (compiled (ascii ''[acb]'') REG_EXTENDED) 99 0 False"
  by code_simp

text \<open>An unmatched parenthesis ends the pattern: the rest is dropped without an error.\<close>

lemma rest_of_pattern_ignored: "m_arena (compiled (ascii ''a)b'') REG_EXTENDED) = m_arena (compiled (ascii ''a'') REG_EXTENDED)"
  by code_simp

text \<open>Repetition counts are stored in a byte.\<close>

lemma repeat_count_wraps: "(\<lambda>n. (n_min n, n_max n)) (m_arena (compiled (ascii ''a{256}'') REG_EXTENDED) ! 2) = (0, 0)"
  by code_simp

text \<open>A group that does not capture takes a number all the same.\<close>

lemma group_number_skipped: "n_cap (m_arena (compiled (ascii ''(?:a)(b)'') REG_PCRE2) ! 2) = 2"
  by code_simp

text \<open>The first digit of a call is skipped, so \<^verbatim>\<open>(?2)\<close> calls the whole pattern.\<close>

lemma call_number_loses_digit: "n_val (m_arena (compiled (ascii ''(?2)'') REG_PCRE2) ! 1) = 0"
  by code_simp

text \<open>The translation of basic expressions escapes the star, which is special in them.\<close>

lemma bre_star_escaped: "bre_trans (ascii ''a*'') REGEX_MAX_PATTERN = Some [97, 92, 42]"
  by code_simp

text \<open>A pattern of 2048 dots fills the translation buffer of 4096 bytes and the terminator goes behind it.\<close>

lemma bre_loop_dots: "k + 2 * n \<le> m \<Longrightarrow> bre_loop m k (replicate n 46) = concat (replicate n [92, 46])"
  by (induction n arbitrary: k) (auto simp: bre_specials_def)

lemma bre_trans_overruns: "bre_trans (replicate 2048 46) REGEX_MAX_PATTERN = None"
proof -
  have "length (concat (replicate n [92, 46 :: byte])) = 2 * n" for n by (induction n) auto
  then show ?thesis using bre_loop_dots [of 0 2048 REGEX_MAX_PATTERN] by (simp add: bre_trans_def REGEX_MAX_PATTERN_def Let_def)
qed

end
