(* ===== verification/Spec2Isabelle.thy ===== *)
theory Spec2Isabelle
  imports Ctype Strings Libgen Fnmatch Sort Env Rand Lock Md5 Kdf Chacha20 Keccak Blake2 Router Calendar Utf8 Inet Regex
begin

text \<open>
  \<^bold>\<open>A verification development for JACLibc\<close>, a C library that lives entirely in headers under \<^verbatim>\<open>src/include\<close>.

  \<^bold>\<open>The program.\<close>  The headers fall into groups that build on each other:

  \<^item> the freestanding core of ISO C: characters, memory blocks, strings, bits, sorting and searching (\<^verbatim>\<open>ctype.h\<close>,
    \<^verbatim>\<open>string.h\<close>, \<^verbatim>\<open>strings.h\<close>, \<^verbatim>\<open>stdbit.h\<close>, \<^verbatim>\<open>endian.h\<close>, \<^verbatim>\<open>search.h\<close>, \<^verbatim>\<open>stdlib.h\<close>);
  \<^item> POSIX services that are pure functions of strings (\<^verbatim>\<open>libgen.h\<close>, \<^verbatim>\<open>fnmatch.h\<close>), the calendar (\<^verbatim>\<open>time.h\<close>), multibyte
    characters (\<^verbatim>\<open>wchar.h\<close>, \<^verbatim>\<open>uchar.h\<close>), and the process environment and exit handlers (\<^verbatim>\<open>stdlib.h\<close>, \<^verbatim>\<open>core/stdlib.h\<close>);
  \<^item> the allocator (\<^verbatim>\<open>core/memory.h\<close>) with its per-thread arena, its bins of free blocks, its ticket locks, and \<^verbatim>\<open>fork\<close>
    (\<^verbatim>\<open>core/unistd.h\<close>), which takes and releases the locks;
  \<^item> cryptography (\<^verbatim>\<open>crypto/*.h\<close>): hashes, message authentication, key derivation, an authenticated cipher;
  \<^item> regular expressions (\<^verbatim>\<open>regex.h\<close>, \<^verbatim>\<open>core/match.h\<close>): one pattern compiler and one engine behind the POSIX, PCRE2 and RE2
    interfaces, on top of the wide-character classes (\<^verbatim>\<open>wctype.h\<close>);
  \<^item> the request router of the network layer (\<^verbatim>\<open>transit/route.h\<close>).

  \<^bold>\<open>Theories and what they model.\<close>  A definition has the name of the C function it translates where HOL allows it; a
  helper with a suffix \<open>_loop\<close> is the loop inside that function.

  \<^item> \<open>Prelude\<close>: the integer types as words, the flat memory (a total map from addresses to bytes, 0 being NULL), NUL-terminated
    strings in memory, \<^verbatim>\<open>errno\<close> values.
  \<^item> \<open>Ctype\<close>, \<open>CMem\<close>, \<open>CStr\<close>, \<open>Strings\<close>, \<open>Stdbit\<close>: the freestanding core.  Shown: \<^verbatim>\<open>memmove\<close> is right for every
    overlap, the bounded string functions never write outside their buffer, tokenising, searching and comparing meet their
    specifications, the de Bruijn tables find bits.
  \<^item> \<open>Search\<close>: linear search, the hash table and the binary tree of \<^verbatim>\<open>search.h\<close>.  Shown: the answers of the hash table, errors included, are
    those of a finite map of bounded size, the
    tree keeps its order under insertion and deletion.  The locale \<open>comparator\<close> is the contract of the callbacks.
  \<^item> \<open>Sort\<close>: \<^verbatim>\<open>qsort\<close> and \<^verbatim>\<open>bsearch\<close>.  Shown: \<^verbatim>\<open>qsort\<close> returns and permutes for every callback (and, on an example, does not sort).
  \<^item> \<open>Libgen\<close>, \<open>Fnmatch\<close>: path names and shell patterns, the latter equivalent to a declarative meaning of patterns.
  \<^item> \<open>Env\<close>, \<open>Rand\<close>: environment, exit handlers, temporary names; division, random numbers, radix-64 numbers.
  \<^item> \<open>Memory\<close>, \<open>Lock\<close>: the allocator with \<^verbatim>\<open>malloc\<close>, \<^verbatim>\<open>free\<close>, \<^verbatim>\<open>realloc\<close> and their relatives on a heap record, and its locks
    as a step relation over interleaved threads.  Shown: the bins refine lists of blocks per size class, an allocation below \<open>2\<^sup>32 - 64\<close> bytes returns a
    block that is large enough or fails with \<^verbatim>\<open>ENOMEM\<close>, the blocks of the first \<open>2\<^sup>20\<close> arena operations are disjoint; mutual exclusion, first come first served
    and bounded waiting across wrap-around of the 32-bit counters; what \<^verbatim>\<open>fork\<close> leaves of the locks in parent and child, with other threads waiting.
  \<^item> \<open>CryptoBase\<close>, \<open>Digest\<close>, \<open>Md5\<close>, \<open>Sha2\<close>, \<open>Keccak\<close>, \<open>Blake2\<close>, \<open>Kdf\<close>, \<open>Poly1305\<close>, \<open>Chacha20\<close>: \<open>Digest\<close> holds the
    locales \<open>block_feed\<close> (a context that buffers bytes and compresses full blocks) and \<open>md_hash\<close> (Merkle-Damgard padding), which
    every iterated hash interprets on its own context; \<open>Blake2\<close> has \<open>lazy_feed\<close> for contexts that keep their last block back.  The 64-bit stores of \<^verbatim>\<open>crypto/base.h\<close> write
    indeterminate words, because a macro variable is shadowed by one initialised from itself.  These words (type \<open>stale\<close>) are arguments of
    the store and of every function that calls it, so each theorem says which part of a result they reach.  Shown, up to these words: equality with the functions of the standards (FIPS 180-4, FIPS 202
    up to one wrong constant, RFC 1321; RFC 7693 and RFC 8018 without a reservation), decryption returns the plaintext or refuses, and accepts exactly one tag.
  \<^item> \<open>Route\<close>, \<open>Router\<close>: route patterns, the linked list of routes in an explicit store, dispatch.  Shown: matching is
    the declarative meaning of a pattern, the list refines a list of routes with no leak and no use after free (locale
    \<open>route_registry\<close>), dispatch ends for all handlers that forward or return.
  \<^item> \<open>Calendar\<close>: \<^verbatim>\<open>mktime\<close> and \<^verbatim>\<open>gmtime\<close> are inverse where the year fits an \<^verbatim>\<open>int\<close> and agree with the closed formula of the Gregorian calendar;
    \<^verbatim>\<open>strftime\<close> stays in its buffer.
  \<^item> \<open>Utf8\<close>: decoding accepts exactly the encodings of Unicode scalar values; UTF-8 and UTF-16 round trips.
  \<^item> \<open>Format\<close>, \<open>Scan\<close>: the engine of \<^verbatim>\<open>core/format.h\<close> without floating point, and \<^verbatim>\<open>strtol\<close> with its relatives.  Shown:
    an integer conversion emits the text the flags ask for, a buffer gets the truncation of what a stream gets unless a character of a \<^verbatim>\<open>%s\<close> would
    have to be dropped, in which case the call never returns, \<^verbatim>\<open>strtol\<close> reads the longest
    numeral and clamps it, printed numbers are parsed and scanned back; the deviations from the standard are stated as lemmas.
  \<^item> \<open>Inet\<close>: Internet addresses on top of these.  Shown: IPv4 and uncompressed IPv6 addresses survive printing and parsing, printing
    stays in the buffer.
  \<^item> \<open>Wctype\<close>: the wide-character classes and case mappings at an explicit locale.
  \<^item> \<open>Match\<close>, \<open>MatchSafe\<close>, \<open>MatchLang\<close>: the regular expression engine.  \<open>Match\<close> has the node arena, one definition for each
    \<^verbatim>\<open>__jacl_prim_*\<close>, the dispatcher \<open>matchfind\<close> and the search \<open>matchexec\<close>; the mutual recursion goes through an argument that stands for
    \<^verbatim>\<open>matchfind\<close>, whose laws are the locales \<open>engine\<close> (memory safety, captures in range, the depth never lowered) and \<open>sound_engine\<close>
    (what is reported is in the language), interpreted on \<open>matchfind\<close> itself.  \<open>MatchLang\<close> defines the language of an arena.
  \<^item> \<open>MatchComp\<close>, \<open>MatchWf\<close>: the pattern compiler, one definition for each \<^verbatim>\<open>__jacl_paren_*\<close>, \<^verbatim>\<open>__jacl_atom_*\<close> and \<^verbatim>\<open>__jacl_match_*\<close>, and
    the invariant that every parsing function keeps (locale \<open>sub_parser\<close>).
  \<^item> \<open>Regex\<close>: the interfaces.  Shown: \<^verbatim>\<open>regcomp\<close> answers (for basic expressions below 2048 bytes) and accepts only well-formed patterns, \<^verbatim>\<open>regexec\<close> on what was
    compiled without an undefined step is memory safe and ends, a short literal pattern finds the first occurrence of a string; the deviations from POSIX are stated as lemmas.

  \<^bold>\<open>Conventions.\<close>  Machine integers are words where wrap-around matters and unbounded integers with explicit bounds where it does
  not; \<open>None\<close> in a result stands for undefined behaviour or for a loop that does not return, and the properties prove under which
  conditions it does not occur.  The negation of the smallest signed value in the formatter, undefined in C, has the two's complement result.  Buffers handed between functions are byte lists, or regions of the flat memory where aliasing matters.  What the code calls
  but does not define (the system calls, an entropy source, user callbacks) is an argument of the definitions.

  \<^bold>\<open>Bounds and fuel.\<close>  Loops over strings without a bound are \<open>partial_function (option)\<close>, proved to return on terminated strings.
  \<open>route_forward\<close> takes fuel for its recursion; 18 is enough because every call below the limit of 16 hops counts one.  \<open>matchfind\<close>
  takes one more than \<^verbatim>\<open>MATCH_MAX_DEPTH\<close>, because every call raises the depth or returns at once, and the loops of the pattern compiler take
  one more than the length of the pattern, because every round consumes a byte; both are proved to suffice for every input.  The
  arena of a pattern is a list without the limit of 32-bit indices, and whether an allocation succeeds is a parameter.  All other loops are structural or have a measure.

  \<^bold>\<open>Not modelled.\<close>  Wrappers of system calls (files, processes, sockets, IPC, threads, signals, timers), since their meaning is
  the kernel's; the buffering of standard I/O and the wide-character copies of the string functions; floating-point formatting and the floating-point
  library; locale data and the tables generated under \<^verbatim>\<open>include/x\<close>; assembly and platform configuration; \<^verbatim>\<open>crypto/aes.h\<close>,
  which holds no code, and \<^verbatim>\<open>crypto/sha1.h\<close>, a copy of \<^verbatim>\<open>sha2.h\<close>.
\<close>

end
